(* ===== verification/Prelude.thy ===== *)
theory Prelude
  imports Main "HOL-Library.Monad_Syntax"
begin

text \<open>
  What the components share: C arrays as lists with checked access, counted loops, and the
  two rotations that the tree code performs with runs of adjacent swaps.

  An array operation returns \<open>None\<close> exactly when the C++ expression it stands for has
  undefined behaviour (an index past the end of the allocation, a read of memory in which no
  object lives). The \<open>do\<close> notation of the option monad sequences such operations.
\<close>

named_theorems arr_simps \<open>rewrite rules that evaluate checked array accesses\<close>

section \<open>Checked arrays\<close>

definition arr_get :: "'a list \<Rightarrow> nat \<Rightarrow> 'a option" where
  "arr_get xs i = (if i < length xs then Some (xs ! i) else None)"

definition arr_set :: "'a list \<Rightarrow> nat \<Rightarrow> 'a \<Rightarrow> 'a list option" where
  "arr_set xs i v = (if i < length xs then Some (xs[i := v]) else None)"

text \<open>\<open>std::swap(xs[i], xs[j])\<close>.\<close>

definition arr_swap :: "'a list \<Rightarrow> nat \<Rightarrow> nat \<Rightarrow> 'a list option" where
  "arr_swap xs i j = do {
     a \<leftarrow> arr_get xs i;
     b \<leftarrow> arr_get xs j;
     xs' \<leftarrow> arr_set xs i b;
     arr_set xs' j a
   }"

lemma arr_get_in [simp, arr_simps]: "i < length xs \<Longrightarrow> arr_get xs i = Some (xs ! i)"
  by (simp add: arr_get_def)

lemma arr_get_out [simp, arr_simps]: "length xs \<le> i \<Longrightarrow> arr_get xs i = None"
  by (simp add: arr_get_def)

lemma arr_get_Some_iff: "arr_get xs i = Some x \<longleftrightarrow> i < length xs \<and> xs ! i = x"
  by (auto simp: arr_get_def)

lemma arr_set_in [simp, arr_simps]: "i < length xs \<Longrightarrow> arr_set xs i v = Some (xs[i := v])"
  by (simp add: arr_set_def)

lemma arr_set_out [simp, arr_simps]: "length xs \<le> i \<Longrightarrow> arr_set xs i v = None"
  by (simp add: arr_set_def)

lemma arr_swap_in [simp, arr_simps]:
  "i < length xs \<Longrightarrow> j < length xs \<Longrightarrow> arr_swap xs i j = Some (xs[i := xs ! j, j := xs ! i])"
  by (simp add: arr_swap_def)

lemma arr_swap_out: "length xs \<le> i \<or> length xs \<le> j \<Longrightarrow> arr_swap xs i j = None"
  by (cases "i < length xs"; cases "j < length xs") (auto simp: arr_swap_def)

lemma arr_swap_commute: "arr_swap xs i j = arr_swap xs j i"
proof (cases "i < length xs \<and> j < length xs")
  case True
  then show ?thesis
    by (cases "i = j") (auto simp: list_update_swap)
next
  case False
  then show ?thesis by (auto simp: arr_swap_out)
qed

section \<open>Counted loops\<close>

text \<open>
  \<open>for_loop body is s\<close> runs the body for the index values of the list in order; the loop
  \<open>for (i = a; i < b; ++i)\<close> is \<open>for_loop body [a..<b]\<close>, the loop
  \<open>for (i = b; i > a; --i)\<close> is \<open>for_loop body (rev [a + 1..<b + 1])\<close>.
\<close>

fun for_loop :: "(nat \<Rightarrow> 's \<Rightarrow> 's option) \<Rightarrow> nat list \<Rightarrow> 's \<Rightarrow> 's option" where
  "for_loop f [] s = Some s"
| "for_loop f (i # js) s = do { s' \<leftarrow> f i s; for_loop f js s' }"

lemma for_loop_append:
  "for_loop f (js @ ks) s = do { s' \<leftarrow> for_loop f js s; for_loop f ks s' }"
  by (induction js arbitrary: s) (auto split: bind_split)

lemma for_loop_map: "for_loop f (map g js) s = for_loop (\<lambda>i. f (g i)) js s"
  by (induction js arbitrary: s) (auto split: bind_split)

lemma for_loop_cong [cong]:
  "js = ks \<Longrightarrow> s = s' \<Longrightarrow> (\<And>i t. i \<in> set ks \<Longrightarrow> f i t = g i t) \<Longrightarrow> for_loop f js s = for_loop g ks s'"
  by (induction js arbitrary: ks s s') (auto split: bind_split intro!: Option.bind_cong)

text \<open>Two arrays rearranged in one loop: each goes its own way when neither access fails.\<close>

lemma for_loop_pair:
  assumes "for_loop f js a = Some a'" and "for_loop g js b = Some b'"
  shows "for_loop (\<lambda>i (x, y). do { x' \<leftarrow> f i x; y' \<leftarrow> g i y; Some (x', y') }) js (a, b) = Some (a', b')"
  using assms
  by (induction js arbitrary: a b) (auto split: bind_splits simp: Option.bind_eq_Some_conv)

text \<open>A loop whose first failing access is in the first array fails.\<close>

lemma for_loop_None_prefix: "for_loop f js s = None \<Longrightarrow> for_loop f (js @ ks) s = None"
  by (simp add: for_loop_append)

section \<open>Rotations by adjacent swaps\<close>

text \<open>
  \<open>move_down n s xs\<close>: the element at \<open>n\<close> moves down to \<open>s\<close>, the ones between go up by one.
  \<open>move_up a b xs\<close>: the element at \<open>a\<close> moves up to \<open>b\<close>, the ones between go down by one.
\<close>

definition move_down :: "nat \<Rightarrow> nat \<Rightarrow> 'a list \<Rightarrow> 'a list" where
  "move_down n s xs = take s xs @ xs ! n # take (n - s) (drop s xs) @ drop (Suc n) xs"

definition move_up :: "nat \<Rightarrow> nat \<Rightarrow> 'a list \<Rightarrow> 'a list" where
  "move_up a b xs = take a xs @ take (b - a) (drop (Suc a) xs) @ xs ! a # drop (Suc b) xs"

lemma length_move_down [simp]: "s \<le> n \<Longrightarrow> n < length xs \<Longrightarrow> length (move_down n s xs) = length xs"
  by (simp add: move_down_def)

lemma length_move_up [simp]: "a \<le> b \<Longrightarrow> b < length xs \<Longrightarrow> length (move_up a b xs) = length xs"
  by (simp add: move_up_def)

lemma move_down_same [simp]: "n < length xs \<Longrightarrow> move_down n n xs = xs"
  by (simp add: move_down_def Cons_nth_drop_Suc)

lemma move_up_same [simp]: "n < length xs \<Longrightarrow> move_up n n xs = xs"
  by (simp add: move_up_def Cons_nth_drop_Suc)

lemma nth_move_down:
  assumes "s \<le> n" "n < length xs" "j < length xs"
  shows "move_down n s xs ! j =
    (if j < s \<or> n < j then xs ! j else if j = s then xs ! n else xs ! (j - 1))"
proof -
  consider "j < s" | "j = s" | "s < j" "j \<le> n" | "n < j" by linarith
  then show ?thesis
  proof cases
    case 3
    then have "move_down n s xs ! j = take (n - s) (drop s xs) ! (j - Suc s)"
      using assms by (auto simp: move_down_def nth_append nth_Cons')
    also have "\<dots> = xs ! (s + (j - Suc s))" using 3 assms by simp
    also have "s + (j - Suc s) = j - 1" using 3 by simp
    finally show ?thesis using 3 by auto
  next
    case 4
    then have "move_down n s xs ! j = drop (Suc n) xs ! (j - Suc n)"
      using assms by (auto simp: move_down_def nth_append nth_Cons')
    then show ?thesis using 4 assms by simp
  qed (use assms in \<open>simp_all add: move_down_def nth_append min_def\<close>)
qed

lemma nth_move_up:
  assumes "a \<le> b" "b < length xs" "j < length xs"
  shows "move_up a b xs ! j =
    (if j < a \<or> b < j then xs ! j else if j = b then xs ! a else xs ! Suc j)"
proof -
  consider "j < a" | "a \<le> j" "j < b" | "j = b" | "b < j" by linarith
  then show ?thesis
  proof cases
    case 2
    then have "move_up a b xs ! j = take (b - a) (drop (Suc a) xs) ! (j - a)"
      using assms by (auto simp: move_up_def nth_append)
    then show ?thesis using 2 assms by simp
  next
    case 4
    then have "move_up a b xs ! j = drop (Suc b) xs ! (j - Suc b)"
      using assms by (auto simp: move_up_def nth_append nth_Cons')
    then show ?thesis using 4 assms by simp
  qed (use assms in \<open>simp_all add: move_up_def nth_append min_def\<close>)
qed

lemma move_down_step:
  assumes "s < n" "n < length xs"
  shows "move_down n s xs = (move_down n (Suc s) xs)[s := xs ! n, Suc s := xs ! s]"
proof (rule nth_equalityI)
  fix j assume "j < length (move_down n s xs)"
  then have "j < length xs" using assms by simp
  then show "move_down n s xs ! j = (move_down n (Suc s) xs)[s := xs ! n, Suc s := xs ! s] ! j"
    using assms by (auto simp: nth_move_down nth_list_update)
qed (use assms in simp)

lemma move_up_step:
  assumes "a \<le> b" "Suc b < length xs"
  shows "move_up a (Suc b) xs = (move_up a b xs)[b := xs ! Suc b, Suc b := xs ! a]"
proof (rule nth_equalityI)
  fix j assume "j < length (move_up a (Suc b) xs)"
  then have "j < length xs" using assms by simp
  then show "move_up a (Suc b) xs ! j = (move_up a b xs)[b := xs ! Suc b, Suc b := xs ! a] ! j"
    using assms by (auto simp: nth_move_up nth_list_update less_Suc_eq)
qed (use assms in simp)

text \<open>The loops that perform the rotations.\<close>

lemma swap_down_loop:
  assumes "s \<le> n" "n < length xs"
  shows "for_loop (\<lambda>i ys. arr_swap ys i (i - Suc 0)) (rev [Suc s..<Suc n]) xs = Some (move_down n s xs)"
  using assms
proof (induction "n - s" arbitrary: s)
  case 0
  then show ?case by simp
next
  case (Suc m)
  then have "m = n - Suc s" "Suc s \<le> n" by simp_all
  then have IH: "for_loop (\<lambda>i ys. arr_swap ys i (i - Suc 0)) (rev [Suc (Suc s)..<Suc n]) xs
      = Some (move_down n (Suc s) xs)"
    using Suc by blast
  have "rev [Suc s..<Suc n] = rev [Suc (Suc s)..<Suc n] @ [Suc s]"
    using \<open>Suc s \<le> n\<close> by (simp add: upt_conv_Cons)
  then show ?case
    using IH Suc.prems \<open>Suc s \<le> n\<close>
    by (simp add: for_loop_append move_down_step nth_move_down list_update_swap del: upt_Suc)
qed

lemma swap_up_loop:
  assumes "a \<le> b" "b < length xs"
  shows "for_loop (\<lambda>i ys. arr_swap ys i (Suc i)) [a..<b] xs = Some (move_up a b xs)"
  using assms
proof (induction "b - a" arbitrary: b)
  case 0
  then show ?case by simp
next
  case (Suc m)
  then obtain c where b: "b = Suc c" "m = c - a" "a \<le> c" by (cases b) auto
  then have IH: "for_loop (\<lambda>i ys. arr_swap ys i (Suc i)) [a..<c] xs = Some (move_up a c xs)"
    using Suc by simp
  then show ?case
    using b Suc.prems by (simp add: for_loop_append move_up_step nth_move_up)
qed

text \<open>Index shifts: a loop over shifted indices swaps in the shifted place.\<close>

lemma swap_up_loop_Suc:
  assumes "a \<le> b" "Suc b < length xs"
  shows "for_loop (\<lambda>i ys. arr_swap ys (Suc i) (Suc (Suc i))) [a..<b] xs = Some (move_up (Suc a) (Suc b) xs)"
proof -
  have "for_loop (\<lambda>i ys. arr_swap ys (Suc i) (Suc (Suc i))) [a..<b] xs
      = for_loop (\<lambda>i ys. arr_swap ys i (Suc i)) (map Suc [a..<b]) xs"
    by (simp add: for_loop_map)
  also have "map Suc [a..<b] = [Suc a..<Suc b]" by (simp add: map_Suc_upt)
  finally show ?thesis using assms by (simp add: swap_up_loop del: upt_Suc)
qed

lemma swap_down_loop_Suc:
  assumes "s \<le> n" "Suc n < length xs"
  shows "for_loop (\<lambda>i ys. arr_swap ys i (Suc i)) (rev [Suc s..<Suc n]) xs
    = Some (move_down (Suc n) (Suc s) xs)"
proof -
  have "for_loop (\<lambda>i ys. arr_swap ys i (Suc i)) (rev [Suc s..<Suc n]) xs
      = for_loop (\<lambda>i ys. arr_swap ys i (i - Suc 0)) (map Suc (rev [Suc s..<Suc n])) xs"
    unfolding for_loop_map by (simp add: arr_swap_commute)
  also have "map Suc (rev [Suc s..<Suc n]) = rev [Suc (Suc s)..<Suc (Suc n)]"
    by (simp add: rev_map [symmetric] map_Suc_upt del: upt_Suc)
  finally show ?thesis using assms by (simp add: swap_down_loop del: upt_Suc)
qed

section \<open>Prefixes of arrays\<close>

lemma take_Suc_snoc: "n < length xs \<Longrightarrow> take (Suc n) xs = take n xs @ [xs ! n]"
  by (simp add: take_Suc_conv_app_nth)

lemma nth_take_eq: "take n xs = ys \<Longrightarrow> i < n \<Longrightarrow> n \<le> length xs \<Longrightarrow> xs ! i = ys ! i"
  by (metis nth_take)

lemma take_move_down:
  assumes "s \<le> n" "n < length xs" "n < m" "m \<le> length xs"
  shows "take m (move_down n s xs) = move_down n s (take m xs)"
  using assms by (intro nth_equalityI) (auto simp: nth_move_down)

lemma move_down_snoc:
  "s \<le> length xs \<Longrightarrow> move_down (length xs) s (xs @ [x]) = take s xs @ x # drop s xs"
  by (simp add: move_down_def)

lemma take_move_up_drop:
  assumes "a \<le> b" "b < length xs"
  shows "take b (move_up a b xs) = take a xs @ take (b - a) (drop (Suc a) xs)"
  using assms by (simp add: move_up_def)

end
