(* ===== verification/Search_Tree.thy ===== *)
theory Search_Tree
  imports Prelude
begin

text \<open>
  The node layer of the B-tree: \<open>search_tree.h\<close>. A node owns an array of \<open>2 * t - 1\<close> slots for
  key-value pairs and an array of \<open>2 * t\<close> subtree pointers, of which the first \<open>virtual_size\<close>
  (respectively \<open>virtual_size + 1\<close>) are in use. A slot is raw memory, a moved-from object or a
  live object; a subtree pointer is the subtree it owns, \<open>None\<close> for \<open>nullptr\<close>. Pointers past
  the used prefix are never followed and may be stale.
\<close>

section \<open>Data\<close>

datatype 'a slot = Raw | Moved | Live 'a

fun the_live :: "'a slot \<Rightarrow> 'a" where
  "the_live (Live x) = x"

datatype ('k, 'v) common_node =
  Node (keys_and_values: "('k \<times> 'v) slot list")
       (subtrees: "('k, 'v) common_node option list")
       (virtual_size: nat)

text \<open>The exceptions of the tree operations; the last one stands for undefined behaviour.\<close>

datatype 'k tree_exn =
    Insertion_of_existent_key 'k
  | Obtaining_of_nonexistent_key 'k
  | Updating_of_nonexistent_key 'k
  | Disposal_of_nonexistent_key 'k
  | Bad_alloc
  | Logic_error string
  | Undefined_behaviour

definition or_ub :: "'a option \<Rightarrow> 'k tree_exn + 'a" where
  "or_ub m = (case m of None \<Rightarrow> Inl Undefined_behaviour | Some x \<Rightarrow> Inr x)"

lemma or_ub_simps [simp]: "or_ub None = Inl Undefined_behaviour" "or_ub (Some x) = Inr x"
  by (simp_all add: or_ub_def)

section \<open>Slots\<close>

definition slot_read :: "'a slot list \<Rightarrow> nat \<Rightarrow> 'a option" where
  "slot_read xs i = do { s \<leftarrow> arr_get xs i; case s of Live x \<Rightarrow> Some x | _ \<Rightarrow> None }"

text \<open>\<open>allocator::construct\<close>, \<open>allocator::destruct\<close> and a move out of a slot.\<close>

definition construct :: "'a slot list \<Rightarrow> nat \<Rightarrow> 'a \<Rightarrow> 'a slot list option" where
  "construct xs i x = arr_set xs i (Live x)"

definition destruct :: "'a slot list \<Rightarrow> nat \<Rightarrow> 'a slot list option" where
  "destruct xs i = arr_set xs i Raw"

definition slot_move :: "'a slot list \<Rightarrow> nat \<Rightarrow> ('a \<times> 'a slot list) option" where
  "slot_move xs i = do { x \<leftarrow> slot_read xs i; xs' \<leftarrow> arr_set xs i Moved; Some (x, xs') }"

text \<open>\<open>std::swap\<close> of an array element with a variable: the old element and the new array.\<close>

definition slot_exchange :: "'a slot list \<Rightarrow> nat \<Rightarrow> 'a \<Rightarrow> ('a \<times> 'a slot list) option" where
  "slot_exchange xs i y = do { x \<leftarrow> slot_read xs i; xs' \<leftarrow> arr_set xs i (Live y); Some (x, xs') }"

definition arr_exchange :: "'a list \<Rightarrow> nat \<Rightarrow> 'a \<Rightarrow> ('a \<times> 'a list) option" where
  "arr_exchange xs i y = do { x \<leftarrow> arr_get xs i; xs' \<leftarrow> arr_set xs i y; Some (x, xs') }"

section \<open>Node operations\<close>

text \<open>
  \<open>create_node\<close> with its three allocations taken as one unit: \<open>mem\<close> counts the nodes the
  allocator can still supply, \<open>Inl Bad_alloc\<close> is the \<open>std::bad_alloc\<close> it throws.
\<close>

definition create_node :: "nat \<Rightarrow> nat \<Rightarrow> 'k tree_exn + (('k, 'v) common_node \<times> nat)" where
  "create_node mem t =
     (if mem = 0 then Inl Bad_alloc
      else Inr (Node (replicate (2 * t - 1) Raw) (replicate (2 * t) None) 0, mem - 1))"

text \<open>\<open>destroy_node\<close> gives the node's memory back.\<close>

definition destroy_node :: "nat \<Rightarrow> ('k, 'v) common_node \<Rightarrow> nat" where
  "destroy_node mem n = mem + 1"

text \<open>
  The binary search of \<open>node_find_path\<close>: the index of the key, or \<open>- (p + 1)\<close> for the index \<open>p\<close>
  of the subtree to descend into. Callers pass \<open>l \<le> r\<close>; with \<open>r < l\<close> the loop of the code has
  no defined result.
\<close>

function node_find_path ::
  "('k \<Rightarrow> 'k \<Rightarrow> int) \<Rightarrow> ('k, 'v) common_node \<Rightarrow> 'k \<Rightarrow> nat \<Rightarrow> nat \<Rightarrow> int option" where
  "node_find_path cmp n key l r =
     (if r < l then None else
      let index = (l + r) div 2 in do {
        kv \<leftarrow> slot_read (keys_and_values n) index;
        let comparison_result = cmp key (fst kv);
        if comparison_result = 0 then Some (int index)
        else if l = r then Some (- (int index + (if comparison_result < 0 then 0 else 1) + 1))
        else if comparison_result < 0 then node_find_path cmp n key l index
        else node_find_path cmp n key (index + 1) r
      })"
  by pat_completeness auto
termination
  by (relation "measure (\<lambda>(cmp, n, key, l, r). r - l)") auto

declare node_find_path.simps [simp del]

text \<open>
  \<open>node_insert\<close>: the new pair is constructed behind the last one, the new right subtree behind
  the last subtree, and both are swapped down to their places.
\<close>

definition node_insert ::
  "('k, 'v) common_node \<Rightarrow> 'k \<times> 'v \<Rightarrow> nat \<Rightarrow> ('k, 'v) common_node option
    \<Rightarrow> ('k, 'v) common_node option" where
  "node_insert n kvp subtree_index right_subtree = do {
     let vs = virtual_size n;
     kv \<leftarrow> construct (keys_and_values n) vs kvp;
     sb \<leftarrow> arr_set (subtrees n) (vs + 1) right_subtree;
     (kv', sb') \<leftarrow> for_loop (\<lambda>i (kv, sb). do {
         kv' \<leftarrow> arr_swap kv (vs - i) (vs - (i + 1));
         sb' \<leftarrow> arr_swap sb (vs + 1 - i) (vs - i);
         Some (kv', sb')
       }) [0..<vs - subtree_index] (kv, sb);
     Some (Node kv' sb' (vs + 1))
   }"

text \<open>
  \<open>node_split\<close> of a full node: the first part makes room for the new pair on its side of the
  median (the median itself goes to \<open>kvp\<close>, the subtree right of it to \<open>right_subtree\<close>), the
  second part moves the upper half into a new node.
\<close>

definition split_make_room ::
  "('k \<times> 'v) slot list \<Rightarrow> ('k, 'v) common_node option list \<Rightarrow> nat \<Rightarrow> 'k \<times> 'v \<Rightarrow> nat
    \<Rightarrow> ('k, 'v) common_node option
    \<Rightarrow> (('k \<times> 'v) \<times> ('k, 'v) common_node option
         \<times> ('k \<times> 'v) slot list \<times> ('k, 'v) common_node option list) option" where
  "split_make_room kv sb mediant_index kvp subtree_index right_subtree =
     (if subtree_index < mediant_index then do {
        (kvp', kv1) \<leftarrow> slot_exchange kv (mediant_index - 1) kvp;
        (right', sb1) \<leftarrow> arr_exchange sb mediant_index right_subtree;
        (kv2, sb2) \<leftarrow> for_loop (\<lambda>i (kv, sb). do {
            kv' \<leftarrow> arr_swap kv (i - 1) i;
            sb' \<leftarrow> arr_swap sb i (i + 1);
            Some (kv', sb')
          }) (rev [subtree_index + 1..<mediant_index]) (kv1, sb1);
        Some (kvp', right', kv2, sb2)
      }
      else if mediant_index < subtree_index then do {
        (kvp', kv1) \<leftarrow> slot_exchange kv mediant_index kvp;
        (right', sb1) \<leftarrow> arr_exchange sb (mediant_index + 1) right_subtree;
        (kv2, sb2) \<leftarrow> for_loop (\<lambda>i (kv, sb). do {
            kv' \<leftarrow> arr_swap kv i (i - 1);
            sb' \<leftarrow> arr_swap sb (i + 1) i;
            Some (kv', sb')
          }) [mediant_index + 1..<subtree_index] (kv1, sb1);
        Some (kvp', right', kv2, sb2)
      }
      else Some (kvp, right_subtree, kv, sb))"

definition split_half_step ::
  "nat \<Rightarrow> nat
    \<Rightarrow> ('k \<times> 'v) slot list \<times> ('k, 'v) common_node option list
       \<times> ('k \<times> 'v) slot list \<times> ('k, 'v) common_node option list
    \<Rightarrow> (('k \<times> 'v) slot list \<times> ('k, 'v) common_node option list
         \<times> ('k \<times> 'v) slot list \<times> ('k, 'v) common_node option list) option" where
  "split_half_step t i = (\<lambda>(kv, sb, new_kv, new_sb). do {
     (x, kv1) \<leftarrow> slot_move kv (t + i);
     new_kv' \<leftarrow> construct new_kv i x;
     kv2 \<leftarrow> destruct kv1 (t + i);
     a \<leftarrow> arr_get new_sb (1 + i);
     (b, sb') \<leftarrow> arr_exchange sb (t + 1 + i) a;
     new_sb' \<leftarrow> arr_set new_sb (1 + i) b;
     Some (kv2, sb', new_kv', new_sb')
   })"

definition split_move_half ::
  "nat \<Rightarrow> ('k \<times> 'v) slot list \<Rightarrow> ('k, 'v) common_node option list
    \<Rightarrow> ('k \<times> 'v) slot list \<Rightarrow> ('k, 'v) common_node option list
    \<Rightarrow> (('k \<times> 'v) slot list \<times> ('k, 'v) common_node option list
         \<times> ('k \<times> 'v) slot list \<times> ('k, 'v) common_node option list) option" where
  "split_move_half t kv sb new_kv new_sb =
     for_loop (split_half_step t) [0..<t - 1] (kv, sb, new_kv, new_sb)"

definition node_split ::
  "nat \<Rightarrow> ('k, 'v) common_node \<Rightarrow> 'k \<times> 'v \<Rightarrow> nat \<Rightarrow> ('k, 'v) common_node option
    \<Rightarrow> 'k tree_exn + (('k, 'v) common_node \<times> ('k, 'v) common_node \<times> ('k \<times> 'v) \<times> nat)" where
  "node_split mem n kvp subtree_index right_subtree =
     (let t = (virtual_size n + 1) div 2 in
      case create_node mem t of
        Inl e \<Rightarrow> Inl e
      | Inr (new_node, mem') \<Rightarrow> or_ub (do {
          (kvp', right', kv1, sb1) \<leftarrow>
            split_make_room (keys_and_values n) (subtrees n) t kvp subtree_index right_subtree;
          (kv2, sb2, new_kv, new_sb) \<leftarrow>
            split_move_half t kv1 sb1 (keys_and_values new_node) (subtrees new_node);
          new_sb' \<leftarrow> arr_set new_sb 0 right';
          Some (Node kv2 sb2 t, Node new_kv new_sb' (t - 1), kvp', mem')
        }))"

text \<open>
  \<open>node_merge\<close>: the separator and the whole right node go behind the left node's content. The
  left node is changed in place; the model writes it back into the parent's pointer.
\<close>

definition merge_step ::
  "('k, 'v) common_node \<Rightarrow> nat
    \<Rightarrow> ('k \<times> 'v) slot list \<times> ('k, 'v) common_node option list \<times> nat \<times> ('k \<times> 'v) slot list
    \<Rightarrow> (('k \<times> 'v) slot list \<times> ('k, 'v) common_node option list \<times> nat \<times> ('k \<times> 'v) slot list) option" where
  "merge_step right i = (\<lambda>(kv, sb, vs, rkv). do {
     (x, rkv') \<leftarrow> slot_move rkv i;
     kv' \<leftarrow> construct kv vs x;
     c \<leftarrow> arr_get (subtrees right) i;
     sb' \<leftarrow> arr_set sb vs c;
     Some (kv', sb', vs + 1, rkv')
   })"

definition merge_append ::
  "('k \<times> 'v) slot list \<Rightarrow> ('k, 'v) common_node option list \<Rightarrow> nat \<Rightarrow> ('k, 'v) common_node
    \<Rightarrow> ('k, 'v) common_node option" where
  "merge_append lkv lsb lvs right = do {
     (kv1, sb1, vs1, rkv) \<leftarrow>
       for_loop (merge_step right) [0..<virtual_size right] (lkv, lsb, lvs, keys_and_values right);
     c \<leftarrow> arr_get (subtrees right) (virtual_size right);
     sb2 \<leftarrow> arr_set sb1 vs1 c;
     Some (Node kv1 sb2 vs1)
   }"

text \<open>
  The loop that closes the gap in the parent. It runs up to the index \<open>vs\<close> itself, one slot and
  one pointer past the used prefixes.
\<close>

definition merge_rotate ::
  "('k \<times> 'v) slot list \<Rightarrow> ('k, 'v) common_node option list \<Rightarrow> nat \<Rightarrow> nat
    \<Rightarrow> (('k \<times> 'v) slot list \<times> ('k, 'v) common_node option list) option" where
  "merge_rotate kv sb parent_index vs = for_loop (\<lambda>i (kv, sb). do {
     kv' \<leftarrow> arr_swap kv i (i + 1);
     sb' \<leftarrow> arr_swap sb (i + 1) (i + 2);
     Some (kv', sb')
   }) [parent_index..<vs] (kv, sb)"

definition node_merge ::
  "nat \<Rightarrow> ('k, 'v) common_node \<Rightarrow> nat \<Rightarrow> 'k tree_exn + (('k, 'v) common_node \<times> nat)" where
  "node_merge mem parent parent_index =
     (if virtual_size parent \<le> parent_index then Inl (Logic_error ''invalid btree merge'')
      else or_ub (do {
        let vs = virtual_size parent;
        left_ptr \<leftarrow> arr_get (subtrees parent) parent_index;
        left_subtree \<leftarrow> left_ptr;
        right_ptr \<leftarrow> arr_get (subtrees parent) (parent_index + 1);
        right_subtree \<leftarrow> right_ptr;
        (x, pkv) \<leftarrow> slot_move (keys_and_values parent) parent_index;
        lkv \<leftarrow> construct (keys_and_values left_subtree) (virtual_size left_subtree) x;
        (pkv', psb) \<leftarrow> merge_rotate pkv (subtrees parent) parent_index vs;
        pkv'' \<leftarrow> destruct pkv' (vs - 1);
        left' \<leftarrow> merge_append lkv (subtrees left_subtree) (virtual_size left_subtree + 1) right_subtree;
        psb' \<leftarrow> arr_set psb parent_index (Some left');
        Some (Node pkv'' psb' (vs - 1), destroy_node mem right_subtree)
      }))"

section \<open>Searching the tree\<close>

text \<open>
  The stack of \<open>find_path\<close>, top first. An entry holds the node that the \<open>common_node **\<close> of the
  code points to (\<open>None\<close> for the null root) and the result of the search in it.
\<close>

type_synonym ('k, 'v) path = "(('k, 'v) common_node option \<times> int) list"

text \<open>The subtree index that a negative search result encodes.\<close>

abbreviation sub_index :: "int \<Rightarrow> nat" where
  "sub_index i \<equiv> nat (- i - 1)"

lemma size_subtree: "arr_get (subtrees n) i = Some (Some c) \<Longrightarrow> size c < size n"
  by (cases n) (auto simp: arr_get_Some_iff dest!: nth_mem size_list_estimation' [where f = "size_option size" and y = "Suc (size c)"])

function find_path_from ::
  "('k \<Rightarrow> 'k \<Rightarrow> int) \<Rightarrow> 'k \<Rightarrow> ('k, 'v) common_node \<Rightarrow> ('k, 'v) path \<Rightarrow> ('k, 'v) path option" where
  "find_path_from cmp key n result = do {
     index \<leftarrow> node_find_path cmp n key 0 (virtual_size n - 1);
     let result' = (Some n, index) # result;
     if 0 \<le> index then Some result'
     else Option.bind (arr_get (subtrees n) (sub_index index)) (\<lambda>ptr.
       case ptr of
         None \<Rightarrow> Some result'
       | Some c \<Rightarrow> find_path_from cmp key c result')
   }"
  by pat_completeness auto
termination
  by (relation "measure (\<lambda>(cmp, key, n, result). size n)") (auto simp: size_subtree)

declare find_path_from.simps [simp del]

definition find_path ::
  "('k \<Rightarrow> 'k \<Rightarrow> int) \<Rightarrow> ('k, 'v) common_node option \<Rightarrow> 'k \<Rightarrow> ('k, 'v) path option" where
  "find_path cmp root key =
     (case root of
        None \<Rightarrow> Some [(None, -1)]
      | Some n \<Rightarrow> find_path_from cmp key n [])"

text \<open>
  Through \<open>*path.top().first\<close> the code writes into the slot its pointer sits in. \<open>plug c path\<close> is
  the root after the node at the end of the path has become \<open>c\<close>: every ancestor's pointer shows
  the changed node.
\<close>

fun plug :: "('k, 'v) common_node option \<Rightarrow> ('k, 'v) path \<Rightarrow> ('k, 'v) common_node option option" where
  "plug c [] = Some c"
| "plug c ((ptr, i) # path) = do {
     p \<leftarrow> ptr;
     sb \<leftarrow> arr_set (subtrees p) (sub_index i) c;
     plug (Some (Node (keys_and_values p) sb (virtual_size p))) path
   }"

section \<open>The order of the keys\<close>

text \<open>
  What the tree relies on in its \<open>_keys_comparer\<close>: the sign of the result is the sign of a
  comparison in a linear order.
\<close>

locale key_order =
  fixes cmp :: "'k::linorder \<Rightarrow> 'k \<Rightarrow> int"
  assumes cmp_less: "cmp a b < 0 \<longleftrightarrow> a < b"
    and cmp_eq: "cmp a b = 0 \<longleftrightarrow> a = b"
begin

lemma cmp_greater: "0 < cmp a b \<longleftrightarrow> b < a"
  using cmp_less [of a b] cmp_eq [of a b] by (cases a b rule: linorder_cases) auto

lemmas cmp_simps = cmp_less cmp_eq cmp_greater

lemma cmp_sgn: "sgn (cmp b a) = - sgn (cmp a b)"
proof -
  consider "a < b" | "a = b" | "b < a" by fastforce
  then show ?thesis
  proof cases
    case 1
    then show ?thesis using cmp_less [of a b] cmp_greater [of b a] by simp
  next
    case 2
    then show ?thesis by (simp add: cmp_eq [THEN iffD2])
  next
    case 3
    then show ?thesis using cmp_less [of b a] cmp_greater [of a b] by simp
  qed
qed

end

section \<open>The content of a node and of a subtree\<close>

text \<open>
  \<open>node_rep t n ks cs\<close>: the arrays of \<open>n\<close> have the capacities that \<open>create_node (t)\<close> gives them, and
  the used prefixes hold the pairs \<open>ks\<close> and the subtree pointers \<open>cs\<close>.
\<close>

definition node_rep ::
  "nat \<Rightarrow> ('k, 'v) common_node \<Rightarrow> ('k \<times> 'v) list \<Rightarrow> ('k, 'v) common_node option list \<Rightarrow> bool" where
  "node_rep t n ks cs \<longleftrightarrow>
     length (keys_and_values n) = 2 * t - 1 \<and> length (subtrees n) = 2 * t \<and>
     length ks \<le> 2 * t - 1 \<and> 1 \<le> t \<and> virtual_size n = length ks \<and>
     take (length ks) (keys_and_values n) = map Live ks \<and>
     take (Suc (length ks)) (subtrees n) = cs"

text \<open>Subtree contents and separators in order.\<close>

fun weave :: "'a list list \<Rightarrow> 'a list \<Rightarrow> 'a list" where
  "weave (c # cs) (k # ks) = c @ k # weave cs ks"
| "weave (c # cs) [] = c"
| "weave [] ks = []"

primrec inorder :: "('k, 'v) common_node \<Rightarrow> ('k \<times> 'v) list" where
  "inorder (Node kv sb vs) =
     weave (take (Suc vs) (map (case_option [] id) (map (map_option inorder) sb)))
       (map the_live (take vs kv))"

fun inorder_ptr :: "('k, 'v) common_node option \<Rightarrow> ('k \<times> 'v) list" where
  "inorder_ptr None = []"
| "inorder_ptr (Some n) = inorder n"

text \<open>
  The shape invariant by height: arrays of the right capacity with live slots, no subtrees in a
  leaf, all subtrees of an inner node present, of the same height and at least half full.
\<close>

definition live_prefix :: "nat \<Rightarrow> ('k, 'v) common_node \<Rightarrow> bool" where
  "live_prefix t n \<longleftrightarrow>
     length (keys_and_values n) = 2 * t - 1 \<and> length (subtrees n) = 2 * t \<and> 1 \<le> t \<and>
     virtual_size n \<le> 2 * t - 1 \<and>
     list_all (\<lambda>s. case s of Live _ \<Rightarrow> True | _ \<Rightarrow> False) (take (virtual_size n) (keys_and_values n))"

fun wf_node :: "nat \<Rightarrow> nat \<Rightarrow> ('k, 'v) common_node \<Rightarrow> bool" where
  "wf_node t 0 n \<longleftrightarrow> live_prefix t n \<and>
     list_all (\<lambda>c. c = None) (take (Suc (virtual_size n)) (subtrees n))"
| "wf_node t (Suc h) n \<longleftrightarrow> live_prefix t n \<and>
     list_all (\<lambda>c. case c of None \<Rightarrow> False | Some m \<Rightarrow> wf_node t h m \<and> t - 1 \<le> virtual_size m)
       (take (Suc (virtual_size n)) (subtrees n))"

declare wf_node.simps [simp del]

end
