(* ===== verification/B_Tree.thy ===== *)
theory B_Tree
  imports Search_Tree
begin

text \<open>
  The B-tree class of \<open>b_tree.h\<close>: state, constructors, insertion, update, lookup, disposal, copying
  and clearing. The operations take the tree and return the outcome (a value or an exception)
  together with the tree as the call leaves it, since the C++ code changes it in place and an
  exception leaves whatever was done before it. The mutex and the log messages are left out.
\<close>

record ('k, 'v) b_tree =
  bt_root :: "('k, 'v) common_node option"
  bt_t :: nat
  bt_keys_comparer :: "'k \<Rightarrow> 'k \<Rightarrow> int"
  bt_memory :: nat \<comment> \<open>how many more nodes the allocator can supply\<close>

definition get_min_keys_count :: "nat \<Rightarrow> nat" where
  "get_min_keys_count t = t - 1"

definition get_max_keys_count :: "nat \<Rightarrow> nat" where
  "get_max_keys_count t = 2 * t - 1"

definition b_tree_new :: "nat \<Rightarrow> ('k \<Rightarrow> 'k \<Rightarrow> int) \<Rightarrow> nat \<Rightarrow> 'k tree_exn + ('k, 'v) b_tree" where
  "b_tree_new t cmp mem =
     (if t < 2 then Inl (Logic_error ''parameter t must be not less than 2'')
      else Inr \<lparr>bt_root = None, bt_t = t, bt_keys_comparer = cmp, bt_memory = mem\<rparr>)"

section \<open>In-place changes\<close>

definition set_subtree ::
  "('k, 'v) common_node \<Rightarrow> nat \<Rightarrow> ('k, 'v) common_node option \<Rightarrow> ('k, 'v) common_node option" where
  "set_subtree p i c = do {
     sb \<leftarrow> arr_set (subtrees p) i c;
     Some (Node (keys_and_values p) sb (virtual_size p))
   }"

definition get_subtree :: "('k, 'v) common_node \<Rightarrow> nat \<Rightarrow> ('k, 'v) common_node option" where
  "get_subtree p i = do { c \<leftarrow> arr_get (subtrees p) i; c }"

text \<open>
  The outcome of a loop over the path: exception or return value, the new root, the memory left.
  \<open>commit\<close> ends a loop at \<open>node\<close>, with the rest of the path above it.
\<close>

type_synonym ('k, 'v, 'a) loop_result = "('k tree_exn + 'a) \<times> ('k, 'v) common_node option \<times> nat"

definition ub_result :: "nat \<Rightarrow> ('k, 'v, 'a) loop_result" where
  "ub_result mem = (Inl Undefined_behaviour, None, mem)"

definition commit ::
  "'k tree_exn + 'a \<Rightarrow> nat \<Rightarrow> ('k, 'v) common_node \<Rightarrow> ('k, 'v) path \<Rightarrow> ('k, 'v, 'a) loop_result" where
  "commit res mem node path =
     (case plug (Some node) path of None \<Rightarrow> ub_result mem | Some root \<Rightarrow> (res, root, mem))"

section \<open>Insertion\<close>

text \<open>The new root above \<open>left\<close> and \<open>right\<close> (end of the loop in \<open>insert_inner\<close>).\<close>

definition make_root ::
  "nat \<Rightarrow> nat \<Rightarrow> ('k, 'v) common_node \<Rightarrow> 'k \<times> 'v \<Rightarrow> ('k, 'v) common_node \<Rightarrow> ('k, 'v, unit) loop_result" where
  "make_root t mem left kvp right =
     (case create_node mem t of
        Inl e \<Rightarrow> (Inl e, Some left, mem)
      | Inr (new_root, mem') \<Rightarrow>
          (case do {
             kv \<leftarrow> construct (keys_and_values new_root) 0 kvp;
             sb \<leftarrow> arr_set (subtrees new_root) 0 (Some left);
             sb' \<leftarrow> arr_set sb 1 (Some right);
             Some (Node kv sb' 1) } of
             None \<Rightarrow> ub_result mem'
           | Some r \<Rightarrow> (Inr (), Some r, mem')))"

text \<open>
  The \<open>while (true)\<close> loop of \<open>insert_inner\<close>; \<open>path\<close> is the stack below its top entry, \<open>node\<close> the
  node of the top entry.
\<close>

fun insert_climb ::
  "nat \<Rightarrow> nat \<Rightarrow> ('k, 'v) path \<Rightarrow> ('k, 'v) common_node \<Rightarrow> 'k \<times> 'v \<Rightarrow> nat
    \<Rightarrow> ('k, 'v) common_node option \<Rightarrow> ('k, 'v, unit) loop_result" where
  "insert_climb t mem path node kvp subtree_index right_subtree =
     (if virtual_size node < get_max_keys_count t then
        (case node_insert node kvp subtree_index right_subtree of
           None \<Rightarrow> ub_result mem
         | Some node' \<Rightarrow> commit (Inr ()) mem node' path)
      else case node_split mem node kvp subtree_index right_subtree of
        Inl e \<Rightarrow> commit (Inl e) mem node path
      | Inr (node', new_node, kvp', mem') \<Rightarrow>
          (case path of
             [] \<Rightarrow> make_root t mem' node' kvp' new_node
           | (ptr, i) # path' \<Rightarrow>
               (case do { p \<leftarrow> ptr; set_subtree p (sub_index i) (Some node') } of
                  None \<Rightarrow> ub_result mem'
                | Some parent \<Rightarrow>
                    insert_climb t mem' path' parent kvp' (sub_index i) (Some new_node))))"

declare insert_climb.simps [simp del]

definition with_root :: "('k, 'v) b_tree \<Rightarrow> ('k, 'v, 'a) loop_result \<Rightarrow> ('k tree_exn + 'a) \<times> ('k, 'v) b_tree" where
  "with_root tr r = (case r of (res, root, mem) \<Rightarrow> (res, tr\<lparr>bt_root := root, bt_memory := mem\<rparr>))"

definition insert_inner ::
  "('k, 'v) b_tree \<Rightarrow> 'k \<times> 'v \<Rightarrow> bool \<Rightarrow> ('k tree_exn + unit) \<times> ('k, 'v) b_tree" where
  "insert_inner tr kvp is_update =
     (case find_path (bt_keys_comparer tr) (bt_root tr) (fst kvp) of
        Some ((ptr, i) # path) \<Rightarrow>
          if 0 \<le> i then
            (if is_update then
               (case do {
                  n \<leftarrow> ptr;
                  kv \<leftarrow> arr_set (keys_and_values n) (nat i) (Live kvp);
                  plug (Some (Node kv (subtrees n) (virtual_size n))) path } of
                  None \<Rightarrow> (Inl Undefined_behaviour, tr)
                | Some root \<Rightarrow> (Inr (), tr\<lparr>bt_root := root\<rparr>))
             else (Inl (Insertion_of_existent_key (fst kvp)), tr))
          else if is_update then (Inl (Updating_of_nonexistent_key (fst kvp)), tr)
          else (case ptr of
              None \<Rightarrow>
                if path = [] then
                  (case create_node (bt_memory tr) (bt_t tr) of
                     Inl e \<Rightarrow> (Inl e, tr)
                   | Inr (new_node, mem) \<Rightarrow>
                       (case construct (keys_and_values new_node) 0 kvp of
                          None \<Rightarrow> (Inl Undefined_behaviour, tr)
                        | Some kv \<Rightarrow>
                            (Inr (), tr\<lparr>bt_root := Some (Node kv (subtrees new_node) 1), bt_memory := mem\<rparr>)))
                else (Inl Undefined_behaviour, tr)
            | Some node \<Rightarrow>
                with_root tr
                  (insert_climb (bt_t tr) (bt_memory tr) path node kvp (sub_index i) None))
      | _ \<Rightarrow> (Inl Undefined_behaviour, tr))"

text \<open>The four entry points differ in how the value reaches the pair (copied or moved).\<close>

definition bt_insert :: "('k, 'v) b_tree \<Rightarrow> 'k \<Rightarrow> 'v \<Rightarrow> ('k tree_exn + unit) \<times> ('k, 'v) b_tree" where
  "bt_insert tr key v = insert_inner tr (key, v) False"

definition bt_insert_rvalue :: "('k, 'v) b_tree \<Rightarrow> 'k \<Rightarrow> 'v \<Rightarrow> ('k tree_exn + unit) \<times> ('k, 'v) b_tree" where
  "bt_insert_rvalue tr key v = insert_inner tr (key, v) False"

definition bt_update :: "('k, 'v) b_tree \<Rightarrow> 'k \<Rightarrow> 'v \<Rightarrow> ('k tree_exn + unit) \<times> ('k, 'v) b_tree" where
  "bt_update tr key v = insert_inner tr (key, v) True"

definition bt_update_rvalue :: "('k, 'v) b_tree \<Rightarrow> 'k \<Rightarrow> 'v \<Rightarrow> ('k tree_exn + unit) \<times> ('k, 'v) b_tree" where
  "bt_update_rvalue tr key v = insert_inner tr (key, v) True"

section \<open>Lookup\<close>

text \<open>
  \<open>obtain\<close> returns a reference: \<open>bt_obtain\<close> is the value read through it, \<open>bt_obtain_modify\<close> the tree
  after the caller has changed the value through it.
\<close>

definition bt_obtain :: "('k, 'v) b_tree \<Rightarrow> 'k \<Rightarrow> 'k tree_exn + 'v" where
  "bt_obtain tr key =
     (case find_path (bt_keys_comparer tr) (bt_root tr) key of
        Some ((ptr, i) # path) \<Rightarrow>
          if i < 0 then Inl (Obtaining_of_nonexistent_key key)
          else or_ub (do { n \<leftarrow> ptr; x \<leftarrow> slot_read (keys_and_values n) (nat i); Some (snd x) })
      | _ \<Rightarrow> Inl Undefined_behaviour)"

definition bt_obtain_modify :: "('k, 'v) b_tree \<Rightarrow> 'k \<Rightarrow> ('v \<Rightarrow> 'v) \<Rightarrow> 'k tree_exn + ('k, 'v) b_tree" where
  "bt_obtain_modify tr key f =
     (case find_path (bt_keys_comparer tr) (bt_root tr) key of
        Some ((ptr, i) # path) \<Rightarrow>
          if i < 0 then Inl (Obtaining_of_nonexistent_key key)
          else or_ub (do {
            n \<leftarrow> ptr;
            x \<leftarrow> slot_read (keys_and_values n) (nat i);
            kv \<leftarrow> arr_set (keys_and_values n) (nat i) (Live (fst x, f (snd x)));
            root \<leftarrow> plug (Some (Node kv (subtrees n) (virtual_size n))) path;
            Some (tr\<lparr>bt_root := root\<rparr>) })
      | _ \<Rightarrow> Inl Undefined_behaviour)"

section \<open>Disposal\<close>

text \<open>
  Reduction of a non-leaf disposal: the loop walks to the rightmost leaf of the left subtree. Its
  entries \<open>- virtual_size - 1\<close> name the last subtree of each node.
\<close>

function descend_max :: "('k, 'v) common_node \<Rightarrow> ('k, 'v) path \<Rightarrow> ('k, 'v) path option" where
  "descend_max n path =
     Option.bind (arr_get (subtrees n) (virtual_size n)) (\<lambda>ptr.
       case ptr of
         None \<Rightarrow> Some ((Some n, - int (virtual_size n) - 1) # path)
       | Some c \<Rightarrow> descend_max c ((Some n, - int (virtual_size n) - 1) # path))"
  by pat_completeness auto
termination
  by (relation "measure (\<lambda>(n, path). size n)") (auto simp: size_subtree)

declare descend_max.simps [simp del]

text \<open>
  The node that loses a pair, the index of that pair, and the path above the node. In an inner
  node the pair changes places with the last one of that leaf.
\<close>

definition dispose_target ::
  "('k, 'v) common_node \<Rightarrow> nat \<Rightarrow> ('k, 'v) path
    \<Rightarrow> (('k, 'v) common_node \<times> nat \<times> ('k, 'v) path) option" where
  "dispose_target n i path = do {
     first \<leftarrow> arr_get (subtrees n) 0;
     if first = None then Some (n, i, path)
     else do {
       c \<leftarrow> get_subtree n i;
       inner \<leftarrow> descend_max c [];
       case inner of
         [] \<Rightarrow> None
       | (leaf_ptr, _) # ancestors \<Rightarrow> do {
           leaf \<leftarrow> leaf_ptr;
           let leaf_index = virtual_size leaf - 1;
           a \<leftarrow> arr_get (keys_and_values n) i;
           (b, leaf_kv) \<leftarrow> arr_exchange (keys_and_values leaf) leaf_index a;
           kv \<leftarrow> arr_set (keys_and_values n) i b;
           Some (Node leaf_kv (subtrees leaf) (virtual_size leaf), leaf_index,
             ancestors @ (Some (Node kv (subtrees n) (virtual_size n)), - int i - 1) # path)
         }
     }
   }"

definition remove_from_leaf :: "('k, 'v) common_node \<Rightarrow> nat \<Rightarrow> ('v \<times> ('k, 'v) common_node) option" where
  "remove_from_leaf target index = do {
     x \<leftarrow> slot_read (keys_and_values target) index;
     kv \<leftarrow> for_loop (\<lambda>i kv. arr_swap kv (i - 1) i) [index + 1..<virtual_size target]
            (keys_and_values target);
     kv' \<leftarrow> destruct kv (virtual_size target - 1);
     Some (snd x, Node kv' (subtrees target) (virtual_size target - 1))
   }"

text \<open>
  A pair moves from the left brother over the separator into the deficient child: it is built
  behind the child's content and swapped down to the front, with the brother's last subtree.
\<close>

definition borrow_left :: "('k, 'v) common_node \<Rightarrow> nat \<Rightarrow> ('k, 'v) common_node option" where
  "borrow_left parent parent_index = do {
     target \<leftarrow> get_subtree parent parent_index;
     left_brother \<leftarrow> get_subtree parent (parent_index - 1);
     let lvs = virtual_size left_brother;
     let tvs = virtual_size target + 1;
     a \<leftarrow> arr_get (keys_and_values parent) (parent_index - 1);
     (b, lkv) \<leftarrow> arr_exchange (keys_and_values left_brother) (lvs - 1) a;
     pkv \<leftarrow> arr_set (keys_and_values parent) (parent_index - 1) b;
     (x, lkv') \<leftarrow> slot_move lkv (lvs - 1);
     tkv \<leftarrow> construct (keys_and_values target) (virtual_size target) x;
     c \<leftarrow> arr_get (subtrees target) (tvs - 1);
     tsb \<leftarrow> arr_set (subtrees target) tvs c;
     d \<leftarrow> arr_get (subtrees left_brother) lvs;
     tsb' \<leftarrow> arr_set tsb (tvs - 1) d;
     (tkv', tsb'') \<leftarrow> for_loop (\<lambda>i (kv, sb). do {
         kv' \<leftarrow> arr_swap kv i (i - 1);
         sb' \<leftarrow> arr_swap sb i (i - 1);
         Some (kv', sb')
       }) (rev [1..<tvs]) (tkv, tsb');
     lkv'' \<leftarrow> destruct lkv' (lvs - 1);
     p1 \<leftarrow> set_subtree (Node pkv (subtrees parent) (virtual_size parent)) parent_index
            (Some (Node tkv' tsb'' tvs));
     set_subtree p1 (parent_index - 1) (Some (Node lkv'' (subtrees left_brother) (lvs - 1)))
   }"

definition borrow_right :: "('k, 'v) common_node \<Rightarrow> nat \<Rightarrow> ('k, 'v) common_node option" where
  "borrow_right parent parent_index = do {
     target \<leftarrow> get_subtree parent parent_index;
     right_brother \<leftarrow> get_subtree parent (parent_index + 1);
     let rvs = virtual_size right_brother;
     let tvs = virtual_size target + 1;
     a \<leftarrow> arr_get (keys_and_values parent) parent_index;
     (b, rkv) \<leftarrow> arr_exchange (keys_and_values right_brother) 0 a;
     pkv \<leftarrow> arr_set (keys_and_values parent) parent_index b;
     (x, rkv') \<leftarrow> slot_move rkv 0;
     tkv \<leftarrow> construct (keys_and_values target) (virtual_size target) x;
     c \<leftarrow> arr_get (subtrees right_brother) 0;
     tsb \<leftarrow> arr_set (subtrees target) tvs c;
     (rkv'', rsb) \<leftarrow> for_loop (\<lambda>i (kv, sb). do {
         kv' \<leftarrow> arr_swap kv i (i + 1);
         c \<leftarrow> arr_get sb (i + 1);
         sb' \<leftarrow> arr_set sb i c;
         Some (kv', sb')
       }) [0..<rvs - 1] (rkv', subtrees right_brother);
     c' \<leftarrow> arr_get rsb rvs;
     rsb' \<leftarrow> arr_set rsb (rvs - 1) c';
     rkv3 \<leftarrow> destruct rkv'' (rvs - 1);
     p1 \<leftarrow> set_subtree (Node pkv (subtrees parent) (virtual_size parent)) parent_index
            (Some (Node tkv tsb tvs));
     set_subtree p1 (parent_index + 1) (Some (Node rkv3 rsb' (rvs - 1)))
   }"

text \<open>Does the brother at the index exist, and can it spare a pair?\<close>

definition can_take :: "nat \<Rightarrow> bool \<Rightarrow> ('k, 'v) common_node \<Rightarrow> nat \<Rightarrow> bool option" where
  "can_take t brother_exists parent i =
     (if brother_exists then do {
        b \<leftarrow> get_subtree parent i;
        Some (get_min_keys_count t < virtual_size b)
      } else Some False)"

text \<open>The rebalancing loop; \<open>path\<close> is the stack above the node \<open>target\<close> that lost a pair.\<close>

fun dispose_climb ::
  "nat \<Rightarrow> nat \<Rightarrow> ('k, 'v) path \<Rightarrow> ('k, 'v) common_node \<Rightarrow> ('k, 'v, unit) loop_result" where
  "dispose_climb t mem path target =
     (if get_min_keys_count t \<le> virtual_size target then commit (Inr ()) mem target path
      else case path of
        [] \<Rightarrow>
          if virtual_size target = 0 then
            (case arr_get (subtrees target) 0 of
               None \<Rightarrow> ub_result mem
             | Some root \<Rightarrow> (Inr (), root, destroy_node mem target))
          else (Inr (), Some target, mem)
      | (ptr, i) # path' \<Rightarrow>
          let parent_index = sub_index i in
          (case do {
             p \<leftarrow> ptr;
             parent \<leftarrow> set_subtree p parent_index (Some target);
             l \<leftarrow> can_take t (parent_index \<noteq> 0) parent (parent_index - 1);
             r \<leftarrow> can_take t (parent_index \<noteq> virtual_size parent) parent (parent_index + 1);
             Some (parent, l, r) } of
             None \<Rightarrow> ub_result mem
           | Some (parent, can_take_from_left, can_take_from_right) \<Rightarrow>
               if can_take_from_left then
                 (case borrow_left parent parent_index of
                    None \<Rightarrow> ub_result mem
                  | Some parent' \<Rightarrow> commit (Inr ()) mem parent' path')
               else if can_take_from_right then
                 (case borrow_right parent parent_index of
                    None \<Rightarrow> ub_result mem
                  | Some parent' \<Rightarrow> commit (Inr ()) mem parent' path')
               else
                 (case node_merge mem parent (parent_index - (if parent_index \<noteq> 0 then 1 else 0)) of
                    Inl e \<Rightarrow> (Inl e, None, mem)
                  | Inr (parent', mem') \<Rightarrow> dispose_climb t mem' path' parent')))"

declare dispose_climb.simps [simp del]

definition bt_dispose :: "('k, 'v) b_tree \<Rightarrow> 'k \<Rightarrow> ('k tree_exn + 'v) \<times> ('k, 'v) b_tree" where
  "bt_dispose tr key =
     (case find_path (bt_keys_comparer tr) (bt_root tr) key of
        Some ((ptr, i) # path) \<Rightarrow>
          if i < 0 then (Inl (Disposal_of_nonexistent_key key), tr)
          else (case do {
              n \<leftarrow> ptr;
              (target, index, path') \<leftarrow> dispose_target n (nat i) path;
              (v, target') \<leftarrow> remove_from_leaf target index;
              Some (v, target', path') } of
              None \<Rightarrow> (Inl Undefined_behaviour, tr)
            | Some (v, target', path') \<Rightarrow>
                (case with_root tr (dispose_climb (bt_t tr) (bt_memory tr) path' target') of
                   (Inl e, tr') \<Rightarrow> (Inl e, tr')
                 | (Inr _, tr') \<Rightarrow> (Inr v, tr')))
      | _ \<Rightarrow> (Inl Undefined_behaviour, tr))"

section \<open>Copying and clearing\<close>

text \<open>
  \<open>copy\<close>: a new node of the tree's capacity for each node. When an allocation fails below a
  node, \<open>clear\<close> frees the node and the copies made so far and the exception goes on.
\<close>

fun clear_node :: "nat \<Rightarrow> ('k, 'v) common_node \<Rightarrow> nat"
  and clear_ptrs :: "nat \<Rightarrow> ('k, 'v) common_node option list \<Rightarrow> nat \<Rightarrow> nat" where
  "clear_node mem (Node kv sb vs) = destroy_node (clear_ptrs mem sb (Suc vs)) (Node kv sb vs)"
| "clear_ptrs mem [] k = mem"
| "clear_ptrs mem cs 0 = mem"
| "clear_ptrs mem (None # cs) (Suc k) = clear_ptrs mem cs k"
| "clear_ptrs mem (Some c # cs) (Suc k) = clear_ptrs (clear_node mem c) cs k"

text \<open>
  The copies of the first \<open>k\<close> subtrees; on an exception the copies made before it and null
  pointers after them, as the array \<open>copied->subtrees\<close> holds them when \<open>catch\<close> is entered.
\<close>

fun copy_node ::
  "nat \<Rightarrow> nat \<Rightarrow> ('k, 'v) common_node \<Rightarrow> ('k tree_exn + ('k, 'v) common_node) \<times> nat"
  and copy_ptrs ::
  "nat \<Rightarrow> nat \<Rightarrow> ('k, 'v) common_node option list \<Rightarrow> nat
    \<Rightarrow> 'k tree_exn option \<times> ('k, 'v) common_node option list \<times> nat" where
  "copy_node t mem (Node kv sb vs) =
     (case create_node mem t of
        Inl e \<Rightarrow> (Inl e, mem)
      | Inr (fresh, mem1) \<Rightarrow>
          if length (subtrees fresh) \<le> vs then (Inl Undefined_behaviour, mem1)
          else (case copy_ptrs t mem1 sb (Suc vs) of
             (Some e, cs, mem2) \<Rightarrow>
               (Inl e, clear_node mem2 (Node (keys_and_values fresh) (cs @ drop (Suc vs) (subtrees fresh)) vs))
           | (None, cs, mem2) \<Rightarrow>
               (case for_loop (\<lambda>i new_kv. do { x \<leftarrow> slot_read kv i; construct new_kv i x })
                       [0..<vs] (keys_and_values fresh) of
                  None \<Rightarrow> (Inl Undefined_behaviour, mem2)
                | Some new_kv \<Rightarrow> (Inr (Node new_kv (cs @ drop (Suc vs) (subtrees fresh)) vs), mem2))))"
| "copy_ptrs t mem [] k = (None, [], mem)"
| "copy_ptrs t mem cs 0 = (None, [], mem)"
| "copy_ptrs t mem (None # cs) (Suc k) =
     (case copy_ptrs t mem cs k of (e, ds, mem') \<Rightarrow> (e, None # ds, mem'))"
| "copy_ptrs t mem (Some c # cs) (Suc k) =
     (case copy_node t mem c of
        (Inl e, mem') \<Rightarrow> (Some e, replicate (Suc k) None, mem')
      | (Inr d, mem') \<Rightarrow>
          (case copy_ptrs t mem' cs k of (e, ds, mem'') \<Rightarrow> (e, Some d # ds, mem'')))"

definition copy_root ::
  "nat \<Rightarrow> nat \<Rightarrow> ('k, 'v) common_node option \<Rightarrow> ('k tree_exn + ('k, 'v) common_node option) \<times> nat" where
  "copy_root t mem root =
     (case root of
        None \<Rightarrow> (Inr None, mem)
      | Some n \<Rightarrow> (case copy_node t mem n of (Inl e, mem') \<Rightarrow> (Inl e, mem') | (Inr d, mem') \<Rightarrow> (Inr (Some d), mem')))"

text \<open>Copy constructor, move constructor, copy assignment and move assignment.\<close>

definition bt_copy_construct :: "('k, 'v) b_tree \<Rightarrow> 'k tree_exn + ('k, 'v) b_tree" where
  "bt_copy_construct other =
     (case copy_root (bt_t other) (bt_memory other) (bt_root other) of
        (Inl e, _) \<Rightarrow> Inl e
      | (Inr root, mem) \<Rightarrow> Inr (other\<lparr>bt_root := root, bt_memory := mem\<rparr>))"

definition bt_move_construct :: "('k, 'v) b_tree \<Rightarrow> ('k, 'v) b_tree \<times> ('k, 'v) b_tree" where
  "bt_move_construct other = (other, other\<lparr>bt_root := None\<rparr>)"

definition clear_root :: "nat \<Rightarrow> ('k, 'v) common_node option \<Rightarrow> nat" where
  "clear_root mem root = (case root of None \<Rightarrow> mem | Some n \<Rightarrow> clear_node mem n)"

text \<open>
  Assignment between two different objects; self-assignment changes nothing. The copy uses the
  old capacity \<open>_t\<close> of the target, which only then takes over the parameter of the source.
\<close>

definition bt_copy_assign :: "('k, 'v) b_tree \<Rightarrow> ('k, 'v) b_tree \<Rightarrow> ('k tree_exn + unit) \<times> ('k, 'v) b_tree" where
  "bt_copy_assign this other =
     (let mem = clear_root (bt_memory this) (bt_root this) in
      case copy_root (bt_t this) mem (bt_root other) of
        (Inl e, mem') \<Rightarrow> (Inl e, this\<lparr>bt_memory := mem'\<rparr>)
      | (Inr root, mem') \<Rightarrow>
          (Inr (), \<lparr>bt_root = root, bt_t = bt_t other, bt_keys_comparer = bt_keys_comparer other,
                    bt_memory = mem'\<rparr>))"

definition bt_move_assign :: "('k, 'v) b_tree \<Rightarrow> ('k, 'v) b_tree \<Rightarrow> ('k, 'v) b_tree \<times> ('k, 'v) b_tree" where
  "bt_move_assign this other =
     (\<lparr>bt_root = bt_root other, bt_t = bt_t other, bt_keys_comparer = bt_keys_comparer other,
       bt_memory = clear_root (bt_memory this) (bt_root this)\<rparr>,
      other\<lparr>bt_root := None\<rparr>)"

end
