(* ===== verification/Node_Lemmas.thy ===== *)
theory Node_Lemmas
  imports Search_Tree
begin

text \<open>
  What the node operations of \<open>Search_Tree\<close> do to the used prefixes of a node's arrays: the
  array code refines insertion into, splitting of and concatenation of lists. Each lemma also
  says that no access leaves the arrays.
\<close>

section \<open>The representation\<close>

lemma node_rep_length: "node_rep t n ks cs \<Longrightarrow> length cs = Suc (length ks)"
  by (auto simp: node_rep_def)

lemma node_rep_vs: "node_rep t n ks cs \<Longrightarrow> virtual_size n = length ks"
  by (simp add: node_rep_def)

lemma node_rep_key:
  assumes "node_rep t n ks cs" "i < length ks"
  shows "i < length (keys_and_values n)" "keys_and_values n ! i = Live (ks ! i)"
proof -
  show "i < length (keys_and_values n)" using assms by (auto simp: node_rep_def)
  have "take (length ks) (keys_and_values n) = map Live ks"
    using assms by (simp add: node_rep_def)
  then show "keys_and_values n ! i = Live (ks ! i)"
    using assms(2) by (metis nth_map nth_take)
qed

lemma node_rep_sub:
  assumes "node_rep t n ks cs" "i \<le> length ks"
  shows "i < length (subtrees n)" "subtrees n ! i = cs ! i"
  using assms by (auto simp: node_rep_def)

lemma node_rep_slot_read:
  "node_rep t n ks cs \<Longrightarrow> i < length ks \<Longrightarrow> slot_read (keys_and_values n) i = Some (ks ! i)"
  by (simp add: slot_read_def node_rep_key)

lemma node_rep_arr_get:
  "node_rep t n ks cs \<Longrightarrow> i \<le> length ks \<Longrightarrow> arr_get (subtrees n) i = Some (cs ! i)"
  by (simp add: node_rep_sub)

lemma node_rep_unique:
  assumes "node_rep t n ks cs" "node_rep t n ks' cs'"
  shows "ks = ks'" "cs = cs'"
proof -
  have "inj (Live :: 'c \<Rightarrow> 'c slot)" by (simp add: inj_def)
  then show "ks = ks'" using assms by (auto simp: node_rep_def dest: map_injective)
  then show "cs = cs'" using assms by (simp add: node_rep_def)
qed

lemma live_list:
  "list_all (\<lambda>s. case s of Live _ \<Rightarrow> True | _ \<Rightarrow> False) xs \<longleftrightarrow> xs = map Live (map the_live xs)"
  by (induction xs) (auto split: slot.splits)

lemma live_prefix_iff: "live_prefix t n \<longleftrightarrow> (\<exists>ks cs. node_rep t n ks cs)"
proof
  assume n: "live_prefix t n"
  let ?ks = "map the_live (take (virtual_size n) (keys_and_values n))"
  have "node_rep t n ?ks (take (Suc (virtual_size n)) (subtrees n))"
    using n by (auto simp: live_prefix_def node_rep_def live_list min_def)
  then show "\<exists>ks cs. node_rep t n ks cs" by blast
next
  assume "\<exists>ks cs. node_rep t n ks cs"
  then obtain ks cs where "node_rep t n ks cs" by blast
  then show "live_prefix t n" by (auto simp: live_prefix_def node_rep_def live_list)
qed

lemma inorder_rep:
  assumes "node_rep t n ks cs"
  shows "inorder n = weave (map inorder_ptr cs) ks"
proof -
  have c: "map (case_option [] id) (map (map_option inorder) ps) = map inorder_ptr ps"
    for ps :: "('a, 'b) common_node option list"
    by (induction ps) (auto split: option.splits)
  have k: "map the_live (map Live ks) = ks" by (simp add: comp_def)
  show ?thesis
    using assms by (cases n) (simp add: node_rep_def c k take_map del: map_map)
qed

text \<open>The shape invariant in terms of the represented lists.\<close>

lemma wf_node_0:
  "wf_node t 0 n \<longleftrightarrow> (\<exists>ks. node_rep t n ks (replicate (Suc (length ks)) None))"
proof
  assume n: "wf_node t 0 n"
  then obtain ks cs where r: "node_rep t n ks cs" by (auto simp: wf_node.simps live_prefix_iff)
  then have "cs = take (Suc (virtual_size n)) (subtrees n)" by (simp add: node_rep_def)
  then have "\<forall>c \<in> set cs. c = None" using n by (simp add: wf_node.simps list_all_iff)
  then have "cs = replicate (length cs) None" by (intro replicate_eqI) auto
  then show "\<exists>ks. node_rep t n ks (replicate (Suc (length ks)) None)"
    using r node_rep_length [OF r] by auto
next
  assume "\<exists>ks. node_rep t n ks (replicate (Suc (length ks)) None)"
  then obtain ks where r: "node_rep t n ks (replicate (Suc (length ks)) None)" by blast
  then have "take (Suc (virtual_size n)) (subtrees n) = replicate (Suc (length ks)) None"
    by (simp add: node_rep_def)
  then show "wf_node t 0 n" using r by (auto simp: wf_node.simps live_prefix_iff list_all_iff)
qed

definition wf_child :: "nat \<Rightarrow> nat \<Rightarrow> ('k, 'v) common_node option \<Rightarrow> bool" where
  "wf_child t h c = (\<exists>m. c = Some m \<and> wf_node t h m \<and> t - 1 \<le> virtual_size m)"

lemma wf_node_Suc:
  "wf_node t (Suc h) n \<longleftrightarrow> (\<exists>ks cs. node_rep t n ks cs \<and> (\<forall>c \<in> set cs. wf_child t h c))"
proof
  assume n: "wf_node t (Suc h) n"
  then obtain ks cs where r: "node_rep t n ks cs" by (auto simp: wf_node.simps live_prefix_iff)
  then have "cs = take (Suc (virtual_size n)) (subtrees n)" by (simp add: node_rep_def)
  then show "\<exists>ks cs. node_rep t n ks cs \<and> (\<forall>c \<in> set cs. wf_child t h c)"
    using n r unfolding wf_child_def by (intro exI [of _ ks] exI [of _ cs])
      (force simp: wf_node.simps list_all_iff split: option.splits)
next
  assume "\<exists>ks cs. node_rep t n ks cs \<and> (\<forall>c \<in> set cs. wf_child t h c)"
  then obtain ks cs where r: "node_rep t n ks cs" and c: "\<forall>c \<in> set cs. wf_child t h c" by blast
  then have "cs = take (Suc (virtual_size n)) (subtrees n)" by (simp add: node_rep_def)
  then show "wf_node t (Suc h) n"
    using r c by (auto simp: wf_node.simps list_all_iff wf_child_def live_prefix_iff split: option.splits)
qed

text \<open>
  Leaves and inner nodes in one statement: \<open>node_at t h n ks cs\<close> says that \<open>n\<close> is a well-formed
  node of height \<open>h\<close> with pairs \<open>ks\<close> and subtree pointers \<open>cs\<close>; \<open>ptr_ok t h c\<close> is what a
  pointer in such a node may be.
\<close>

fun ptr_ok :: "nat \<Rightarrow> nat \<Rightarrow> ('k, 'v) common_node option \<Rightarrow> bool" where
  "ptr_ok t 0 c = (c = None)"
| "ptr_ok t (Suc h) c = wf_child t h c"

definition node_at ::
  "nat \<Rightarrow> nat \<Rightarrow> ('k, 'v) common_node \<Rightarrow> ('k \<times> 'v) list \<Rightarrow> ('k, 'v) common_node option list \<Rightarrow> bool" where
  "node_at t h n ks cs \<longleftrightarrow> node_rep t n ks cs \<and> (\<forall>c \<in> set cs. ptr_ok t h c)"

lemma wf_node_iff: "wf_node t h n \<longleftrightarrow> (\<exists>ks cs. node_at t h n ks cs)"
proof (cases h)
  case 0
  have "node_rep t n ks cs \<and> (\<forall>c \<in> set cs. c = None) \<longleftrightarrow>
      node_rep t n ks cs \<and> cs = replicate (Suc (length ks)) None" for ks cs
    using node_rep_length [of t n ks cs] by (auto simp del: replicate_Suc intro!: replicate_eqI)
  then show ?thesis unfolding 0 wf_node_0 node_at_def by auto
next
  case (Suc h')
  show ?thesis unfolding Suc wf_node_Suc node_at_def by simp
qed

lemma node_atI: "node_rep t n ks cs \<Longrightarrow> (\<And>c. c \<in> set cs \<Longrightarrow> ptr_ok t h c) \<Longrightarrow> node_at t h n ks cs"
  by (simp add: node_at_def)

lemma node_at_rep: "node_at t h n ks cs \<Longrightarrow> node_rep t n ks cs"
  by (simp add: node_at_def)

lemma node_at_ptr: "node_at t h n ks cs \<Longrightarrow> i \<le> length ks \<Longrightarrow> ptr_ok t h (cs ! i)"
  by (simp add: node_at_def) (use node_rep_length in force)

lemma ptr_ok_cases:
  assumes "ptr_ok t h c"
  obtains "h = 0" "c = None"
  | h' m where "h = Suc h'" "c = Some m" "wf_node t h' m" "t - 1 \<le> virtual_size m"
  using assms by (cases h) (auto simp: wf_child_def)

section \<open>The binary search in a node\<close>

text \<open>
  \<open>key_rank ks k\<close>: how many of the sorted keys are smaller than \<open>k\<close>, the place of \<open>k\<close> among them.
\<close>

definition key_rank :: "('k::linorder \<times> 'v) list \<Rightarrow> 'k \<Rightarrow> nat" where
  "key_rank ks k = length (takeWhile (\<lambda>p. fst p < k) ks)"

abbreviation sorted_keys :: "('k::linorder \<times> 'v) list \<Rightarrow> bool" where
  "sorted_keys xs \<equiv> sorted_wrt (<) (map fst xs)"

lemma key_rank_le: "key_rank ks k \<le> length ks"
  by (simp add: key_rank_def length_takeWhile_le)

lemma key_rank_eqI:
  assumes "p \<le> length ks" "\<And>j. j < p \<Longrightarrow> fst (ks ! j) < k" "p < length ks \<Longrightarrow> k \<le> fst (ks ! p)"
  shows "key_rank ks k = p"
proof -
  have "takeWhile (\<lambda>p. fst p < k) ks = take p ks"
  proof (cases "p = length ks")
    case True
    then have "\<forall>x \<in> set ks. fst x < k" using assms(2) by (metis in_set_conv_nth)
    then show ?thesis using True by (simp add: takeWhile_eq_all_conv)
  next
    case False
    then show ?thesis using assms by (intro takeWhile_eq_take_P_nth) (auto simp: not_less)
  qed
  then show ?thesis using assms(1) by (simp add: key_rank_def)
qed

lemma sorted_keys_nth:
  "sorted_keys ks \<Longrightarrow> i < j \<Longrightarrow> j < length ks \<Longrightarrow> fst (ks ! i) < fst (ks ! j)"
  by (auto simp: sorted_wrt_iff_nth_less)

lemma key_rank_less: "j < key_rank ks k \<Longrightarrow> fst (ks ! j) < k"
proof -
  assume j: "j < key_rank ks k"
  then have "takeWhile (\<lambda>p. fst p < k) ks ! j = ks ! j"
    by (simp add: key_rank_def takeWhile_nth)
  moreover have "takeWhile (\<lambda>p. fst p < k) ks ! j \<in> set (takeWhile (\<lambda>p. fst p < k) ks)"
    using j by (simp add: key_rank_def)
  ultimately show ?thesis by (metis set_takeWhileD)
qed

lemma key_rank_not_less: "key_rank ks k < length ks \<Longrightarrow> k \<le> fst (ks ! key_rank ks k)"
  unfolding key_rank_def using nth_length_takeWhile by fastforce

text \<open>The result the code encodes: an index, or \<open>- (rank + 1)\<close>.\<close>

definition search_result :: "('k::linorder \<times> 'v) list \<Rightarrow> 'k \<Rightarrow> int" where
  "search_result ks k =
     (let p = key_rank ks k in
      if p < length ks \<and> fst (ks ! p) = k then int p else - int p - 1)"

context key_order
begin

lemma node_find_path_range:
  assumes "node_rep t n ks cs" "sorted_keys ks" "l \<le> r" "r < length ks"
    and "\<And>j. j < l \<Longrightarrow> fst (ks ! j) < key"
    and "\<And>j. r < j \<Longrightarrow> j < length ks \<Longrightarrow> key < fst (ks ! j)"
  shows "node_find_path cmp n key l r = Some (search_result ks key)"
  using assms(3-)
proof (induction "r - l" arbitrary: l r rule: less_induct)
  case less
  define i where "i = (l + r) div 2"
  have i: "l \<le> i" "i \<le> r" "i < length ks" using less.prems by (auto simp: i_def)
  have below: "fst (ks ! j) < fst (ks ! i)" if "j < i" for j
    using that i assms(2) by (auto intro: sorted_keys_nth)
  have above: "fst (ks ! i) < fst (ks ! j)" if "i < j" "j < length ks" for j
    using that i assms(2) by (auto intro: sorted_keys_nth)
  have step: "node_find_path cmp n key l r =
      (if key = fst (ks ! i) then Some (int i)
       else if l = r then Some (- (int i + (if key < fst (ks ! i) then 0 else 1) + 1))
       else if key < fst (ks ! i) then node_find_path cmp n key l i
       else node_find_path cmp n key (i + 1) r)"
    by (subst node_find_path.simps)
      (use less.prems i node_rep_slot_read [OF assms(1)] in \<open>simp add: i_def Let_def cmp_simps\<close>)
  consider "key = fst (ks ! i)" | "key \<noteq> fst (ks ! i)" "l = r"
    | "key < fst (ks ! i)" "l < r" | "fst (ks ! i) < key" "l < r"
    using less.prems(1) by fastforce
  then show ?case
  proof cases
    case 1
    then have "key_rank ks key = i" using i below by (intro key_rank_eqI) auto
    then show ?thesis unfolding step using 1 i by (simp add: search_result_def)
  next
    case 2
    then have li: "l = i" using i by simp
    show ?thesis
    proof (cases "key < fst (ks ! i)")
      case True
      then have "key_rank ks key = i"
        using i below less.prems li by (intro key_rank_eqI) auto
      then show ?thesis unfolding step using 2 True i by (simp add: search_result_def)
    next
      case False
      then have less: "fst (ks ! i) < key" using 2 by simp
      have "key_rank ks key = Suc i"
      proof (rule key_rank_eqI)
        show "fst (ks ! j) < key" if "j < Suc i" for j
          using that less li less.prems by (auto simp: less_Suc_eq)
        show "key \<le> fst (ks ! Suc i)" if "Suc i < length ks"
          using that less.prems(4) [of "Suc i"] 2 li by simp
      qed (use i in simp)
      moreover have "fst (ks ! Suc i) \<noteq> key" if "Suc i < length ks"
        using that less.prems(4) [of "Suc i"] 2 li by simp
      ultimately show ?thesis unfolding step using 2 False by (auto simp: search_result_def)
    qed
  next
    case 3
    have "node_find_path cmp n key l i = Some (search_result ks key)"
    proof (rule less.hyps)
      show "i - l < r - l" using 3 by (simp add: i_def)
      show "key < fst (ks ! j)" if "i < j" "j < length ks" for j
        using 3 above [OF that] by simp
    qed (use less.prems i in auto)
    then show ?thesis unfolding step using 3 by auto
  next
    case 4
    have "node_find_path cmp n key (i + 1) r = Some (search_result ks key)"
    proof (rule less.hyps)
      show "r - (i + 1) < r - l" "i + 1 \<le> r" using 4 i by (auto simp: i_def)
      show "fst (ks ! j) < key" if "j < i + 1" for j
        using that 4 below by (metis Suc_eq_plus1 less_antisym less_trans)
    qed (use less.prems in auto)
    then show ?thesis unfolding step using 4 by auto
  qed
qed

lemma node_find_path_correct:
  assumes "node_rep t n ks cs" "sorted_keys ks" "ks \<noteq> []"
  shows "node_find_path cmp n key 0 (virtual_size n - 1) = Some (search_result ks key)"
  using assms by (intro node_find_path_range) (auto simp: node_rep_vs)

end

section \<open>Insertion into a node\<close>

text \<open>Insertion of a pair at \<open>i\<close> and of a subtree behind the \<open>i\<close>-th one.\<close>

definition ins_at :: "nat \<Rightarrow> 'a \<Rightarrow> 'a list \<Rightarrow> 'a list" where
  "ins_at i x xs = take i xs @ x # drop i xs"

lemma length_ins_at [simp]: "i \<le> length xs \<Longrightarrow> length (ins_at i x xs) = Suc (length xs)"
  by (simp add: ins_at_def)

lemma map_ins_at: "map f (ins_at i x xs) = ins_at i (f x) (map f xs)"
  by (simp add: ins_at_def take_map drop_map)

lemma set_ins_at: "set (ins_at i x xs) = insert x (set xs)"
proof -
  have "set (ins_at i x xs) = insert x (set (take i xs) \<union> set (drop i xs))"
    by (simp add: ins_at_def)
  also have "set (take i xs) \<union> set (drop i xs) = set xs"
    by (metis append_take_drop_id set_append)
  finally show ?thesis .
qed

lemma move_down_append:
  "s \<le> length xs \<Longrightarrow> move_down (length xs) s (xs @ x # ys) = ins_at s x xs @ ys"
  by (simp add: move_down_def ins_at_def)

lemma take_append_eq: "length xs = n \<Longrightarrow> take n ys = xs \<Longrightarrow> ys = xs @ drop n ys"
  by (metis append_take_drop_id)

lemma node_repI:
  assumes "keys_and_values n = map Live ks @ krest" "subtrees n = cs @ srest"
    and "virtual_size n = length ks" "length cs = Suc (length ks)"
    and "length ks + length krest = 2 * t - 1" "length cs + length srest = 2 * t" "1 \<le> t"
  shows "node_rep t n ks cs"
  using assms by (simp add: node_rep_def)

lemma node_repE:
  assumes "node_rep t n ks cs"
  obtains krest srest where
    "keys_and_values n = map Live ks @ krest" "subtrees n = cs @ srest"
    "virtual_size n = length ks" "length cs = Suc (length ks)"
    "length ks + length krest = 2 * t - 1" "length cs + length srest = 2 * t" "1 \<le> t"
    "n = Node (map Live ks @ krest) (cs @ srest) (length ks)"
proof -
  let ?kr = "drop (length ks) (keys_and_values n)" and ?sr = "drop (Suc (length ks)) (subtrees n)"
  have d: "length (keys_and_values n) = 2 * t - 1" "length (subtrees n) = 2 * t"
    "length ks \<le> 2 * t - 1" "1 \<le> t" "virtual_size n = length ks"
    "take (length ks) (keys_and_values n) = map Live ks"
    "take (Suc (length ks)) (subtrees n) = cs"
    using assms by (simp_all only: node_rep_def)
  have k: "keys_and_values n = map Live ks @ ?kr"
    using append_take_drop_id [of "length ks" "keys_and_values n"] by (simp only: d(6))
  have s: "subtrees n = cs @ ?sr"
    using append_take_drop_id [of "Suc (length ks)" "subtrees n"] by (simp only: d(7))
  have n: "n = Node (map Live ks @ ?kr) (cs @ ?sr) (length ks)"
    using common_node.collapse [of n] by (simp only: k [symmetric] s [symmetric] d(5))
  note lc = node_rep_length [OF assms]
  have "length ks + length ?kr = 2 * t - 1" using d(1,3) by simp
  moreover have "length cs + length ?sr = 2 * t" using d(2-4) lc by simp
  ultimately show thesis by (rule that [OF k s d(5) lc _ _ d(4) n])
qed

lemma rev_upt_from: "map (\<lambda>i. n - i) [0..<n - s] = rev [Suc s..<Suc n]" if "s \<le> n"
  by (rule nth_equalityI) (use that in \<open>auto simp: rev_nth simp del: upt_Suc\<close>)

lemma node_insert_rep:
  assumes n: "node_rep t n ks cs" and room: "length ks < 2 * t - 1" and i: "i \<le> length ks"
  shows "\<exists>n'. node_insert n x i r = Some n' \<and> node_rep t n' (ins_at i x ks) (ins_at (Suc i) r cs)"
proof -
  from n obtain kr sr where k: "keys_and_values n = map Live ks @ kr" and s: "subtrees n = cs @ sr"
    and v: "virtual_size n = length ks" and lc: "length cs = Suc (length ks)"
    and lk: "length ks + length kr = 2 * t - 1" and ls: "length cs + length sr = 2 * t" and t: "1 \<le> t"
    by (rule node_repE)
  let ?vs = "length ks"
  obtain k0 kr' where kr: "kr = k0 # kr'" using lk room by (cases kr) auto
  obtain s0 sr' where sr: "sr = s0 # sr'" using ls lc room by (cases sr) auto
  let ?K = "map Live ks @ Live x # kr'" and ?S = "cs @ r # sr'"
  have c: "construct (keys_and_values n) ?vs x = Some ?K"
    using k kr by (simp add: construct_def list_update_append)
  have a: "arr_set (subtrees n) (Suc ?vs) r = Some ?S"
    using s sr lc by (simp add: list_update_append)
  let ?f = "\<lambda>j ys. arr_swap ys j (j - Suc 0) :: ('a \<times> 'b) slot list option"
  let ?g = "\<lambda>j ys. arr_swap ys (Suc j) j :: ('a, 'b) common_node option list option"
  let ?body = "\<lambda>j (kv, sb). do { kv' \<leftarrow> ?f j kv; sb' \<leftarrow> ?g j sb; Some (kv', sb') }"
  have "for_loop (\<lambda>i (kv, sb). do {
         kv' \<leftarrow> arr_swap kv (?vs - i) (?vs - (i + 1));
         sb' \<leftarrow> arr_swap sb (?vs + 1 - i) (?vs - i);
         Some (kv', sb') }) [0..<?vs - i] (?K, ?S)
     = for_loop (\<lambda>j. ?body (?vs - j)) [0..<?vs - i] (?K, ?S)"
    by (intro for_loop_cong refl) (auto simp: Suc_diff_le)
  also have "\<dots> = for_loop ?body (rev [Suc i..<Suc ?vs]) (?K, ?S)"
    by (simp only: rev_upt_from [OF i, symmetric] for_loop_map)
  also have "\<dots> = Some (move_down ?vs i ?K, move_down (Suc ?vs) (Suc i) ?S)"
  proof (rule for_loop_pair)
    show "for_loop ?f (rev [Suc i..<Suc ?vs]) ?K = Some (move_down ?vs i ?K)"
      using i by (intro swap_down_loop) auto
    have "for_loop ?g (rev [Suc i..<Suc ?vs]) ?S = for_loop (\<lambda>j ys. arr_swap ys j (Suc j)) (rev [Suc i..<Suc ?vs]) ?S"
      by (intro for_loop_cong refl arr_swap_commute)
    also have "\<dots> = Some (move_down (Suc ?vs) (Suc i) ?S)"
      using i lc by (intro swap_down_loop_Suc) auto
    finally show "for_loop ?g (rev [Suc i..<Suc ?vs]) ?S = Some (move_down (Suc ?vs) (Suc i) ?S)" .
  qed
  finally have loop: "for_loop (\<lambda>i (kv, sb). do {
         kv' \<leftarrow> arr_swap kv (?vs - i) (?vs - (i + 1));
         sb' \<leftarrow> arr_swap sb (?vs + 1 - i) (?vs - i);
         Some (kv', sb') }) [0..<?vs - i] (?K, ?S)
     = Some (move_down ?vs i ?K, move_down (Suc ?vs) (Suc i) ?S)" .
  have K: "move_down ?vs i ?K = map Live (ins_at i x ks) @ kr'"
    using move_down_append [of i "map Live ks" "Live x" kr'] i by (simp add: map_ins_at)
  have S: "move_down (Suc ?vs) (Suc i) ?S = ins_at (Suc i) r cs @ sr'"
    using move_down_append [of "Suc i" cs r sr'] i lc by simp
  have "node_insert n x i r = Some (Node (move_down ?vs i ?K) (move_down (Suc ?vs) (Suc i) ?S) (Suc ?vs))"
    using c a loop by (simp add: node_insert_def v Let_def)
  moreover have "node_rep t (Node (move_down ?vs i ?K) (move_down (Suc ?vs) (Suc i) ?S) (Suc ?vs))
      (ins_at i x ks) (ins_at (Suc i) r cs)"
    unfolding K S using i lc lk ls kr sr t by (intro node_repI) auto
  ultimately show ?thesis by blast
qed

section \<open>Splitting a node\<close>

lemma full_node_rep:
  assumes "node_rep t n ks cs" "length ks = 2 * t - 1"
  shows "keys_and_values n = map Live ks" "subtrees n = cs" "virtual_size n = 2 * t - 1"
    "length cs = 2 * t" "1 \<le> t"
  using assms node_rep_length [OF assms(1)] by (auto simp: node_rep_def)

text \<open>
  Room for \<open>x\<close> in a full node: all pairs but the median of the enlarged sequence, and all
  subtrees but the one right of the median.
\<close>

definition without :: "nat \<Rightarrow> 'a list \<Rightarrow> 'a list" where
  "without i xs = take i xs @ drop (Suc i) xs"

lemma map_without: "map f (without i xs) = without i (map f xs)"
  by (simp add: without_def take_map drop_map)

lemma length_without [simp]: "i < length xs \<Longrightarrow> length (without i xs) = length xs - 1"
  by (simp add: without_def)

lemma nth_ins_at:
  "i \<le> length xs \<Longrightarrow> j \<le> length xs \<Longrightarrow>
   ins_at i x xs ! j = (if j < i then xs ! j else if j = i then x else xs ! (j - 1))"
  by (auto simp: ins_at_def nth_append nth_Cons' min_def)

lemma nth_without:
  "i < length xs \<Longrightarrow> j < length xs - 1 \<Longrightarrow> without i xs ! j = (if j < i then xs ! j else xs ! Suc j)"
  by (auto simp: without_def nth_append min_def)

lemma room_below:
  assumes "i < m" "m \<le> length xs"
  shows "move_down (m - 1) i (xs[m - 1 := x]) = without m (ins_at i x xs)"
    "ins_at i x xs ! m = xs ! (m - 1)"
proof -
  show "move_down (m - 1) i (xs[m - 1 := x]) = without m (ins_at i x xs)"
    using assms
    by (intro nth_equalityI) (auto simp: nth_move_down nth_without nth_ins_at nth_list_update)
  show "ins_at i x xs ! m = xs ! (m - 1)" using assms by (auto simp: nth_ins_at)
qed

lemma room_above:
  assumes "m < i" "i \<le> length xs"
  shows "move_up m (i - 1) (xs[m := x]) = without m (ins_at i x xs)"
    "ins_at i x xs ! m = xs ! m"
proof -
  show "move_up m (i - 1) (xs[m := x]) = without m (ins_at i x xs)"
    using assms
    by (intro nth_equalityI) (auto simp: nth_move_up nth_without nth_ins_at nth_list_update)
  show "ins_at i x xs ! m = xs ! m" using assms by (auto simp: nth_ins_at)
qed

lemma room_here: "without i (ins_at i x xs) = xs" "ins_at i x xs ! i = x" if "i \<le> length xs"
  using that by (simp_all add: without_def ins_at_def nth_append)

lemma swap_up_loop_pred:
  assumes "a \<le> b" "b < length xs"
  shows "for_loop (\<lambda>i ys. arr_swap ys i (i - Suc 0)) [Suc a..<Suc b] xs = Some (move_up a b xs)"
proof -
  have "for_loop (\<lambda>i ys. arr_swap ys i (i - Suc 0)) (map Suc [a..<b]) xs
      = for_loop (\<lambda>i ys. arr_swap ys i (Suc i)) [a..<b] xs"
    unfolding for_loop_map by (simp add: arr_swap_commute)
  then show ?thesis using swap_up_loop [OF assms] by (simp add: map_Suc_upt)
qed

lemma split_make_room_rep:
  assumes ks: "length ks = 2 * t - 1" and cs: "length cs = 2 * t" and t: "1 \<le> t" and i: "i \<le> 2 * t - 1"
  shows "split_make_room (map Live ks) cs t x i r =
    Some (ins_at i x ks ! t, ins_at (Suc i) r cs ! Suc t,
      map Live (without t (ins_at i x ks)), without (Suc t) (ins_at (Suc i) r cs))"
proof -
  consider "i < t" | "i = t" | "t < i" by linarith
  then show ?thesis
  proof cases
    case 1
    let ?K = "(map Live ks)[t - 1 := Live x]" and ?S = "cs[t := r]"
    let ?f = "\<lambda>j ys. arr_swap ys (j - 1) j :: ('a \<times> 'b) slot list option"
    let ?g = "\<lambda>j ys. arr_swap ys j (j + 1) :: ('a, 'b) common_node option list option"
    have u: "[i + 1..<t] = [Suc i..<Suc (t - 1)]" using t by simp
    have f: "for_loop ?f (rev [i + 1..<t]) ?K = Some (move_down (t - 1) i ?K)"
      unfolding u using swap_down_loop [of i "t - 1" ?K] 1 ks t
      by (simp add: arr_swap_commute del: upt_Suc)
    have g: "for_loop ?g (rev [i + 1..<t]) ?S = Some (move_down t (Suc i) ?S)"
      unfolding u using swap_down_loop_Suc [of i "t - 1" ?S] 1 cs t by (simp del: upt_Suc)
    have e1: "slot_exchange (map Live ks) (t - 1) x = Some (ks ! (t - 1), ?K)"
      using ks t by (simp add: slot_exchange_def slot_read_def)
    have e2: "arr_exchange cs t r = Some (cs ! t, ?S)"
      using cs t by (simp add: arr_exchange_def)
    have K: "move_down (t - 1) i ?K = map Live (without t (ins_at i x ks))"
      using room_below(1) [of i t "map Live ks" "Live x"] 1 ks t by (simp add: map_without map_ins_at)
    have S: "move_down t (Suc i) ?S = without (Suc t) (ins_at (Suc i) r cs)"
      using room_below(1) [of "Suc i" "Suc t" cs r] 1 cs t by simp
    have "ins_at i x ks ! t = ks ! (t - 1)" "ins_at (Suc i) r cs ! Suc t = cs ! t"
      using room_below(2) [of i t ks x] room_below(2) [of "Suc i" "Suc t" cs r] 1 ks cs t by simp_all
    then show ?thesis
      using 1 e1 e2 for_loop_pair [OF f g] by (simp only: split_make_room_def K S) simp
  next
    case 2
    then show ?thesis
      using ks cs t by (simp add: split_make_room_def room_here)
  next
    case 3
    let ?K = "(map Live ks)[t := Live x]" and ?S = "cs[Suc t := r]"
    let ?f = "\<lambda>j ys. arr_swap ys j (j - 1) :: ('a \<times> 'b) slot list option"
    let ?g = "\<lambda>j ys. arr_swap ys (j + 1) j :: ('a, 'b) common_node option list option"
    have u: "[t + 1..<i] = [Suc t..<Suc (i - 1)]" using 3 by simp
    have f: "for_loop ?f [t + 1..<i] ?K = Some (move_up t (i - 1) ?K)"
      unfolding u using swap_up_loop_pred [of t "i - 1" ?K] 3 ks t i by (simp del: upt_Suc)
    have g: "for_loop ?g [t + 1..<i] ?S = Some (move_up (Suc t) i ?S)"
      using swap_up_loop [of "Suc t" i ?S] 3 cs t i by (simp add: arr_swap_commute)
    have e1: "slot_exchange (map Live ks) t x = Some (ks ! t, ?K)"
      using ks t 3 i by (simp add: slot_exchange_def slot_read_def)
    have e2: "arr_exchange cs (t + 1) r = Some (cs ! Suc t, ?S)"
      using cs t 3 i by (simp add: arr_exchange_def)
    have K: "move_up t (i - 1) ?K = map Live (without t (ins_at i x ks))"
      using room_above(1) [of t i "map Live ks" "Live x"] 3 ks i by (simp add: map_without map_ins_at)
    have S: "move_up (Suc t) i ?S = without (Suc t) (ins_at (Suc i) r cs)"
      using room_above(1) [of "Suc t" "Suc i" cs r] 3 cs i by simp
    have "ins_at i x ks ! t = ks ! t" "ins_at (Suc i) r cs ! Suc t = cs ! Suc t"
      using room_above(2) [of t i ks x] room_above(2) [of "Suc t" "Suc i" cs r] 3 ks cs i by simp_all
    then show ?thesis
      using 3 e1 e2 for_loop_pair [OF f g] by (simp only: split_make_room_def K S) simp
  qed
qed

lemma slot_move_at:
  "length as = i \<Longrightarrow> slot_move (as @ Live x # bs) i = Some (x, as @ Moved # bs)"
  by (auto simp: slot_move_def slot_read_def)

lemma arr_set_at: "length as = i \<Longrightarrow> arr_set (as @ y # bs) i x = Some (as @ x # bs)"
  by (auto simp: arr_set_def list_update_append)

lemma arr_get_at: "length as = i \<Longrightarrow> arr_get (as @ y # bs) i = Some y"
  by (auto simp: arr_get_def)

lemma arr_exchange_at: "length as = i \<Longrightarrow> arr_exchange (as @ y # bs) i x = Some (y, as @ x # bs)"
  by (simp add: arr_exchange_def arr_get_at arr_set_at del: arr_get_in arr_set_in)

lemma drop_nth_Cons: "m < length xs \<Longrightarrow> drop m xs = xs ! m # drop (Suc m) xs"
  by (simp add: Cons_nth_drop_Suc)

lemma split_half_step_at:
  assumes "length K = t + m" "length S = t + 1 + m" "length NK = m" "length NS = 1 + m"
  shows "split_half_step t m (K @ Live b # KR, S @ s # SR, NK @ x # NKR, NS @ y # NSR)
    = Some (K @ Raw # KR, S @ y # SR, NK @ Live b # NKR, NS @ s # NSR)"
  unfolding split_half_step_def construct_def destruct_def
  by (simp only: prod.case slot_move_at [OF assms(1)] arr_set_at [OF assms(3)] arr_set_at [OF assms(1)]
      arr_get_at [OF assms(4)] arr_exchange_at [OF assms(2)] arr_set_at [OF assms(4)] Option.bind.simps)

lemma split_move_half_steps:
  assumes A: "length A = t" "length SA = Suc t" and B: "length B = t - 1" "length SB = t - 1"
    and N: "t - 1 \<le> length NK" "t - 1 \<le> length NS" and m: "m \<le> t - 1"
  shows "for_loop (split_half_step t) [0..<m] (map Live A @ map Live B, SA @ SB, NK, n0 # NS)
     = Some (map Live A @ replicate m Raw @ map Live (drop m B), SA @ take m NS @ drop m SB,
         map Live (take m B) @ drop m NK, n0 # take m SB @ drop m NS)"
  using m
proof (induction m)
  case 0
  show ?case by simp
next
  case (Suc m)
  have l: "length (map Live A @ replicate m Raw) = t + m" "length (SA @ take m NS) = t + 1 + m"
      "length (map Live (take m B)) = m" "length (n0 # take m SB) = 1 + m"
    using A B N Suc.prems by simp_all
  have d: "drop m B = B ! m # drop (Suc m) B" "drop m SB = SB ! m # drop (Suc m) SB"
      "drop m NK = NK ! m # drop (Suc m) NK" "drop m NS = NS ! m # drop (Suc m) NS"
    using Suc.prems B N by (simp_all add: drop_nth_Cons)
  have tk: "take (Suc m) B = take m B @ [B ! m]" "take (Suc m) SB = take m SB @ [SB ! m]"
      "take (Suc m) NS = take m NS @ [NS ! m]"
    using Suc.prems B N by (simp_all add: take_Suc_conv_app_nth)
  have "split_half_step t m (map Live A @ replicate m Raw @ map Live (drop m B),
        SA @ take m NS @ drop m SB, map Live (take m B) @ drop m NK, n0 # take m SB @ drop m NS)
      = Some (map Live A @ replicate (Suc m) Raw @ map Live (drop (Suc m) B),
        SA @ take (Suc m) NS @ drop (Suc m) SB, map Live (take (Suc m) B) @ drop (Suc m) NK,
        n0 # take (Suc m) SB @ drop (Suc m) NS)"
    using split_half_step_at [OF l, of "B ! m" "map Live (drop (Suc m) B)" "SB ! m" "drop (Suc m) SB"
        "NK ! m" "drop (Suc m) NK" "NS ! m" "drop (Suc m) NS"]
    unfolding d(1-4) tk by (simp add: replicate_app_Cons_same)
  then show ?case using Suc by (simp add: for_loop_append)
qed

lemma node_split_rep:
  assumes n: "node_rep t n ks cs" and full: "length ks = 2 * t - 1" and i: "i \<le> 2 * t - 1"
    and mem: "0 < mem"
  shows "\<exists>left right. node_split mem n x i r = Inr (left, right, ins_at i x ks ! t, mem - 1) \<and>
    node_rep t left (take t (ins_at i x ks)) (take (Suc t) (ins_at (Suc i) r cs)) \<and>
    node_rep t right (drop (Suc t) (ins_at i x ks)) (drop (Suc t) (ins_at (Suc i) r cs))"
proof -
  note fn = full_node_rep [OF n full]
  define ks' cs' where "ks' = ins_at i x ks" and "cs' = ins_at (Suc i) r cs"
  have len: "length ks' = 2 * t" "length cs' = Suc (2 * t)"
    using full fn(4) i fn(5) by (simp_all add: ks'_def cs'_def)
  have cs't: "drop (Suc t) cs' = cs' ! Suc t # drop (Suc (Suc t)) cs'"
    using len fn(5) by (intro drop_nth_Cons) simp
  have vs: "Suc (virtual_size n) div 2 = t" using fn(3,5) by simp
  have room: "split_make_room (keys_and_values n) (subtrees n) t x i r =
      Some (ks' ! t, cs' ! Suc t, map Live (without t ks'), without (Suc t) cs')"
    using split_make_room_rep [OF full fn(4,5) i] by (simp add: fn ks'_def cs'_def)
  let ?A = "take t ks'" and ?B = "drop (Suc t) ks'"
  let ?SA = "take (Suc t) cs'" and ?SB = "drop (Suc (Suc t)) cs'"
  let ?NK = "replicate (2 * t - 1) Raw :: ('a \<times> 'b) slot list"
    and ?NS = "replicate (2 * t - 1) None :: ('a, 'b) common_node option list"
  have NS: "replicate (2 * t) None = None # ?NS" using fn(5) by (cases t) simp_all
  have half: "split_move_half t (map Live (without t ks')) (without (Suc t) cs') ?NK (None # ?NS) =
      Some (map Live ?A @ replicate (t - 1) Raw, ?SA @ replicate (t - 1) None,
        map Live ?B @ drop (t - 1) ?NK, None # ?SB @ drop (t - 1) ?NS)"
    using split_move_half_steps [of ?A t ?SA ?B ?SB ?NK ?NS "t - 1" None] len fn(5)
    by (simp add: split_move_half_def without_def min_def del: replicate_Suc)
  let ?left = "Node (map Live ?A @ replicate (t - 1) Raw) (?SA @ replicate (t - 1) None) t"
  let ?right = "Node (map Live ?B @ drop (t - 1) ?NK) (drop (Suc t) cs' @ drop (t - 1) ?NS) (t - 1)"
  have "node_split mem n x i r = Inr (?left, ?right, ks' ! t, mem - 1)"
    using mem room half by (simp add: node_split_def vs create_node_def NS cs't Let_def)
  moreover have "node_rep t ?left ?A ?SA"
    using len fn(5) by (intro node_repI) auto
  moreover have "node_rep t ?right ?B (drop (Suc t) cs')"
    using len fn(5) by (intro node_repI) auto
  ultimately show ?thesis unfolding ks'_def cs'_def by blast
qed

lemma node_split_no_memory: "node_split 0 n x i r = Inl Bad_alloc"
  by (simp add: node_split_def create_node_def Let_def)

section \<open>Merging two children\<close>

lemma merge_step_at:
  assumes "length L = vs" "length S = vs" "length R = i" "arr_get (subtrees right) i = Some c"
  shows "merge_step right i (L @ y # LR, S @ z # SR, vs, R @ Live x # RR)
    = Some (L @ Live x # LR, S @ c # SR, vs + 1, R @ Moved # RR)"
  unfolding merge_step_def construct_def
  by (simp only: prod.case slot_move_at [OF assms(3)] arr_set_at [OF assms(1)] assms(4)
      arr_set_at [OF assms(2)] Option.bind.simps)

lemma merge_append_steps:
  assumes r: "node_rep t right rks rcs" and LR: "length rks \<le> length LR" "length rks \<le> length SR"
    and l: "length L = vs" "length S = vs" and m: "m \<le> length rks"
  shows "\<exists>rkv. for_loop (merge_step right) [0..<m] (L @ LR, S @ SR, vs, keys_and_values right) =
    Some (L @ map Live (take m rks) @ drop m LR, S @ take m rcs @ drop m SR, vs + m, rkv) \<and>
    (\<exists>rest. rkv = replicate m Moved @ map Live (drop m rks) @ rest)"
  using m
proof (induction m)
  case 0
  from r obtain kr sr where "keys_and_values right = map Live rks @ kr" by (rule node_repE)
  then show ?case by simp
next
  case (Suc m)
  then obtain rest where IH: "for_loop (merge_step right) [0..<m] (L @ LR, S @ SR, vs, keys_and_values right) =
      Some (L @ map Live (take m rks) @ drop m LR, S @ take m rcs @ drop m SR, vs + m,
        replicate m Moved @ map Live (drop m rks) @ rest)"
    by auto
  have lc: "length rcs = Suc (length rks)" using node_rep_length [OF r] .
  have len: "length (L @ map Live (take m rks)) = vs + m" "length (S @ take m rcs) = vs + m"
      "length (replicate m (Moved :: ('a \<times> 'b) slot)) = m"
    using l Suc.prems lc by simp_all
  have c: "arr_get (subtrees right) m = Some (rcs ! m)"
    using node_rep_arr_get [OF r, of m] Suc.prems by simp
  have d: "drop m rks = rks ! m # drop (Suc m) rks" "drop m LR = LR ! m # drop (Suc m) LR"
      "drop m SR = SR ! m # drop (Suc m) SR"
    using Suc.prems LR by (simp_all add: drop_nth_Cons)
  have tk: "take (Suc m) rks = take m rks @ [rks ! m]" "take (Suc m) rcs = take m rcs @ [rcs ! m]"
    using Suc.prems lc by (simp_all add: take_Suc_conv_app_nth)
  have "merge_step right m (L @ map Live (take m rks) @ drop m LR, S @ take m rcs @ drop m SR, vs + m,
        replicate m Moved @ map Live (drop m rks) @ rest)
      = Some (L @ map Live (take (Suc m) rks) @ drop (Suc m) LR, S @ take (Suc m) rcs @ drop (Suc m) SR,
        vs + Suc m, replicate (Suc m) Moved @ map Live (drop (Suc m) rks) @ rest)"
    using merge_step_at [OF len c, of "LR ! m" "drop (Suc m) LR" "SR ! m" "drop (Suc m) SR" "rks ! m"
        "map Live (drop (Suc m) rks) @ rest"]
    unfolding d tk by (simp add: replicate_app_Cons_same)
  then show ?case using IH by (auto simp: for_loop_append)
qed

lemma merge_append_rep:
  assumes r: "node_rep t right rks rcs"
    and l: "length L = length S" "length L + length LR = 2 * t - 1" "length S + length SR = 2 * t"
    and room: "length L + length rks \<le> 2 * t - 1" and L: "L = map Live lks"
  shows "\<exists>n. merge_append (L @ LR) (S @ SR) (length L) right = Some n \<and>
    node_rep t n (lks @ rks) (S @ rcs)"
proof -
  have t: "1 \<le> t" using r by (simp add: node_rep_def)
  have LR: "length rks \<le> length LR" "length rks < length SR" using l room t by simp_all
  have lc: "length rcs = Suc (length rks)" using node_rep_length [OF r] .
  obtain s0 where d: "drop (length rks) SR = s0 # drop (Suc (length rks)) SR"
    using drop_nth_Cons [OF LR(2)] by blast
  have c: "arr_get (subtrees right) (length rks) = Some (rcs ! length rks)"
    using node_rep_arr_get [OF r] by simp
  have rcs: "rcs = take (length rks) rcs @ [rcs ! length rks]"
    using lc by (metis take_Suc_conv_app_nth lessI order_refl take_all_iff)
  from merge_append_steps [OF r LR(1) less_imp_le [OF LR(2)] refl l(1) [symmetric] order_refl]
  obtain rkv where loop: "for_loop (merge_step right) [0..<length rks]
      (L @ LR, S @ SR, length L, keys_and_values right) =
      Some (L @ map Live rks @ drop (length rks) LR,
        (S @ take (length rks) rcs) @ s0 # drop (Suc (length rks)) SR, length L + length rks, rkv)"
    by (auto simp: d)
  have "length (S @ take (length rks) rcs) = length L + length rks" using l lc by simp
  note a = arr_set_at [OF this]
  let ?n = "Node (L @ map Live rks @ drop (length rks) LR)
      ((S @ take (length rks) rcs) @ (rcs ! length rks) # drop (Suc (length rks)) SR) (length L + length rks)"
  have "merge_append (L @ LR) (S @ SR) (length L) right = Some ?n"
    unfolding merge_append_def node_rep_vs [OF r] loop using c a
    by (simp only: prod.case Option.bind.simps)
  moreover have "node_rep t ?n (lks @ rks) (S @ rcs)"
  proof (rule node_repI)
    have "rcs @ drop (Suc (length rks)) SR = (take (length rks) rcs @ [rcs ! length rks]) @ drop (Suc (length rks)) SR"
      using rcs by (rule arg_cong)
    then show "subtrees ?n = (S @ rcs) @ drop (Suc (length rks)) SR" by simp
  qed (use L l lc LR t in auto)
  ultimately show ?thesis by blast
qed

lemma move_up_append:
  "i < length xs \<Longrightarrow> move_up i (length xs) (xs @ y # ys) = without i xs @ y # xs ! i # ys"
  by (auto simp: move_up_def without_def nth_append)

lemma merge_rotate_ok:
  assumes "i < length ks" "length cs = Suc (length ks)"
  shows "merge_rotate (ks @ k0 # kr) (cs @ s0 # sr) i (length ks) =
    Some (without i ks @ k0 # ks ! i # kr, without (Suc i) cs @ s0 # cs ! Suc i # sr)"
proof -
  let ?f = "\<lambda>j ys. arr_swap ys j (j + 1) :: ('a \<times> 'b) slot list option"
  let ?g = "\<lambda>j ys. arr_swap ys (j + 1) (j + 2) :: ('a, 'b) common_node option list option"
  have f: "for_loop ?f [i..<length ks] (ks @ k0 # kr) = Some (without i ks @ k0 # ks ! i # kr)"
    using swap_up_loop [of i "length ks" "ks @ k0 # kr"] move_up_append [of i ks k0 kr] assms by simp
  have g: "for_loop ?g [i..<length ks] (cs @ s0 # sr) = Some (without (Suc i) cs @ s0 # cs ! Suc i # sr)"
    using swap_up_loop_Suc [of i "length ks" "cs @ s0 # sr"] move_up_append [of "Suc i" cs s0 sr] assms
    by simp
  show ?thesis using for_loop_pair [OF f g] by (simp add: merge_rotate_def)
qed

lemma node_merge_rep:
  assumes p: "node_rep t p ks cs" and i: "i < length ks" and room: "length ks < 2 * t - 1"
    and l: "cs ! i = Some l" "node_rep t l lks lcs" and r: "cs ! Suc i = Some r" "node_rep t r rks rcs"
    and fit: "length lks + length rks + 1 \<le> 2 * t - 1"
  shows "\<exists>p' l'. node_merge mem p i = Inr (p', mem + 1) \<and>
    node_rep t l' (lks @ ks ! i # rks) (lcs @ rcs) \<and>
    node_rep t p' (without i ks) ((without (Suc i) cs)[i := Some l'])"
proof -
  from p obtain kr sr where k: "keys_and_values p = map Live ks @ kr" and s: "subtrees p = cs @ sr"
    and v: "virtual_size p = length ks" and lc: "length cs = Suc (length ks)"
    and lk: "length ks + length kr = 2 * t - 1" and ls: "length cs + length sr = 2 * t" and t: "1 \<le> t"
    by (rule node_repE)
  obtain k0 kr' where kr: "kr = k0 # kr'" using lk room by (cases kr) auto
  obtain s0 sr' where sr: "sr = s0 # sr'" using ls lc room by (cases sr) auto
  from l(2) obtain lkr lsr where lK: "keys_and_values l = map Live lks @ lkr" and lS: "subtrees l = lcs @ lsr"
    and lv: "virtual_size l = length lks" and llc: "length lcs = Suc (length lks)"
    and llk: "length lks + length lkr = 2 * t - 1" and lls: "length lcs + length lsr = 2 * t"
    by (rule node_repE)
  obtain l0 lkr' where lkr: "lkr = l0 # lkr'" using llk fit by (cases lkr) auto
  let ?K = "(map Live ks)[i := Moved]"
  have mv: "slot_move (keys_and_values p) i = Some (ks ! i, ?K @ kr)"
    using k i by (simp add: slot_move_def slot_read_def nth_append list_update_append)
  have cst: "construct (keys_and_values l) (length lks) (ks ! i) = Some (map Live (lks @ [ks ! i]) @ lkr')"
    using lK lkr by (simp add: construct_def list_update_append)
  have rot: "merge_rotate (?K @ kr) (cs @ sr) i (length ks) =
      Some (map Live (without i ks) @ k0 # Moved # kr', without (Suc i) cs @ s0 # cs ! Suc i # sr')"
    using merge_rotate_ok [of i ?K cs k0 kr' s0 sr'] i lc
    by (simp add: kr sr without_def take_map drop_map)
  have des: "destruct (map Live (without i ks) @ k0 # Moved # kr') (length ks - 1) =
      Some (map Live (without i ks) @ Raw # Moved # kr')"
    using i by (simp add: destruct_def arr_set_at del: arr_set_in)
  obtain l' where app: "merge_append (map Live (lks @ [ks ! i]) @ lkr') (lcs @ lsr) (length lks + 1) r = Some l'"
      and l': "node_rep t l' ((lks @ [ks ! i]) @ rks) (lcs @ rcs)"
    using merge_append_rep [OF r(2), of "map Live (lks @ [ks ! i])" lcs lkr' lsr "lks @ [ks ! i]"]
      llc llk lls lkr fit by auto
  have st: "arr_set (without (Suc i) cs @ s0 # cs ! Suc i # sr') i (Some l') =
      Some ((without (Suc i) cs)[i := Some l'] @ s0 # cs ! Suc i # sr')"
    using i lc by (simp add: list_update_append)
  let ?p' = "Node (map Live (without i ks) @ Raw # Moved # kr')
      ((without (Suc i) cs)[i := Some l'] @ s0 # cs ! Suc i # sr') (length ks - 1)"
  have gets: "arr_get (subtrees p) i = Some (Some l)" "arr_get (subtrees p) (i + 1) = Some (Some r)"
    using node_rep_arr_get [OF p] i l(1) r(1) by auto
  have "node_merge mem p i = Inr (?p', mem + 1)"
    using i gets mv cst rot des app st
    by (simp add: node_merge_def v lv Let_def s lS destroy_node_def)
  moreover have "node_rep t ?p' (without i ks) ((without (Suc i) cs)[i := Some l'])"
    using i lc lk ls kr sr t by (intro node_repI) auto
  ultimately show ?thesis using l' by auto
qed

text \<open>
  With a full parent the rotation leaves the arrays: its last step accesses the slot at index
  \<open>virtual_size\<close>, which a full node does not have.
\<close>

lemma swap_loop_length:
  "for_loop (\<lambda>i (kv, sb). do { kv' \<leftarrow> arr_swap kv (f i) (g i); sb' \<leftarrow> arr_swap sb (p i) (q i); Some (kv', sb') })
     js (a, b) = Some (a', b') \<Longrightarrow> length a' = length a"
proof (induction js arbitrary: a b)
  case (Cons j js)
  then obtain a1 b1 where "arr_swap a (f j) (g j) = Some a1"
      "for_loop (\<lambda>i (kv, sb). do { kv' \<leftarrow> arr_swap kv (f i) (g i); sb' \<leftarrow> arr_swap sb (p i) (q i); Some (kv', sb') })
     js (a1, b1) = Some (a', b')"
    by (auto simp: Option.bind_eq_Some_conv)
  moreover from this have "length a1 = length a"
    by (auto simp: arr_swap_def arr_get_def arr_set_def Option.bind_eq_Some_conv split: if_splits)
  ultimately show ?case using Cons.IH by simp
qed simp

lemma merge_rotate_overrun:
  assumes "i < vs" "length kv \<le> vs"
  shows "merge_rotate kv sb i vs = None"
proof -
  obtain m where vs: "vs = Suc m" "i \<le> m" using assms by (cases vs) auto
  let ?b = "\<lambda>i (kv, sb). do {
     kv' \<leftarrow> arr_swap kv i (i + 1);
     sb' \<leftarrow> arr_swap sb (i + 1) (i + 2);
     Some (kv' :: ('a \<times> 'b) slot list, sb' :: ('a, 'b) common_node option list) }"
  have "?b m (a', b') = None" if "for_loop ?b [i..<m] (kv, sb) = Some (a', b')" for a' b'
  proof -
    have "length a' = length kv" using that by (rule swap_loop_length)
    then have "arr_swap a' m (m + 1) = None" using assms vs by (intro arr_swap_out) auto
    then show ?thesis by simp
  qed
  moreover have "[i..<vs] = [i..<m] @ [m]" using vs by simp
  ultimately show ?thesis
    unfolding merge_rotate_def by (auto simp add: for_loop_append simp del: upt_Suc split: bind_split)
qed

lemma node_merge_full_parent:
  assumes "virtual_size p = length (keys_and_values p)" "i < virtual_size p"
  shows "node_merge mem p i = Inl Undefined_behaviour"
proof -
  have rot: "merge_rotate kv (subtrees p) i (virtual_size p) = None"
    if "slot_move (keys_and_values p) i = Some (x, kv)" for x kv
  proof (rule merge_rotate_overrun [OF assms(2)])
    show "length kv \<le> virtual_size p"
      using that assms by (auto simp: slot_move_def arr_set_def Option.bind_eq_Some_conv split: if_splits)
  qed
  show ?thesis
    using assms(2) rot
    by (auto simp: node_merge_def Let_def or_ub_def Option.bind_eq_Some_conv split: option.splits)
qed

text \<open>
  Even when the parent has room, the object that the rotation brings to the slot about to be
  destroyed is the one from behind the used prefix.
\<close>

lemma merge_rotate_last:
  assumes "node_rep t p ks cs" "i < length ks" "length ks < 2 * t - 1"
    and "merge_rotate (keys_and_values p) (subtrees p) i (length ks) = Some (kv, sb)"
  shows "kv ! (length ks - 1) = keys_and_values p ! length ks"
proof -
  from assms(1) obtain kr sr where k: "keys_and_values p = map Live ks @ kr" and s: "subtrees p = cs @ sr"
    and lc: "length cs = Suc (length ks)"
    and lk: "length ks + length kr = 2 * t - 1" and ls: "length cs + length sr = 2 * t"
    by (rule node_repE)
  obtain k0 kr' where kr: "kr = k0 # kr'" using lk assms(3) by (cases kr) auto
  obtain s0 sr' where sr: "sr = s0 # sr'" using ls lc assms(3) by (cases sr) auto
  have "kv = without i (map Live ks) @ k0 # map Live ks ! i # kr'"
    using assms(4) merge_rotate_ok [of i "map Live ks" cs k0 kr' s0 sr'] assms(2) lc
    by (simp add: k s kr sr)
  moreover have "length (without i (map Live ks)) = length ks - 1" using assms(2) by simp
  ultimately have "kv ! (length ks - 1) = k0" by (metis nth_append_length)
  then show ?thesis by (simp add: k kr nth_append)
qed

end
