(* ===== verification/Tree_Paths.thy ===== *)
theory Tree_Paths
  imports B_Tree Node_Lemmas
begin

text \<open>
  The stack of nodes that \<open>find_path\<close> builds, seen as a context: what stands in key order left and
  right of the node at its end, when it belongs to a well-formed tree, and what \<open>plug\<close> makes of
  a changed node. The search lemma says where the binary searches lead.
\<close>

named_theorems content_simps \<open>how node operations change a node's content in key order\<close>

section \<open>The algebra of contents\<close>

definition woven_left :: "nat \<Rightarrow> 'a list list \<Rightarrow> 'a list \<Rightarrow> 'a list" where
  "woven_left i cs ks = concat (map2 (\<lambda>c k. c @ [k]) (take i cs) (take i ks))"

definition woven_right :: "nat \<Rightarrow> 'a list list \<Rightarrow> 'a list \<Rightarrow> 'a list" where
  "woven_right i cs ks = concat (map2 (\<lambda>k c. k # c) (drop i ks) (drop (Suc i) cs))"

lemma weave_Cons_right: "length cs = length ks \<Longrightarrow> weave (c # cs) ks = c @ concat (map2 (\<lambda>k c. k # c) ks cs)"
  by (induction cs ks arbitrary: c rule: list_induct2) auto

lemma weave_append:
  "length as = length ks \<Longrightarrow> cs \<noteq> [] \<Longrightarrow>
   weave (as @ cs) (ks @ ls) = concat (map2 (\<lambda>c k. c @ [k]) as ks) @ weave cs ls"
  by (induction as ks rule: list_induct2) auto

lemma weave_at:
  assumes "length cs = Suc (length ks)" "i \<le> length ks"
  shows "weave cs ks = woven_left i cs ks @ cs ! i @ woven_right i cs ks"
proof -
  have d: "drop i cs = cs ! i # drop (Suc i) cs" using assms by (simp add: Cons_nth_drop_Suc)
  have "weave (take i cs @ drop i cs) (take i ks @ drop i ks) =
      woven_left i cs ks @ weave (drop i cs) (drop i ks)"
    unfolding woven_left_def using assms by (intro weave_append) auto
  also have "weave (drop i cs) (drop i ks) = cs ! i @ woven_right i cs ks"
    unfolding d woven_right_def using assms by (intro weave_Cons_right) simp
  finally show ?thesis by simp
qed

lemma woven_left_update: "woven_left i (cs[i := c]) ks = woven_left i cs ks"
  by (simp add: woven_left_def)

lemma woven_right_update: "woven_right i (cs[i := c]) ks = woven_right i cs ks"
  by (simp add: woven_right_def)

lemma weave_update:
  assumes "length cs = Suc (length ks)" "i \<le> length ks"
  shows "weave (cs[i := c]) ks = woven_left i cs ks @ c @ woven_right i cs ks"
  using weave_at [of "cs[i := c]" ks i] assms by (simp add: woven_left_update woven_right_update)

text \<open>Two neighbouring subtrees and the pair between them.\<close>

lemma woven_right_Suc:
  assumes "length cs = Suc (length ks)" "i < length ks"
  shows "woven_right i cs ks = ks ! i # cs ! Suc i @ woven_right (Suc i) cs ks"
proof -
  have "drop i ks = ks ! i # drop (Suc i) ks" "drop (Suc i) cs = cs ! Suc i # drop (Suc (Suc i)) cs"
    using assms by (simp_all add: Cons_nth_drop_Suc)
  then show ?thesis by (simp add: woven_right_def)
qed

lemma woven_left_Suc:
  assumes "length cs = Suc (length ks)" "i < length ks"
  shows "woven_left (Suc i) cs ks = woven_left i cs ks @ cs ! i @ [ks ! i]"
  using assms by (simp add: woven_left_def take_Suc_conv_app_nth)

lemma weave_ins_at [content_simps]:
  assumes "length cs = Suc (length ks)" "i \<le> length ks"
  shows "weave (ins_at (Suc i) c cs) (ins_at i k ks) =
    woven_left i cs ks @ cs ! i @ k # c @ woven_right i cs ks"
proof -
  have d: "ins_at (Suc i) c cs = take i cs @ cs ! i # c # drop (Suc i) cs"
      "ins_at i k ks = take i ks @ k # drop i ks"
    using assms by (simp_all add: ins_at_def take_Suc_conv_app_nth)
  have "weave (ins_at (Suc i) c cs) (ins_at i k ks) =
      woven_left i cs ks @ weave (cs ! i # c # drop (Suc i) cs) (k # drop i ks)"
    unfolding d woven_left_def using assms by (intro weave_append) auto
  moreover have "weave (c # drop (Suc i) cs) (drop i ks) = c @ woven_right i cs ks"
    unfolding woven_right_def using assms by (intro weave_Cons_right) simp
  ultimately show ?thesis by simp
qed

lemma weave_split [content_simps]:
  assumes "length cs = Suc (length ks)" "m < length ks"
  shows "weave (take (Suc m) cs) (take m ks) @ ks ! m # weave (drop (Suc m) cs) (drop (Suc m) ks) = weave cs ks"
proof -
  have c: "drop (Suc m) cs = cs ! Suc m # drop (Suc (Suc m)) cs" "take (Suc m) cs = take m cs @ [cs ! m]"
    using assms by (simp_all add: Cons_nth_drop_Suc take_Suc_conv_app_nth)
  have "weave (take m cs @ [cs ! m]) (take m ks @ []) = woven_left m cs ks @ cs ! m"
    unfolding woven_left_def using assms by (subst weave_append) auto
  moreover have "weave (drop (Suc m) cs) (drop (Suc m) ks) = cs ! Suc m @ woven_right (Suc m) cs ks"
    unfolding c(1) woven_right_def using assms by (intro weave_Cons_right) simp
  ultimately show ?thesis
    using assms by (simp add: c(2) weave_at [of cs ks m] woven_right_Suc)
qed

lemma weave_join:
  assumes "length as = Suc (length ks)" "length bs = Suc (length ls)"
  shows "weave (as @ bs) (ks @ k # ls) = weave as ks @ k # weave bs ls"
  using weave_split [of "as @ bs" "ks @ k # ls" "length ks"] assms by simp

lemma weave_without [content_simps]:
  assumes "length cs = Suc (length ks)" "i < length ks"
  shows "weave ((without (Suc i) cs)[i := c]) (without i ks) =
    woven_left i cs ks @ c @ woven_right (Suc i) cs ks"
proof -
  have l: "length (without (Suc i) cs) = Suc (length (without i ks))" "i \<le> length (without i ks)"
    using assms by simp_all
  have "woven_left i (without (Suc i) cs) (without i ks) = woven_left i cs ks"
    using assms by (simp add: woven_left_def without_def min_def)
  moreover have "woven_right i (without (Suc i) cs) (without i ks) = woven_right (Suc i) cs ks"
    using assms by (simp add: woven_right_def without_def)
  ultimately show ?thesis using weave_update [OF l, of c] by simp
qed

lemma weave_leaf: "weave (replicate (Suc (length ks)) []) ks = ks"
  by (induction ks) auto

section \<open>Well-formed trees\<close>

text \<open>The height, read off the first subtree pointers.\<close>

fun node_height :: "('k, 'v) common_node \<Rightarrow> nat" where
  "node_height (Node kv (Some c # sb) vs) = Suc (node_height c)"
| "node_height (Node kv sb vs) = 0"

lemma wf_node_height: "wf_node t h n \<Longrightarrow> node_height n = h"
proof (induction h arbitrary: n)
  case 0
  then obtain ks where "node_rep t n ks (replicate (Suc (length ks)) None)"
    by (auto simp only: wf_node_0)
  then show ?case by (rule node_repE) simp
next
  case (Suc h)
  then obtain ks cs where n: "node_rep t n ks cs" and c: "\<forall>c \<in> set cs. wf_child t h c"
    by (auto simp: wf_node_Suc)
  from n obtain kr sr where N: "n = Node (map Live ks @ kr) (cs @ sr) (length ks)"
      and l: "length cs = Suc (length ks)"
    by (rule node_repE)
  obtain c0 cs' where cs: "cs = c0 # cs'" using l by (cases cs) auto
  with c obtain m where "c0 = Some m" "wf_node t h m" by (auto simp: wf_child_def)
  then show ?case using Suc.IH N cs by simp
qed

text \<open>A root may hold fewer than the minimum of keys, but not none.\<close>

definition tree_ok :: "nat \<Rightarrow> ('k::linorder, 'v) common_node option \<Rightarrow> bool" where
  "tree_ok t root = (case root of
      None \<Rightarrow> True
    | Some n \<Rightarrow> 1 \<le> virtual_size n \<and> wf_node t (node_height n) n \<and> sorted_keys (inorder n))"

lemma tree_okI:
  "wf_node t h n \<Longrightarrow> 1 \<le> virtual_size n \<Longrightarrow> sorted_keys (inorder n) \<Longrightarrow> tree_ok t (Some n)"
  by (simp add: tree_ok_def wf_node_height)

lemma tree_ok_SomeE:
  assumes "tree_ok t (Some n)"
  obtains h where "wf_node t h n" "1 \<le> virtual_size n" "sorted_keys (inorder n)"
  using assms by (auto simp: tree_ok_def)

definition bt_ok :: "('k::linorder, 'v) b_tree \<Rightarrow> bool" where
  "bt_ok tr \<longleftrightarrow> 2 \<le> bt_t tr \<and> tree_ok (bt_t tr) (bt_root tr)"

definition bt_entries :: "('k, 'v) b_tree \<Rightarrow> ('k \<times> 'v) list" where
  "bt_entries tr = inorder_ptr (bt_root tr)"

section \<open>Paths as contexts\<close>

definition pairs :: "('k, 'v) common_node \<Rightarrow> ('k \<times> 'v) list" where
  "pairs n = map the_live (take (virtual_size n) (keys_and_values n))"

definition children :: "('k, 'v) common_node \<Rightarrow> ('k, 'v) common_node option list" where
  "children n = take (Suc (virtual_size n)) (subtrees n)"

lemma pairs_rep: "node_rep t n ks cs \<Longrightarrow> pairs n = ks"
  by (simp add: node_rep_def pairs_def comp_def)

lemma children_rep: "node_rep t n ks cs \<Longrightarrow> children n = cs"
  by (simp add: node_rep_def children_def)

fun ctx_left :: "('k, 'v) path \<Rightarrow> ('k \<times> 'v) list" where
  "ctx_left [] = []"
| "ctx_left ((ptr, i) # path) =
     ctx_left path @ woven_left (sub_index i) (map inorder_ptr (children (the ptr))) (pairs (the ptr))"

fun ctx_right :: "('k, 'v) path \<Rightarrow> ('k \<times> 'v) list" where
  "ctx_right [] = []"
| "ctx_right ((ptr, i) # path) =
     woven_right (sub_index i) (map inorder_ptr (children (the ptr))) (pairs (the ptr)) @ ctx_right path"

text \<open>
  \<open>ctx_ok t h path\<close>: the path leads to a node of height \<open>h\<close> of a well-formed tree. The child that
  an entry's pointer leads to may have been replaced since.
\<close>

fun ctx_ok :: "nat \<Rightarrow> nat \<Rightarrow> ('k, 'v) path \<Rightarrow> bool" where
  "ctx_ok t h [] = True"
| "ctx_ok t h ((ptr, i) # path) =
     (\<exists>p. ptr = Some p \<and> i < 0 \<and> sub_index i \<le> virtual_size p \<and> wf_node t (Suc h) p \<and>
       1 \<le> virtual_size p \<and> (path \<noteq> [] \<longrightarrow> t - 1 \<le> virtual_size p) \<and> ctx_ok t (Suc h) path)"

text \<open>\<open>at_focus t h path n\<close>: the node \<open>n\<close>, of height \<open>h\<close>, may stand at the end of the path.\<close>

definition at_focus :: "nat \<Rightarrow> nat \<Rightarrow> ('k, 'v) path \<Rightarrow> ('k, 'v) common_node \<Rightarrow> bool" where
  "at_focus t h path n \<longleftrightarrow>
     ctx_ok t h path \<and> wf_node t h n \<and> 1 \<le> virtual_size n \<and> (path \<noteq> [] \<longrightarrow> t - 1 \<le> virtual_size n)"

definition zip_content :: "('k, 'v) path \<Rightarrow> ('k, 'v) common_node \<Rightarrow> ('k \<times> 'v) list" where
  "zip_content path n = ctx_left path @ inorder n @ ctx_right path"

text \<open>The entry that the code pushes for the subtree at index \<open>j\<close>.\<close>

lemma sub_index_entry [simp]: "sub_index (- int j - 1) = j"
  by simp

lemma update_child:
  assumes p: "node_at t (Suc h) p ks cs" and j: "j \<le> length ks"
    and c: "wf_node t h c" "t - 1 \<le> virtual_size c"
  shows "\<exists>sb. arr_set (subtrees p) j (Some c) = Some sb \<and>
    node_at t (Suc h) (Node (keys_and_values p) sb (virtual_size p)) ks (cs[j := Some c])"
proof -
  have r: "node_rep t p ks cs" and cs: "\<forall>c \<in> set cs. ptr_ok t (Suc h) c"
    using p by (simp_all add: node_at_def)
  from r obtain kr sr where P: "p = Node (map Live ks @ kr) (cs @ sr) (length ks)"
    and l: "length cs = Suc (length ks)" "length ks + length kr = 2 * t - 1"
      "length cs + length sr = 2 * t" "1 \<le> t"
    by (rule node_repE)
  have jc: "j < length cs" using j l by simp
  have "arr_set (subtrees p) j (Some c) = Some (cs[j := Some c] @ sr)"
    using jc by (simp add: P list_update_append)
  moreover have "node_at t (Suc h) (Node (map Live ks @ kr) (cs[j := Some c] @ sr) (length ks)) ks (cs[j := Some c])"
  proof (rule node_atI)
    show "node_rep t (Node (map Live ks @ kr) (cs[j := Some c] @ sr) (length ks)) ks (cs[j := Some c])"
      using l by (intro node_repI) auto
    show "ptr_ok t (Suc h) d" if "d \<in> set (cs[j := Some c])" for d
      using that cs c set_update_subset_insert [of cs j "Some c"] by (auto simp: wf_child_def)
  qed
  ultimately show ?thesis by (simp add: P)
qed

lemma set_child:
  assumes p: "node_rep t p ks cs" and j: "j \<le> length ks"
  shows "\<exists>p'. set_subtree p j c = Some p' \<and> node_rep t p' ks (cs[j := c]) \<and> virtual_size p' = virtual_size p"
proof -
  from p obtain kr sr where P: "p = Node (map Live ks @ kr) (cs @ sr) (length ks)"
    and l: "length cs = Suc (length ks)" "length ks + length kr = 2 * t - 1"
      "length cs + length sr = 2 * t" "1 \<le> t"
    by (rule node_repE)
  have "set_subtree p j c = Some (Node (map Live ks @ kr) (cs[j := c] @ sr) (length ks))"
    using j l by (simp add: P set_subtree_def list_update_append)
  moreover have "node_rep t (Node (map Live ks @ kr) (cs[j := c] @ sr) (length ks)) ks (cs[j := c])"
    using l by (intro node_repI) auto
  ultimately show ?thesis by (simp add: P)
qed

lemma inorder_at:
  assumes "node_rep t p ks cs" "j \<le> length ks"
  shows "inorder p = woven_left j (map inorder_ptr cs) ks @ inorder_ptr (cs ! j) @ woven_right j (map inorder_ptr cs) ks"
proof -
  have l: "length (map inorder_ptr cs) = Suc (length ks)" using node_rep_length [OF assms(1)] by simp
  have "map inorder_ptr cs ! j = inorder_ptr (cs ! j)" using l assms(2) by (intro nth_map) simp
  then show ?thesis using inorder_rep [OF assms(1)] weave_at [OF l assms(2)] by simp
qed

lemma inorder_child:
  assumes "node_rep t p ks cs" "j \<le> length ks" "node_rep t p' ks (cs[j := c])"
  shows "inorder p' = woven_left j (map inorder_ptr cs) ks @ inorder_ptr c @ woven_right j (map inorder_ptr cs) ks"
proof -
  have l: "length (map inorder_ptr cs) = Suc (length ks)" using node_rep_length [OF assms(1)] by simp
  show ?thesis using inorder_rep [OF assms(3)] weave_update [OF l assms(2)] by (simp add: map_update)
qed

lemma wf_node_SucE:
  assumes "wf_node t (Suc h) p"
  obtains ks cs where "node_at t (Suc h) p ks cs" "node_rep t p ks cs" "virtual_size p = length ks"
    "length cs = Suc (length ks)" "pairs p = ks" "children p = cs"
proof -
  from assms obtain ks cs where p: "node_at t (Suc h) p ks cs" by (auto simp: wf_node_iff)
  have r: "node_rep t p ks cs" using p by (simp add: node_at_def)
  show thesis
    by (rule that [OF p r node_rep_vs [OF r] node_rep_length [OF r] pairs_rep [OF r] children_rep [OF r]])
qed

text \<open>Replacing the node at the end of the path.\<close>

lemma plug_correct:
  assumes "ctx_ok t h path" "wf_node t h c" "path \<noteq> [] \<Longrightarrow> t - 1 \<le> virtual_size c"
  shows "\<exists>root. plug (Some c) path = Some (Some root) \<and> wf_node t (h + length path) root \<and>
    inorder root = zip_content path c \<and> (path \<noteq> [] \<or> 1 \<le> virtual_size c \<longrightarrow> 1 \<le> virtual_size root)"
  using assms
proof (induction path arbitrary: h c)
  case Nil
  then show ?case by (simp add: zip_content_def)
next
  case (Cons e path)
  obtain ptr i where e: "e = (ptr, i)" by fastforce
  let ?j = "sub_index i"
  from Cons.prems(1) obtain p where p: "ptr = Some p" "i < 0" "?j \<le> virtual_size p" "wf_node t (Suc h) p"
      "1 \<le> virtual_size p" "path \<noteq> [] \<Longrightarrow> t - 1 \<le> virtual_size p" "ctx_ok t (Suc h) path"
    by (auto simp: e)
  obtain ks cs where n: "node_at t (Suc h) p ks cs" "node_rep t p ks cs" "virtual_size p = length ks"
      "length cs = Suc (length ks)" "pairs p = ks" "children p = cs"
    using p(4) by (rule wf_node_SucE)
  have j: "?j \<le> length ks" using p(3) n(3) by simp
  obtain sb where sb: "arr_set (subtrees p) ?j (Some c) = Some sb"
      "node_at t (Suc h) (Node (keys_and_values p) sb (virtual_size p)) ks (cs[?j := Some c])"
    using update_child [OF n(1) j Cons.prems(2)] Cons.prems(3) by auto
  let ?p = "Node (keys_and_values p) sb (virtual_size p)"
  have w: "wf_node t (Suc h) ?p" using sb(2) by (auto simp: wf_node_iff)
  from Cons.IH [OF p(7) w] p(5,6) obtain root where root: "plug (Some ?p) path = Some (Some root)"
      "wf_node t (Suc h + length path) root" "inorder root = zip_content path ?p" "1 \<le> virtual_size root"
    by auto
  have "inorder ?p = woven_left ?j (map inorder_ptr cs) ks @ inorder c @ woven_right ?j (map inorder_ptr cs) ks"
    using inorder_child [OF n(2) j node_at_rep [OF sb(2)]] by simp
  then have "zip_content path ?p = zip_content (e # path) c"
    by (simp add: zip_content_def e p(1) n(5,6))
  then show ?case using root sb(1) by (simp add: e p(1))
qed

section \<open>Where the search leads\<close>

lemma sorted_weave_keys:
  "sorted_keys (weave cs ks) \<Longrightarrow> length cs = Suc (length ks) \<Longrightarrow> sorted_keys ks"
proof (induction cs ks rule: weave.induct)
  case (1 c cs k ks)
  moreover have "set ks \<subseteq> set (weave cs ks)" if "length cs = Suc (length ks)"
    using that by (induction cs ks rule: weave.induct) auto
  ultimately show ?case by (auto simp: sorted_wrt_append)
qed auto

lemma woven_left_below:
  assumes "sorted_keys (woven_left i cs ks)" "length cs = Suc (length ks)" "i \<le> length ks"
    and "\<And>j. j < i \<Longrightarrow> fst (ks ! j) < key"
  shows "\<forall>p \<in> set (woven_left i cs ks). fst p < key"
proof (cases i)
  case 0
  then show ?thesis by (simp add: woven_left_def)
next
  case (Suc m)
  then have "woven_left i cs ks = woven_left m cs ks @ cs ! m @ [ks ! m]"
    using assms by (simp add: woven_left_Suc)
  moreover have "fst (ks ! m) < key" using assms Suc by simp
  ultimately show ?thesis using assms(1) by (auto simp: sorted_wrt_append)
qed

lemma woven_right_above:
  assumes "sorted_keys (woven_right i cs ks)" "length cs = Suc (length ks)" "i \<le> length ks"
    and "i < length ks \<Longrightarrow> key < fst (ks ! i)"
  shows "\<forall>p \<in> set (woven_right i cs ks). key < fst p"
proof (cases "i = length ks")
  case True
  then show ?thesis by (simp add: woven_right_def)
next
  case False
  then have "woven_right i cs ks = ks ! i # cs ! Suc i @ woven_right (Suc i) cs ks"
    using assms by (simp add: woven_right_Suc)
  moreover have "key < fst (ks ! i)" using assms False by simp
  ultimately show ?thesis using assms(1) by (auto simp: sorted_wrt_append intro: less_trans)
qed

lemma search_result_found:
  assumes "0 \<le> search_result ks key"
  shows "nat (search_result ks key) < length ks" "fst (ks ! nat (search_result ks key)) = key"
    "nat (search_result ks key) = key_rank ks key"
  using assms by (auto simp: search_result_def Let_def split: if_splits)

lemma search_result_not_found:
  assumes "search_result ks key < 0"
  shows "sub_index (search_result ks key) = key_rank ks key"
    "key_rank ks key < length ks \<Longrightarrow> key < fst (ks ! key_rank ks key)"
  using assms key_rank_not_less [of ks key]
  by (auto simp: search_result_def Let_def split: if_splits)

text \<open>What the end of a path from \<open>find_path\<close> says about the key.\<close>

definition key_at :: "'k::linorder \<Rightarrow> nat \<Rightarrow> nat \<Rightarrow> ('k, 'v) path \<Rightarrow> ('k, 'v) common_node \<Rightarrow> bool" where
  "key_at key t h path n \<longleftrightarrow> at_focus t h path n \<and> sorted_keys (zip_content path n) \<and>
     (\<forall>p \<in> set (ctx_left path). fst p < key) \<and> (\<forall>p \<in> set (ctx_right path). key < fst p)"

lemma key_at_child:
  assumes k: "key_at key t (Suc h) path n" and n: "node_at t (Suc h) n ks cs"
    and nf: "search_result ks key < 0" and t: "2 \<le> t"
  shows "\<exists>c. cs ! key_rank ks key = Some c \<and>
    key_at key t h ((Some n, search_result ks key) # path) c \<and>
    zip_content ((Some n, search_result ks key) # path) c = zip_content path n"
proof -
  let ?j = "key_rank ks key" and ?e = "(Some n, search_result ks key)"
  have r: "node_rep t n ks cs" using n by (simp add: node_at_def)
  have j: "?j \<le> length ks" by (rule key_rank_le)
  note si = search_result_not_found [OF nf]
  have "ptr_ok t (Suc h) (cs ! ?j)" using n j by (rule node_at_ptr)
  then obtain c where c: "cs ! ?j = Some c" "wf_node t h c" "t - 1 \<le> virtual_size c"
    by (auto simp: wf_child_def)
  have foc: "at_focus t (Suc h) path n" using k by (simp add: key_at_def)
  have f: "at_focus t h (?e # path) c"
    using foc c t j nf si(1) by (auto simp: at_focus_def node_rep_vs [OF r])
  have l: "length (map inorder_ptr cs) = Suc (length ks)" using node_rep_length [OF r] by simp
  have io: "inorder n = woven_left ?j (map inorder_ptr cs) ks @ inorder c @ woven_right ?j (map inorder_ptr cs) ks"
    using inorder_at [OF r j] c(1) by simp
  have z: "zip_content (?e # path) c = zip_content path n"
    by (simp add: zip_content_def io si(1) pairs_rep [OF r] children_rep [OF r])
  have so: "sorted_keys (zip_content path n)" using k by (simp add: key_at_def)
  then have s: "sorted_keys (woven_left ?j (map inorder_ptr cs) ks)"
      "sorted_keys (woven_right ?j (map inorder_ptr cs) ks)"
    by (simp_all add: zip_content_def io sorted_wrt_append)
  have "\<forall>p \<in> set (woven_left ?j (map inorder_ptr cs) ks). fst p < key"
    using s(1) l j key_rank_less by (rule woven_left_below)
  moreover have "\<forall>p \<in> set (woven_right ?j (map inorder_ptr cs) ks). key < fst p"
    using s(2) l j si(2) by (rule woven_right_above)
  ultimately have "key_at key t h (?e # path) c"
    using k f so by (auto simp: key_at_def z si(1) pairs_rep [OF r] children_rep [OF r])
  then show ?thesis using c(1) z by blast
qed

lemma key_at_sorted:
  assumes "key_at key t h path n" "node_at t h n ks cs"
  shows "sorted_keys ks" "ks \<noteq> []"
proof -
  have r: "node_rep t n ks cs" using assms(2) by (simp add: node_at_def)
  have "sorted_keys (inorder n)"
    using assms(1) by (simp add: key_at_def zip_content_def sorted_wrt_append)
  then show "sorted_keys ks"
    using inorder_rep [OF r] node_rep_length [OF r] sorted_weave_keys [of "map inorder_ptr cs" ks] by simp
  show "ks \<noteq> []"
    using assms(1) node_rep_vs [OF r] by (auto simp: key_at_def at_focus_def)
qed

text \<open>
  A tree whose inner nodes all have a free slot, and a path through such nodes: what a disposal
  needs for its merges.
\<close>

fun room_node :: "nat \<Rightarrow> nat \<Rightarrow> ('k, 'v) common_node \<Rightarrow> bool" where
  "room_node t 0 n = True"
| "room_node t (Suc h) n \<longleftrightarrow> virtual_size n < get_max_keys_count t \<and>
     list_all (\<lambda>c. case c of None \<Rightarrow> True | Some m \<Rightarrow> room_node t h m) (take (Suc (virtual_size n)) (subtrees n))"

definition path_not_full :: "nat \<Rightarrow> ('k, 'v) path \<Rightarrow> bool" where
  "path_not_full t path \<longleftrightarrow> (\<forall>(ptr, i) \<in> set path. virtual_size (the ptr) < get_max_keys_count t)"

lemma room_child:
  assumes "room_node t (Suc h) n" "node_rep t n ks cs" "j \<le> length ks" "cs ! j = Some c"
  shows "room_node t h c"
proof -
  have "cs ! j \<in> set cs" using assms(2,3) by (intro nth_mem) (simp add: node_rep_length)
  moreover have "list_all (\<lambda>c. case c of None \<Rightarrow> True | Some m \<Rightarrow> room_node t h m) cs"
    using assms(1,2) by (simp add: node_rep_def)
  ultimately show ?thesis using assms(4) by (auto simp: list_all_iff)
qed

lemma path_not_full_Cons:
  "room_node t (Suc h) n \<Longrightarrow> path_not_full t path \<Longrightarrow> path_not_full t ((Some n, i) # path)"
  by (simp add: path_not_full_def)

text \<open>The search that starts at \<open>n\<close> below \<open>path\<close> ends at \<open>m\<close> below \<open>path'\<close>.\<close>

definition search_end ::
  "'k::linorder \<Rightarrow> nat \<Rightarrow> nat \<Rightarrow> ('k, 'v) path \<Rightarrow> ('k, 'v) common_node
    \<Rightarrow> nat \<Rightarrow> ('k, 'v) path \<Rightarrow> ('k, 'v) common_node \<Rightarrow> ('k \<times> 'v) list \<Rightarrow> ('k, 'v) common_node option list \<Rightarrow> bool" where
  "search_end key t h path n h' path' m ks cs \<longleftrightarrow>
     node_at t h' m ks cs \<and> key_at key t h' path' m \<and> zip_content path' m = zip_content path n \<and>
     (search_result ks key < 0 \<longrightarrow> h' = 0) \<and> h' + length path' = h + length path \<and>
     (room_node t h n \<longrightarrow> path_not_full t path \<longrightarrow> room_node t h' m \<and> path_not_full t path')"

lemma search_end_step:
  assumes "search_end key t h ((Some n, i) # path) c h' path' m ks cs"
    and "zip_content ((Some n, i) # path) c = zip_content path n"
    and "room_node t (Suc h) n \<Longrightarrow> room_node t h c"
  shows "search_end key t (Suc h) path n h' path' m ks cs"
  using assms path_not_full_Cons [of t h n path i] by (auto simp: search_end_def)

context key_order
begin

lemma find_path_from_correct:
  assumes "key_at key t h path n" "2 \<le> t"
  shows "\<exists>m h' path' ks cs.
    find_path_from cmp key n path = Some ((Some m, search_result ks key) # path') \<and>
    search_end key t h path n h' path' m ks cs"
  using assms
proof (induction h arbitrary: n path)
  case 0
  have "wf_node t 0 n" using 0 by (simp add: key_at_def at_focus_def)
  then obtain ks cs where n: "node_at t 0 n ks cs" by (auto simp: wf_node_iff)
  then have r: "node_rep t n ks cs" by (simp add: node_at_def)
  note s = key_at_sorted [OF 0(1) n]
  note nfp = node_find_path_correct [OF r s, of key, unfolded One_nat_def]
  have "arr_get (subtrees n) (sub_index (search_result ks key)) = Some None" if "search_result ks key < 0"
    using node_rep_arr_get [OF r key_rank_le] node_at_ptr [OF n key_rank_le]
    by (simp add: search_result_not_found [OF that])
  then have "find_path_from cmp key n path = Some ((Some n, search_result ks key) # path)"
    by (subst find_path_from.simps) (auto simp: nfp Let_def)
  then show ?case using 0 n by (fastforce simp: search_end_def)
next
  case (Suc h)
  have "wf_node t (Suc h) n" using Suc.prems by (simp add: key_at_def at_focus_def)
  then obtain ks cs where n: "node_at t (Suc h) n ks cs" by (auto simp: wf_node_iff)
  then have r: "node_rep t n ks cs" by (simp add: node_at_def)
  note s = key_at_sorted [OF Suc.prems(1) n]
  note nfp = node_find_path_correct [OF r s, of key, unfolded One_nat_def]
  show ?case
  proof (cases "0 \<le> search_result ks key")
    case True
    then have "find_path_from cmp key n path = Some ((Some n, search_result ks key) # path)"
      by (subst find_path_from.simps) (auto simp: nfp Let_def)
    then show ?thesis using Suc.prems n True by (fastforce simp: search_end_def)
  next
    case False
    then have nf: "search_result ks key < 0" by simp
    obtain c where c: "cs ! key_rank ks key = Some c"
        "key_at key t h ((Some n, search_result ks key) # path) c"
        "zip_content ((Some n, search_result ks key) # path) c = zip_content path n"
      using key_at_child [OF Suc.prems(1) n nf Suc.prems(2)] by blast
    have "arr_get (subtrees n) (sub_index (search_result ks key)) = Some (Some c)"
      using node_rep_arr_get [OF r key_rank_le] c(1) by (simp add: search_result_not_found [OF nf])
    then have "find_path_from cmp key n path = find_path_from cmp key c ((Some n, search_result ks key) # path)"
      using nf by (subst find_path_from.simps) (auto simp: nfp Let_def)
    then show ?thesis
      using Suc.IH [OF c(2) Suc.prems(2)] search_end_step [OF _ c(3) room_child [OF _ r key_rank_le c(1)]]
      by metis
  qed
qed

end

text \<open>The same for a whole tree.\<close>

lemma key_at_root:
  "wf_node t h n \<Longrightarrow> 1 \<le> virtual_size n \<Longrightarrow> sorted_keys (inorder n) \<Longrightarrow> key_at key t h [] n"
  by (simp add: key_at_def at_focus_def zip_content_def)

end
