(* ===== verification/Tree_Insertion.thy ===== *)
theory Tree_Insertion
  imports Tree_Paths
begin

text \<open>
  Insertion, update and lookup in the B-tree refine the corresponding operations on the sorted list
  of its entries.
\<close>

section \<open>The climb after an insertion\<close>

lemma wf_nodeI: "node_at t h n ks cs \<Longrightarrow> wf_node t h n"
  by (auto simp: wf_node_iff)

lemma node_insert_at:
  assumes n: "node_at t h n ks cs" and room: "length ks < 2 * t - 1" and i: "i \<le> length ks"
    and r: "ptr_ok t h r"
  shows "\<exists>n'. node_insert n x i r = Some n' \<and> wf_node t h n' \<and> virtual_size n' = Suc (length ks) \<and>
    inorder n' = woven_left i (map inorder_ptr cs) ks @ inorder_ptr (cs ! i) @
      x # inorder_ptr r @ woven_right i (map inorder_ptr cs) ks"
proof -
  have nr: "node_rep t n ks cs" using n by (simp add: node_at_def)
  note lc = node_rep_length [OF nr]
  obtain n' where n': "node_insert n x i r = Some n'" "node_rep t n' (ins_at i x ks) (ins_at (Suc i) r cs)"
    using node_insert_rep [OF nr room i] by blast
  have "node_at t h n' (ins_at i x ks) (ins_at (Suc i) r cs)"
    using n'(2) n r by (auto simp: node_at_def set_ins_at)
  then have "wf_node t h n'" by (rule wf_nodeI)
  moreover have "inorder n' = woven_left i (map inorder_ptr cs) ks @ inorder_ptr (cs ! i) @
      x # inorder_ptr r @ woven_right i (map inorder_ptr cs) ks"
    using lc i weave_ins_at [of "map inorder_ptr cs" ks i "inorder_ptr r" x]
    by (simp add: inorder_rep [OF n'(2)] map_ins_at)
  moreover have "virtual_size n' = Suc (length ks)" using node_rep_vs [OF n'(2)] i by simp
  ultimately show ?thesis using n'(1) by blast
qed

lemma node_split_at:
  assumes n: "node_at t h n ks cs" and full: "length ks = 2 * t - 1" and i: "i \<le> length ks"
    and r: "ptr_ok t h r" and mem: "0 < mem" and t: "2 \<le> t"
  shows "\<exists>left right m. node_split mem n x i r = Inr (left, right, m, mem - 1) \<and>
    wf_node t h left \<and> virtual_size left = t \<and> wf_node t h right \<and> virtual_size right = t - 1 \<and>
    inorder left @ m # inorder right =
      woven_left i (map inorder_ptr cs) ks @ inorder_ptr (cs ! i) @
      x # inorder_ptr r @ woven_right i (map inorder_ptr cs) ks"
proof -
  have nr: "node_rep t n ks cs" using n by (simp add: node_at_def)
  note lc = node_rep_length [OF nr]
  define ks' cs' where "ks' = ins_at i x ks" and "cs' = ins_at (Suc i) r cs"
  have l: "length ks' = 2 * t" "length cs' = Suc (2 * t)"
    using full i lc t by (simp_all add: ks'_def cs'_def)
  have ok: "\<forall>c \<in> set cs'. ptr_ok t h c" using n r by (auto simp: node_at_def cs'_def set_ins_at)
  have i': "i \<le> 2 * t - 1" using i full by simp
  obtain left right where s: "node_split mem n x i r = Inr (left, right, ks' ! t, mem - 1)"
      "node_rep t left (take t ks') (take (Suc t) cs')"
      "node_rep t right (drop (Suc t) ks') (drop (Suc t) cs')"
    using node_split_rep [OF nr full i' mem, of x r] by (auto simp: ks'_def cs'_def)
  have "node_at t h left (take t ks') (take (Suc t) cs')"
      "node_at t h right (drop (Suc t) ks') (drop (Suc t) cs')"
    using s(2,3) ok by (auto simp: node_at_def dest: in_set_takeD in_set_dropD)
  then have w: "wf_node t h left" "wf_node t h right" by (auto intro: wf_nodeI)
  have v: "virtual_size left = t" "virtual_size right = t - 1"
    using node_rep_vs [OF s(2)] node_rep_vs [OF s(3)] l by simp_all
  have "inorder left @ ks' ! t # inorder right = weave (map inorder_ptr cs') ks'"
    using weave_split [of "map inorder_ptr cs'" ks' t] l t
    by (simp add: inorder_rep [OF s(2)] inorder_rep [OF s(3)] take_map drop_map)
  also have "\<dots> = woven_left i (map inorder_ptr cs) ks @ inorder_ptr (cs ! i) @
      x # inorder_ptr r @ woven_right i (map inorder_ptr cs) ks"
    using lc i weave_ins_at [of "map inorder_ptr cs" ks i "inorder_ptr r" x]
    by (simp add: ks'_def cs'_def map_ins_at)
  finally show ?thesis using s(1) w v by blast
qed

lemma replicate_2t:
  assumes "2 \<le> t"
  shows "replicate (2 * t - 1) x = x # replicate (2 * t - 2) x"
    "replicate (2 * t) y = y # y # replicate (2 * t - 2) y"
  using assms by (cases t; simp; fail)+

lemma make_root_at:
  assumes "wf_node t h left" "wf_node t h right" "t - 1 \<le> virtual_size left" "t - 1 \<le> virtual_size right"
    and "0 < mem" "2 \<le> t"
  shows "\<exists>root. make_root t mem left x right = (Inr (), Some root, mem - 1) \<and> wf_node t (Suc h) root \<and>
    virtual_size root = 1 \<and> inorder root = inorder left @ x # inorder right"
proof -
  let ?root = "Node (map Live [x] @ replicate (2 * t - 2) Raw)
    ([Some left, Some right] @ replicate (2 * t - 2) None) 1"
  note u = replicate_2t [OF assms(6)]
  have "make_root t mem left x right = (Inr (), Some ?root, mem - 1)"
    using assms(5) unfolding make_root_def create_node_def u by (simp add: construct_def arr_set_def)
  moreover have r: "node_rep t ?root [x] [Some left, Some right]"
    using assms(6) by (intro node_repI) auto
  moreover have "wf_node t (Suc h) ?root"
    unfolding wf_node_Suc using r assms(1-4)
    by (intro exI [of _ "[x]"] exI [of _ "[Some left, Some right]"]) (auto simp: wf_child_def)
  ultimately show ?thesis using inorder_rep [OF r] by simp
qed

lemma set_subtree_focus:
  assumes c: "ctx_ok t h ((ptr, i) # path)" and l: "wf_node t h l" "t - 1 \<le> virtual_size l"
  shows "\<exists>p p' ks cs. ptr = Some p \<and> set_subtree p (sub_index i) (Some l) = Some p' \<and>
    at_focus t (Suc h) path p' \<and> node_at t (Suc h) p' ks (cs[sub_index i := Some l]) \<and>
    sub_index i \<le> length ks \<and> length cs = Suc (length ks) \<and> pairs p = ks \<and> children p = cs"
proof -
  from c obtain p where p: "ptr = Some p" "sub_index i \<le> virtual_size p" "wf_node t (Suc h) p"
      "1 \<le> virtual_size p" "path \<noteq> [] \<longrightarrow> t - 1 \<le> virtual_size p" "ctx_ok t (Suc h) path"
    by auto
  obtain ks cs where n: "node_at t (Suc h) p ks cs" "node_rep t p ks cs" "virtual_size p = length ks"
      "length cs = Suc (length ks)" "pairs p = ks" "children p = cs"
    using p(3) by (rule wf_node_SucE)
  have j: "sub_index i \<le> length ks" using p n by simp
  obtain sb where sb: "arr_set (subtrees p) (sub_index i) (Some l) = Some sb"
      "node_at t (Suc h) (Node (keys_and_values p) sb (virtual_size p)) ks (cs[sub_index i := Some l])"
    using update_child [OF n(1) j l] by blast
  let ?p' = "Node (keys_and_values p) sb (virtual_size p)"
  have "at_focus t (Suc h) path ?p'"
    using p wf_nodeI [OF sb(2)] by (simp add: at_focus_def)
  moreover have "set_subtree p (sub_index i) (Some l) = Some ?p'"
    using sb(1) by (simp add: set_subtree_def)
  ultimately show ?thesis using p(1) sb(2) n j by blast
qed

lemma insert_climb_correct:
  assumes "at_focus t h path node" "node_at t h node ks cs" "i \<le> length ks" "ptr_ok t h r"
    and "length path + 2 \<le> mem" "2 \<le> t"
  shows "\<exists>root mem' h'. insert_climb t mem path node x i r = (Inr (), Some root, mem') \<and>
    wf_node t h' root \<and> 1 \<le> virtual_size root \<and>
    inorder root = ctx_left path @ woven_left i (map inorder_ptr cs) ks @ inorder_ptr (cs ! i) @
      x # inorder_ptr r @ woven_right i (map inorder_ptr cs) ks @ ctx_right path"
  using assms
proof (induction path arbitrary: h node ks cs i r x mem)
  case Nil
  note n = Nil.prems(2)
  note vs = node_rep_vs [OF node_at_rep [OF n]]
  show ?case
  proof (cases "length ks < 2 * t - 1")
    case True
    then show ?thesis
      using node_insert_at [OF n True Nil.prems(3,4), of x]
      by (subst insert_climb.simps) (auto simp: vs get_max_keys_count_def commit_def)
  next
    case False
    then have full: "length ks = 2 * t - 1" using n by (auto simp: node_at_def node_rep_def)
    have mem: "0 < mem" "0 < mem - 1" using Nil.prems(5) by simp_all
    obtain left right m where s: "node_split mem node x i r = Inr (left, right, m, mem - 1)"
        "wf_node t h left" "virtual_size left = t" "wf_node t h right" "virtual_size right = t - 1"
        "inorder left @ m # inorder right = woven_left i (map inorder_ptr cs) ks @ inorder_ptr (cs ! i) @
          x # inorder_ptr r @ woven_right i (map inorder_ptr cs) ks"
      using node_split_at [OF n full Nil.prems(3,4) mem(1) Nil.prems(6)] by blast
    obtain root where root: "make_root t (mem - 1) left m right = (Inr (), Some root, mem - 1 - 1)"
        "wf_node t (Suc h) root" "virtual_size root = 1" "inorder root = inorder left @ m # inorder right"
      using make_root_at [OF s(2,4) _ _ mem(2) Nil.prems(6), of m] s(3,5) by fastforce
    show ?thesis
      using root s False by (subst insert_climb.simps) (auto simp: vs get_max_keys_count_def)
  qed
next
  case (Cons e path)
  obtain ptr j where e: "e = (ptr, j)" by fastforce
  note n = Cons.prems(2)
  note vs = node_rep_vs [OF node_at_rep [OF n]]
  have ctx: "ctx_ok t h ((ptr, j) # path)" using Cons.prems(1) by (simp add: at_focus_def e)
  show ?case
  proof (cases "length ks < 2 * t - 1")
    case True
    obtain n' where n': "node_insert node x i r = Some n'" "wf_node t h n'"
        "virtual_size n' = Suc (length ks)"
        "inorder n' = woven_left i (map inorder_ptr cs) ks @ inorder_ptr (cs ! i) @
          x # inorder_ptr r @ woven_right i (map inorder_ptr cs) ks"
      using node_insert_at [OF n True Cons.prems(3,4)] by blast
    have "t - 1 \<le> virtual_size n'" using Cons.prems(1) vs n'(3) by (simp add: at_focus_def)
    with plug_correct [OF ctx n'(2)] obtain root where
        "plug (Some n') ((ptr, j) # path) = Some (Some root)"
        "wf_node t (h + length ((ptr, j) # path)) root"
        "inorder root = zip_content ((ptr, j) # path) n'" "1 \<le> virtual_size root"
      by blast
    then show ?thesis
      using n' True
      by (subst insert_climb.simps)
        (auto simp: vs get_max_keys_count_def commit_def zip_content_def e)
  next
    case False
    then have full: "length ks = 2 * t - 1" using n by (auto simp: node_at_def node_rep_def)
    have mem: "0 < mem" using Cons.prems(5) by simp
    obtain left right m where s: "node_split mem node x i r = Inr (left, right, m, mem - 1)"
        "wf_node t h left" "virtual_size left = t" "wf_node t h right" "virtual_size right = t - 1"
        "inorder left @ m # inorder right = woven_left i (map inorder_ptr cs) ks @ inorder_ptr (cs ! i) @
          x # inorder_ptr r @ woven_right i (map inorder_ptr cs) ks"
      using node_split_at [OF n full Cons.prems(3,4) mem Cons.prems(6)] by blast
    obtain p p' pks pcs where p: "ptr = Some p" "set_subtree p (sub_index j) (Some left) = Some p'"
        "at_focus t (Suc h) path p'" "node_at t (Suc h) p' pks (pcs[sub_index j := Some left])"
        "sub_index j \<le> length pks" "length pcs = Suc (length pks)" "pairs p = pks" "children p = pcs"
      using set_subtree_focus [OF ctx s(2)] s(3) by auto
    have r: "ptr_ok t (Suc h) (Some right)" using s(4,5) by (simp add: wf_child_def)
    have mem': "length path + 2 \<le> mem - 1" using Cons.prems(5) by simp
    obtain root mem' h' where c: "insert_climb t (mem - 1) path p' m (sub_index j) (Some right) = (Inr (), Some root, mem')"
        "wf_node t h' root" "1 \<le> virtual_size root"
        "inorder root = ctx_left path @ woven_left (sub_index j) (map inorder_ptr (pcs[sub_index j := Some left])) pks @
          inorder_ptr (pcs[sub_index j := Some left] ! sub_index j) @ m # inorder_ptr (Some right) @
          woven_right (sub_index j) (map inorder_ptr (pcs[sub_index j := Some left])) pks @ ctx_right path"
      using Cons.IH [OF p(3,4,5) r mem' Cons.prems(6), of m] by blast
    have len: "sub_index j < length pcs" using p(5,6) by simp
    have "inorder root = ctx_left (e # path) @ (inorder left @ m # inorder right) @ ctx_right (e # path)"
      unfolding c(4) using len
      by (simp add: e p(1,7,8) map_update woven_left_update woven_right_update)
    then have "inorder root = ctx_left (e # path) @ woven_left i (map inorder_ptr cs) ks @ inorder_ptr (cs ! i) @
        x # inorder_ptr r @ woven_right i (map inorder_ptr cs) ks @ ctx_right (e # path)"
      unfolding s(6) by simp
    moreover have "insert_climb t mem (e # path) node x i r = (Inr (), Some root, mem')"
      using s(1) p(1,2) c(1) False by (subst insert_climb.simps) (simp add: vs get_max_keys_count_def e)
    ultimately show ?thesis using c(2,3) by blast
  qed
qed

section \<open>The place of a key in the entries\<close>

text \<open>The sorted list after an assignment of \<open>v\<close> to \<open>key\<close>.\<close>

definition upd_entries :: "'k::linorder \<Rightarrow> 'v \<Rightarrow> ('k \<times> 'v) list \<Rightarrow> ('k \<times> 'v) list" where
  "upd_entries key v xs = filter (\<lambda>p. fst p < key) xs @ (key, v) # filter (\<lambda>p. key < fst p) xs"

lemma upd_entries_split:
  assumes "\<forall>p \<in> set A. fst p < key" "\<forall>p \<in> set B. key < fst p" "\<forall>p \<in> set M. fst p = key"
  shows "upd_entries key v (A @ M @ B) = A @ (key, v) # B"
proof -
  have "filter (\<lambda>p. fst p < key) (A @ M @ B) = A" "filter (\<lambda>p. key < fst p) (A @ M @ B) = B"
    using assms by (auto simp: filter_id_conv filter_empty_conv dest: less_asym)
  then show ?thesis by (simp add: upd_entries_def)
qed

lemma sorted_upd_entries: "sorted_keys xs \<Longrightarrow> sorted_keys (upd_entries key v xs)"
  by (auto simp: upd_entries_def sorted_wrt_append sorted_wrt_map sorted_wrt_filter intro: less_trans)

lemma map_of_upd_entries: "map_of (upd_entries key v xs) = (map_of xs)(key \<mapsto> v)"
proof
  have A: "map_of (filter (\<lambda>p. fst p < key) xs) k = (if k < key then map_of xs k else None)" for k
    by (induction xs) auto
  have B: "map_of (filter (\<lambda>p. key < fst p) xs) k = (if key < k then map_of xs k else None)" for k
    by (induction xs) auto
  show "map_of (upd_entries key v xs) k = ((map_of xs)(key \<mapsto> v)) k" for k
    by (auto simp: upd_entries_def map_add_def A B split: option.splits)
qed

text \<open>The key at the end of a search: absent, and then the search ended in a leaf, or found.\<close>

lemma key_at_absent:
  assumes k: "key_at key t 0 path n" and n: "node_at t 0 n ks cs" and nf: "search_result ks key < 0"
  shows "zip_content path n = (ctx_left path @ woven_left (key_rank ks key) (map inorder_ptr cs) ks) @
      (woven_right (key_rank ks key) (map inorder_ptr cs) ks @ ctx_right path)"
    and "\<forall>p \<in> set (ctx_left path @ woven_left (key_rank ks key) (map inorder_ptr cs) ks). fst p < key"
    and "\<forall>p \<in> set (woven_right (key_rank ks key) (map inorder_ptr cs) ks @ ctx_right path). key < fst p"
proof -
  let ?j = "key_rank ks key" and ?cs = "map inorder_ptr cs"
  have r: "node_rep t n ks cs" using n by (simp add: node_at_def)
  have l: "length ?cs = Suc (length ks)" using node_rep_length [OF r] by simp
  have c: "cs ! ?j = None" using node_at_ptr [OF n key_rank_le] by simp
  have io: "inorder n = woven_left ?j ?cs ks @ woven_right ?j ?cs ks"
    using inorder_at [OF r key_rank_le, of key] c by simp
  then show z: "zip_content path n = (ctx_left path @ woven_left ?j ?cs ks) @ (woven_right ?j ?cs ks @ ctx_right path)"
    by (simp add: zip_content_def)
  have s: "sorted_keys (woven_left ?j ?cs ks)" "sorted_keys (woven_right ?j ?cs ks)"
    using k by (simp_all add: key_at_def z sorted_wrt_append)
  show "\<forall>p \<in> set (ctx_left path @ woven_left ?j ?cs ks). fst p < key"
    using k woven_left_below [OF s(1) l key_rank_le key_rank_less] by (auto simp: key_at_def)
  show "\<forall>p \<in> set (woven_right ?j ?cs ks @ ctx_right path). key < fst p"
    using k woven_right_above [OF s(2) l key_rank_le search_result_not_found(2) [OF nf]]
    by (auto simp: key_at_def)
qed

definition before_key :: "'k::linorder \<Rightarrow> ('k, 'v) path \<Rightarrow> ('k \<times> 'v) list \<Rightarrow> ('k, 'v) common_node option list \<Rightarrow> ('k \<times> 'v) list" where
  "before_key key path ks cs =
     ctx_left path @ woven_left (key_rank ks key) (map inorder_ptr cs) ks @ inorder_ptr (cs ! key_rank ks key)"

definition after_key :: "'k::linorder \<Rightarrow> ('k, 'v) path \<Rightarrow> ('k \<times> 'v) list \<Rightarrow> ('k, 'v) common_node option list \<Rightarrow> ('k \<times> 'v) list" where
  "after_key key path ks cs =
     inorder_ptr (cs ! Suc (key_rank ks key)) @
     woven_right (Suc (key_rank ks key)) (map inorder_ptr cs) ks @ ctx_right path"

lemma key_at_present:
  assumes k: "key_at key t h path n" and n: "node_at t h n ks cs" and f: "0 \<le> search_result ks key"
  shows "zip_content path n = before_key key path ks cs @ ks ! key_rank ks key # after_key key path ks cs"
    and "\<forall>p \<in> set (before_key key path ks cs). fst p < key"
    and "\<forall>p \<in> set (after_key key path ks cs). key < fst p"
    and "key_rank ks key < length ks" "fst (ks ! key_rank ks key) = key"
proof -
  let ?j = "key_rank ks key" and ?cs = "map inorder_ptr cs"
  have r: "node_rep t n ks cs" using n by (simp add: node_at_def)
  have l: "length ?cs = Suc (length ks)" using node_rep_length [OF r] by simp
  show j: "?j < length ks" and kj: "fst (ks ! ?j) = key"
    using search_result_found [OF f] by simp_all
  have "inorder n = woven_left ?j ?cs ks @ inorder_ptr (cs ! ?j) @ ks ! ?j # inorder_ptr (cs ! Suc ?j) @
      woven_right (Suc ?j) ?cs ks"
    using inorder_at [OF r, of ?j] j woven_right_Suc [OF l j] l by simp
  then show z: "zip_content path n = before_key key path ks cs @ ks ! ?j # after_key key path ks cs"
    by (simp add: zip_content_def before_key_def after_key_def)
  have "sorted_keys (zip_content path n)" using k by (simp add: key_at_def)
  then show "\<forall>p \<in> set (before_key key path ks cs). fst p < key" "\<forall>p \<in> set (after_key key path ks cs). key < fst p"
    using kj by (auto simp: z sorted_wrt_append)
qed

lemma key_at_member:
  assumes k: "key_at key t h path n" and n: "node_at t h n ks cs" and h: "search_result ks key < 0 \<Longrightarrow> h = 0"
  shows "key \<in> fst ` set (zip_content path n) \<longleftrightarrow> 0 \<le> search_result ks key"
proof (cases "0 \<le> search_result ks key")
  case True
  have "ks ! key_rank ks key \<in> set (zip_content path n)"
    by (simp add: key_at_present(1) [OF k n True])
  then show ?thesis using True key_at_present(5) [OF k n True] by force
next
  case False
  then have nf: "search_result ks key < 0" by simp
  then have "h = 0" by (rule h)
  then have "\<forall>p \<in> set (zip_content path n). fst p \<noteq> key"
    using key_at_absent [of key t path n ks cs] k n nf by (auto simp: less_le)
  then show ?thesis using False by auto
qed

definition bt_has_room :: "('k, 'v) b_tree \<Rightarrow> bool" where
  "bt_has_room tr = (case bt_root tr of None \<Rightarrow> True | Some n \<Rightarrow> room_node (bt_t tr) (node_height n) n)"

definition bt_levels :: "('k, 'v) b_tree \<Rightarrow> nat" where
  "bt_levels tr = (case bt_root tr of None \<Rightarrow> 0 | Some n \<Rightarrow> Suc (node_height n))"

context key_order
begin

lemma find_path_tree:
  assumes "tree_ok t (Some n)" "2 \<le> t"
  shows "\<exists>m h path ks cs. find_path cmp (Some n) key = Some ((Some m, search_result ks key) # path) \<and>
    search_end key t (node_height n) [] n h path m ks cs"
proof -
  obtain h where n: "wf_node t h n" "1 \<le> virtual_size n" "sorted_keys (inorder n)"
    using assms(1) by (rule tree_ok_SomeE)
  then have "key_at key t h [] n" by (rule key_at_root)
  moreover have "node_height n = h" using n(1) by (rule wf_node_height)
  ultimately show ?thesis
    using find_path_from_correct [of key t h "[]" n] assms(2) by (simp add: find_path_def)
qed

lemma find_path_treeE:
  assumes "tree_ok t (Some n)" "2 \<le> t"
  obtains m h path ks cs where
    "find_path cmp (Some n) key = Some ((Some m, search_result ks key) # path)"
    "node_at t h m ks cs" "key_at key t h path m" "zip_content path m = inorder n"
    "search_result ks key < 0 \<longrightarrow> h = 0" "h + length path = node_height n"
    "room_node t (node_height n) n \<longrightarrow> room_node t h m \<and> path_not_full t path"
  using find_path_tree [OF assms, of key] by (auto simp: search_end_def zip_content_def path_not_full_def)

text \<open>The four cases of \<open>insert_inner\<close>, and lookup.\<close>

lemma insert_inner_absent:
  assumes tr: "bt_ok tr" "bt_keys_comparer tr = cmp" and new: "key \<notin> fst ` set (bt_entries tr)"
    and mem: "bt_levels tr < bt_memory tr"
  shows "\<exists>tr'. insert_inner tr (key, v) False = (Inr (), tr') \<and> bt_ok tr' \<and>
    bt_t tr' = bt_t tr \<and> bt_keys_comparer tr' = cmp \<and>
    bt_entries tr' = upd_entries key v (bt_entries tr)"
proof (cases "bt_root tr")
  case None
  let ?t = "bt_t tr"
  let ?n = "Node (map Live [(key, v)] @ replicate (2 * ?t - 2) Raw) ([None, None] @ replicate (2 * ?t - 2) None) 1"
  have t: "2 \<le> ?t" using tr by (simp add: bt_ok_def)
  note u = replicate_2t [OF t]
  have mem: "bt_memory tr \<noteq> 0" using mem by simp
  have "insert_inner tr (key, v) False = (Inr (), tr\<lparr>bt_root := Some ?n, bt_memory := bt_memory tr - 1\<rparr>)"
    unfolding insert_inner_def create_node_def u find_path_def tr(2) None using mem
    by (simp add: construct_def)
  moreover have r: "node_rep ?t ?n [(key, v)] [None, None]"
    using t by (intro node_repI) auto
  moreover have "node_at ?t 0 ?n [(key, v)] [None, None]" using r by (simp add: node_at_def)
  then have "tree_ok ?t (Some ?n)"
    by (intro tree_okI wf_nodeI) (auto simp: inorder_rep [OF r])
  ultimately show ?thesis
    using t None tr(2) by (simp add: bt_ok_def bt_entries_def upd_entries_def inorder_rep [OF r])
next
  case (Some n)
  let ?t = "bt_t tr"
  have t: "2 \<le> ?t" and ok: "tree_ok ?t (Some n)" using tr Some by (simp_all add: bt_ok_def)
  obtain m h path ks cs where fp: "find_path cmp (Some n) key = Some ((Some m, search_result ks key) # path)"
      and m: "node_at ?t h m ks cs" "key_at key ?t h path m" "zip_content path m = inorder n"
      and hh: "search_result ks key < 0 \<longrightarrow> h = 0" and len: "h + length path = node_height n"
    using ok t by (rule find_path_treeE [where key = key])
  note h = hh [rule_format]
  have nf: "search_result ks key < 0"
    using new key_at_member [OF m(2,1) h] Some m(3) by (auto simp: bt_entries_def)
  then have h0: "h = 0" by (rule h)
  note m0 = m(1,2) [unfolded h0]
  have foc: "at_focus ?t 0 path m" using m0 by (simp add: key_at_def)
  have mem': "length path + 2 \<le> bt_memory tr" using mem len h0 Some by (simp add: bt_levels_def)
  have none: "ptr_ok ?t 0 None" by simp
  have c: "cs ! key_rank ks key = None" using node_at_ptr [OF m0(1) key_rank_le] by simp
  obtain root mem' h' where r: "insert_climb ?t (bt_memory tr) path m (key, v) (key_rank ks key) None
        = (Inr (), Some root, mem')" "wf_node ?t h' root" "1 \<le> virtual_size root"
      "inorder root = ctx_left path @ woven_left (key_rank ks key) (map inorder_ptr cs) ks @
        inorder_ptr (cs ! key_rank ks key) @ (key, v) # inorder_ptr None @
        woven_right (key_rank ks key) (map inorder_ptr cs) ks @ ctx_right path"
    using insert_climb_correct [OF foc m0(1) key_rank_le none mem' t, of "(key, v)"] by blast
  have io: "inorder root = upd_entries key v (inorder n)"
    using r(4) upd_entries_split [OF key_at_absent(2,3) [OF m0(2,1) nf], of "[]" v]
    by (simp add: key_at_absent(1) [OF m0(2,1) nf] m(3) [symmetric] c)
  have so: "sorted_keys (inorder n)" using ok by (auto elim: tree_ok_SomeE)
  have "insert_inner tr (key, v) False = (Inr (), tr\<lparr>bt_root := Some root, bt_memory := mem'\<rparr>)"
    using fp nf r(1) by (simp add: insert_inner_def tr(2) Some search_result_not_found with_root_def)
  moreover have "tree_ok ?t (Some root)"
    using r(2,3) so by (intro tree_okI) (simp_all add: io sorted_upd_entries)
  ultimately show ?thesis
    using t Some tr(2) io by (simp add: bt_ok_def bt_entries_def)
qed

lemma find_path_None [simp]: "find_path cmp None key = Some [(None, -1)]"
  by (simp add: find_path_def)

lemma find_tree:
  assumes tr: "bt_ok tr" "bt_keys_comparer tr = cmp"
  shows "\<exists>ptr i path. find_path cmp (bt_root tr) key = Some ((ptr, i) # path) \<and>
    (0 \<le> i \<longleftrightarrow> key \<in> fst ` set (bt_entries tr)) \<and>
    (0 \<le> i \<longrightarrow> (\<exists>n m h ks cs. bt_root tr = Some n \<and> ptr = Some m \<and> i = search_result ks key \<and>
       node_at (bt_t tr) h m ks cs \<and> key_at key (bt_t tr) h path m \<and> zip_content path m = bt_entries tr \<and>
       (bt_has_room tr \<longrightarrow> room_node (bt_t tr) h m \<and> path_not_full (bt_t tr) path)))"
proof (cases "bt_root tr")
  case None
  then show ?thesis by (simp add: bt_entries_def)
next
  case (Some n)
  have t: "2 \<le> bt_t tr" and ok: "tree_ok (bt_t tr) (Some n)" using tr Some by (simp_all add: bt_ok_def)
  obtain m h path ks cs where fp: "find_path cmp (Some n) key = Some ((Some m, search_result ks key) # path)"
      and m: "node_at (bt_t tr) h m ks cs" "key_at key (bt_t tr) h path m" "zip_content path m = inorder n"
      and hh: "search_result ks key < 0 \<longrightarrow> h = 0"
      and room: "room_node (bt_t tr) (node_height n) n \<longrightarrow> room_node (bt_t tr) h m \<and> path_not_full (bt_t tr) path"
    using ok t by (rule find_path_treeE [where key = key]) blast
  note h = hh [rule_format]
  from fp m room show ?thesis
    using key_at_member [OF m(2,1) h] Some room by (auto simp: bt_entries_def bt_has_room_def)
qed

lemma insert_inner_existing:
  assumes "bt_ok tr" "bt_keys_comparer tr = cmp" "key \<in> fst ` set (bt_entries tr)"
  shows "insert_inner tr (key, v) False = (Inl (Insertion_of_existent_key key), tr)"
  using find_tree [OF assms(1,2), of key] assms(2,3) by (auto simp: insert_inner_def)

lemma insert_inner_update_missing:
  assumes "bt_ok tr" "bt_keys_comparer tr = cmp" "key \<notin> fst ` set (bt_entries tr)"
  shows "insert_inner tr (key, v) True = (Inl (Updating_of_nonexistent_key key), tr)"
  using find_tree [OF assms(1,2), of key] assms(2,3) by (auto simp: insert_inner_def not_le)

end

lemma replace_pair:
  assumes k: "key_at key t h path n" and n: "node_at t h n ks cs" and f: "0 \<le> search_result ks key"
    and v: "fst p = key"
  shows "\<exists>kv root. arr_set (keys_and_values n) (nat (search_result ks key)) (Live p) = Some kv \<and>
    plug (Some (Node kv (subtrees n) (virtual_size n))) path = Some (Some root) \<and>
    tree_ok t (Some root) \<and> inorder root = upd_entries key (snd p) (zip_content path n)"
proof -
  let ?j = "key_rank ks key" and ?cs = "map inorder_ptr cs"
  have r: "node_rep t n ks cs" and c: "\<forall>c \<in> set cs. ptr_ok t h c" using n by (simp_all add: node_at_def)
  note kp = key_at_present [OF k n f]
  have sj: "nat (search_result ks key) = ?j" using f by (rule search_result_found)
  from r obtain kr sr where P: "n = Node (map Live ks @ kr) (cs @ sr) (length ks)"
    and l: "length cs = Suc (length ks)" "length ks + length kr = 2 * t - 1"
      "length cs + length sr = 2 * t" "1 \<le> t"
    by (rule node_repE)
  let ?n = "Node (map Live (ks[?j := p]) @ kr) (cs @ sr) (length (ks[?j := p]))"
  have r': "node_rep t ?n (ks[?j := p]) cs" using l by (intro node_repI) auto
  have w: "wf_node t h ?n" using r' c by (intro wf_nodeI) (auto simp: node_at_def)
  have foc: "at_focus t h path n" using k by (simp add: key_at_def)
  have a: "arr_set (keys_and_values n) ?j (Live p) = Some (map Live (ks[?j := p]) @ kr)"
    using kp(4) by (simp add: P list_update_append map_update)
  have fill: "path \<noteq> [] \<Longrightarrow> t - 1 \<le> virtual_size ?n" "1 \<le> virtual_size ?n"
    using foc by (simp_all add: at_focus_def P)
  obtain root where root: "plug (Some ?n) path = Some (Some root)" "wf_node t (h + length path) root"
      "inorder root = zip_content path ?n" "1 \<le> virtual_size root"
    using plug_correct [of t h path ?n] foc w fill by (auto simp: at_focus_def)
  have wr: "woven_left ?j ?cs (ks[?j := p]) = woven_left ?j ?cs ks"
      "woven_right (Suc ?j) ?cs (ks[?j := p]) = woven_right (Suc ?j) ?cs ks"
    by (simp_all add: woven_left_def woven_right_def)
  have l': "length ?cs = Suc (length (ks[?j := p]))" "?j < length (ks[?j := p])" using l kp(4) by simp_all
  have "inorder ?n = woven_left ?j ?cs ks @ inorder_ptr (cs ! ?j) @ p # inorder_ptr (cs ! Suc ?j) @
      woven_right (Suc ?j) ?cs ks"
    using inorder_at [OF r', of ?j] kp(4) woven_right_Suc [OF l'] l by (simp add: wr)
  then have io: "inorder root = before_key key path ks cs @ p # after_key key path ks cs"
    by (simp add: root(3) zip_content_def before_key_def after_key_def)
  have "p = (key, snd p)" using v by (cases p) simp
  then have "inorder root = upd_entries key (snd p) (zip_content path n)"
    using upd_entries_split [OF kp(2,3), of "[ks ! ?j]" "snd p"] kp(5) by (simp add: io kp(1))
  moreover have "sorted_keys (upd_entries key (snd p) (zip_content path n))"
    using k by (simp add: key_at_def sorted_upd_entries)
  ultimately show ?thesis
    using a root(1,2,4) by (auto simp: P sj intro!: tree_okI)
qed

lemma slot_read_found:
  assumes k: "key_at key t h path n" and n: "node_at t h n ks cs" and f: "0 \<le> search_result ks key"
  shows "slot_read (keys_and_values n) (nat (search_result ks key)) = Some (key, the (map_of (zip_content path n) key))"
    "map_of (zip_content path n) key \<noteq> None"
proof -
  note kp = key_at_present [OF k n f]
  let ?x = "ks ! key_rank ks key"
  have "map_of (before_key key path ks cs) key = None"
    using kp(2) by (auto simp: map_of_eq_None_iff)
  then have m: "map_of (zip_content path n) key = Some (snd ?x)"
    using kp(5) by (simp add: kp(1) map_add_def)
  then show "map_of (zip_content path n) key \<noteq> None" by simp
  have "?x = (key, snd ?x)" using kp(5) by (cases ?x) simp
  then show "slot_read (keys_and_values n) (nat (search_result ks key)) =
      Some (key, the (map_of (zip_content path n) key))"
    using node_rep_slot_read [OF node_at_rep [OF n] kp(4)] m search_result_found(3) [OF f] by simp
qed

context key_order
begin

lemma insert_inner_update:
  assumes tr: "bt_ok tr" "bt_keys_comparer tr = cmp" and ex: "key \<in> fst ` set (bt_entries tr)"
  shows "\<exists>tr'. insert_inner tr (key, v) True = (Inr (), tr') \<and> bt_ok tr' \<and>
    bt_t tr' = bt_t tr \<and> bt_keys_comparer tr' = cmp \<and> bt_memory tr' = bt_memory tr \<and>
    bt_entries tr' = upd_entries key v (bt_entries tr)"
proof -
  obtain n m h ks cs path where f: "find_path cmp (bt_root tr) key = Some ((Some m, search_result ks key) # path)"
      "0 \<le> search_result ks key" "node_at (bt_t tr) h m ks cs" "key_at key (bt_t tr) h path m"
      "zip_content path m = bt_entries tr"
    using find_tree [OF tr, of key] ex by auto
  obtain kv root where "arr_set (keys_and_values m) (nat (search_result ks key)) (Live (key, v)) = Some kv"
      "plug (Some (Node kv (subtrees m) (virtual_size m))) path = Some (Some root)"
      "tree_ok (bt_t tr) (Some root)" "inorder root = upd_entries key v (bt_entries tr)"
    using replace_pair [OF f(4,3,2), of "(key, v)"] f(5) by auto
  then show ?thesis
    using f(1,2) tr by (simp add: insert_inner_def bt_ok_def bt_entries_def)
qed

lemma bt_obtain_correct:
  assumes tr: "bt_ok tr" "bt_keys_comparer tr = cmp"
  shows "bt_obtain tr key = (case map_of (bt_entries tr) key of
      None \<Rightarrow> Inl (Obtaining_of_nonexistent_key key) | Some v \<Rightarrow> Inr v)"
proof (cases "key \<in> fst ` set (bt_entries tr)")
  case True
  then obtain m h ks cs path where f: "find_path cmp (bt_root tr) key = Some ((Some m, search_result ks key) # path)"
      "0 \<le> search_result ks key" "node_at (bt_t tr) h m ks cs" "key_at key (bt_t tr) h path m"
      "zip_content path m = bt_entries tr"
    using find_tree [OF tr, of key] by auto
  then show ?thesis
    using slot_read_found [OF f(4,3,2)] by (auto simp: bt_obtain_def tr(2))
next
  case False
  then have "map_of (bt_entries tr) key = None" by (simp add: map_of_eq_None_iff)
  then show ?thesis using find_tree [OF tr, of key] False by (auto simp: bt_obtain_def tr(2) not_le)
qed

lemma bt_obtain_modify_correct:
  assumes tr: "bt_ok tr" "bt_keys_comparer tr = cmp" and v: "map_of (bt_entries tr) key = Some v"
  shows "\<exists>tr'. bt_obtain_modify tr key f = Inr tr' \<and> bt_ok tr' \<and> bt_t tr' = bt_t tr \<and>
    bt_keys_comparer tr' = cmp \<and> bt_memory tr' = bt_memory tr \<and>
    bt_entries tr' = upd_entries key (f v) (bt_entries tr)"
proof -
  have "key \<in> fst ` set (bt_entries tr)" using v by (force dest: map_of_SomeD)
  then obtain m h ks cs path where g: "find_path cmp (bt_root tr) key = Some ((Some m, search_result ks key) # path)"
      "0 \<le> search_result ks key" "node_at (bt_t tr) h m ks cs" "key_at key (bt_t tr) h path m"
      "zip_content path m = bt_entries tr"
    using find_tree [OF tr, of key] by auto
  obtain kv root where "arr_set (keys_and_values m) (nat (search_result ks key)) (Live (key, f v)) = Some kv"
      "plug (Some (Node kv (subtrees m) (virtual_size m))) path = Some (Some root)"
      "tree_ok (bt_t tr) (Some root)" "inorder root = upd_entries key (f v) (bt_entries tr)"
    using replace_pair [OF g(4,3,2), of "(key, f v)"] g(5) by auto
  then show ?thesis
    using g(1,2) slot_read_found(1) [OF g(4,3,2)] v g(5) tr
    by (simp add: bt_obtain_modify_def bt_ok_def bt_entries_def)
qed

lemma bt_obtain_modify_missing:
  assumes "bt_ok tr" "bt_keys_comparer tr = cmp" "map_of (bt_entries tr) key = None"
  shows "bt_obtain_modify tr key f = Inl (Obtaining_of_nonexistent_key key)"
proof -
  have "key \<notin> fst ` set (bt_entries tr)" using assms(3) by (simp add: map_of_eq_None_iff)
  then show ?thesis
    using find_tree [OF assms(1,2), of key] assms(2) by (auto simp: bt_obtain_modify_def not_le)
qed

end

end
