(* ===== verification/Tree_Disposal.thy ===== *)
theory Tree_Disposal
  imports Tree_Insertion
begin

text \<open>
  Disposal in the B-tree: borrowing and merging keep the content of the parent, and the rebalancing
  climb keeps the invariant as long as no merge meets a full parent. When one does, the
  out-of-bounds accesses of \<open>node_merge\<close> are reached.
\<close>

section \<open>Taking a pair out of a leaf\<close>

lemma remove_from_leaf_rep:
  assumes n: "node_at t 0 n ks cs" and i: "i < length ks"
  shows "\<exists>n'. remove_from_leaf n i = Some (snd (ks ! i), n') \<and>
    node_at t 0 n' (without i ks) (without i cs)"
proof -
  have r: "node_rep t n ks cs" and c: "\<forall>c \<in> set cs. c = None" using n by (simp_all add: node_at_def)
  from r obtain kr sr where N: "n = Node (map Live ks @ kr) (cs @ sr) (length ks)"
    and l: "length cs = Suc (length ks)" "length ks + length kr = 2 * t - 1"
      "length cs + length sr = 2 * t" "1 \<le> t"
    by (rule node_repE)
  have cs: "cs = replicate (Suc (length ks)) None" using c l(1) by (intro replicate_eqI) auto
  obtain m where m: "length ks = Suc m" using i by (cases "length ks") auto
  have u: "[i + 1..<Suc m] = [Suc i..<Suc m]" by simp
  have "for_loop (\<lambda>i kv. arr_swap kv (i - Suc 0) i) [Suc i..<Suc m] (map Live ks @ kr)
      = for_loop (\<lambda>i kv. arr_swap kv i (i - Suc 0)) [Suc i..<Suc m] (map Live ks @ kr)"
    by (intro for_loop_cong refl arr_swap_commute)
  also have "\<dots> = Some (move_up i m (map Live ks @ kr))"
    using i m by (intro swap_up_loop_pred) auto
  also have "move_up i m (map Live ks @ kr) = map Live (without i ks) @ Live (ks ! i) # kr"
    using i m by (simp add: move_up_def without_def nth_append take_map drop_map min_def)
  finally have loop: "for_loop (\<lambda>i kv. arr_swap kv (i - Suc 0) i) [Suc i..<Suc m] (map Live ks @ kr)
      = Some (map Live (without i ks) @ Live (ks ! i) # kr)" .
  have d: "destruct (map Live (without i ks) @ Live (ks ! i) # kr) m = Some (map Live (without i ks) @ Raw # kr)"
    using i m by (simp add: destruct_def arr_set_at del: arr_set_in)
  let ?n = "Node (map Live (without i ks) @ Raw # kr) (cs @ sr) m"
  have "slot_read (keys_and_values n) i = Some (ks ! i)" using r i by (rule node_rep_slot_read)
  then have "remove_from_leaf n i = Some (snd (ks ! i), ?n)"
    using loop d m by (simp add: remove_from_leaf_def N u del: upt_Suc)
  moreover have "node_rep t ?n (without i ks) (without i cs)"
    using i l m cs by (intro node_repI [where srest = "None # sr"])
      (auto simp: without_def replicate_append_same simp flip: replicate_add replicate_Suc)
  then have "node_at t 0 ?n (without i ks) (without i cs)"
    using c by (auto simp: node_at_def without_def dest: in_set_takeD in_set_dropD)
  ultimately show ?thesis by blast
qed

section \<open>Borrowing\<close>

lemma get_subtree_rep: "node_rep t p ks cs \<Longrightarrow> j \<le> length ks \<Longrightarrow> get_subtree p j = cs ! j"
  by (simp add: get_subtree_def node_rep_sub)

lemma borrow_left_rep:
  assumes p: "node_rep t p ks cs" and j: "j < length ks"
    and b: "cs ! j = Some b" "node_rep t b bks bcs" "bks \<noteq> []"
    and x: "cs ! Suc j = Some x" "node_rep t x xks xcs" "length xks < 2 * t - 1"
  shows "\<exists>p' b' x'. borrow_left p (Suc j) = Some p' \<and>
    node_rep t p' (ks[j := last bks]) (cs[Suc j := Some x', j := Some b']) \<and>
    node_rep t x' (ks ! j # xks) (last bcs # xcs) \<and> node_rep t b' (butlast bks) (butlast bcs)"
proof -
  from p obtain kr sr where P: "p = Node (map Live ks @ kr) (cs @ sr) (length ks)"
    and lp: "length cs = Suc (length ks)" "length ks + length kr = 2 * t - 1"
      "length cs + length sr = 2 * t" "1 \<le> t"
    by (rule node_repE)
  from b(2) obtain bkr bsr where B: "b = Node (map Live bks @ bkr) (bcs @ bsr) (length bks)"
    and lb: "length bcs = Suc (length bks)" "length bks + length bkr = 2 * t - 1"
      "length bcs + length bsr = 2 * t"
    by (rule node_repE)
  from x(2) obtain xkr xsr where X: "x = Node (map Live xks @ xkr) (xcs @ xsr) (length xks)"
    and lx: "length xcs = Suc (length xks)" "length xks + length xkr = 2 * t - 1"
      "length xcs + length xsr = 2 * t"
    by (rule node_repE)
  obtain bk bl where bks: "bks = bk @ [bl]" using b(3) by (cases bks rule: rev_cases) auto
  obtain bc bd where bcs: "bcs = bc @ [bd]" "length bc = Suc (length bk)"
    using lb(1) bks by (cases bcs rule: rev_cases) auto
  obtain xc xd where xcs: "xcs = xc @ [xd]" "length xc = length xks"
    using lx(1) by (cases xcs rule: rev_cases) auto
  obtain x0 xkr' where xkr: "xkr = x0 # xkr'" using lx x(3) by (cases xkr) auto
  obtain s0 xsr' where xsr: "xsr = s0 # xsr'" using lx x(3) by (cases xsr) auto
  let ?f = "\<lambda>i ys. arr_swap ys i (i - Suc 0) :: ('a \<times> 'b) slot list option"
  let ?g = "\<lambda>i ys. arr_swap ys i (i - Suc 0) :: ('a, 'b) common_node option list option"
  let ?K = "map Live xks @ Live (ks ! j) # xkr'" and ?S = "xc @ bd # xd # xsr'"
  have f: "for_loop ?f (rev [Suc 0..<Suc (length xks)]) ?K = Some (Live (ks ! j) # map Live xks @ xkr')"
    using swap_down_loop [of 0 "length xks" ?K] move_down_append [of 0 "map Live xks" "Live (ks ! j)" xkr']
    by (simp add: ins_at_def)
  have g: "for_loop ?g (rev [Suc 0..<Suc (length xks)]) ?S = Some (bd # xc @ xd # xsr')"
    using swap_down_loop [of 0 "length xks" ?S] move_down_append [of 0 xc bd "xd # xsr'"] xcs(2)
    by (simp add: ins_at_def)
  let ?x = "Node (Live (ks ! j) # map Live xks @ xkr') (bd # xc @ xd # xsr') (Suc (length xks))"
  let ?b = "Node (map Live bk @ Raw # bkr) (bcs @ bsr) (length bk)"
  let ?p = "Node (map Live (ks[j := bl]) @ kr) (cs[Suc j := Some ?x, j := Some ?b] @ sr) (length ks)"
  have gs: "get_subtree p (Suc j) = Some x" "get_subtree p (Suc j - 1) = Some b"
    using get_subtree_rep [OF p] j b(1) x(1) by simp_all
  have "borrow_left p (Suc j) = Some ?p"
    unfolding borrow_left_def gs using j lp
    by (simp add: P B X bks bcs xcs xkr xsr Let_def arr_exchange_def nth_append list_update_append
        map_update construct_def destruct_def slot_move_def slot_read_def set_subtree_def
        for_loop_pair [OF f g] del: upt_Suc)
  moreover have "node_rep t ?p (ks[j := last bks]) (cs[Suc j := Some ?x, j := Some ?b])"
    using lp bks by (intro node_repI) auto
  moreover have "node_rep t ?x (ks ! j # xks) (last bcs # xcs)"
    using lx lp bcs xcs xkr xsr by (intro node_repI) auto
  moreover have "node_rep t ?b (butlast bks) (butlast bcs)"
    using lb lp bks bcs by (intro node_repI [where srest = "bd # bsr"]) auto
  ultimately show ?thesis by blast
qed

lemma shift_loop:
  assumes "m < length xs"
  shows "for_loop (\<lambda>i ys. do { c \<leftarrow> arr_get ys (Suc i); arr_set ys i c }) [0..<m] xs =
    Some (take m (tl xs) @ drop m xs)"
  using assms
proof (induction m)
  case (Suc m)
  then have l: "length (take m (tl xs)) = m" by simp
  have d: "drop m xs = xs ! m # xs ! Suc m # drop (Suc (Suc m)) xs"
    using Suc.prems by (simp add: Cons_nth_drop_Suc)
  have "take (Suc m) (tl xs) = take m (tl xs) @ [xs ! Suc m]"
    using Suc.prems by (simp add: take_Suc_conv_app_nth nth_tl)
  moreover have "arr_get (take m (tl xs) @ drop m xs) (Suc m) = Some (xs ! Suc m)"
    using Suc.prems l by (simp add: arr_get_def d nth_append)
  ultimately show ?case
    using Suc arr_set_at [OF l, of "xs ! m" "xs ! Suc m # drop (Suc (Suc m)) xs"]
    by (simp add: for_loop_append d del: arr_get_in arr_set_in)
      (simp add: Cons_nth_drop_Suc)
qed simp

lemma borrow_right_rep:
  assumes p: "node_rep t p ks cs" and j: "j < length ks"
    and x: "cs ! j = Some x" "node_rep t x xks xcs" "length xks < 2 * t - 1"
    and b: "cs ! Suc j = Some b" "node_rep t b bks bcs" "bks \<noteq> []"
  shows "\<exists>p' b' x'. borrow_right p j = Some p' \<and>
    node_rep t p' (ks[j := hd bks]) (cs[j := Some x', Suc j := Some b']) \<and>
    node_rep t x' (xks @ [ks ! j]) (xcs @ [hd bcs]) \<and> node_rep t b' (tl bks) (tl bcs)"
proof -
  from p obtain kr sr where P: "p = Node (map Live ks @ kr) (cs @ sr) (length ks)"
    and lp: "length cs = Suc (length ks)" "length ks + length kr = 2 * t - 1"
      "length cs + length sr = 2 * t" "1 \<le> t"
    by (rule node_repE)
  from b(2) obtain bkr bsr where B: "b = Node (map Live bks @ bkr) (bcs @ bsr) (length bks)"
    and lb: "length bcs = Suc (length bks)" "length bks + length bkr = 2 * t - 1"
      "length bcs + length bsr = 2 * t"
    by (rule node_repE)
  from x(2) obtain xkr xsr where X: "x = Node (map Live xks @ xkr) (xcs @ xsr) (length xks)"
    and lx: "length xcs = Suc (length xks)" "length xks + length xkr = 2 * t - 1"
      "length xcs + length xsr = 2 * t"
    by (rule node_repE)
  obtain bl bk where bks: "bks = bl # bk" using b(3) by (cases bks) auto
  obtain bd bc where bcs: "bcs = bd # bc" "length bc = Suc (length bk)"
    using lb(1) bks by (cases bcs) auto
  obtain x0 xkr' where xkr: "xkr = x0 # xkr'" using lx x(3) by (cases xkr) auto
  obtain s0 xsr' where xsr: "xsr = s0 # xsr'" using lx x(3) by (cases xsr) auto
  let ?f = "\<lambda>i ys. arr_swap ys i (Suc i) :: ('a \<times> 'b) slot list option"
  let ?g = "\<lambda>i ys. do { c \<leftarrow> arr_get ys (Suc i); arr_set ys i c } :: ('a, 'b) common_node option list option"
  let ?K = "Moved # map Live bk @ bkr" and ?S = "bd # bc @ bsr"
  have f: "for_loop ?f [0..<length bk] ?K = Some (map Live bk @ Moved # bkr)"
    using swap_up_loop [of 0 "length bk" ?K] by (simp add: move_up_def)
  have "drop (length bk) ?S = drop (length bk) (bd # bc) @ bsr"
    using drop_append [of "length bk" "bd # bc" bsr] bcs(2) by simp
  then have g: "for_loop ?g [0..<length bk] ?S = Some (take (length bk) bc @ drop (length bk) (bd # bc) @ bsr)"
    using shift_loop [of "length bk" ?S] bcs(2) by simp
  obtain bc' bz where bc: "bc = bc' @ [bz]" "length bc' = length bk"
    using bcs(2) by (cases bc rule: rev_cases) auto
  obtain by' where dr: "drop (length bk) (bd # bc) = [by', bz]"
    using bc(1) bc(2) [symmetric] by (cases bc' rule: rev_cases) auto
  have fg: "for_loop (\<lambda>i (kv, sb). do {
         kv' \<leftarrow> ?f i kv; c \<leftarrow> arr_get sb (Suc i); sb' \<leftarrow> arr_set sb i c; Some (kv', sb') })
       [0..<length bk] (?K, bd # bc' @ bz # bsr) =
      Some (map Live bk @ Moved # bkr, bc' @ by' # bz # bsr)"
    using for_loop_pair [OF f g] bc dr by simp
  let ?x = "Node (map Live (xks @ [ks ! j]) @ xkr') (xcs @ bd # xsr') (Suc (length xks))"
  let ?b = "Node (map Live bk @ Raw # bkr) (bc @ bz # bsr) (length bk)"
  let ?p = "Node (map Live (ks[j := bl]) @ kr) (cs[j := Some ?x, Suc j := Some ?b] @ sr) (length ks)"
  have gs: "get_subtree p (j + 1) = Some b" "get_subtree p j = Some x"
    using get_subtree_rep [OF p] j b(1) x(1) by simp_all
  have "borrow_right p j = Some ?p"
    unfolding borrow_right_def gs using j lp lx(1)
    by (simp add: P B X bks bcs(1) xkr xsr Let_def arr_exchange_def nth_append list_update_append
        map_update construct_def destruct_def slot_move_def slot_read_def set_subtree_def
        fg dr bc del: upt_Suc)
  moreover have "node_rep t ?p (ks[j := hd bks]) (cs[j := Some ?x, Suc j := Some ?b])"
    using lp bks by (intro node_repI) auto
  moreover have "node_rep t ?x (xks @ [ks ! j]) (xcs @ [hd bcs])"
    using lx lp bcs xkr xsr by (intro node_repI) auto
  moreover have "node_rep t ?b (tl bks) (tl bcs)"
    using lb lp bks bcs by (intro node_repI [where srest = "bz # bsr"]) auto
  ultimately show ?thesis by blast
qed

section \<open>A child with too few pairs\<close>

text \<open>The content of a node around two neighbouring children.\<close>

lemma inorder_two:
  assumes p: "node_rep t p ks cs" and j: "j < length ks"
  shows "inorder p = woven_left j (map inorder_ptr cs) ks @
    (inorder_ptr (cs ! j) @ ks ! j # inorder_ptr (cs ! Suc j)) @ woven_right (Suc j) (map inorder_ptr cs) ks"
proof -
  have l: "length (map inorder_ptr cs) = Suc (length ks)" using node_rep_length [OF p] by simp
  have "map inorder_ptr cs ! Suc j = inorder_ptr (cs ! Suc j)" using l j by (intro nth_map) simp
  then show ?thesis
    using inorder_at [OF p, of j] woven_right_Suc [OF l j] j by simp
qed

lemma inorder_two_changed:
  assumes p: "node_rep t p ks cs" and j: "j < length ks"
    and p': "node_rep t p' (ks[j := k]) (cs[j := a, Suc j := b])"
  shows "inorder p' = woven_left j (map inorder_ptr cs) ks @
    (inorder_ptr a @ k # inorder_ptr b) @ woven_right (Suc j) (map inorder_ptr cs) ks"
proof -
  have l: "length cs = Suc (length ks)" using node_rep_length [OF p] .
  have "woven_left j (map inorder_ptr (cs[j := a, Suc j := b])) (ks[j := k]) = woven_left j (map inorder_ptr cs) ks"
    "woven_right (Suc j) (map inorder_ptr (cs[j := a, Suc j := b])) (ks[j := k]) =
      woven_right (Suc j) (map inorder_ptr cs) ks"
    by (simp_all add: woven_left_def woven_right_def take_map drop_map)
  then show ?thesis using inorder_two [OF p', of j] j l by simp
qed

lemma inorder_joined:
  assumes p: "node_rep t p ks cs" and j: "j < length ks"
    and p': "node_rep t p' (without j ks) ((without (Suc j) cs)[j := c])"
  shows "inorder p' = woven_left j (map inorder_ptr cs) ks @ inorder_ptr c @
    woven_right (Suc j) (map inorder_ptr cs) ks"
proof -
  have "length (map inorder_ptr cs) = Suc (length ks)" using node_rep_length [OF p] by simp
  from weave_without [OF this j, of "inorder_ptr c"] show ?thesis
    by (simp add: inorder_rep [OF p'] map_update map_without)
qed

text \<open>Splitting one concatenation of two children in two ways.\<close>

lemma inorder_regroup:
  assumes "node_rep t l lks lcs" "node_rep t r rks rcs" "node_rep t l' lks' lcs'" "node_rep t r' rks' rcs'"
    and "lks @ k # rks = lks' @ k' # rks'" "lcs @ rcs = lcs' @ rcs'"
  shows "inorder l @ k # inorder r = inorder l' @ k' # inorder r'"
proof -
  have "inorder l @ k # inorder r = weave (map inorder_ptr (lcs @ rcs)) (lks @ k # rks)"
    using weave_join [of "map inorder_ptr lcs" lks "map inorder_ptr rcs" rks k]
      node_rep_length [OF assms(1)] node_rep_length [OF assms(2)]
    by (simp add: inorder_rep [OF assms(1)] inorder_rep [OF assms(2)])
  also have "\<dots> = inorder l' @ k' # inorder r'"
    using weave_join [of "map inorder_ptr lcs'" lks' "map inorder_ptr rcs'" rks' k']
      node_rep_length [OF assms(3)] node_rep_length [OF assms(4)]
    by (simp add: inorder_rep [OF assms(3)] inorder_rep [OF assms(4)] assms(5,6))
  finally show ?thesis .
qed

definition others_ok :: "nat \<Rightarrow> nat \<Rightarrow> nat \<Rightarrow> ('k, 'v) common_node option list \<Rightarrow> bool" where
  "others_ok t h j cs \<longleftrightarrow> (\<forall>i < length cs. i \<noteq> j \<longrightarrow> wf_child t h (cs ! i))"

lemma others_okD:
  assumes "others_ok t h j cs" "i < length cs" "i \<noteq> j"
  obtains c ks ds where "cs ! i = Some c" "node_at t h c ks ds" "node_rep t c ks ds" "t - 1 \<le> length ks"
proof -
  obtain c where c: "cs ! i = Some c" "wf_node t h c" "t - 1 \<le> virtual_size c"
    using assms by (auto simp: others_ok_def wf_child_def)
  then obtain ks ds where n: "node_at t h c ks ds" by (auto simp: wf_node_iff)
  show thesis
    using that [OF c(1) n node_at_rep [OF n]] c(3) node_rep_vs [OF node_at_rep [OF n]] by simp
qed

lemma others_ok_two:
  assumes o: "others_ok t h j cs" and i: "i = j \<or> Suc i = j"
    and a: "wf_child t h a" and b: "wf_child t h b" and c: "c \<in> set (cs[i := a, Suc i := b])" "Suc i < length cs"
  shows "wf_child t h c"
proof -
  obtain k where "k < length cs" "c = cs[i := a, Suc i := b] ! k" using c by (auto simp: in_set_conv_nth)
  then show ?thesis using o i a b c(2) by (auto simp: others_ok_def nth_list_update)
qed

lemma wf_childI: "node_rep t c ks ds \<Longrightarrow> \<forall>d \<in> set ds. ptr_ok t h d \<Longrightarrow> t - 1 \<le> length ks \<Longrightarrow> wf_child t h (Some c)"
  using node_rep_vs [of t c ks ds] by (auto simp: wf_child_def wf_node_iff node_at_def)

lemma borrow_left_at:
  assumes p: "node_rep t p ks cs" "others_ok t h (Suc j) cs" and j: "j < length ks" and t: "2 \<le> t"
    and x: "cs ! Suc j = Some x" "node_at t h x xks xcs" "length xks = t - 2"
    and b: "cs ! j = Some b" "node_at t h b bks bcs" "t - 1 < length bks"
  shows "\<exists>p'. borrow_left p (Suc j) = Some p' \<and> wf_node t (Suc h) p' \<and>
    virtual_size p' = length ks \<and> inorder p' = inorder p"
proof -
  have bks: "bks \<noteq> []" and room: "length xks < 2 * t - 1" using b(3) x(3) t by auto
  note xr = node_at_rep [OF x(2)] and br = node_at_rep [OF b(2)]
  have l: "length cs = Suc (length ks)" using node_rep_length [OF p(1)] .
  have bcs: "bcs \<noteq> []" using node_rep_length [OF br] by auto
  obtain p' b' x' where P: "borrow_left p (Suc j) = Some p'"
      "node_rep t p' (ks[j := last bks]) (cs[j := Some b', Suc j := Some x'])"
      "node_rep t x' (ks ! j # xks) (last bcs # xcs)" "node_rep t b' (butlast bks) (butlast bcs)"
    using borrow_left_rep [OF p(1) j b(1) br bks x(1) xr room] by (auto simp: list_update_swap)
  have w: "wf_child t h (Some b')"
    by (rule wf_childI [OF P(4)]) (use b t in \<open>auto simp: node_at_def dest: in_set_butlastD\<close>)
  have w': "wf_child t h (Some x')"
    by (rule wf_childI [OF P(3)]) (use b x bcs t in \<open>auto simp: node_at_def\<close>)
  have ok: "\<forall>c \<in> set (cs[j := Some b', Suc j := Some x']). wf_child t h c"
    using others_ok_two [OF p(2) _ w w'] j l by auto
  have g1: "bks @ ks ! j # xks = butlast bks @ last bks # ks ! j # xks"
    using append_butlast_last_id [OF bks] by (metis append.assoc append_Cons append_Nil)
  have g2: "bcs @ xcs = butlast bcs @ last bcs # xcs"
    using append_butlast_last_id [OF bcs] by (metis append.assoc append_Cons append_Nil)
  have "inorder b @ ks ! j # inorder x = inorder b' @ last bks # inorder x'"
    by (rule inorder_regroup [OF br xr P(4,3) g1 g2])
  then have "inorder p' = inorder p"
    using inorder_two_changed [OF p(1) j P(2)] inorder_two [OF p(1) j] b(1) x(1) by simp
  moreover have "wf_node t (Suc h) p'" using P(2) ok by (auto simp: wf_node_Suc)
  ultimately show ?thesis using P(1) node_rep_vs [OF P(2)] by simp
qed

lemma borrow_right_at:
  assumes p: "node_rep t p ks cs" "others_ok t h j cs" and j: "j < length ks" and t: "2 \<le> t"
    and x: "cs ! j = Some x" "node_at t h x xks xcs" "length xks = t - 2"
    and b: "cs ! Suc j = Some b" "node_at t h b bks bcs" "t - 1 < length bks"
  shows "\<exists>p'. borrow_right p j = Some p' \<and> wf_node t (Suc h) p' \<and>
    virtual_size p' = length ks \<and> inorder p' = inorder p"
proof -
  have bks: "bks \<noteq> []" and room: "length xks < 2 * t - 1" using b(3) x(3) t by auto
  note xr = node_at_rep [OF x(2)] and br = node_at_rep [OF b(2)]
  have l: "length cs = Suc (length ks)" using node_rep_length [OF p(1)] .
  have bcs: "bcs \<noteq> []" using node_rep_length [OF br] by auto
  obtain p' b' x' where P: "borrow_right p j = Some p'"
      "node_rep t p' (ks[j := hd bks]) (cs[j := Some x', Suc j := Some b'])"
      "node_rep t x' (xks @ [ks ! j]) (xcs @ [hd bcs])" "node_rep t b' (tl bks) (tl bcs)"
    using borrow_right_rep [OF p(1) j x(1) xr room b(1) br bks] by blast
  have w: "wf_child t h (Some x')"
    by (rule wf_childI [OF P(3)]) (use b x bcs t in \<open>auto simp: node_at_def\<close>)
  have w': "wf_child t h (Some b')"
    by (rule wf_childI [OF P(4)]) (use b bcs t in \<open>auto simp: node_at_def dest: list.set_sel(2)\<close>)
  have ok: "\<forall>c \<in> set (cs[j := Some x', Suc j := Some b']). wf_child t h c"
    using others_ok_two [OF p(2) _ w w'] j l by auto
  have g: "xks @ ks ! j # bks = (xks @ [ks ! j]) @ hd bks # tl bks" "xcs @ bcs = (xcs @ [hd bcs]) @ tl bcs"
    using bks bcs by simp_all
  have "inorder x @ ks ! j # inorder b = inorder x' @ hd bks # inorder b'"
    by (rule inorder_regroup [OF xr br P(3,4) g])
  then have "inorder p' = inorder p"
    using inorder_two_changed [OF p(1) j P(2)] inorder_two [OF p(1) j] b(1) x(1) by simp
  moreover have "wf_node t (Suc h) p'" using P(2) ok by (auto simp: wf_node_Suc)
  ultimately show ?thesis using P(1) node_rep_vs [OF P(2)] by simp
qed

lemma merge_at:
  assumes p: "node_rep t p ks cs" "others_ok t h j cs" and i: "i < length ks" "i = j \<or> Suc i = j"
    and room: "length ks < 2 * t - 1" and t: "2 \<le> t"
    and l: "cs ! i = Some l" "node_at t h l lks lcs" and r: "cs ! Suc i = Some r" "node_at t h r rks rcs"
    and fit: "length lks + length rks + 1 = 2 * t - 2"
  shows "\<exists>p' cs'. node_merge mem p i = Inr (p', mem + 1) \<and> node_at t (Suc h) p' (without i ks) cs' \<and>
    inorder p' = inorder p"
proof -
  note lr = node_at_rep [OF l(2)] and rr = node_at_rep [OF r(2)]
  have len: "length cs = Suc (length ks)" using node_rep_length [OF p(1)] .
  have fit': "length lks + length rks + 1 \<le> 2 * t - 1" using fit t by simp
  obtain p' l' where P: "node_merge mem p i = Inr (p', mem + 1)"
      "node_rep t l' (lks @ ks ! i # rks) (lcs @ rcs)"
      "node_rep t p' (without i ks) ((without (Suc i) cs)[i := Some l'])"
    using node_merge_rep [OF p(1) i(1) room l(1) lr r(1) rr fit'] by blast
  have "wf_child t h (Some l')"
    by (rule wf_childI [OF P(2)]) (use l(2) r(2) fit t in \<open>auto simp: node_at_def\<close>)
  moreover have "wf_child t h (without (Suc i) cs ! k)" if "k < length ks" "k \<noteq> i" for k
    using that p(2) i len by (auto simp: others_ok_def nth_without)
  ultimately have "\<forall>c \<in> set ((without (Suc i) cs)[i := Some l']). wf_child t h c"
    using i(1) len by (auto simp: set_conv_nth nth_list_update)
  then have "node_at t (Suc h) p' (without i ks) ((without (Suc i) cs)[i := Some l'])"
    using P(3) by (simp add: node_at_def)
  moreover have "inorder l' = inorder l @ ks ! i # inorder r"
    using weave_join [of "map inorder_ptr lcs" lks "map inorder_ptr rcs" rks "ks ! i"]
      node_rep_length [OF lr] node_rep_length [OF rr]
    by (simp add: inorder_rep [OF lr] inorder_rep [OF rr] inorder_rep [OF P(2)])
  then have "inorder p' = inorder p"
    using inorder_joined [OF p(1) i(1) P(3)] inorder_two [OF p(1) i(1)] l(1) r(1) by simp
  ultimately show ?thesis using P(1) by blast
qed

section \<open>The climb after a disposal\<close>

lemma set_deficient_child:
  assumes c: "ctx_ok t h ((Some p, i) # path)" and x: "node_at t h x xks xcs"
  shows "\<exists>p' ks cs. set_subtree p (sub_index i) (Some x) = Some p' \<and> node_rep t p' ks cs \<and>
    others_ok t h (sub_index i) cs \<and> cs ! sub_index i = Some x \<and> sub_index i \<le> length ks \<and>
    length ks = virtual_size p \<and> zip_content path p' = zip_content ((Some p, i) # path) x"
proof -
  from c have p: "sub_index i \<le> virtual_size p" "wf_node t (Suc h) p" by auto
  obtain ks cs where n: "node_at t (Suc h) p ks cs" "node_rep t p ks cs" "virtual_size p = length ks"
      "length cs = Suc (length ks)" "pairs p = ks" "children p = cs"
    using p(2) by (rule wf_node_SucE)
  have j: "sub_index i \<le> length ks" using p(1) n(3) by simp
  obtain p' where p': "set_subtree p (sub_index i) (Some x) = Some p'"
      "node_rep t p' ks (cs[sub_index i := Some x])"
    using set_child [OF n(2) j] by blast
  have "others_ok t h (sub_index i) (cs[sub_index i := Some x])"
    using n(1,4) by (auto simp: others_ok_def node_at_def)
  moreover have "zip_content path p' = zip_content ((Some p, i) # path) x"
    using inorder_child [OF n(2) j p'(2)] by (simp add: zip_content_def n(5,6))
  ultimately show ?thesis using p' j n(3,4) by (intro exI [of _ p'] exI [of _ ks]) auto
qed

lemma can_take_eq:
  assumes "node_rep t p ks cs" "ex \<Longrightarrow> i \<le> length ks \<and> cs ! i = Some c"
  shows "can_take t ex p i = Some (ex \<and> t - 1 < virtual_size c)"
  using assms by (auto simp: can_take_def get_subtree_rep get_min_keys_count_def)

text \<open>One round of the loop at a deficient node: done, or a merge with the loop going on.\<close>

lemma dispose_climb_step:
  assumes ctx: "ctx_ok t h ((Some p, i) # path)" and x: "node_at t h x xks xcs"
    and def: "length xks = t - 2" and t: "2 \<le> t" and room: "virtual_size p < 2 * t - 1"
  shows "(\<exists>p'. dispose_climb t mem ((Some p, i) # path) x = commit (Inr ()) mem p' path \<and>
       wf_node t (Suc h) p' \<and> virtual_size p' = virtual_size p \<and>
       zip_content path p' = zip_content ((Some p, i) # path) x) \<or>
    (\<exists>p' ks cs. dispose_climb t mem ((Some p, i) # path) x = dispose_climb t (mem + 1) path p' \<and>
       node_at t (Suc h) p' ks cs \<and> length ks = virtual_size p - 1 \<and>
       zip_content path p' = zip_content ((Some p, i) # path) x)"
proof -
  define j where "j = sub_index i"
  obtain q ks cs where q: "set_subtree p j (Some x) = Some q" "node_rep t q ks cs" "others_ok t h j cs"
      "cs ! j = Some x" "j \<le> length ks" "length ks = virtual_size p"
      "zip_content path q = zip_content ((Some p, i) # path) x"
    using set_deficient_child [OF ctx x] unfolding j_def by blast
  have l: "length cs = Suc (length ks)" using node_rep_length [OF q(2)] .
  have ks: "1 \<le> length ks" using ctx q(6) by simp
  have vx: "virtual_size x = t - 2" using node_rep_vs [OF node_at_rep [OF x]] def by simp
  have vq: "virtual_size q = length ks" using node_rep_vs [OF q(2)] .
  obtain lb lbks lbcs where lb: "j \<noteq> 0 \<Longrightarrow> cs ! (j - 1) = Some lb" "j \<noteq> 0 \<Longrightarrow> node_at t h lb lbks lbcs"
      "j \<noteq> 0 \<Longrightarrow> t - 1 \<le> length lbks" "j \<noteq> 0 \<Longrightarrow> virtual_size lb = length lbks"
  proof (cases "j = 0")
    case False
    then have "j - 1 < length cs" "j - 1 \<noteq> j" using q(5) l by linarith+
    with q(3) show thesis by (rule others_okD) (auto intro: that simp: node_rep_vs)
  qed (auto intro: that)
  obtain rb rbks rbcs where rb: "j \<noteq> length ks \<Longrightarrow> cs ! Suc j = Some rb"
      "j \<noteq> length ks \<Longrightarrow> node_at t h rb rbks rbcs" "j \<noteq> length ks \<Longrightarrow> t - 1 \<le> length rbks"
      "j \<noteq> length ks \<Longrightarrow> virtual_size rb = length rbks"
  proof (cases "j = length ks")
    case False
    then have "Suc j < length cs" "Suc j \<noteq> j" using q(5) l by linarith+
    with q(3) show thesis by (rule others_okD) (auto intro: that simp: node_rep_vs)
  qed (auto intro: that)
  define from_left where "from_left \<longleftrightarrow> j \<noteq> 0 \<and> t - 1 < virtual_size lb"
  define from_right where "from_right \<longleftrightarrow> j \<noteq> length ks \<and> t - 1 < virtual_size rb"
  have tk: "can_take t (j \<noteq> 0) q (j - 1) = Some from_left"
      "can_take t (j \<noteq> length ks) q (j + 1) = Some from_right"
    unfolding from_left_def from_right_def
    using q(5) lb(1) rb(1) by (intro can_take_eq [OF q(2)]; simp)+
  have nle: "\<not> t - Suc 0 \<le> t - 2" using t by arith
  have step: "dispose_climb t mem ((Some p, i) # path) x =
      (if from_left then (case borrow_left q j of None \<Rightarrow> ub_result mem
          | Some p' \<Rightarrow> commit (Inr ()) mem p' path)
       else if from_right then (case borrow_right q j of None \<Rightarrow> ub_result mem
          | Some p' \<Rightarrow> commit (Inr ()) mem p' path)
       else (case node_merge mem q (j - (if j \<noteq> 0 then 1 else 0)) of
              Inl e \<Rightarrow> (Inl e, None, mem)
            | Inr (p', mem') \<Rightarrow> dispose_climb t mem' path p'))"
    using q(1) tk nle
    by (subst dispose_climb.simps) (simp only: j_def [symmetric] prod.case list.case Let_def,
      simp add: get_min_keys_count_def vx vq)
  consider "from_left" | "\<not> from_left" "from_right" | "\<not> from_left" "\<not> from_right" by blast
  then show ?thesis
  proof cases
    case 1
    then have j: "j \<noteq> 0" "t - 1 < length lbks" using lb by (auto simp: from_left_def)
    then obtain m where m: "j = Suc m" by (cases j) auto
    have m': "m < length ks" "cs ! Suc m = Some x" "cs ! m = Some lb" "others_ok t h (Suc m) cs"
      using q(3,4,5) lb(1) j(1) m by simp_all
    obtain p' where "borrow_left q (Suc m) = Some p'" "wf_node t (Suc h) p'"
        "virtual_size p' = length ks" "inorder p' = inorder q"
      using borrow_left_at [OF q(2) m'(4,1) t m'(2) x def m'(3) lb(2) j(2)] j(1) by blast
    then show ?thesis using 1 q(6,7) by (auto simp: step m zip_content_def)
  next
    case 2
    then have j: "j \<noteq> length ks" "t - 1 < length rbks" using rb by (auto simp: from_right_def)
    then have m': "j < length ks" using q(5) by simp
    obtain p' where "borrow_right q j = Some p'" "wf_node t (Suc h) p'"
        "virtual_size p' = length ks" "inorder p' = inorder q"
      using borrow_right_at [OF q(2,3) m' t q(4) x def rb(1,2) j(2)] j(1) by blast
    then show ?thesis using 2 q(6,7) by (auto simp: step zip_content_def)
  next
    case 3
    have room': "length ks < 2 * t - 1" using room q(6) by simp
    show ?thesis
    proof (cases "j = 0")
      case True
      then have r: "j \<noteq> length ks" using ks by linarith
      have z: "0 < length ks" using ks by linarith
      have "length rbks = t - 1" using 3(2) rb(3,4) [OF r] r by (simp add: from_right_def)
      then have fit: "length xks + length rbks + 1 = 2 * t - 2" using def t by simp
      have c: "cs ! 0 = Some x" "cs ! Suc 0 = Some rb" using q(4) rb(1) r True by simp_all
      obtain p' cs' where "node_merge mem q 0 = Inr (p', mem + 1)" "node_at t (Suc h) p' (without 0 ks) cs'"
          "inorder p' = inorder q"
        using merge_at [OF q(2,3) z _ room' t c(1) x c(2) rb(2) fit, of mem] r True by blast
      then show ?thesis using 3 True q(6,7) z
        by (intro disjI2 exI [of _ p'] exI [of _ "without 0 ks"] exI [of _ cs'])
          (simp add: step zip_content_def)
    next
      case False
      then obtain m where m: "j = Suc m" by (cases j) auto
      have z: "m < length ks" using m q(5) by simp
      have "length lbks = t - 1" using 3(1) lb(3,4) [OF False] False by (simp add: from_left_def)
      then have fit: "length lbks + length xks + 1 = 2 * t - 2" using def t by simp
      have c: "cs ! m = Some lb" "cs ! Suc m = Some x" using q(4) lb(1) False m by simp_all
      obtain p' cs' where "node_merge mem q m = Inr (p', mem + 1)" "node_at t (Suc h) p' (without m ks) cs'"
          "inorder p' = inorder q"
        using merge_at [OF q(2,3) z _ room' t c(1) lb(2) [OF False] c(2) x fit, of mem] m by blast
      then show ?thesis using 3 m q(6,7) z
        by (intro disjI2 exI [of _ p'] exI [of _ "without m ks"] exI [of _ cs'])
          (simp add: step zip_content_def)
    qed
  qed
qed

lemma dispose_climb_correct:
  assumes "ctx_ok t h path" "node_at t h x xks xcs" "path \<noteq> [] \<Longrightarrow> t - 2 \<le> length xks"
    and "path_not_full t path" "2 \<le> t"
  shows "\<exists>root mem'. dispose_climb t mem path x = (Inr (), root, mem') \<and> inorder_ptr root = zip_content path x \<and>
    (\<forall>r. root = Some r \<longrightarrow> 1 \<le> virtual_size r \<and> (\<exists>h'. wf_node t h' r))"
  using assms
proof (induction path arbitrary: h x xks xcs mem)
  case Nil
  note n = node_at_rep [OF Nil.prems(2)]
  have vs: "virtual_size x = length xks" using node_rep_vs [OF n] .
  have w: "wf_node t h x" using Nil.prems(2) by (rule wf_nodeI)
  show ?case
  proof (cases "xks = []")
    case False
    then have "dispose_climb t mem [] x = (Inr (), Some x, mem)"
      by (subst dispose_climb.simps) (simp add: vs commit_def)
    then show ?thesis using w False by (auto simp: zip_content_def vs Suc_le_eq)
  next
    case True
    have g: "arr_get (subtrees x) 0 = Some (cs ! 0)" if "cs = xcs" for cs
      using node_rep_arr_get [OF n] that by simp
    have "dispose_climb t mem [] x = (Inr (), xcs ! 0, mem + 1)"
      using Nil.prems(5) True g
      by (subst dispose_climb.simps) (simp add: vs get_min_keys_count_def destroy_node_def)
    moreover obtain c where c: "xcs = [c]" using node_rep_length [OF n] True by (cases xcs) auto
    moreover have "inorder x = inorder_ptr c" using inorder_rep [OF n] True c by simp
    moreover have "ptr_ok t h c" using Nil.prems(2) c by (simp add: node_at_def)
    ultimately show ?thesis
      using Nil.prems(5) by (auto simp: zip_content_def elim!: ptr_ok_cases)
  qed
next
  case (Cons e path)
  obtain p i where e: "e = (Some p, i)" and p: "1 \<le> virtual_size p" "path \<noteq> [] \<Longrightarrow> t - 1 \<le> virtual_size p"
      "ctx_ok t (Suc h) path" "virtual_size p < 2 * t - 1" "path_not_full t path"
    using Cons.prems(1,4) by (cases e) (auto simp: path_not_full_def get_max_keys_count_def)
  note n = node_at_rep [OF Cons.prems(2)]
  have vs: "virtual_size x = length xks" using node_rep_vs [OF n] .
  have commit: ?case if "dispose_climb t mem (e # path) x = commit (Inr ()) mem y path'"
      "ctx_ok t h' path'" "wf_node t h' y" "path' \<noteq> [] \<Longrightarrow> t - 1 \<le> virtual_size y" "1 \<le> virtual_size y"
      "zip_content path' y = zip_content (e # path) x" for y path' h'
    using plug_correct [OF that(2-4)] that(1,5,6) by (auto simp: commit_def)
  show ?case
  proof (cases "t - 1 \<le> length xks")
    case True
    then have "dispose_climb t mem (e # path) x = commit (Inr ()) mem x (e # path)"
      by (subst dispose_climb.simps) (simp add: vs get_min_keys_count_def)
    then show ?thesis
      by (rule commit) (use Cons.prems(1,2,5) True wf_nodeI in \<open>auto simp: vs\<close>)
  next
    case False
    then have def: "length xks = t - 2" using Cons.prems(3) by simp
    note ctx = Cons.prems(1) [unfolded e]
    from dispose_climb_step [OF ctx Cons.prems(2) def Cons.prems(5) p(4), of mem] show ?thesis
    proof (elim disjE exE conjE)
      fix p'
      assume p': "dispose_climb t mem ((Some p, i) # path) x = commit (Inr ()) mem p' path"
        "wf_node t (Suc h) p'" "virtual_size p' = virtual_size p"
        "zip_content path p' = zip_content ((Some p, i) # path) x"
      show ?thesis
        by (rule commit [of p' path "Suc h"]) (use p' p e in auto)
    next
      fix p' ks cs
      assume p': "dispose_climb t mem ((Some p, i) # path) x = dispose_climb t (mem + 1) path p'"
        "node_at t (Suc h) p' ks cs" "length ks = virtual_size p - 1"
        "zip_content path p' = zip_content ((Some p, i) # path) x"
      have "path \<noteq> [] \<Longrightarrow> t - 2 \<le> length ks" using p(2) p'(3) by fastforce
      from Cons.IH [OF p(3) p'(2) this p(5) Cons.prems(5), of "mem + 1"] show ?thesis
        using p'(1,4) e by simp
    qed
  qed
qed

end
