(* ===== verification/Dispose_Correct.thy ===== *)
theory Dispose_Correct
  imports Tree_Disposal
begin

text \<open>
  \<open>dispose\<close> as a whole: the reduction of an inner-node disposal to a leaf, the removal, and the
  climb together remove the key from the sorted list of entries and return its value.
\<close>

section \<open>The rightmost leaf\<close>

lemma leaf_content: "node_at t 0 n ks cs \<Longrightarrow> inorder n = ks"
proof -
  assume n: "node_at t 0 n ks cs"
  then have r: "node_rep t n ks cs" by (simp add: node_at_def)
  have "map inorder_ptr cs = replicate (Suc (length ks)) []"
    using n node_rep_length [OF r] by (intro replicate_eqI) (auto simp: node_at_def)
  then show ?thesis by (simp only: inorder_rep [OF r] weave_leaf)
qed

text \<open>
  The path \<open>anc\<close> from a subtree \<open>c\<close> down to its rightmost leaf, wherever the subtree stands.
\<close>

definition right_spine ::
  "nat \<Rightarrow> nat \<Rightarrow> ('k, 'v) common_node \<Rightarrow> ('k, 'v) common_node \<Rightarrow> ('k, 'v) path \<Rightarrow> ('k \<times> 'v) list \<Rightarrow> bool" where
  "right_spine t h c leaf anc ks \<longleftrightarrow>
     (\<exists>cs. node_at t 0 leaf ks cs) \<and> t - 1 \<le> length ks \<and>
     (\<forall>rest. ctx_ok t h rest \<longrightarrow> ctx_ok t 0 (anc @ rest)) \<and>
     (\<forall>rest. ctx_left (anc @ rest) @ ks = ctx_left rest @ inorder c) \<and>
     (\<forall>rest. ctx_right (anc @ rest) = ctx_right rest) \<and>
     (room_node t h c \<longrightarrow> path_not_full t anc)"

lemma right_spine_step:
  assumes n: "node_at t (Suc h) n ks cs" "t - 1 \<le> length ks" "2 \<le> t" and c: "cs ! length ks = Some c"
    and s: "right_spine t h c leaf anc lks"
  shows "right_spine t (Suc h) n leaf (anc @ [(Some n, - int (length ks) - 1)]) lks"
proof -
  have r: "node_rep t n ks cs" using n(1) by (simp add: node_at_def)
  have l: "length (map inorder_ptr cs) = Suc (length ks)" using node_rep_length [OF r] by simp
  let ?e = "(Some n, - int (length ks) - 1)"
  have io: "inorder n = woven_left (length ks) (map inorder_ptr cs) ks @ inorder c"
    using inorder_at [OF r, of "length ks"] c by (simp add: woven_right_def)
  have ok: "ctx_ok t (Suc h) rest \<Longrightarrow> ctx_ok t h (?e # rest)" for rest
    using n wf_nodeI [OF n(1)] node_rep_vs [OF r] by auto
  have left: "ctx_left (?e # rest) @ inorder c = ctx_left rest @ inorder n" for rest
    by (simp add: io pairs_rep [OF r] children_rep [OF r])
  have right: "ctx_right (?e # rest) = ctx_right rest" for rest
    by (simp add: pairs_rep [OF r] children_rep [OF r] woven_right_def)
  have room: "path_not_full t (anc @ [?e])" if "room_node t (Suc h) n"
    using that s room_child [OF that r _ c] by (auto simp: right_spine_def path_not_full_def)
  show ?thesis
    using s ok room left unfolding right_spine_def append.assoc append_Cons append_Nil
    by (simp only: right) blast
qed

lemma descend_max_correct:
  assumes "wf_node t h c" "t - 1 \<le> virtual_size c" "2 \<le> t"
  shows "\<exists>leaf e anc ks. descend_max c path = Some ((Some leaf, e) # anc @ path) \<and>
    right_spine t h c leaf anc ks"
  using assms
proof (induction h arbitrary: c path)
  case 0
  then obtain ks cs where n: "node_at t 0 c ks cs" by (auto simp: wf_node_iff)
  then have r: "node_rep t c ks cs" by (simp add: node_at_def)
  have v: "virtual_size c = length ks" using node_rep_vs [OF r] .
  have "arr_get (subtrees c) (length ks) = Some None"
    using node_rep_arr_get [OF r, of "length ks"] node_at_ptr [OF n, of "length ks"] by simp
  then have "descend_max c path = Some ((Some c, - int (length ks) - 1) # [] @ path)"
    by (subst descend_max.simps) (simp add: v)
  moreover have "right_spine t 0 c c [] ks"
    using n 0 v by (auto simp: right_spine_def path_not_full_def leaf_content [OF n])
  ultimately show ?case by blast
next
  case (Suc h)
  then obtain ks cs where n: "node_at t (Suc h) c ks cs" by (auto simp: wf_node_iff)
  then have r: "node_rep t c ks cs" by (simp add: node_at_def)
  have v: "virtual_size c = length ks" using node_rep_vs [OF r] .
  obtain d where d: "cs ! length ks = Some d" "wf_node t h d" "t - 1 \<le> virtual_size d"
    using node_at_ptr [OF n, of "length ks"] by (auto simp: wf_child_def)
  have "arr_get (subtrees c) (length ks) = Some (Some d)"
    using node_rep_arr_get [OF r, of "length ks"] d(1) by simp
  then have s: "descend_max c path = descend_max d ((Some c, - int (length ks) - 1) # path)"
    by (subst descend_max.simps) (simp add: v)
  obtain leaf e anc lks where
      "descend_max d ((Some c, - int (length ks) - 1) # path) =
        Some ((Some leaf, e) # anc @ (Some c, - int (length ks) - 1) # path)"
      "right_spine t h d leaf anc lks"
    using Suc.IH [OF d(2,3) Suc.prems(3)] by blast
  then show ?case
    using s right_spine_step [OF n _ Suc.prems(3) d(1)] Suc.prems(2) v
    by (metis append.assoc append_Cons append_Nil)
qed

section \<open>The pair that is removed\<close>

text \<open>The content after the removal does not depend on how the leaf's other pointers look.\<close>

lemma without_leaf_content:
  assumes n: "node_at t 0 n ks cs" and n': "node_at t 0 n' (without i ks) cs'" and i: "i < length ks"
  shows "inorder n' = woven_left i (map inorder_ptr cs) ks @ woven_right (Suc i) (map inorder_ptr cs) ks"
proof -
  have r: "node_rep t n ks cs" and r': "node_rep t n' (without i ks) cs'"
    using n n' by (simp_all add: node_at_def)
  have "cs' = replicate (length ks) None"
    using n' node_rep_length [OF r'] i by (intro replicate_eqI) (auto simp: node_at_def)
  moreover have "(without (Suc i) cs)[i := None] = replicate (length ks) None"
  proof (rule replicate_eqI)
    show "length ((without (Suc i) cs)[i := None]) = length ks" using node_rep_length [OF r] i by simp
    fix c assume "c \<in> set ((without (Suc i) cs)[i := None])"
    then have "c = None \<or> c \<in> set cs"
      using set_update_subset_insert [of "without (Suc i) cs" i None]
      by (auto simp: without_def dest: in_set_takeD in_set_dropD)
    then show "c = None" using n by (auto simp: node_at_def)
  qed
  ultimately have "node_rep t n' (without i ks) ((without (Suc i) cs)[i := None])" using r' by simp
  then show ?thesis using inorder_joined [OF r i] by simp
qed

definition removal ::
  "'k::linorder \<Rightarrow> nat \<Rightarrow> 'v \<Rightarrow> ('k \<times> 'v) list \<Rightarrow> ('k, 'v) common_node \<Rightarrow> nat \<Rightarrow> ('k, 'v) path \<Rightarrow> bool" where
  "removal key t v rest target index path' \<longleftrightarrow>
     (\<exists>ks cs. node_at t 0 target ks cs \<and> index < length ks \<and> snd (ks ! index) = v \<and>
       ctx_ok t 0 path' \<and> (path' \<noteq> [] \<longrightarrow> t - 1 \<le> length ks) \<and>
       (\<forall>target' cs'. node_at t 0 target' (without index ks) cs' \<longrightarrow> zip_content path' target' = rest))"

lemma dispose_target_leaf:
  assumes k: "key_at key t 0 path n" and n: "node_at t 0 n ks cs" and f: "0 \<le> search_result ks key"
  shows "dispose_target n (nat (search_result ks key)) path = Some (n, key_rank ks key, path)"
    "removal key t (snd (ks ! key_rank ks key)) (before_key key path ks cs @ after_key key path ks cs)
      n (key_rank ks key) path"
proof -
  have r: "node_rep t n ks cs" using n by (simp add: node_at_def)
  note kp = key_at_present [OF k n f]
  have c: "cs ! i = None" if "i \<le> length ks" for i using node_at_ptr [OF n that] by simp
  have "arr_get (subtrees n) 0 = Some None" using node_rep_arr_get [OF r, of 0] c [of 0] by simp
  then show "dispose_target n (nat (search_result ks key)) path = Some (n, key_rank ks key, path)"
    by (simp add: dispose_target_def search_result_found(3) [OF f])
  have foc: "at_focus t 0 path n" using k by (simp add: key_at_def)
  have "zip_content path n' = before_key key path ks cs @ after_key key path ks cs"
    if "node_at t 0 n' (without (key_rank ks key) ks) cs'" for n' cs'
    using without_leaf_content [OF n that kp(4)] c kp(4)
    by (simp add: zip_content_def before_key_def after_key_def)
  then show "removal key t (snd (ks ! key_rank ks key)) (before_key key path ks cs @ after_key key path ks cs)
      n (key_rank ks key) path"
    unfolding removal_def
    by (intro exI [of _ ks] exI [of _ cs]) (use n kp(4) foc node_rep_vs [OF r] in \<open>auto simp: at_focus_def\<close>)
qed

text \<open>The leaf's last pair and the disposed pair change places.\<close>

lemma leaf_exchange:
  assumes n: "node_at t 0 n ks cs" and ks: "ks \<noteq> []"
  shows "\<exists>kv. arr_exchange (keys_and_values n) (length ks - 1) (Live x) = Some (Live (last ks), kv) \<and>
    node_at t 0 (Node kv (subtrees n) (virtual_size n)) (butlast ks @ [x]) cs"
proof -
  have r: "node_rep t n ks cs" and c: "\<forall>c \<in> set cs. c = None" using n by (simp_all add: node_at_def)
  from r obtain kr sr where N: "n = Node (map Live ks @ kr) (cs @ sr) (length ks)"
    and l: "length cs = Suc (length ks)" "length ks + length kr = 2 * t - 1"
      "length cs + length sr = 2 * t" "1 \<le> t"
    by (rule node_repE)
  obtain as a where a: "ks = as @ [a]" using ks by (cases ks rule: rev_cases) auto
  have "arr_exchange (keys_and_values n) (length ks - 1) (Live x) =
      Some (Live (last ks), map Live (as @ [x]) @ kr)"
    using arr_exchange_at [of "map Live as" "length as" "Live a" kr "Live x"] by (simp add: N a)
  moreover have "node_rep t (Node (map Live (as @ [x]) @ kr) (subtrees n) (virtual_size n)) (as @ [x]) cs"
    using l a by (intro node_repI) (auto simp: N)
  ultimately show ?thesis using c a by (simp add: node_at_def)
qed

lemma without_last: "without (length xs) (xs @ [x]) = xs"
  by (simp add: without_def)

lemma dispose_target_inner:
  assumes k: "key_at key t (Suc h) path n" and n: "node_at t (Suc h) n ks cs"
    and f: "0 \<le> search_result ks key" and t: "2 \<le> t"
  shows "\<exists>target index path'. dispose_target n (nat (search_result ks key)) path = Some (target, index, path') \<and>
    removal key t (snd (ks ! key_rank ks key)) (before_key key path ks cs @ after_key key path ks cs)
      target index path' \<and>
    (room_node t (Suc h) n \<longrightarrow> path_not_full t path \<longrightarrow> path_not_full t path')"
proof -
  let ?j = "key_rank ks key" and ?cs = "map inorder_ptr cs"
  have r: "node_rep t n ks cs" using n by (simp add: node_at_def)
  note kp = key_at_present [OF k n f]
  from r obtain kr sr where N: "n = Node (map Live ks @ kr) (cs @ sr) (length ks)"
    and l: "length cs = Suc (length ks)" "length ks + length kr = 2 * t - 1"
      "length cs + length sr = 2 * t" "1 \<le> t"
    by (rule node_repE)
  have "ptr_ok t (Suc h) (cs ! ?j)" "ptr_ok t (Suc h) (cs ! 0)" using node_at_ptr [OF n] kp(4) by simp_all
  then obtain c c0 where c: "cs ! ?j = Some c" "wf_node t h c" "t - 1 \<le> virtual_size c" "cs ! 0 = Some c0"
    by (auto simp: wf_child_def)
  obtain leaf e anc lks where d: "descend_max c [] = Some ((Some leaf, e) # anc @ [])"
      "right_spine t h c leaf anc lks"
    using descend_max_correct [OF c(2,3) t, of "[]"] by blast
  obtain lcs where leaf: "node_at t 0 leaf lks lcs" "t - 1 \<le> length lks"
    using d(2) by (auto simp: right_spine_def)
  have lks: "lks \<noteq> []" using leaf(2) t by auto
  have vl: "virtual_size leaf = length lks" using node_rep_vs [OF node_at_rep [OF leaf(1)]] .
  obtain lkv where lkv: "arr_exchange (keys_and_values leaf) (length lks - 1) (Live (ks ! ?j)) = Some (Live (last lks), lkv)"
      "node_at t 0 (Node lkv (subtrees leaf) (virtual_size leaf)) (butlast lks @ [ks ! ?j]) lcs"
    using leaf_exchange [OF leaf(1) lks] by blast
  let ?n = "Node (map Live (ks[?j := last lks]) @ kr) (cs @ sr) (length ks)"
  let ?leaf = "Node lkv (subtrees leaf) (virtual_size leaf)"
  let ?rest = "(Some ?n, - int ?j - 1) # path"
  have r': "node_rep t ?n (ks[?j := last lks]) cs" using l by (intro node_repI) auto
  have gets: "arr_get (subtrees n) 0 = Some (Some c0)" "get_subtree n ?j = Some c"
      "arr_get (keys_and_values n) ?j = Some (Live (ks ! ?j))"
      "arr_set (keys_and_values n) ?j (Live (last lks)) = Some (map Live (ks[?j := last lks]) @ kr)"
    using c(1,4) node_rep_arr_get [OF r] get_subtree_rep [OF r] node_rep_key [OF r kp(4)] kp(4)
    by (simp_all add: N list_update_append map_update)
  have T: "dispose_target n (nat (search_result ks key)) path = Some (?leaf, length lks - 1, anc @ ?rest)"
    using gets d(1) lkv(1)
    by (simp add: dispose_target_def search_result_found(3) [OF f] vl Let_def N)
  have foc: "at_focus t (Suc h) path n" using k by (simp add: key_at_def)
  have "wf_node t (Suc h) ?n" using r' n by (intro wf_nodeI) (auto simp: node_at_def)
  then have ctx: "ctx_ok t h ?rest" using foc kp(4) node_rep_vs [OF r] by (auto simp: at_focus_def)
  have W: "woven_left ?j ?cs (ks[?j := last lks]) = woven_left ?j ?cs ks"
      "woven_right (Suc ?j) ?cs (ks[?j := last lks]) = woven_right (Suc ?j) ?cs ks"
    by (simp_all add: woven_left_def woven_right_def)
  have lc: "length ?cs = Suc (length (ks[?j := last lks]))" "?j < length (ks[?j := last lks])"
    using l kp(4) by simp_all
  have left: "ctx_left ?rest = ctx_left path @ woven_left ?j ?cs ks"
    by (simp add: pairs_rep [OF r'] children_rep [OF r'] W)
  have right: "ctx_right ?rest = last lks # after_key key path ks cs"
    using woven_right_Suc [OF lc] l kp(4)
    by (simp add: pairs_rep [OF r'] children_rep [OF r'] W after_key_def)
  have before: "ctx_left (anc @ ?rest) @ lks = before_key key path ks cs"
    using d(2) unfolding right_spine_def left before_key_def by (simp add: left c(1) del: ctx_left.simps)
  have "zip_content (anc @ ?rest) target' = before_key key path ks cs @ after_key key path ks cs"
    if "node_at t 0 target' (without (length lks - 1) (butlast lks @ [ks ! ?j])) cs'" for target' cs'
  proof -
    have "inorder target' = butlast lks"
      using leaf_content [OF that] without_last [of "butlast lks"] by simp
    moreover have "ctx_right (anc @ ?rest) = last lks # after_key key path ks cs"
      using d(2) right unfolding right_spine_def by (simp del: ctx_right.simps)
    moreover have "lks = butlast lks @ [last lks]" using lks by simp
    ultimately show ?thesis
      unfolding zip_content_def before [symmetric] by (metis append.assoc append_Cons append_Nil)
  qed
  moreover have "ctx_ok t 0 (anc @ ?rest)"
    using d(2) ctx unfolding right_spine_def by blast
  moreover have "t - 1 \<le> length (butlast lks @ [ks ! ?j])" "length lks - 1 < length (butlast lks @ [ks ! ?j])"
      "snd ((butlast lks @ [ks ! ?j]) ! (length lks - 1)) = snd (ks ! ?j)"
    using lks leaf(2) by (simp_all add: nth_append)
  ultimately have "removal key t (snd (ks ! ?j)) (before_key key path ks cs @ after_key key path ks cs)
      ?leaf (length lks - 1) (anc @ ?rest)"
    unfolding removal_def using lkv(2)
    by (intro exI [of _ "butlast lks @ [ks ! ?j]"] exI [of _ lcs]) auto
  moreover have "room_node t (Suc h) n \<longrightarrow> path_not_full t path \<longrightarrow> path_not_full t (anc @ ?rest)"
    using d(2) room_child [OF _ r _ c(1)] kp(4) node_rep_vs [OF r]
    by (auto simp: right_spine_def path_not_full_def)
  ultimately show ?thesis using T by blast
qed

lemma dispose_target_correct:
  assumes "key_at key t h path n" "node_at t h n ks cs" "0 \<le> search_result ks key" "2 \<le> t"
  shows "\<exists>target index path'. dispose_target n (nat (search_result ks key)) path = Some (target, index, path') \<and>
    removal key t (snd (ks ! key_rank ks key)) (before_key key path ks cs @ after_key key path ks cs)
      target index path' \<and>
    (room_node t h n \<longrightarrow> path_not_full t path \<longrightarrow> path_not_full t path')"
proof (cases h)
  case 0
  with assms dispose_target_leaf [of key t path n ks cs] show ?thesis by blast
next
  case (Suc h')
  with assms dispose_target_inner [of key t h' path n ks cs] show ?thesis by blast
qed

section \<open>The whole operation\<close>

definition del_entries :: "'k \<Rightarrow> ('k \<times> 'v) list \<Rightarrow> ('k \<times> 'v) list" where
  "del_entries key xs = filter (\<lambda>p. fst p \<noteq> key) xs"

lemma sorted_del_entries: "sorted_keys xs \<Longrightarrow> sorted_keys (del_entries key xs)"
  by (simp add: del_entries_def sorted_wrt_map sorted_wrt_filter)

lemma map_of_del_entries: "map_of (del_entries key xs) = (map_of xs)(key := None)"
  by (auto simp: del_entries_def map_of_filter_in fun_eq_iff) (induction xs; auto)+

lemma del_entries_split:
  fixes key :: "'k::linorder"
  assumes "\<forall>p \<in> set A. fst p < key" "\<forall>p \<in> set B. key < fst p" "fst x = key"
  shows "del_entries key (A @ x # B) = A @ B"
proof -
  have "filter (\<lambda>p. fst p \<noteq> key) A = A" "filter (\<lambda>p. fst p \<noteq> key) B = B"
    using assms(1,2) by (auto simp: filter_id_conv)
  then show ?thesis using assms(3) by (simp add: del_entries_def)
qed

lemma removal_climb:
  assumes rm: "removal key t v rest target index path'" and room: "path_not_full t path'" and t: "2 \<le> t"
  shows "\<exists>target' root mem'. remove_from_leaf target index = Some (v, target') \<and>
    dispose_climb t mem path' target' = (Inr (), root, mem') \<and> inorder_ptr root = rest \<and>
    (\<forall>r. root = Some r \<longrightarrow> 1 \<le> virtual_size r \<and> (\<exists>h. wf_node t h r))"
proof -
  obtain ks cs where x: "node_at t 0 target ks cs" "index < length ks" "snd (ks ! index) = v"
      "ctx_ok t 0 path'" "path' \<noteq> [] \<Longrightarrow> t - 1 \<le> length ks"
      "\<And>target' cs'. node_at t 0 target' (without index ks) cs' \<Longrightarrow> zip_content path' target' = rest"
    using rm by (auto simp: removal_def)
  obtain target' where y: "remove_from_leaf target index = Some (v, target')"
      "node_at t 0 target' (without index ks) (without index cs)"
    using remove_from_leaf_rep [OF x(1,2)] x(3) by blast
  have "t - 2 \<le> length (without index ks)" if "path' \<noteq> []"
    using x(5) [OF that] x(2) by simp
  from dispose_climb_correct [OF x(4) y(2) this room t, of mem] show ?thesis
    using y(1) x(6) [OF y(2)] by auto
qed

context key_order
begin

lemma bt_dispose_present:
  assumes tr: "bt_ok tr" "bt_keys_comparer tr = cmp" and v: "map_of (bt_entries tr) key = Some v"
    and room: "bt_has_room tr"
  shows "\<exists>tr'. bt_dispose tr key = (Inr v, tr') \<and> bt_ok tr' \<and> bt_t tr' = bt_t tr \<and>
    bt_keys_comparer tr' = cmp \<and> bt_entries tr' = del_entries key (bt_entries tr)"
proof -
  have t: "2 \<le> bt_t tr" using tr by (simp add: bt_ok_def)
  have "key \<in> fst ` set (bt_entries tr)" using v by (force dest: map_of_SomeD)
  then obtain m h ks cs path where g: "find_path cmp (bt_root tr) key = Some ((Some m, search_result ks key) # path)"
      "0 \<le> search_result ks key" "node_at (bt_t tr) h m ks cs" "key_at key (bt_t tr) h path m"
      "zip_content path m = bt_entries tr" "room_node (bt_t tr) h m" "path_not_full (bt_t tr) path"
    using find_tree [OF tr, of key] room by auto
  note kp = key_at_present [OF g(4,3,2)]
  obtain target index path' where d: "dispose_target m (nat (search_result ks key)) path = Some (target, index, path')"
      "removal key (bt_t tr) (snd (ks ! key_rank ks key))
        (before_key key path ks cs @ after_key key path ks cs) target index path'"
      "path_not_full (bt_t tr) path'"
    using dispose_target_correct [OF g(4,3,2) t] g(6,7) by blast
  have ks: "ks ! key_rank ks key = (key, v)"
    using slot_read_found(1) [OF g(4,3,2)] v g(5) node_rep_slot_read [OF node_at_rep [OF g(3)] kp(4)]
      search_result_found(3) [OF g(2)] by simp
  have rest: "before_key key path ks cs @ after_key key path ks cs = del_entries key (bt_entries tr)"
    using del_entries_split [OF kp(2,3,5)] by (simp add: kp(1) [symmetric] g(5))
  obtain target' root mem' where c: "remove_from_leaf target index = Some (v, target')"
      "dispose_climb (bt_t tr) (bt_memory tr) path' target' = (Inr (), root, mem')"
      "inorder_ptr root = del_entries key (bt_entries tr)"
      "\<And>r. root = Some r \<Longrightarrow> 1 \<le> virtual_size r \<and> (\<exists>h. wf_node (bt_t tr) h r)"
    using removal_climb [OF d(2,3) t, of "bt_memory tr"] by (auto simp: rest ks)
  have so: "sorted_keys (bt_entries tr)" using g(4,5) by (simp add: key_at_def)
  have "tree_ok (bt_t tr) root"
  proof (cases root)
    case (Some r)
    then show ?thesis
      using c(3) c(4) [OF Some] sorted_del_entries [OF so, of key] by (auto intro: tree_okI)
  qed (simp add: tree_ok_def)
  moreover have "bt_dispose tr key = (Inr v, tr\<lparr>bt_root := root, bt_memory := mem'\<rparr>)"
    using g(1,2) d(1) c(1,2) tr(2) by (simp add: bt_dispose_def with_root_def)
  ultimately show ?thesis using tr t c(3) by (simp add: bt_ok_def bt_entries_def)
qed

lemma bt_dispose_missing:
  assumes "bt_ok tr" "bt_keys_comparer tr = cmp" "map_of (bt_entries tr) key = None"
  shows "bt_dispose tr key = (Inl (Disposal_of_nonexistent_key key), tr)"
proof -
  have "key \<notin> fst ` set (bt_entries tr)" using assms(3) by (simp add: map_of_eq_None_iff)
  then show ?thesis
    using find_tree [OF assms(1,2), of key] assms(2) by (auto simp: bt_dispose_def not_le)
qed

end

end
