(* ===== verification/Tree_Copy.thy ===== *)
theory Tree_Copy
  imports Dispose_Correct
begin

text \<open>
  Copying and clearing: a copy has the same entries and the shape invariant and takes exactly as
  many nodes from the allocator as clearing gives back; a copy that runs out of memory gives back
  what it has taken. Copy assignment, which copies with the capacity of its target, is correct
  between trees of one parameter.
\<close>

section \<open>The nodes of a tree\<close>

fun node_count :: "('k, 'v) common_node \<Rightarrow> nat"
  and ptrs_count :: "('k, 'v) common_node option list \<Rightarrow> nat \<Rightarrow> nat" where
  "node_count (Node kv sb vs) = Suc (ptrs_count sb (Suc vs))"
| "ptrs_count [] k = 0"
| "ptrs_count cs 0 = 0"
| "ptrs_count (None # cs) (Suc k) = ptrs_count cs k"
| "ptrs_count (Some c # cs) (Suc k) = node_count c + ptrs_count cs k"

definition bt_nodes :: "('k, 'v) b_tree \<Rightarrow> nat" where
  "bt_nodes tr = (case bt_root tr of None \<Rightarrow> 0 | Some n \<Rightarrow> node_count n)"

lemma clear_count:
  fixes n :: "('k, 'v) common_node" and cs :: "('k, 'v) common_node option list"
  shows "clear_node mem n = mem + node_count n" "clear_ptrs mem cs k = mem + ptrs_count cs k"
  by (induction mem n and mem cs k rule: clear_node_clear_ptrs.induct) (auto simp: destroy_node_def)

lemma clear_root_count: "clear_root (bt_memory tr) (bt_root tr) = bt_memory tr + bt_nodes tr"
  by (cases "bt_root tr") (simp_all add: clear_root_def bt_nodes_def clear_count)

lemma ptrs_count_append: "ptrs_count (cs @ ds) (length cs) = ptrs_count cs (length cs)"
proof (induction cs)
  case (Cons c cs)
  then show ?case by (cases c) simp_all
qed (cases ds; simp)

lemma node_count_rep:
  assumes "node_rep t n ks cs"
  shows "node_count n = Suc (ptrs_count cs (length cs))"
proof -
  obtain kr sr where n: "n = Node (map Live ks @ kr) (cs @ sr) (length ks)" and l: "length cs = Suc (length ks)"
    using assms by (rule node_repE)
  have "node_count n = Suc (ptrs_count (cs @ sr) (length cs))" unfolding n node_count.simps l ..
  then show ?thesis by (simp add: ptrs_count_append)
qed

section \<open>Copies\<close>

lemma copy_pairs_loop:
  assumes "m \<le> length ks" "length new = 2 * t - 1" "length ks \<le> 2 * t - 1"
  shows "for_loop (\<lambda>i new_kv. do { x \<leftarrow> slot_read (map Live ks @ kr) i; construct new_kv i x }) [0..<m] new =
    Some (map Live (take m ks) @ drop m new)"
  using assms
proof (induction m)
  case (Suc m)
  then have l: "length (map Live (take m ks)) = m" by simp
  have "drop m new = new ! m # drop (Suc m) new" using Suc.prems by (simp add: Cons_nth_drop_Suc)
  moreover have "slot_read (map Live ks @ kr) m = Some (ks ! m)"
    using Suc.prems by (simp add: slot_read_def nth_append)
  moreover have "take (Suc m) ks = take m ks @ [ks ! m]" using Suc.prems by (simp add: take_Suc_conv_app_nth)
  ultimately show ?case
    using Suc arr_set_at [OF l, of "new ! m" "drop (Suc m) new" "Live (ks ! m)"]
    by (simp add: for_loop_append construct_def)
qed simp

text \<open>
  \<open>copies t h cs ds\<close>: the pointers \<open>ds\<close> own copies of what \<open>cs\<close> owns.
\<close>

definition copies :: "nat \<Rightarrow> nat \<Rightarrow> ('k, 'v) common_node option list \<Rightarrow> ('k, 'v) common_node option list \<Rightarrow> bool" where
  "copies t h cs ds \<longleftrightarrow> length ds = length cs \<and> (\<forall>d \<in> set ds. ptr_ok t h d) \<and> map inorder_ptr ds = map inorder_ptr cs"

lemma copies_Cons: "copies t h (c # cs) (d # ds) \<longleftrightarrow> ptr_ok t h d \<and> inorder_ptr d = inorder_ptr c \<and> copies t h cs ds"
  by (auto simp: copies_def)

lemma copy_ptrs_beyond: "copy_ptrs t mem (cs @ sr) (length cs) = copy_ptrs t mem cs (length cs)"
proof (induction cs arbitrary: mem)
  case Nil
  then show ?case by (cases sr) simp_all
next
  case (Cons c cs)
  then show ?case by (cases c) (auto split: prod.splits sum.splits)
qed

lemma copy_node_step:
  assumes n: "node_rep t n ks cs" and mem: "0 < mem"
    and cs: "copy_ptrs t (mem - 1) cs (length cs) = (None, ds, mem')" and ds: "copies t h cs ds"
  shows "\<exists>n'. copy_node t mem n = (Inr n', mem') \<and> node_at t h n' ks ds \<and> inorder n' = inorder n"
proof -
  obtain kr sr where N: "n = Node (map Live ks @ kr) (cs @ sr) (length ks)" and l: "length cs = Suc (length ks)"
    "length ks + length kr = 2 * t - 1" "length cs + length sr = 2 * t" "1 \<le> t"
    using n by (rule node_repE)
  let ?new = "replicate (2 * t - 1) Raw"
  have loop: "for_loop (\<lambda>i new_kv. do { x \<leftarrow> slot_read (map Live ks @ kr) i; construct new_kv i x }) [0..<length ks] ?new =
      Some (map Live (take (length ks) ks) @ drop (length ks) ?new)"
    using l by (intro copy_pairs_loop) auto
  have "copy_ptrs t (mem - 1) (cs @ sr) (Suc (length ks)) = (None, ds, mem')"
    using cs copy_ptrs_beyond [of t "mem - 1" cs sr] by (simp add: l(1))
  moreover have "\<not> 2 * t \<le> length ks" using l by linarith
  ultimately have copied: "copy_node t mem n = (Inr (Node (map Live ks @ drop (length ks) ?new)
      (ds @ drop (Suc (length ks)) (replicate (2 * t) None)) (length ks)), mem')"
    using mem loop by (simp add: N create_node_def)
  have r: "node_rep t (Node (map Live ks @ drop (length ks) ?new)
      (ds @ drop (Suc (length ks)) (replicate (2 * t) None)) (length ks)) ks ds"
    using l ds
    by (intro node_repI [where krest = "drop (length ks) ?new"
          and srest = "drop (Suc (length ks)) (replicate (2 * t) None)"]) (auto simp: copies_def)
  then have "node_at t h (Node (map Live ks @ drop (length ks) ?new)
      (ds @ drop (Suc (length ks)) (replicate (2 * t) None)) (length ks)) ks ds"
    using ds unfolding node_at_def copies_def by blast
  moreover have "inorder (Node (map Live ks @ drop (length ks) ?new)
      (ds @ drop (Suc (length ks)) (replicate (2 * t) None)) (length ks)) = inorder n"
    using ds by (simp only: inorder_rep [OF r] inorder_rep [OF n] copies_def)
  ultimately show ?thesis using copied by blast
qed

lemma copy_ptrs_leaf: "\<forall>c \<in> set cs. c = None \<Longrightarrow> copy_ptrs t mem cs (length cs) = (None, cs, mem) \<and> ptrs_count cs (length cs) = 0"
  by (induction cs) auto

lemma copy_node_fails_step:
  assumes n: "node_rep t n ks cs" and mem: "0 < mem"
    and cs: "copy_ptrs t (mem - 1) cs (length cs) = (Some e, ds, mem')"
    and ds: "length ds = length cs" "mem' + ptrs_count ds (length ds) = mem - 1"
  shows "copy_node t mem n = (Inl e, mem)"
proof -
  obtain kr sr where N: "n = Node (map Live ks @ kr) (cs @ sr) (length ks)" and l: "length cs = Suc (length ks)"
    "length cs + length sr = 2 * t"
    using n by (rule node_repE)
  have "copy_ptrs t (mem - 1) (cs @ sr) (Suc (length ks)) = (Some e, ds, mem')"
    using cs copy_ptrs_beyond [of t "mem - 1" cs sr] by (simp add: l(1))
  moreover have "\<not> 2 * t \<le> length ks" using l by linarith
  moreover have "ptrs_count (ds @ xs) (Suc (length ks)) = ptrs_count ds (length ds)" for xs
    using ptrs_count_append [of ds xs] ds(1) l(1) by simp
  ultimately show ?thesis
    using mem ds(2) by (simp add: N create_node_def clear_count del: clear_node.simps)
qed

lemma ptrs_count_replicate [simp]: "ptrs_count (replicate n None) k = 0"
proof (induction n arbitrary: k)
  case (Suc n)
  then show ?case by (cases k) simp_all
qed simp

text \<open>All copies are made, or the allocator runs dry and everything is given back.\<close>

lemma copy_node_correct:
  fixes n :: "('k, 'v) common_node"
  assumes "wf_node t h n"
  shows "if node_count n \<le> mem
    then \<exists>n'. copy_node t mem n = (Inr n', mem - node_count n) \<and> wf_node t h n' \<and>
      virtual_size n' = virtual_size n \<and> inorder n' = inorder n \<and> node_count n' = node_count n
    else copy_node t mem n = (Inl Bad_alloc, mem)"
  using assms
proof (induction h arbitrary: n mem)
  case 0
  then obtain ks cs where n: "node_at t 0 n ks cs" by (auto simp: wf_node_iff)
  then have r: "node_rep t n ks cs" and c: "\<forall>c \<in> set cs. c = None" by (simp_all add: node_at_def)
  have cnt: "node_count n = 1" using node_count_rep [OF r] copy_ptrs_leaf [OF c, of t 0] by simp
  show ?case
  proof (cases "mem = 0")
    case True
    then show ?thesis using cnt by (cases n) (simp add: create_node_def)
  next
    case False
    have "copies t 0 cs cs" using c by (simp add: copies_def)
    then obtain n' where n': "copy_node t mem n = (Inr n', mem - 1)" "node_at t 0 n' ks cs" "inorder n' = inorder n"
      using copy_node_step [OF r, of mem cs "mem - 1" 0] False copy_ptrs_leaf [OF c, of t "mem - 1"] by auto
    have r': "node_rep t n' ks cs" using n'(2) by (simp add: node_at_def)
    have "node_count n' = 1" using node_count_rep [OF r'] copy_ptrs_leaf [OF c, of t 0] by simp
    then show ?thesis
      using n' wf_nodeI [OF n'(2)] False cnt node_rep_vs [OF r] node_rep_vs [OF r'] by auto
  qed
next
  case (Suc h)
  then obtain ks cs where n: "node_at t (Suc h) n ks cs" by (auto simp: wf_node_iff)
  then have r: "node_rep t n ks cs" and ok: "\<forall>c \<in> set cs. wf_child t h c" by (simp_all add: node_at_def)
  have cnt: "node_count n = Suc (ptrs_count cs (length cs))" using node_count_rep [OF r] .
  have ptrs: "if ptrs_count ps (length ps) \<le> m
      then \<exists>ds. copy_ptrs t m ps (length ps) = (None, ds, m - ptrs_count ps (length ps)) \<and>
        copies t (Suc h) ps ds \<and> ptrs_count ds (length ds) = ptrs_count ps (length ps)
      else \<exists>ds m'. copy_ptrs t m ps (length ps) = (Some Bad_alloc, ds, m') \<and> length ds = length ps \<and>
        m' + ptrs_count ds (length ds) = m" if "\<forall>c \<in> set ps. wf_child t h c" for ps :: "('k, 'v) common_node option list" and m
    using that
  proof (induction ps arbitrary: m)
    case Nil
    then show ?case by (simp add: copies_def)
  next
    case (Cons p ps)
    then obtain c where c: "p = Some c" "wf_node t h c" "t - 1 \<le> virtual_size c" by (auto simp: wf_child_def)
    note one = Suc.IH [OF c(2), of m]
    note rest = Cons.IH [of "m - node_count c"]
    show ?case
    proof (cases "node_count c \<le> m")
      case True
      then obtain d where d: "copy_node t m c = (Inr d, m - node_count c)" "wf_node t h d"
          "virtual_size d = virtual_size c" "inorder d = inorder c" "node_count d = node_count c"
        using one by auto
      then have w: "wf_child t h (Some d)" using c(3) by (simp add: wf_child_def)
      show ?thesis
      proof (cases "ptrs_count ps (length ps) \<le> m - node_count c")
        case True
        then obtain ds where "copy_ptrs t (m - node_count c) ps (length ps) =
            (None, ds, m - node_count c - ptrs_count ps (length ps))" "copies t (Suc h) ps ds"
            "ptrs_count ds (length ds) = ptrs_count ps (length ps)"
          using rest Cons.prems by auto
        moreover have "node_count c + ptrs_count ps (length ps) \<le> m" using True \<open>node_count c \<le> m\<close> by simp
        ultimately show ?thesis using d w by (simp add: c(1) copies_Cons)
      next
        case False
        then obtain ds m' where "copy_ptrs t (m - node_count c) ps (length ps) = (Some Bad_alloc, ds, m')"
            "length ds = length ps" "m' + ptrs_count ds (length ds) = m - node_count c"
          using rest Cons.prems by auto
        moreover have "\<not> node_count c + ptrs_count ps (length ps) \<le> m" using False by simp
        ultimately show ?thesis using \<open>node_count c \<le> m\<close> d by (simp add: c(1))
      qed
    next
      case False
      then have "copy_node t m c = (Inl Bad_alloc, m)" using one by simp
      then have "copy_ptrs t m (p # ps) (length (p # ps)) = (Some Bad_alloc, replicate (Suc (length ps)) None, m)"
        by (simp add: c(1))
      then show ?thesis
        using False by (auto simp: c(1) simp del: replicate_Suc)
    qed
  qed
  show ?case
  proof (cases "mem = 0")
    case True
    then show ?thesis using cnt by (cases n) (simp add: create_node_def)
  next
    case False
    note P = ptrs [OF ok, of "mem - 1"]
    show ?thesis
    proof (cases "ptrs_count cs (length cs) \<le> mem - 1")
      case True
      then obtain ds where ds: "copy_ptrs t (mem - 1) cs (length cs) = (None, ds, mem - 1 - ptrs_count cs (length cs))"
          "copies t (Suc h) cs ds" "ptrs_count ds (length ds) = ptrs_count cs (length cs)"
        using P by auto
      obtain n' where n': "copy_node t mem n = (Inr n', mem - 1 - ptrs_count cs (length cs))"
          "node_at t (Suc h) n' ks ds" "inorder n' = inorder n"
        using copy_node_step [OF r _ ds(1,2)] False by auto
      have r': "node_rep t n' ks ds" using n'(2) by (simp add: node_at_def)
      have "node_count n' = node_count n" using node_count_rep [OF r'] ds(3) cnt by simp
      then show ?thesis
        using n' wf_nodeI [OF n'(2)] False True cnt node_rep_vs [OF r] node_rep_vs [OF r'] by auto
    next
      case F: False
      then obtain ds m' where "copy_ptrs t (mem - 1) cs (length cs) = (Some Bad_alloc, ds, m')"
          "length ds = length cs" "m' + ptrs_count ds (length ds) = mem - 1"
        using P by auto
      then have "copy_node t mem n = (Inl Bad_alloc, mem)"
        using copy_node_fails_step [OF r] False by simp
      then show ?thesis using F cnt by simp
    qed
  qed
qed

lemma copy_root_correct:
  assumes "tree_ok t root" "(case root of None \<Rightarrow> 0 | Some n \<Rightarrow> node_count n) \<le> mem"
  shows "\<exists>root'. copy_root t mem root = (Inr root', mem - (case root of None \<Rightarrow> 0 | Some n \<Rightarrow> node_count n)) \<and>
    tree_ok t root' \<and> inorder_ptr root' = inorder_ptr root \<and>
    (case root' of None \<Rightarrow> 0 | Some n \<Rightarrow> node_count n) = (case root of None \<Rightarrow> 0 | Some n \<Rightarrow> node_count n)"
proof (cases root)
  case None
  then show ?thesis by (simp add: copy_root_def tree_ok_def)
next
  case (Some n)
  obtain h where h: "wf_node t h n" "1 \<le> virtual_size n" "sorted_keys (inorder n)"
    using assms(1) unfolding Some by (rule tree_ok_SomeE)
  obtain n' where n': "copy_node t mem n = (Inr n', mem - node_count n)" "wf_node t h n'"
      "virtual_size n' = virtual_size n" "inorder n' = inorder n" "node_count n' = node_count n"
    using copy_node_correct [OF h(1), of mem] assms(2) Some by auto
  then show ?thesis using h tree_okI [OF n'(2)] Some by (simp add: copy_root_def)
qed

lemma bt_copy_construct_correct:
  assumes "bt_ok other" "bt_nodes other \<le> bt_memory other"
  shows "\<exists>tr. bt_copy_construct other = Inr tr \<and> bt_ok tr \<and> bt_t tr = bt_t other \<and>
    bt_keys_comparer tr = bt_keys_comparer other \<and> bt_entries tr = bt_entries other \<and>
    bt_nodes tr = bt_nodes other \<and> bt_memory tr = bt_memory other - bt_nodes other"
  using assms copy_root_correct [of "bt_t other" "bt_root other" "bt_memory other"]
  by (auto simp: bt_ok_def bt_nodes_def bt_copy_construct_def bt_entries_def)

lemma bt_copy_construct_no_memory:
  assumes "bt_ok other" "bt_memory other < bt_nodes other"
  shows "bt_copy_construct other = Inl Bad_alloc"
proof -
  obtain n where n: "bt_root other = Some n" using assms(2) by (cases "bt_root other") (auto simp: bt_nodes_def)
  obtain h where h: "wf_node (bt_t other) h n" using assms(1) by (auto simp: bt_ok_def n elim: tree_ok_SomeE)
  show ?thesis
    using copy_node_correct [OF h, of "bt_memory other"] assms(2)
    by (simp add: bt_copy_construct_def copy_root_def n bt_nodes_def)
qed

lemma bt_copy_assign_correct:
  assumes "bt_ok other" "bt_t this = bt_t other" "bt_nodes other \<le> bt_memory this + bt_nodes this"
  shows "\<exists>tr. bt_copy_assign this other = (Inr (), tr) \<and> bt_ok tr \<and>
    bt_keys_comparer tr = bt_keys_comparer other \<and> bt_entries tr = bt_entries other \<and>
    bt_memory tr + bt_nodes tr = bt_memory this + bt_nodes this"
  using assms copy_root_correct [of "bt_t other" "bt_root other" "bt_memory this + bt_nodes this"]
  by (auto simp: bt_ok_def bt_nodes_def bt_copy_assign_def bt_entries_def clear_root_count Let_def)

end
