(* ===== verification/Iterators.thy ===== *)
theory Iterators
  imports B_Tree
begin

text \<open>
  The iterators of \<open>b_tree.h\<close> and the range query built on them. An iterator is the stack of nodes
  and positions of the code, top first; the empty stack is the end. A position of the top entry
  is the index of the current pair; below the top, position \<open>p\<close> says that the subtree \<open>p + 1\<close> is
  being visited. Node pointers are compared by the node they point to. The range query's loop
  has fuel; its bound is the number of entries, and running out would be the result \<open>None\<close>.
\<close>

type_synonym ('k, 'v) iter = "(('k, 'v) common_node \<times> int) list"

section \<open>Access by signed positions\<close>

definition arr_get_int :: "'a list \<Rightarrow> int \<Rightarrow> 'a option" where
  "arr_get_int xs i = (if i < 0 then None else arr_get xs (nat i))"

lemma size_subtree_int: "arr_get_int (subtrees n) i = Some (Some c) \<Longrightarrow> size c < size n"
  by (auto simp: arr_get_int_def size_subtree split: if_splits)

section \<open>The forward iterators\<close>

text \<open>The descent to the leftmost leaf: the constructor and part of \<open>operator++\<close>.\<close>

function push_leftmost :: "('k, 'v) common_node \<Rightarrow> ('k, 'v) iter \<Rightarrow> ('k, 'v) iter option" where
  "push_leftmost n st =
     Option.bind (arr_get (subtrees n) 0) (\<lambda>ptr.
       case ptr of
         None \<Rightarrow> Some ((n, 0) # st)
       | Some c \<Rightarrow> push_leftmost c ((n, -1) # st))"
  by pat_completeness auto
termination
  by (relation "measure (\<lambda>(n, st). size n)") (auto simp: size_subtree)

declare push_leftmost.simps [simp del]

definition infix_iterator_new :: "('k, 'v) common_node option \<Rightarrow> ('k, 'v) iter option" where
  "infix_iterator_new node = (case node of None \<Rightarrow> Some [] | Some n \<Rightarrow> push_leftmost n [])"

definition infix_iterator_eq :: "('k, 'v) iter \<Rightarrow> ('k, 'v) iter \<Rightarrow> bool" where
  "infix_iterator_eq st other =
     (if st = [] \<and> other = [] then True
      else if (st = []) \<noteq> (other = []) then False
      else hd st = hd other)"

definition infix_iterator_neq :: "('k, 'v) iter \<Rightarrow> ('k, 'v) iter \<Rightarrow> bool" where
  "infix_iterator_neq st other = (\<not> infix_iterator_eq st other)"

text \<open>The pops at the end of \<open>operator++\<close>, and the increment after them.\<close>

fun pop_finished :: "('k, 'v) iter \<Rightarrow> ('k, 'v) iter" where
  "pop_finished [] = []"
| "pop_finished ((n, p) # st) = (if p + 1 = int (virtual_size n) then pop_finished st else (n, p + 1) # st)"

fun infix_iterator_next :: "('k, 'v) iter \<Rightarrow> ('k, 'v) iter option" where
  "infix_iterator_next [] = Some []"
| "infix_iterator_next ((n, p) # st) = do {
     first \<leftarrow> arr_get (subtrees n) 0;
     if first \<noteq> None then do {
       ptr \<leftarrow> arr_get_int (subtrees n) (p + 1);
       c \<leftarrow> ptr;
       push_leftmost c ((n, p) # st)
     }
     else if p + 1 < int (virtual_size n) then Some ((n, p + 1) # st)
     else Some (pop_finished ((n, p) # st))
   }"

text \<open>\<open>operator*\<close>: the depth, the position, the key and the value.\<close>

definition infix_iterator_deref :: "('k, 'v) iter \<Rightarrow> 'k tree_exn + (nat \<times> nat \<times> 'k \<times> 'v)" where
  "infix_iterator_deref st =
     (case st of
        [] \<Rightarrow> Inl (Logic_error ''attempt to dereference invalid or end iterator'')
      | (n, p) # st' \<Rightarrow> or_ub (
          if p < 0 then None
          else do { x \<leftarrow> slot_read (keys_and_values n) (nat p); Some (length st', nat p, x) }))"

text \<open>The constant iterators have the same code; they can also be made from a stack.\<close>

definition infix_const_iterator_new :: "('k, 'v) common_node option \<Rightarrow> ('k, 'v) iter option" where
  "infix_const_iterator_new node = (case node of None \<Rightarrow> Some [] | Some n \<Rightarrow> push_leftmost n [])"

definition infix_const_iterator_of :: "('k, 'v) iter \<Rightarrow> ('k, 'v) iter" where
  "infix_const_iterator_of path = path"

definition infix_const_iterator_eq :: "('k, 'v) iter \<Rightarrow> ('k, 'v) iter \<Rightarrow> bool" where
  "infix_const_iterator_eq st other =
     (if st = [] \<and> other = [] then True
      else if (st = []) \<noteq> (other = []) then False
      else hd st = hd other)"

definition infix_const_iterator_neq :: "('k, 'v) iter \<Rightarrow> ('k, 'v) iter \<Rightarrow> bool" where
  "infix_const_iterator_neq st other = (\<not> infix_const_iterator_eq st other)"

definition infix_const_iterator_next :: "('k, 'v) iter \<Rightarrow> ('k, 'v) iter option" where
  "infix_const_iterator_next st =
     (case st of
        [] \<Rightarrow> Some []
      | (n, p) # st' \<Rightarrow> do {
          first \<leftarrow> arr_get (subtrees n) 0;
          if first \<noteq> None then do {
            ptr \<leftarrow> arr_get_int (subtrees n) (p + 1);
            c \<leftarrow> ptr;
            push_leftmost c st
          }
          else if p + 1 < int (virtual_size n) then Some ((n, p + 1) # st')
          else Some (pop_finished st)
        })"

definition infix_const_iterator_deref :: "('k, 'v) iter \<Rightarrow> 'k tree_exn + (nat \<times> nat \<times> 'k \<times> 'v)" where
  "infix_const_iterator_deref st =
     (case st of
        [] \<Rightarrow> Inl (Logic_error ''attempt to dereference invalid or end iterator'')
      | (n, p) # st' \<Rightarrow> or_ub (
          if p < 0 then None
          else do { x \<leftarrow> slot_read (keys_and_values n) (nat p); Some (length st', nat p, x) }))"

section \<open>The reverse iterators\<close>

text \<open>The constructor's descent, and the one of \<open>operator++\<close>, which pushes \<open>virtual_size + extra\<close>.\<close>

function push_rightmost ::
  "int \<Rightarrow> ('k, 'v) common_node \<Rightarrow> ('k, 'v) iter \<Rightarrow> ('k, 'v) iter option" where
  "push_rightmost extra n st =
     Option.bind (arr_get (subtrees n) (virtual_size n)) (\<lambda>ptr.
       case ptr of
         None \<Rightarrow> Some ((n, int (virtual_size n) - 1) # st)
       | Some c \<Rightarrow> push_rightmost extra c ((n, int (virtual_size n) + extra) # st))"
  by pat_completeness auto
termination
  by (relation "measure (\<lambda>(extra, n, st). size n)") (auto simp: size_subtree)

declare push_rightmost.simps [simp del]

definition infix_reverse_iterator_new :: "('k, 'v) common_node option \<Rightarrow> ('k, 'v) iter option" where
  "infix_reverse_iterator_new node = (case node of None \<Rightarrow> Some [] | Some n \<Rightarrow> push_rightmost (-1) n [])"

definition infix_reverse_iterator_eq :: "('k, 'v) iter \<Rightarrow> ('k, 'v) iter \<Rightarrow> bool" where
  "infix_reverse_iterator_eq st other =
     (if st = [] \<and> other = [] then True
      else if (st = []) \<noteq> (other = []) then False
      else hd st = hd other)"

definition infix_reverse_iterator_neq :: "('k, 'v) iter \<Rightarrow> ('k, 'v) iter \<Rightarrow> bool" where
  "infix_reverse_iterator_neq st other = (\<not> infix_reverse_iterator_eq st other)"

text \<open>
  The step: down into the subtree at the current position, or one position back in a leaf, or up
  one level. The decrement after the pop is commented out in the code.
\<close>

fun infix_reverse_iterator_next :: "('k, 'v) iter \<Rightarrow> ('k, 'v) iter option" where
  "infix_reverse_iterator_next [] = Some []"
| "infix_reverse_iterator_next ((n, p) # st) = do {
     last_ptr \<leftarrow> arr_get (subtrees n) (virtual_size n);
     if last_ptr \<noteq> None then do {
       ptr \<leftarrow> arr_get_int (subtrees n) p;
       c \<leftarrow> ptr;
       push_rightmost 1 c ((n, p) # st)
     }
     else if 0 < p then Some ((n, p - 1) # st)
     else if p = 0 then Some st
     else Some ((n, p) # st)
   }"

definition infix_reverse_iterator_deref :: "('k, 'v) iter \<Rightarrow> 'k tree_exn + (nat \<times> nat \<times> 'k \<times> 'v)" where
  "infix_reverse_iterator_deref st =
     (case st of
        [] \<Rightarrow> Inl (Logic_error ''attempt to dereference invalid or end iterator'')
      | (n, p) # st' \<Rightarrow> or_ub (
          if p < 0 then None
          else do { x \<leftarrow> slot_read (keys_and_values n) (nat p); Some (length st', nat p, x) }))"

definition infix_const_reverse_iterator_new :: "('k, 'v) common_node option \<Rightarrow> ('k, 'v) iter option" where
  "infix_const_reverse_iterator_new node = (case node of None \<Rightarrow> Some [] | Some n \<Rightarrow> push_rightmost (-1) n [])"

definition infix_const_reverse_iterator_of :: "('k, 'v) iter \<Rightarrow> ('k, 'v) iter" where
  "infix_const_reverse_iterator_of path = path"

definition infix_const_reverse_iterator_eq :: "('k, 'v) iter \<Rightarrow> ('k, 'v) iter \<Rightarrow> bool" where
  "infix_const_reverse_iterator_eq st other =
     (if st = [] \<and> other = [] then True
      else if (st = []) \<noteq> (other = []) then False
      else hd st = hd other)"

definition infix_const_reverse_iterator_neq :: "('k, 'v) iter \<Rightarrow> ('k, 'v) iter \<Rightarrow> bool" where
  "infix_const_reverse_iterator_neq st other = (\<not> infix_const_reverse_iterator_eq st other)"

text \<open>The constant variant pushes \<open>virtual_size\<close> on its way down.\<close>

fun infix_const_reverse_iterator_next :: "('k, 'v) iter \<Rightarrow> ('k, 'v) iter option" where
  "infix_const_reverse_iterator_next [] = Some []"
| "infix_const_reverse_iterator_next ((n, p) # st) = do {
     last_ptr \<leftarrow> arr_get (subtrees n) (virtual_size n);
     if last_ptr \<noteq> None then do {
       ptr \<leftarrow> arr_get_int (subtrees n) p;
       c \<leftarrow> ptr;
       push_rightmost 0 c ((n, p) # st)
     }
     else if 0 < p then Some ((n, p - 1) # st)
     else if p = 0 then Some st
     else Some ((n, p) # st)
   }"

definition infix_const_reverse_iterator_deref :: "('k, 'v) iter \<Rightarrow> 'k tree_exn + (nat \<times> nat \<times> 'k \<times> 'v)" where
  "infix_const_reverse_iterator_deref st =
     (case st of
        [] \<Rightarrow> Inl (Logic_error ''attempt to dereference invalid or end iterator'')
      | (n, p) # st' \<Rightarrow> or_ub (
          if p < 0 then None
          else do { x \<leftarrow> slot_read (keys_and_values n) (nat p); Some (length st', nat p, x) }))"

section \<open>Requests for iterators\<close>

definition begin_infix :: "('k, 'v) b_tree \<Rightarrow> ('k, 'v) iter option" where
  "begin_infix tr = infix_iterator_new (bt_root tr)"

definition end_infix :: "('k, 'v) b_tree \<Rightarrow> ('k, 'v) iter option" where
  "end_infix tr = infix_iterator_new None"

definition cbegin_infix :: "('k, 'v) b_tree \<Rightarrow> ('k, 'v) iter option" where
  "cbegin_infix tr = infix_const_iterator_new (bt_root tr)"

definition cend_infix :: "('k, 'v) b_tree \<Rightarrow> ('k, 'v) iter option" where
  "cend_infix tr = infix_const_iterator_new None"

definition rbegin_infix :: "('k, 'v) b_tree \<Rightarrow> ('k, 'v) iter option" where
  "rbegin_infix tr = infix_reverse_iterator_new (bt_root tr)"

definition rend_infix :: "('k, 'v) b_tree \<Rightarrow> ('k, 'v) iter option" where
  "rend_infix tr = infix_reverse_iterator_new None"

definition crbegin_infix :: "('k, 'v) b_tree \<Rightarrow> ('k, 'v) iter option" where
  "crbegin_infix tr = infix_const_reverse_iterator_new (bt_root tr)"

definition crend_infix :: "('k, 'v) b_tree \<Rightarrow> ('k, 'v) iter option" where
  "crend_infix tr = infix_const_reverse_iterator_new None"

section \<open>The range query\<close>

text \<open>The search loop of \<open>obtain_between\<close> builds the iterator's stack.\<close>

function between_path ::
  "('k \<Rightarrow> 'k \<Rightarrow> int) \<Rightarrow> 'k \<Rightarrow> ('k, 'v) common_node \<Rightarrow> ('k, 'v) iter \<Rightarrow> ('k, 'v) iter option" where
  "between_path cmp lower_bound n path = do {
     index \<leftarrow> node_find_path cmp n lower_bound 0 (virtual_size n - 1);
     if 0 \<le> index then Some ((n, index) # path)
     else Option.bind (arr_get (subtrees n) (sub_index index)) (\<lambda>ptr.
       case ptr of
         None \<Rightarrow> Some ((n, - index - 2) # path)
       | Some c \<Rightarrow> between_path cmp lower_bound c ((n, - index - 2) # path))
   }"
  by pat_completeness auto
termination
  by (relation "measure (\<lambda>(cmp, key, n, path). size n)") (auto simp: size_subtree)

declare between_path.simps [simp del]

text \<open>The collecting loop; \<open>None\<close> is the exhausted fuel.\<close>

fun between_loop ::
  "nat \<Rightarrow> ('k \<Rightarrow> bool) \<Rightarrow> ('k, 'v) iter \<Rightarrow> ('k \<times> 'v) list \<Rightarrow> ('k tree_exn + ('k \<times> 'v) list) option" where
  "between_loop 0 below st found = None"
| "between_loop (Suc fuel) below st found =
     (if infix_const_iterator_neq st [] then
        (case infix_const_iterator_deref st of
           Inl e \<Rightarrow> Some (Inl e)
         | Inr (_, _, k, v) \<Rightarrow>
             if below k then
               (case infix_const_iterator_next st of
                  None \<Rightarrow> Some (Inl Undefined_behaviour)
                | Some st' \<Rightarrow> between_loop fuel below st' (found @ [(k, v)]))
             else Some (Inr found))
      else Some (Inr found))"

definition bt_obtain_between ::
  "('k, 'v) b_tree \<Rightarrow> 'k \<Rightarrow> 'k \<Rightarrow> bool \<Rightarrow> bool \<Rightarrow> ('k tree_exn + ('k \<times> 'v) list) option" where
  "bt_obtain_between tr lower_bound upper_bound lower_bound_inclusive upper_bound_inclusive =
     (case bt_root tr of
        None \<Rightarrow> Some (Inl Undefined_behaviour) \<comment> \<open>\<open>path.top()\<close> of an empty stack\<close>
      | Some root \<Rightarrow>
          (case between_path (bt_keys_comparer tr) lower_bound root [] of
             Some ((n, p) # path) \<Rightarrow>
               (let pos = (if p = -1 then 0 else p);
                    st = infix_const_iterator_of ((n, pos) # path) in
                case slot_read (keys_and_values n) (nat pos) of
                  None \<Rightarrow> Some (Inl Undefined_behaviour)
                | Some (found_key, _) \<Rightarrow>
                    (case (if bt_keys_comparer tr found_key lower_bound < (if lower_bound_inclusive then 0 else 1)
                           then infix_const_iterator_next st else Some st) of
                       None \<Rightarrow> Some (Inl Undefined_behaviour)
                     | Some st' \<Rightarrow>
                         between_loop (Suc (length (inorder root)))
                           (\<lambda>k. bt_keys_comparer tr k upper_bound < (if upper_bound_inclusive then 1 else 0))
                           st' []))
           | _ \<Rightarrow> Some (Inl Undefined_behaviour)))"

end
