(* ===== verification/Iteration.thy ===== *)
theory Iteration
  imports Iterators Dispose_Correct
begin

text \<open>
  A forward iterator visits the entries of the tree in order and ends; the range query returns
  exactly the entries between its bounds. The last entry is where a reverse iterator starts, but
  from there it goes right only in a tree of one node.
\<close>

section \<open>What a forward iterator has still to visit\<close>

text \<open>A stack below its top is a path that is being returned along.\<close>

definition to_path :: "('k, 'v) iter \<Rightarrow> ('k, 'v) path" where
  "to_path st = map (\<lambda>(n, p). (Some n, - p - 2)) st"

lemma to_path_simps [simp]:
  "to_path [] = []" "to_path ((n, p) # st) = (Some n, - p - 2) # to_path st"
  "to_path st = [] \<longleftrightarrow> st = []"
  by (simp_all add: to_path_def)

definition iter_ok :: "nat \<Rightarrow> ('k, 'v) iter \<Rightarrow> bool" where
  "iter_ok t st \<longleftrightarrow> (case st of
      [] \<Rightarrow> True
    | (n, p) # st' \<Rightarrow> 0 \<le> p \<and> p < int (virtual_size n) \<and>
        (\<exists>h. at_focus t h (to_path st') n))"

definition iter_rest :: "('k, 'v) iter \<Rightarrow> ('k \<times> 'v) list" where
  "iter_rest st = (case st of
      [] \<Rightarrow> []
    | (n, p) # st' \<Rightarrow> woven_right (nat p) (map inorder_ptr (children n)) (pairs n) @ ctx_right (to_path st'))"

lemma iter_rest_Cons:
  assumes n: "node_at t h n ks cs" and p: "0 \<le> p" "p < int (length ks)"
  shows "iter_rest ((n, p) # st) =
    ks ! nat p # inorder_ptr (cs ! Suc (nat p)) @ woven_right (Suc (nat p)) (map inorder_ptr cs) ks @ ctx_right (to_path st)"
proof -
  have r: "node_rep t n ks cs" using n by (simp add: node_at_def)
  have l: "length (map inorder_ptr cs) = Suc (length ks)" "nat p < length ks"
    using node_rep_length [OF r] p by simp_all
  then have "map inorder_ptr cs ! Suc (nat p) = inorder_ptr (cs ! Suc (nat p))" by simp
  then show ?thesis
    by (simp add: iter_rest_def pairs_rep [OF r] children_rep [OF r] woven_right_Suc [OF l])
qed

lemma iter_rest_Nil_iff:
  assumes "iter_ok t st"
  shows "iter_rest st = [] \<longleftrightarrow> st = []"
proof (cases st)
  case (Cons e st')
  obtain n p h where e: "e = (n, p)" "0 \<le> p" "p < int (virtual_size n)" "wf_node t h n"
    using assms Cons by (cases e) (auto simp: iter_ok_def at_focus_def)
  obtain ks cs where n: "node_at t h n ks cs" using e(4) by (auto simp: wf_node_iff)
  then show ?thesis
    using iter_rest_Cons [OF n e(2)] e(3) node_rep_vs [OF node_at_rep [OF n]] by (simp add: Cons e(1))
qed (simp add: iter_rest_def)

lemma infix_iterator_deref_correct:
  assumes "iter_ok t st" "st \<noteq> []"
  shows "\<exists>d i. infix_iterator_deref st = Inr (d, i, hd (iter_rest st))"
proof -
  obtain n p st' h where st: "st = (n, p) # st'" "0 \<le> p" "p < int (virtual_size n)" "wf_node t h n"
    using assms by (cases st) (auto simp: iter_ok_def at_focus_def)
  obtain ks cs where n: "node_at t h n ks cs" using st(4) by (auto simp: wf_node_iff)
  have v: "virtual_size n = length ks" using node_rep_vs [OF node_at_rep [OF n]] .
  have "slot_read (keys_and_values n) (nat p) = Some (ks ! nat p)"
    using node_rep_slot_read [OF node_at_rep [OF n], of "nat p"] st(2,3) v by simp
  moreover have "hd (iter_rest st) = ks ! nat p"
    using iter_rest_Cons [OF n st(2)] st(1,3) v by simp
  ultimately show ?thesis using st(1,2) by (simp add: infix_iterator_deref_def)
qed

text \<open>The descent puts the whole subtree before what the stack has still to visit.\<close>

lemma push_leftmost_correct:
  assumes "wf_node t h n" "1 \<le> virtual_size n" "st \<noteq> [] \<Longrightarrow> t - 1 \<le> virtual_size n"
    and "ctx_ok t h (to_path st)" "2 \<le> t"
  shows "\<exists>st'. push_leftmost n st = Some st' \<and> iter_ok t st' \<and> st' \<noteq> [] \<and>
    iter_rest st' = inorder n @ ctx_right (to_path st)"
  using assms
proof (induction h arbitrary: n st)
  case 0
  then obtain ks cs where n: "node_at t 0 n ks cs" by (auto simp: wf_node_iff)
  then have r: "node_rep t n ks cs" by (simp add: node_at_def)
  have c: "cs ! 0 = None" using node_at_ptr [OF n, of 0] by simp
  have "arr_get (subtrees n) 0 = Some None" using node_rep_arr_get [OF r, of 0] c by simp
  then have "push_leftmost n st = Some ((n, 0) # st)" by (subst push_leftmost.simps) simp
  moreover have "iter_ok t ((n, 0) # st)" using 0 by (auto simp: iter_ok_def at_focus_def)
  moreover have "inorder n = woven_right 0 (map inorder_ptr cs) ks"
    using inorder_at [OF r, of 0] c by (simp add: woven_left_def)
  then have "iter_rest ((n, 0) # st) = inorder n @ ctx_right (to_path st)"
    by (simp add: iter_rest_def pairs_rep [OF r] children_rep [OF r])
  ultimately show ?case by blast
next
  case (Suc h)
  obtain ks cs where n: "node_at t (Suc h) n ks cs" using Suc.prems(1) by (auto simp: wf_node_iff)
  then have r: "node_rep t n ks cs" by (simp add: node_at_def)
  obtain c where c: "cs ! 0 = Some c" "wf_node t h c" "t - 1 \<le> virtual_size c"
    using node_at_ptr [OF n, of 0] by (auto simp: wf_child_def)
  have "arr_get (subtrees n) 0 = Some (Some c)" using node_rep_arr_get [OF r, of 0] c by simp
  then have step: "push_leftmost n st = push_leftmost c ((n, -1) # st)"
    by (subst push_leftmost.simps) simp
  have ctx: "ctx_ok t h (to_path ((n, -1) # st))" using Suc.prems by simp
  have c': "1 \<le> virtual_size c" using c(3) Suc.prems(5) by simp
  obtain st' where st': "push_leftmost c ((n, -1) # st) = Some st'" "iter_ok t st'" "st' \<noteq> []"
      "iter_rest st' = inorder c @ ctx_right (to_path ((n, -1) # st))"
    using Suc.IH [OF c(2) c' c(3) ctx Suc.prems(5)] by blast
  have "inorder n = inorder c @ woven_right 0 (map inorder_ptr cs) ks"
    using inorder_at [OF r, of 0] c(1) by (simp add: woven_left_def)
  then show ?case using st' step by (simp add: pairs_rep [OF r] children_rep [OF r])
qed

lemma pop_finished_correct:
  "ctx_ok t h (to_path st) \<Longrightarrow>
   iter_ok t (pop_finished st) \<and> iter_rest (pop_finished st) = ctx_right (to_path st)"
proof (induction st arbitrary: h)
  case Nil
  then show ?case by (simp add: iter_ok_def iter_rest_def)
next
  case (Cons e st)
  obtain n p where e: "e = (n, p)" by fastforce
  from Cons.prems have n: "- p - 2 < 0" "sub_index (- p - 2) \<le> virtual_size n" "wf_node t (Suc h) n"
      "ctx_ok t (Suc h) (to_path st)" "at_focus t (Suc h) (to_path st) n"
    by (simp_all add: e at_focus_def)
  have si: "sub_index (- p - 2) = nat (p + 1)" "0 \<le> p + 1" using n(1) by simp_all
  obtain ks cs where k: "virtual_size n = length ks" "pairs n = ks"
    using n(3) by (rule wf_node_SucE)
  show ?case
  proof (cases "p + 1 = int (virtual_size n)")
    case True
    then have "nat (p + 1) = length ks" using k(1) by simp
    then show ?thesis
      using Cons.IH [OF n(4)] True si(1) by (simp add: e k(2) woven_right_def)
  next
    case False
    then have "p + 1 < int (virtual_size n)" using n(2) si by simp
    then show ?thesis using False n si by (auto simp: e iter_ok_def iter_rest_def)
  qed
qed

text \<open>One step drops the head of what is to be visited.\<close>

lemma infix_iterator_next_correct:
  assumes ok: "iter_ok t st" and t: "2 \<le> t"
  shows "\<exists>st'. infix_iterator_next st = Some st' \<and> iter_ok t st' \<and> iter_rest st' = tl (iter_rest st)"
proof (cases st)
  case Nil
  then show ?thesis by (simp add: iter_ok_def iter_rest_def)
next
  case (Cons e st')
  obtain n p h where e: "e = (n, p)" "0 \<le> p" "p < int (virtual_size n)" "wf_node t h n" "ctx_ok t h (to_path st')"
      "at_focus t h (to_path st') n"
    using ok Cons by (cases e) (auto simp: iter_ok_def at_focus_def)
  obtain ks cs where n: "node_at t h n ks cs" using e(4) by (auto simp: wf_node_iff)
  then have r: "node_rep t n ks cs" by (simp add: node_at_def)
  have v: "virtual_size n = length ks" using node_rep_vs [OF r] .
  have p: "nat p < length ks" "nat (p + 1) = Suc (nat p)" using e(2,3) v by simp_all
  have rest: "tl (iter_rest st) = inorder_ptr (cs ! Suc (nat p)) @
      woven_right (Suc (nat p)) (map inorder_ptr cs) ks @ ctx_right (to_path st')"
    using iter_rest_Cons [OF n e(2)] e(3) v by (simp add: Cons e(1))
  show ?thesis
  proof (cases h)
    case 0
    have "cs ! 0 = None" "cs ! Suc (nat p) = None"
      using node_at_ptr [OF n, of 0] node_at_ptr [OF n, of "Suc (nat p)"] p 0 by simp_all
    then have g: "arr_get (subtrees n) 0 = Some None" and z: "inorder_ptr (cs ! Suc (nat p)) = []"
      using node_rep_arr_get [OF r, of 0] by simp_all
    show ?thesis
    proof (cases "p + 1 < int (virtual_size n)")
      case True
      then have "infix_iterator_next st = Some ((n, p + 1) # st')" using g by (simp add: Cons e(1))
      moreover have "iter_ok t ((n, p + 1) # st')" using True e by (auto simp: iter_ok_def)
      moreover have "iter_rest ((n, p + 1) # st') = tl (iter_rest st)"
        unfolding rest z using p(2) by (simp add: iter_rest_def pairs_rep [OF r] children_rep [OF r])
      ultimately show ?thesis by blast
    next
      case False
      then have end': "p + 1 = int (virtual_size n)" "Suc (nat p) = length ks" using e(3) v p by simp_all
      then have "infix_iterator_next st = Some (pop_finished st')" using g by (simp add: Cons e(1))
      then show ?thesis
        using pop_finished_correct [OF e(5)] end'(2) unfolding rest z by (simp add: woven_right_def)
    qed
  next
    case (Suc h')
    obtain c where c: "cs ! Suc (nat p) = Some c" "wf_node t h' c" "t - 1 \<le> virtual_size c"
      using node_at_ptr [OF n, of "Suc (nat p)"] p Suc by (auto simp: wf_child_def)
    obtain c0 where "cs ! 0 = Some c0"
      using node_at_ptr [OF n, of 0] Suc by (auto simp: wf_child_def)
    then have g: "arr_get (subtrees n) 0 = Some (Some c0)" using node_rep_arr_get [OF r, of 0] by simp
    have g': "arr_get_int (subtrees n) (p + 1) = Some (Some c)"
      using node_rep_arr_get [OF r, of "Suc (nat p)"] p c(1) e(2) by (simp add: arr_get_int_def)
    have step: "infix_iterator_next st = push_leftmost c ((n, p) # st')"
      using g g' by (simp add: Cons e(1))
    have ctx: "ctx_ok t h' (to_path ((n, p) # st'))"
      using e(2,3,6) Suc by (auto simp: at_focus_def)
    have c': "1 \<le> virtual_size c" using c(3) t by simp
    obtain st2 where st2: "push_leftmost c ((n, p) # st') = Some st2" "iter_ok t st2"
        "iter_rest st2 = inorder c @ ctx_right (to_path ((n, p) # st'))"
      using push_leftmost_correct [OF c(2) c' c(3) ctx t] by blast
    have "sub_index (- p - 2) = Suc (nat p)" using e(2) by simp
    then have "iter_rest st2 = tl (iter_rest st)"
      unfolding rest st2(3) by (simp add: c(1) pairs_rep [OF r] children_rep [OF r])
    then show ?thesis using step st2(1,2) by simp
  qed
qed

text \<open>The constant iterator is the same machine.\<close>

lemma const_iterator_next: "infix_const_iterator_next st = infix_iterator_next st"
proof (cases st)
  case (Cons e st')
  then show ?thesis by (cases e) (simp add: infix_const_iterator_next_def)
qed (simp add: infix_const_iterator_next_def)

lemma const_iterator_deref: "infix_const_iterator_deref st = infix_iterator_deref st"
  by (simp only: infix_const_iterator_deref_def infix_iterator_deref_def)

lemma const_iterator_neq_end: "infix_const_iterator_neq st [] \<longleftrightarrow> st \<noteq> []"
  by (simp add: infix_const_iterator_neq_def infix_const_iterator_eq_def)

lemmas const_iterator_same = const_iterator_next const_iterator_deref const_iterator_neq_end

lemma begin_infix_correct:
  assumes "bt_ok tr"
  shows "\<exists>st. begin_infix tr = Some st \<and> iter_ok (bt_t tr) st \<and> iter_rest st = bt_entries tr"
proof (cases "bt_root tr")
  case None
  then show ?thesis
    by (simp add: begin_infix_def infix_iterator_new_def iter_ok_def iter_rest_def bt_entries_def)
next
  case (Some n)
  have t: "2 \<le> bt_t tr" and ok: "tree_ok (bt_t tr) (Some n)" using assms Some by (simp_all add: bt_ok_def)
  obtain h where h: "wf_node (bt_t tr) h n" "1 \<le> virtual_size n" using ok by (rule tree_ok_SomeE)
  have "ctx_ok (bt_t tr) h (to_path [])" by simp
  from push_leftmost_correct [OF h _ this t] show ?thesis
    by (auto simp: begin_infix_def infix_iterator_new_def Some bt_entries_def)
qed

text \<open>
  A whole traversal, \<open>for (it = begin; it != end; ++it)\<close>, with the visited pairs.
\<close>

fun traverse :: "nat \<Rightarrow> ('k, 'v) iter \<Rightarrow> ('k \<times> 'v) list option" where
  "traverse 0 st = (if infix_iterator_neq st [] then None else Some [])"
| "traverse (Suc fuel) st =
     (if infix_iterator_neq st [] then
        (case (infix_iterator_deref st, infix_iterator_next st) of
           (Inr (_, _, p), Some st') \<Rightarrow> map_option (\<lambda>ps. p # ps) (traverse fuel st')
         | _ \<Rightarrow> None)
      else Some [])"

lemma infix_iterator_neq_end: "infix_iterator_neq st [] \<longleftrightarrow> st \<noteq> []"
  by (simp add: infix_iterator_neq_def infix_iterator_eq_def)

lemma traverse_correct:
  assumes "iter_ok t st" "2 \<le> t" "length (iter_rest st) \<le> fuel"
  shows "traverse fuel st = Some (iter_rest st)"
  using assms
proof (induction fuel arbitrary: st)
  case 0
  then have "st = []" using iter_rest_Nil_iff by fastforce
  then show ?case by (simp add: infix_iterator_neq_end iter_rest_def)
next
  case (Suc fuel)
  show ?case
  proof (cases "st = []")
    case True
    then show ?thesis by (simp add: infix_iterator_neq_end iter_rest_def)
  next
    case False
    then have ne: "iter_rest st \<noteq> []" using iter_rest_Nil_iff [OF Suc.prems(1)] by simp
    obtain d i where d: "infix_iterator_deref st = Inr (d, i, hd (iter_rest st))"
      using infix_iterator_deref_correct [OF Suc.prems(1) False] by blast
    obtain st' where st': "infix_iterator_next st = Some st'" "iter_ok t st'" "iter_rest st' = tl (iter_rest st)"
      using infix_iterator_next_correct [OF Suc.prems(1,2)] by blast
    have "traverse fuel st' = Some (iter_rest st')"
      using Suc.prems(2,3) st'(3) by (intro Suc.IH [OF st'(2)]) auto
    then show ?thesis using False d st'(1,3) ne by (simp add: infix_iterator_neq_end prod.case_eq_if)
  qed
qed

section \<open>The range query\<close>

definition back_entry :: "('k, 'v) common_node option \<times> int \<Rightarrow> ('k, 'v) common_node \<times> int" where
  "back_entry e = (the (fst e), if 0 \<le> snd e then snd e else - snd e - 2)"

lemma back_entry_simp: "back_entry (Some n, i) = (n, if 0 \<le> i then i else - i - 2)"
  by (simp add: back_entry_def)

lemma back_to_path: "\<forall>(n, p) \<in> set st. -1 \<le> p \<Longrightarrow> map back_entry (to_path st) = st"
  by (induction st) (auto simp: back_entry_def)

lemma to_path_back: "ctx_ok t h path \<Longrightarrow> to_path (map back_entry path) = path"
  by (induction path arbitrary: h) (auto simp: back_entry_def)

lemma between_path_eq:
  "\<forall>(n, p) \<in> set st. -1 \<le> p \<Longrightarrow>
   between_path cmp key n st = map_option (map back_entry) (find_path_from cmp key n (to_path st))"
proof (induction cmp key n st rule: between_path.induct)
  case (1 cmp key n st)
  note IH = 1(1) and pos = 1(2)
  show ?case
  proof (cases "node_find_path cmp n key 0 (virtual_size n - 1)")
    case None
    then show ?thesis by (simp add: between_path.simps [of cmp key n] find_path_from.simps [of cmp key n])
  next
    case (Some index)
    show ?thesis
    proof (cases "0 \<le> index")
      case True
      then show ?thesis using Some back_to_path [OF pos]
        by (simp add: between_path.simps [of cmp key n] find_path_from.simps [of cmp key n] Let_def back_entry_simp)
    next
      case False
      have pos': "\<forall>(n, p) \<in> set ((n, - index - 2) # st). -1 \<le> p" using pos False by auto
      have IH': "between_path cmp key c ((n, - index - 2) # st) =
          map_option (map back_entry) (find_path_from cmp key c (to_path ((n, - index - 2) # st)))"
        if "arr_get (subtrees n) (sub_index index) = Some (Some c)" for c
        using IH [OF Some False that refl pos'] .
      then show ?thesis using Some False back_to_path [OF pos]
        by (cases "arr_get (subtrees n) (sub_index index)")
          (auto simp: between_path.simps [of cmp key n] find_path_from.simps [of cmp key n] Let_def
            back_entry_simp split: option.splits)
    qed
  qed
qed

lemma between_loop_correct:
  assumes "iter_ok t st" "2 \<le> t" "length (iter_rest st) < fuel"
  shows "between_loop fuel below st found = Some (Inr (found @ takeWhile (\<lambda>p. below (fst p)) (iter_rest st)))"
  using assms
proof (induction fuel arbitrary: st found)
  case (Suc fuel)
  show ?case
  proof (cases "st = []")
    case True
    then show ?thesis by (simp add: const_iterator_same iter_rest_def)
  next
    case False
    then have ne: "iter_rest st \<noteq> []" using iter_rest_Nil_iff [OF Suc.prems(1)] by simp
    then obtain k v ps where ps: "iter_rest st = (k, v) # ps" by (cases "iter_rest st") auto
    obtain d i where d: "infix_iterator_deref st = Inr (d, i, hd (iter_rest st))"
      using infix_iterator_deref_correct [OF Suc.prems(1) False] by blast
    obtain st' where st': "infix_iterator_next st = Some st'" "iter_ok t st'" "iter_rest st' = ps"
      using infix_iterator_next_correct [OF Suc.prems(1,2)] ps by auto
    have "between_loop fuel below st' (found @ [(k, v)]) =
        Some (Inr ((found @ [(k, v)]) @ takeWhile (\<lambda>p. below (fst p)) (iter_rest st')))"
      using Suc.prems(2,3) st'(3) ps by (intro Suc.IH [OF st'(2)]) auto
    then show ?thesis using False d st'(1,3) ps by (simp add: const_iterator_same)
  qed
qed simp

text \<open>Bounds on a sorted list: the part from the lower bound on, and the part before the upper.\<close>

lemma takeWhile_sorted:
  assumes "sorted_keys xs" "\<And>k k'. k < k' \<Longrightarrow> P k' \<Longrightarrow> P k"
  shows "takeWhile (\<lambda>p. P (fst p)) xs = filter (\<lambda>p. P (fst p)) xs"
  using assms(1)
proof (induction xs)
  case (Cons x xs)
  then have "\<forall>p \<in> set xs. fst x < fst p" by auto
  then have "\<not> P (fst x) \<Longrightarrow> filter (\<lambda>p. P (fst p)) xs = []" using assms(2) by (auto simp: filter_empty_conv)
  then show ?case using Cons by simp
qed simp

definition above_lower :: "bool \<Rightarrow> 'k::linorder \<Rightarrow> 'k \<Rightarrow> bool" where
  "above_lower inclusive lo k = (if inclusive then lo \<le> k else lo < k)"

definition below_upper :: "bool \<Rightarrow> 'k::linorder \<Rightarrow> 'k \<Rightarrow> bool" where
  "below_upper inclusive hi k = (if inclusive then k \<le> hi else k < hi)"

lemma filter_above:
  assumes "\<forall>p \<in> set A. fst p < lo" "\<forall>p \<in> set B. lo < fst p"
  shows "filter (\<lambda>p. above_lower i lo (fst p)) (A @ B) = B"
    "filter (\<lambda>p. above_lower i lo (fst p)) (A @ (lo, v) # B) = (if i then (lo, v) # B else B)"
proof -
  have "filter (\<lambda>p. above_lower i lo (fst p)) A = []" "filter (\<lambda>p. above_lower i lo (fst p)) B = B"
    using assms by (force simp: above_lower_def filter_empty_conv filter_id_conv)+
  then show "filter (\<lambda>p. above_lower i lo (fst p)) (A @ B) = B"
      "filter (\<lambda>p. above_lower i lo (fst p)) (A @ (lo, v) # B) = (if i then (lo, v) # B else B)"
    by (cases i; simp add: above_lower_def)+
qed

text \<open>Where the search loop leaves the iterator.\<close>

definition start_pos :: "('k::linorder \<times> 'v) list \<Rightarrow> 'k \<Rightarrow> nat" where
  "start_pos ks lo =
     (if 0 \<le> search_result ks lo then key_rank ks lo else key_rank ks lo - 1)"

context key_order
begin

lemma between_start:
  assumes k: "key_at lo t h path m" and n: "node_at t h m ks cs" and h: "search_result ks lo < 0 \<longrightarrow> h = 0"
    and t: "2 \<le> t"
  defines "st \<equiv> (m, int (start_pos ks lo)) # map back_entry path"
  shows "iter_ok t st" "slot_read (keys_and_values m) (start_pos ks lo) = Some (ks ! start_pos ks lo)"
    "\<exists>st'. (if cmp (fst (ks ! start_pos ks lo)) lo < (if i then 0 else 1) then infix_const_iterator_next st else Some st)
       = Some st' \<and> iter_ok t st' \<and> iter_rest st' = filter (\<lambda>p. above_lower i lo (fst p)) (zip_content path m)"
proof -
  have r: "node_rep t m ks cs" using n by (simp add: node_at_def)
  have v: "virtual_size m = length ks" using node_rep_vs [OF r] .
  have foc: "at_focus t h path m" using k by (simp add: key_at_def)
  have ctx: "to_path (map back_entry path) = path" using foc by (auto simp: at_focus_def intro: to_path_back)
  have ks: "1 \<le> length ks" using foc v by (simp add: at_focus_def)
  have pos: "start_pos ks lo < length ks"
    using ks key_rank_le [of ks lo] search_result_found(1,3) [of ks lo] by (auto simp: start_pos_def)
  show ok: "iter_ok t st"
    using pos v foc by (auto simp: st_def iter_ok_def ctx)
  show "slot_read (keys_and_values m) (start_pos ks lo) = Some (ks ! start_pos ks lo)"
    using r pos by (rule node_rep_slot_read)
  have rest: "iter_rest st = ks ! start_pos ks lo # inorder_ptr (cs ! Suc (start_pos ks lo)) @
      woven_right (Suc (start_pos ks lo)) (map inorder_ptr cs) ks @ ctx_right path"
    using iter_rest_Cons [OF n, of "int (start_pos ks lo)" "map back_entry path"] pos by (simp add: st_def ctx)
  obtain st2 where st2: "infix_const_iterator_next st = Some st2" "iter_ok t st2" "iter_rest st2 = tl (iter_rest st)"
    using infix_iterator_next_correct [OF ok t] by (auto simp: const_iterator_next)
  show "\<exists>st'. (if cmp (fst (ks ! start_pos ks lo)) lo < (if i then 0 else 1) then infix_const_iterator_next st else Some st)
       = Some st' \<and> iter_ok t st' \<and> iter_rest st' = filter (\<lambda>p. above_lower i lo (fst p)) (zip_content path m)"
  proof (cases "0 \<le> search_result ks lo")
    case True
    note kp = key_at_present [OF k n True]
    have s: "start_pos ks lo = key_rank ks lo" using True by (simp add: start_pos_def)
    have x: "ks ! key_rank ks lo = (lo, snd (ks ! key_rank ks lo))" using kp(5) by (cases "ks ! key_rank ks lo") simp
    have rest': "iter_rest st = (lo, snd (ks ! key_rank ks lo)) # after_key lo path ks cs"
      unfolding rest s using x by (simp add: after_key_def)
    have f: "filter (\<lambda>p. above_lower i lo (fst p)) (zip_content path m) =
        (if i then iter_rest st else tl (iter_rest st))"
      using filter_above(2) [OF kp(2,3), of i "snd (ks ! key_rank ks lo)"] x kp(1) by (simp add: rest')
    have "cmp (fst (ks ! start_pos ks lo)) lo = 0" using kp(5) s by (simp add: cmp_eq)
    then show ?thesis using st2 ok f by (cases i) simp_all
  next
    case False
    then have nf: "search_result ks lo < 0" and h0: "h = 0" using h by simp_all
    note ka = key_at_absent [OF k [unfolded h0] n [unfolded h0] nf]
    let ?j = "key_rank ks lo" and ?cs = "map inorder_ptr cs"
    have f: "filter (\<lambda>p. above_lower i lo (fst p)) (zip_content path m) = woven_right ?j ?cs ks @ ctx_right path"
      unfolding ka(1) by (rule filter_above(1) [OF ka(2,3)])
    have c: "cs ! j = None" if "j \<le> length ks" for j using node_at_ptr [OF n that] h0 by simp
    have l: "length ?cs = Suc (length ks)" using node_rep_length [OF r] by simp
    show ?thesis
    proof (cases ?j)
      case 0
      then have s: "start_pos ks lo = 0" using False by (simp add: start_pos_def)
      have "ks \<noteq> []" using ks by auto
      then have "lo < fst (ks ! 0)" using search_result_not_found(2) [OF nf] 0 by simp
      then have "0 < cmp (fst (ks ! 0)) lo" by (simp add: cmp_simps)
      moreover have "iter_rest st = woven_right ?j ?cs ks @ ctx_right path"
        using rest woven_right_Suc [OF l, of 0] l \<open>ks \<noteq> []\<close> by (simp add: s 0)
      ultimately show ?thesis using ok f by (auto simp: s)
    next
      case (Suc j)
      then have s: "start_pos ks lo = j" using False by (simp add: start_pos_def)
      have j: "Suc j \<le> length ks" using key_rank_le [of ks lo] Suc by simp
      have "fst (ks ! j) < lo" using Suc by (intro key_rank_less) simp
      then have "cmp (fst (ks ! j)) lo < 0" by (simp add: cmp_simps)
      moreover have "tl (iter_rest st) = woven_right ?j ?cs ks @ ctx_right path"
        unfolding rest using c [OF j] by (simp add: s Suc)
      ultimately show ?thesis using st2 f by (simp add: s)
    qed
  qed
qed

lemma bt_obtain_between_correct:
  assumes tr: "bt_ok tr" "bt_keys_comparer tr = cmp" and root: "bt_root tr \<noteq> None"
  shows "bt_obtain_between tr lo hi li ui = Some (Inr (filter (\<lambda>p. above_lower li lo (fst p) \<and> below_upper ui hi (fst p))
    (bt_entries tr)))"
proof -
  obtain n where n: "bt_root tr = Some n" using root by blast
  have t: "2 \<le> bt_t tr" and ok: "tree_ok (bt_t tr) (Some n)" using tr n by (simp_all add: bt_ok_def)
  obtain m h path ks cs where fp: "find_path cmp (Some n) lo = Some ((Some m, search_result ks lo) # path)"
      and m: "node_at (bt_t tr) h m ks cs" "key_at lo (bt_t tr) h path m" "zip_content path m = inorder n"
      and h: "search_result ks lo < 0 \<longrightarrow> h = 0"
    using ok t by (rule find_path_treeE [where key = lo]) blast
  note start = between_start [OF m(2,1) h t]
  let ?p = "if 0 \<le> search_result ks lo then search_result ks lo else - search_result ks lo - 2"
  have bp: "between_path cmp lo n [] = Some ((m, ?p) # map back_entry path)"
    using between_path_eq [of "[]" cmp lo n] fp by (simp add: find_path_def back_entry_def)
  have p: "(if ?p = -1 then 0 else ?p) = int (start_pos ks lo)"
    using search_result_found(3) [of ks lo] search_result_not_found(1) [of ks lo]
    by (auto simp: start_pos_def)
  let ?st = "(m, int (start_pos ks lo)) # map back_entry path"
  obtain st' where st': "(if cmp (fst (ks ! start_pos ks lo)) lo < (if li then 0 else 1)
        then infix_const_iterator_next ?st else Some ?st) = Some st'" "iter_ok (bt_t tr) st'"
      "iter_rest st' = filter (\<lambda>p. above_lower li lo (fst p)) (inorder n)"
    using start(3) [of li] m(3) by auto
  have so: "sorted_keys (inorder n)" using ok by (auto elim: tree_ok_SomeE)
  then have "sorted_keys (iter_rest st')" by (simp add: st'(3) sorted_wrt_map sorted_wrt_filter)
  then have "takeWhile (\<lambda>p. cmp (fst p) hi < (if ui then 1 else 0)) (iter_rest st') =
      filter (\<lambda>p. cmp (fst p) hi < (if ui then 1 else 0)) (iter_rest st')"
  proof (rule takeWhile_sorted)
    fix k k' assume "k < k'" "cmp k' hi < (if ui then 1 else 0)"
    then show "cmp k hi < (if ui then 1 else 0)"
      using cmp_less [of k' hi] cmp_eq [of k' hi] cmp_less [of k hi] by (auto split: if_splits)
  qed
  moreover have "cmp k hi < (if ui then 1 else 0) \<longleftrightarrow> below_upper ui hi k" for k
    using cmp_less [of k hi] cmp_eq [of k hi] cmp_greater [of k hi] by (auto simp: below_upper_def)
  ultimately have tw: "takeWhile (\<lambda>p. cmp (fst p) hi < (if ui then 1 else 0)) (iter_rest st') =
      filter (\<lambda>p. above_lower li lo (fst p) \<and> below_upper ui hi (fst p)) (inorder n)"
    by (simp add: st'(3) conj_commute)
  have "length (iter_rest st') < Suc (length (inorder n))" by (simp add: st'(3) less_Suc_eq_le)
  note loop = between_loop_correct [OF st'(2) t this, of "\<lambda>k. cmp k hi < (if ui then 1 else 0)" "[]"]
  obtain k0 v0 where k0: "ks ! start_pos ks lo = (k0, v0)" by fastforce
  note st1 = st'(1) [unfolded k0 fst_conv] and read = start(2) [unfolded k0]
  show ?thesis
    by (simp only: bt_obtain_between_def n tr(2) bp option.case list.case prod.case Let_def p nat_int
        infix_const_iterator_of_def read st1 loop tw append_Nil bt_entries_def inorder_ptr.simps)
qed

end

lemma bt_obtain_between_empty: "bt_root tr = None \<Longrightarrow> bt_obtain_between tr lo hi li ui = Some (Inl Undefined_behaviour)"
  by (simp add: bt_obtain_between_def)

section \<open>The reverse iterators\<close>

lemma push_rightmost_correct:
  assumes "wf_node t h n" "1 \<le> virtual_size n" "2 \<le> t"
  shows "\<exists>m ks cs anc. push_rightmost e n st = Some ((m, int (length ks) - 1) # anc @ st) \<and>
    node_at t 0 m ks cs \<and> ks \<noteq> [] \<and> inorder n \<noteq> [] \<and> last (inorder n) = last ks"
  using assms
proof (induction h arbitrary: n st)
  case 0
  then obtain ks cs where n: "node_at t 0 n ks cs" by (auto simp: wf_node_iff)
  then have r: "node_rep t n ks cs" by (simp add: node_at_def)
  have v: "virtual_size n = length ks" using node_rep_vs [OF r] .
  have "arr_get (subtrees n) (length ks) = Some None"
    using node_rep_arr_get [OF r, of "length ks"] node_at_ptr [OF n, of "length ks"] by simp
  then have "push_rightmost e n st = Some ((n, int (length ks) - 1) # [] @ st)"
    by (subst push_rightmost.simps) (simp add: v)
  moreover have "ks \<noteq> []" using 0(2) v by auto
  ultimately show ?case using n leaf_content [OF n] by blast
next
  case (Suc h)
  then obtain ks cs where n: "node_at t (Suc h) n ks cs" by (auto simp: wf_node_iff)
  then have r: "node_rep t n ks cs" by (simp add: node_at_def)
  have v: "virtual_size n = length ks" using node_rep_vs [OF r] .
  obtain c where c: "cs ! length ks = Some c" "wf_node t h c" "t - 1 \<le> virtual_size c"
    using node_at_ptr [OF n, of "length ks"] by (auto simp: wf_child_def)
  have "arr_get (subtrees n) (length ks) = Some (Some c)"
    using node_rep_arr_get [OF r, of "length ks"] c(1) by simp
  then have step: "push_rightmost e n st = push_rightmost e c ((n, int (length ks) + e) # st)"
    by (subst push_rightmost.simps) (simp add: v)
  have c': "1 \<le> virtual_size c" using c(3) Suc.prems(3) by simp
  obtain m lks lcs anc where m: "push_rightmost e c ((n, int (length ks) + e) # st) =
        Some ((m, int (length lks) - 1) # anc @ (n, int (length ks) + e) # st)"
      "node_at t 0 m lks lcs" "lks \<noteq> []" "inorder c \<noteq> []" "last (inorder c) = last lks"
    using Suc.IH [OF c(2) c' Suc.prems(3)] by blast
  have "inorder n = woven_left (length ks) (map inorder_ptr cs) ks @ inorder c"
    using inorder_at [OF r, of "length ks"] c(1) by (simp add: woven_right_def)
  then show ?case
    using m step by (intro exI [of _ m] exI [of _ lks] exI [of _ lcs] exI [of _ "anc @ [(n, int (length ks) + e)]"]) simp
qed

lemma rbegin_infix_correct:
  assumes "bt_ok tr" "bt_root tr \<noteq> None"
  shows "\<exists>st d i. rbegin_infix tr = Some st \<and> infix_reverse_iterator_deref st = Inr (d, i, last (bt_entries tr))"
proof -
  obtain n where n: "bt_root tr = Some n" using assms(2) by blast
  have t: "2 \<le> bt_t tr" and ok: "tree_ok (bt_t tr) (Some n)" using assms n by (simp_all add: bt_ok_def)
  obtain h where h: "wf_node (bt_t tr) h n" "1 \<le> virtual_size n" using ok by (rule tree_ok_SomeE)
  obtain m ks cs anc where m: "push_rightmost (-1) n [] = Some ((m, int (length ks) - 1) # anc @ [])"
      "node_at (bt_t tr) 0 m ks cs" "ks \<noteq> []" "last (inorder n) = last ks"
    using push_rightmost_correct [OF h t, of "-1" "[]"] by blast
  have "slot_read (keys_and_values m) (length ks - 1) = Some (last ks)"
    using node_rep_slot_read [OF node_at_rep [OF m(2)], of "length ks - 1"] m(3) by (simp add: last_conv_nth)
  moreover have "nat (int (length ks) - 1) = length ks - 1" by simp
  ultimately show ?thesis
    using m(1,3,4) by (cases ks)
      (simp_all add: rbegin_infix_def infix_reverse_iterator_new_def n infix_reverse_iterator_deref_def bt_entries_def)
qed

text \<open>\<open>k\<close> steps of a reverse iterator.\<close>

fun reverse_steps :: "nat \<Rightarrow> ('k, 'v) iter \<Rightarrow> ('k, 'v) iter option" where
  "reverse_steps 0 st = Some st"
| "reverse_steps (Suc k) st = Option.bind (infix_reverse_iterator_next st) (reverse_steps k)"

lemma push_rightmost_suffix: "push_rightmost e n st = Some st' \<Longrightarrow> \<exists>e es. st' = e # es @ st"
proof (induction e n st rule: push_rightmost.induct)
  case (1 e n st)
  from 1(2) show ?case
    by (subst (asm) push_rightmost.simps)
      (auto simp: Option.bind_eq_Some_conv split: option.splits dest!: 1(1))
qed

lemma reverse_next_keeps_root:
  assumes root: "arr_get (subtrees n) (virtual_size n) = Some (Some c)"
    and st: "st \<noteq> []" "fst (last st) = n" and step: "infix_reverse_iterator_next st = Some st'"
  shows "st' \<noteq> [] \<and> fst (last st') = n"
proof -
  obtain m p rest where e: "st = (m, p) # rest" using st(1) by (cases st) auto
  obtain last_ptr where l: "arr_get (subtrees m) (virtual_size m) = Some last_ptr"
    using step by (auto simp: e Option.bind_eq_Some_conv)
  show ?thesis
  proof (cases last_ptr)
    case None
    then have "rest \<noteq> []" using root st(2) l by (auto simp: e)
    then show ?thesis using step st(2) l None by (auto simp: e split: if_splits)
  next
    case (Some d)
    then obtain c' where "push_rightmost 1 c' ((m, p) # rest) = Some st'"
      using step l by (auto simp: e Option.bind_eq_Some_conv)
    then show ?thesis using push_rightmost_suffix st(2) e by fastforce
  qed
qed

lemma reverse_steps_keep_root:
  assumes "arr_get (subtrees n) (virtual_size n) = Some (Some c)"
    and "st \<noteq> []" "fst (last st) = n" "reverse_steps k st = Some st'"
  shows "st' \<noteq> []"
  using assms(2-)
proof (induction k arbitrary: st)
  case (Suc k)
  then obtain st1 where s: "infix_reverse_iterator_next st = Some st1" "reverse_steps k st1 = Some st'"
    by (auto simp: Option.bind_eq_Some_conv)
  then show ?case using Suc.IH reverse_next_keeps_root [OF assms(1) Suc.prems(1,2) s(1)] by blast
qed simp

lemma reverse_never_ends:
  assumes "rbegin_infix tr = Some st" "bt_root tr = Some n"
    and "arr_get (subtrees n) (virtual_size n) = Some (Some c)" "reverse_steps k st = Some st'"
  shows "st' \<noteq> []"
proof -
  have p: "push_rightmost (-1) n [] = Some st"
    using assms(1,2) by (simp add: rbegin_infix_def infix_reverse_iterator_new_def)
  then have "push_rightmost (-1) c [(n, int (virtual_size n) - 1)] = Some st"
    using assms(3) by (subst (asm) push_rightmost.simps) simp
  then have "st \<noteq> [] \<and> fst (last st) = n" using push_rightmost_suffix by fastforce
  then show ?thesis using reverse_steps_keep_root [OF assms(3)] assms(4) by blast
qed

end
