(* ===== verification/Comparers.thy ===== *)
theory Comparers
  imports Search_Tree "HOL-Library.Option_ord" "HOL-Library.List_Lexorder" "HOL-Library.Char_ord"
begin

text \<open>
  The key comparers: \<open>default_key_comparer\<close> of \<open>associative_container.h\<close> and \<open>tkey_comparer\<close> of
  \<open>tdata.cpp\<close>. A \<open>tkey\<close> is a shared pointer to a string: \<open>None\<close> for the null pointer. Each comparer
  that the tree can rely on is an instance of \<open>key_order\<close>.
\<close>

section \<open>The default comparers\<close>

text \<open>
  \<open>int\<close> keys are compared by their difference. \<open>default_key_comparer_int\<close> is the difference itself,
  \<open>default_key_comparer_int32\<close> the call on 32-bit operands, undefined when the difference does not
  fit.
\<close>

definition default_key_comparer_int :: "int \<Rightarrow> int \<Rightarrow> int" where
  "default_key_comparer_int first second = first - second"

definition default_key_comparer_int32 :: "int \<Rightarrow> int \<Rightarrow> int option" where
  "default_key_comparer_int32 first second =
     (let d = default_key_comparer_int first second in
      if - (2 ^ 31) \<le> d \<and> d < 2 ^ 31 then Some d else None)"

definition default_key_comparer_string :: "string \<Rightarrow> string \<Rightarrow> int" where
  "default_key_comparer_string first second =
     (if second < first then 1 else if first = second then 0 else -1)"

section \<open>The comparer of the database\<close>

type_synonym tkey = "string option"

definition tkey_comparer :: "tkey \<Rightarrow> tkey \<Rightarrow> int" where
  "tkey_comparer lhs rhs =
     (case (lhs, rhs) of
        (Some l, Some r) \<Rightarrow> if l < r then -1 else if r < l then 1 else 0
      | _ \<Rightarrow> if lhs = rhs then 0 else if lhs \<noteq> None then 1 else -1)"

definition tkey_comparer_string :: "string \<Rightarrow> string \<Rightarrow> int" where
  "tkey_comparer_string lhs rhs = (if lhs \<noteq> rhs then if lhs < rhs then -1 else 1 else 0)"

section \<open>They order the keys\<close>

interpretation int_keys: key_order default_key_comparer_int
  by unfold_locales (auto simp: default_key_comparer_int_def)

interpretation string_keys: key_order default_key_comparer_string
  by unfold_locales (auto simp: default_key_comparer_string_def)

interpretation tkeys: key_order tkey_comparer
  by unfold_locales (auto simp: tkey_comparer_def split: option.splits)

interpretation tkey_strings: key_order tkey_comparer_string
  by unfold_locales (auto simp: tkey_comparer_string_def)

lemma int32_defined:
  assumes "0 \<le> a \<longleftrightarrow> 0 \<le> b" "- (2 ^ 31) \<le> a" "a < 2 ^ 31" "- (2 ^ 31) \<le> b" "b < 2 ^ 31"
  shows "default_key_comparer_int32 a b = Some (default_key_comparer_int a b)"
  using assms by (auto simp: default_key_comparer_int32_def default_key_comparer_int_def Let_def)

end
