(* ===== verification/Container.thy ===== *)
theory Container
  imports Tree_Copy Iteration Comparers
begin

text \<open>
  The contract of \<open>associative_container\<close>: what a client may rely on, stated over the finite map that
  a container holds, with the facts that follow from it; and the proof that the B-tree keeps it,
  for every comparer that orders the keys.
\<close>

locale assoc_container =
  fixes inv :: "'c \<Rightarrow> bool" \<comment> \<open>the container's invariant\<close>
    and view :: "'c \<Rightarrow> 'k \<Rightarrow> 'v option" \<comment> \<open>the map it holds\<close>
    and fits :: "'c \<Rightarrow> bool" \<comment> \<open>the allocator can serve one insertion\<close>
    and insert_op :: "'c \<Rightarrow> 'k \<Rightarrow> 'v \<Rightarrow> ('k tree_exn + unit) \<times> 'c"
    and update_op :: "'c \<Rightarrow> 'k \<Rightarrow> 'v \<Rightarrow> ('k tree_exn + unit) \<times> 'c"
    and obtain_op :: "'c \<Rightarrow> 'k \<Rightarrow> 'k tree_exn + 'v"
  assumes insert_new: "inv c \<Longrightarrow> view c k = None \<Longrightarrow> fits c \<Longrightarrow>
      \<exists>c'. insert_op c k v = (Inr (), c') \<and> inv c' \<and> view c' = (view c)(k \<mapsto> v)"
    and insert_old: "inv c \<Longrightarrow> view c k \<noteq> None \<Longrightarrow> insert_op c k v = (Inl (Insertion_of_existent_key k), c)"
    and update_old: "inv c \<Longrightarrow> view c k \<noteq> None \<Longrightarrow>
      \<exists>c'. update_op c k v = (Inr (), c') \<and> inv c' \<and> view c' = (view c)(k \<mapsto> v)"
    and update_new: "inv c \<Longrightarrow> view c k = None \<Longrightarrow> update_op c k v = (Inl (Updating_of_nonexistent_key k), c)"
    and obtain_old: "inv c \<Longrightarrow> view c k = Some w \<Longrightarrow> obtain_op c k = Inr w"
    and obtain_new: "inv c \<Longrightarrow> view c k = None \<Longrightarrow> obtain_op c k = Inl (Obtaining_of_nonexistent_key k)"
begin

lemma obtain_eq: "inv c \<Longrightarrow> obtain_op c k =
    (case view c k of None \<Rightarrow> Inl (Obtaining_of_nonexistent_key k) | Some w \<Rightarrow> Inr w)"
  by (cases "view c k") (simp_all add: obtain_old obtain_new)

lemma obtain_after_insert:
  assumes "inv c" "insert_op c k v = (Inr (), c')" "fits c"
  shows "obtain_op c' j = (if j = k then Inr v else obtain_op c j)"
proof (cases "view c k")
  case None
  obtain d where "insert_op c k v = (Inr (), d)" "inv d" "view d = (view c)(k \<mapsto> v)"
    using insert_new [OF assms(1) None assms(3)] by blast
  then show ?thesis using assms by (simp add: obtain_eq)
next
  case (Some w)
  then show ?thesis using insert_old [OF assms(1), of k v] assms(2) by simp
qed

lemma obtain_after_update:
  assumes "inv c" "update_op c k v = (Inr (), c')"
  shows "obtain_op c' j = (if j = k then Inr v else obtain_op c j)"
proof (cases "view c k")
  case None
  then show ?thesis using update_new [OF assms(1), of k v] assms(2) by simp
next
  case (Some w)
  then obtain d where "update_op c k v = (Inr (), d)" "inv d" "view d = (view c)(k \<mapsto> v)"
    using update_old [OF assms(1), of k v] by auto
  then show ?thesis using assms by (simp add: obtain_eq)
qed

text \<open>Insertion and update never both succeed.\<close>

lemma insert_xor_update:
  assumes "inv c" "fits c"
  shows "fst (insert_op c k v) = Inr () \<longleftrightarrow> fst (update_op c k w) \<noteq> Inr ()"
proof (cases "view c k")
  case None
  then show ?thesis
    using insert_new [OF assms(1) None assms(2), of v] update_new [OF assms(1) None, of w] by auto
next
  case (Some u)
  then show ?thesis
    using insert_old [OF assms(1), of k v] update_old [OF assms(1), of k w] by auto
qed

end

text \<open>A container that can also dispose of keys, as long as \<open>room\<close> holds.\<close>

locale disposing_container = assoc_container inv view fits insert_op update_op obtain_op
  for inv :: "'c \<Rightarrow> bool" and view :: "'c \<Rightarrow> 'k \<Rightarrow> 'v option" and fits :: "'c \<Rightarrow> bool"
    and insert_op :: "'c \<Rightarrow> 'k \<Rightarrow> 'v \<Rightarrow> ('k tree_exn + unit) \<times> 'c"
    and update_op :: "'c \<Rightarrow> 'k \<Rightarrow> 'v \<Rightarrow> ('k tree_exn + unit) \<times> 'c"
    and obtain_op :: "'c \<Rightarrow> 'k \<Rightarrow> 'k tree_exn + 'v" +
  fixes room :: "'c \<Rightarrow> bool"
    and dispose_op :: "'c \<Rightarrow> 'k \<Rightarrow> ('k tree_exn + 'v) \<times> 'c"
  assumes dispose_old: "inv c \<Longrightarrow> view c k = Some w \<Longrightarrow> room c \<Longrightarrow>
      \<exists>c'. dispose_op c k = (Inr w, c') \<and> inv c' \<and> view c' = (view c)(k := None)"
    and dispose_new: "inv c \<Longrightarrow> view c k = None \<Longrightarrow>
      dispose_op c k = (Inl (Disposal_of_nonexistent_key k), c)"
begin

lemma obtain_after_dispose:
  assumes "inv c" "room c" "dispose_op c k = (Inr w, c')"
  shows "obtain_op c k = Inr w"
    and "obtain_op c' j = (if j = k then Inl (Obtaining_of_nonexistent_key k) else obtain_op c j)"
proof -
  obtain u where u: "view c k = Some u"
    using dispose_new [OF assms(1), of k] assms(3) by (cases "view c k") auto
  obtain d where d: "dispose_op c k = (Inr u, d)" "inv d" "view d = (view c)(k := None)"
    using dispose_old [OF assms(1) u assms(2)] by blast
  show "obtain_op c k = Inr w" using u d(1) assms(1,3) by (simp add: obtain_eq)
  show "obtain_op c' j = (if j = k then Inl (Obtaining_of_nonexistent_key k) else obtain_op c j)"
    using d assms by (auto simp: obtain_eq)
qed

text \<open>What was inserted last can be taken out again, and that restores the map.\<close>

lemma dispose_after_insert:
  assumes "inv c" "fits c" "insert_op c k v = (Inr (), c')" "room c'"
  shows "\<exists>c''. dispose_op c' k = (Inr v, c'') \<and> view c'' = view c"
proof -
  have n: "view c k = None" using insert_old [OF assms(1), of k v] assms(3) by (cases "view c k") auto
  obtain d where "insert_op c k v = (Inr (), d)" "inv d" "view d = (view c)(k \<mapsto> v)"
    using insert_new [OF assms(1) n assms(2)] by blast
  then show ?thesis using dispose_old [of c' k v] assms(3,4) n by (auto simp: fun_upd_idem)
qed

end

section \<open>The B-tree as a container\<close>

definition bt_view :: "('k, 'v) b_tree \<Rightarrow> 'k \<Rightarrow> 'v option" where
  "bt_view tr = map_of (bt_entries tr)"

definition bt_inv :: "('k::linorder \<Rightarrow> 'k \<Rightarrow> int) \<Rightarrow> ('k, 'v) b_tree \<Rightarrow> bool" where
  "bt_inv cmp tr \<longleftrightarrow> bt_ok tr \<and> bt_keys_comparer tr = cmp"

definition bt_fits :: "('k, 'v) b_tree \<Rightarrow> bool" where
  "bt_fits tr \<longleftrightarrow> bt_levels tr < bt_memory tr"

lemma bt_view_None: "bt_view tr k = None \<longleftrightarrow> k \<notin> fst ` set (bt_entries tr)"
  by (simp add: bt_view_def map_of_eq_None_iff)

text \<open>Every key order makes the tree a container.\<close>

sublocale key_order \<subseteq> tree: disposing_container "bt_inv cmp" bt_view bt_fits bt_insert bt_update bt_obtain
  bt_has_room bt_dispose
proof (unfold_locales, goal_cases)
  case (1 c k v)
  then show ?case
    using insert_inner_absent [of c k v]
    by (auto simp: bt_inv_def map_of_eq_None_iff bt_fits_def bt_insert_def bt_view_def map_of_upd_entries)
next
  case (2 c k v)
  then show ?case using insert_inner_existing [of c k v] by (auto simp: bt_inv_def bt_view_None bt_insert_def)
next
  case (3 c k v)
  then show ?case
    using insert_inner_update [of c k v]
    by (auto simp: bt_inv_def map_of_eq_None_iff bt_update_def bt_view_def map_of_upd_entries)
next
  case (4 c k v)
  then show ?case using insert_inner_update_missing [of c k v] by (auto simp: bt_inv_def bt_view_None bt_update_def)
next
  case (5 c k w)
  then show ?case using bt_obtain_correct [of c k] by (simp add: bt_inv_def bt_view_def)
next
  case (6 c k)
  then show ?case using bt_obtain_correct [of c k] by (simp add: bt_inv_def bt_view_def)
next
  case (7 c k w)
  then show ?case
    using bt_dispose_present [of c k w] by (auto simp: bt_inv_def bt_view_def map_of_del_entries)
next
  case (8 c k)
  then show ?case using bt_dispose_missing [of c k] by (simp add: bt_inv_def bt_view_def)
qed

end
