(* ===== verification/Tree_Properties.thy ===== *)
theory Tree_Properties
  imports Container
begin

text \<open>
  The properties of the B-tree. Each is stated for an arbitrary comparer that is a \<open>key_order\<close> and
  an arbitrary tree that satisfies the invariant \<open>bt_ok\<close>; the witnesses build concrete trees with
  the operations themselves.
\<close>

section \<open>Example trees\<close>

definition bt_insert_all :: "('k \<times> 'v) list \<Rightarrow> ('k, 'v) b_tree \<Rightarrow> ('k, 'v) b_tree" where
  "bt_insert_all kvs tr = fold (\<lambda>(k, v) tr. snd (bt_insert tr k v)) kvs tr"

definition empty_tree :: "nat \<Rightarrow> (int, int) b_tree" where
  "empty_tree mem =
     \<lparr>bt_root = None, bt_t = 2, bt_keys_comparer = default_key_comparer_int, bt_memory = mem\<rparr>"

lemma empty_tree_new: "b_tree_new 2 default_key_comparer_int mem = Inr (empty_tree mem)"
  by (simp add: b_tree_new_def empty_tree_def)

text \<open>The entries \<open>(1, 10), \<dots>, (n, 10 n)\<close>, inserted in this order.\<close>

definition tree_upto :: "int \<Rightarrow> nat \<Rightarrow> (int, int) b_tree" where
  "tree_upto n mem = bt_insert_all (map (\<lambda>i. (i, 10 * i)) [1..n]) (empty_tree mem)"

lemma comparer_of_inserts: "bt_keys_comparer (bt_insert_all kvs tr) = bt_keys_comparer tr"
proof -
  have "bt_keys_comparer (snd (bt_insert t k v)) = bt_keys_comparer t" for t :: "('a, 'b) b_tree" and k v
    by (auto simp: bt_insert_def insert_inner_def with_root_def split: option.splits list.splits prod.splits sum.splits if_splits)
  then show ?thesis by (induction kvs arbitrary: tr) (auto simp: bt_insert_all_def)
qed

lemma tree_upto_comparer [simp]: "bt_keys_comparer (tree_upto n mem) = default_key_comparer_int"
  by (simp add: tree_upto_def comparer_of_inserts empty_tree_def)

lemma tree_5:
  "bt_ok (tree_upto 5 10)" "bt_entries (tree_upto 5 10) = [(1, 10), (2, 20), (3, 30), (4, 40), (5, 50)]"
  "bt_levels (tree_upto 5 10) = 2" "bt_memory (tree_upto 5 10) = 7" "bt_has_room (tree_upto 5 10)"
  "bt_nodes (tree_upto 5 10) = 3" "bt_t (tree_upto 5 10) = 2"
  by code_simp+

lemma tree_5_root: "bt_root (tree_upto 5 10) \<noteq> None"
  by code_simp

section \<open>Searching and inserting\<close>

text \<open>
  C38. The binary search of \<open>node_find_path\<close> in a node with sorted pairs \<open>ks\<close> returns the index of the
  key when the node holds it, and otherwise \<open>- (p + 1)\<close> for the number \<open>p\<close> of smaller keys, which is
  the index of the subtree to search next; it never reads outside the used slots.
\<close>

theorem node_search_correct:
  assumes "key_order cmp" "node_rep t n ks cs" "sorted_keys ks" "ks \<noteq> []"
  shows "node_find_path cmp n key 0 (virtual_size n - 1) =
    Some (if key \<in> fst ` set ks then int (key_rank ks key) else - int (key_rank ks key) - 1)"
proof -
  have "key \<in> fst ` set ks \<longleftrightarrow> key_rank ks key < length ks \<and> fst (ks ! key_rank ks key) = key"
  proof
    assume "key \<in> fst ` set ks"
    then obtain i where i: "i < length ks" "fst (ks ! i) = key" by (auto simp: in_set_conv_nth)
    have "key_rank ks key = i"
      using i sorted_keys_nth [OF assms(3)] by (intro key_rank_eqI) auto
    then show "key_rank ks key < length ks \<and> fst (ks ! key_rank ks key) = key" using i by simp
  next
    assume "key_rank ks key < length ks \<and> fst (ks ! key_rank ks key) = key"
    then show "key \<in> fst ` set ks" by (metis image_eqI nth_mem)
  qed
  then show ?thesis
    using key_order.node_find_path_correct [OF assms] by (simp add: search_result_def Let_def)
qed

definition ex_node :: "(int, int) common_node" where
  "ex_node = Node [Live (2, 20), Live (4, 40), Raw] [None, None, None, None] 2"

lemma ex_node_rep: "node_rep 2 ex_node [(2, 20), (4, 40)] [None, None, None]"
  by (simp add: node_rep_def ex_node_def)

theorem node_search_witness:
  "node_find_path default_key_comparer_int ex_node 4 0 1 = Some 1 \<and>
   node_find_path default_key_comparer_int ex_node 3 0 1 = Some (-2)"
  using node_search_correct [OF int_keys.key_order_axioms ex_node_rep, of 4]
    node_search_correct [OF int_keys.key_order_axioms ex_node_rep, of 3]
  by (simp add: ex_node_def key_rank_def)

text \<open>
  \<open>node_split\<close> of a full node, given a pair \<open>x\<close> to put at index \<open>i\<close> and the subtree \<open>r\<close> to its
  right, produces the two halves of the extended lists around the median, and takes one node of
  memory; no access leaves the arrays.
\<close>

theorem node_split_halves:
  assumes "node_rep t n ks cs" "length ks = 2 * t - 1" "i \<le> 2 * t - 1" "0 < mem"
  shows "\<exists>left right. node_split mem n x i r = Inr (left, right, ins_at i x ks ! t, mem - 1) \<and>
    node_rep t left (take t (ins_at i x ks)) (take (Suc t) (ins_at (Suc i) r cs)) \<and>
    node_rep t right (drop (Suc t) (ins_at i x ks)) (drop (Suc t) (ins_at (Suc i) r cs))"
  using assms by (rule node_split_rep)

definition full_node :: "(int, int) common_node" where
  "full_node = Node [Live (1, 10), Live (2, 20), Live (3, 30)] [None, None, None, None] 3"

theorem node_split_halves_witness:
  "\<exists>left right. node_split 1 full_node (4, 40) 3 None = Inr (left, right, (3, 30), 0) \<and>
    node_rep 2 left [(1, 10), (2, 20)] [None, None, None] \<and> node_rep 2 right [(4, 40)] [None, None]"
  using node_split_halves [of 2 full_node "[(1, 10), (2, 20), (3, 30)]" "[None, None, None, None]" 3 1 "(4, 40)" None]
  by (simp add: node_rep_def full_node_def ins_at_def numeral_2_eq_2 numeral_3_eq_3)

text \<open>
  C1. Insertion of a key that the tree does not hold: with one free node per level and one for a
  new root, \<open>insert\<close> succeeds, the tree stays well-formed, and its entries are the old ones with
  the new pair at its place in the order.
\<close>

theorem bt_insert_absent:
  assumes "key_order cmp" "bt_ok tr" "bt_keys_comparer tr = cmp" "key \<notin> fst ` set (bt_entries tr)"
    and "bt_levels tr < bt_memory tr"
  shows "\<exists>tr'. bt_insert tr key v = (Inr (), tr') \<and> bt_ok tr' \<and> bt_t tr' = bt_t tr \<and>
    bt_keys_comparer tr' = cmp \<and> bt_entries tr' = upd_entries key v (bt_entries tr)"
  using key_order.insert_inner_absent [OF assms] by (simp add: bt_insert_def)

theorem bt_insert_absent_witness:
  "\<exists>tr'. bt_insert (tree_upto 5 10) 7 70 = (Inr (), tr') \<and> bt_ok tr' \<and> bt_t tr' = 2 \<and>
    bt_keys_comparer tr' = default_key_comparer_int \<and>
    bt_entries tr' = [(1, 10), (2, 20), (3, 30), (4, 40), (5, 50), (7, 70)]"
  using bt_insert_absent [OF int_keys.key_order_axioms tree_5(1) tree_upto_comparer, of 7 70]
  by (simp add: tree_5 upd_entries_def)

text \<open>
  Insertion of a key that the tree holds, and update of one it does not hold, throw the
  exceptions of the class with the key in them and leave the tree as it was.
\<close>

theorem bt_insert_update_errors:
  assumes "key_order cmp" "bt_ok tr" "bt_keys_comparer tr = cmp"
  shows "(key \<in> fst ` set (bt_entries tr) \<longrightarrow> bt_insert tr key v = (Inl (Insertion_of_existent_key key), tr)) \<and>
    (key \<notin> fst ` set (bt_entries tr) \<longrightarrow> bt_update tr key v = (Inl (Updating_of_nonexistent_key key), tr))"
  using key_order.insert_inner_existing [OF assms] key_order.insert_inner_update_missing [OF assms]
  by (simp add: bt_insert_def bt_update_def)

theorem bt_insert_update_errors_witness:
  "bt_insert (tree_upto 5 10) 3 0 = (Inl (Insertion_of_existent_key 3), tree_upto 5 10) \<and>
   bt_update (tree_upto 5 10) 9 0 = (Inl (Updating_of_nonexistent_key 9), tree_upto 5 10)"
  using bt_insert_update_errors [OF int_keys.key_order_axioms tree_5(1) tree_upto_comparer]
  by (simp add: tree_5(2))

text \<open>
  Update of a key that the tree holds replaces its value and nothing else, without using the
  allocator.
\<close>

theorem bt_update_present:
  assumes "key_order cmp" "bt_ok tr" "bt_keys_comparer tr = cmp" "key \<in> fst ` set (bt_entries tr)"
  shows "\<exists>tr'. bt_update tr key v = (Inr (), tr') \<and> bt_ok tr' \<and> bt_t tr' = bt_t tr \<and>
    bt_keys_comparer tr' = cmp \<and> bt_memory tr' = bt_memory tr \<and>
    bt_entries tr' = upd_entries key v (bt_entries tr)"
  using key_order.insert_inner_update [OF assms] by (simp add: bt_update_def)

theorem bt_update_present_witness:
  "\<exists>tr'. bt_update (tree_upto 5 10) 3 0 = (Inr (), tr') \<and> bt_ok tr' \<and> bt_t tr' = 2 \<and>
    bt_keys_comparer tr' = default_key_comparer_int \<and> bt_memory tr' = 7 \<and>
    bt_entries tr' = [(1, 10), (2, 20), (3, 0), (4, 40), (5, 50)]"
  using bt_update_present [OF int_keys.key_order_axioms tree_5(1) tree_upto_comparer, of 3 0]
  by (simp add: tree_5 upd_entries_def)

text \<open>
  C3. \<open>obtain\<close> finds exactly the entries: the value of a key that the tree holds, the exception for
  any other key.
\<close>

theorem bt_obtain_exact:
  assumes "key_order cmp" "bt_ok tr" "bt_keys_comparer tr = cmp"
  shows "bt_obtain tr key = (case map_of (bt_entries tr) key of
      None \<Rightarrow> Inl (Obtaining_of_nonexistent_key key) | Some v \<Rightarrow> Inr v)"
  using assms by (rule key_order.bt_obtain_correct)

theorem bt_obtain_exact_witness:
  "bt_obtain (tree_upto 5 10) 4 = Inr 40 \<and> bt_obtain (tree_upto 5 10) 6 = Inl (Obtaining_of_nonexistent_key 6)"
  using bt_obtain_exact [OF int_keys.key_order_axioms tree_5(1) tree_upto_comparer]
  by (simp add: tree_5(2))

section \<open>Disposing\<close>

text \<open>
  C2. \<open>dispose\<close> of a key that the tree holds, when no inner node is full: it returns the value, keeps
  the tree well-formed, and takes exactly this entry out, through the reduction to a leaf,
  borrowing and merging.
\<close>

theorem bt_dispose_exact:
  assumes "key_order cmp" "bt_ok tr" "bt_keys_comparer tr = cmp" "map_of (bt_entries tr) key = Some v"
    and "bt_has_room tr"
  shows "\<exists>tr'. bt_dispose tr key = (Inr v, tr') \<and> bt_ok tr' \<and> bt_t tr' = bt_t tr \<and>
    bt_keys_comparer tr' = cmp \<and> bt_entries tr' = del_entries key (bt_entries tr)"
  using assms by (rule key_order.bt_dispose_present)

theorem bt_dispose_exact_witness:
  "\<exists>tr'. bt_dispose (tree_upto 5 10) 3 = (Inr 30, tr') \<and> bt_ok tr' \<and> bt_t tr' = 2 \<and>
    bt_keys_comparer tr' = default_key_comparer_int \<and>
    bt_entries tr' = [(1, 10), (2, 20), (4, 40), (5, 50)]"
  using bt_dispose_exact [OF int_keys.key_order_axioms tree_5(1) tree_upto_comparer, of 3 30]
  by (simp add: tree_5 del_entries_def)

text \<open>
  \<open>dispose\<close> of a key that the tree does not hold throws and leaves the tree as it was.\<close>

theorem bt_dispose_error:
  assumes "key_order cmp" "bt_ok tr" "bt_keys_comparer tr = cmp" "map_of (bt_entries tr) key = None"
  shows "bt_dispose tr key = (Inl (Disposal_of_nonexistent_key key), tr)"
  using assms by (rule key_order.bt_dispose_missing)

theorem bt_dispose_error_witness:
  "bt_dispose (tree_upto 5 10) 6 = (Inl (Disposal_of_nonexistent_key 6), tree_upto 5 10)"
  using bt_dispose_error [OF int_keys.key_order_axioms tree_5(1) tree_upto_comparer, of 6]
  by (simp add: tree_5(2))

text \<open>
  The condition on full inner nodes is needed: merging two children of a full node swaps with
  the slot behind the last one, outside the array, whatever the node holds.
\<close>

theorem node_merge_overrun:
  assumes "node_rep t p ks cs" "length ks = 2 * t - 1" "i < length ks"
  shows "node_merge mem p i = Inl Undefined_behaviour"
proof (rule node_merge_full_parent)
  show "virtual_size p = length (keys_and_values p)"
    using assms(1,2) by (auto simp: node_rep_def)
  show "i < virtual_size p" using assms(1,3) by (simp add: node_rep_vs)
qed

theorem node_merge_overrun_witness: "node_merge 0 full_node 1 = Inl Undefined_behaviour"
  by (rule node_merge_overrun [where t = 2 and ks = "[(1, 10), (2, 20), (3, 30)]" and cs = "[None, None, None, None]"])
    (simp_all add: node_rep_def full_node_def)

text \<open>
  Such a node is reached by ordinary use: after the keys 1 to 10 have been inserted into a new
  tree with \<open>t = 2\<close> and 2, 5 and 8 have been disposed of, the tree is well-formed and holds 10, but
  disposing of 10 is undefined behaviour.
\<close>

theorem bt_dispose_overrun_reachable:
  "\<exists>tr. tr = snd (bt_dispose (snd (bt_dispose (snd (bt_dispose (tree_upto 10 20) 2)) 5)) 8) \<and>
    bt_ok tr \<and> map_of (bt_entries tr) 10 = Some 100 \<and> fst (bt_dispose tr 10) = Inl Undefined_behaviour"
proof -
  have "bt_ok (snd (bt_dispose (snd (bt_dispose (snd (bt_dispose (tree_upto 10 20) 2)) 5)) 8))"
    by code_simp
  moreover have "map_of (bt_entries (snd (bt_dispose (snd (bt_dispose (snd (bt_dispose (tree_upto 10 20) 2)) 5)) 8))) 10
      = Some 100"
    by code_simp
  moreover have "fst (bt_dispose (snd (bt_dispose (snd (bt_dispose (snd (bt_dispose (tree_upto 10 20) 2)) 5)) 8)) 10)
      = Inl Undefined_behaviour"
    by code_simp
  ultimately show ?thesis by blast
qed

text \<open>
  An allocation failure in the middle of an insertion loses entries: when the leaf has been
  split and the split of the root runs out of memory, \<open>insert\<close> throws \<open>std::bad_alloc\<close> and the split-off half
  of the leaf is gone with its entry and its node. Here 12 was in the tree, inserting 13 fails.
\<close>

theorem bt_insert_loses_entries:
  "bt_ok (tree_upto 12 6) \<and> map fst (bt_entries (tree_upto 12 6)) = [1..12] \<and>
   fst (bt_insert (tree_upto 12 6) 13 130) = Inl Bad_alloc \<and>
   map fst (bt_entries (snd (bt_insert (tree_upto 12 6) 13 130))) = [1..11] \<and>
   bt_nodes (snd (bt_insert (tree_upto 12 6) 13 130)) + bt_memory (snd (bt_insert (tree_upto 12 6) 13 130)) <
     bt_nodes (tree_upto 12 6) + bt_memory (tree_upto 12 6)"
  by (intro conjI; code_simp)

section \<open>Iterating\<close>

text \<open>
  C27. The loop from \<open>begin_infix\<close> to \<open>end_infix\<close> visits exactly the entries, in order, and ends
  after as many steps as there are entries.
\<close>

theorem infix_traversal:
  assumes "bt_ok tr"
  shows "\<exists>st. begin_infix tr = Some st \<and> end_infix tr = Some [] \<and>
    traverse (length (bt_entries tr)) st = Some (bt_entries tr)"
proof -
  obtain st where st: "begin_infix tr = Some st" "iter_ok (bt_t tr) st" "iter_rest st = bt_entries tr"
    using begin_infix_correct [OF assms] by blast
  have "2 \<le> bt_t tr" using assms by (simp add: bt_ok_def)
  then show ?thesis
    using st traverse_correct [OF st(2), of "length (bt_entries tr)"]
    by (simp add: end_infix_def infix_iterator_new_def)
qed

theorem infix_traversal_witness:
  "\<exists>st. begin_infix (tree_upto 5 10) = Some st \<and>
    traverse 5 st = Some [(1, 10), (2, 20), (3, 30), (4, 40), (5, 50)]"
proof -
  have l: "length (bt_entries (tree_upto 5 10)) = 5" by (simp add: tree_5(2))
  show ?thesis using infix_traversal [OF tree_5(1), unfolded l, unfolded tree_5(2)] by blast
qed

text \<open>
  C26. \<open>obtain_between\<close> on a tree that is not empty returns, in order, exactly the entries between
  the bounds, each bound inclusive or exclusive as asked; its loop ends.
\<close>

theorem bt_obtain_between_exact:
  assumes "key_order cmp" "bt_ok tr" "bt_keys_comparer tr = cmp" "bt_root tr \<noteq> None"
  shows "bt_obtain_between tr lo hi li ui = Some (Inr
    (filter (\<lambda>p. (if li then lo \<le> fst p else lo < fst p) \<and> (if ui then fst p \<le> hi else fst p < hi))
      (bt_entries tr)))"
  using key_order.bt_obtain_between_correct [OF assms]
  by (simp add: above_lower_def below_upper_def)

theorem bt_obtain_between_exact_witness:
  "bt_obtain_between (tree_upto 5 10) 2 4 False True = Some (Inr [(3, 30), (4, 40)])"
  using bt_obtain_between_exact [OF int_keys.key_order_axioms tree_5(1) tree_upto_comparer tree_5_root, of 2 4 False True]
  by (simp add: tree_5(2))

text \<open>
  On an empty tree the query reads the top of an empty stack.\<close>

theorem bt_obtain_between_empty_tree:
  assumes "b_tree_new t cmp mem = Inr tr"
  shows "bt_obtain_between tr lo hi li ui = Some (Inl Undefined_behaviour)"
proof -
  have "bt_root tr = None" using assms by (auto simp: b_tree_new_def split: if_splits)
  then show ?thesis by (rule bt_obtain_between_empty)
qed

theorem bt_obtain_between_empty_tree_witness:
  "bt_obtain_between (empty_tree 5) 1 2 True True = Some (Inl Undefined_behaviour)"
  by (rule bt_obtain_between_empty_tree [OF empty_tree_new])

text \<open>
  A reverse iterator starts at the last entry (all that \<open>obtain_max\<close> of the database uses), but
  in a tree of more than one level it never comes to its end: the root is never popped, and the
  iteration turns round in it.
\<close>

theorem reverse_iteration:
  assumes "bt_ok tr" "bt_root tr = Some n"
  shows "\<exists>st d i. rbegin_infix tr = Some st \<and>
    infix_reverse_iterator_deref st = Inr (d, i, last (bt_entries tr)) \<and>
    (\<forall>k st'. 0 < node_height n \<and> reverse_steps k st = Some st' \<longrightarrow> st' \<noteq> [])"
proof -
  obtain st d i where st: "rbegin_infix tr = Some st"
      "infix_reverse_iterator_deref st = Inr (d, i, last (bt_entries tr))"
    using rbegin_infix_correct [OF assms(1)] assms(2) by auto
  have "tree_ok (bt_t tr) (Some n)" using assms by (simp add: bt_ok_def)
  then obtain h where h: "wf_node (bt_t tr) h n" by (rule tree_ok_SomeE)
  have "\<exists>c. arr_get (subtrees n) (virtual_size n) = Some (Some c)" if high: "0 < node_height n"
  proof -
    obtain h' where "h = Suc h'" using high wf_node_height [OF h] by (cases h) auto
    then obtain ks cs where n: "node_at (bt_t tr) (Suc h') n ks cs" using h by (auto simp: wf_node_iff)
    then have "\<exists>c. cs ! length ks = Some c"
      using node_at_ptr [OF n, of "length ks"] by (auto simp: wf_child_def)
    then show ?thesis
      using node_rep_arr_get [OF node_at_rep [OF n], of "length ks"] node_rep_vs [OF node_at_rep [OF n]] by simp
  qed
  then have "\<forall>k st'. 0 < node_height n \<and> reverse_steps k st = Some st' \<longrightarrow> st' \<noteq> []"
    using reverse_never_ends [OF st(1) assms(2)] by blast
  then show ?thesis using st by blast
qed

theorem reverse_iteration_witness:
  "\<exists>n st d i. bt_root (tree_upto 5 10) = Some n \<and> 0 < node_height n \<and> rbegin_infix (tree_upto 5 10) = Some st \<and>
    infix_reverse_iterator_deref st = Inr (d, i, (5, 50)) \<and> (\<forall>k st'. reverse_steps k st = Some st' \<longrightarrow> st' \<noteq> [])"
proof -
  obtain n where n: "bt_root (tree_upto 5 10) = Some n" using tree_5_root by blast
  then have "0 < node_height n" using tree_5(3) by (simp add: bt_levels_def)
  then show ?thesis using reverse_iteration [OF tree_5(1) n] n by (auto simp: tree_5(2))
qed

section \<open>Copying\<close>

text \<open>
  C37. The copy constructor: with enough memory the copy has the parameter, comparer and entries of
  the source and is well-formed, and the allocator has given exactly one node per node.
\<close>

theorem bt_copy_exact:
  assumes "bt_ok other" "bt_nodes other \<le> bt_memory other"
  shows "\<exists>tr. bt_copy_construct other = Inr tr \<and> bt_ok tr \<and> bt_t tr = bt_t other \<and>
    bt_keys_comparer tr = bt_keys_comparer other \<and> bt_entries tr = bt_entries other \<and>
    bt_memory tr + bt_nodes tr = bt_memory other"
  using bt_copy_construct_correct [OF assms] assms(2) by auto

theorem bt_copy_exact_witness:
  "\<exists>tr. bt_copy_construct (tree_upto 5 10) = Inr tr \<and> bt_ok tr \<and> bt_memory tr + bt_nodes tr = 7 \<and>
    bt_entries tr = [(1, 10), (2, 20), (3, 30), (4, 40), (5, 50)]"
proof -
  have "bt_nodes (tree_upto 5 10) \<le> bt_memory (tree_upto 5 10)" by (simp add: tree_5)
  from bt_copy_exact [OF tree_5(1) this] show ?thesis by (auto simp: tree_5)
qed

text \<open>
  A copy that runs out of memory throws and gives back every node it took: \<open>copy\<close> of a
  well-formed subtree leaves the allocator as it found it.
\<close>

theorem copy_gives_back:
  assumes "wf_node t h n" "mem < node_count n"
  shows "copy_node t mem n = (Inl Bad_alloc, mem)"
  using copy_node_correct [OF assms(1), of mem] assms(2) by simp

theorem copy_gives_back_witness:
  "\<exists>n. bt_root (tree_upto 5 10) = Some n \<and> copy_node 2 2 n = (Inl Bad_alloc, 2)"
proof -
  obtain n where n: "bt_root (tree_upto 5 10) = Some n" using tree_5_root by blast
  have "tree_ok 2 (Some n)" using tree_5(1,7) n by (simp add: bt_ok_def)
  then obtain h where "wf_node 2 h n" by (rule tree_ok_SomeE)
  moreover have "2 < node_count n" using tree_5(6) n by (simp add: bt_nodes_def)
  ultimately show ?thesis using copy_gives_back n by blast
qed

text \<open>
  Copy assignment between trees with the same parameter makes an equal copy and loses no
  memory.
\<close>

theorem bt_copy_assign_exact:
  assumes "bt_ok other" "bt_t this = bt_t other" "bt_nodes other \<le> bt_memory this + bt_nodes this"
  shows "\<exists>tr. bt_copy_assign this other = (Inr (), tr) \<and> bt_ok tr \<and>
    bt_keys_comparer tr = bt_keys_comparer other \<and> bt_entries tr = bt_entries other \<and>
    bt_memory tr + bt_nodes tr = bt_memory this + bt_nodes this"
  using assms by (rule bt_copy_assign_correct)

theorem bt_copy_assign_exact_witness:
  "\<exists>tr. bt_copy_assign (empty_tree 5) (tree_upto 5 10) = (Inr (), tr) \<and> bt_ok tr \<and>
    bt_entries tr = [(1, 10), (2, 20), (3, 30), (4, 40), (5, 50)] \<and> bt_memory tr + bt_nodes tr = 5"
proof -
  have "bt_t (empty_tree 5) = bt_t (tree_upto 5 10)" by (simp add: tree_5 empty_tree_def)
  moreover have e: "bt_nodes (empty_tree 5) = 0" "bt_memory (empty_tree 5) = 5"
    by (simp_all add: empty_tree_def bt_nodes_def)
  ultimately show ?thesis
    using bt_copy_assign_exact [OF tree_5(1), of "empty_tree 5"] by (auto simp: tree_5)
qed

section \<open>The container contract\<close>

text \<open>
  The tree of the database, keyed by \<open>tkey\<close>s with \<open>tkey_comparer\<close>, keeps the contract of an
  associative container: after a successful insertion, lookup of the new key returns the new
  value and every other lookup is unchanged.
\<close>

theorem tkey_tree_obtain_after_insert:
  assumes "bt_inv tkey_comparer tr" "bt_insert tr k v = (Inr (), tr')" "bt_fits tr"
  shows "bt_obtain tr' j = (if j = k then Inr v else bt_obtain tr j)"
  using assms by (rule tkeys.tree.obtain_after_insert)

definition tkey_tree :: "(tkey, nat) b_tree" where
  "tkey_tree = bt_insert_all [(Some ''ann'', 1), (Some ''bob'', 2)]
     \<lparr>bt_root = None, bt_t = 2, bt_keys_comparer = tkey_comparer, bt_memory = 9\<rparr>"

theorem tkey_tree_obtain_after_insert_witness:
  "bt_obtain (snd (bt_insert tkey_tree (Some ''cy'') 3)) (Some ''ann'') = Inr 1"
proof -
  have ok: "bt_ok tkey_tree" by code_simp
  have "bt_keys_comparer tkey_tree = tkey_comparer" by (simp add: tkey_tree_def comparer_of_inserts)
  then have inv: "bt_inv tkey_comparer tkey_tree" using ok by (simp add: bt_inv_def)
  have fits: "bt_fits tkey_tree" unfolding bt_fits_def by code_simp
  have "fst (bt_insert tkey_tree (Some ''cy'') 3) = Inr ()" by code_simp
  then have "bt_insert tkey_tree (Some ''cy'') 3 = (Inr (), snd (bt_insert tkey_tree (Some ''cy'') 3))"
    by (metis prod.collapse)
  from tkey_tree_obtain_after_insert [OF inv this fits, of "Some ''ann''"]
  have "bt_obtain (snd (bt_insert tkey_tree (Some ''cy'') 3)) (Some ''ann'') = bt_obtain tkey_tree (Some ''ann'')"
    by simp
  also have "\<dots> = Inr 1" by code_simp
  finally show ?thesis .
qed

end
