(* ===== verification/File_System.thy ===== *)
theory File_System
  imports Main "HOL-Library.List_Lexorder" "HOL-Library.Char_ord"
begin

text \<open>
  The part of the operating system and of the C++ streams that the database calls: a file system as
  a list of entries by path, with \<open>access\<close>, \<open>mkdir\<close>, \<open>remove\<close>, \<open>rmdir\<close>, \<open>remove_all\<close>, directory
  iteration and files that are opened, appended to and read; the paths of \<open>extra_utility.cpp\<close>; and
  numbers written to and read from text files. A file is the list of its bytes. The device may
  be full, then every write fails.
\<close>

section \<open>Paths\<close>

text \<open>The two overloads of \<open>extra_utility::make_path\<close>.\<close>

definition make_path_strings :: "string list \<Rightarrow> string" where
  "make_path_strings xs =
     foldl (\<lambda>path elem. (if path \<noteq> [] \<and> hd path \<noteq> CHR 0x00 then path @ ''/'' else path) @ elem) [] xs"

definition make_path_chars :: "string list \<Rightarrow> string" where
  "make_path_chars xs = foldl (\<lambda>path elem. (if path \<noteq> [] then path @ ''/'' else path) @ elem) [] xs"

definition parent_of :: "string \<Rightarrow> string option" where
  "parent_of p =
     (if CHR ''/'' \<in> set p then Some (rev (tl (dropWhile (\<lambda>c. c \<noteq> CHR ''/'') (rev p)))) else None)"

definition file_name_of :: "string \<Rightarrow> string" where
  "file_name_of p = rev (takeWhile (\<lambda>c. c \<noteq> CHR ''/'') (rev p))"

section \<open>Files and directories\<close>

datatype fs_entry = Dir | File (file_bytes: string)

record file_system =
  fs_entries :: "(string \<times> fs_entry) list"
  fs_full :: bool

definition fs_lookup :: "file_system \<Rightarrow> string \<Rightarrow> fs_entry option" where
  "fs_lookup fs p = map_of (fs_entries fs) p"

definition fs_exists :: "file_system \<Rightarrow> string \<Rightarrow> bool" where
  "fs_exists fs p = (fs_lookup fs p \<noteq> None)"

definition fs_put :: "file_system \<Rightarrow> string \<Rightarrow> fs_entry \<Rightarrow> file_system" where
  "fs_put fs p e = fs\<lparr>fs_entries := (p, e) # filter (\<lambda>q. fst q \<noteq> p) (fs_entries fs)\<rparr>"

definition fs_delete :: "file_system \<Rightarrow> string \<Rightarrow> file_system" where
  "fs_delete fs p = fs\<lparr>fs_entries := filter (\<lambda>q. fst q \<noteq> p) (fs_entries fs)\<rparr>"

definition parent_ok :: "file_system \<Rightarrow> string \<Rightarrow> bool" where
  "parent_ok fs p = (case parent_of p of None \<Rightarrow> True | Some d \<Rightarrow> fs_lookup fs d = Some Dir)"

text \<open>\<open>mkdir\<close>, whose result the code ignores.\<close>

definition fs_mkdir :: "file_system \<Rightarrow> string \<Rightarrow> file_system" where
  "fs_mkdir fs p = (if fs_exists fs p \<or> \<not> parent_ok fs p \<or> fs_full fs then fs else fs_put fs p Dir)"

text \<open>Opening for writing, which creates the file; \<open>None\<close> is a stream that is not open.\<close>

definition fs_open_append :: "file_system \<Rightarrow> string \<Rightarrow> file_system option" where
  "fs_open_append fs p =
     (case fs_lookup fs p of
        Some Dir \<Rightarrow> None
      | Some (File b) \<Rightarrow> Some fs
      | None \<Rightarrow> if parent_ok fs p \<and> \<not> fs_full fs then Some (fs_put fs p (File [])) else None)"

definition fs_open_trunc :: "file_system \<Rightarrow> string \<Rightarrow> file_system option" where
  "fs_open_trunc fs p =
     (case fs_open_append fs p of None \<Rightarrow> None | Some fs' \<Rightarrow> Some (fs_put fs' p (File [])))"

text \<open>Opening for reading: the bytes.\<close>

definition fs_open_read :: "file_system \<Rightarrow> string \<Rightarrow> string option" where
  "fs_open_read fs p = (case fs_lookup fs p of Some (File b) \<Rightarrow> Some b | _ \<Rightarrow> None)"

definition fs_size :: "file_system \<Rightarrow> string \<Rightarrow> nat" where
  "fs_size fs p = (case fs_open_read fs p of None \<Rightarrow> 0 | Some b \<Rightarrow> length b)"

text \<open>A flushed write at the end of an open file; \<open>None\<close> is a failed stream.\<close>

definition fs_append :: "file_system \<Rightarrow> string \<Rightarrow> string \<Rightarrow> file_system option" where
  "fs_append fs p bytes =
     (case fs_open_read fs p of
        None \<Rightarrow> None
      | Some b \<Rightarrow> if fs_full fs then None else Some (fs_put fs p (File (b @ bytes))))"

definition children_of :: "file_system \<Rightarrow> string \<Rightarrow> (string \<times> fs_entry) list" where
  "children_of fs p = filter (\<lambda>q. parent_of (fst q) = Some p) (fs_entries fs)"

definition fs_rmdir :: "file_system \<Rightarrow> string \<Rightarrow> file_system" where
  "fs_rmdir fs p = (if fs_lookup fs p = Some Dir \<and> children_of fs p = [] then fs_delete fs p else fs)"

definition fs_remove :: "file_system \<Rightarrow> string \<Rightarrow> file_system" where
  "fs_remove fs p =
     (case fs_lookup fs p of Some (File b) \<Rightarrow> fs_delete fs p | _ \<Rightarrow> fs_rmdir fs p)"

definition under_path :: "string \<Rightarrow> string \<Rightarrow> bool" where
  "under_path p q = (q = p \<or> take (length p + 1) q = p @ ''/'')"

definition fs_remove_all :: "file_system \<Rightarrow> string \<Rightarrow> file_system" where
  "fs_remove_all fs p = fs\<lparr>fs_entries := filter (\<lambda>q. \<not> under_path p (fst q)) (fs_entries fs)\<rparr>"

lemma fs_lookup_put [simp]: "fs_lookup (fs_put fs p e) q = (if q = p then Some e else fs_lookup fs q)"
proof -
  have "map_of (filter (\<lambda>r. fst r \<noteq> p) xs) q = (if q = p then None else map_of xs q)" for xs :: "(string \<times> fs_entry) list"
    by (induction xs) auto
  then show ?thesis by (simp add: fs_lookup_def fs_put_def)
qed

lemma fs_full_put [simp]: "fs_full (fs_put fs p e) = fs_full fs"
  by (simp add: fs_put_def)

lemma fs_lookup_delete [simp]: "fs_lookup (fs_delete fs p) q = (if q = p then None else fs_lookup fs q)"
proof -
  have "map_of (filter (\<lambda>r. fst r \<noteq> p) xs) q = (if q = p then None else map_of xs q)" for xs :: "(string \<times> fs_entry) list"
    by (induction xs) auto
  then show ?thesis by (simp add: fs_lookup_def fs_delete_def)
qed

lemma fs_full_delete [simp]: "fs_full (fs_delete fs p) = fs_full fs"
  by (simp add: fs_delete_def)

lemma fs_open_read_put [simp]:
  "fs_open_read (fs_put fs p (File b)) q = (if q = p then Some b else fs_open_read fs q)"
  by (simp add: fs_open_read_def)

section \<open>Numbers in text files\<close>

text \<open>\<open>std::to_string\<close> and \<open>operator<<\<close> on a natural number.\<close>

definition digit :: "nat \<Rightarrow> char" where
  "digit d = char_of (48 + d)"

fun show_nat :: "nat \<Rightarrow> string" where
  "show_nat n = (if n < 10 then [digit n] else show_nat (n div 10) @ [digit (n mod 10)])"

declare show_nat.simps [simp del]

definition is_digit :: "char \<Rightarrow> bool" where
  "is_digit c = (CHR ''0'' \<le> c \<and> c \<le> CHR ''9'')"

definition is_blank :: "char \<Rightarrow> bool" where
  "is_blank c = (c \<in> {CHR '' '', CHR 0x09, CHR 0x0A, CHR 0x0B, CHR 0x0C, CHR 0x0D})"

definition nat_of_digits :: "string \<Rightarrow> nat" where
  "nat_of_digits ds = foldl (\<lambda>n c. 10 * n + (of_char c - 48)) 0 ds"

text \<open>
  \<open>stream >> i\<close> for an \<open>int\<close>: blanks, a sign, digits; \<open>None\<close> when the stream fails, with nothing to
  read or a number out of range.
\<close>

definition read_int :: "string \<Rightarrow> (int \<times> string) option" where
  "read_int s =
     (let s1 = dropWhile is_blank s;
          neg = (s1 \<noteq> [] \<and> hd s1 = CHR ''-'');
          s2 = (if s1 \<noteq> [] \<and> (hd s1 = CHR ''-'' \<or> hd s1 = CHR ''+'') then tl s1 else s1);
          ds = takeWhile is_digit s2;
          n = (if neg then - int (nat_of_digits ds) else int (nat_of_digits ds)) in
      if ds = [] \<or> n < - (2 ^ 31) \<or> 2 ^ 31 \<le> n then None
      else Some (n, dropWhile is_digit s2))"

lemma of_char_digit: "d < 10 \<Longrightarrow> of_char (digit d) = (48 + d :: nat)"
  by (simp add: digit_def)

lemma is_digit_digit: "d < 10 \<Longrightarrow> is_digit (digit d)"
  by (simp add: is_digit_def less_eq_char_def of_char_digit)

lemma nat_of_digits_snoc: "nat_of_digits (ds @ [c]) = 10 * nat_of_digits ds + (of_char c - 48)"
  by (simp add: nat_of_digits_def)

lemma show_nat_digits: "\<forall>c \<in> set (show_nat n). is_digit c"
proof (induction n rule: show_nat.induct)
  case (1 n)
  then show ?case by (subst show_nat.simps) (auto simp: is_digit_digit)
qed

lemma show_nat_not_Nil: "show_nat n \<noteq> []"
  by (subst show_nat.simps) simp

lemma nat_of_show_nat: "nat_of_digits (show_nat n) = n"
proof (induction n rule: show_nat.induct)
  case (1 n)
  show ?case
  proof (cases "n < 10")
    case True
    then show ?thesis by (subst show_nat.simps) (simp add: nat_of_digits_def of_char_digit)
  next
    case False
    then show ?thesis
      by (subst show_nat.simps) (simp add: nat_of_digits_snoc of_char_digit 1)
  qed
qed

lemma digit_not_blank: "is_digit c \<Longrightarrow> \<not> is_blank c \<and> c \<noteq> CHR ''-'' \<and> c \<noteq> CHR ''+''"
  by (auto simp: is_digit_def is_blank_def less_eq_char_def)

text \<open>A number that was written is read back, up to a following line break.\<close>

lemma read_show_nat:
  assumes "n < 2 ^ 31" "rest = [] \<or> \<not> is_digit (hd rest)"
  shows "read_int (show_nat n @ rest) = Some (int n, rest)"
proof -
  have d: "\<forall>c \<in> set (show_nat n). is_digit c" by (rule show_nat_digits)
  obtain c cs where c: "show_nat n = c # cs" using show_nat_not_Nil [of n] by (cases "show_nat n") auto
  have cd: "is_digit c" using d c by simp
  note nb = digit_not_blank [OF cd]
  have tw: "takeWhile is_digit (show_nat n @ rest) = show_nat n"
      "dropWhile is_digit (show_nat n @ rest) = rest"
    using d assms(2) by (cases rest; simp add: takeWhile_append2 dropWhile_append2)+
  have "dropWhile is_blank (show_nat n @ rest) = show_nat n @ rest" using nb by (simp add: c)
  moreover have "hd (show_nat n @ rest) = c" by (simp add: c)
  ultimately show ?thesis
    using tw nb assms(1) show_nat_not_Nil [of n] by (simp add: read_int_def Let_def nat_of_show_nat)
qed

text \<open>The blanks in front of a number are skipped.\<close>

lemma read_int_blank: "is_blank c \<Longrightarrow> read_int (c # s) = read_int s"
  by (simp add: read_int_def)

end
