(* ===== verification/Records.thy ===== *)
theory Records
  imports File_System Comparers "HOL-Library.Word"
begin

text \<open>
  The values of the database and how they reach a file: \<open>tdata.cpp\<close> and the string pool of
  \<open>flyweight.h\<close>. A record in a file is the length of the key, the key, the 8 bytes of the id, the
  length of the name and the name; a \<open>file_tdata\<close> holds the offset of its record.
\<close>

section \<open>Values\<close>

record tvalue =
  personal_id :: "64 word"
  tname :: tkey

definition tvalue_default :: tvalue where
  "tvalue_default = \<lparr>personal_id = 0, tname = Some []\<rparr>"

definition tvalue_of_string :: "64 word \<Rightarrow> string \<Rightarrow> tvalue" where
  "tvalue_of_string hashed_password name = \<lparr>personal_id = hashed_password, tname = Some name\<rparr>"

definition tvalue_of_flyweight :: "64 word \<Rightarrow> tkey \<Rightarrow> tvalue" where
  "tvalue_of_flyweight hashed_password name = \<lparr>personal_id = hashed_password, tname = name\<rparr>"

datatype tdata = Ram_tdata (ram_value: tvalue) | File_tdata (file_pos: int)

definition ram_tdata_new :: "tvalue \<Rightarrow> tdata" where
  "ram_tdata_new value = Ram_tdata value"

definition file_tdata_new :: "int \<Rightarrow> tdata" where
  "file_tdata_new pos = File_tdata pos"

text \<open>The exceptions of the storage; the last one stands for undefined behaviour.\<close>

datatype db_exn =
    Setup_failure string
  | Load_failure string
  | Invalid_struct_name
  | Too_big_struct_name
  | Invalid_path
  | Too_big_path
  | Insertion_of_existent_struct
  | Insertion_of_struct_failure
  | Disposal_of_nonexistent_struct
  | Db_insertion_of_existent_key
  | Db_obtaining_of_nonexistent_key
  | Db_updating_of_nonexistent_key
  | Db_disposal_of_nonexistent_key
  | is_ios_failure: Ios_failure string
  | Filesystem_error
  | Db_bad_alloc
  | Db_logic_error string
  | Db_undefined_behaviour

section \<open>Machine words in a file\<close>

text \<open>The 8 bytes of a \<open>size_t\<close> or \<open>uint64_t\<close>, least significant first.\<close>

definition bytes_of_word :: "64 word \<Rightarrow> string" where
  "bytes_of_word w = map (\<lambda>i. char_of (unat w div 256 ^ i mod 256)) [0..<8]"

definition word_of_bytes :: "string \<Rightarrow> 64 word" where
  "word_of_bytes s = word_of_nat (foldr (\<lambda>c n. of_char c + 256 * n) s 0)"

lemma length_bytes_of_word [simp]: "length (bytes_of_word w) = 8"
  by (simp add: bytes_of_word_def)

lemma word_of_bytes_of_word [simp]: "word_of_bytes (bytes_of_word w) = w"
proof -
  have c: "of_char (char_of (n mod 256 :: nat)) = n mod 256" for n :: nat by simp
  define n where "n = unat w"
  have "n < 256 ^ 8" unfolding n_def using unsigned_less [of w] by simp
  then have top: "n div 256 ^ 7 mod 256 = n div 256 ^ 7" by (simp add: less_mult_imp_div_less)
  have step: "a mod 256 + 256 * (a div 256) = a" for a :: nat by simp
  have u: "[0..<8] = [0, 1, 2, 3, 4, 5, 6, 7 :: nat]" by (simp add: upt_rec)
  have d: "n div 256 ^ Suc i = n div 256 ^ i div 256" for i by (simp only: power_Suc2 div_mult2_eq)
  have "foldr (\<lambda>c n. of_char c + 256 * n) (bytes_of_word w) 0 =
      n div 256 ^ 0 mod 256 + 256 * (n div 256 ^ 1 mod 256 + 256 * (n div 256 ^ 2 mod 256 +
        256 * (n div 256 ^ 3 mod 256 + 256 * (n div 256 ^ 4 mod 256 + 256 * (n div 256 ^ 5 mod 256 +
        256 * (n div 256 ^ 6 mod 256 + 256 * (n div 256 ^ 7 mod 256)))))))"
    unfolding bytes_of_word_def u n_def [symmetric] by simp
  also have "\<dots> = n"
  proof -
    have "n div 256 ^ 6 mod 256 + 256 * (n div 256 ^ 7 mod 256) = n div 256 ^ 6"
      using step [of "n div 256 ^ 6"] d [of 6] top by simp
    moreover have "n div 256 ^ 5 mod 256 + 256 * (n div 256 ^ 6) = n div 256 ^ 5"
      using step [of "n div 256 ^ 5"] d [of 5] by simp
    moreover have "n div 256 ^ 4 mod 256 + 256 * (n div 256 ^ 5) = n div 256 ^ 4"
      using step [of "n div 256 ^ 4"] d [of 4] by simp
    moreover have "n div 256 ^ 3 mod 256 + 256 * (n div 256 ^ 4) = n div 256 ^ 3"
      using step [of "n div 256 ^ 3"] d [of 3] by simp
    moreover have "n div 256 ^ 2 mod 256 + 256 * (n div 256 ^ 3) = n div 256 ^ 2"
      using step [of "n div 256 ^ 2"] d [of 2] by simp
    moreover have "n div 256 ^ 1 mod 256 + 256 * (n div 256 ^ 2) = n div 256 ^ 1"
      using step [of "n div 256 ^ 1"] d [of 1] by simp
    moreover have "n div 256 ^ 0 mod 256 + 256 * (n div 256 ^ 1) = n"
      using step [of n] d [of 0] by simp
    ultimately show ?thesis by simp
  qed
  finally show ?thesis by (simp add: word_of_bytes_def n_def)
qed

section \<open>Writing a record\<close>

text \<open>The bytes that \<open>serialize\<close> writes.\<close>

definition record_bytes :: "string \<Rightarrow> 64 word \<Rightarrow> string \<Rightarrow> string" where
  "record_bytes key pid name =
     bytes_of_word (word_of_nat (length key)) @ key @ bytes_of_word pid @
     bytes_of_word (word_of_nat (length name)) @ name"

text \<open>
  \<open>file_tdata::serialize\<close>. The stream is opened for appending: \<open>tellp\<close> is the size of the file, and
  the \<open>seekp\<close> of the other branch does not move the write, which goes to the end.
\<close>

definition serialize ::
  "file_system \<Rightarrow> int \<Rightarrow> string \<Rightarrow> tkey \<Rightarrow> tvalue \<Rightarrow> bool \<Rightarrow> (db_exn + unit) \<times> int \<times> file_system" where
  "serialize fs pos path key value update_flag =
     (case fs_open_append fs path of
        None \<Rightarrow> (Inl (Ios_failure ''Cannot open the file''), pos, fs)
      | Some fs1 \<Rightarrow>
          let pos' = (if pos = -1 \<or> update_flag then int (fs_size fs1 path) else pos) in
          (case (key, tname value) of
             (Some k, Some n) \<Rightarrow>
               (case fs_append fs1 path (record_bytes k (personal_id value) n) of
                  None \<Rightarrow> (Inl (Ios_failure ''An error occured while serializing data''), pos', fs1)
                | Some fs2 \<Rightarrow> (Inr (), pos', fs2))
           | _ \<Rightarrow> (Inl Db_undefined_behaviour, pos', fs1)))"

section \<open>Reading a record\<close>

text \<open>
  Reading \<open>n\<close> bytes at an offset, or \<open>None\<close> when the file is too short and the stream fails. A
  \<open>seekg\<close> past the end succeeds and the next read fails; to a negative offset it fails itself.
\<close>

definition read_at :: "string \<Rightarrow> int \<Rightarrow> nat \<Rightarrow> string option" where
  "read_at bytes pos n =
     (if pos < 0 \<or> int (length bytes) < pos + int n then None
      else Some (take n (drop (nat pos) bytes)))"

text \<open>
  \<open>file_tdata::deserialize\<close>. The guard tests for the position 1, the invalid position is -1. A
  failed read of a length leaves the length indeterminate; the outcome taken here is the
  exception at the end.
\<close>

definition deserialize :: "file_system \<Rightarrow> int \<Rightarrow> string \<Rightarrow> db_exn + tvalue" where
  "deserialize fs pos path =
     (case fs_open_read fs path of
        None \<Rightarrow> Inl (Ios_failure ''Cannot open the file'')
      | Some bytes \<Rightarrow>
          if pos = 1 then Inl (Db_logic_error ''Invalid pointer to data'')
          else (case Option.bind (read_at bytes pos 8) (\<lambda>login_len.
              let p1 = pos + 8 + int (unat (word_of_bytes login_len)) in
              Option.bind (read_at bytes p1 8) (\<lambda>pid.
              Option.bind (read_at bytes (p1 + 8) 8) (\<lambda>name_len.
              map_option (\<lambda>name. \<lparr>personal_id = word_of_bytes pid, tname = Some name\<rparr>)
                (read_at bytes (p1 + 16) (unat (word_of_bytes name_len)))))) of
              None \<Rightarrow> Inl (Ios_failure ''An error occured while deserializing data'')
            | Some value \<Rightarrow> Inr value))"

section \<open>A record that was written is read back\<close>

lemma read_at_append: "pos = int (length a) \<Longrightarrow> length b = n \<Longrightarrow> read_at (a @ b @ c) pos n = Some b"
  by (simp add: read_at_def)

lemma length_record: "length (record_bytes k pid n) = 24 + length k + length n"
  by (simp add: record_bytes_def)

lemma unat_length: "length xs < 2 ^ 64 \<Longrightarrow> unat (word_of_nat (length xs) :: 64 word) = length xs"
  by (simp add: unat_of_nat)

lemma uint_length: "length xs < 2 ^ 64 \<Longrightarrow> uint (word_of_nat (length xs) :: 64 word) = int (length xs)"
  by (simp only: uint_nat unat_length)

text \<open>\<open>record_at\<close>: the record of a key and a value stands at the offset.\<close>

definition record_at :: "string \<Rightarrow> int \<Rightarrow> string \<Rightarrow> tvalue \<Rightarrow> bool" where
  "record_at bytes pos k v \<longleftrightarrow>
     (\<exists>a b n. bytes = a @ record_bytes k (personal_id v) n @ b \<and> pos = int (length a) \<and> tname v = Some n \<and>
        length k < 2 ^ 64 \<and> length n < 2 ^ 64)"

lemma deserialize_record:
  assumes "fs_open_read fs path = Some bytes" "record_at bytes pos k v" "pos \<noteq> 1"
  shows "deserialize fs pos path = Inr v"
proof -
  obtain a b n where b: "bytes = a @ record_bytes k (personal_id v) n @ b" "pos = int (length a)" "tname v = Some n"
      "length k < 2 ^ 64" "length n < 2 ^ 64"
    using assms(2) by (auto simp: record_at_def)
  let ?kl = "bytes_of_word (word_of_nat (length k))" and ?id = "bytes_of_word (personal_id v)"
    and ?nl = "bytes_of_word (word_of_nat (length n))"
  have r1: "read_at bytes pos 8 = Some ?kl"
    using read_at_append [of pos a ?kl 8 "k @ ?id @ ?nl @ n @ b"] b(1,2) by (simp add: record_bytes_def)
  have r2: "read_at bytes (pos + 8 + int (length k)) 8 = Some ?id"
    using read_at_append [of _ "a @ ?kl @ k" ?id 8 "?nl @ n @ b"] b(1,2) by (simp add: record_bytes_def add.assoc)
  have r3: "read_at bytes (pos + 8 + int (length k) + 8) 8 = Some ?nl"
    using read_at_append [of _ "a @ ?kl @ k @ ?id" ?nl 8 "n @ b"] b(1,2) by (simp add: record_bytes_def add.assoc)
  have r4: "read_at bytes (pos + 8 + int (length k) + 16) (length n) = Some n"
    using read_at_append [of _ "a @ ?kl @ k @ ?id @ ?nl" n "length n" b] b(1,2) by (simp add: record_bytes_def add.assoc)
  have "\<lparr>personal_id = personal_id v, tname = Some n\<rparr> = v" using b(3) by simp
  then show ?thesis
    using r1 r2 r3 r4 assms(1,3) unat_length [OF b(5)] uint_length [OF b(4)]
    by (simp add: deserialize_def Let_def)
qed

text \<open>A record stays where it is when the file grows.\<close>

lemma record_at_grows: "record_at bytes pos k v \<Longrightarrow> record_at (bytes @ rest) pos k v"
  unfolding record_at_def by (metis append.assoc)

lemma record_at_end:
  assumes "tname v = Some n" "length k < 2 ^ 64" "length n < 2 ^ 64"
  shows "record_at (a @ record_bytes k (personal_id v) n) (int (length a)) k v"
  unfolding record_at_def using assms by (intro exI [of _ a] exI [of _ "[]"] exI [of _ n]) auto

lemma record_at_pos: "record_at bytes pos k v \<Longrightarrow> 0 \<le> pos"
  by (auto simp: record_at_def)

lemma serialize_fresh:
  assumes "fs_open_append fs path = Some fs1" "\<not> fs_full fs1" "fs_open_read fs1 path = Some old"
    and "tname v = Some n" "pos = -1 \<or> upd"
  shows "serialize fs pos path (Some k) v upd =
    (Inr (), int (length old), fs_put fs1 path (File (old @ record_bytes k (personal_id v) n)))"
  using assms by (simp add: serialize_def fs_append_def fs_size_def Let_def)

lemma fs_open_append_read:
  "fs_open_append fs path = Some fs1 \<Longrightarrow>
   \<exists>old. fs_open_read fs1 path = Some old \<and> (fs_open_read fs path = Some old \<or> (fs_open_read fs path = None \<and> old = []))"
  by (auto simp: fs_open_append_def fs_open_read_def split: option.splits fs_entry.splits if_splits)

lemma fs_open_append_full: "fs_open_append fs path = Some fs1 \<Longrightarrow> fs_full fs1 = fs_full fs"
  by (auto simp: fs_open_append_def split: option.splits fs_entry.splits if_splits)

lemma fs_open_append_other: "fs_open_append fs path = Some fs1 \<Longrightarrow> q \<noteq> path \<Longrightarrow> fs_lookup fs1 q = fs_lookup fs q"
  by (auto simp: fs_open_append_def split: option.splits fs_entry.splits if_splits)

section \<open>The string pool\<close>

text \<open>
  \<open>flyweight_factory\<close>: the pool maps a string to the shared object created for it, and \<open>fw_uses\<close>
  counts the shared pointers to each object, the one in the pool included. Handing out a pointer
  adds one; \<open>fw_release\<close> is the destruction of a handed-out pointer.
\<close>

record flyweight_factory =
  fw_pool :: "(string \<times> nat) list"
  fw_uses :: "nat \<Rightarrow> nat"
  fw_next :: nat

definition flyweight_factory_new :: flyweight_factory where
  "flyweight_factory_new = \<lparr>fw_pool = [], fw_uses = (\<lambda>_. 0), fw_next = 0\<rparr>"

definition get_flyweight_instance :: "flyweight_factory \<Rightarrow> string \<Rightarrow> nat \<times> flyweight_factory" where
  "get_flyweight_instance fw str =
     (case map_of (fw_pool fw) str of
        Some p \<Rightarrow> (p, fw\<lparr>fw_uses := (fw_uses fw)(p := fw_uses fw p + 1)\<rparr>)
      | None \<Rightarrow>
          (fw_next fw,
           fw\<lparr>fw_pool := (str, fw_next fw) # fw_pool fw,
              fw_uses := (fw_uses fw)(fw_next fw := 2), fw_next := fw_next fw + 1\<rparr>))"

definition get_flyweight_pool_size :: "flyweight_factory \<Rightarrow> nat" where
  "get_flyweight_pool_size fw = length (fw_pool fw)"

definition fw_release :: "flyweight_factory \<Rightarrow> nat \<Rightarrow> flyweight_factory" where
  "fw_release fw p = fw\<lparr>fw_uses := (fw_uses fw)(p := fw_uses fw p - 1)\<rparr>"

definition remove_unused_flyweights :: "flyweight_factory \<Rightarrow> flyweight_factory" where
  "remove_unused_flyweights fw =
     fw\<lparr>fw_pool := filter (\<lambda>(s, p). fw_uses fw p \<noteq> 1) (fw_pool fw),
        fw_uses := (\<lambda>p. if p \<in> snd ` set (fw_pool fw) \<and> fw_uses fw p = 1 then 0 else fw_uses fw p)\<rparr>"

definition erase_if_unused :: "flyweight_factory \<Rightarrow> string \<Rightarrow> bool \<Rightarrow> flyweight_factory" where
  "erase_if_unused fw str flag =
     (case map_of (fw_pool fw) str of
        None \<Rightarrow> fw
      | Some p \<Rightarrow>
          if flag \<and> fw_uses fw p = 2 \<or> \<not> flag \<and> fw_uses fw p = 3
          then fw\<lparr>fw_pool := filter (\<lambda>e. fst e \<noteq> str) (fw_pool fw),
                  fw_uses := (fw_uses fw)(p := fw_uses fw p - 1)\<rparr>
          else fw)"

text \<open>Objects in the pool are distinct, counted and numbered below \<open>fw_next\<close>.\<close>

definition fw_ok :: "flyweight_factory \<Rightarrow> bool" where
  "fw_ok fw \<longleftrightarrow> distinct (map fst (fw_pool fw)) \<and> distinct (map snd (fw_pool fw)) \<and>
     (\<forall>(s, p) \<in> set (fw_pool fw). p < fw_next fw \<and> 0 < fw_uses fw p)"

lemma get_flyweight_instance_ok:
  assumes "fw_ok fw" "get_flyweight_instance fw str = (p, fw')"
  shows "fw_ok fw'" "map_of (fw_pool fw') str = Some p" "2 \<le> fw_uses fw' p"
    "\<And>s. s \<noteq> str \<Longrightarrow> map_of (fw_pool fw') s = map_of (fw_pool fw) s"
proof -
  have m: "map_of (fw_pool fw) str = Some q \<Longrightarrow> (str, q) \<in> set (fw_pool fw)" for q by (rule map_of_SomeD)
  show "fw_ok fw'"
  proof (cases "map_of (fw_pool fw) str")
    case None
    then have "str \<notin> fst ` set (fw_pool fw)" by (simp add: map_of_eq_None_iff)
    moreover have "fw_next fw \<notin> snd ` set (fw_pool fw)" using assms(1) by (force simp: fw_ok_def)
    ultimately show ?thesis
      using assms None by (fastforce simp: get_flyweight_instance_def fw_ok_def)
  next
    case (Some q)
    then show ?thesis using assms m [OF Some] by (auto simp: get_flyweight_instance_def fw_ok_def)
  qed
  show "map_of (fw_pool fw') str = Some p" "\<And>s. s \<noteq> str \<Longrightarrow> map_of (fw_pool fw') s = map_of (fw_pool fw) s"
    using assms(2) by (auto simp: get_flyweight_instance_def split: option.splits)
  show "2 \<le> fw_uses fw' p"
  proof (cases "map_of (fw_pool fw) str")
    case None
    then show ?thesis using assms(2) by (auto simp: get_flyweight_instance_def)
  next
    case (Some q)
    then have "0 < fw_uses fw q" using assms(1) m [OF Some] by (auto simp: fw_ok_def)
    then show ?thesis using assms(2) Some by (auto simp: get_flyweight_instance_def)
  qed
qed

end
