(* ===== verification/Collection.thy ===== *)
theory Collection
  imports Records Container
begin

text \<open>
  The collections of \<open>db_storage.cpp\<close>: a B-tree from keys to pointers to \<open>tdata\<close> objects. The objects
  live in the collection's own store, since no pointer leaves it: \<open>c_objects\<close> by address, \<open>c_next\<close>
  the next free address. The environment holds what the collections read from the storage (mode
  and id), the file system and the number of objects that memory has left. A call returns the
  outcome, the collection and the environment, also when it throws.
\<close>

section \<open>State\<close>

datatype db_mode = Uninitialized | In_memory_cache | File_system

datatype search_tree_variant = St_b | St_b_plus | St_b_star | St_b_star_plus | St_other int

datatype allocator_variant =
  Av_global_heap | Av_sorted_list | Av_buddy_system | Av_boundary_tags | Av_red_black_tree | Av_other int

datatype fit_mode = First_fit | The_best_fit | The_worst_fit | Fit_other int

text \<open>\<open>env_junk\<close> is what the memory holds where the code leaves two counters without a value.\<close>

record db_env =
  env_id :: "64 word"
  env_mode :: db_mode
  env_fs :: file_system
  env_memory :: nat
  env_cwd :: "string option"
  env_junk :: "64 word \<times> 64 word"

record collection =
  c_data :: "(tkey, nat) b_tree"
  c_objects :: "nat \<Rightarrow> tdata option"
  c_next :: nat
  c_tree_variant :: search_tree_variant
  c_allocator :: "allocator_variant option"
  c_allocator_variant :: allocator_variant
  c_fit_mode :: fit_mode
  c_records_cnt :: "64 word"
  c_disposed_cnt :: "64 word"

type_synonym 'a outcome = "(db_exn + 'a) \<times> collection \<times> db_env"

text \<open>An exception of the tree that the storage does not catch.\<close>

definition tree_failure :: "'k tree_exn \<Rightarrow> db_exn" where
  "tree_failure e =
     (case e of
        Bad_alloc \<Rightarrow> Db_bad_alloc
      | Undefined_behaviour \<Rightarrow> Db_undefined_behaviour
      | Logic_error msg \<Rightarrow> Db_logic_error msg
      | _ \<Rightarrow> Db_logic_error ''tree'')"

text \<open>The constructor: every tree variant makes a B-tree; an unknown allocator variant makes none.\<close>

definition collection_new ::
  "db_env \<Rightarrow> search_tree_variant \<Rightarrow> allocator_variant \<Rightarrow> fit_mode \<Rightarrow> nat \<Rightarrow> db_exn + collection" where
  "collection_new env tree_variant allocator_variant fit_mode t_for_b_trees =
     (if env_memory env = 0 then Inl Db_bad_alloc
      else case b_tree_new t_for_b_trees tkey_comparer (env_memory env) of
        Inl e \<Rightarrow> Inl (tree_failure e)
      | Inr tr \<Rightarrow> Inr \<lparr>c_data = tr, c_objects = Map.empty, c_next = 0, c_tree_variant = tree_variant,
          c_allocator = (case allocator_variant of Av_other _ \<Rightarrow> None | _ \<Rightarrow> Some allocator_variant),
          c_allocator_variant = allocator_variant, c_fit_mode = fit_mode,
          c_records_cnt = 0, c_disposed_cnt = 0\<rparr>)"

text \<open>
  The move constructor: it takes the tree and the tree variant and nothing else. The allocator is
  the default one, and the counters, the allocator variant and the fit mode have no value. When the tree of a
  schema shifts its pairs, \<open>std::swap\<close> moves the trees of two collections but leaves each counter in its slot; here
  the counters go along with their collection. No fact about the entries depends on them.
\<close>

definition collection_move :: "db_env \<Rightarrow> collection \<Rightarrow> collection" where
  "collection_move env other =
     other\<lparr>c_data := fst (bt_move_construct (c_data other)), c_allocator := None,
       c_records_cnt := fst (env_junk env), c_disposed_cnt := snd (env_junk env)\<rparr>"

section \<open>The objects\<close>

text \<open>The allocation of a \<open>tdata\<close> and its construction; \<open>None\<close> is \<open>std::bad_alloc\<close>.\<close>

definition new_data :: "collection \<Rightarrow> db_env \<Rightarrow> tdata \<Rightarrow> (nat \<times> collection \<times> db_env) option" where
  "new_data c env d =
     (if env_memory env = 0 then None
      else Some (c_next c,
        c\<lparr>c_objects := (c_objects c)(c_next c \<mapsto> d), c_next := c_next c + 1\<rparr>,
        env\<lparr>env_memory := env_memory env - 1\<rparr>))"

definition free_data :: "collection \<Rightarrow> db_env \<Rightarrow> nat \<Rightarrow> collection \<times> db_env" where
  "free_data c env p =
     (c\<lparr>c_objects := (c_objects c)(p := None)\<rparr>, env\<lparr>env_memory := env_memory env + 1\<rparr>)"

definition serialize_data ::
  "collection \<Rightarrow> db_env \<Rightarrow> nat \<Rightarrow> string \<Rightarrow> tkey \<Rightarrow> tvalue \<Rightarrow> bool \<Rightarrow> unit outcome" where
  "serialize_data c env p path key value update_flag =
     (case c_objects c p of
        Some (File_tdata pos) \<Rightarrow>
          (case serialize (env_fs env) pos path key value update_flag of
             (r, pos', fs') \<Rightarrow>
               (r, c\<lparr>c_objects := (c_objects c)(p \<mapsto> File_tdata pos')\<rparr>, env\<lparr>env_fs := fs'\<rparr>))
      | _ \<Rightarrow> (Inl Db_undefined_behaviour, c, env))"

text \<open>Reading the value behind a pointer; \<open>msg\<close> is the message of the failure that is rethrown.\<close>

definition read_data :: "collection \<Rightarrow> db_env \<Rightarrow> string \<Rightarrow> nat \<Rightarrow> string \<Rightarrow> db_exn + tvalue" where
  "read_data c env path p msg =
     (if env_mode env = File_system then
        (case c_objects c p of
           Some (File_tdata pos) \<Rightarrow>
             (case deserialize (env_fs env) pos path of
                Inl e \<Rightarrow> Inl (if is_ios_failure e then Ios_failure msg else e)
              | Inr v \<Rightarrow> Inr v)
         | _ \<Rightarrow> Inl Db_undefined_behaviour)
      else
        (case c_objects c p of
           Some (Ram_tdata v) \<Rightarrow> Inr v
         | _ \<Rightarrow> Inl Db_undefined_behaviour))"

section \<open>Consolidation\<close>

text \<open>The loop of \<open>consolidate\<close>: every record is read from the data file and appended to the new file.\<close>

fun rewrite_records ::
  "string \<Rightarrow> string \<Rightarrow> (tkey \<times> nat) list \<Rightarrow> collection \<Rightarrow> db_env \<Rightarrow> unit outcome" where
  "rewrite_records data_path tmp_path [] c env = (Inr (), c, env)"
| "rewrite_records data_path tmp_path ((key, p) # kps) c env =
     (case c_objects c p of
        Some (File_tdata pos) \<Rightarrow>
          (case deserialize (env_fs env) pos data_path of
             Inl e \<Rightarrow> (Inl e, c, env)
           | Inr value \<Rightarrow>
               (case serialize_data c env p tmp_path key value True of
                  (Inl e, c', env') \<Rightarrow> (Inl e, c', env')
                | (Inr _, c', env') \<Rightarrow> rewrite_records data_path tmp_path kps c' env'))
      | _ \<Rightarrow> (Inl Db_undefined_behaviour, c, env))"

text \<open>The pairs that the loop \<open>for (; iter != iter_end; ++iter)\<close> dereferences.\<close>

definition tree_pairs :: "('k, 'v) b_tree \<Rightarrow> ('k \<times> 'v) list option" where
  "tree_pairs tr = Option.bind (begin_infix tr) (traverse (length (bt_entries tr)))"

text \<open>
  The end of \<open>consolidate\<close>: the new file replaces the data file. A failed copy of the stream buffer
  only sets the stream's state, which is not looked at.
\<close>

definition replace_file :: "file_system \<Rightarrow> string \<Rightarrow> string \<Rightarrow> (db_exn + unit) \<times> file_system" where
  "replace_file fs data_path tmp_path =
     (case fs_open_read fs tmp_path of
        None \<Rightarrow> (Inl (Ios_failure ''Failed to open tmp fail''), fs)
      | Some bytes \<Rightarrow>
          (case fs_open_trunc fs data_path of
             None \<Rightarrow> (Inl (Ios_failure ''Failed to open data file''), fs)
           | Some fs1 \<Rightarrow>
               (Inr (), fs_remove (case fs_append fs1 data_path bytes of None \<Rightarrow> fs1 | Some fs2 \<Rightarrow> fs2) tmp_path)))"

definition collection_consolidate :: "collection \<Rightarrow> db_env \<Rightarrow> string \<Rightarrow> unit outcome" where
  "collection_consolidate c env path =
     (if env_mode env = In_memory_cache then (Inr (), c, env)
      else
        let name = show_nat (unat (env_id env));
            tmp_dir_path = make_path_strings [path, ''tmp''];
            data_path = make_path_strings [path, name];
            tmp_path = make_path_strings [path, ''tmp'', name] in
        if \<not> fs_exists (env_fs env) data_path then (Inr (), c, env)
        else
          let fs1 = fs_mkdir (env_fs env) tmp_dir_path;
              fs2 = (case fs_open_trunc fs1 tmp_path of None \<Rightarrow> fs1 | Some fs2 \<Rightarrow> fs2) in
          (case tree_pairs (c_data c) of
             None \<Rightarrow> (Inl Db_undefined_behaviour, c, env\<lparr>env_fs := fs2\<rparr>)
           | Some kps \<Rightarrow>
               (case rewrite_records data_path tmp_path kps c (env\<lparr>env_fs := fs2\<rparr>) of
                  (Inl e, c', env') \<Rightarrow> (Inl e, c', env')
                | (Inr _, c', env') \<Rightarrow>
                    (case replace_file (env_fs env') data_path tmp_path of
                       (r, fs3) \<Rightarrow> (r, c', env'\<lparr>env_fs := fs3\<rparr>)))))"

text \<open>
  \<open>_disposed_cnt > 0.35 * _records_cnt\<close>, computed exactly. The path is the one the operation got, the
  path of the data file.
\<close>

definition collect_garbage :: "collection \<Rightarrow> db_env \<Rightarrow> string \<Rightarrow> unit outcome" where
  "collect_garbage c env path =
     (if 35 * unat (c_records_cnt c) < 100 * unat (c_disposed_cnt c) then
        (case collection_consolidate c env path of
           (Inl e, c', env') \<Rightarrow> (Inl e, c', env')
         | (Inr _, c', env') \<Rightarrow> (Inr (), c'\<lparr>c_disposed_cnt := 0\<rparr>, env'))
      else (Inr (), c, env))"

section \<open>Insertion and update\<close>

text \<open>
  The body that the overloads of \<open>insert\<close> and \<open>update\<close> share: \<open>tree_op\<close> is the call on the tree,
  \<open>caught\<close> the exception of the tree that is turned into one of the storage. The record is written
  before the tree is asked.
\<close>

definition put_data ::
  "((tkey, nat) b_tree \<Rightarrow> tkey \<Rightarrow> nat \<Rightarrow> (tkey tree_exn + unit) \<times> (tkey, nat) b_tree)
    \<Rightarrow> (tkey tree_exn \<Rightarrow> db_exn option) \<Rightarrow> collection \<Rightarrow> db_env \<Rightarrow> tkey \<Rightarrow> tvalue \<Rightarrow> string \<Rightarrow> unit outcome" where
  "put_data tree_op caught c env key value path =
     (case collect_garbage c env path of
        (Inl e, c1, env1) \<Rightarrow> (Inl e, c1, env1)
      | (Inr _, c1, env1) \<Rightarrow>
          (case new_data c1 env1
                 (if env_mode env = File_system then file_tdata_new (-1) else ram_tdata_new value) of
             None \<Rightarrow> (Inl Db_bad_alloc, c1, env1)
           | Some (data, c2, env2) \<Rightarrow>
               (case (if env_mode env = File_system then serialize_data c2 env2 data path key value False
                      else (Inr (), c2, env2)) of
                  (Inl e, c3, env3) \<Rightarrow>
                    if is_ios_failure e then (Inl (Ios_failure ''Failed to write data''), free_data c3 env3 data)
                    else (Inl e, c3, env3)
                | (Inr _, c3, env3) \<Rightarrow>
                    (case tree_op (c_data c3) key data of
                       (Inr _, tr) \<Rightarrow> (Inr (), c3\<lparr>c_data := tr\<rparr>, env3)
                     | (Inl e, tr) \<Rightarrow>
                         (case caught e of
                            Some e' \<Rightarrow> (Inl e', free_data (c3\<lparr>c_data := tr\<rparr>) env3 data)
                          | None \<Rightarrow> (Inl (tree_failure e), c3\<lparr>c_data := tr\<rparr>, env3))))))"

definition insertion_caught :: "'k tree_exn \<Rightarrow> db_exn option" where
  "insertion_caught e = (case e of Insertion_of_existent_key _ \<Rightarrow> Some Db_insertion_of_existent_key | _ \<Rightarrow> None)"

definition updating_caught :: "'k tree_exn \<Rightarrow> db_exn option" where
  "updating_caught e = (case e of Updating_of_nonexistent_key _ \<Rightarrow> Some Db_updating_of_nonexistent_key | _ \<Rightarrow> None)"

definition count_record :: "unit outcome \<Rightarrow> unit outcome" where
  "count_record r =
     (case r of
        (Inr _, c, env) \<Rightarrow> (Inr (), c\<lparr>c_records_cnt := c_records_cnt c + 1\<rparr>, env)
      | (Inl e, c, env) \<Rightarrow> (Inl e, c, env))"

definition collection_insert :: "collection \<Rightarrow> db_env \<Rightarrow> tkey \<Rightarrow> tvalue \<Rightarrow> string \<Rightarrow> unit outcome" where
  "collection_insert c env key value path =
     count_record (put_data bt_insert insertion_caught c env key value path)"

definition collection_insert_rvalue :: "collection \<Rightarrow> db_env \<Rightarrow> tkey \<Rightarrow> tvalue \<Rightarrow> string \<Rightarrow> unit outcome" where
  "collection_insert_rvalue c env key value path =
     count_record (put_data bt_insert insertion_caught c env key value path)"

definition collection_update :: "collection \<Rightarrow> db_env \<Rightarrow> tkey \<Rightarrow> tvalue \<Rightarrow> string \<Rightarrow> unit outcome" where
  "collection_update c env key value path = put_data bt_update updating_caught c env key value path"

definition collection_update_rvalue :: "collection \<Rightarrow> db_env \<Rightarrow> tkey \<Rightarrow> tvalue \<Rightarrow> string \<Rightarrow> unit outcome" where
  "collection_update_rvalue c env key value path = put_data bt_update updating_caught c env key value path"

section \<open>Disposal and lookup\<close>

definition collection_dispose :: "collection \<Rightarrow> db_env \<Rightarrow> tkey \<Rightarrow> string \<Rightarrow> tvalue outcome" where
  "collection_dispose c env key path =
     (case bt_dispose (c_data c) key of
        (Inl (Disposal_of_nonexistent_key _), tr) \<Rightarrow> (Inl Db_disposal_of_nonexistent_key, c\<lparr>c_data := tr\<rparr>, env)
      | (Inl e, tr) \<Rightarrow> (Inl (tree_failure e), c\<lparr>c_data := tr\<rparr>, env)
      | (Inr data, tr) \<Rightarrow>
          let c1 = c\<lparr>c_data := tr\<rparr> in
          (case read_data c1 env path data ''Failed to parse disposed data'' of
             Inl e \<Rightarrow> if is_ios_failure e then (Inl e, free_data c1 env data) else (Inl e, c1, env)
           | Inr value \<Rightarrow>
               (case free_data c1 env data of
                  (c2, env2) \<Rightarrow>
                    (Inr value, c2\<lparr>c_records_cnt := c_records_cnt c2 - 1,
                                  c_disposed_cnt := c_disposed_cnt c2 + 1\<rparr>, env2))))"

text \<open>Every lookup collects garbage first.\<close>

definition after_garbage ::
  "collection \<Rightarrow> db_env \<Rightarrow> string \<Rightarrow> (collection \<Rightarrow> db_env \<Rightarrow> db_exn + 'a) \<Rightarrow> 'a outcome" where
  "after_garbage c env path f =
     (case collect_garbage c env path of
        (Inl e, c1, env1) \<Rightarrow> (Inl e, c1, env1)
      | (Inr _, c1, env1) \<Rightarrow> (f c1 env1, c1, env1))"

definition collection_obtain :: "collection \<Rightarrow> db_env \<Rightarrow> tkey \<Rightarrow> string \<Rightarrow> tvalue outcome" where
  "collection_obtain c env key path =
     after_garbage c env path (\<lambda>c1 env1.
       case bt_obtain (c_data c1) key of
         Inl (Obtaining_of_nonexistent_key _) \<Rightarrow> Inl Db_obtaining_of_nonexistent_key
       | Inl e \<Rightarrow> Inl (tree_failure e)
       | Inr data \<Rightarrow> read_data c1 env1 path data ''Failed to read data'')"

text \<open>The loop over the pairs found.\<close>

fun read_all :: "collection \<Rightarrow> db_env \<Rightarrow> string \<Rightarrow> (tkey \<times> nat) list \<Rightarrow> db_exn + (tkey \<times> tvalue) list" where
  "read_all c env path [] = Inr []"
| "read_all c env path ((k, p) # kps) =
     (case read_data c env path p ''Failed to read data'' of
        Inl e \<Rightarrow> Inl e
      | Inr v \<Rightarrow> (case read_all c env path kps of Inl e \<Rightarrow> Inl e | Inr kvs \<Rightarrow> Inr ((k, v) # kvs)))"

definition collection_obtain_between ::
  "collection \<Rightarrow> db_env \<Rightarrow> tkey \<Rightarrow> tkey \<Rightarrow> bool \<Rightarrow> bool \<Rightarrow> string \<Rightarrow> (tkey \<times> tvalue) list outcome" where
  "collection_obtain_between c env lower_bound upper_bound lower_bound_inclusive upper_bound_inclusive path =
     after_garbage c env path (\<lambda>c1 env1.
       case bt_obtain_between (c_data c1) lower_bound upper_bound lower_bound_inclusive upper_bound_inclusive of
         Some (Inr kps) \<Rightarrow> read_all c1 env1 path kps
       | Some (Inl e) \<Rightarrow> Inl (tree_failure e)
       | None \<Rightarrow> Inl Db_undefined_behaviour)"

definition read_pair :: "collection \<Rightarrow> db_env \<Rightarrow> string \<Rightarrow> tkey \<Rightarrow> nat \<Rightarrow> db_exn + (tkey \<times> tvalue)" where
  "read_pair c env path key p =
     (case read_data c env path p ''Failed to read data'' of Inl e \<Rightarrow> Inl e | Inr v \<Rightarrow> Inr (key, v))"

definition collection_obtain_max :: "collection \<Rightarrow> db_env \<Rightarrow> string \<Rightarrow> (tkey \<times> tvalue) outcome" where
  "collection_obtain_max c env path =
     after_garbage c env path (\<lambda>c1 env1.
       case (rbegin_infix (c_data c1), rend_infix (c_data c1)) of
         (Some iter, Some iter_end) \<Rightarrow>
           if infix_reverse_iterator_eq iter iter_end then Inl Db_obtaining_of_nonexistent_key
           else (case infix_reverse_iterator_deref iter of
             Inl e \<Rightarrow> Inl (tree_failure e)
           | Inr (_, _, key, data) \<Rightarrow> read_pair c1 env1 path key data)
       | _ \<Rightarrow> Inl Db_undefined_behaviour)"

definition collection_obtain_min :: "collection \<Rightarrow> db_env \<Rightarrow> string \<Rightarrow> (tkey \<times> tvalue) outcome" where
  "collection_obtain_min c env path =
     after_garbage c env path (\<lambda>c1 env1.
       case (begin_infix (c_data c1), end_infix (c_data c1)) of
         (Some iter, Some iter_end) \<Rightarrow>
           if infix_iterator_eq iter iter_end then Inl Db_obtaining_of_nonexistent_key
           else (case infix_iterator_deref iter of
             Inl e \<Rightarrow> Inl (tree_failure e)
           | Inr (_, _, key, data) \<Rightarrow> read_pair c1 env1 path key data)
       | _ \<Rightarrow> Inl Db_undefined_behaviour)"

text \<open>The search loop of \<open>obtain_next\<close>, with fuel; it ends at an equal key or at the end.\<close>

fun seek_key :: "nat \<Rightarrow> tkey \<Rightarrow> (tkey, nat) iter \<Rightarrow> (tkey, nat) iter option" where
  "seek_key 0 key iter = None"
| "seek_key (Suc fuel) key iter =
     (if infix_iterator_neq iter [] then
        (case infix_iterator_deref iter of
           Inl e \<Rightarrow> None
         | Inr (_, _, k, _) \<Rightarrow>
             if tkey_comparer key k \<noteq> 0 then Option.bind (infix_iterator_next iter) (seek_key fuel key)
             else Some iter)
      else Some iter)"

definition collection_obtain_next :: "collection \<Rightarrow> db_env \<Rightarrow> string \<Rightarrow> tkey \<Rightarrow> (tkey \<times> tvalue) outcome" where
  "collection_obtain_next c env path key =
     after_garbage c env path (\<lambda>c1 env1.
       case Option.bind (begin_infix (c_data c1)) (seek_key (Suc (length (bt_entries (c_data c1)))) key) of
         None \<Rightarrow> Inl Db_undefined_behaviour
       | Some iter \<Rightarrow>
           if infix_iterator_eq iter [] then Inl Db_obtaining_of_nonexistent_key
           else (case (infix_iterator_deref iter, infix_iterator_next iter) of
             (Inr (_, _, next_key, data), Some iter') \<Rightarrow>
               if infix_iterator_neq iter' [] then
                 (case infix_iterator_deref iter' of
                    Inl e \<Rightarrow> Inl (tree_failure e)
                  | Inr (_, _, next_key', data') \<Rightarrow> read_pair c1 env1 path next_key' data')
               else read_pair c1 env1 path next_key data
           | (Inl e, _) \<Rightarrow> Inl (tree_failure e)
           | _ \<Rightarrow> Inl Db_undefined_behaviour))"

definition collection_get_records_cnt :: "collection \<Rightarrow> 64 word" where
  "collection_get_records_cnt c = c_records_cnt c"

text \<open>\<open>load\<close> enters a record that is in the file already.\<close>

definition collection_load :: "collection \<Rightarrow> db_env \<Rightarrow> tkey \<Rightarrow> tvalue \<Rightarrow> int \<Rightarrow> unit outcome" where
  "collection_load c env key value pos =
     (case new_data c env
             (if env_mode env = File_system then file_tdata_new pos else ram_tdata_new value) of
        None \<Rightarrow> (Inl Db_bad_alloc, c, env)
      | Some (data, c1, env1) \<Rightarrow>
          (case bt_insert (c_data c1) key data of
             (Inr _, tr) \<Rightarrow> (Inr (), c1\<lparr>c_data := tr, c_records_cnt := c_records_cnt c1 + 1\<rparr>, env1)
           | (Inl (Insertion_of_existent_key _), tr) \<Rightarrow>
               (Inl Db_insertion_of_existent_key, free_data (c1\<lparr>c_data := tr\<rparr>) env1 data)
           | (Inl e, tr) \<Rightarrow> (Inl (tree_failure e), c1\<lparr>c_data := tr\<rparr>, env1)))"

end
