(* ===== verification/Collection_Correct.thy ===== *)
theory Collection_Correct
  imports Collection
begin

text \<open>
  What a collection promises: it holds a sorted list of keys and values, \<open>coll_entries\<close>, in memory or in
  its file, and its operations act on that list as the tree's operations act on the tree's.
\<close>

section \<open>The invariant and the abstraction\<close>

text \<open>\<open>data_ok\<close>: the object at \<open>p\<close> leads to the value \<open>v\<close> of the key \<open>k\<close>.\<close>

definition data_ok :: "collection \<Rightarrow> db_env \<Rightarrow> string \<Rightarrow> tkey \<Rightarrow> nat \<Rightarrow> tvalue \<Rightarrow> bool" where
  "data_ok c env path k p v \<longleftrightarrow>
     (if env_mode env = File_system then
        \<exists>pos bytes kk. c_objects c p = Some (File_tdata pos) \<and> fs_open_read (env_fs env) path = Some bytes \<and>
          k = Some kk \<and> record_at bytes pos kk v \<and> pos \<noteq> 1
      else c_objects c p = Some (Ram_tdata v))"

definition value_of :: "collection \<Rightarrow> db_env \<Rightarrow> string \<Rightarrow> nat \<Rightarrow> tvalue" where
  "value_of c env path p = (case read_data c env path p [] of Inr v \<Rightarrow> v | Inl _ \<Rightarrow> tvalue_default)"

definition coll_entries :: "collection \<Rightarrow> db_env \<Rightarrow> string \<Rightarrow> (tkey \<times> tvalue) list" where
  "coll_entries c env path = map (\<lambda>(k, p). (k, value_of c env path p)) (bt_entries (c_data c))"

text \<open>The data file of a collection in the file mode: it exists, and nothing stands below it.\<close>

definition data_file :: "db_env \<Rightarrow> string \<Rightarrow> bool" where
  "data_file env path \<longleftrightarrow>
     (\<exists>bytes. fs_open_read (env_fs env) path = Some bytes \<and> length bytes \<noteq> 1) \<and>
     \<not> fs_exists (env_fs env) (make_path_strings [path, show_nat (unat (env_id env))])"

definition coll_ok :: "collection \<Rightarrow> db_env \<Rightarrow> string \<Rightarrow> bool" where
  "coll_ok c env path \<longleftrightarrow>
     env_mode env \<noteq> Uninitialized \<and> bt_inv tkey_comparer (c_data c) \<and>
     distinct (map snd (bt_entries (c_data c))) \<and>
     (\<forall>(k, p) \<in> set (bt_entries (c_data c)). p < c_next c \<and> (\<exists>v. data_ok c env path k p v)) \<and>
     (env_mode env = File_system \<longrightarrow> data_file env path)"

text \<open>A key and a value that can be written, and an environment in which a write succeeds.\<close>

definition writable :: "db_env \<Rightarrow> tkey \<Rightarrow> tvalue \<Rightarrow> bool" where
  "writable env k v \<longleftrightarrow> 0 < env_memory env \<and>
     (env_mode env = File_system \<longrightarrow> \<not> fs_full (env_fs env) \<and>
        (\<exists>kk n. k = Some kk \<and> tname v = Some n \<and> length kk < 2 ^ 64 \<and> length n < 2 ^ 64))"

lemma data_ok_read:
  assumes "data_ok c env path k p v"
  shows "read_data c env path p msg = Inr v" "value_of c env path p = v"
proof -
  show r: "read_data c env path p msg = Inr v" for msg
    using assms deserialize_record
    by (fastforce simp: data_ok_def read_data_def split: if_splits sum.splits db_exn.splits)
  show "value_of c env path p = v" by (simp add: value_of_def r)
qed

lemma coll_ok_read:
  assumes "coll_ok c env path" "(k, p) \<in> set (bt_entries (c_data c))"
  shows "read_data c env path p msg = Inr (value_of c env path p)" "data_ok c env path k p (value_of c env path p)"
    "p < c_next c"
  using assms data_ok_read by (fastforce simp: coll_ok_def)+

text \<open>The counters are of no matter.\<close>

lemma counters_read [simp]:
  "read_data (c\<lparr>c_disposed_cnt := d\<rparr>) env path p msg = read_data c env path p msg"
  "read_data (c\<lparr>c_records_cnt := d\<rparr>) env path p msg = read_data c env path p msg"
  "value_of (c\<lparr>c_disposed_cnt := d\<rparr>) env path p = value_of c env path p"
  "value_of (c\<lparr>c_records_cnt := d\<rparr>) env path p = value_of c env path p"
  "data_ok (c\<lparr>c_disposed_cnt := d\<rparr>) env path k p v = data_ok c env path k p v"
  "data_ok (c\<lparr>c_records_cnt := d\<rparr>) env path k p v = data_ok c env path k p v"
  by (simp_all add: value_of_def data_ok_def read_data_def)

lemma counters [simp]:
  "coll_ok (c\<lparr>c_disposed_cnt := d\<rparr>) env path = coll_ok c env path"
  "coll_ok (c\<lparr>c_records_cnt := d\<rparr>) env path = coll_ok c env path"
  "coll_entries (c\<lparr>c_disposed_cnt := d\<rparr>) env path = coll_entries c env path"
  "coll_entries (c\<lparr>c_records_cnt := d\<rparr>) env path = coll_entries c env path"
  by (simp_all add: coll_ok_def coll_entries_def)

lemma collect_garbage_ok:
  assumes "env_mode env \<noteq> Uninitialized" "env_mode env = File_system \<Longrightarrow> data_file env path"
  shows "\<exists>d. collect_garbage c env path = (Inr (), c\<lparr>c_disposed_cnt := d\<rparr>, env)"
proof -
  have k: "collection_consolidate c env path = (Inr (), c, env)"
    using assms by (cases "env_mode env") (simp_all add: collection_consolidate_def Let_def data_file_def)
  show ?thesis
  proof (cases "35 * unat (c_records_cnt c) < 100 * unat (c_disposed_cnt c)")
    case True
    then show ?thesis by (intro exI [of _ 0]) (simp add: collect_garbage_def k)
  next
    case False
    then show ?thesis by (intro exI [of _ "c_disposed_cnt c"]) (simp add: collect_garbage_def)
  qed
qed

lemma after_garbage_ok:
  assumes "coll_ok c env path"
  shows "\<exists>d. \<forall>f. after_garbage c env path f = (f (c\<lparr>c_disposed_cnt := d\<rparr>) env, c\<lparr>c_disposed_cnt := d\<rparr>, env)"
  using collect_garbage_ok [of env path c] assms by (fastforce simp: after_garbage_def coll_ok_def)

section \<open>Lists of keys and values\<close>

lemma map_upd_entries:
  "map (\<lambda>(k, p). (k, f p)) (upd_entries key p xs) = upd_entries key (f p) (map (\<lambda>(k, p). (k, f p)) xs)"
  by (simp add: upd_entries_def filter_map comp_def case_prod_unfold)

lemma map_del_entries:
  "map (\<lambda>(k, p). (k, f p)) (del_entries key xs) = del_entries key (map (\<lambda>(k, p). (k, f p)) xs)"
  by (simp add: del_entries_def filter_map comp_def case_prod_unfold)

lemma set_upd_entries: "set (upd_entries key p xs) \<subseteq> insert (key, p) (set xs)"
  by (auto simp: upd_entries_def)

lemma distinct_upd_entries:
  assumes "distinct (map snd xs)" "p \<notin> snd ` set xs"
  shows "distinct (map snd (upd_entries key p xs))"
proof -
  have "distinct (map snd (filter P xs))" for P using assms(1) by (rule distinct_map_filter)
  moreover have "snd ` set (filter (\<lambda>q. fst q < key) xs) \<inter> snd ` set (filter (\<lambda>q. key < fst q) xs) = {}"
    using assms(1) by (fastforce simp: distinct_map inj_on_def)
  ultimately show ?thesis using assms(2) by (auto simp: upd_entries_def)
qed

lemma coll_map_of: "map_of (coll_entries c env path) k = map_option (value_of c env path) (bt_view (c_data c) k)"
  unfolding coll_entries_def bt_view_def by (induction "bt_entries (c_data c)") (auto simp: map_of_map)

section \<open>Writing\<close>

text \<open>The environment changes only in the file and in the memory left.\<close>

definition only_file :: "string \<Rightarrow> db_env \<Rightarrow> db_env \<Rightarrow> bool" where
  "only_file path env env' \<longleftrightarrow>
     env_id env' = env_id env \<and> env_mode env' = env_mode env \<and> env_cwd env' = env_cwd env \<and>
     env_junk env' = env_junk env \<and> fs_full (env_fs env') = fs_full (env_fs env) \<and>
     (\<forall>q. q \<noteq> path \<longrightarrow> fs_lookup (env_fs env') q = fs_lookup (env_fs env) q)"

text \<open>What writing the record of a new object leaves: the file is longer by the record.\<close>

definition written ::
  "collection \<Rightarrow> db_env \<Rightarrow> string \<Rightarrow> tkey \<Rightarrow> tvalue \<Rightarrow> collection \<Rightarrow> db_env \<Rightarrow> bool" where
  "written c env path k v c' env' \<longleftrightarrow>
     c_data c' = c_data c \<and> c_next c' = Suc (c_next c) \<and> c_records_cnt c' = c_records_cnt c \<and>
     only_file path env env' \<and>
     data_ok c' env' path k (c_next c) v \<and>
     (\<forall>j p w. p \<noteq> c_next c \<and> data_ok c env path j p w \<longrightarrow> data_ok c' env' path j p w) \<and>
     (env_mode env = File_system \<longrightarrow> data_file env' path \<and>
        (\<exists>old. fs_open_read (env_fs env) path = Some old \<and>
           fs_open_read (env_fs env') path = Some (old @ record_bytes (the k) (personal_id v) (the (tname v)))))"

lemma make_path_longer: "path \<noteq> make_path_strings [path, show_nat n]"
proof -
  have "length path < length (make_path_strings [path, show_nat n])"
    using show_nat_not_Nil [of n] by (simp add: make_path_strings_def)
  then show ?thesis by force
qed

lemma write_new:
  assumes ok: "coll_ok c env path" and w: "writable env k v"
  shows "\<exists>c2 env2 c3 env3.
    new_data c env (if env_mode env = File_system then file_tdata_new (-1) else ram_tdata_new v) =
      Some (c_next c, c2, env2) \<and>
    (if env_mode env = File_system then serialize_data c2 env2 (c_next c) path k v False
     else (Inr (), c2, env2)) = (Inr (), c3, env3) \<and>
    written c env path k v c3 env3"
proof (cases "env_mode env = File_system")
  case False
  let ?c = "c\<lparr>c_objects := (c_objects c)(c_next c \<mapsto> Ram_tdata v), c_next := Suc (c_next c)\<rparr>"
    and ?e = "env\<lparr>env_memory := env_memory env - 1\<rparr>"
  have "written c env path k v ?c ?e"
    using False by (auto simp: written_def only_file_def data_ok_def)
  then show ?thesis using False w by (auto simp: new_data_def writable_def ram_tdata_new_def)
next
  case True
  obtain old where old: "fs_open_read (env_fs env) path = Some old" "length old \<noteq> 1"
      "\<not> fs_exists (env_fs env) (make_path_strings [path, show_nat (unat (env_id env))])"
    using ok True by (auto simp: coll_ok_def data_file_def)
  obtain kk n where kn: "k = Some kk" "tname v = Some n" "length kk < 2 ^ 64" "length n < 2 ^ 64"
      "\<not> fs_full (env_fs env)" "0 < env_memory env"
    using w True by (auto simp: writable_def)
  let ?rec = "record_bytes kk (personal_id v) n"
  let ?fs = "fs_put (env_fs env) path (File (old @ ?rec))"
  let ?c2 = "c\<lparr>c_objects := (c_objects c)(c_next c \<mapsto> File_tdata (-1)), c_next := Suc (c_next c)\<rparr>"
  let ?c = "c\<lparr>c_next := Suc (c_next c), c_objects := (c_objects c)(c_next c \<mapsto> File_tdata (int (length old)))\<rparr>"
    and ?e = "env\<lparr>env_memory := env_memory env - 1, env_fs := ?fs\<rparr>"
  have op: "fs_open_append (env_fs env) path = Some (env_fs env)"
    using old(1) by (auto simp: fs_open_append_def fs_open_read_def split: option.splits fs_entry.splits)
  have ser: "serialize (env_fs env) (-1) path (Some kk) v False = (Inr (), int (length old), ?fs)"
    using serialize_fresh [OF op kn(5) old(1) kn(2)] by simp
  have "written c env path k v ?c ?e"
    unfolding written_def
  proof (intro conjI allI impI)
    show "data_ok ?c ?e path k (c_next c) v"
      using True kn old(2) record_at_end [OF kn(2-4), of old] by (simp add: data_ok_def)
    show "data_ok ?c ?e path j p w" if "p \<noteq> c_next c \<and> data_ok c env path j p w" for j p w
      using that True old(1) record_at_grows by (fastforce simp: data_ok_def)
    show "data_file ?e path"
      using old make_path_longer [of path "unat (env_id env)"] by (auto simp: data_file_def fs_exists_def length_record)
    show "\<exists>old. fs_open_read (env_fs env) path = Some old \<and>
        fs_open_read (env_fs ?e) path = Some (old @ record_bytes (the k) (personal_id v) (the (tname v)))"
      using old(1) kn by simp
  qed (simp_all add: only_file_def)
  then show ?thesis
    using True kn(1,6) ser by (auto simp: new_data_def serialize_data_def file_tdata_new_def)
qed

lemma free_data_ok:
  assumes "coll_ok c env path" "p \<notin> snd ` set (bt_entries (c_data c))" "free_data c env p = (c', env')"
  shows "coll_ok c' env' path" "coll_entries c' env' path = coll_entries c env path" "only_file path env env'"
    "fs_open_read (env_fs env') path = fs_open_read (env_fs env) path"
proof -
  have e: "env' = env\<lparr>env_memory := env_memory env + 1\<rparr>" "c' = c\<lparr>c_objects := (c_objects c)(p := None)\<rparr>"
    using assms(3) by (simp_all add: free_data_def)
  have d: "data_ok c' env' path k q v" if "data_ok c env path k q v" "q \<noteq> p" for k q v
    using that by (auto simp: data_ok_def e)
  have n: "(k, q) \<in> set (bt_entries (c_data c)) \<Longrightarrow> q \<noteq> p" for k q using assms(2) by force
  show "coll_ok c' env' path"
    using assms(1) d n by (fastforce simp: coll_ok_def e data_file_def)
  have "value_of c' env' path q = value_of c env path q" if "(k, q) \<in> set (bt_entries (c_data c))" for k q
    using data_ok_read(2) [OF d [OF coll_ok_read(2) [OF assms(1) that] n [OF that]]] .
  then show "coll_entries c' env' path = coll_entries c env path" by (auto simp: coll_entries_def e)
  show "only_file path env env'" "fs_open_read (env_fs env') path = fs_open_read (env_fs env) path"
    by (simp_all add: only_file_def e)
qed

lemma only_file_trans: "only_file p a b \<Longrightarrow> only_file p b c \<Longrightarrow> only_file p a c"
  by (simp add: only_file_def)

lemma only_file_refl [simp]: "only_file p a a"
  by (simp add: only_file_def)

text \<open>The collection after the tree has taken the new pointer in.\<close>

lemma written_in_tree:
  assumes ok: "coll_ok c env path" and w: "written c env path k v c' env'"
    and tr: "bt_inv tkey_comparer tr" "bt_entries tr = upd_entries k (c_next c) (bt_entries (c_data c))"
  shows "coll_ok (c'\<lparr>c_data := tr\<rparr>) env' path"
    "coll_entries (c'\<lparr>c_data := tr\<rparr>) env' path = upd_entries k v (coll_entries c env path)"
proof -
  let ?c = "c'\<lparr>c_data := tr\<rparr>"
  have same [simp]: "data_ok ?c env' path = data_ok c' env' path" "value_of ?c env' path = value_of c' env' path"
    by (auto simp: data_ok_def value_of_def read_data_def fun_eq_iff)
  have fresh: "c_next c \<notin> snd ` set (bt_entries (c_data c))" using coll_ok_read(3) [OF ok] by force
  have old: "data_ok c' env' path j p (value_of c env path p)" if "(j, p) \<in> set (bt_entries (c_data c))" for j p
    using w coll_ok_read(2,3) [OF ok that] by (auto simp: written_def)
  have new: "data_ok c' env' path k (c_next c) v" using w by (simp add: written_def)
  have "p < c_next ?c \<and> (\<exists>v. data_ok ?c env' path j p v)" if "(j, p) \<in> set (bt_entries tr)" for j p
    using that set_upd_entries old new coll_ok_read(3) [OF ok, of j p] w
    unfolding tr(2) by (fastforce simp: written_def)
  then show "coll_ok ?c env' path"
    using ok w tr distinct_upd_entries [OF _ fresh] by (auto simp: coll_ok_def written_def only_file_def)
  have "value_of c' env' path p = value_of c env path p" if "(j, p) \<in> set (bt_entries (c_data c))" for j p
    using data_ok_read(2) [OF old [OF that]] .
  then have "map (\<lambda>(k, p). (k, value_of c' env' path p)) (bt_entries (c_data c)) = coll_entries c env path"
    by (auto simp: coll_entries_def)
  then show "coll_entries ?c env' path = upd_entries k v (coll_entries c env path)"
    using data_ok_read(2) [OF new] by (simp add: coll_entries_def [of ?c] tr(2) map_upd_entries)
qed

lemma written_not_in_tree:
  assumes ok: "coll_ok c env path" and w: "written c env path k v c' env'"
  shows "coll_ok c' env' path" "coll_entries c' env' path = coll_entries c env path"
    "c_next c \<notin> snd ` set (bt_entries (c_data c'))"
proof -
  have old: "data_ok c' env' path j p (value_of c env path p)" if "(j, p) \<in> set (bt_entries (c_data c))" for j p
    using w coll_ok_read(2,3) [OF ok that] by (auto simp: written_def)
  then show "coll_ok c' env' path"
    using ok w coll_ok_read(3) [OF ok] by (fastforce simp: coll_ok_def written_def only_file_def)
  show "coll_entries c' env' path = coll_entries c env path"
    using data_ok_read(2) [OF old] w by (auto simp: coll_entries_def written_def)
  show "c_next c \<notin> snd ` set (bt_entries (c_data c'))" using coll_ok_read(3) [OF ok] w by (force simp: written_def)
qed

text \<open>The body of insertion and update, up to the call on the tree.\<close>

lemma put_data_steps:
  assumes ok: "coll_ok c env path" and w: "writable env k v"
  shows "\<exists>c3 env3. written c env path k v c3 env3 \<and>
    put_data tree_op caught c env k v path =
      (case tree_op (c_data c) k (c_next c) of
         (Inr _, tr) \<Rightarrow> (Inr (), c3\<lparr>c_data := tr\<rparr>, env3)
       | (Inl e, tr) \<Rightarrow>
           (case caught e of
              Some e' \<Rightarrow> (Inl e', free_data (c3\<lparr>c_data := tr\<rparr>) env3 (c_next c))
            | None \<Rightarrow> (Inl (tree_failure e), c3\<lparr>c_data := tr\<rparr>, env3)))"
proof -
  obtain d where g: "collect_garbage c env path = (Inr (), c\<lparr>c_disposed_cnt := d\<rparr>, env)"
    using collect_garbage_ok [of env path c] ok by (auto simp: coll_ok_def)
  let ?c1 = "c\<lparr>c_disposed_cnt := d\<rparr>"
  have ok1: "coll_ok ?c1 env path" using ok by simp
  from write_new [OF ok1 w] obtain c2 env2 c3 env3 where n:
      "new_data ?c1 env (if env_mode env = File_system then file_tdata_new (-1) else ram_tdata_new v) =
        Some (c_next ?c1, c2, env2)"
      "(if env_mode env = File_system then serialize_data c2 env2 (c_next ?c1) path k v False
        else (Inr (), c2, env2)) = (Inr (), c3, env3)"
      "written ?c1 env path k v c3 env3" by blast
  have w3: "written c env path k v c3 env3" using n(3) by (simp add: written_def)
  have "c_data c3 = c_data c" using w3 by (simp add: written_def)
  then show ?thesis
    using w3 n(1,2)
    by (intro exI [of _ c3] exI [of _ env3] conjI; cases "env_mode env = File_system") (simp_all add: put_data_def g)
qed

lemma put_data_ok:
  assumes ok: "coll_ok c env path" and w: "writable env k v"
    and tr: "tree_op (c_data c) k (c_next c) = (Inr (), tr)" "bt_inv tkey_comparer tr"
      "bt_entries tr = upd_entries k (c_next c) (bt_entries (c_data c))"
  shows "\<exists>c' env'. put_data tree_op caught c env k v path = (Inr (), c', env') \<and> coll_ok c' env' path \<and>
    coll_entries c' env' path = upd_entries k v (coll_entries c env path) \<and> only_file path env env' \<and>
    c_data c' = tr \<and> c_records_cnt c' = c_records_cnt c"
proof -
  obtain c3 env3 where s: "written c env path k v c3 env3"
      "put_data tree_op caught c env k v path = (Inr (), c3\<lparr>c_data := tr\<rparr>, env3)"
    using put_data_steps [OF ok w, of tree_op caught] tr(1) by auto
  then show ?thesis using written_in_tree [OF ok s(1) tr(2,3)] by (auto simp: written_def)
qed

lemma put_data_caught:
  assumes ok: "coll_ok c env path" and w: "writable env k v"
    and tr: "tree_op (c_data c) k (c_next c) = (Inl e, c_data c)" "caught e = Some e'"
  shows "\<exists>c' env'. put_data tree_op caught c env k v path = (Inl e', c', env') \<and> coll_ok c' env' path \<and>
    coll_entries c' env' path = coll_entries c env path \<and> only_file path env env' \<and> c_data c' = c_data c \<and>
    c_records_cnt c' = c_records_cnt c \<and>
    (env_mode env = File_system \<longrightarrow> fs_size (env_fs env') path =
       fs_size (env_fs env) path + length (record_bytes (the k) (personal_id v) (the (tname v))))"
proof -
  obtain c3 env3 where s: "written c env path k v c3 env3"
      "put_data tree_op caught c env k v path = (Inl e', free_data (c3\<lparr>c_data := c_data c\<rparr>) env3 (c_next c))"
    using put_data_steps [OF ok w, of tree_op caught] tr by auto
  have c3: "c3\<lparr>c_data := c_data c\<rparr> = c3" using s(1) by (simp add: written_def)
  obtain c' env' where f: "free_data c3 env3 (c_next c) = (c', env')" by fastforce
  note n = written_not_in_tree [OF ok s(1)]
  note r = free_data_ok [OF n(1) n(3) f]
  have o: "only_file path env env'" using s(1) r(3) only_file_trans by (auto simp: written_def)
  have size: "fs_size (env_fs env') path =
      fs_size (env_fs env) path + length (record_bytes (the k) (personal_id v) (the (tname v)))"
    if m: "env_mode env = File_system"
  proof -
    obtain old where "fs_open_read (env_fs env) path = Some old"
        "fs_open_read (env_fs env3) path = Some (old @ record_bytes (the k) (personal_id v) (the (tname v)))"
      using s(1) m unfolding written_def by blast
    then show ?thesis using r(4) by (simp add: fs_size_def)
  qed
  have d: "c_data c' = c_data c" "c_records_cnt c' = c_records_cnt c"
    using f s(1) by (auto simp: free_data_def written_def)
  have "put_data tree_op caught c env k v path = (Inl e', c', env')" using s(2) by (simp add: c3 f)
  then show ?thesis using r(1,2) n(2) o size d by auto
qed

section \<open>The operations\<close>

lemma fst_coll_entries: "fst ` set (coll_entries c env path) = fst ` set (bt_entries (c_data c))"
  by (force simp: coll_entries_def)

lemma coll_ok_tree: "coll_ok c env path \<Longrightarrow> bt_ok (c_data c) \<and> bt_keys_comparer (c_data c) = tkey_comparer"
  by (simp add: coll_ok_def bt_inv_def)

lemma collection_insert_new:
  assumes ok: "coll_ok c env path" and w: "writable env k v" and k: "k \<notin> fst ` set (coll_entries c env path)"
    and fits: "bt_fits (c_data c)"
  shows "\<exists>c' env'. collection_insert c env k v path = (Inr (), c', env') \<and> coll_ok c' env' path \<and>
    coll_entries c' env' path = upd_entries k v (coll_entries c env path) \<and> only_file path env env' \<and>
    c_records_cnt c' = c_records_cnt c + 1"
proof -
  obtain tr where tr: "bt_insert (c_data c) k (c_next c) = (Inr (), tr)" "bt_inv tkey_comparer tr"
      "bt_entries tr = upd_entries k (c_next c) (bt_entries (c_data c))"
    using key_order.insert_inner_absent [OF tkeys.key_order_axioms, of "c_data c" k "c_next c"] coll_ok_tree [OF ok] k fits
    by (auto simp: fst_coll_entries bt_insert_def bt_inv_def bt_fits_def)
  from put_data_ok [where tree_op = bt_insert and caught = insertion_caught, OF ok w tr]
  obtain c' env' where r: "put_data bt_insert insertion_caught c env k v path = (Inr (), c', env')" "coll_ok c' env' path"
      "coll_entries c' env' path = upd_entries k v (coll_entries c env path)" "only_file path env env'"
      "c_records_cnt c' = c_records_cnt c" by blast
  then show ?thesis
    by (intro exI [of _ "c'\<lparr>c_records_cnt := c_records_cnt c' + 1\<rparr>"] exI [of _ env'])
      (simp add: collection_insert_def count_record_def)
qed

lemma collection_insert_old:
  assumes ok: "coll_ok c env path" and w: "writable env k v" and k: "k \<in> fst ` set (coll_entries c env path)"
  shows "\<exists>c' env'. collection_insert c env k v path = (Inl Db_insertion_of_existent_key, c', env') \<and>
    coll_ok c' env' path \<and> coll_entries c' env' path = coll_entries c env path \<and> only_file path env env' \<and>
    c_records_cnt c' = c_records_cnt c \<and>
    (env_mode env = File_system \<longrightarrow> fs_size (env_fs env') path =
       fs_size (env_fs env) path + length (record_bytes (the k) (personal_id v) (the (tname v))))"
proof -
  have tr: "bt_insert (c_data c) k (c_next c) = (Inl (Insertion_of_existent_key k), c_data c)"
    using key_order.insert_inner_existing [OF tkeys.key_order_axioms, of "c_data c" k "c_next c"] coll_ok_tree [OF ok] k
    by (auto simp: fst_coll_entries bt_insert_def)
  have "insertion_caught (Insertion_of_existent_key k) = Some Db_insertion_of_existent_key"
    by (simp add: insertion_caught_def)
  from put_data_caught [where tree_op = bt_insert and caught = insertion_caught, OF ok w tr this] show ?thesis
    by (fastforce simp: collection_insert_def count_record_def)
qed

lemma collection_update_old:
  assumes ok: "coll_ok c env path" and w: "writable env k v" and k: "k \<in> fst ` set (coll_entries c env path)"
  shows "\<exists>c' env'. collection_update c env k v path = (Inr (), c', env') \<and> coll_ok c' env' path \<and>
    coll_entries c' env' path = upd_entries k v (coll_entries c env path) \<and> only_file path env env' \<and>
    c_records_cnt c' = c_records_cnt c"
proof -
  obtain tr where tr: "bt_update (c_data c) k (c_next c) = (Inr (), tr)" "bt_inv tkey_comparer tr"
      "bt_entries tr = upd_entries k (c_next c) (bt_entries (c_data c))"
    using key_order.insert_inner_update [OF tkeys.key_order_axioms, of "c_data c" k "c_next c"] coll_ok_tree [OF ok] k
    by (auto simp: fst_coll_entries bt_update_def bt_inv_def)
  from put_data_ok [where tree_op = bt_update and caught = updating_caught, OF ok w tr] show ?thesis
    by (fastforce simp: collection_update_def)
qed

lemma collection_update_new:
  assumes ok: "coll_ok c env path" and w: "writable env k v" and k: "k \<notin> fst ` set (coll_entries c env path)"
  shows "\<exists>c' env'. collection_update c env k v path = (Inl Db_updating_of_nonexistent_key, c', env') \<and>
    coll_ok c' env' path \<and> coll_entries c' env' path = coll_entries c env path \<and> only_file path env env' \<and>
    (env_mode env = File_system \<longrightarrow> fs_size (env_fs env') path =
       fs_size (env_fs env) path + length (record_bytes (the k) (personal_id v) (the (tname v))))"
proof -
  have tr: "bt_update (c_data c) k (c_next c) = (Inl (Updating_of_nonexistent_key k), c_data c)"
    using key_order.insert_inner_update_missing [OF tkeys.key_order_axioms, of "c_data c" k "c_next c"] coll_ok_tree [OF ok] k
    by (auto simp: fst_coll_entries bt_update_def)
  have "updating_caught (Updating_of_nonexistent_key k) = Some Db_updating_of_nonexistent_key"
    by (simp add: updating_caught_def)
  from put_data_caught [where tree_op = bt_update and caught = updating_caught, OF ok w tr this] show ?thesis
    by (fastforce simp: collection_update_def)
qed

end
