(* ===== verification/Collection_Queries.thy ===== *)
theory Collection_Queries
  imports Collection_Correct
begin

text \<open>
  Disposal and the lookups of a collection, read as operations on the list \<open>coll_entries\<close>; the
  contract of a table as a locale, and the collections as an instance of it.
\<close>

section \<open>Disposal\<close>

lemma collection_dispose_old:
  assumes ok: "coll_ok c env path" and k: "map_of (coll_entries c env path) k = Some v"
    and room: "bt_has_room (c_data c)"
  shows "\<exists>c' env'. collection_dispose c env k path = (Inr v, c', env') \<and> coll_ok c' env' path \<and>
    coll_entries c' env' path = del_entries k (coll_entries c env path) \<and> only_file path env env' \<and>
    env_fs env' = env_fs env \<and> c_records_cnt c' = c_records_cnt c - 1 \<and> c_disposed_cnt c' = c_disposed_cnt c + 1"
proof -
  obtain p where p: "map_of (bt_entries (c_data c)) k = Some p" "value_of c env path p = v"
    using k by (auto simp: coll_map_of bt_view_def)
  have kp: "(k, p) \<in> set (bt_entries (c_data c))" using p(1) by (rule map_of_SomeD)
  obtain tr where tr: "bt_dispose (c_data c) k = (Inr p, tr)" "bt_ok tr" "bt_keys_comparer tr = tkey_comparer"
      "bt_entries tr = del_entries k (bt_entries (c_data c))"
    using key_order.bt_dispose_present [OF tkeys.key_order_axioms _ _ p(1) room] coll_ok_tree [OF ok] by blast
  let ?c1 = "c\<lparr>c_data := tr\<rparr>"
  have same [simp]: "data_ok ?c1 env path = data_ok c env path" "value_of ?c1 env path = value_of c env path"
      "read_data ?c1 env path = read_data c env path"
    by (auto simp: data_ok_def value_of_def read_data_def fun_eq_iff)
  have sub: "set (bt_entries tr) \<subseteq> set (bt_entries (c_data c))" by (auto simp: tr(4) del_entries_def)
  have d: "distinct (map snd (bt_entries (c_data c)))" using ok by (simp add: coll_ok_def)
  have "distinct (map snd (bt_entries tr))" unfolding tr(4) del_entries_def using d by (rule distinct_map_filter)
  then have ok1: "coll_ok ?c1 env path" using ok sub tr(2,3) by (fastforce simp: coll_ok_def bt_inv_def)
  have e1: "coll_entries ?c1 env path = del_entries k (coll_entries c env path)"
    by (simp add: coll_entries_def tr(4) map_del_entries)
  have "p \<notin> snd ` set (bt_entries tr)"
    using d kp by (force simp: tr(4) del_entries_def distinct_map inj_on_def)
  then have fresh: "p \<notin> snd ` set (bt_entries (c_data ?c1))" by simp
  obtain c2 env2 where f: "free_data ?c1 env p = (c2, env2)" by fastforce
  note r = free_data_ok [OF ok1 fresh f]
  have "env_fs env2 = env_fs env" "c_records_cnt c2 = c_records_cnt c" "c_disposed_cnt c2 = c_disposed_cnt c"
    using f by (auto simp: free_data_def)
  moreover have "read_data c env path p ''Failed to parse disposed data'' = Inr v"
    using coll_ok_read(1) [OF ok kp] p(2) by simp
  ultimately show ?thesis
    using r(1-3) by (simp add: collection_dispose_def tr(1) Let_def f e1)
qed

lemma collection_dispose_new:
  assumes ok: "coll_ok c env path" and k: "k \<notin> fst ` set (coll_entries c env path)"
  shows "collection_dispose c env k path = (Inl Db_disposal_of_nonexistent_key, c, env)"
proof -
  have "map_of (bt_entries (c_data c)) k = None" using k by (simp add: fst_coll_entries map_of_eq_None_iff)
  then have "bt_dispose (c_data c) k = (Inl (Disposal_of_nonexistent_key k), c_data c)"
    using key_order.bt_dispose_missing [OF tkeys.key_order_axioms] coll_ok_tree [OF ok] by blast
  then show ?thesis by (simp add: collection_dispose_def)
qed

section \<open>Lookups\<close>

lemma collection_obtain_exact:
  assumes ok: "coll_ok c env path"
  shows "\<exists>d. collection_obtain c env k path =
    (case map_of (coll_entries c env path) k of None \<Rightarrow> Inl Db_obtaining_of_nonexistent_key | Some v \<Rightarrow> Inr v,
     c\<lparr>c_disposed_cnt := d\<rparr>, env)"
proof -
  obtain d where d: "\<And>f :: collection \<Rightarrow> db_env \<Rightarrow> db_exn + tvalue.
      after_garbage c env path f = (f (c\<lparr>c_disposed_cnt := d\<rparr>) env, c\<lparr>c_disposed_cnt := d\<rparr>, env)"
    using after_garbage_ok [OF ok] by blast
  have o: "bt_obtain (c_data c) k = (case map_of (bt_entries (c_data c)) k of
      None \<Rightarrow> Inl (Obtaining_of_nonexistent_key k) | Some p \<Rightarrow> Inr p)"
    using key_order.bt_obtain_correct [OF tkeys.key_order_axioms] coll_ok_tree [OF ok] by blast
  show ?thesis
  proof (cases "map_of (bt_entries (c_data c)) k")
    case None
    then show ?thesis
      using o by (intro exI [of _ d]) (simp add: collection_obtain_def d coll_map_of bt_view_def)
  next
    case (Some p)
    then have "(k, p) \<in> set (bt_entries (c_data c))" by (rule map_of_SomeD)
    then show ?thesis
      using o Some coll_ok_read(1) [OF ok]
      by (intro exI [of _ d]) (simp add: collection_obtain_def d coll_map_of bt_view_def)
  qed
qed

lemma read_all_ok:
  assumes "coll_ok c env path" "set kps \<subseteq> set (bt_entries (c_data c))"
  shows "read_all c env path kps = Inr (map (\<lambda>(k, p). (k, value_of c env path p)) kps)"
  using assms(2) by (induction kps) (auto simp: coll_ok_read(1) [OF assms(1)])

lemma read_all_counter [simp]: "read_all (c\<lparr>c_disposed_cnt := d\<rparr>) env path kps = read_all c env path kps"
  by (induction kps) (auto split: sum.splits)

lemma sorted_coll_entries: "coll_ok c env path \<Longrightarrow> sorted_keys (coll_entries c env path)"
proof -
  assume "coll_ok c env path"
  then have "tree_ok (bt_t (c_data c)) (bt_root (c_data c))" using coll_ok_tree by (auto simp: bt_ok_def)
  then have "sorted_keys (bt_entries (c_data c))"
    by (cases "bt_root (c_data c)") (simp_all add: tree_ok_def bt_entries_def)
  moreover have "map fst (coll_entries c env path) = map fst (bt_entries (c_data c))"
    by (simp add: coll_entries_def comp_def case_prod_unfold)
  ultimately show ?thesis by simp
qed

lemma distinct_sorted: "sorted_keys xs \<Longrightarrow> distinct (map fst xs)"
  by (induction xs) auto

lemma collection_obtain_between_exact:
  assumes ok: "coll_ok c env path" and root: "bt_root (c_data c) \<noteq> None"
  shows "\<exists>d. collection_obtain_between c env lo hi li ui path =
    (Inr (filter (\<lambda>p. (if li then lo \<le> fst p else lo < fst p) \<and> (if ui then fst p \<le> hi else fst p < hi))
       (coll_entries c env path)), c\<lparr>c_disposed_cnt := d\<rparr>, env)"
proof -
  let ?P = "\<lambda>k. (if li then lo \<le> k else lo < k) \<and> (if ui then k \<le> hi else k < hi)"
  have b: "bt_obtain_between (c_data c) lo hi li ui = Some (Inr (filter (\<lambda>p. ?P (fst p)) (bt_entries (c_data c))))"
    using key_order.bt_obtain_between_correct [OF tkeys.key_order_axioms _ _ root] coll_ok_tree [OF ok]
    by (simp add: above_lower_def below_upper_def)
  have r: "read_all c env path (filter (\<lambda>p. ?P (fst p)) (bt_entries (c_data c))) =
      Inr (filter (\<lambda>p. ?P (fst p)) (coll_entries c env path))"
    by (subst read_all_ok [OF ok]) (auto simp: coll_entries_def filter_map comp_def case_prod_unfold)
  obtain d where d: "\<And>f :: collection \<Rightarrow> db_env \<Rightarrow> db_exn + (tkey \<times> tvalue) list.
      after_garbage c env path f = (f (c\<lparr>c_disposed_cnt := d\<rparr>) env, c\<lparr>c_disposed_cnt := d\<rparr>, env)"
    using after_garbage_ok [OF ok] by blast
  show ?thesis by (intro exI [of _ d]) (simp add: collection_obtain_between_def d b r)
qed

lemma collection_obtain_between_empty:
  assumes ok: "coll_ok c env path" and root: "bt_root (c_data c) = None"
  shows "fst (collection_obtain_between c env lo hi li ui path) = Inl Db_undefined_behaviour"
proof -
  obtain d where d: "\<And>f :: collection \<Rightarrow> db_env \<Rightarrow> db_exn + (tkey \<times> tvalue) list.
      after_garbage c env path f = (f (c\<lparr>c_disposed_cnt := d\<rparr>) env, c\<lparr>c_disposed_cnt := d\<rparr>, env)"
    using after_garbage_ok [OF ok] by blast
  show ?thesis
    using root by (simp add: collection_obtain_between_def d bt_obtain_between_def tree_failure_def)
qed

section \<open>The smallest, the greatest and the next key\<close>

lemma bt_entries_Nil:
  assumes "bt_ok tr"
  shows "bt_entries tr = [] \<longleftrightarrow> bt_root tr = None"
proof (cases "bt_root tr")
  case (Some n)
  then have "tree_ok (bt_t tr) (Some n)" "2 \<le> bt_t tr" using assms by (simp_all add: bt_ok_def)
  then obtain h where "wf_node (bt_t tr) h n" "1 \<le> virtual_size n" "2 \<le> bt_t tr" by (metis tree_ok_SomeE)
  then have "inorder n \<noteq> []" using push_rightmost_correct by metis
  then show ?thesis using Some by (simp add: bt_entries_def)
qed (simp add: bt_entries_def)

lemma tree_iteration:
  assumes "coll_ok c env path"
  obtains st where "begin_infix (c_data c) = Some st" "iter_ok (bt_t (c_data c)) st" "2 \<le> bt_t (c_data c)"
    "iter_rest st = bt_entries (c_data c)"
  using begin_infix_correct [of "c_data c"] coll_ok_tree [OF assms] by (auto simp: bt_ok_def)

lemma iterator_pair:
  assumes "iter_ok t st" "2 \<le> t" "iter_rest st = (k, p) # rest"
  shows "infix_iterator_eq st [] \<longleftrightarrow> False" "\<exists>d i. infix_iterator_deref st = Inr (d, i, k, p)"
    "\<exists>st'. infix_iterator_next st = Some st' \<and> iter_ok t st' \<and> iter_rest st' = rest"
proof -
  have ne: "st \<noteq> []" using iter_rest_Nil_iff [OF assms(1)] assms(3) by simp
  then show "infix_iterator_eq st [] \<longleftrightarrow> False" by (simp add: infix_iterator_eq_def)
  show "\<exists>d i. infix_iterator_deref st = Inr (d, i, k, p)" using infix_iterator_deref_correct [OF assms(1) ne] assms(3) by auto
  show "\<exists>st'. infix_iterator_next st = Some st' \<and> iter_ok t st' \<and> iter_rest st' = rest"
    using infix_iterator_next_correct [OF assms(1,2)] assms(3) by simp
qed

lemma iterator_end:
  assumes "iter_ok t st" "iter_rest st = []"
  shows "st = []" "infix_iterator_eq st []"
  using iter_rest_Nil_iff [OF assms(1)] assms(2) by (simp_all add: infix_iterator_eq_def)

lemma read_pair_ok:
  assumes "coll_ok c env path" "(k, p) \<in> set (bt_entries (c_data c))"
  shows "read_pair (c\<lparr>c_disposed_cnt := d\<rparr>) env path k p = Inr (k, value_of c env path p)"
  using coll_ok_read(1) [OF assms] by (simp add: read_pair_def)

lemma collection_obtain_min_exact:
  assumes ok: "coll_ok c env path"
  shows "\<exists>d. collection_obtain_min c env path =
    (case coll_entries c env path of [] \<Rightarrow> Inl Db_obtaining_of_nonexistent_key | x # _ \<Rightarrow> Inr x,
     c\<lparr>c_disposed_cnt := d\<rparr>, env)"
proof -
  obtain d where d: "\<And>f :: collection \<Rightarrow> db_env \<Rightarrow> db_exn + (tkey \<times> tvalue).
      after_garbage c env path f = (f (c\<lparr>c_disposed_cnt := d\<rparr>) env, c\<lparr>c_disposed_cnt := d\<rparr>, env)"
    using after_garbage_ok [OF ok] by blast
  obtain st where st: "begin_infix (c_data c) = Some st" "iter_ok (bt_t (c_data c)) st" "2 \<le> bt_t (c_data c)"
      "iter_rest st = bt_entries (c_data c)"
    using ok by (rule tree_iteration)
  have e: "end_infix (c_data c) = Some []" by (simp add: end_infix_def infix_iterator_new_def)
  show ?thesis
  proof (cases "bt_entries (c_data c)")
    case Nil
    then have "infix_iterator_eq st []" using iterator_end [OF st(2)] st(4) by simp
    then show ?thesis
      using Nil by (intro exI [of _ d]) (simp add: collection_obtain_min_def d st(1) e coll_entries_def)
  next
    case (Cons x xs)
    obtain k p where x: "x = (k, p)" by fastforce
    note it = iterator_pair [OF st(2,3), unfolded st(4) Cons x, OF refl]
    obtain dp i where "infix_iterator_deref st = Inr (dp, i, k, p)" using it(2) by blast
    moreover have "(k, p) \<in> set (bt_entries (c_data c))" by (simp add: Cons x)
    ultimately show ?thesis
      using it(1) read_pair_ok [OF ok]
      by (intro exI [of _ d]) (simp add: collection_obtain_min_def d st(1) e coll_entries_def Cons x)
  qed
qed

lemma collection_obtain_max_exact:
  assumes ok: "coll_ok c env path"
  shows "\<exists>d. collection_obtain_max c env path =
    (if coll_entries c env path = [] then Inl Db_obtaining_of_nonexistent_key else Inr (last (coll_entries c env path)),
     c\<lparr>c_disposed_cnt := d\<rparr>, env)"
proof -
  obtain d where d: "\<And>f :: collection \<Rightarrow> db_env \<Rightarrow> db_exn + (tkey \<times> tvalue).
      after_garbage c env path f = (f (c\<lparr>c_disposed_cnt := d\<rparr>) env, c\<lparr>c_disposed_cnt := d\<rparr>, env)"
    using after_garbage_ok [OF ok] by blast
  have e: "rend_infix (c_data c) = Some []" by (simp add: rend_infix_def infix_reverse_iterator_new_def)
  show ?thesis
  proof (cases "bt_root (c_data c)")
    case None
    then have "rbegin_infix (c_data c) = Some []" "coll_entries c env path = []"
      by (simp_all add: rbegin_infix_def infix_reverse_iterator_new_def coll_entries_def bt_entries_def)
    then show ?thesis
      by (intro exI [of _ d]) (simp add: collection_obtain_max_def d e infix_reverse_iterator_eq_def)
  next
    case (Some n)
    have ok': "bt_ok (c_data c)" using coll_ok_tree [OF ok] by simp
    obtain st dp i where st: "rbegin_infix (c_data c) = Some st"
        "infix_reverse_iterator_deref st = Inr (dp, i, last (bt_entries (c_data c)))"
      using rbegin_infix_correct [OF ok'] Some by auto
    have ne: "st \<noteq> []" using st(2) by (auto simp: infix_reverse_iterator_deref_def)
    have "bt_entries (c_data c) \<noteq> []" using bt_entries_Nil [OF ok'] Some by simp
    moreover obtain k p where l: "last (bt_entries (c_data c)) = (k, p)" by fastforce
    ultimately have kp: "(k, p) \<in> set (bt_entries (c_data c))" by (metis last_in_set)
    show ?thesis
      using st ne read_pair_ok [OF ok kp] l \<open>bt_entries (c_data c) \<noteq> []\<close>
      by (intro exI [of _ d])
        (simp add: collection_obtain_max_def d e infix_reverse_iterator_eq_def coll_entries_def last_map)
  qed
qed

lemma seek_key_correct:
  assumes "iter_ok t st" "2 \<le> t" "length (iter_rest st) < fuel"
  shows "\<exists>st'. seek_key fuel key st = Some st' \<and> iter_ok t st' \<and>
    iter_rest st' = dropWhile (\<lambda>p. fst p \<noteq> key) (iter_rest st)"
  using assms
proof (induction fuel arbitrary: st)
  case (Suc fuel)
  show ?case
  proof (cases "iter_rest st")
    case Nil
    then show ?thesis
      using iterator_end [OF Suc.prems(1)] Suc.prems(1) by (simp add: infix_iterator_neq_def)
  next
    case (Cons x xs)
    obtain k p where x: "x = (k, p)" by fastforce
    note it = iterator_pair [OF Suc.prems(1,2), unfolded Cons x, OF refl]
    obtain d i st' where n: "infix_iterator_deref st = Inr (d, i, k, p)" "infix_iterator_next st = Some st'"
        "iter_ok t st'" "iter_rest st' = xs"
      using it(2,3) by blast
    have c: "tkey_comparer key k \<noteq> 0 \<longleftrightarrow> k \<noteq> key" by (auto simp: tkeys.cmp_eq)
    show ?thesis
    proof (cases "k = key")
      case True
      then show ?thesis
        using it(1) n(1) c Suc.prems(1) by (simp add: infix_iterator_neq_def Cons x)
    next
      case False
      have "length (iter_rest st') < fuel" using Suc.prems(3) n(4) by (simp add: Cons)
      from Suc.IH [OF n(3) Suc.prems(2) this] show ?thesis
        using it(1) n False c by (auto simp: infix_iterator_neq_def Cons x)
    qed
  qed
qed simp

text \<open>\<open>obtain_next\<close> answers with the entry after the key's, or with the key's own when it is the last.\<close>

definition next_entry :: "'k \<Rightarrow> ('k \<times> 'v) list \<Rightarrow> ('k \<times> 'v) option" where
  "next_entry key xs =
     (case dropWhile (\<lambda>p. fst p \<noteq> key) xs of [] \<Rightarrow> None | [x] \<Rightarrow> Some x | x # y # _ \<Rightarrow> Some y)"

lemma dropWhile_map_entries:
  "dropWhile (\<lambda>p. fst p \<noteq> key) (map (\<lambda>(k, p). (k, f p)) xs) =
   map (\<lambda>(k, p). (k, f p)) (dropWhile (\<lambda>p. fst p \<noteq> key) xs)"
  by (induction xs) auto

lemma collection_obtain_next_exact:
  assumes ok: "coll_ok c env path"
  shows "\<exists>d. collection_obtain_next c env path key =
    (case next_entry key (coll_entries c env path) of
       None \<Rightarrow> Inl Db_obtaining_of_nonexistent_key | Some x \<Rightarrow> Inr x,
     c\<lparr>c_disposed_cnt := d\<rparr>, env)"
proof -
  obtain d where d: "\<And>f :: collection \<Rightarrow> db_env \<Rightarrow> db_exn + (tkey \<times> tvalue).
      after_garbage c env path f = (f (c\<lparr>c_disposed_cnt := d\<rparr>) env, c\<lparr>c_disposed_cnt := d\<rparr>, env)"
    using after_garbage_ok [OF ok] by blast
  obtain st where st: "begin_infix (c_data c) = Some st" "iter_ok (bt_t (c_data c)) st" "2 \<le> bt_t (c_data c)"
      "iter_rest st = bt_entries (c_data c)"
    using ok by (rule tree_iteration)
  have fuel: "length (iter_rest st) < Suc (length (bt_entries (c_data c)))" by (simp add: st(4))
  obtain st1 where s: "seek_key (Suc (length (bt_entries (c_data c)))) key st = Some st1"
      "iter_ok (bt_t (c_data c)) st1" "iter_rest st1 = dropWhile (\<lambda>p. fst p \<noteq> key) (bt_entries (c_data c))"
    using seek_key_correct [OF st(2,3) fuel] st(4) by metis
  have sk: "Option.bind (begin_infix (c_data c)) (seek_key (Suc (length (bt_entries (c_data c)))) key) = Some st1"
    using st(1) s(1) by simp
  let ?ds = "dropWhile (\<lambda>p. fst p \<noteq> key) (bt_entries (c_data c))"
  have sub: "set ?ds \<subseteq> set (bt_entries (c_data c))" by (auto dest: set_dropWhileD)
  have ds: "dropWhile (\<lambda>p. fst p \<noteq> key) (coll_entries c env path) = map (\<lambda>(k, p). (k, value_of c env path p)) ?ds"
    by (simp add: coll_entries_def dropWhile_map_entries)
  show ?thesis
  proof (cases ?ds)
    case Nil
    then have "infix_iterator_eq st1 []" using iterator_end(2) [OF s(2)] s(3) by simp
    moreover have "next_entry key (coll_entries c env path) = None" unfolding next_entry_def ds Nil by simp
    ultimately show ?thesis by (intro exI [of _ d]) (simp add: collection_obtain_next_def d sk del: seek_key.simps)
  next
    case (Cons x xs)
    obtain k p where x: "x = (k, p)" by fastforce
    note it = iterator_pair [OF s(2) st(3), unfolded s(3) Cons x, OF refl]
    obtain dp i st2 where n: "infix_iterator_deref st1 = Inr (dp, i, k, p)" "infix_iterator_next st1 = Some st2"
        "iter_ok (bt_t (c_data c)) st2" "iter_rest st2 = xs"
      using it(2,3) by blast
    have kp: "(k, p) \<in> set (bt_entries (c_data c))" using sub by (simp add: Cons x)
    show ?thesis
    proof (cases xs)
      case Nil
      then have "infix_iterator_eq st2 []" using iterator_end(2) [OF n(3)] n(4) by simp
      moreover have "next_entry key (coll_entries c env path) = Some (k, value_of c env path p)"
        unfolding next_entry_def ds Cons x Nil by simp
      ultimately show ?thesis
        using it(1) n(1,2) read_pair_ok [OF ok kp]
        by (intro exI [of _ d]) (simp add: collection_obtain_next_def d sk infix_iterator_neq_def del: seek_key.simps)
    next
      case (Cons y ys)
      obtain k' p' where y: "y = (k', p')" by fastforce
      note it' = iterator_pair [OF n(3) st(3), unfolded n(4) Cons y, OF refl]
      obtain dp' i' where n': "infix_iterator_deref st2 = Inr (dp', i', k', p')" using it'(2) by blast
      have kp': "(k', p') \<in> set (bt_entries (c_data c))"
        using sub \<open>?ds = x # xs\<close> by (simp add: Cons y)
      have "next_entry key (coll_entries c env path) = Some (k', value_of c env path p')"
        unfolding next_entry_def ds \<open>?ds = x # xs\<close> Cons y by simp
      then show ?thesis
        using it(1) it'(1) n(1,2) n' read_pair_ok [OF ok kp']
        by (intro exI [of _ d]) (simp add: collection_obtain_next_def d sk infix_iterator_neq_def del: seek_key.simps)
    qed
  qed
qed

section \<open>The contract of a table\<close>

text \<open>
  What the storage may rely on when it calls a table: the operations work on the list of entries, and
  an environment can serve a write when \<open>can_write\<close> holds.
\<close>

locale table =
  fixes ok :: "'c \<Rightarrow> 'e \<Rightarrow> 'p \<Rightarrow> bool"
    and entries :: "'c \<Rightarrow> 'e \<Rightarrow> 'p \<Rightarrow> ('k::linorder \<times> 'v) list"
    and can_write :: "'c \<Rightarrow> 'e \<Rightarrow> 'k \<Rightarrow> 'v \<Rightarrow> bool"
    and insert_op :: "'c \<Rightarrow> 'e \<Rightarrow> 'k \<Rightarrow> 'v \<Rightarrow> 'p \<Rightarrow> ('x + unit) \<times> 'c \<times> 'e"
    and update_op :: "'c \<Rightarrow> 'e \<Rightarrow> 'k \<Rightarrow> 'v \<Rightarrow> 'p \<Rightarrow> ('x + unit) \<times> 'c \<times> 'e"
    and obtain_op :: "'c \<Rightarrow> 'e \<Rightarrow> 'k \<Rightarrow> 'p \<Rightarrow> ('x + 'v) \<times> 'c \<times> 'e"
    and existent nonexistent missing :: 'x
  assumes insert_new: "ok c e p \<Longrightarrow> can_write c e k v \<Longrightarrow> k \<notin> fst ` set (entries c e p) \<Longrightarrow>
      \<exists>c' e'. insert_op c e k v p = (Inr (), c', e') \<and> ok c' e' p \<and> entries c' e' p = upd_entries k v (entries c e p)"
    and insert_old: "ok c e p \<Longrightarrow> can_write c e k v \<Longrightarrow> k \<in> fst ` set (entries c e p) \<Longrightarrow>
      \<exists>c' e'. insert_op c e k v p = (Inl existent, c', e') \<and> ok c' e' p \<and> entries c' e' p = entries c e p"
    and update_old: "ok c e p \<Longrightarrow> can_write c e k v \<Longrightarrow> k \<in> fst ` set (entries c e p) \<Longrightarrow>
      \<exists>c' e'. update_op c e k v p = (Inr (), c', e') \<and> ok c' e' p \<and> entries c' e' p = upd_entries k v (entries c e p)"
    and update_new: "ok c e p \<Longrightarrow> can_write c e k v \<Longrightarrow> k \<notin> fst ` set (entries c e p) \<Longrightarrow>
      \<exists>c' e'. update_op c e k v p = (Inl nonexistent, c', e') \<and> ok c' e' p \<and> entries c' e' p = entries c e p"
    and obtain_eq: "ok c e p \<Longrightarrow> fst (obtain_op c e k p) =
      (case map_of (entries c e p) k of None \<Rightarrow> Inl missing | Some v \<Rightarrow> Inr v)"
begin

text \<open>Insertion or update, whichever fits the table, writes the value; a failed one changes no lookup.\<close>

lemma obtain_after_insert:
  assumes "ok c e p" "can_write c e k v"
  shows "\<exists>r c' e'. insert_op c e k v p = (r, c', e') \<and> ok c' e' p \<and>
    fst (obtain_op c' e' j p) = (if j = k \<and> r = Inr () then Inr v else fst (obtain_op c e j p))"
proof (cases "k \<in> fst ` set (entries c e p)")
  case True
  then show ?thesis using insert_old [OF assms True] assms(1) by (fastforce simp: obtain_eq)
next
  case False
  then show ?thesis using insert_new [OF assms False] assms(1) by (fastforce simp: obtain_eq map_of_upd_entries)
qed

lemma obtain_after_update:
  assumes "ok c e p" "can_write c e k v"
  shows "\<exists>r c' e'. update_op c e k v p = (r, c', e') \<and> ok c' e' p \<and>
    fst (obtain_op c' e' j p) = (if j = k \<and> r = Inr () then Inr v else fst (obtain_op c e j p))"
proof (cases "k \<in> fst ` set (entries c e p)")
  case True
  then show ?thesis using update_old [OF assms True] assms(1) by (fastforce simp: obtain_eq map_of_upd_entries)
next
  case False
  then show ?thesis using update_new [OF assms False] assms(1) by (fastforce simp: obtain_eq)
qed

end

interpretation coll: table coll_ok coll_entries "\<lambda>c e k v. writable e k v \<and> bt_fits (c_data c)"
  collection_insert collection_update collection_obtain
  Db_insertion_of_existent_key Db_updating_of_nonexistent_key Db_obtaining_of_nonexistent_key
proof (unfold_locales, goal_cases)
  case (1 c e p k v)
  then show ?case using collection_insert_new [of c e p k v] by auto
next
  case (2 c e p k v)
  then show ?case using collection_insert_old [of c e p k v] by auto
next
  case (3 c e p k v)
  then show ?case using collection_update_old [of c e p k v] by auto
next
  case (4 c e p k v)
  then show ?case using collection_update_new [of c e p k v] by auto
next
  case (5 c e p k)
  then show ?case using collection_obtain_exact [of c e p k] by auto
qed

end
