(* ===== verification/Consolidation.thy ===== *)
theory Consolidation
  imports Collection_Queries
begin

text \<open>
  \<open>consolidate\<close> rewrites the data file of a collection: afterwards the file holds exactly the records of
  the entries, in the order of the keys, and every entry leads to its value as before.
\<close>

section \<open>Paths\<close>

lemma make_path_2: "a \<noteq> [] \<Longrightarrow> hd a \<noteq> CHR 0x00 \<Longrightarrow> make_path_strings [a, b] = a @ CHR ''/'' # b"
  by (simp add: make_path_strings_def)

lemma make_path_3:
  "a \<noteq> [] \<Longrightarrow> hd a \<noteq> CHR 0x00 \<Longrightarrow> make_path_strings [a, b, c] = a @ CHR ''/'' # b @ CHR ''/'' # c"
  by (simp add: make_path_strings_def)

lemma parent_of_append: "CHR ''/'' \<notin> set b \<Longrightarrow> parent_of (a @ CHR ''/'' # b) = Some a"
  by (simp add: parent_of_def) (subst dropWhile_append2; auto)

lemma slash_not_digit: "CHR ''/'' \<notin> set (show_nat n)"
  using show_nat_digits [of n] by (auto simp: is_digit_def less_eq_char_def)

lemma tmp_not_number:
  "show_nat n \<noteq> CHR ''t'' # x" "CHR ''t'' # x \<noteq> show_nat n" "show_nat n @ y \<noteq> CHR ''t'' # x"
proof -
  have "\<not> is_digit (CHR ''t'')" by (simp add: is_digit_def less_eq_char_def)
  then show n: "show_nat n @ y \<noteq> CHR ''t'' # x" for x y
    using show_nat_digits [of n] show_nat_not_Nil [of n] by (cases "show_nat n") auto
  from n [of "[]"] show "show_nat n \<noteq> CHR ''t'' # x" by simp
  then show "CHR ''t'' # x \<noteq> show_nat n" by metis
qed

section \<open>Rewriting the records\<close>

definition file_record :: "tkey \<times> tvalue \<Rightarrow> string" where
  "file_record e = record_bytes (the (fst e)) (personal_id (snd e)) (the (tname (snd e)))"

text \<open>\<open>stored\<close>: the object at \<open>p\<close> points to the record of the entry in the bytes.\<close>

definition stored :: "collection \<Rightarrow> string \<Rightarrow> tkey \<Rightarrow> nat \<Rightarrow> tvalue \<Rightarrow> bool" where
  "stored c bytes k p v \<longleftrightarrow>
     (\<exists>pos kk. c_objects c p = Some (File_tdata pos) \<and> k = Some kk \<and> record_at bytes pos kk v \<and> pos \<noteq> 1)"

lemma data_ok_stored:
  "env_mode env = File_system \<Longrightarrow> fs_open_read (env_fs env) path = Some bytes \<Longrightarrow>
   data_ok c env path k p v = stored c bytes k p v"
  by (auto simp: data_ok_def stored_def)

lemma stored_grows: "stored c bytes k p v \<Longrightarrow> stored c (bytes @ rest) k p v"
  using record_at_grows by (fastforce simp: stored_def)

lemma stored_objects: "c_objects c' p = c_objects c p \<Longrightarrow> stored c' bytes k p v = stored c bytes k p v"
  by (simp add: stored_def)

lemma file_record_length: "24 \<le> length (file_record e)"
  by (simp add: file_record_def length_record)

text \<open>One step of the loop.\<close>

lemma rewrite_step:
  assumes s: "stored c bytes k p v" and f: "fs_open_read (env_fs env) data_path = Some bytes"
    "fs_open_read (env_fs env) tmp_path = Some acc" "\<not> fs_full (env_fs env)" and acc: "length acc \<noteq> 1"
  shows "\<exists>pos. c_objects c p = Some (File_tdata pos) \<and> deserialize (env_fs env) pos data_path = Inr v"
    and "serialize_data c env p tmp_path k v True =
      (Inr (), c\<lparr>c_objects := (c_objects c)(p \<mapsto> File_tdata (int (length acc)))\<rparr>,
       env\<lparr>env_fs := fs_put (env_fs env) tmp_path (File (acc @ file_record (k, v)))\<rparr>)"
    and "stored (c\<lparr>c_objects := (c_objects c)(p \<mapsto> File_tdata (int (length acc)))\<rparr>) (acc @ file_record (k, v)) k p v"
proof -
  obtain pos kk where pos: "c_objects c p = Some (File_tdata pos)" "k = Some kk" "record_at bytes pos kk v" "pos \<noteq> 1"
    using s by (auto simp: stored_def)
  show "\<exists>pos. c_objects c p = Some (File_tdata pos) \<and> deserialize (env_fs env) pos data_path = Inr v"
    using pos deserialize_record [OF f(1) pos(3,4)] by simp
  obtain n where n: "tname v = Some n" "length kk < 2 ^ 64" "length n < 2 ^ 64"
    using pos(3) by (auto simp: record_at_def)
  have op: "fs_open_append (env_fs env) tmp_path = Some (env_fs env)"
    using f(2) by (auto simp: fs_open_append_def fs_open_read_def split: option.splits fs_entry.splits)
  show "serialize_data c env p tmp_path k v True =
      (Inr (), c\<lparr>c_objects := (c_objects c)(p \<mapsto> File_tdata (int (length acc)))\<rparr>,
       env\<lparr>env_fs := fs_put (env_fs env) tmp_path (File (acc @ file_record (k, v)))\<rparr>)"
    using serialize_fresh [OF op f(3) f(2) n(1)] pos n by (simp add: serialize_data_def file_record_def)
  show "stored (c\<lparr>c_objects := (c_objects c)(p \<mapsto> File_tdata (int (length acc)))\<rparr>) (acc @ file_record (k, v)) k p v"
    using record_at_end [OF n, of acc] n acc pos(2) by (simp add: stored_def file_record_def)
qed

text \<open>What the loop changes: the pointers' objects and the new file.\<close>

definition rewritten ::
  "(tkey \<times> nat) list \<Rightarrow> (nat \<Rightarrow> tvalue) \<Rightarrow> string \<Rightarrow> string \<Rightarrow> collection \<Rightarrow> db_env \<Rightarrow> collection \<Rightarrow> db_env \<Rightarrow> bool" where
  "rewritten kps val acc tmp_path c env c' env' \<longleftrightarrow>
     (\<exists>fs. env' = env\<lparr>env_fs := fs\<rparr> \<and> fs_full fs = fs_full (env_fs env) \<and>
        (\<forall>q. q \<noteq> tmp_path \<longrightarrow> fs_lookup fs q = fs_lookup (env_fs env) q) \<and>
        fs_open_read fs tmp_path = Some (acc @ concat (map (\<lambda>(k, p). file_record (k, val p)) kps))) \<and>
     (\<exists>ob. c' = c\<lparr>c_objects := ob\<rparr> \<and> (\<forall>p. p \<notin> snd ` set kps \<longrightarrow> ob p = c_objects c p)) \<and>
     (\<forall>(k, p) \<in> set kps. stored c' (acc @ concat (map (\<lambda>(k, p). file_record (k, val p)) kps)) k p (val p))"

lemma rewrite_records_correct:
  assumes "distinct (map snd kps)" "\<forall>(k, p) \<in> set kps. stored c bytes k p (val p)"
    and "fs_open_read (env_fs env) data_path = Some bytes" "fs_open_read (env_fs env) tmp_path = Some acc"
    and "\<not> fs_full (env_fs env)" "length acc \<noteq> 1" "tmp_path \<noteq> data_path"
  shows "\<exists>c' env'. rewrite_records data_path tmp_path kps c env = (Inr (), c', env') \<and>
    rewritten kps val acc tmp_path c env c' env'"
  using assms(1-6)
proof (induction kps arbitrary: c env acc)
  case Nil
  have "rewritten [] val acc tmp_path c env c env"
    using Nil.prems(4) by (auto simp: rewritten_def intro: exI [of _ "env_fs env"] exI [of _ "c_objects c"])
  then show ?case by auto
next
  case (Cons kp kps)
  obtain k p where kp: "kp = (k, p)" by fastforce
  let ?r = "file_record (k, val p)"
  let ?c = "c\<lparr>c_objects := (c_objects c)(p \<mapsto> File_tdata (int (length acc)))\<rparr>"
  let ?e = "env\<lparr>env_fs := fs_put (env_fs env) tmp_path (File (acc @ ?r))\<rparr>"
  have s: "stored c bytes k p (val p)" using Cons.prems(2) by (simp add: kp)
  note step = rewrite_step [OF s Cons.prems(3-6)]
  obtain pos where pos: "c_objects c p = Some (File_tdata pos)" "deserialize (env_fs env) pos data_path = Inr (val p)"
    using step(1) by blast
  have run: "rewrite_records data_path tmp_path (kp # kps) c env = rewrite_records data_path tmp_path kps ?c ?e"
    using pos step(2) by (simp add: kp)
  have np: "q \<noteq> p" if "(j, q) \<in> set kps" for j q using that Cons.prems(1) by (force simp: kp)
  have "\<forall>(j, q) \<in> set kps. stored ?c bytes j q (val q)"
    using Cons.prems(2) np by (auto simp: stored_def)
  moreover have "fs_open_read (env_fs ?e) data_path = Some bytes" using Cons.prems(3) assms(7) by simp
  moreover have "length (acc @ ?r) \<noteq> 1" using file_record_length [of "(k, val p)"] by auto
  ultimately obtain c' env' where r: "rewrite_records data_path tmp_path kps ?c ?e = (Inr (), c', env')"
      "rewritten kps val (acc @ ?r) tmp_path ?c ?e c' env'"
    using Cons.IH [of ?c ?e "acc @ ?r"] Cons.prems(1,5) by (auto simp: kp)
  let ?rest = "concat (map (\<lambda>(k, p). file_record (k, val p)) kps)"
  have bytes: "acc @ concat (map (\<lambda>(k, p). file_record (k, val p)) (kp # kps)) = acc @ ?r @ ?rest" by (simp add: kp)
  obtain fs where fs: "env' = ?e\<lparr>env_fs := fs\<rparr>" "fs_full fs = fs_full (env_fs ?e)"
      "\<forall>q. q \<noteq> tmp_path \<longrightarrow> fs_lookup fs q = fs_lookup (env_fs ?e) q"
      "fs_open_read fs tmp_path = Some ((acc @ ?r) @ ?rest)"
    using r(2) unfolding rewritten_def by blast
  obtain ob where ob: "c' = ?c\<lparr>c_objects := ob\<rparr>" "\<forall>q. q \<notin> snd ` set kps \<longrightarrow> ob q = c_objects ?c q"
    using r(2) unfolding rewritten_def by blast
  have "p \<notin> snd ` set kps" using Cons.prems(1) by (simp add: kp)
  then have "c_objects c' p = c_objects ?c p" using ob by simp
  then have "stored c' (acc @ ?r) k p (val p)" using step(3) by (simp add: stored_def)
  then have "stored c' (acc @ ?r @ ?rest) k p (val p)" using stored_grows by fastforce
  moreover have "\<forall>(j, q) \<in> set kps. stored c' (acc @ ?r @ ?rest) j q (val q)"
    using r(2) by (auto simp: rewritten_def)
  ultimately have all: "\<forall>(j, q) \<in> set (kp # kps). stored c' (acc @ ?r @ ?rest) j q (val q)" by (auto simp: kp)
  have "rewritten (kp # kps) val acc tmp_path c env c' env'"
    unfolding rewritten_def bytes
  proof (intro conjI)
    show "\<exists>fs. env' = env\<lparr>env_fs := fs\<rparr> \<and> fs_full fs = fs_full (env_fs env) \<and>
        (\<forall>q. q \<noteq> tmp_path \<longrightarrow> fs_lookup fs q = fs_lookup (env_fs env) q) \<and>
        fs_open_read fs tmp_path = Some (acc @ ?r @ ?rest)"
      using fs by (intro exI [of _ fs]) simp
    show "\<exists>ob. c' = c\<lparr>c_objects := ob\<rparr> \<and> (\<forall>q. q \<notin> snd ` set (kp # kps) \<longrightarrow> ob q = c_objects c q)"
      using ob by (intro exI [of _ ob]) (simp add: kp)
  qed (rule all)
  then show ?case using run r(1) by auto
qed

section \<open>Consolidation\<close>

lemma fs_mkdir_ok:
  assumes "fs_lookup fs d = None \<or> fs_lookup fs d = Some Dir" "parent_ok fs d" "\<not> fs_full fs"
  shows "fs_lookup (fs_mkdir fs d) q = (if q = d then Some Dir else fs_lookup fs q)" "fs_full (fs_mkdir fs d) = fs_full fs"
  using assms by (auto simp: fs_mkdir_def fs_exists_def)

lemma fs_open_trunc_ok:
  assumes "fs_lookup fs p \<noteq> Some Dir" "parent_ok fs p" "\<not> fs_full fs"
  shows "\<exists>fs'. fs_open_trunc fs p = Some fs' \<and> fs_full fs' = fs_full fs \<and>
    (\<forall>q. fs_lookup fs' q = (if q = p then Some (File []) else fs_lookup fs q))"
  using assms by (auto simp: fs_open_trunc_def fs_open_append_def split: option.splits fs_entry.splits)

lemma fs_open_trunc_file:
  assumes "fs_open_read fs p = Some b"
  shows "fs_open_trunc fs p = Some (fs_put fs p (File []))"
  using assms
  by (auto simp: fs_open_trunc_def fs_open_append_def fs_open_read_def split: option.splits fs_entry.splits)

lemma replace_file_ok:
  assumes t: "fs_open_read fs tmp = Some new" and d: "fs_open_read fs data = Some old" "data \<noteq> tmp" "\<not> fs_full fs"
  shows "\<exists>fs'. replace_file fs data tmp = (Inr (), fs') \<and> fs_full fs' = fs_full fs \<and>
    (\<forall>q. fs_lookup fs' q = (if q = tmp then None else if q = data then Some (File new) else fs_lookup fs q))"
proof -
  let ?f = "fs_put (fs_put fs data (File [])) data (File new)"
  have "fs_lookup ?f tmp = fs_lookup fs tmp" using d(2) by simp
  then have rm: "fs_remove ?f tmp = fs_delete ?f tmp"
    using t by (auto simp: fs_remove_def fs_open_read_def split: option.splits fs_entry.splits)
  have "replace_file fs data tmp = (Inr (), fs_delete ?f tmp)"
    using fs_open_trunc_file [OF d(1)] d(3) t by (simp add: replace_file_def fs_append_def rm)
  then show ?thesis by auto
qed

lemma tree_pairs_ok: "bt_ok tr \<Longrightarrow> tree_pairs tr = Some (bt_entries tr)"
  using begin_infix_correct [of tr] traverse_correct by (fastforce simp: tree_pairs_def bt_ok_def)

lemma coll_ok_stored:
  assumes "coll_ok c env path" "env_mode env = File_system" "fs_open_read (env_fs env) path = Some bytes"
  shows "\<forall>(k, p) \<in> set (bt_entries (c_data c)). stored c bytes k p (value_of c env path p)"
  using coll_ok_read(2) [OF assms(1)] by (auto simp: data_ok_stored [OF assms(2,3)])

lemma concat_records_length: "length (concat (map (\<lambda>(k, p). file_record (k, f p)) xs)) \<noteq> 1"
proof (cases xs)
  case (Cons x xs')
  then show ?thesis using file_record_length [of "(fst x, f (snd x))"] by (auto simp: case_prod_unfold)
qed simp

lemma coll_bytes:
  "concat (map (\<lambda>(k, p). file_record (k, value_of c env path p)) (bt_entries (c_data c))) =
   concat (map file_record (coll_entries c env path))"
  by (simp add: coll_entries_def comp_def case_prod_unfold)

text \<open>The directory of a collection is ready for a consolidation.\<close>

definition coll_dir :: "db_env \<Rightarrow> string \<Rightarrow> bool" where
  "coll_dir env path \<longleftrightarrow>
     env_mode env = File_system \<and> \<not> fs_full (env_fs env) \<and> path \<noteq> [] \<and> hd path \<noteq> CHR 0x00 \<and>
     fs_lookup (env_fs env) path = Some Dir \<and>
     (let t = make_path_strings [path, ''tmp''] in
        fs_lookup (env_fs env) t = None \<or> fs_lookup (env_fs env) t = Some Dir) \<and>
     fs_lookup (env_fs env) (make_path_strings [path, ''tmp'', show_nat (unat (env_id env))]) \<noteq> Some Dir"

lemma consolidate_correct:
  assumes dir: "coll_dir env path" and dp: "dp = make_path_strings [path, show_nat (unat (env_id env))]"
    and ok: "coll_ok c env dp"
  shows "\<exists>c' env'. collection_consolidate c env path = (Inr (), c', env') \<and> coll_ok c' env' dp \<and>
    coll_entries c' env' dp = coll_entries c env dp \<and>
    fs_open_read (env_fs env') dp = Some (concat (map file_record (coll_entries c env dp)))"
proof -
  let ?n = "show_nat (unat (env_id env))"
  define td where "td = make_path_strings [path, ''tmp'']"
  define tp where "tp = make_path_strings [path, ''tmp'', ?n]"
  have mode: "env_mode env = File_system" and full: "\<not> fs_full (env_fs env)"
      and pd: "fs_lookup (env_fs env) path = Some Dir"
      and td0: "fs_lookup (env_fs env) td = None \<or> fs_lookup (env_fs env) td = Some Dir"
      and tp0: "fs_lookup (env_fs env) tp \<noteq> Some Dir" and pne: "path \<noteq> []" "hd path \<noteq> CHR 0x00"
    using dir by (simp_all add: coll_dir_def Let_def td_def tp_def)
  have ps: "td = path @ CHR ''/'' # ''tmp''" "tp = (path @ CHR ''/'' # ''tmp'') @ CHR ''/'' # ?n"
      "dp = path @ CHR ''/'' # ?n"
    using pne by (simp_all add: td_def tp_def dp make_path_2 make_path_3)
  have neq: "tp \<noteq> td" "tp \<noteq> dp" "td \<noteq> dp" using tmp_not_number [where n = "unat (env_id env)"] slash_not_digit [of "unat (env_id env)"]
    by (auto simp: ps)
  have par: "parent_ok (env_fs env) td"
    using pd parent_of_append [of "''tmp''" path] by (simp add: parent_ok_def ps)
  obtain bytes where b: "fs_open_read (env_fs env) dp = Some bytes"
    using ok mode by (auto simp: coll_ok_def data_file_def)
  let ?f1 = "fs_mkdir (env_fs env) td"
  note f1 = fs_mkdir_ok [OF td0 par full]
  have "parent_ok ?f1 tp"
    using f1(1) parent_of_append [OF slash_not_digit, of td] by (simp add: parent_ok_def ps)
  then obtain f2 where f2: "fs_open_trunc ?f1 tp = Some f2" "fs_full f2 = fs_full ?f1"
      "\<forall>q. fs_lookup f2 q = (if q = tp then Some (File []) else fs_lookup ?f1 q)"
    using fs_open_trunc_ok [of ?f1 tp] f1 full tp0 neq(1) by auto
  let ?e2 = "env\<lparr>env_fs := f2\<rparr>"
  have r2: "fs_open_read f2 dp = Some bytes" "fs_open_read f2 tp = Some []"
    using b f2(3) f1(1) neq by (simp_all add: fs_open_read_def)
  let ?kps = "bt_entries (c_data c)" and ?val = "value_of c env dp"
  have dist: "distinct (map snd ?kps)" using ok by (simp add: coll_ok_def)
  have rd: "fs_open_read (env_fs ?e2) dp = Some bytes" "fs_open_read (env_fs ?e2) tp = Some []"
      "\<not> fs_full (env_fs ?e2)" "length ([] :: string) \<noteq> 1"
    using r2 f2(2) f1(2) full by simp_all
  obtain c' e3 where r: "rewrite_records dp tp ?kps c ?e2 = (Inr (), c', e3)" "rewritten ?kps ?val [] tp c ?e2 c' e3"
    using rewrite_records_correct [OF dist coll_ok_stored [OF ok mode b] rd neq(2)] by blast
  let ?new = "concat (map file_record (coll_entries c env dp))"
  obtain f3 where f3: "e3 = ?e2\<lparr>env_fs := f3\<rparr>" "fs_full f3 = fs_full f2"
      "\<forall>q. q \<noteq> tp \<longrightarrow> fs_lookup f3 q = fs_lookup f2 q" "fs_open_read f3 tp = Some ?new"
    using r(2) unfolding rewritten_def by (auto simp: coll_bytes)
  obtain ob where ob: "c' = c\<lparr>c_objects := ob\<rparr>" using r(2) unfolding rewritten_def by blast
  have st: "\<forall>(k, p) \<in> set ?kps. stored c' ?new k p (?val p)"
    using r(2) by (simp add: rewritten_def coll_bytes)
  have "fs_open_read f3 dp = Some bytes" using r2(1) f3(3) neq(2) by (simp add: fs_open_read_def)
  then obtain f4 where f4: "replace_file f3 dp tp = (Inr (), f4)"
      "\<forall>q. fs_lookup f4 q = (if q = tp then None else if q = dp then Some (File ?new) else fs_lookup f3 q)"
    using replace_file_ok [OF f3(4)] neq(2) f3(2) f2(2) f1(2) full by metis
  let ?e = "env\<lparr>env_fs := f4\<rparr>"
  have run: "collection_consolidate c env path = (Inr (), c', ?e)"
    using mode b f2(1) r(1) f4(1) tree_pairs_ok [of "c_data c"] coll_ok_tree [OF ok]
    by (simp add: collection_consolidate_def Let_def fs_exists_def fs_open_read_def f3(1)
        flip: dp td_def tp_def split: option.splits)
  have new: "fs_open_read f4 dp = Some ?new" using f4(2) neq(2) by (simp add: fs_open_read_def)
  have d': "data_ok c' ?e dp k p (?val p)" if "(k, p) \<in> set ?kps" for k p
    using st that new mode data_ok_stored [of ?e dp ?new] by auto
  have "fs_lookup (env_fs env) (make_path_strings [dp, ?n]) = None"
    using ok mode by (simp add: coll_ok_def data_file_def fs_exists_def)
  moreover have below: "make_path_strings [dp, ?n] = dp @ CHR ''/'' # ?n" using pne by (simp add: ps make_path_2)
  moreover have "dp @ CHR ''/'' # ?n \<noteq> tp" "dp @ CHR ''/'' # ?n \<noteq> td" "dp @ CHR ''/'' # ?n \<noteq> dp"
    using tmp_not_number [where n = "unat (env_id env)"] by (auto simp: ps)
  ultimately have "fs_lookup f4 (make_path_strings [dp, ?n]) = None"
    using f4(2) f3(3) f2(3) f1(1) by simp
  then have "data_file ?e dp"
    using new concat_records_length [of ?val ?kps] by (auto simp: data_file_def fs_exists_def coll_bytes)
  then have ok': "coll_ok c' ?e dp"
    using ok d' by (fastforce simp: coll_ok_def ob)
  have "coll_entries c' ?e dp = coll_entries c env dp"
    using data_ok_read(2) [OF d'] by (auto simp: coll_entries_def ob)
  then show ?thesis using run ok' new by auto
qed

end
