(* ===== verification/Collection_Invariant.thy ===== *)
theory Collection_Invariant
  imports Consolidation
begin

text \<open>
  Whatever a call on a collection is given, and whether it succeeds or throws, it leaves the
  collection well-formed and touches no other file, as long as the tree has nodes for an insertion
  and room for a disposal.
\<close>

definition sized :: "tkey \<Rightarrow> tvalue \<Rightarrow> bool" where
  "sized k v \<longleftrightarrow> (\<forall>s. k = Some s \<or> tname v = Some s \<longrightarrow> length s < 2 ^ 64)"

definition kept :: "string \<Rightarrow> db_env \<Rightarrow> 'a outcome \<Rightarrow> bool" where
  "kept path env r \<longleftrightarrow> (case r of (_, c', env') \<Rightarrow> coll_ok c' env' path \<and> only_file path env env')"

lemma keptI: "coll_ok c' env' path \<Longrightarrow> only_file path env env' \<Longrightarrow> kept path env (r, c', env')"
  by (simp add: kept_def)

lemma kept_count_record: "kept path env r \<Longrightarrow> kept path env (count_record r)"
  by (auto simp: kept_def count_record_def split: prod.splits sum.splits)

text \<open>An object at the next address, and the memory left, are of no matter.\<close>

lemma coll_ok_new_object:
  assumes "coll_ok c env path" "c' = c\<lparr>c_next := Suc (c_next c), c_objects := (c_objects c)(c_next c := ob)\<rparr>"
    "env' = env\<lparr>env_memory := m\<rparr>"
  shows "coll_ok c' env' path"
proof -
  have d: "data_ok c' env' path k p v" if "data_ok c env path k p v" "p < c_next c" for k p v
    using that by (auto simp: data_ok_def assms(2,3))
  show ?thesis
    using assms(1) d by (fastforce simp: coll_ok_def assms(2,3) data_file_def)
qed

lemma fs_open_append_existing:
  "fs_open_read fs p = Some b \<Longrightarrow> fs_open_append fs p = Some fs"
  by (auto simp: fs_open_append_def fs_open_read_def split: option.splits fs_entry.splits)

text \<open>A write that cannot succeed.\<close>

lemma put_data_refused:
  assumes ok: "coll_ok c env path" and w: "\<not> writable env k v" and s: "sized k v"
  shows "kept path env (put_data tree_op caught c env k v path)"
proof -
  obtain d where g: "collect_garbage c env path = (Inr (), c\<lparr>c_disposed_cnt := d\<rparr>, env)"
    using collect_garbage_ok [of env path c] ok by (auto simp: coll_ok_def)
  let ?c1 = "c\<lparr>c_disposed_cnt := d\<rparr>"
  have ok1: "coll_ok ?c1 env path" using ok by simp
  show ?thesis
  proof (cases "env_memory env = 0")
    case True
    then show ?thesis using ok1 by (simp add: put_data_def g new_data_def kept_def)
  next
    case False
    then have m: "env_mode env = File_system" using w by (simp add: writable_def)
    obtain b where b: "fs_open_read (env_fs env) path = Some b" using ok m by (auto simp: coll_ok_def data_file_def)
    let ?e2 = "env\<lparr>env_memory := env_memory env - 1\<rparr>"
    let ?c3 = "?c1\<lparr>c_next := Suc (c_next c), c_objects := (c_objects c)(c_next c \<mapsto> File_tdata (int (length b)))\<rparr>"
    have ok3: "coll_ok ?c3 ?e2 path" by (rule coll_ok_new_object [OF ok1]) simp_all
    have n: "c_next c \<notin> snd ` set (bt_entries (c_data ?c3))" using coll_ok_read(3) [OF ok] by force
    obtain c4 e4 where f: "free_data ?c3 ?e2 (c_next c) = (c4, e4)" by fastforce
    note fr = free_data_ok [OF ok3 n f]
    have o: "only_file path env ?e2" by (simp add: only_file_def)
    have size: "fs_size (env_fs env) path = length b" by (simp add: fs_size_def b)
    have "k = None \<or> tname v = None \<or> fs_full (env_fs env)"
      using w m False s by (auto simp: writable_def sized_def)
    then have "\<exists>x. serialize (env_fs env) (-1) path k v False = (Inl x, int (length b), env_fs env) \<and>
        (x = Db_undefined_behaviour \<or> x = Ios_failure ''An error occured while serializing data'')"
      using b size fs_open_append_existing [OF b]
      by (auto simp: serialize_def fs_append_def Let_def split: option.splits)
    then obtain x where x: "serialize (env_fs env) (-1) path k v False = (Inl x, int (length b), env_fs env)"
        "x = Db_undefined_behaviour \<or> x = Ios_failure ''An error occured while serializing data''"
      by blast
    have "serialize_data (?c1\<lparr>c_objects := (c_objects c)(c_next c \<mapsto> File_tdata (-1)), c_next := Suc (c_next c)\<rparr>)
        ?e2 (c_next c) path k v False = (Inl x, ?c3, ?e2)"
      using x(1) by (simp add: serialize_data_def)
    then have "put_data tree_op caught c env k v path = (Inl Db_undefined_behaviour, ?c3, ?e2) \<or>
      put_data tree_op caught c env k v path = (Inl (Ios_failure ''Failed to write data''), c4, e4)"
      using False m f x(2) by (elim disjE) (simp_all add: put_data_def g new_data_def file_tdata_new_def)
    then show ?thesis
      using keptI [OF ok3 o] keptI [OF fr(1) only_file_trans [OF o fr(3)]] by (elim disjE) simp_all
  qed
qed

lemma put_data_kept:
  assumes ok: "coll_ok c env path" and s: "sized k v"
    and tr: "(\<exists>tr. tree_op (c_data c) k (c_next c) = (Inr (), tr) \<and> bt_inv tkey_comparer tr \<and>
        bt_entries tr = upd_entries k (c_next c) (bt_entries (c_data c))) \<or>
      (\<exists>e e'. tree_op (c_data c) k (c_next c) = (Inl e, c_data c) \<and> caught e = Some e')"
  shows "kept path env (put_data tree_op caught c env k v path)"
proof (cases "writable env k v")
  case True
  show ?thesis using tr
  proof (elim disjE exE conjE)
    fix t assume t: "tree_op (c_data c) k (c_next c) = (Inr (), t)" "bt_inv tkey_comparer t"
      "bt_entries t = upd_entries k (c_next c) (bt_entries (c_data c))"
    from put_data_ok [where tree_op = tree_op and caught = caught, OF ok True t] show ?thesis
      by (auto simp: kept_def)
  next
    fix e e' assume t: "tree_op (c_data c) k (c_next c) = (Inl e, c_data c)" "caught e = Some e'"
    from put_data_caught [where tree_op = tree_op and caught = caught, OF ok True t] show ?thesis
      by (auto simp: kept_def)
  qed
next
  case False
  then show ?thesis by (rule put_data_refused [OF ok _ s])
qed

lemma collection_insert_kept:
  assumes ok: "coll_ok c env path" and s: "sized k v" and fits: "bt_fits (c_data c)"
  shows "kept path env (collection_insert c env k v path)"
proof -
  have t: "bt_ok (c_data c)" "bt_keys_comparer (c_data c) = tkey_comparer" using coll_ok_tree [OF ok] by auto
  have "kept path env (put_data bt_insert insertion_caught c env k v path)"
  proof (rule put_data_kept [OF ok s], cases "k \<in> fst ` set (bt_entries (c_data c))")
    case True
    then have "bt_insert (c_data c) k (c_next c) = (Inl (Insertion_of_existent_key k), c_data c)"
      using key_order.insert_inner_existing [OF tkeys.key_order_axioms t] by (simp add: bt_insert_def)
    then show "(\<exists>tr. bt_insert (c_data c) k (c_next c) = (Inr (), tr) \<and> bt_inv tkey_comparer tr \<and>
        bt_entries tr = upd_entries k (c_next c) (bt_entries (c_data c))) \<or>
      (\<exists>e e'. bt_insert (c_data c) k (c_next c) = (Inl e, c_data c) \<and> insertion_caught e = Some e')"
      by (simp add: insertion_caught_def)
  next
    case False
    then show "(\<exists>tr. bt_insert (c_data c) k (c_next c) = (Inr (), tr) \<and> bt_inv tkey_comparer tr \<and>
        bt_entries tr = upd_entries k (c_next c) (bt_entries (c_data c))) \<or>
      (\<exists>e e'. bt_insert (c_data c) k (c_next c) = (Inl e, c_data c) \<and> insertion_caught e = Some e')"
      using key_order.insert_inner_absent [OF tkeys.key_order_axioms t False, of "c_next c"] fits
      by (auto simp: bt_insert_def bt_inv_def bt_fits_def)
  qed
  then show ?thesis by (simp add: collection_insert_def kept_count_record)
qed

lemma collection_update_kept:
  assumes ok: "coll_ok c env path" and s: "sized k v"
  shows "kept path env (collection_update c env k v path)"
  unfolding collection_update_def
proof (rule put_data_kept [OF ok s], cases "k \<in> fst ` set (bt_entries (c_data c))")
  have t: "bt_ok (c_data c)" "bt_keys_comparer (c_data c) = tkey_comparer" using coll_ok_tree [OF ok] by auto
  {
    case True
    then show "(\<exists>tr. bt_update (c_data c) k (c_next c) = (Inr (), tr) \<and> bt_inv tkey_comparer tr \<and>
        bt_entries tr = upd_entries k (c_next c) (bt_entries (c_data c))) \<or>
      (\<exists>e e'. bt_update (c_data c) k (c_next c) = (Inl e, c_data c) \<and> updating_caught e = Some e')"
      using key_order.insert_inner_update [OF tkeys.key_order_axioms t True, of "c_next c"]
      by (auto simp: bt_update_def bt_inv_def)
  next
    case False
    then have "bt_update (c_data c) k (c_next c) = (Inl (Updating_of_nonexistent_key k), c_data c)"
      using key_order.insert_inner_update_missing [OF tkeys.key_order_axioms t] by (simp add: bt_update_def)
    then show "(\<exists>tr. bt_update (c_data c) k (c_next c) = (Inr (), tr) \<and> bt_inv tkey_comparer tr \<and>
        bt_entries tr = upd_entries k (c_next c) (bt_entries (c_data c))) \<or>
      (\<exists>e e'. bt_update (c_data c) k (c_next c) = (Inl e, c_data c) \<and> updating_caught e = Some e')"
      by (simp add: updating_caught_def)
  }
qed

lemma collection_dispose_kept:
  assumes ok: "coll_ok c env path" and room: "bt_has_room (c_data c)"
  shows "kept path env (collection_dispose c env k path)"
proof (cases "map_of (coll_entries c env path) k")
  case None
  then show ?thesis
    using collection_dispose_new [OF ok, of k] ok by (simp add: kept_def map_of_eq_None_iff)
next
  case (Some v)
  then show ?thesis using collection_dispose_old [OF ok Some room] by (auto simp: kept_def)
qed

lemma after_garbage_kept:
  assumes "coll_ok c env path"
  shows "kept path env (after_garbage c env path f)"
proof -
  obtain d where "collect_garbage c env path = (Inr (), c\<lparr>c_disposed_cnt := d\<rparr>, env)"
    using collect_garbage_ok [of env path c] assms by (auto simp: coll_ok_def)
  then show ?thesis using assms by (simp add: kept_def after_garbage_def)
qed

lemma lookups_kept:
  assumes "coll_ok c env path"
  shows "kept path env (collection_obtain c env k path)" "kept path env (collection_obtain_between c env lo hi li ui path)"
    "kept path env (collection_obtain_min c env path)" "kept path env (collection_obtain_max c env path)"
    "kept path env (collection_obtain_next c env path k)"
  using assms
  by (simp_all add: collection_obtain_def collection_obtain_between_def collection_obtain_min_def
      collection_obtain_max_def collection_obtain_next_def after_garbage_kept)

end
