(* ===== verification/Collection_Properties.thy ===== *)
theory Collection_Properties
  imports Collection_Invariant Tree_Properties
begin

text \<open>
  The properties of the records, of the string pool and of the collections. The witnesses use a
  collection on a file \<open>c/1\<close>, empty or filled by the operations themselves.
\<close>

section \<open>Examples\<close>

definition ex_fs :: file_system where
  "ex_fs = \<lparr>fs_entries = [(''c'', Dir), (''c/1'', File [])], fs_full = False\<rparr>"

definition ex_env :: db_env where
  "ex_env = \<lparr>env_id = 1, env_mode = File_system, env_fs = ex_fs, env_memory = 9, env_cwd = Some ''/'', env_junk = (0, 0)\<rparr>"

definition ex_coll :: collection where
  "ex_coll = \<lparr>c_data = \<lparr>bt_root = None, bt_t = 2, bt_keys_comparer = tkey_comparer, bt_memory = 9\<rparr>,
     c_objects = Map.empty, c_next = 0, c_tree_variant = St_b, c_allocator = None,
     c_allocator_variant = Av_global_heap, c_fit_mode = First_fit, c_records_cnt = 0, c_disposed_cnt = 0\<rparr>"

definition ex_value :: tvalue where
  "ex_value = \<lparr>personal_id = 7, tname = Some ''Ann''\<rparr>"

lemma ex_coll_ok: "coll_ok ex_coll ex_env ''c/1''" "coll_entries ex_coll ex_env ''c/1'' = []" "bt_fits (c_data ex_coll)"
proof -
  have p: "make_path_strings [''c/1'', show_nat (Suc 0)] = ''c/1/1''"
    by code_simp
  have "data_file ex_env ''c/1''"
    by (simp add: data_file_def ex_env_def ex_fs_def fs_open_read_def fs_lookup_def fs_exists_def p)
  moreover have "env_mode ex_env = File_system" by (simp add: ex_env_def)
  ultimately show "coll_ok ex_coll ex_env ''c/1''" "coll_entries ex_coll ex_env ''c/1'' = []" "bt_fits (c_data ex_coll)"
    by (simp_all add: coll_ok_def coll_entries_def bt_inv_def bt_ok_def bt_entries_def tree_ok_def ex_coll_def
        bt_fits_def bt_levels_def)
qed

lemma ex_writable: "writable ex_env (Some ''ann'') ex_value"
  by (simp add: writable_def ex_env_def ex_fs_def ex_value_def)

text \<open>The collection with the record of one key.\<close>

definition ex_coll1 :: collection where
  "ex_coll1 = fst (snd (collection_insert ex_coll ex_env (Some ''ann'') ex_value ''c/1''))"

definition ex_env1 :: db_env where
  "ex_env1 = snd (snd (collection_insert ex_coll ex_env (Some ''ann'') ex_value ''c/1''))"

lemma ex_coll1_ok: "coll_ok ex_coll1 ex_env1 ''c/1''"
  "coll_entries ex_coll1 ex_env1 ''c/1'' = [(Some ''ann'', ex_value)]"
  "bt_fits (c_data ex_coll1)" "bt_has_room (c_data ex_coll1)" "bt_root (c_data ex_coll1) \<noteq> None"
proof -
  define tr where "tr = snd (bt_insert (c_data ex_coll) (Some ''ann'') (c_next ex_coll))"
  have i: "fst (bt_insert (c_data ex_coll) (Some ''ann'') (c_next ex_coll)) = Inr ()" by code_simp
  then have ins: "bt_insert (c_data ex_coll) (Some ''ann'') (c_next ex_coll) = (Inr (), tr)"
    by (metis prod.collapse tr_def)
  have b: "bt_entries tr = [(Some ''ann'', 0)]" "bt_ok tr" "bt_fits tr" "bt_has_room tr" "bt_root tr \<noteq> None"
    unfolding tr_def bt_fits_def by code_simp+
  have "bt_keys_comparer tr = tkey_comparer"
    using comparer_of_inserts [of "[(Some ''ann'', c_next ex_coll)]" "c_data ex_coll"]
    by (simp add: tr_def bt_insert_all_def ex_coll_def)
  then have "bt_inv tkey_comparer tr" using b(2) by (simp add: bt_inv_def)
  moreover have "bt_entries tr = upd_entries (Some ''ann'') (c_next ex_coll) (bt_entries (c_data ex_coll))"
    using b(1) by (simp add: ex_coll_def bt_entries_def upd_entries_def)
  ultimately obtain c' e' where "put_data bt_insert insertion_caught ex_coll ex_env (Some ''ann'') ex_value ''c/1'' = (Inr (), c', e')"
      "coll_ok c' e' ''c/1''" "coll_entries c' e' ''c/1'' = upd_entries (Some ''ann'') ex_value []" "c_data c' = tr"
    using put_data_ok [where tree_op = bt_insert and caught = insertion_caught, OF ex_coll_ok(1) ex_writable ins] ex_coll_ok(2)
    by auto
  then show "coll_ok ex_coll1 ex_env1 ''c/1''" "coll_entries ex_coll1 ex_env1 ''c/1'' = [(Some ''ann'', ex_value)]"
    "bt_fits (c_data ex_coll1)" "bt_has_room (c_data ex_coll1)" "bt_root (c_data ex_coll1) \<noteq> None"
    using b by (simp_all add: ex_coll1_def ex_env1_def collection_insert_def count_record_def upd_entries_def)
qed

section \<open>Records and shared strings\<close>

text \<open>
  C28. A record that \<open>serialize\<close> appends to a data file is read back by \<open>deserialize\<close> at the position
  that was kept for it, whatever the file held before, and every record that stood in the file
  before is still read back at its own position.
\<close>

theorem record_roundtrip:
  assumes "fs_open_read fs path = Some old" "length old \<noteq> 1" "\<not> fs_full fs"
    and "tname v = Some n" "length k < 2 ^ 64" "length n < 2 ^ 64"
  shows "\<exists>fs'. serialize fs (-1) path (Some k) v False = (Inr (), int (length old), fs') \<and>
    deserialize fs' (int (length old)) path = Inr v \<and>
    (\<forall>pos j w. record_at old pos j w \<and> pos \<noteq> 1 \<longrightarrow> deserialize fs' pos path = Inr w)"
proof -
  let ?new = "old @ record_bytes k (personal_id v) n"
  let ?fs = "fs_put fs path (File ?new)"
  have "fs_open_append fs path = Some fs" using assms(1) by (rule fs_open_append_existing)
  then have "serialize fs (-1) path (Some k) v False = (Inr (), int (length old), ?fs)"
    using assms by (intro serialize_fresh) auto
  moreover have r: "fs_open_read ?fs path = Some ?new" by simp
  moreover have "deserialize ?fs (int (length old)) path = Inr v"
    using assms(2) by (intro deserialize_record [OF r record_at_end [OF assms(4-6)]]) auto
  moreover have "deserialize ?fs pos path = Inr w" if "record_at old pos j w" "pos \<noteq> 1" for pos j w
    by (rule deserialize_record [OF r record_at_grows [OF that(1)] that(2)])
  ultimately show ?thesis by blast
qed

theorem record_roundtrip_witness:
  "\<exists>fs'. serialize ex_fs (-1) ''c/1'' (Some ''ann'') ex_value False = (Inr (), 0, fs') \<and>
    deserialize fs' 0 ''c/1'' = Inr ex_value"
  using record_roundtrip [of ex_fs "''c/1''" "[]" ex_value "''Ann''" "''ann''"]
  by (auto simp: ex_fs_def ex_value_def fs_open_read_def fs_lookup_def)

text \<open>
  The string pool shares: asking twice for strings gives the same object exactly when the
  strings are equal, the object is in the pool under its string, and the pool counts the
  pointers that are out, so that it holds at least two to each object it has just given.
\<close>

theorem flyweight_shared:
  assumes "fw_ok fw" "get_flyweight_instance fw s = (p, fw1)" "get_flyweight_instance fw1 t = (q, fw2)"
  shows "(q = p \<longleftrightarrow> t = s) \<and> fw_ok fw2 \<and> map_of (fw_pool fw2) s = Some p \<and> 2 \<le> fw_uses fw2 q"
proof -
  note a = get_flyweight_instance_ok [OF assms(1,2)]
  note b = get_flyweight_instance_ok [OF a(1) assms(3)]
  have s: "map_of (fw_pool fw2) s = Some p"
  proof (cases "t = s")
    case True
    then have "fw_pool fw2 = fw_pool fw1" using a(2) assms(3) by (auto simp: get_flyweight_instance_def)
    then show ?thesis using a(2) by simp
  next
    case False
    then show ?thesis using a(2) b(4) by auto
  qed
  have "q = p \<longleftrightarrow> t = s"
  proof
    assume "q = p"
    then have "(t, p) \<in> set (fw_pool fw2)" "(s, p) \<in> set (fw_pool fw2)" using s b(2) map_of_SomeD by fast+
    moreover have "inj_on snd (set (fw_pool fw2))" using b(1) by (simp add: fw_ok_def distinct_map)
    ultimately show "t = s" unfolding inj_on_def by fastforce
  qed (use s b(2) in simp)
  then show ?thesis using s b by blast
qed

theorem flyweight_shared_witness:
  "fst (get_flyweight_instance (snd (get_flyweight_instance flyweight_factory_new ''a'')) ''b'') \<noteq>
    fst (get_flyweight_instance flyweight_factory_new ''a'')"
proof -
  have ok: "fw_ok flyweight_factory_new" by (simp add: fw_ok_def flyweight_factory_new_def)
  let ?r = "get_flyweight_instance flyweight_factory_new ''a''"
  from flyweight_shared [OF ok, of "''a''" "fst ?r" "snd ?r" "''b''" "fst (get_flyweight_instance (snd ?r) ''b'')"
      "snd (get_flyweight_instance (snd ?r) ''b'')"]
  show ?thesis by simp
qed

section \<open>Collections as sorted lists\<close>

text \<open>
  C10. As long as memory suffices for the object and the nodes and, in the file mode, the disk is not full and key and
  name are there and of sizes below 2^64, insertion refines insertion into the sorted list of keys and values, in
  memory and on disk: an absent key is entered and counted; a present one is refused with the storage's own
  exception, and the list and the counter stay as they were, but in the file mode the data file has then grown by the
  record that was refused. No file but the collection's is touched.
\<close>

theorem collection_insert_refines:
  assumes "coll_ok c env path" "writable env k v" "bt_fits (c_data c)"
  shows "\<exists>r c' env'. collection_insert c env k v path = (r, c', env') \<and> coll_ok c' env' path \<and>
    only_file path env env' \<and>
    (if k \<in> fst ` set (coll_entries c env path)
     then r = Inl Db_insertion_of_existent_key \<and> coll_entries c' env' path = coll_entries c env path \<and>
       c_records_cnt c' = c_records_cnt c \<and>
       (env_mode env = File_system \<longrightarrow> fs_size (env_fs env') path =
          fs_size (env_fs env) path + 24 + length (the k) + length (the (tname v)))
     else r = Inr () \<and> coll_entries c' env' path = upd_entries k v (coll_entries c env path) \<and>
       c_records_cnt c' = c_records_cnt c + 1)"
proof (cases "k \<in> fst ` set (coll_entries c env path)")
  case True
  then show ?thesis using collection_insert_old [OF assms(1,2) True] by (auto simp: length_record add.assoc)
next
  case False
  then show ?thesis using collection_insert_new [OF assms(1,2) False assms(3)] by auto
qed

theorem collection_insert_refines_witness:
  "\<exists>c' env'. collection_insert ex_coll ex_env (Some ''ann'') ex_value ''c/1'' = (Inr (), c', env') \<and>
    coll_entries c' env' ''c/1'' = [(Some ''ann'', ex_value)]"
  using collection_insert_refines [OF ex_coll_ok(1) ex_writable ex_coll_ok(3)] ex_coll_ok(2)
  by (auto simp: upd_entries_def)

text \<open>
  Update refines the replacement of a value in that list: a present key gets the new value, an
  absent one is refused and nothing changes.
\<close>

theorem collection_update_refines:
  assumes "coll_ok c env path" "writable env k v"
  shows "\<exists>r c' env'. collection_update c env k v path = (r, c', env') \<and> coll_ok c' env' path \<and>
    only_file path env env' \<and>
    (if k \<in> fst ` set (coll_entries c env path)
     then r = Inr () \<and> coll_entries c' env' path = upd_entries k v (coll_entries c env path)
     else r = Inl Db_updating_of_nonexistent_key \<and> coll_entries c' env' path = coll_entries c env path)"
proof (cases "k \<in> fst ` set (coll_entries c env path)")
  case True
  then show ?thesis using collection_update_old [OF assms True] by auto
next
  case False
  then show ?thesis using collection_update_new [OF assms False] by auto
qed

theorem collection_update_refines_witness:
  "\<exists>c' env'. collection_update ex_coll ex_env (Some ''ann'') ex_value ''c/1'' =
    (Inl Db_updating_of_nonexistent_key, c', env')"
  using collection_update_refines [OF ex_coll_ok(1) ex_writable] ex_coll_ok(2) by auto

text \<open>
  The record is written before the tree is asked: an insertion of a present key and an update of
  an absent one throw, but in the file mode the data file has grown by the whole record.
\<close>

theorem failed_put_leaves_record:
  assumes "coll_ok c env path" "writable env k v" "env_mode env = File_system"
  shows "(if k \<in> fst ` set (coll_entries c env path)
     then \<exists>c' env'. collection_insert c env k v path = (Inl Db_insertion_of_existent_key, c', env') \<and>
       fs_size (env_fs env') path = fs_size (env_fs env) path + 24 + length (the k) + length (the (tname v))
     else \<exists>c' env'. collection_update c env k v path = (Inl Db_updating_of_nonexistent_key, c', env') \<and>
       fs_size (env_fs env') path = fs_size (env_fs env) path + 24 + length (the k) + length (the (tname v)))"
  using collection_insert_old [OF assms(1,2)] collection_update_new [OF assms(1,2)] assms(3)
  by (auto simp: length_record add.assoc)

theorem failed_put_leaves_record_witness:
  "\<exists>c' env'. collection_update ex_coll ex_env (Some ''ann'') ex_value ''c/1'' =
    (Inl Db_updating_of_nonexistent_key, c', env') \<and> fs_size (env_fs env') ''c/1'' = 30"
proof -
  have "env_mode ex_env = File_system" "fs_size (env_fs ex_env) ''c/1'' = 0" "tname ex_value = Some ''Ann''"
    by (simp_all add: ex_env_def ex_fs_def fs_size_def fs_open_read_def fs_lookup_def ex_value_def)
  then show ?thesis
    using failed_put_leaves_record [OF ex_coll_ok(1) ex_writable] ex_coll_ok(2) by auto
qed

text \<open>
  C11. Disposal returns the value of a present key and removes exactly that entry, without a word written to any file, as
  long as no inner node of the tree is full (\<open>bt_has_room\<close>): below a full one the merge of two nodes writes behind the
  arrays, and its behaviour is undefined, which ordinary use can reach (\<open>bt_dispose_overrun_reachable\<close>). Of an absent key it
  throws and changes neither entries nor files, whatever the tree looks like.
\<close>

theorem collection_dispose_refines:
  assumes "coll_ok c env path" "k \<in> fst ` set (coll_entries c env path) \<Longrightarrow> bt_has_room (c_data c)"
  shows "\<exists>c' env'. coll_ok c' env' path \<and> env_fs env' = env_fs env \<and>
    coll_entries c' env' path = del_entries k (coll_entries c env path) \<and>
    collection_dispose c env k path =
      (case map_of (coll_entries c env path) k of
         None \<Rightarrow> Inl Db_disposal_of_nonexistent_key | Some v \<Rightarrow> Inr v, c', env')"
proof (cases "map_of (coll_entries c env path) k")
  case None
  then have k: "k \<notin> fst ` set (coll_entries c env path)" by (simp add: map_of_eq_None_iff)
  then have "del_entries k (coll_entries c env path) = coll_entries c env path"
    unfolding del_entries_def by (intro filter_True) force
  then show ?thesis using collection_dispose_new [OF assms(1) k] assms(1) None by auto
next
  case (Some v)
  then have k: "k \<in> fst ` set (coll_entries c env path)" by (force dest: map_of_SomeD)
  show ?thesis using collection_dispose_old [OF assms(1) Some assms(2) [OF k]] Some by auto
qed

theorem collection_dispose_refines_witness:
  "\<exists>c' env'. collection_dispose ex_coll1 ex_env1 (Some ''ann'') ''c/1'' = (Inr ex_value, c', env') \<and>
    coll_entries c' env' ''c/1'' = []"
  using collection_dispose_refines [OF ex_coll1_ok(1), of "Some ''ann''"] ex_coll1_ok(4)
  by (auto simp: ex_coll1_ok(2) del_entries_def)

section \<open>Lookups\<close>

text \<open>
  Lookup of a key returns its value in the list or throws, and changes neither the environment
  nor the entries.
\<close>

theorem collection_obtain_refines:
  assumes "coll_ok c env path"
  shows "\<exists>c'. collection_obtain c env k path =
      (case map_of (coll_entries c env path) k of
         None \<Rightarrow> Inl Db_obtaining_of_nonexistent_key | Some v \<Rightarrow> Inr v, c', env) \<and>
    coll_ok c' env path \<and> coll_entries c' env path = coll_entries c env path"
proof -
  obtain d where "collection_obtain c env k path =
      (case map_of (coll_entries c env path) k of
         None \<Rightarrow> Inl Db_obtaining_of_nonexistent_key | Some v \<Rightarrow> Inr v, c\<lparr>c_disposed_cnt := d\<rparr>, env)"
    using collection_obtain_exact [OF assms] by blast
  then show ?thesis using assms by (intro exI [of _ "c\<lparr>c_disposed_cnt := d\<rparr>"]) simp
qed

theorem collection_obtain_refines_witness:
  "fst (collection_obtain ex_coll1 ex_env1 (Some ''ann'') ''c/1'') = Inr ex_value"
  using collection_obtain_refines [OF ex_coll1_ok(1), of "Some ''ann''"] by (auto simp: ex_coll1_ok(2))

text \<open>
  A range query returns exactly the entries between the bounds, in order, each bound counted in
  or out as the flags say, when the tree has a root.
\<close>

theorem collection_obtain_between_refines:
  assumes "coll_ok c env path" "bt_root (c_data c) \<noteq> None"
  shows "fst (collection_obtain_between c env lo hi li ui path) =
    Inr (filter (\<lambda>p. (if li then lo \<le> fst p else lo < fst p) \<and> (if ui then fst p \<le> hi else fst p < hi))
      (coll_entries c env path))"
  using collection_obtain_between_exact [OF assms, of lo hi li ui] by auto

theorem collection_obtain_between_refines_witness:
  "fst (collection_obtain_between ex_coll1 ex_env1 (Some ''a'') (Some ''ann'') True False ''c/1'') = Inr []"
  using collection_obtain_between_refines [OF ex_coll1_ok(1,5), of "Some ''a''" "Some ''ann''" True False]
  by (simp add: ex_coll1_ok(2))

text \<open>
  The least and the greatest entry: the first and the last of the list, and an exception when
  there is none.
\<close>

theorem collection_min_max_refines:
  assumes "coll_ok c env path"
  shows "fst (collection_obtain_min c env path) =
      (case coll_entries c env path of [] \<Rightarrow> Inl Db_obtaining_of_nonexistent_key | x # _ \<Rightarrow> Inr x) \<and>
    fst (collection_obtain_max c env path) =
      (if coll_entries c env path = [] then Inl Db_obtaining_of_nonexistent_key else Inr (last (coll_entries c env path)))"
  using collection_obtain_min_exact [OF assms] collection_obtain_max_exact [OF assms] by auto

theorem collection_min_max_refines_witness:
  "fst (collection_obtain_max ex_coll1 ex_env1 ''c/1'') = Inr (Some ''ann'', ex_value)"
  using collection_min_max_refines [OF ex_coll1_ok(1)] by (simp add: ex_coll1_ok(2))

text \<open>The client's loop over a collection: the least entry, then the next one of each key it gets.\<close>

fun walk :: "nat \<Rightarrow> collection \<Rightarrow> db_env \<Rightarrow> string \<Rightarrow> (tkey \<times> tvalue) outcome" where
  "walk 0 c env path = collection_obtain_min c env path"
| "walk (Suc n) c env path =
     (case walk n c env path of
        (Inl e, c', env') \<Rightarrow> (Inl e, c', env')
      | (Inr (k, _), c', env') \<Rightarrow> collection_obtain_next c' env' path k)"

lemma next_entry_nth:
  assumes "distinct (map fst xs)" "i < length xs"
  shows "next_entry (fst (xs ! i)) xs = Some (xs ! min (Suc i) (length xs - 1))"
proof -
  have d: "dropWhile (\<lambda>p. fst p \<noteq> fst (xs ! i)) xs = drop i xs"
    using assms
  proof (induction xs arbitrary: i)
    case (Cons x xs)
    show ?case
    proof (cases i)
      case (Suc j)
      then have "fst x \<noteq> fst (xs ! j)" using Cons.prems by (force simp: in_set_conv_nth)
      then show ?thesis using Cons.IH [of j] Cons.prems Suc by simp
    qed simp
  qed simp
  show ?thesis
  proof (cases "Suc i < length xs")
    case True
    then have "drop i xs = xs ! i # xs ! Suc i # drop (Suc (Suc i)) xs" by (simp add: Cons_nth_drop_Suc)
    moreover have "min (Suc i) (length xs - 1) = Suc i" using True by simp
    ultimately show ?thesis by (simp add: next_entry_def d)
  next
    case False
    then have "drop i xs = [xs ! i]" "min (Suc i) (length xs - 1) = i"
      using assms(2) by (auto simp flip: Cons_nth_drop_Suc)
    then show ?thesis by (simp add: next_entry_def d)
  qed
qed

text \<open>
  C31. Every record is reached: the loop that starts with \<open>obtain_min\<close> and goes on with \<open>obtain_next\<close> gets
  the entry with the number \<open>i\<close> after \<open>i\<close> steps; it never ends by itself, since \<open>obtain_next\<close> of the
  last key returns the last entry again.
\<close>

theorem walk_reaches_all:
  assumes "coll_ok c env path" "coll_entries c env path \<noteq> []"
  shows "fst (walk n c env path) = Inr (coll_entries c env path ! min n (length (coll_entries c env path) - 1))"
proof -
  let ?xs = "coll_entries c env path"
  have d: "distinct (map fst ?xs)"
    using sorted_coll_entries [OF assms(1)] by (rule distinct_sorted)
  have "\<exists>d. walk n c env path = (Inr (?xs ! min n (length ?xs - 1)), c\<lparr>c_disposed_cnt := d\<rparr>, env)"
  proof (induction n)
    case 0
    obtain d where "collection_obtain_min c env path =
        (case ?xs of [] \<Rightarrow> Inl Db_obtaining_of_nonexistent_key | x # _ \<Rightarrow> Inr x, c\<lparr>c_disposed_cnt := d\<rparr>, env)"
      using collection_obtain_min_exact [OF assms(1)] by blast
    then show ?case using assms(2) by (cases ?xs) auto
  next
    case (Suc n)
    then obtain d where w: "walk n c env path = (Inr (?xs ! min n (length ?xs - 1)), c\<lparr>c_disposed_cnt := d\<rparr>, env)"
      by blast
    let ?i = "min n (length ?xs - 1)"
    have i: "?i < length ?xs" "min (Suc ?i) (length ?xs - 1) = min (Suc n) (length ?xs - 1)"
      using length_greater_0_conv [of ?xs] assms(2) by linarith+
    have "coll_ok (c\<lparr>c_disposed_cnt := d\<rparr>) env path" using assms(1) by simp
    from collection_obtain_next_exact [OF this, of "fst (?xs ! ?i)"] obtain d' where
        "collection_obtain_next (c\<lparr>c_disposed_cnt := d\<rparr>) env path (fst (?xs ! ?i)) =
          (Inr (?xs ! min (Suc n) (length ?xs - 1)), c\<lparr>c_disposed_cnt := d'\<rparr>, env)"
      using next_entry_nth [OF d i(1), unfolded i(2)] by auto
    then show ?case by (simp add: w split_beta) blast
  qed
  then show ?thesis by auto
qed

theorem walk_reaches_all_witness:
  "fst (walk 3 ex_coll1 ex_env1 ''c/1'') = Inr (Some ''ann'', ex_value)"
  using walk_reaches_all [OF ex_coll1_ok(1), of 3] by (simp add: ex_coll1_ok(2))

section \<open>Garbage and consolidation\<close>

text \<open>
  Collecting garbage never rewrites the data file of a well-formed collection, however many
  records were disposed of: it resets the counter of disposed records at the most, since the
  consolidation that it calls gets the path of the data file and looks for a file below it.
\<close>

theorem collect_garbage_keeps_file:
  assumes "coll_ok c env path"
  shows "collect_garbage c env path =
    (Inr (), if 35 * unat (c_records_cnt c) < 100 * unat (c_disposed_cnt c) then c\<lparr>c_disposed_cnt := 0\<rparr> else c, env)"
proof -
  have "collection_consolidate c env path = (Inr (), c, env)"
    using assms by (cases "env_mode env") (simp_all add: coll_ok_def collection_consolidate_def Let_def data_file_def)
  then show ?thesis by (simp add: collect_garbage_def)
qed

theorem collect_garbage_keeps_file_witness:
  "collect_garbage (ex_coll1\<lparr>c_records_cnt := 1, c_disposed_cnt := 9\<rparr>) ex_env1 ''c/1'' =
    (Inr (), ex_coll1\<lparr>c_records_cnt := 1, c_disposed_cnt := 0\<rparr>, ex_env1)"
  using collect_garbage_keeps_file [of "ex_coll1\<lparr>c_records_cnt := 1, c_disposed_cnt := 9\<rparr>" ex_env1 "''c/1''"]
    ex_coll1_ok(1) by simp

text \<open>
  C12. Consolidation, called with the directory, rewrites the data file to exactly the records of the
  entries in their order, and every entry keeps its value.
\<close>

theorem collection_consolidate_exact:
  assumes "coll_dir env path" "coll_ok c env (make_path_strings [path, show_nat (unat (env_id env))])"
  shows "\<exists>c' env'. collection_consolidate c env path = (Inr (), c', env') \<and>
    coll_ok c' env' (make_path_strings [path, show_nat (unat (env_id env))]) \<and>
    coll_entries c' env' (make_path_strings [path, show_nat (unat (env_id env))]) =
      coll_entries c env (make_path_strings [path, show_nat (unat (env_id env))]) \<and>
    fs_open_read (env_fs env') (make_path_strings [path, show_nat (unat (env_id env))]) =
      Some (concat (map file_record (coll_entries c env (make_path_strings [path, show_nat (unat (env_id env))]))))"
  by (rule consolidate_correct [OF assms(1) refl assms(2)])

theorem collection_consolidate_exact_witness:
  "\<exists>c' env'. collection_consolidate ex_coll ex_env ''c'' = (Inr (), c', env') \<and>
    fs_open_read (env_fs env') ''c/1'' = Some []"
proof -
  have n: "show_nat (unat (env_id ex_env)) = ''1''"
  proof -
    have "unat (env_id ex_env) = 1" by (simp add: ex_env_def)
    moreover have "show_nat 1 = ''1''" by code_simp
    ultimately show ?thesis by (simp only:)
  qed
  have p: "make_path_strings [''c'', ''1''] = ''c/1''" "make_path_strings [''c'', ''tmp''] = ''c/tmp''"
      "make_path_strings [''c'', ''tmp'', ''1''] = ''c/tmp/1''"
    by (simp_all add: make_path_strings_def)
  have "coll_dir ex_env ''c''" unfolding coll_dir_def Let_def n p by (simp add: ex_env_def ex_fs_def fs_lookup_def)
  from collection_consolidate_exact [OF this, of ex_coll] show ?thesis
    using ex_coll_ok(1,2) unfolding n p by auto
qed

end
