(* ===== verification/Arena.thy ===== *)
theory Arena
  imports Prelude "HOL-Library.Word"
begin

text \<open>
  The memory in which the allocators keep their blocks. An address is the offset from the first byte
  behind the allocator's own fields. A cell is the eight-byte word that was last written at an
  address: a size, a pointer into the arena or null, or the address of the allocator. A write makes
  the words that overlap it indeterminate (\<open>None\<close>), and so do the bytes of the user.
\<close>

section \<open>Cells\<close>

datatype arena_cell = Size "64 word" | Link "nat option" | Owner

type_synonym arena = "nat \<Rightarrow> arena_cell option"

datatype alloc_exn = Al_bad_alloc | Al_logic_error string | Al_undefined

definition put :: "arena \<Rightarrow> nat \<Rightarrow> arena_cell \<Rightarrow> arena" where
  "put m a x = (\<lambda>b. if b = a then Some x else if a < b + 8 \<and> b < a + 8 then None else m b)"

text \<open>Any bytes that the user writes at \<open>a\<close>, \<open>n\<close> of them.\<close>

definition scribble :: "arena \<Rightarrow> nat \<Rightarrow> nat \<Rightarrow> arena" where
  "scribble m a n = (\<lambda>b. if a < b + 8 \<and> b < a + n then None else m b)"

definition get_size :: "arena \<Rightarrow> nat \<Rightarrow> 64 word option" where
  "get_size m a = (case m a of Some (Size w) \<Rightarrow> Some w | _ \<Rightarrow> None)"

definition get_link :: "arena \<Rightarrow> nat \<Rightarrow> nat option option" where
  "get_link m a = (case m a of Some (Link p) \<Rightarrow> Some p | _ \<Rightarrow> None)"

lemma put_same [simp]: "put m a x a = Some x"
  by (simp add: put_def)

lemma put_other: "b + 8 \<le> a \<or> a + 8 \<le> b \<Longrightarrow> put m a x b = m b"
  by (auto simp: put_def)

lemma scribble_other: "b + 8 \<le> a \<or> a + n \<le> b \<Longrightarrow> scribble m a n b = m b"
  by (auto simp: scribble_def)

lemma get_cell [simp]:
  "m a = Some (Size w) \<Longrightarrow> get_size m a = Some w" "m a = Some (Link p) \<Longrightarrow> get_link m a = Some p"
  by (simp_all add: get_size_def get_link_def)

section \<open>The arena as a list of blocks\<close>

text \<open>
  The abstraction: the blocks in the order of their addresses, each with a flag that tells whether it
  is in use and with its size, which counts its header.
\<close>

type_synonym blocks = "(bool \<times> nat) list"

definition span :: "blocks \<Rightarrow> nat" where
  "span bs = sum_list (map snd bs)"

definition free_sum :: "blocks \<Rightarrow> nat" where
  "free_sum bs = sum_list (map snd (filter (\<lambda>b. \<not> fst b) bs))"

text \<open>The free blocks with their addresses, when the first block stands at \<open>a\<close>.\<close>

fun frees :: "nat \<Rightarrow> blocks \<Rightarrow> (nat \<times> nat) list" where
  "frees a [] = []"
| "frees a ((used, z) # bs) = (if used then frees (a + z) bs else (a, z) # frees (a + z) bs)"

definition first_of :: "(nat \<times> nat) list \<Rightarrow> nat option \<Rightarrow> nat option" where
  "first_of fl n = (case fl of [] \<Rightarrow> n | (a, _) # _ \<Rightarrow> Some a)"

definition last_of :: "(nat \<times> nat) list \<Rightarrow> nat option" where
  "last_of fl = (if fl = [] then None else Some (fst (last fl)))"

text \<open>No two free blocks side by side.\<close>

fun coalesced :: "blocks \<Rightarrow> bool" where
  "coalesced ((u, y) # (v, z) # bs) = ((u \<or> v) \<and> coalesced ((v, z) # bs))"
| "coalesced _ = True"

lemma span_simps [simp]: "span [] = 0" "span (b # bs) = snd b + span bs" "span (xs @ ys) = span xs + span ys"
  by (simp_all add: span_def)

lemma free_sum_simps [simp]: "free_sum [] = 0" "free_sum (b # bs) = (if fst b then 0 else snd b) + free_sum bs"
  "free_sum (xs @ ys) = free_sum xs + free_sum ys"
  by (simp_all add: free_sum_def)

lemma free_sum_le: "free_sum bs \<le> span bs"
  by (induction bs) auto

lemma frees_append [simp]: "frees a (xs @ ys) = frees a xs @ frees (a + span xs) ys"
  by (induction a xs rule: frees.induct) (simp_all add: add.assoc)

lemma first_of_append [simp]: "first_of (xs @ ys) n = first_of xs (first_of ys n)"
  by (cases xs) (auto simp: first_of_def)

lemma first_of_simps [simp]: "first_of [] n = n" "first_of (x # xs) n = Some (fst x)"
  by (auto simp: first_of_def split: prod.split)

lemma last_of_simps [simp]: "last_of [] = None" "last_of (xs @ [x]) = Some (fst x)"
  by (simp_all add: last_of_def)

lemma frees_bounds: "(x, z) \<in> set (frees a bs) \<Longrightarrow> a \<le> x \<and> x + z \<le> a + span bs"
  by (induction a bs rule: frees.induct) (auto split: if_splits)

text \<open>A free block of the list of free blocks, as a block of the arena.\<close>

lemma frees_split:
  assumes "frees a bs = pre @ (t, z) # post"
  shows "\<exists>xs ys. bs = xs @ (False, z) # ys \<and> frees a xs = pre \<and> t = a + span xs \<and> frees (t + z) ys = post"
  using assms
proof (induction a bs arbitrary: pre rule: frees.induct)
  case (2 a used y bs)
  show ?case
  proof (cases used)
    case True
    then obtain xs ys where "bs = xs @ (False, z) # ys" "frees (a + y) xs = pre" "t = a + y + span xs"
        "frees (t + z) ys = post"
      using 2 by auto
    then show ?thesis using True by (intro exI [of _ "(True, y) # xs"] exI [of _ ys]) simp
  next
    case False
    show ?thesis
    proof (cases pre)
      case Nil
      show ?thesis by (rule exI [of _ "[]"], rule exI [of _ bs]) (use Nil 2(3) False in auto)
    next
      case (Cons p pre')
      then have "frees (a + y) bs = pre' @ (t, z) # post" using 2(3) False by simp
      then obtain xs ys where "bs = xs @ (False, z) # ys" "frees (a + y) xs = pre'" "t = a + y + span xs"
          "frees (t + z) ys = post"
        using 2(2) False by blast
      then show ?thesis using False Cons 2(3) by (intro exI [of _ "(False, y) # xs"] exI [of _ ys]) auto
    qed
  qed
qed simp

lemma last_free_split:
  assumes "last_of (frees a xs) = Some p"
  shows "\<exists>us z vs. xs = us @ (False, z) # vs \<and> p = a + span us \<and> frees (p + z) vs = []"
proof -
  have "frees a xs \<noteq> []" using assms by (auto simp: last_of_def)
  then obtain pre z where "frees a xs = pre @ [(p, z)]"
    using assms by (metis append_butlast_last_id last_of_simps(2) option.inject prod.collapse)
  then obtain us vs where "xs = us @ (False, z) # vs" "p = a + span us" "frees (p + z) vs = []"
    using frees_split [of a xs pre p z "[]"] by auto
  then show ?thesis by blast
qed

lemma coalesced_append:
  "coalesced (xs @ ys) \<longleftrightarrow> coalesced xs \<and> coalesced ys \<and> (xs \<noteq> [] \<and> ys \<noteq> [] \<longrightarrow> fst (last xs) \<or> fst (hd ys))"
  by (induction xs rule: coalesced.induct) (cases ys; auto)+

section \<open>Words\<close>

lemma unat_of_nat_small: "n < 2 ^ 64 \<Longrightarrow> unat (of_nat n :: 64 word) = n"
  by (simp add: unat_of_nat)

text \<open>A product that fits into a word is the product of the words.\<close>

lemma unat_product:
  fixes v w :: "64 word"
  assumes "unat v * unat w + h < 2 ^ 64"
  shows "unat (v * w) = unat v * unat w"
  using assms by (simp add: unat_word_ariths)

text \<open>The fields of an allocator fit in front of its memory when the sum does not wrap around.\<close>

lemma fits_word:
  fixes n :: "64 word"
  assumes "\<not> n + 84 < n"
  shows "unat n + 84 < 2 ^ 64"
proof (rule ccontr)
  assume big: "\<not> unat n + 84 < 2 ^ 64"
  have lt: "unat n < 2 ^ 64" by (rule order.strict_trans2 [OF unsigned_less]) simp
  have "unat (n + 84) = (unat n + 84) mod 2 ^ 64" by (simp add: unat_word_ariths)
  also have "\<dots> = unat n + 84 - 2 ^ 64" using big lt by (simp add: le_mod_geq not_less)
  also have "\<dots> < unat n" using big lt by simp
  finally show False using assms by (simp add: word_less_nat_alt)
qed

end
