(* ===== verification/Sorted_List_Allocator.thy ===== *)
theory Sorted_List_Allocator
  imports Arena Collection
begin

text \<open>
  \<open>allocator_sorted_list.cpp\<close>: the free blocks are a list sorted by address. The header of a block has
  sixteen bytes: the size of the block, and the pointer to the next free block or, in a block in
  use, the address of the allocator. The mutex and the messages are left out, but the dump of
  a block, which reads memory, is kept.
\<close>

section \<open>State\<close>

record sl =
  sl_space :: "64 word"
  sl_free :: "64 word"
  sl_head :: "nat option"
  sl_fit :: fit_mode
  sl_mem :: arena

text \<open>The fields of the allocator take 84 bytes of its memory: \<open>get_meta_size\<close>.\<close>

definition sl_meta_size :: "64 word" where "sl_meta_size = 84"
definition sl_block_meta_size :: "64 word" where "sl_block_meta_size = 16"
definition sl_occupied_meta_size :: "64 word" where "sl_occupied_meta_size = 16"

text \<open>
  The constructor. \<open>grants\<close> tells whether the parent allocator, or the global one, serves a request. When
  the sum wraps around, the fields do not fit into what was requested.
\<close>

definition sl_new :: "(64 word \<Rightarrow> bool) \<Rightarrow> 64 word \<Rightarrow> fit_mode \<Rightarrow> alloc_exn + sl" where
  "sl_new grants space_size mode =
     (if space_size < sl_block_meta_size then Inl (Al_logic_error ''Cannot initialize allocator of this size'')
      else if \<not> grants (space_size + sl_meta_size) then Inl Al_bad_alloc
      else if space_size + sl_meta_size < space_size then Inl Al_undefined
      else Inr \<lparr>sl_space = space_size, sl_free = space_size, sl_head = Some 0, sl_fit = mode,
        sl_mem = put (put Map.empty 0 (Size space_size)) 8 (Link None)\<rparr>)"

section \<open>Allocation\<close>

text \<open>
  The loop over the free blocks: \<open>cur\<close> is the block that was looked at last, \<open>prev\<close> the one before the
  target. The result is \<open>prev\<close> and the target with its size; \<open>None\<close> is a read of a word that is no
  pointer or no size, or the end of the fuel.
\<close>

fun sl_search ::
  "nat \<Rightarrow> sl \<Rightarrow> 64 word \<Rightarrow> nat \<Rightarrow> nat option \<Rightarrow> (nat \<times> 64 word) option
    \<Rightarrow> (nat option \<times> (nat \<times> 64 word) option) option" where
  "sl_search 0 s block_size cur prev target = None"
| "sl_search (Suc fuel) s block_size cur prev target =
     (if sl_fit s = First_fit \<and> target \<noteq> None then Some (prev, target)
      else case get_link (sl_mem s) (cur + 8) of
        None \<Rightarrow> None
      | Some None \<Rightarrow> Some (prev, target)
      | Some (Some next) \<Rightarrow>
          (case get_size (sl_mem s) next of
             None \<Rightarrow> None
           | Some sz \<Rightarrow>
               if block_size \<le> sz \<and>
                  (case target of
                     None \<Rightarrow> True
                   | Some (_, chosen_size) \<Rightarrow>
                       sl_fit s = The_best_fit \<and> sz < chosen_size \<or> sl_fit s = The_worst_fit \<and> chosen_size < sz)
               then sl_search fuel s block_size next (Some cur) (Some (next, sz))
               else sl_search fuel s block_size next prev target))"

definition sl_set_next :: "sl \<Rightarrow> nat option \<Rightarrow> nat option \<Rightarrow> sl" where
  "sl_set_next s prev next =
     (case prev of
        None \<Rightarrow> s\<lparr>sl_head := next\<rparr>
      | Some p \<Rightarrow> s\<lparr>sl_mem := put (sl_mem s) (p + 8) (Link next)\<rparr>)"

text \<open>The target is taken, as a whole or split.\<close>

definition sl_take :: "sl \<Rightarrow> nat option \<Rightarrow> nat \<Rightarrow> 64 word \<Rightarrow> 64 word \<Rightarrow> sl option" where
  "sl_take s prev target chosen_size block_size =
     (case get_link (sl_mem s) (target + 8) of
        None \<Rightarrow> None
      | Some next0 \<Rightarrow>
          let whole = (chosen_size < block_size + sl_occupied_meta_size);
              block_size' = (if whole then chosen_size else block_size);
              next = (if whole then next0 else Some (target + unat block_size));
              s1 = (if whole then s
                    else s\<lparr>sl_mem := put (put (sl_mem s) (target + unat block_size + 8) (Link next0))
                             (target + unat block_size) (Size (chosen_size - block_size))\<rparr>);
              s2 = sl_set_next s1 prev next in
          Some (s2\<lparr>sl_mem := put (put (sl_mem s2) target (Size block_size')) (target + 8) Owner,
                   sl_free := sl_free s2 - block_size'\<rparr>))"

definition sl_allocate :: "sl \<Rightarrow> 64 word \<Rightarrow> 64 word \<Rightarrow> (alloc_exn + nat) \<times> sl" where
  "sl_allocate s value_size values_count =
     (let req_size = value_size * values_count;
          block_size = req_size + sl_occupied_meta_size in
      case sl_head s of
        None \<Rightarrow> (Inl Al_bad_alloc, s)
      | Some cur \<Rightarrow>
          (case Option.bind (get_size (sl_mem s) cur) (\<lambda>cur_size.
                  sl_search (Suc (unat (sl_space s))) s block_size cur None
                    (if block_size \<le> cur_size then Some (cur, cur_size) else None)) of
             None \<Rightarrow> (Inl Al_undefined, s)
           | Some (prev, None) \<Rightarrow> (Inl Al_bad_alloc, s)
           | Some (prev, Some (target, chosen_size)) \<Rightarrow>
               (case sl_take s prev target chosen_size block_size of
                  None \<Rightarrow> (Inl Al_undefined, s)
                | Some s' \<Rightarrow> (Inr (target + unat sl_occupied_meta_size), s'))))"

section \<open>Deallocation\<close>

text \<open>The loop to the first free block behind \<open>at\<close>, and the block before it.\<close>

fun sl_seek :: "nat \<Rightarrow> arena \<Rightarrow> nat \<Rightarrow> nat option \<Rightarrow> nat option \<Rightarrow> (nat option \<times> nat option) option" where
  "sl_seek 0 m at prev next = None"
| "sl_seek (Suc fuel) m at prev next =
     (case next of
        None \<Rightarrow> Some (prev, None)
      | Some p \<Rightarrow>
          if p < at then Option.bind (get_link m (p + 8)) (sl_seek fuel m at (Some p))
          else Some (prev, Some p))"

text \<open>The block goes into the list and is joined with its neighbours.\<close>

definition sl_join :: "sl \<Rightarrow> nat \<Rightarrow> 64 word \<Rightarrow> nat option \<Rightarrow> nat option \<Rightarrow> sl option" where
  "sl_join s at_begin sz prev next = do {
     (sz', m1) \<leftarrow> (case next of
         None \<Rightarrow> Some (sz, put (sl_mem s) (at_begin + 8) (Link None))
       | Some n \<Rightarrow>
           if at_begin + unat sz = n then do {
             next_size \<leftarrow> get_size (sl_mem s) n;
             let m = put (sl_mem s) at_begin (Size (sz + next_size));
             next_next \<leftarrow> get_link m (n + 8);
             Some (sz + next_size, put m (at_begin + 8) (Link next_next))
           }
           else Some (sz, put (sl_mem s) (at_begin + 8) (Link (Some n))));
     (case prev of
        None \<Rightarrow> Some (s\<lparr>sl_mem := m1, sl_head := Some at_begin, sl_free := sl_free s + sz\<rparr>)
      | Some p \<Rightarrow> do {
          prev_size \<leftarrow> get_size m1 p;
          if p + unat prev_size = at_begin then do {
            let m2 = put m1 p (Size (prev_size + sz'));
            at_next \<leftarrow> get_link m2 (at_begin + 8);
            Some (s\<lparr>sl_mem := put m2 (p + 8) (Link at_next), sl_free := sl_free s + sz\<rparr>)
          }
          else Some (s\<lparr>sl_mem := put m1 (p + 8) (Link (Some at_begin)), sl_free := sl_free s + sz\<rparr>)
        })
   }"

text \<open>
  \<open>at\<close> is the offset of the pointer, \<open>None\<close> the null pointer. A word behind the header's size that is a
  pointer to a free block is not the allocator's address. The dump reads as many bytes from \<open>at\<close> on as
  the whole block has, with its header.
\<close>

definition sl_deallocate :: "sl \<Rightarrow> int option \<Rightarrow> (alloc_exn + unit) \<times> sl" where
  "sl_deallocate s at_ptr =
     (case at_ptr of
        None \<Rightarrow> (Inr (), s)
      | Some at \<Rightarrow>
          if at < 0 \<or> int (unat (sl_space s)) \<le> at
          then (Inl (Al_logic_error ''try of deallocation non-related memory''), s)
          else if at < int (unat sl_occupied_meta_size) then (Inl Al_undefined, s)
          else
            let at_begin = nat at - unat sl_occupied_meta_size in
            (case sl_mem s (at_begin + 8) of
               Some (Link _) \<Rightarrow> (Inl (Al_logic_error ''try of deallocation non-related memory''), s)
             | Some Owner \<Rightarrow>
                 (case do {
                    sz \<leftarrow> get_size (sl_mem s) at_begin;
                    (prev, next) \<leftarrow> sl_seek (Suc (Suc (unat (sl_space s)))) (sl_mem s) (nat at) None (sl_head s);
                    s' \<leftarrow> sl_join s at_begin sz prev next;
                    Some (sz, s') } of
                    None \<Rightarrow> (Inl Al_undefined, s)
                  | Some (sz, s') \<Rightarrow>
                      if nat at + unat sz \<le> unat (sl_space s) then (Inr (), s') else (Inl Al_undefined, s'))
             | _ \<Rightarrow> (Inl Al_undefined, s)))"

section \<open>The rest\<close>

definition sl_set_fit_mode :: "sl \<Rightarrow> fit_mode \<Rightarrow> sl" where
  "sl_set_fit_mode s mode = s\<lparr>sl_fit := mode\<rparr>"

text \<open>The walk over all blocks: the size and whether the block is in use.\<close>

fun sl_blocks_from :: "nat \<Rightarrow> sl \<Rightarrow> nat \<Rightarrow> nat option \<Rightarrow> (64 word \<times> bool) list option" where
  "sl_blocks_from 0 s cur avail = None"
| "sl_blocks_from (Suc fuel) s cur avail =
     (if cur < unat (sl_space s) then
        (case get_size (sl_mem s) cur of
           None \<Rightarrow> None
         | Some sz \<Rightarrow>
             if avail = Some cur then
               Option.bind (get_link (sl_mem s) (cur + 8)) (\<lambda>avail'.
                 map_option (\<lambda>bs. (sz, False) # bs) (sl_blocks_from fuel s (cur + unat sz) avail'))
             else map_option (\<lambda>bs. (sz, True) # bs) (sl_blocks_from fuel s (cur + unat sz) avail))
      else Some [])"

definition sl_create_blocks_info :: "sl \<Rightarrow> (64 word \<times> bool) list option" where
  "sl_create_blocks_info s = sl_blocks_from (Suc (unat (sl_space s))) s 0 (sl_head s)"

text \<open>
  The object holds the pointer to its memory; \<open>None\<close> is the null pointer that a move leaves. The
  messages of the destructor and of both moves ask for the logger behind that pointer.
\<close>

type_synonym sl_object = "sl option"

definition sl_destroy :: "sl_object \<Rightarrow> alloc_exn + unit" where
  "sl_destroy obj = (case obj of None \<Rightarrow> Inl Al_undefined | Some _ \<Rightarrow> Inr ())"

definition sl_move_construct :: "sl_object \<Rightarrow> alloc_exn + (sl_object \<times> sl_object)" where
  "sl_move_construct other = (case other of None \<Rightarrow> Inl Al_undefined | Some s \<Rightarrow> Inr (Some s, None))"

definition sl_move_assign :: "sl_object \<Rightarrow> sl_object \<Rightarrow> alloc_exn + (sl_object \<times> sl_object)" where
  "sl_move_assign obj other =
     (case obj of
        None \<Rightarrow> Inl Al_undefined
      | Some _ \<Rightarrow> (case other of None \<Rightarrow> Inl Al_undefined | Some s \<Rightarrow> Inr (Some s, None)))"

end
