(* ===== verification/Blocks.thy ===== *)
theory Blocks
  imports Arena Collection
begin

text \<open>
  What the allocators with a fit mode promise, on the list of blocks: which free block a request gets,
  how it is carved out of it, and how a block that is given back is joined with its neighbours.
\<close>

section \<open>The choice\<close>

lemma frees_iff: "(\<exists>x. (x, z) \<in> set (frees a bs)) \<longleftrightarrow> (False, z) \<in> set bs"
  by (induction a bs rule: frees.induct) auto

lemma frees_all: "(\<forall>(x, z) \<in> set (frees a bs). P z) \<longleftrightarrow> (\<forall>z. (False, z) \<in> set bs \<longrightarrow> P z)"
  unfolding frees_iff [symmetric, of _ bs a] by auto

text \<open>The free block of size \<open>tz\<close> between \<open>xs\<close> and \<open>ys\<close> is the one that the fit mode asks for.\<close>

definition fits :: "fit_mode \<Rightarrow> nat \<Rightarrow> blocks \<Rightarrow> nat \<Rightarrow> blocks \<Rightarrow> bool" where
  "fits fit need xs tz ys \<longleftrightarrow> need \<le> tz \<and>
     (fit = First_fit \<longrightarrow> (\<forall>z. (False, z) \<in> set xs \<longrightarrow> z < need)) \<and>
     (fit = The_best_fit \<longrightarrow> (\<forall>z. (False, z) \<in> set (xs @ ys) \<and> need \<le> z \<longrightarrow> tz \<le> z)) \<and>
     (fit = The_worst_fit \<longrightarrow> (\<forall>z. (False, z) \<in> set (xs @ ys) \<longrightarrow> z \<le> tz))"

text \<open>What the search has chosen among the free blocks \<open>fl\<close>.\<close>

definition chosen ::
  "fit_mode \<Rightarrow> nat \<Rightarrow> (nat \<times> nat) list \<Rightarrow> nat option \<Rightarrow> (nat \<times> 64 word) option \<Rightarrow> bool" where
  "chosen fit need fl prev target \<longleftrightarrow>
     (case target of
        None \<Rightarrow> prev = None \<and> (\<forall>(x, z) \<in> set fl. z < need)
      | Some (t, w) \<Rightarrow>
          (\<exists>pre post. fl = pre @ (t, unat w) # post \<and> need \<le> unat w \<and> prev = last_of pre \<and>
             (fit = First_fit \<longrightarrow> (\<forall>(x, z) \<in> set pre. z < need)) \<and>
             (fit = The_best_fit \<longrightarrow> (\<forall>(x, z) \<in> set fl. need \<le> z \<longrightarrow> unat w \<le> z)) \<and>
             (fit = The_worst_fit \<longrightarrow> (\<forall>(x, z) \<in> set fl. z \<le> unat w))))"

lemma chosen_first_grows: "chosen First_fit need fl prev (Some t) \<Longrightarrow> chosen First_fit need (fl @ rest) prev (Some t)"
  unfolding chosen_def by (auto split: prod.splits)

lemma chosen_skip:
  assumes "chosen fit need fl prev target"
    and "need \<le> z \<Longrightarrow> (\<exists>t w. target = Some (t, w) \<and> (fit = The_best_fit \<longrightarrow> unat w \<le> z) \<and> (fit = The_worst_fit \<longrightarrow> z \<le> unat w))"
  shows "chosen fit need (fl @ [(x, z)]) prev target"
proof (cases target)
  case None
  then show ?thesis using assms by (cases "need \<le> z") (auto simp: chosen_def)
next
  case (Some tw)
  obtain t w where tw: "tw = (t, w)" by fastforce
  obtain pre post where c: "fl = pre @ (t, unat w) # post" "need \<le> unat w" "prev = last_of pre"
      "fit = First_fit \<longrightarrow> (\<forall>(x, z) \<in> set pre. z < need)"
      "fit = The_best_fit \<longrightarrow> (\<forall>(x, z) \<in> set fl. need \<le> z \<longrightarrow> unat w \<le> z)"
      "fit = The_worst_fit \<longrightarrow> (\<forall>(x, z) \<in> set fl. z \<le> unat w)"
    using assms(1) by (auto simp: chosen_def Some tw)
  have "need \<le> z \<longrightarrow> (fit = The_best_fit \<longrightarrow> unat w \<le> z)" "fit = The_worst_fit \<longrightarrow> z \<le> unat w"
    using assms(2) c(2) by (cases "need \<le> z"; auto simp: Some tw)+
  then have "fit = The_best_fit \<longrightarrow> (\<forall>(x, z) \<in> set (fl @ [(x, z)]). need \<le> z \<longrightarrow> unat w \<le> z)"
      "fit = The_worst_fit \<longrightarrow> (\<forall>(x, z) \<in> set (fl @ [(x, z)]). z \<le> unat w)"
    using c(5,6) by auto
  moreover have "fl @ [(x, z)] = pre @ (t, unat w) # (post @ [(x, z)])" by (simp add: c(1))
  ultimately show ?thesis
    using c(2-4) unfolding chosen_def Some tw by (simp only: option.case prod.case) blast
qed

lemma chosen_take:
  assumes "chosen fit need fl prev target" "need \<le> unat w" "fit = First_fit \<longrightarrow> target = None"
    and "case target of None \<Rightarrow> True | Some (_, u) \<Rightarrow> fit = The_best_fit \<and> w < u \<or> fit = The_worst_fit \<and> u < w"
  shows "chosen fit need (fl @ [(x, unat w)]) (last_of fl) (Some (x, w))"
proof -
  have "\<forall>(a, z) \<in> set fl. (fit = First_fit \<longrightarrow> z < need) \<and>
      (fit = The_best_fit \<longrightarrow> need \<le> z \<longrightarrow> unat w \<le> z) \<and> (fit = The_worst_fit \<longrightarrow> z \<le> unat w)"
  proof (cases target)
    case None
    then show ?thesis using assms(1,2) by (fastforce simp: chosen_def)
  next
    case (Some tu)
    obtain t u where tu: "tu = (t, u)" by fastforce
    then show ?thesis
      using assms(1,3,4) by (fastforce simp: chosen_def Some tu word_less_nat_alt)
  qed
  then have a: "\<forall>(a, z) \<in> set fl. fit = First_fit \<longrightarrow> z < need"
    "\<forall>(a, z) \<in> set (fl @ [(x, unat w)]). fit = The_best_fit \<longrightarrow> need \<le> z \<longrightarrow> unat w \<le> z"
    "\<forall>(a, z) \<in> set (fl @ [(x, unat w)]). fit = The_worst_fit \<longrightarrow> z \<le> unat w"
    by auto
  show ?thesis
    unfolding chosen_def
    by (simp only: option.case prod.case, rule exI [of _ fl], rule exI [of _ "[]"]) (use a assms(2) in auto)
qed

lemma chosen_fits:
  assumes "chosen fit need (frees 0 bs) prev (Some (t, w))"
  shows "\<exists>xs ys. bs = xs @ (False, unat w) # ys \<and> t = span xs \<and> prev = last_of (frees 0 xs) \<and>
    fits fit need xs (unat w) ys"
proof -
  obtain pre post where p: "frees 0 bs = pre @ (t, unat w) # post" "need \<le> unat w" "prev = last_of pre"
      "fit = First_fit \<longrightarrow> (\<forall>(x, z) \<in> set pre. z < need)"
      "fit = The_best_fit \<longrightarrow> (\<forall>(x, z) \<in> set (frees 0 bs). need \<le> z \<longrightarrow> unat w \<le> z)"
      "fit = The_worst_fit \<longrightarrow> (\<forall>(x, z) \<in> set (frees 0 bs). z \<le> unat w)"
    using assms by (auto simp: chosen_def)
  obtain xs ys where x: "bs = xs @ (False, unat w) # ys" "frees 0 xs = pre" "t = span xs"
    using frees_split [OF p(1)] by auto
  have "fits fit need xs (unat w) ys"
    using p(2,4-6) unfolding x(2) [symmetric] frees_all by (auto simp: fits_def x(1))
  then show ?thesis using x p(3) by blast
qed

lemma prefix_span:
  assumes "xs @ ys = xs' @ ys'" "span xs = span xs'" "\<forall>(u, z) \<in> set (xs @ ys). 0 < z"
  shows "xs = xs'"
proof -
  have "us = []" if "span us = 0" "\<forall>(u, z) \<in> set us. 0 < z" for us :: blocks
    using that by (cases us) auto
  then show ?thesis using assms unfolding append_eq_append_conv2 by (elim exE disjE conjE) auto
qed

lemma chosen_fits_at:
  assumes c: "chosen fit need (frees 0 bs) prev (Some (span xs, w))" and bs: "bs = xs @ (False, unat w) # ys"
    and pos: "\<forall>(u, z) \<in> set bs. 0 < z"
  shows "fits fit need xs (unat w) ys"
proof -
  obtain xs' ys' where x: "bs = xs' @ (False, unat w) # ys'" "span xs = span xs'" "fits fit need xs' (unat w) ys'"
    using chosen_fits [OF c] by blast
  have "xs' = xs"
    by (rule prefix_span [of xs' "(False, unat w) # ys'" xs "(False, unat w) # ys"]) (use x(1,2) bs pos in simp_all)
  then show ?thesis using x(1,3) bs by simp
qed

lemma chosen_none: "chosen fit need (frees 0 bs) prev None \<Longrightarrow> (False, z) \<in> set bs \<Longrightarrow> z < need"
  by (simp add: chosen_def frees_all)

section \<open>Carving\<close>

text \<open>A block is taken whole when the rest could not hold a header of \<open>h\<close> bytes.\<close>

definition carve :: "nat \<Rightarrow> nat \<Rightarrow> nat \<Rightarrow> blocks" where
  "carve h tz need = (if tz < need + h then [(True, tz)] else [(True, need), (False, tz - need)])"

lemma span_carve: "need \<le> tz \<Longrightarrow> span (carve h tz need) = tz"
  by (simp add: carve_def)

lemma free_word:
  fixes f :: "64 word"
  assumes "free_sum (xs @ (False, tz) # ys) = unat f" "k \<le> tz"
  shows "unat (f - of_nat k) = unat f - k"
proof -
  have "k \<le> unat f" using assms by simp
  moreover have "unat (of_nat k :: 64 word) = k"
  proof -
    have "unat f < 2 ^ 64" by (rule order.strict_trans2 [OF unsigned_less]) simp
    then show ?thesis using \<open>k \<le> unat f\<close> by (simp add: unat_of_nat)
  qed
  ultimately show ?thesis by (simp add: unat_sub word_le_nat_alt)
qed

section \<open>Giving back\<close>

definition join_right :: "nat \<Rightarrow> blocks \<Rightarrow> nat \<times> blocks" where
  "join_right z ys = (case ys of (False, y) # ys' \<Rightarrow> (z + y, ys') | _ \<Rightarrow> (z, ys))"

definition join_left :: "blocks \<Rightarrow> nat \<Rightarrow> blocks" where
  "join_left xs z =
     (if xs \<noteq> [] \<and> \<not> fst (last xs) then butlast xs @ [(False, snd (last xs) + z)] else xs @ [(False, z)])"

definition release :: "blocks \<Rightarrow> nat \<Rightarrow> blocks \<Rightarrow> blocks" where
  "release xs z ys = join_left xs (fst (join_right z ys)) @ snd (join_right z ys)"

lemma span_join_left: "span (join_left xs z) = span xs + z"
  by (cases xs rule: rev_cases) (auto simp: join_left_def)

lemma span_join_right: "fst (join_right z ys) + span (snd (join_right z ys)) = z + span ys"
  by (auto simp: join_right_def split: list.split prod.split bool.split)

lemma free_sum_release: "free_sum (release xs z ys) = free_sum xs + z + free_sum ys"
proof -
  have "free_sum (join_left xs y) = free_sum xs + y" for y
    by (cases xs rule: rev_cases) (auto simp: join_left_def)
  then show ?thesis by (auto simp: release_def join_right_def split: list.split prod.split bool.split)
qed

lemma coalesced_release: "coalesced (xs @ (True, z) # ys) \<Longrightarrow> coalesced (release xs z ys)"
proof -
  assume c: "coalesced (xs @ (True, z) # ys)"
  then have ys: "coalesced ys" "coalesced xs" by (cases ys; auto simp: coalesced_append)+
  have l: "coalesced (join_left xs y) \<and> join_left xs y \<noteq> [] \<and> \<not> fst (last (join_left xs y))" for y
    using ys(2) by (cases xs rule: rev_cases) (auto simp: join_left_def coalesced_append)
  have r: "coalesced (snd (join_right z ys)) \<and> (snd (join_right z ys) \<noteq> [] \<longrightarrow> fst (hd (snd (join_right z ys))))"
    using ys(1) by (cases ys rule: coalesced.cases) (auto simp: join_right_def split: bool.split list.split prod.split)
  show ?thesis unfolding release_def coalesced_append using l r by auto
qed

end
