(* ===== verification/Allocator_Client.thy ===== *)
theory Allocator_Client
  imports Blocks
begin

text \<open>
  The interface \<open>allocator\<close> of \<open>allocator.h\<close> and what its clients rely on. A client allocates, gives
  back what it got, writes into it and sets the fit mode; the contract is the list of blocks.
\<close>

section \<open>Clients\<close>

text \<open>The pointers in use with the bytes behind them, by the allocator's own list of blocks; a header has \<open>h\<close> bytes.\<close>

fun live_from :: "nat \<Rightarrow> nat \<Rightarrow> (64 word \<times> bool) list \<Rightarrow> (nat \<times> nat) list" where
  "live_from h a [] = []"
| "live_from h a ((z, u) # bs) = (if u then [(a + h, unat z - h)] else []) @ live_from h (a + unat z) bs"

definition live :: "nat \<Rightarrow> (64 word \<times> bool) list option \<Rightarrow> (nat \<times> nat) list" where
  "live h info = (case info of None \<Rightarrow> [] | Some bs \<Rightarrow> live_from h 0 bs)"

text \<open>
  The states that a client can reach with what it was given, with the numbers of bytes that it has asked for, as
  products of natural numbers.
\<close>

inductive client_reachable ::
  "nat \<Rightarrow> ('s \<Rightarrow> bool) \<Rightarrow> ('s \<Rightarrow> 64 word \<Rightarrow> 64 word \<Rightarrow> (alloc_exn + nat) \<times> 's) \<Rightarrow>
   ('s \<Rightarrow> int option \<Rightarrow> (alloc_exn + unit) \<times> 's) \<Rightarrow> ('s \<Rightarrow> nat \<Rightarrow> nat \<Rightarrow> 's) \<Rightarrow>
   ('s \<Rightarrow> (64 word \<times> bool) list option) \<Rightarrow> ('s \<Rightarrow> fit_mode \<Rightarrow> 's) \<Rightarrow> 's \<Rightarrow> nat list \<Rightarrow> bool"
  for h start alloc dealloc store info set_mode where
  client_start: "client_reachable h start alloc dealloc store info set_mode s []" if "start s"
| client_alloc: "client_reachable h start alloc dealloc store info set_mode
    (snd (alloc s value_size values_count)) ((unat value_size * unat values_count) # rs)"
  if "client_reachable h start alloc dealloc store info set_mode s rs"
| client_dealloc: "client_reachable h start alloc dealloc store info set_mode (snd (dealloc s (Some (int p)))) rs"
  if "client_reachable h start alloc dealloc store info set_mode s rs" "(p, k) \<in> set (live h (info s))"
| client_store: "client_reachable h start alloc dealloc store info set_mode (store s (p + i) j) rs"
  if "client_reachable h start alloc dealloc store info set_mode s rs" "(p, k) \<in> set (live h (info s))" "i + j \<le> k"
| client_mode: "client_reachable h start alloc dealloc store info set_mode (set_mode s mode) rs"
  if "client_reachable h start alloc dealloc store info set_mode s rs"

definition block_info :: "blocks \<Rightarrow> (64 word \<times> bool) list" where
  "block_info bs = map (\<lambda>(u, z). (of_nat z, u)) bs"

lemma live_from_append:
  "live_from h a (bs @ cs) = live_from h a bs @ live_from h (a + sum_list (map (unat \<circ> fst) bs)) cs"
  by (induction h a bs rule: live_from.induct) (simp_all add: add.assoc)

lemma sum_block_info: "span bs < 2 ^ 64 \<Longrightarrow> sum_list (map (unat \<circ> fst) (block_info bs)) = span bs"
  by (induction bs) (auto simp: block_info_def unat_of_nat_small)

lemma live_from_info_append:
  assumes "span xs < 2 ^ 64"
  shows "live_from h a (block_info (xs @ ys)) = live_from h a (block_info xs) @ live_from h (a + span xs) (block_info ys)"
  using live_from_append [of h a "block_info xs" "block_info ys"] sum_block_info [OF assms]
  by (simp add: block_info_def)

lemma live_from_info_Cons:
  assumes "z < 2 ^ 64"
  shows "live_from h a (block_info ((u, z) # bs)) =
    (if u then [(a + h, z - h)] else []) @ live_from h (a + z) (block_info bs)"
  using assms by (simp add: block_info_def unat_of_nat_small)

lemma live_from_bounds:
  "(p, k) \<in> set (live_from h a (block_info bs)) \<Longrightarrow> span bs < 2 ^ 64 \<Longrightarrow> (\<forall>z. (True, z) \<in> set bs \<longrightarrow> h \<le> z) \<Longrightarrow>
   a + h \<le> p \<and> p + k \<le> a + span bs"
proof (induction bs arbitrary: a)
  case (Cons b bs)
  obtain u z where b: "b = (u, z)" by fastforce
  have "z < 2 ^ 64" using Cons.prems(2) by (simp add: b)
  note c = live_from_info_Cons [OF this, of h a u bs]
  consider "u" "p = a + h" "k = z - h" | "(p, k) \<in> set (live_from h (a + z) (block_info bs))"
    using Cons.prems(1) c by (auto simp: b split: if_splits)
  then show ?case
  proof cases
    case 1
    then show ?thesis using Cons.prems(3) by (auto simp: b)
  next
    case 2
    then show ?thesis using Cons.IH [OF 2] Cons.prems by (auto simp: b)
  qed
qed (simp add: block_info_def)

lemma live_from_block:
  assumes "(p, k) \<in> set (live_from h a (block_info bs))" "span bs < 2 ^ 64"
  shows "\<exists>xs z ys. bs = xs @ (True, z) # ys \<and> p = a + span xs + h \<and> k = z - h"
  using assms
proof (induction bs arbitrary: a)
  case (Cons b bs)
  obtain u z where b: "b = (u, z)" by fastforce
  have "z < 2 ^ 64" using Cons.prems(2) by (simp add: b)
  note c = live_from_info_Cons [OF this, of h a u bs]
  consider "u" "p = a + h" "k = z - h" | "(p, k) \<in> set (live_from h (a + z) (block_info bs))"
    using Cons.prems(1) c by (auto simp: b split: if_splits)
  then show ?case
  proof cases
    case 1
    show ?thesis by (rule exI [of _ "[]"]) (use 1 b in simp)
  next
    case 2
    then obtain xs w ys where "bs = xs @ (True, w) # ys" "p = a + z + span xs + h" "k = w - h"
      using Cons.IH [of "a + z"] Cons.prems(2) by (auto simp: b)
    then show ?thesis by (intro exI [of _ "b # xs"] exI [of _ w] exI [of _ ys]) (simp add: b)
  qed
qed (simp add: block_info_def)

section \<open>The contract\<close>

locale block_allocator =
  fixes h :: nat and rep :: "'s \<Rightarrow> blocks \<Rightarrow> bool" and start :: "'s \<Rightarrow> bool"
    and alloc :: "'s \<Rightarrow> 64 word \<Rightarrow> 64 word \<Rightarrow> (alloc_exn + nat) \<times> 's"
    and dealloc :: "'s \<Rightarrow> int option \<Rightarrow> (alloc_exn + unit) \<times> 's"
    and store :: "'s \<Rightarrow> nat \<Rightarrow> nat \<Rightarrow> 's" and info :: "'s \<Rightarrow> (64 word \<times> bool) list option"
    and set_mode :: "'s \<Rightarrow> fit_mode \<Rightarrow> 's"
  assumes start_ok: "start s \<Longrightarrow> \<exists>bs. rep s bs"
    and small: "rep s bs \<Longrightarrow> span bs < 2 ^ 64"
    and header: "rep s bs \<Longrightarrow> (True, z) \<in> set bs \<Longrightarrow> h \<le> z"
    and separate: "rep s bs \<Longrightarrow> coalesced bs"
    and info_ok: "rep s bs \<Longrightarrow> info s = Some (block_info bs)"
    and alloc_ok: "rep s bs \<Longrightarrow> unat (value_size * values_count) + h < 2 ^ 64 \<Longrightarrow>
      (\<exists>xs tz ys s'. bs = xs @ (False, tz) # ys \<and> alloc s value_size values_count = (Inr (span xs + h), s') \<and>
        unat (value_size * values_count) + h \<le> tz \<and>
        rep s' (xs @ carve h tz (unat (value_size * values_count) + h) @ ys)) \<or>
      alloc s value_size values_count = (Inl Al_bad_alloc, s)"
    and dealloc_ok: "rep s (xs @ (True, z) # ys) \<Longrightarrow>
      rep (snd (dealloc s (Some (int (span xs + h))))) (release xs z ys) \<or> snd (dealloc s (Some (int (span xs + h)))) = s"
    and store_ok: "rep s (xs @ (True, z) # ys) \<Longrightarrow> i + j \<le> z - h \<Longrightarrow> rep (store s (span xs + h + i) j) (xs @ (True, z) # ys)"
    and mode_ok: "rep s bs \<Longrightarrow> rep (set_mode s mode) bs"
begin

lemma live_block:
  assumes "rep s bs" "(p, k) \<in> set (live h (info s))"
  shows "\<exists>xs z ys. bs = xs @ (True, z) # ys \<and> p = span xs + h \<and> k = z - h"
  using live_from_block [of p k h 0 bs] assms small [of s bs] by (simp add: live_def info_ok)

lemma reachable_rep:
  assumes "client_reachable h start alloc dealloc store info set_mode s rs" "\<forall>r \<in> set rs. r + h < 2 ^ 64"
  shows "\<exists>bs. rep s bs"
  using assms
proof (induction rule: client_reachable.induct)
  case (client_alloc s rs value_size values_count)
  then obtain bs where bs: "rep s bs" by auto
  have "unat (value_size * values_count) + h < 2 ^ 64"
    using client_alloc.prems unat_product [of value_size values_count h] by simp
  from alloc_ok [OF bs this] bs show ?case by auto
next
  case (client_dealloc s rs p k)
  then obtain bs where bs: "rep s bs" by blast
  obtain xs z ys where "bs = xs @ (True, z) # ys" "p = span xs + h"
    using live_block [OF bs client_dealloc(2)] by blast
  then show ?case using dealloc_ok [of s xs z ys] bs by metis
next
  case (client_store s rs p k i j)
  then obtain bs where bs: "rep s bs" by blast
  obtain xs z ys where "bs = xs @ (True, z) # ys" "p = span xs + h" "k = z - h"
    using live_block [OF bs client_store(2)] by blast
  then show ?case using store_ok [of s xs z ys i j] bs client_store(3) by auto
qed (use start_ok mode_ok in blast)+

lemma live_rep: "rep s bs \<Longrightarrow> live h (info s) = live_from h 0 (block_info bs)"
  by (simp add: live_def info_ok)

text \<open>A block that is handed out lies apart from all blocks in use, which stay in use.\<close>

lemma alloc_live:
  assumes "client_reachable h start alloc dealloc store info set_mode s rs"
    and asked: "\<forall>r \<in> set ((unat value_size * unat values_count) # rs). r + h < 2 ^ 64"
    and got: "alloc s value_size values_count = (Inr p, s')"
  shows "\<exists>k. unat value_size * unat values_count \<le> k \<and>
    set (live h (info s')) = insert (p, k) (set (live h (info s))) \<and>
    (\<forall>(q, j) \<in> set (live h (info s)). p + k \<le> q \<or> q + j \<le> p)"
proof -
  obtain bs where bs: "rep s bs" using reachable_rep [OF assms(1)] asked by auto
  have exact: "unat (value_size * values_count) = unat value_size * unat values_count"
    using asked unat_product [of value_size values_count h] by simp
  let ?need = "unat (value_size * values_count) + h"
  have need: "?need < 2 ^ 64" using asked exact by simp
  obtain xs tz ys where x: "bs = xs @ (False, tz) # ys" "p = span xs + h" "?need \<le> tz"
      "rep s' (xs @ carve h tz ?need @ ys)"
    using alloc_ok [OF bs need] got by auto
  have sm: "span xs < 2 ^ 64" "tz < 2 ^ 64" "span xs + tz < 2 ^ 64" "span ys < 2 ^ 64"
    using small [OF bs] by (simp_all add: x(1))
  define z where "z = (if tz < ?need + h then tz else ?need)"
  define rest where "rest = (if tz < ?need + h then [] else [(False, tz - ?need)])"
  have c: "carve h tz ?need = (True, z) # rest" "z + span rest = tz" "?need \<le> z" "z < 2 ^ 64"
    using x(3) sm(2) need by (simp_all add: carve_def z_def rest_def)
  have rest: "live_from h a (block_info (rest @ ys)) = live_from h (a + span rest) (block_info ys)" for a
    using sm(2) by (simp add: rest_def live_from_info_Cons)
  have old: "live h (info s) = live_from h 0 (block_info xs) @ live_from h (span xs + tz) (block_info ys)"
    unfolding live_rep [OF bs] x(1) live_from_info_append [OF sm(1)] live_from_info_Cons [OF sm(2)] by simp
  have new: "live h (info s') = live_from h 0 (block_info xs) @ (p, z - h) # live_from h (span xs + tz) (block_info ys)"
    unfolding live_rep [OF x(4)] live_from_info_append [OF sm(1)] c(1) append_Cons live_from_info_Cons [OF c(4)] rest
    by (simp add: x(2) c(2) add.assoc)
  have "p + (z - h) \<le> q \<or> q + j \<le> p" if "(q, j) \<in> set (live h (info s))" for q j
  proof -
    have hd: "\<forall>w. (True, w) \<in> set xs \<longrightarrow> h \<le> w" "\<forall>w. (True, w) \<in> set ys \<longrightarrow> h \<le> w"
      using header [OF bs] by (auto simp: x(1))
    show ?thesis
      using that live_from_bounds [of q j h 0 xs] live_from_bounds [of q j h "span xs + tz" ys] hd sm c(2,3) x(2)
      by (auto simp: old)
  qed
  then show ?thesis using c(3) by (intro exI [of _ "z - h"]) (auto simp: old new exact)
qed

text \<open>No two blocks in use overlap.\<close>

lemma live_disjoint:
  assumes "rep s bs" "live h (info s) = us @ (p, k) # vs" "(q, j) \<in> set vs"
  shows "p + k \<le> q"
proof -
  have "live_from h a (block_info cs) = us @ (p, k) # vs \<Longrightarrow> span cs < 2 ^ 64 \<Longrightarrow> (\<forall>z. (True, z) \<in> set cs \<longrightarrow> h \<le> z) \<Longrightarrow>
      p + k \<le> q" for a cs us
  proof (induction cs arbitrary: a us)
    case (Cons c cs)
    obtain u z where c: "c = (u, z)" by fastforce
    have z: "z < 2 ^ 64" using Cons.prems(2) by (simp add: c)
    note e = Cons.prems(1) [unfolded c live_from_info_Cons [OF z]]
    show ?case
    proof (cases "u \<and> us = []")
      case True
      then have "p = a + h" "k = z - h" "(q, j) \<in> set (live_from h (a + z) (block_info cs))" "h \<le> z"
        using e assms(3) Cons.prems(3) by (auto simp: c)
      then show ?thesis using live_from_bounds [of q j h "a + z" cs] Cons.prems by (auto simp: c)
    next
      case False
      then obtain us' where "live_from h (a + z) (block_info cs) = us' @ (p, k) # vs"
        using e by (cases u; cases us) auto
      from Cons.IH [OF this] show ?thesis using Cons.prems(2,3) by (simp add: c)
    qed
  qed (simp add: block_info_def)
  then show ?thesis using assms(2) small [OF assms(1)] header [OF assms(1)] unfolding live_rep [OF assms(1)] by blast
qed

end

end
