(* ===== verification/Sorted_List_Correct.thy ===== *)
theory Sorted_List_Correct
  imports Sorted_List_Allocator Allocator_Client
begin

text \<open>
  The sorted list allocator against the list of blocks: allocation carves a block of the right size
  out of the free block that the fit mode asks for, deallocation gives it back and joins it with
  its neighbours.
\<close>

section \<open>Headers\<close>

fun headers :: "arena \<Rightarrow> nat \<Rightarrow> blocks \<Rightarrow> nat option \<Rightarrow> bool" where
  "headers m a [] n \<longleftrightarrow> True"
| "headers m a ((used, z) # bs) n \<longleftrightarrow>
     16 \<le> z \<and> m a = Some (Size (of_nat z)) \<and>
     m (a + 8) = Some (if used then Owner else Link (first_of (frees (a + z) bs) n)) \<and> headers m (a + z) bs n"

definition sl_rep :: "sl \<Rightarrow> blocks \<Rightarrow> bool" where
  "sl_rep s bs \<longleftrightarrow>
     headers (sl_mem s) 0 bs None \<and> sl_head s = first_of (frees 0 bs) None \<and> coalesced bs \<and>
     span bs = unat (sl_space s) \<and> unat (sl_space s) + 84 < 2 ^ 64 \<and> free_sum bs = unat (sl_free s)"

lemma headers_append:
  "headers m a (xs @ ys) n \<longleftrightarrow>
   headers m a xs (first_of (frees (a + span xs) ys) n) \<and> headers m (a + span xs) ys n"
  by (induction m a xs n rule: headers.induct) (auto simp: add.assoc)

lemma headers_frame:
  assumes "\<And>b. a \<le> b \<Longrightarrow> b + 8 \<le> a + span bs \<Longrightarrow> m' b = m b"
  shows "headers m' a bs n = headers m a bs n"
  using assms
proof (induction m a bs n rule: headers.induct)
  case (2 m a used z bs n)
  show ?case
  proof (cases "16 \<le> z")
    case True
    have "headers m' (a + z) bs n = headers m (a + z) bs n" using 2(2) by (intro 2(1)) (auto simp: add.assoc)
    moreover have "m' a = m a" "m' (a + 8) = m (a + 8)" using 2(2) True by simp_all
    ultimately show ?thesis by simp
  qed simp
qed simp

lemma headers_put [simp]:
  "x + 8 \<le> a \<or> a + span bs \<le> x \<Longrightarrow> headers (put m x c) a bs n = headers m a bs n"
  by (rule headers_frame) (auto intro: put_other)

lemma headers_bounds: "headers m a bs n \<Longrightarrow> (x, z) \<in> set (frees a bs) \<Longrightarrow> 16 \<le> z"
  by (induction m a bs n rule: headers.induct) (auto split: if_splits)

lemma headers_free:
  assumes "headers m a bs n" "frees a bs = pre @ (x, z) # post"
  shows "m x = Some (Size (of_nat z))" "m (x + 8) = Some (Link (first_of post n))" "16 \<le> z"
proof -
  obtain xs ys where "bs = xs @ (False, z) # ys" "frees a xs = pre" "x = a + span xs" "frees (x + z) ys = post"
    using frees_split [OF assms(2)] by blast
  then show "m x = Some (Size (of_nat z))" "m (x + 8) = Some (Link (first_of post n))" "16 \<le> z"
    using assms(1) by (auto simp: headers_append)
qed

lemma headers_no_free: "frees a xs = [] \<Longrightarrow> headers m a xs n = headers m a xs n'"
  by (induction m a xs n rule: headers.induct) (auto split: if_splits)

text \<open>The link in front of a place is changed: that of the last free block, or the head of the list.\<close>

lemma relink:
  assumes "headers m a xs n" "last_of (frees a xs) = Some p"
  shows "headers (put m (p + 8) (Link n')) a xs n'" "a \<le> p" "p + 16 \<le> a + span xs"
proof -
  obtain us z vs where x: "xs = us @ (False, z) # vs" "p = a + span us" "frees (p + z) vs = []"
    using last_free_split [OF assms(2)] by blast
  have h: "headers m a us (Some p)" "16 \<le> z" "m p = Some (Size (of_nat z))" "headers m (p + z) vs n"
    using assms(1) x(2) by (auto simp: x(1) headers_append)
  have "put m (p + 8) (Link n') p = m p" by (rule put_other) simp
  then show "headers (put m (p + 8) (Link n')) a xs n'"
    using h x(2,3) headers_no_free [OF x(3)] by (auto simp: x(1) headers_append)
  show "a \<le> p" "p + 16 \<le> a + span xs" using h(2) x(1,2) by auto
qed

lemma sl_set_next_ok:
  assumes "headers (sl_mem s) 0 xs n" "prev = last_of (frees 0 xs)" "sl_head s = first_of (frees 0 xs) n"
  shows "headers (sl_mem (sl_set_next s prev n')) 0 xs n'"
    "sl_head (sl_set_next s prev n') = first_of (frees 0 xs) n'"
    "\<And>b. span xs \<le> b \<Longrightarrow> sl_mem (sl_set_next s prev n') b = sl_mem s b"
    "sl_space (sl_set_next s prev n') = sl_space s" "sl_free (sl_set_next s prev n') = sl_free s"
    "sl_fit (sl_set_next s prev n') = sl_fit s"
proof -
  have "headers (sl_mem (sl_set_next s prev n')) 0 xs n' \<and>
    sl_head (sl_set_next s prev n') = first_of (frees 0 xs) n' \<and>
    (\<forall>b \<ge> span xs. sl_mem (sl_set_next s prev n') b = sl_mem s b)"
  proof (cases prev)
    case None
    then have e: "frees 0 xs = []" using assms(2) by (auto simp: last_of_def split: if_splits)
    then show ?thesis using assms(1) None headers_no_free [OF e, of "sl_mem s" n n'] by (simp add: sl_set_next_def)
  next
    case (Some p)
    then have l: "last_of (frees 0 xs) = Some p" using assms(2) by simp
    note r = relink [OF assms(1) l]
    have "frees 0 xs \<noteq> []" using l by auto
    then have "first_of (frees 0 xs) n = first_of (frees 0 xs) n'" by (cases "frees 0 xs") simp_all
    moreover have "put (sl_mem s) (p + 8) (Link n') b = sl_mem s b" if "span xs \<le> b" for b
      using r(3) that by (intro put_other) auto
    ultimately show ?thesis using r(1) assms(3) Some by (simp add: sl_set_next_def)
  qed
  then show "headers (sl_mem (sl_set_next s prev n')) 0 xs n'"
    "sl_head (sl_set_next s prev n') = first_of (frees 0 xs) n'"
    "\<And>b. span xs \<le> b \<Longrightarrow> sl_mem (sl_set_next s prev n') b = sl_mem s b"
    by blast+
qed (simp_all add: sl_set_next_def split: option.split)

section \<open>The search\<close>

lemma sl_search_ok:
  assumes h: "headers (sl_mem s) 0 bs None" "span bs < 2 ^ 64"
    and fl: "frees 0 bs = dn @ (cur, cz) # rest" "length rest < fuel"
    and c: "chosen (sl_fit s) (unat need) (dn @ [(cur, cz)]) prev target"
  shows "\<exists>prev' target'. sl_search fuel s need cur prev target = Some (prev', target') \<and>
    chosen (sl_fit s) (unat need) (frees 0 bs) prev' target'"
  using fl c
proof (induction fuel arbitrary: dn cur cz rest prev target)
  case (Suc fuel)
  show ?case
  proof (cases "sl_fit s = First_fit \<and> target \<noteq> None")
    case True
    then show ?thesis
      using Suc.prems chosen_first_grows [of "unat need" "dn @ [(cur, cz)]" prev _ rest] by auto
  next
    case False
    have l: "sl_mem s (cur + 8) = Some (Link (first_of rest None))" using headers_free [OF h(1) Suc.prems(1)] by simp
    show ?thesis
    proof (cases rest)
      case Nil
      then show ?thesis using False l Suc.prems by auto
    next
      case (Cons nz rest')
      obtain n z where nz: "nz = (n, z)" by fastforce
      have fl': "frees 0 bs = (dn @ [(cur, cz)]) @ (n, z) # rest'" using Suc.prems(1) by (simp add: Cons nz)
      have "z \<le> span bs" using frees_bounds [of n z 0 bs] fl' by auto
      then have z: "unat (of_nat z :: 64 word) = z" using h(2) by (simp add: unat_of_nat)
      have m: "sl_mem s n = Some (Size (of_nat z))" using headers_free [OF h(1) fl'] by simp
      have fuel: "length rest' < fuel" using Suc.prems(2) by (simp add: Cons)
      let ?take = "need \<le> of_nat z \<and> (case target of None \<Rightarrow> True | Some (_, u) \<Rightarrow>
          sl_fit s = The_best_fit \<and> of_nat z < u \<or> sl_fit s = The_worst_fit \<and> u < of_nat z)"
      show ?thesis
      proof (cases ?take)
        case True
        have "chosen (sl_fit s) (unat need) ((dn @ [(cur, cz)]) @ [(n, unat (of_nat z :: 64 word))])
            (last_of (dn @ [(cur, cz)])) (Some (n, of_nat z))"
        proof (rule chosen_take [OF Suc.prems(3)])
          show "sl_fit s = First_fit \<longrightarrow> target = None" using False by blast
        qed (use True in \<open>simp_all add: word_le_nat_alt\<close>)
        then have "chosen (sl_fit s) (unat need) ((dn @ [(cur, cz)]) @ [(n, z)]) (Some cur) (Some (n, of_nat z))"
          by (simp add: z)
        from Suc.IH [OF fl' fuel this] show ?thesis using False True l m by (auto simp: Cons nz)
      next
        case no: False
        have "chosen (sl_fit s) (unat need) ((dn @ [(cur, cz)]) @ [(n, z)]) prev target"
          using no z by (intro chosen_skip [OF Suc.prems(3)])
            (auto simp: word_le_nat_alt word_less_nat_alt not_less split: option.splits)
        from Suc.IH [OF fl' fuel this] show ?thesis using False no l m by (auto simp add: Cons nz)
      qed
    qed
  qed
qed simp

section \<open>Allocation\<close>

lemma sl_take_ok:
  assumes rep: "sl_rep s (xs @ (False, tz) # ys)" and need: "unat bsz \<le> tz" "16 \<le> unat bsz"
    and prev: "prev = last_of (frees 0 xs)"
  shows "\<exists>s'. sl_take s prev (span xs) (of_nat tz) bsz = Some s' \<and>
    sl_rep s' (xs @ carve 16 tz (unat bsz) @ ys) \<and> sl_space s' = sl_space s \<and> sl_fit s' = sl_fit s"
proof -
  let ?t = "span xs" and ?n0 = "first_of (frees (span xs + tz) ys) None"
  have h: "headers (sl_mem s) 0 xs (Some ?t)" "16 \<le> tz" "sl_mem s (?t + 8) = Some (Link ?n0)"
      "headers (sl_mem s) (?t + tz) ys None"
    and hd: "sl_head s = first_of (frees 0 xs) (Some ?t)"
    using rep by (simp_all add: sl_rep_def headers_append)
  have sp: "?t + tz + span ys = unat (sl_space s)" "unat (sl_space s) + 84 < 2 ^ 64"
      "free_sum (xs @ (False, tz) # ys) = unat (sl_free s)" "coalesced (xs @ (False, tz) # ys)"
    using rep by (simp_all add: sl_rep_def)
  have tz: "unat (of_nat tz :: 64 word) = tz" using sp(1,2) by (simp add: unat_of_nat)
  have w16: "unat (bsz + 16) = unat bsz + 16" using sp(1,2) need by (simp add: unat_word_ariths)
  have cond: "(of_nat tz < bsz + sl_occupied_meta_size) = (tz < unat bsz + 16)"
    by (simp add: sl_occupied_meta_size_def word_less_nat_alt tz w16)
  show ?thesis
  proof (cases "tz < unat bsz + 16")
    case True
    define s2 where "s2 = sl_set_next s prev ?n0"
    note n = sl_set_next_ok [OF h(1) prev hd, where n' = ?n0, folded s2_def]
    let ?s = "s2\<lparr>sl_mem := put (put (sl_mem s2) ?t (Size (of_nat tz))) (?t + 8) Owner, sl_free := sl_free s2 - of_nat tz\<rparr>"
    have "sl_take s prev ?t (of_nat tz) bsz = Some ?s"
      using True h(3) by (simp add: sl_take_def cond s2_def Let_def)
    moreover have "sl_rep ?s (xs @ carve 16 tz (unat bsz) @ ys)"
    proof -
      have "headers (sl_mem s2) (?t + tz) ys None"
        using headers_frame [of "?t + tz" ys "sl_mem s2" "sl_mem s" None] n(3) h(4) by simp
      moreover have "put (put (sl_mem s2) ?t (Size (of_nat tz))) (?t + 8) Owner ?t = Some (Size (of_nat tz))"
        by (simp add: put_other)
      moreover have "coalesced (xs @ (True, tz) # ys)"
        using sp(4) by (cases ys) (auto simp: coalesced_append)
      moreover have "unat (sl_free s - of_nat tz) = unat (sl_free s) - tz" by (rule free_word [OF sp(3)]) simp
      ultimately show ?thesis
        using n h(2) sp True by (simp add: sl_rep_def carve_def headers_append)
    qed
    ultimately show ?thesis using n(4,6) by simp
  next
    case False
    let ?b = "unat bsz"
    define s1 where "s1 = s\<lparr>sl_mem := put (put (sl_mem s) (?t + ?b + 8) (Link ?n0)) (?t + ?b) (Size (of_nat tz - bsz))\<rparr>"
    define s2 where "s2 = sl_set_next s1 prev (Some (?t + ?b))"
    have h1: "headers (sl_mem s1) 0 xs (Some ?t)" "headers (sl_mem s1) (?t + tz) ys None"
      using h False by (simp_all add: s1_def)
    have hd1: "sl_head s1 = first_of (frees 0 xs) (Some ?t)" by (simp add: s1_def hd)
    note n = sl_set_next_ok [OF h1(1) prev hd1, where n' = "Some (?t + ?b)", folded s2_def]
    have m1: "sl_mem s1 (?t + ?b) = Some (Size (of_nat (tz - ?b)))" "sl_mem s1 (?t + ?b + 8) = Some (Link ?n0)"
      using need by (simp_all add: s1_def put_other of_nat_diff)
    let ?s = "s2\<lparr>sl_mem := put (put (sl_mem s2) ?t (Size bsz)) (?t + 8) Owner, sl_free := sl_free s2 - bsz\<rparr>"
    have "sl_take s prev ?t (of_nat tz) bsz = Some ?s"
      using False h(3) by (simp add: sl_take_def cond s1_def s2_def Let_def)
    moreover have "sl_rep ?s (xs @ carve 16 tz ?b @ ys)"
    proof -
      have m: "put (put (sl_mem s2) ?t (Size bsz)) (?t + 8) Owner x = sl_mem s1 x" if "?t + 16 \<le> x" for x
        using that n(3) by (simp add: put_other)
      have "headers (put (put (sl_mem s2) ?t (Size bsz)) (?t + 8) Owner) (?t + tz) ys None"
        using headers_frame [of "?t + tz" ys _ "sl_mem s1" None] m h1(2) h(2) by simp
      moreover have "put (put (sl_mem s2) ?t (Size bsz)) (?t + 8) Owner ?t = Some (Size (of_nat ?b))"
        by (simp add: put_other)
      moreover have "coalesced (xs @ (True, ?b) # (False, tz - ?b) # ys)"
        using sp(4) by (cases ys) (auto simp: coalesced_append)
      moreover have "unat (sl_free s - of_nat ?b) = unat (sl_free s) - ?b" by (rule free_word [OF sp(3) need(1)])
      ultimately show ?thesis
        using n h(2) sp False m1 m [of "?t + ?b"] m [of "?t + ?b + 8"] need
        by (simp add: sl_rep_def carve_def headers_append s1_def add.assoc)
    qed
    ultimately show ?thesis using n(4,6) by (simp add: s1_def)
  qed
qed

lemma length_frees: "headers m a bs n \<Longrightarrow> length (frees a bs) \<le> span bs"
  by (induction m a bs n rule: headers.induct) auto

lemma sl_allocate_ok:
  assumes rep: "sl_rep s bs" and need: "unat (value_size * values_count) + 16 < 2 ^ 64"
  shows "(\<exists>xs tz ys s'. bs = xs @ (False, tz) # ys \<and>
      sl_allocate s value_size values_count = (Inr (span xs + 16), s') \<and>
      fits (sl_fit s) (unat (value_size * values_count) + 16) xs tz ys \<and>
      sl_rep s' (xs @ carve 16 tz (unat (value_size * values_count) + 16) @ ys) \<and>
      sl_space s' = sl_space s \<and> sl_fit s' = sl_fit s) \<or>
    sl_allocate s value_size values_count = (Inl Al_bad_alloc, s) \<and>
      (\<forall>z. (False, z) \<in> set bs \<longrightarrow> z < unat (value_size * values_count) + 16)"
proof -
  define bsz where "bsz = value_size * values_count + sl_occupied_meta_size"
  have b: "unat bsz = unat (value_size * values_count) + 16"
    using need by (simp add: bsz_def sl_occupied_meta_size_def unat_word_ariths)
  have h: "headers (sl_mem s) 0 bs None" "sl_head s = first_of (frees 0 bs) None" "span bs = unat (sl_space s)"
    and small: "span bs < 2 ^ 64"
    using rep by (auto simp: sl_rep_def)
  show ?thesis
  proof (cases "frees 0 bs")
    case Nil
    then have "\<forall>z. (False, z) \<in> set bs \<longrightarrow> z < unat bsz" using frees_iff [of _ 0 bs] by auto
    then show ?thesis using h(2) Nil by (simp add: sl_allocate_def b)
  next
    case (Cons c rest)
    obtain cur cz where c: "c = (cur, cz)" by fastforce
    have fl: "frees 0 bs = [] @ (cur, cz) # rest" by (simp add: Cons c)
    have m: "sl_mem s cur = Some (Size (of_nat cz))" using headers_free [OF h(1) fl] by simp
    have "cz \<le> span bs" using frees_bounds [of cur cz 0 bs] fl by auto
    then have cz: "unat (of_nat cz :: 64 word) = cz" using small by (simp add: unat_of_nat)
    let ?t0 = "if bsz \<le> of_nat cz then Some (cur, of_nat cz) else None"
    have "chosen (sl_fit s) (unat bsz) ([] @ [(cur, cz)]) None ?t0"
      using cz by (auto simp: chosen_def word_le_nat_alt intro: exI [of _ "[]"])
    moreover have "length rest < Suc (unat (sl_space s))" using length_frees [OF h(1)] h(3) fl by simp
    ultimately obtain prev target where r: "sl_search (Suc (unat (sl_space s))) s bsz cur None ?t0 = Some (prev, target)"
        "chosen (sl_fit s) (unat bsz) (frees 0 bs) prev target"
      using sl_search_ok [OF h(1) small fl] by blast
    have run: "sl_allocate s value_size values_count =
        (case (prev, target) of
           (_, None) \<Rightarrow> (Inl Al_bad_alloc, s)
         | (prev, Some (target, chosen_size)) \<Rightarrow>
             (case sl_take s prev target chosen_size bsz of
                None \<Rightarrow> (Inl Al_undefined, s)
              | Some s' \<Rightarrow> (Inr (target + unat sl_occupied_meta_size), s')))"
      using h(2) r(1) m unfolding sl_allocate_def Let_def bsz_def [symmetric] by (simp add: fl del: sl_search.simps)
    show ?thesis
    proof (cases target)
      case None
      then have "\<forall>(x, z) \<in> set (frees 0 bs). z < unat bsz" using r(2) by (simp add: chosen_def)
      then show ?thesis using run None by (simp add: frees_all b)
    next
      case (Some tw)
      obtain t w where tw: "tw = (t, w)" by fastforce
      obtain xs ys where x: "bs = xs @ (False, unat w) # ys" "t = span xs" "prev = last_of (frees 0 xs)"
          "fits (sl_fit s) (unat bsz) xs (unat w) ys"
        using chosen_fits r(2) unfolding Some tw by blast
      then have "unat bsz \<le> unat w" by (simp add: fits_def)
      then obtain s' where s': "sl_take s prev (span xs) (of_nat (unat w)) bsz = Some s'"
          "sl_rep s' (xs @ carve 16 (unat w) (unat bsz) @ ys)" "sl_space s' = sl_space s" "sl_fit s' = sl_fit s"
        using sl_take_ok [OF rep [unfolded x(1)], of bsz prev] x(3) b by auto
      have "sl_allocate s value_size values_count = (Inr (span xs + 16), s')"
        using run Some tw s'(1) x(2) by (simp add: sl_occupied_meta_size_def)
      then show ?thesis using x(1,4) s'(2-4) b by auto
    qed
  qed
qed

section \<open>Deallocation\<close>

lemma sl_seek_ok:
  assumes h: "headers m 0 bs None" and fl: "frees 0 bs = dn @ near @ far" "length near < fuel"
    and "\<forall>(x, z) \<in> set near. x < at" "\<forall>(x, z) \<in> set far. at \<le> x"
  shows "sl_seek fuel m at (last_of dn) (first_of (near @ far) None) = Some (last_of (dn @ near), first_of far None)"
  using fl assms(4)
proof (induction fuel arbitrary: dn near)
  case (Suc fuel)
  show ?case
  proof (cases near)
    case Nil
    then show ?thesis using assms(5) by (cases far) auto
  next
    case (Cons c near')
    obtain x z where c: "c = (x, z)" by fastforce
    have fl': "frees 0 bs = dn @ (x, z) # (near' @ far)" using Suc.prems(1) by (simp add: Cons c)
    have "m (x + 8) = Some (Link (first_of (near' @ far) None))" using headers_free [OF h fl'] by simp
    moreover have "sl_seek fuel m at (last_of (dn @ [(x, z)])) (first_of (near' @ far) None) =
        Some (last_of ((dn @ [(x, z)]) @ near'), first_of far None)"
      using Suc.prems fl' by (intro Suc.IH) (auto simp: Cons)
    ultimately show ?thesis using Suc.prems(3) by (simp add: Cons c)
  qed
qed simp

text \<open>The two halves of \<open>sl_join\<close>: the block behind, then the block in front.\<close>

lemma join_behind:
  assumes m: "m t = Some (Size (of_nat z))" "16 \<le> z" "z < 2 ^ 64" and ys: "headers m (t + z) ys None"
    and nx: "next = first_of (frees (t + z) ys) None"
    and r: "join_right z ys = (z', ys')"
  shows "\<exists>m1. (case next of
         None \<Rightarrow> Some (of_nat z, put m (t + 8) (Link None))
       | Some n \<Rightarrow>
           if t + unat (of_nat z :: 64 word) = n then do {
             next_size \<leftarrow> get_size m n;
             let m' = put m t (Size (of_nat z + next_size));
             next_next \<leftarrow> get_link m' (n + 8);
             Some (of_nat z + next_size, put m' (t + 8) (Link next_next))
           }
           else Some (of_nat z, put m (t + 8) (Link (Some n)))) = Some (of_nat z', m1) \<and>
    m1 t = Some (Size (of_nat z')) \<and> m1 (t + 8) = Some (Link (first_of (frees (t + z') ys') None)) \<and>
    headers m1 (t + z') ys' None \<and> (\<forall>b. b + 8 \<le> t \<longrightarrow> m1 b = m b) \<and> 16 \<le> z'"
proof -
  have z: "unat (of_nat z :: 64 word) = z" using m(3) by (simp add: unat_of_nat)
  have plain: ?thesis if "z' = z" "ys' = ys" "\<And>n. next = Some n \<Longrightarrow> n \<noteq> t + z"
  proof (intro exI conjI)
    show "(case next of
         None \<Rightarrow> Some (of_nat z, put m (t + 8) (Link None))
       | Some n \<Rightarrow>
           if t + unat (of_nat z :: 64 word) = n then do {
             next_size \<leftarrow> get_size m n;
             let m' = put m t (Size (of_nat z + next_size));
             next_next \<leftarrow> get_link m' (n + 8);
             Some (of_nat z + next_size, put m' (t + 8) (Link next_next))
           }
           else Some (of_nat z, put m (t + 8) (Link (Some n)))) = Some (of_nat z', put m (t + 8) (Link next))"
      using that z by (auto split: option.split)
  qed (use m ys nx that in \<open>auto simp: put_other\<close>)
  show ?thesis
  proof (cases ys)
    case Nil
    then show ?thesis using r nx by (intro plain) (auto simp: join_right_def)
  next
    case (Cons b bs)
    obtain u y where b: "b = (u, y)" by fastforce
    show ?thesis
    proof (cases u)
      case True
      have "n \<noteq> t + z" if n: "next = Some n" for n
      proof -
        have "(n, snd (hd (frees (t + z + y) bs))) \<in> set (frees (t + z + y) bs)"
          using n True nx by (cases "frees (t + z + y) bs") (auto simp: Cons b)
        then have "t + z + y \<le> n" using frees_bounds by blast
        moreover have "16 \<le> y" using ys by (simp add: Cons b)
        ultimately show ?thesis by simp
      qed
      then show ?thesis using r True by (intro plain) (auto simp: join_right_def Cons b)
    next
      case False
      then have h: "16 \<le> y" "m (t + z) = Some (Size (of_nat y))"
          "m (t + z + 8) = Some (Link (first_of (frees (t + z + y) bs) None))" "headers m (t + z + y) bs None"
        using ys by (simp_all add: Cons b)
      have r': "z' = z + y" "ys' = bs" using r False by (simp_all add: join_right_def Cons b)
      have n: "next = Some (t + z)" using nx False by (simp add: Cons b)
      let ?m = "put m t (Size (of_nat z + of_nat y))"
      have "?m (t + z + 8) = m (t + z + 8)" by (rule put_other) (use m(2) in simp)
      then have l: "?m (t + z + 8) = Some (Link (first_of (frees (t + z + y) bs) None))" using h(3) by simp
      show ?thesis
        by (intro exI [of _ "put ?m (t + 8) (Link (first_of (frees (t + z + y) bs) None))"])
          (use h m z r' n l in \<open>auto simp: put_other add.assoc\<close>)
    qed
  qed
qed

lemma sl_join_ok:
  assumes rep: "sl_rep s (xs @ (True, z) # ys)"
  shows "\<exists>s'. sl_join s (span xs) (of_nat z) (last_of (frees 0 xs)) (first_of (frees (span xs + z) ys) None) = Some s' \<and>
    sl_rep s' (release xs z ys) \<and> sl_space s' = sl_space s \<and> sl_fit s' = sl_fit s"
proof -
  let ?t = "span xs" and ?next = "first_of (frees (span xs + z) ys) None" and ?prev = "last_of (frees 0 xs)"
  have h: "headers (sl_mem s) 0 xs ?next" "16 \<le> z" "sl_mem s ?t = Some (Size (of_nat z))"
      "headers (sl_mem s) (?t + z) ys None" "sl_head s = first_of (frees 0 xs) ?next"
    using rep by (simp_all add: sl_rep_def headers_append)
  have sp: "?t + z + span ys = unat (sl_space s)" "unat (sl_space s) + 84 < 2 ^ 64"
      "free_sum xs + free_sum ys = unat (sl_free s)" "coalesced (xs @ (True, z) # ys)"
    using rep by (simp_all add: sl_rep_def)
  have z: "z < 2 ^ 64" using sp(1,2) by simp
  obtain z' ys' where r: "join_right z ys = (z', ys')" by fastforce
  obtain m1 where m1: "(case ?next of
         None \<Rightarrow> Some (of_nat z, put (sl_mem s) (?t + 8) (Link None))
       | Some n \<Rightarrow>
           if ?t + unat (of_nat z :: 64 word) = n then do {
             next_size \<leftarrow> get_size (sl_mem s) n;
             let m' = put (sl_mem s) ?t (Size (of_nat z + next_size));
             next_next \<leftarrow> get_link m' (n + 8);
             Some (of_nat z + next_size, put m' (?t + 8) (Link next_next))
           }
           else Some (of_nat z, put (sl_mem s) (?t + 8) (Link (Some n)))) = Some (of_nat z', m1)"
    "m1 ?t = Some (Size (of_nat z'))" "m1 (?t + 8) = Some (Link (first_of (frees (?t + z') ys') None))"
    "headers m1 (?t + z') ys' None" "\<forall>b. b + 8 \<le> ?t \<longrightarrow> m1 b = sl_mem s b" "16 \<le> z'"
    using join_behind [OF h(3,2) z h(4) refl r] by blast
  have hx: "headers m1 0 xs ?next" using headers_frame [of 0 xs m1 "sl_mem s" ?next] m1(5) h(1) by simp
  have rel: "release xs z ys = join_left xs z' @ ys'" by (simp add: release_def r)
  have total: "span (release xs z ys) = unat (sl_space s)"
    using sp(1) span_join_right [of z ys] by (simp add: rel span_join_left r)
  have f: "free_sum (release xs z ys) = unat (sl_free s + of_nat z)"
  proof -
    have "free_sum xs + z + free_sum ys \<le> unat (sl_space s)"
      using sp(1) free_sum_le [of xs] free_sum_le [of ys] by simp
    then have "unat (sl_free s + of_nat z) = unat (sl_free s) + z"
      using sp(2,3) z by (simp add: unat_word_ariths unat_of_nat)
    then show ?thesis using sp(3) by (simp add: free_sum_release)
  qed
  have c: "coalesced (release xs z ys)" by (rule coalesced_release [OF sp(4)])
  have "\<exists>s'. sl_join s ?t (of_nat z) ?prev ?next = Some s' \<and>
    headers (sl_mem s') 0 (release xs z ys) None \<and> sl_head s' = first_of (frees 0 (release xs z ys)) None \<and>
    sl_free s' = sl_free s + of_nat z \<and> sl_space s' = sl_space s \<and> sl_fit s' = sl_fit s"
  proof (cases ?prev)
    case None
    then have e: "frees 0 xs = []" by (auto simp: last_of_def split: if_splits)
    have j: "join_left xs z' = xs @ [(False, z')]"
      using e by (cases xs rule: rev_cases) (auto simp: join_left_def split: if_splits)
    have "headers m1 0 xs (Some ?t)" using hx headers_no_free [OF e] by metis
    then show ?thesis
      unfolding sl_join_def m1(1) using m1(2-6) e None by (simp add: rel j headers_append)
  next
    case (Some p)
    obtain us y vs where x: "xs = us @ (False, y) # vs" "p = span us" "frees (p + y) vs = []"
      using last_free_split [OF Some] by auto
    have y: "y < 2 ^ 64" using sp(1,2) by (simp add: x(1))
    then have uy: "unat (of_nat y :: 64 word) = y" by (simp add: unat_of_nat)
    have hp: "headers m1 0 us (Some p)" "16 \<le> y" "m1 p = Some (Size (of_nat y))" "headers m1 (p + y) vs ?next"
      using hx x(2) by (auto simp: x(1) headers_append)
    show ?thesis
    proof (cases vs)
      case Nil
      then have t: "?t = p + y" using x(1,2) by simp
      have j: "join_left xs z' = us @ [(False, y + z')]" by (simp add: join_left_def x(1) Nil)
      let ?m2 = "put m1 p (Size (of_nat y + of_nat z'))"
      have "?m2 (?t + 8) = m1 (?t + 8)" by (rule put_other) (use hp(2) t in simp)
      then have l: "?m2 (?t + 8) = Some (Link (first_of (frees (?t + z') ys') None))" using m1(3) by simp
      let ?m3 = "put ?m2 (p + 8) (Link (first_of (frees (?t + z') ys') None))"
      have "headers ?m3 0 us (Some p)" using hp(1) x(2) by simp
      moreover have "headers ?m3 (?t + z') ys' None" using m1(4) t hp(2) by simp
      moreover have "?m3 p = Some (Size (of_nat (y + z')))" by (simp add: put_other)
      moreover have "first_of (frees 0 us) (Some p) = first_of (frees 0 xs) ?next" by (simp add: x Nil)
      ultimately show ?thesis
        unfolding sl_join_def m1(1) using hp(2,3) uy l h(5) t x(2)
        by (simp add: Some rel j headers_append add.assoc)
    next
      case (Cons v vs')
      then have "vs \<noteq> []" "\<not> fst (last vs) \<Longrightarrow> False"
        using x(3) frees_iff [of "snd (last vs)" "p + y" vs] last_in_set [of vs] by (cases "last vs"; auto)+
      then have j: "join_left xs z' = xs @ [(False, z')]" by (auto simp: join_left_def x(1))
      have "span vs > 0"
        using hp(4) by (cases v) (simp add: Cons)
      then have t: "p + y \<noteq> ?t" using x(1,2) by simp
      note l = relink(1) [OF hx Some, of "Some ?t"] relink(2,3) [OF hx Some]
      let ?m = "put m1 (p + 8) (Link (Some ?t))"
      have "headers ?m (?t + z') ys' None" using m1(4) l(3) by simp
      moreover have "?m ?t = m1 ?t" "?m (?t + 8) = m1 (?t + 8)" using l(3) by (simp_all add: put_other)
      moreover have "first_of (frees 0 xs) (Some ?t) = first_of (frees 0 xs) ?next" by (simp add: x)
      ultimately show ?thesis
        unfolding sl_join_def m1(1) using l(1) hp(3) uy t h(5) m1(2,3,6)
        by (simp add: Some rel j headers_append)
    qed
  qed
  then show ?thesis using f c total sp(2) by (auto simp: sl_rep_def)
qed

lemma sl_deallocate_ok:
  assumes rep: "sl_rep s (xs @ (True, z) # ys)" and inside: "16 < z \<or> ys \<noteq> []"
  shows "\<exists>s'. sl_deallocate s (Some (int (span xs + 16))) = (if ys = [] then Inl Al_undefined else Inr (), s') \<and>
    sl_rep s' (release xs z ys) \<and> sl_space s' = sl_space s \<and> sl_fit s' = sl_fit s"
proof -
  let ?t = "span xs" and ?bs = "xs @ (True, z) # ys"
  have h: "headers (sl_mem s) 0 ?bs None" "16 \<le> z" "sl_mem s ?t = Some (Size (of_nat z))"
      "sl_mem s (?t + 8) = Some Owner" "headers (sl_mem s) (?t + z) ys None" "sl_head s = first_of (frees 0 ?bs) None"
    using rep by (simp_all add: sl_rep_def headers_append)
  have sp: "?t + z + span ys = unat (sl_space s)" "unat (sl_space s) + 84 < 2 ^ 64" using rep by (simp_all add: sl_rep_def)
  obtain s' where j: "sl_join s ?t (of_nat z) (last_of (frees 0 xs)) (first_of (frees (?t + z) ys) None) = Some s'"
      "sl_rep s' (release xs z ys)" "sl_space s' = sl_space s" "sl_fit s' = sl_fit s"
    using sl_join_ok [OF rep] by blast
  have fr: "frees 0 ?bs = [] @ frees 0 xs @ frees (?t + z) ys" by simp
  have "length (frees 0 xs) < Suc (Suc (unat (sl_space s)))"
    using length_frees [OF h(1)] sp(1) by simp
  moreover have "\<forall>(x, w) \<in> set (frees 0 xs). x < ?t + 16" using frees_bounds [of _ _ 0 xs] by fastforce
  moreover have "\<forall>(x, w) \<in> set (frees (?t + z) ys). ?t + 16 \<le> x" using frees_bounds [of _ _ "?t + z" ys] h(2) by fastforce
  ultimately have seek: "sl_seek (Suc (Suc (unat (sl_space s)))) (sl_mem s) (?t + 16) None (sl_head s) =
      Some (last_of (frees 0 xs), first_of (frees (?t + z) ys) None)"
    using sl_seek_ok [OF h(1) fr, of "Suc (Suc (unat (sl_space s)))" "?t + 16"] h(6) by simp
  have uz: "unat (of_nat z :: 64 word) = z" using sp by (simp add: unat_of_nat)
  have last: "?t + 16 + z \<le> unat (sl_space s) \<longleftrightarrow> ys \<noteq> []"
    using sp(1) h(5) by (cases ys) auto
  have "?t + 16 < unat (sl_space s)" using inside last sp(1) h(2) by (cases ys) auto
  then have "int (?t + 16) < int (unat (sl_space s))" by linarith
  moreover have "get_size (sl_mem s) ?t = Some (of_nat z)" using h(3) by simp
  ultimately have "sl_deallocate s (Some (int (?t + 16))) =
      (if ?t + 16 + unat (of_nat z :: 64 word) \<le> unat (sl_space s) then (Inr (), s') else (Inl Al_undefined, s'))"
    using h(4) seek j(1) by (simp add: sl_deallocate_def Let_def sl_occupied_meta_size_def nat_add_distrib del: sl_seek.simps)
  then show ?thesis using j(2-4) last unfolding uz by auto
qed

text \<open>A pointer to a free block, or behind the end, is refused.\<close>

lemma sl_deallocate_free:
  assumes rep: "sl_rep s (xs @ (False, z) # ys)"
  shows "sl_deallocate s (Some (int (span xs + 16))) = (Inl (Al_logic_error ''try of deallocation non-related memory''), s)"
proof -
  have "sl_mem s (span xs + 8) = Some (Link (first_of (frees (span xs + z) ys) None))"
    using rep by (simp add: sl_rep_def headers_append)
  then show ?thesis by (simp add: sl_deallocate_def Let_def sl_occupied_meta_size_def nat_add_distrib)
qed

lemma sl_deallocate_outside:
  "p < 0 \<or> int (unat (sl_space s)) \<le> p \<Longrightarrow>
   sl_deallocate s (Some p) = (Inl (Al_logic_error ''try of deallocation non-related memory''), s)"
  by (simp add: sl_deallocate_def)

section \<open>The list of blocks and the bytes of the user\<close>

lemma sl_blocks_from_ok:
  assumes "headers (sl_mem s) a bs None" "a + span bs = unat (sl_space s)" "unat (sl_space s) < 2 ^ 64" "span bs < fuel"
  shows "sl_blocks_from fuel s a (first_of (frees a bs) None) = Some (map (\<lambda>(u, z). (of_nat z, u)) bs)"
  using assms
proof (induction bs arbitrary: a fuel)
  case Nil
  then show ?case by (cases fuel) auto
next
  case (Cons b bs)
  obtain u z where b: "b = (u, z)" by fastforce
  obtain fuel' where f: "fuel = Suc fuel'" using Cons.prems(4) by (cases fuel) auto
  have h: "16 \<le> z" "sl_mem s a = Some (Size (of_nat z))" "headers (sl_mem s) (a + z) bs None"
    "sl_mem s (a + 8) = Some (if u then Owner else Link (first_of (frees (a + z) bs) None))"
    using Cons.prems(1) by (simp_all add: b)
  have z: "unat (of_nat z :: 64 word) = z" using Cons.prems(2,3) by (simp add: b unat_of_nat)
  have IH: "sl_blocks_from fuel' s (a + z) (first_of (frees (a + z) bs) None) = Some (map (\<lambda>(u, z). (of_nat z, u)) bs)"
    using Cons.prems h by (intro Cons.IH) (auto simp: b f)
  have "first_of (frees (a + z) bs) None \<noteq> Some a"
  proof
    assume "first_of (frees (a + z) bs) None = Some a"
    then have "(a, snd (hd (frees (a + z) bs))) \<in> set (frees (a + z) bs)" by (cases "frees (a + z) bs") auto
    then show False using frees_bounds h(1) by fastforce
  qed
  moreover have "a < unat (sl_space s)" using Cons.prems(2) h(1) by (simp add: b)
  ultimately show ?case using h IH z by (simp add: b f)
qed

lemma sl_blocks_info_ok: "sl_rep s bs \<Longrightarrow> sl_create_blocks_info s = Some (map (\<lambda>(u, z). (of_nat z, u)) bs)"
  unfolding sl_create_blocks_info_def sl_rep_def
  using sl_blocks_from_ok [of s 0 bs "Suc (unat (sl_space s))"] by simp

lemma sl_scribble_ok:
  assumes rep: "sl_rep s (xs @ (True, z) # ys)" and k: "i + k \<le> z - 16"
  shows "sl_rep (s\<lparr>sl_mem := scribble (sl_mem s) (span xs + 16 + i) k\<rparr>) (xs @ (True, z) # ys)"
proof -
  let ?m = "scribble (sl_mem s) (span xs + 16 + i) k"
  have z: "16 \<le> z" using rep by (simp add: sl_rep_def headers_append)
  have o: "?m b = sl_mem s b" if "b + 8 \<le> span xs + 16 \<or> span xs + z \<le> b" for b
    using that k z by (intro scribble_other) auto
  have "headers ?m 0 xs n = headers (sl_mem s) 0 xs n" for n by (rule headers_frame) (simp add: o)
  moreover have "headers ?m (span xs + z) ys n = headers (sl_mem s) (span xs + z) ys n" for n
    by (rule headers_frame) (simp add: o)
  ultimately show ?thesis using rep o [of "span xs"] o [of "span xs + 8"] by (simp add: sl_rep_def headers_append)
qed

lemma sl_new_ok:
  assumes "sl_new grants n mode = Inr s"
  shows "sl_rep s [(False, unat n)] \<and> sl_space s = n \<and> sl_fit s = mode"
proof -
  have n: "16 \<le> n" "\<not> n + 84 < n" and s: "s = \<lparr>sl_space = n, sl_free = n, sl_head = Some 0, sl_fit = mode,
      sl_mem = put (put Map.empty 0 (Size n)) 8 (Link None)\<rparr>"
    using assms by (auto simp: sl_new_def sl_block_meta_size_def sl_meta_size_def split: if_splits)
  have "unat n + 84 < 2 ^ 64" using n(2) by (rule fits_word)
  moreover have "16 \<le> unat n" using n(1) by (simp add: word_le_nat_alt)
  moreover have "put (put Map.empty 0 (Size n)) 8 (Link None) 0 = Some (Size n)" by (simp add: put_other)
  ultimately show ?thesis by (simp add: sl_rep_def s)
qed

section \<open>The contract of an allocator\<close>

definition sl_start :: "sl \<Rightarrow> bool" where
  "sl_start s \<longleftrightarrow> (\<exists>grants n mode. sl_new grants n mode = Inr s)"

definition sl_store :: "sl \<Rightarrow> nat \<Rightarrow> nat \<Rightarrow> sl" where
  "sl_store s a n = s\<lparr>sl_mem := scribble (sl_mem s) a n\<rparr>"

lemma sl_deallocate_contract:
  assumes rep: "sl_rep s (xs @ (True, z) # ys)"
  shows "sl_rep (snd (sl_deallocate s (Some (int (span xs + 16))))) (release xs z ys) \<or>
    snd (sl_deallocate s (Some (int (span xs + 16)))) = s"
proof (cases "16 < z \<or> ys \<noteq> []")
  case True
  then show ?thesis using sl_deallocate_ok [OF rep] by auto
next
  case False
  then have "unat (sl_space s) \<le> span xs + 16" using rep by (simp add: sl_rep_def)
  then have "int (unat (sl_space s)) \<le> int (span xs + 16)" by linarith
  then show ?thesis using sl_deallocate_outside [of "int (span xs + 16)" s] by simp
qed

lemma headers_used: "headers m a bs n \<Longrightarrow> (True, z) \<in> set bs \<Longrightarrow> 16 \<le> z"
  by (induction m a bs n rule: headers.induct) auto

interpretation sl_contract: block_allocator 16 sl_rep sl_start sl_allocate sl_deallocate sl_store sl_create_blocks_info sl_set_fit_mode
proof (unfold_locales, goal_cases)
  case (1 s)
  then show ?case using sl_new_ok unfolding sl_start_def by blast
next
  case (2 s bs)
  then show ?case by (simp add: sl_rep_def)
next
  case (3 s bs z)
  then show ?case using headers_used unfolding sl_rep_def by blast
next
  case (4 s bs)
  then show ?case by (simp add: sl_rep_def)
next
  case (5 s bs)
  then show ?case using sl_blocks_info_ok [of s bs] by (simp add: block_info_def)
next
  case (6 s bs value_size values_count)
  then show ?case using sl_allocate_ok [OF 6] unfolding fits_def by blast
next
  case (7 s xs z ys)
  then show ?case by (rule sl_deallocate_contract)
next
  case (8 s xs z ys i j)
  then show ?case unfolding sl_store_def by (rule sl_scribble_ok)
next
  case (9 s bs mode)
  then show ?case by (simp add: sl_rep_def sl_set_fit_mode_def)
qed

end
