(* ===== verification/Boundary_Tags_Allocator.thy ===== *)
theory Boundary_Tags_Allocator
  imports Sorted_List_Allocator
begin

text \<open>
  \<open>allocator_boundary_tags.cpp\<close>: the blocks in use are a doubly linked list, and the free memory is what
  lies between them. A block is named by the address of its payload; the 32 bytes in front of it
  hold the size of the payload, the address of the allocator and the pointers to the blocks in
  use before and behind it. The mutex and the messages are left out, but not the message of the
  constructor that is sent through a null pointer.
\<close>

section \<open>State\<close>

record ba =
  ba_space :: "64 word"
  ba_avail :: "64 word"
  ba_head :: "nat option"
  ba_fit :: fit_mode
  ba_mem :: arena

definition ba_meta_size :: "64 word" where "ba_meta_size = 84"
definition ba_block_meta_size :: "64 word" where "ba_block_meta_size = 32"

text \<open>The fields of the header of the block with its payload at \<open>p\<close>.\<close>

definition ba_data_size :: "arena \<Rightarrow> nat \<Rightarrow> 64 word option" where
  "ba_data_size m p = get_size m (p - 32)"

definition ba_prev :: "arena \<Rightarrow> nat \<Rightarrow> nat option option" where
  "ba_prev m p = get_link m (p - 16)"

definition ba_next :: "arena \<Rightarrow> nat \<Rightarrow> nat option option" where
  "ba_next m p = get_link m (p - 8)"

definition ba_new :: "(64 word \<Rightarrow> bool) \<Rightarrow> bool \<Rightarrow> 64 word \<Rightarrow> fit_mode \<Rightarrow> alloc_exn + ba" where
  "ba_new grants has_logger space_size mode =
     (if space_size < ba_block_meta_size then Inl (Al_logic_error ''cannot initialize allocator instance'')
      else if \<not> grants (space_size + ba_meta_size) then Inl (if has_logger then Al_bad_alloc else Al_undefined)
      else if space_size + ba_meta_size < space_size then Inl Al_undefined
      else Inr \<lparr>ba_space = space_size, ba_avail = space_size, ba_head = None, ba_fit = mode, ba_mem = Map.empty\<rparr>)"

section \<open>Allocation\<close>

text \<open>The border of the free memory in front of the next block in use, or of the end.\<close>

definition ba_border :: "ba \<Rightarrow> nat option \<Rightarrow> nat" where
  "ba_border s next = (case next of None \<Rightarrow> unat (ba_space s) | Some n \<Rightarrow> n - 32)"

fun ba_search ::
  "nat \<Rightarrow> ba \<Rightarrow> 64 word \<Rightarrow> nat option \<Rightarrow> nat option \<Rightarrow> (nat \<times> 64 word) option
    \<Rightarrow> (nat option \<times> (nat \<times> 64 word) option) option" where
  "ba_search 0 s cmn_size cur prev target = None"
| "ba_search (Suc fuel) s cmn_size cur prev target =
     (case cur of
        None \<Rightarrow> Some (prev, target)
      | Some c \<Rightarrow>
          if ba_fit s = First_fit \<and> target \<noteq> None then Some (prev, target)
          else (case (ba_next (ba_mem s) c, ba_data_size (ba_mem s) c) of
            (Some next, Some data_size) \<Rightarrow>
              let l_border = c + unat data_size;
                  sz = of_nat (ba_border s next) - of_nat l_border in
              if cmn_size \<le> sz \<and>
                 (case target of
                    None \<Rightarrow> True
                  | Some (_, chosen_size) \<Rightarrow>
                      ba_fit s = The_best_fit \<and> sz - cmn_size < chosen_size - cmn_size \<or>
                      ba_fit s = The_worst_fit \<and> chosen_size - cmn_size < sz - cmn_size)
              then ba_search fuel s cmn_size next (Some c) (Some (l_border + 32, sz))
              else ba_search fuel s cmn_size next prev target
          | _ \<Rightarrow> None))"

definition ba_link :: "ba \<Rightarrow> nat option \<Rightarrow> nat option \<Rightarrow> ba" where
  "ba_link s prev next =
     (case prev of None \<Rightarrow> s | Some p \<Rightarrow> s\<lparr>ba_mem := put (ba_mem s) (p - 8) (Link next)\<rparr>)"

definition ba_link_back :: "ba \<Rightarrow> nat option \<Rightarrow> nat option \<Rightarrow> ba" where
  "ba_link_back s next prev =
     (case next of None \<Rightarrow> s | Some n \<Rightarrow> s\<lparr>ba_mem := put (ba_mem s) (n - 16) (Link prev)\<rparr>)"

text \<open>The target is taken; what could not hold a header goes to the block.\<close>

definition ba_take :: "ba \<Rightarrow> nat option \<Rightarrow> nat \<Rightarrow> 64 word \<Rightarrow> 64 word \<Rightarrow> 64 word \<Rightarrow> ba option" where
  "ba_take s prev target chosen_size req_size cmn_size =
     (let whole = (chosen_size - cmn_size < ba_block_meta_size);
          req_size' = (if whole then chosen_size - ba_block_meta_size else req_size);
          cmn_size' = (if whole then chosen_size else cmn_size) in
      map_option (\<lambda>next.
        let s1 = ba_link s prev (Some target);
            s2 = ba_link_back s1 next (Some target);
            m1 = put (ba_mem s2) (target - 32) (Size req_size');
            m2 = put m1 (target - 24) Owner;
            m3 = put m2 (target - 16) (Link prev);
            m4 = put m3 (target - 8) (Link next) in
        s2\<lparr>ba_mem := m4,
           ba_head := (if ba_head s2 = None \<or> ba_head s2 = next then Some target else ba_head s2),
           ba_avail := ba_avail s2 - cmn_size'\<rparr>)
      (case prev of None \<Rightarrow> Some (ba_head s) | Some p \<Rightarrow> ba_next (ba_mem s) p))"

definition ba_allocate :: "ba \<Rightarrow> 64 word \<Rightarrow> 64 word \<Rightarrow> (alloc_exn + nat) \<times> ba" where
  "ba_allocate s value_size values_count =
     (let req_size = value_size * values_count;
          cmn_size = req_size + ba_block_meta_size;
          sz = of_nat (ba_border s (ba_head s)) in
      case ba_search (Suc (Suc (unat (ba_space s)))) s cmn_size (ba_head s) None
             (if cmn_size \<le> sz then Some (32, sz) else None) of
        None \<Rightarrow> (Inl Al_undefined, s)
      | Some (prev, None) \<Rightarrow> (Inl Al_bad_alloc, s)
      | Some (prev, Some (target, chosen_size)) \<Rightarrow>
          (case ba_take s prev target chosen_size req_size cmn_size of
             None \<Rightarrow> (Inl Al_undefined, s)
           | Some s' \<Rightarrow> (Inr target, s')))"

section \<open>Deallocation\<close>

definition ba_deallocate :: "ba \<Rightarrow> int option \<Rightarrow> (alloc_exn + unit) \<times> ba" where
  "ba_deallocate s at_ptr =
     (case at_ptr of
        None \<Rightarrow> (Inr (), s)
      | Some at \<Rightarrow>
          if at < 0 \<or> int (unat (ba_space s)) \<le> at
          then (Inl (Al_logic_error ''try of deallocation non-related memory''), s)
          else if at < 32 then (Inl Al_undefined, s)
          else
            let p = nat at in
            (case ba_mem s (p - 24) of
               Some (Link _) \<Rightarrow> (Inl (Al_logic_error ''try of deallocation non-related memory''), s)
             | Some Owner \<Rightarrow>
                 (case (ba_data_size (ba_mem s) p, ba_prev (ba_mem s) p, ba_next (ba_mem s) p) of
                    (Some sz, Some prev, Some next) \<Rightarrow>
                      let s1 = (if prev = None then s\<lparr>ba_head := next\<rparr> else ba_link s prev next);
                          s2 = ba_link_back s1 next prev in
                      (Inr (), s2\<lparr>ba_avail := ba_avail s2 + (ba_block_meta_size + sz)\<rparr>)
                  | _ \<Rightarrow> (Inl Al_undefined, s))
             | _ \<Rightarrow> (Inl Al_undefined, s)))"

section \<open>The rest\<close>

definition ba_set_fit_mode :: "ba \<Rightarrow> fit_mode \<Rightarrow> ba" where
  "ba_set_fit_mode s mode = s\<lparr>ba_fit := mode\<rparr>"

fun ba_blocks_from :: "nat \<Rightarrow> ba \<Rightarrow> nat option \<Rightarrow> (64 word \<times> bool) list option" where
  "ba_blocks_from 0 s cur = None"
| "ba_blocks_from (Suc fuel) s cur =
     (case cur of
        None \<Rightarrow> Some []
      | Some c \<Rightarrow>
          (case (ba_next (ba_mem s) c, ba_data_size (ba_mem s) c) of
             (Some next, Some data_size) \<Rightarrow>
               let free_size = (of_nat (ba_border s next) - of_nat (c + unat data_size) :: 64 word) in
               map_option
                 (\<lambda>bs. (ba_block_meta_size + data_size, True) # (if free_size \<noteq> 0 then [(free_size, False)] else []) @ bs)
                 (ba_blocks_from fuel s next)
           | _ \<Rightarrow> None))"

definition ba_create_blocks_info :: "ba \<Rightarrow> (64 word \<times> bool) list option" where
  "ba_create_blocks_info s =
     (let free_size = (of_nat (ba_border s (ba_head s)) :: 64 word) in
      map_option (\<lambda>bs. (if free_size \<noteq> 0 then [(free_size, False)] else []) @ bs)
        (ba_blocks_from (Suc (Suc (unat (ba_space s)))) s (ba_head s)))"

text \<open>The moves and the destructor, as for the sorted list.\<close>

definition ba_destroy :: "ba option \<Rightarrow> alloc_exn + unit" where
  "ba_destroy obj = (case obj of None \<Rightarrow> Inl Al_undefined | Some _ \<Rightarrow> Inr ())"

definition ba_move_construct :: "ba option \<Rightarrow> alloc_exn + (ba option \<times> ba option)" where
  "ba_move_construct other = (case other of None \<Rightarrow> Inl Al_undefined | Some s \<Rightarrow> Inr (Some s, None))"

definition ba_move_assign :: "ba option \<Rightarrow> ba option \<Rightarrow> alloc_exn + (ba option \<times> ba option)" where
  "ba_move_assign obj other =
     (case obj of
        None \<Rightarrow> Inl Al_undefined
      | Some _ \<Rightarrow> (case other of None \<Rightarrow> Inl Al_undefined | Some s \<Rightarrow> Inr (Some s, None)))"

end
