(* ===== verification/Boundary_Tags_Correct.thy ===== *)
theory Boundary_Tags_Correct
  imports Boundary_Tags_Allocator Allocator_Client
begin

text \<open>
  The boundary tags allocator against the list of blocks: the blocks in use carry headers that
  point to their neighbours in use, and the free blocks are the gaps.
\<close>

section \<open>Tags\<close>

text \<open>The payload of the next block in use, \<open>n\<close> behind the end; and of the last one, \<open>p\<close> in front of the start.\<close>

fun next_used :: "nat \<Rightarrow> blocks \<Rightarrow> nat option \<Rightarrow> nat option" where
  "next_used a [] n = n"
| "next_used a ((used, z) # bs) n = (if used then Some (a + 32) else next_used (a + z) bs n)"

fun last_used :: "nat \<Rightarrow> blocks \<Rightarrow> nat option \<Rightarrow> nat option" where
  "last_used a [] p = p"
| "last_used a ((used, z) # bs) p = last_used (a + z) bs (if used then Some (a + 32) else p)"

fun tags :: "arena \<Rightarrow> nat \<Rightarrow> blocks \<Rightarrow> nat option \<Rightarrow> nat option \<Rightarrow> bool" where
  "tags m a [] p n \<longleftrightarrow> True"
| "tags m a ((used, z) # bs) p n \<longleftrightarrow>
     (if used then 32 \<le> z \<and> m a = Some (Size (of_nat (z - 32))) \<and> m (a + 8) = Some Owner \<and>
        m (a + 16) = Some (Link p) \<and> m (a + 24) = Some (Link (next_used (a + z) bs n)) \<and>
        tags m (a + z) bs (Some (a + 32)) n
      else 0 < z \<and> tags m (a + z) bs p n)"

definition ba_rep :: "ba \<Rightarrow> blocks \<Rightarrow> bool" where
  "ba_rep s bs \<longleftrightarrow>
     tags (ba_mem s) 0 bs None None \<and> ba_head s = next_used 0 bs None \<and> coalesced bs \<and>
     span bs = unat (ba_space s) \<and> unat (ba_space s) + 84 < 2 ^ 64 \<and> free_sum bs = unat (ba_avail s)"

lemma next_used_append [simp]: "next_used a (xs @ ys) n = next_used a xs (next_used (a + span xs) ys n)"
  by (induction a xs n rule: next_used.induct) (simp_all add: add.assoc)

lemma last_used_append [simp]: "last_used a (xs @ ys) p = last_used (a + span xs) ys (last_used a xs p)"
  by (induction a xs p rule: last_used.induct) (simp_all add: add.assoc)

lemma tags_append:
  "tags m a (xs @ ys) p n \<longleftrightarrow>
   tags m a xs p (next_used (a + span xs) ys n) \<and> tags m (a + span xs) ys (last_used a xs p) n"
  by (induction m a xs p n rule: tags.induct) (auto simp: add.assoc)

lemma tags_frame:
  assumes "\<And>b. a \<le> b \<Longrightarrow> b + 8 \<le> a + span bs \<Longrightarrow> m' b = m b"
  shows "tags m' a bs p n = tags m a bs p n"
  using assms
proof (induction m a bs p n rule: tags.induct)
  case (2 m a used z bs p n)
  have t: "tags m' (a + z) bs p n = tags m (a + z) bs p n" if "\<not> used"
    using that 2(3) by (intro 2(2)) (auto simp: add.assoc)
  have u: "tags m' (a + z) bs (Some (a + 32)) n = tags m (a + z) bs (Some (a + 32)) n" if used "32 \<le> z"
    using that 2(3) by (intro 2(1)) (auto simp: add.assoc)
  show ?case
  proof (cases "used \<and> 32 \<le> z")
    case True
    then have "m' a = m a" "m' (a + 8) = m (a + 8)" "m' (a + 16) = m (a + 16)" "m' (a + 24) = m (a + 24)"
      using 2(3) by simp_all
    then show ?thesis using u True by simp
  qed (use t in auto)
qed simp

lemma tags_put [simp]: "x + 8 \<le> a \<or> a + span bs \<le> x \<Longrightarrow> tags (put m x c) a bs p n = tags m a bs p n"
  by (rule tags_frame) (auto intro: put_other)

lemma next_used_Some:
  assumes "next_used a xs None = Some q"
  shows "\<exists>us z vs. xs = us @ (True, z) # vs \<and> q = a + span us + 32 \<and> next_used a us None = None"
  using assms
proof (induction a xs "None :: nat option" rule: next_used.induct)
  case (2 a used z bs)
  show ?case
  proof (cases used)
    case True
    then show ?thesis using 2(2) by (intro exI [of _ "[]"] exI [of _ z] exI [of _ bs]) simp
  next
    case False
    then obtain us y vs where "bs = us @ (True, y) # vs" "q = a + z + span us + 32" "next_used (a + z) us None = None"
      using 2 by auto
    then show ?thesis using False by (intro exI [of _ "(False, z) # us"] exI [of _ y] exI [of _ vs]) simp
  qed
qed simp

lemma last_used_Some:
  assumes "last_used a xs None = Some q"
  shows "\<exists>us z vs. xs = us @ (True, z) # vs \<and> q = a + span us + 32 \<and> next_used (a + span us + z) vs None = None"
  using assms
proof (induction xs rule: rev_induct)
  case (snoc b bs)
  obtain u z where b: "b = (u, z)" by fastforce
  show ?case
  proof (cases u)
    case True
    then show ?thesis using snoc.prems by (intro exI [of _ bs] exI [of _ z] exI [of _ "[]"]) (simp add: b)
  next
    case False
    then obtain us y vs where "bs = us @ (True, y) # vs" "q = a + span us + 32" "next_used (a + span us + y) vs None = None"
      using snoc by (auto simp: b)
    then show ?thesis using False by (intro exI [of _ us] exI [of _ y] exI [of _ "vs @ [(False, z)]"]) (simp add: b)
  qed
qed simp

lemma none_used:
  assumes "next_used a xs None = None \<or> last_used a xs None = None"
  shows "next_used a xs n = n" "last_used a xs p = p" "tags m a xs p n = tags m a xs p' n'"
proof -
  have "\<forall>(u, z) \<in> set xs. \<not> u"
    using assms
  proof
    assume "next_used a xs None = None"
    then show ?thesis by (induction a xs "None :: nat option" rule: next_used.induct) (auto split: if_splits)
  next
    assume "last_used a xs None = None"
    then show ?thesis by (induction xs rule: rev_induct) (auto split: if_splits)
  qed
  then show "next_used a xs n = n" "last_used a xs p = p" "tags m a xs p n = tags m a xs p' n'"
    by (induction m a xs p n rule: tags.induct) auto
qed

section \<open>Links\<close>

lemma tags_link:
  assumes "tags m a xs p n" "last_used a xs None = Some q"
  shows "tags (put m (q - 8) (Link n')) a xs p n'" "m (q - 8) = Some (Link n)" "q \<le> a + span xs" "a + 32 \<le> q"
proof -
  obtain us z vs where x: "xs = us @ (True, z) # vs" "q = a + span us + 32" "next_used (a + span us + z) vs None = None"
    using last_used_Some [OF assms(2)] by blast
  note e = none_used [OF disjI1 [OF x(3)]]
  have q: "q - 8 = a + span us + 24" using x(2) by simp
  have h: "tags m a us p (Some q)" "32 \<le> z" "m (a + span us) = Some (Size (of_nat (z - 32)))"
      "m (a + span us + 8) = Some Owner" "m (a + span us + 16) = Some (Link (last_used a us p))"
      "m (a + span us + 24) = Some (Link n)" "tags m (a + span us + z) vs (Some q) n"
    using assms(1) x(2) e(1) by (simp_all add: x(1) tags_append)
  show "m (q - 8) = Some (Link n)" using h(6) q by simp
  show "q \<le> a + span xs" "a + 32 \<le> q" using h(2) x by simp_all
  show "tags (put m (q - 8) (Link n')) a xs p n'"
    using h e(3) [of m "Some q" n "Some q" n'] e(1) [of n'] x(2) unfolding q
    by (simp add: x(1) tags_append put_other)
qed

lemma tags_link_back:
  assumes "tags m a ys p n" "next_used a ys None = Some q"
  shows "tags (put m (q - 16) (Link p')) a ys p' n" "m (q - 16) = Some (Link p)" "a + 32 \<le> q"
proof -
  obtain us z vs where x: "ys = us @ (True, z) # vs" "q = a + span us + 32" "next_used a us None = None"
    using next_used_Some [OF assms(2)] by blast
  note e = none_used [OF disjI1 [OF x(3)]]
  have q: "q - 16 = a + span us + 16" using x(2) by simp
  have h: "tags m a us p (Some q)" "32 \<le> z" "m (a + span us) = Some (Size (of_nat (z - 32)))"
      "m (a + span us + 8) = Some Owner" "m (a + span us + 16) = Some (Link p)"
      "m (a + span us + 24) = Some (Link (next_used (a + span us + z) vs n))" "tags m (a + span us + z) vs (Some q) n"
    using assms(1) x(2) e(2) by (simp_all add: x(1) tags_append)
  show "m (q - 16) = Some (Link p)" using h(5) q by simp
  show "a + 32 \<le> q" using x(2) by simp
  show "tags (put m (q - 16) (Link p')) a ys p' n"
    using h e(3) [of m p "Some q" p' "Some q"] e(2) [of p'] x(2) unfolding q
    by (simp add: x(1) tags_append put_other)
qed

lemma ba_link_ok:
  assumes "tags (ba_mem s) 0 xs None n" "prev = last_used 0 xs None"
  shows "tags (ba_mem (ba_link s prev n')) 0 xs None n'"
    "\<And>b. span xs \<le> b \<Longrightarrow> ba_mem (ba_link s prev n') b = ba_mem s b"
proof -
  have "tags (ba_mem (ba_link s prev n')) 0 xs None n' \<and> (\<forall>b \<ge> span xs. ba_mem (ba_link s prev n') b = ba_mem s b)"
  proof (cases prev)
    case None
    then show ?thesis using assms none_used(3) [of 0 xs "ba_mem s" None n None n'] by (simp add: ba_link_def)
  next
    case (Some q)
    then have l: "last_used 0 xs None = Some q" using assms(2) by simp
    note t = tags_link [OF assms(1) l]
    have "put (ba_mem s) (q - 8) (Link n') b = ba_mem s b" if "span xs \<le> b" for b
      using t(3,4) that by (intro put_other) auto
    then show ?thesis using t(1) Some by (simp add: ba_link_def)
  qed
  then show "tags (ba_mem (ba_link s prev n')) 0 xs None n'"
    "\<And>b. span xs \<le> b \<Longrightarrow> ba_mem (ba_link s prev n') b = ba_mem s b"
    by blast+
qed

lemma ba_link_back_ok:
  assumes "tags (ba_mem s) a ys p None" "next = next_used a ys None"
  shows "tags (ba_mem (ba_link_back s next p')) a ys p' None"
    "\<And>b. b \<le> a \<Longrightarrow> ba_mem (ba_link_back s next p') b = ba_mem s b"
proof -
  have "tags (ba_mem (ba_link_back s next p')) a ys p' None \<and> (\<forall>b \<le> a. ba_mem (ba_link_back s next p') b = ba_mem s b)"
  proof (cases "next")
    case None
    then show ?thesis using assms none_used(3) [of a ys "ba_mem s" p None p' None] by (simp add: ba_link_back_def)
  next
    case (Some q)
    then have l: "next_used a ys None = Some q" using assms(2) by simp
    note t = tags_link_back [OF assms(1) l]
    have "put (ba_mem s) (q - 16) (Link p') b = ba_mem s b" if "b \<le> a" for b
      using t(3) that by (intro put_other) auto
    then show ?thesis using t(1) Some by (simp add: ba_link_back_def)
  qed
  then show "tags (ba_mem (ba_link_back s next p')) a ys p' None"
    "\<And>b. b \<le> a \<Longrightarrow> ba_mem (ba_link_back s next p') b = ba_mem s b"
    by blast+
qed

lemma ba_link_fields [simp]:
  "ba_head (ba_link s p n) = ba_head s" "ba_space (ba_link s p n) = ba_space s"
  "ba_avail (ba_link s p n) = ba_avail s" "ba_fit (ba_link s p n) = ba_fit s"
  "ba_head (ba_link_back s n p) = ba_head s" "ba_space (ba_link_back s n p) = ba_space s"
  "ba_avail (ba_link_back s n p) = ba_avail s" "ba_fit (ba_link_back s n p) = ba_fit s"
  by (simp_all add: ba_link_def ba_link_back_def split: option.split)

text \<open>Both sides of a place get new links.\<close>

lemma relink_both:
  assumes "tags (ba_mem s) 0 xs None n" "tags (ba_mem s) a ys p None" "span xs \<le> a"
    and "prev = last_used 0 xs None" "next = next_used a ys None"
  shows "tags (ba_mem (ba_link_back (ba_link s prev n') next p')) 0 xs None n'"
    "tags (ba_mem (ba_link_back (ba_link s prev n') next p')) a ys p' None"
    "\<And>b. span xs \<le> b \<Longrightarrow> b \<le> a \<Longrightarrow> ba_mem (ba_link_back (ba_link s prev n') next p') b = ba_mem s b"
proof -
  note l = ba_link_ok [OF assms(1,4), where n' = n']
  have y: "tags (ba_mem (ba_link s prev n')) a ys p None"
    using tags_frame [of a ys _ "ba_mem s" p None] l(2) assms(2,3) by simp
  note k = ba_link_back_ok [OF y assms(5), where p' = p']
  show "tags (ba_mem (ba_link_back (ba_link s prev n') next p')) a ys p' None" by (rule k(1))
  show "tags (ba_mem (ba_link_back (ba_link s prev n') next p')) 0 xs None n'"
    using tags_frame [of 0 xs _ "ba_mem (ba_link s prev n')" None n'] k(2) l(1) assms(3) by simp
  show "ba_mem (ba_link_back (ba_link s prev n') next p') b = ba_mem s b" if "span xs \<le> b" "b \<le> a" for b
    using k(2) l(2) that by simp
qed

section \<open>Allocation\<close>

lemma next_used_bounds: "next_used a xs None = Some q \<Longrightarrow> a + 32 \<le> q \<and> q < a + span xs + 32 + 1"
  using next_used_Some [of a xs q] by auto

lemma ba_take_ok:
  assumes rep: "ba_rep s (xs @ (False, tz) # ys)" and c: "c = r + 32" "unat r + 32 = unat c" "unat c \<le> tz"
    and prev: "prev = last_used 0 xs None"
  shows "\<exists>s'. ba_take s prev (span xs + 32) (of_nat tz) r c = Some s' \<and>
    ba_rep s' (xs @ carve 32 tz (unat c) @ ys) \<and> ba_space s' = ba_space s \<and> ba_fit s' = ba_fit s"
proof -
  let ?t = "span xs" and ?next = "next_used (span xs + tz) ys None"
  have h: "tags (ba_mem s) 0 xs None ?next" "tags (ba_mem s) (?t + tz) ys prev None" "0 < tz"
      "ba_head s = next_used 0 xs ?next"
    using rep by (simp_all add: ba_rep_def tags_append prev)
  have sp: "?t + tz + span ys = unat (ba_space s)" "unat (ba_space s) + 84 < 2 ^ 64"
      "free_sum (xs @ (False, tz) # ys) = unat (ba_avail s)" "coalesced (xs @ (False, tz) # ys)"
    using rep by (simp_all add: ba_rep_def)
  have tz: "unat (of_nat tz :: 64 word) = tz" using sp(1,2) by (simp add: unat_of_nat)
  have sub: "unat (of_nat tz - c) = tz - unat c" using c(3) by (simp add: unat_sub word_le_nat_alt tz)
  define whole where "whole \<longleftrightarrow> tz < unat c + 32"
  have cond: "(of_nat tz - c < ba_block_meta_size) = whole"
    using c(3) by (simp add: ba_block_meta_size_def word_less_nat_alt sub whole_def) linarith
  define z where "z = (if whole then tz else unat c)"
  have z: "32 \<le> z" "z \<le> tz" "(if whole then of_nat tz - ba_block_meta_size else r) = of_nat (z - 32)"
      "(if whole then of_nat tz else c) = of_nat z"
    using c by (auto simp: z_def ba_block_meta_size_def of_nat_diff)
  have carve: "carve 32 tz (unat c) = (True, z) # (if whole then [] else [(False, tz - z)])"
    by (simp add: carve_def z_def whole_def)
  have gap: "\<not> whole \<Longrightarrow> 0 < tz - z" "whole \<Longrightarrow> z = tz" by (simp_all add: whole_def z_def)
  define s2 where "s2 = ba_link_back (ba_link s prev (Some (?t + 32))) ?next (Some (?t + 32))"
  note k = relink_both [OF h(1,2) _ prev refl, where n' = "Some (?t + 32)" and p' = "Some (?t + 32)", folded s2_def]
  have f2: "ba_head s2 = ba_head s" "ba_space s2 = ba_space s" "ba_avail s2 = ba_avail s" "ba_fit s2 = ba_fit s"
    by (simp_all add: s2_def)
  define m where "m = put (put (put (put (ba_mem s2) ?t (Size (of_nat (z - 32)))) (?t + 8) Owner)
      (?t + 16) (Link prev)) (?t + 24) (Link ?next)"
  have m: "m ?t = Some (Size (of_nat (z - 32)))" "m (?t + 8) = Some Owner" "m (?t + 16) = Some (Link prev)"
      "m (?t + 24) = Some (Link ?next)"
    by (simp_all add: m_def put_other)
  have mx: "tags m 0 xs None (Some (?t + 32))" "tags m (?t + tz) ys (Some (?t + 32)) None"
    using k(1,2) z by (simp_all add: m_def)
  let ?head = "if ba_head s2 = None \<or> ba_head s2 = ?next then Some (?t + 32) else ba_head s2"
  have head: "?head = next_used 0 xs (Some (?t + 32))"
  proof (cases "next_used 0 xs None")
    case None
    then show ?thesis using h(4) none_used(1) [OF disjI1 [OF None]] by (auto simp: f2)
  next
    case (Some q)
    have same: "next_used 0 xs n = Some q" for n
      using next_used_Some [OF Some] none_used(1) [of 0] by fastforce
    have "q \<le> ?t"
    proof -
      obtain us y vs where x: "xs = us @ (True, y) # vs" "q = 0 + span us + 32" using next_used_Some [OF Some] by blast
      then have "32 \<le> y" using h(1) by (simp add: tags_append)
      then show ?thesis using x by simp
    qed
    then have "?next \<noteq> Some q" using next_used_bounds [of "?t + tz" ys q] by fastforce
    then show ?thesis using h(4) by (simp add: f2 same)
  qed
  let ?s = "s2\<lparr>ba_mem := m, ba_head := ?head, ba_avail := ba_avail s2 - of_nat z\<rparr>"
  have "ba_take s prev (?t + 32) (of_nat tz) r c = Some ?s"
  proof -
    have "(case prev of None \<Rightarrow> Some (ba_head s) | Some p \<Rightarrow> ba_next (ba_mem s) p) = Some ?next"
    proof (cases prev)
      case None
      then show ?thesis using h(4) prev none_used(1) [of 0 xs] by simp
    next
      case (Some q)
      then show ?thesis using tags_link(2) [OF h(1)] prev by (simp add: ba_next_def)
    qed
    then show ?thesis
      unfolding ba_take_def Let_def cond z(3,4) by (simp add: s2_def m_def add.commute)
  qed
  moreover have "ba_rep ?s (xs @ carve 32 tz (unat c) @ ys)"
  proof -
    have "tags m 0 (xs @ carve 32 tz (unat c) @ ys) None None"
      using mx m z(1,2) gap prev by (cases whole) (simp_all add: carve tags_append)
    moreover have "coalesced (xs @ carve 32 tz (unat c) @ ys)"
      using sp(4) by (cases ys) (auto simp: carve coalesced_append)
    moreover have "unat (ba_avail s - of_nat z) = unat (ba_avail s) - z" by (rule free_word [OF sp(3) z(2)])
    moreover have "next_used 0 (xs @ carve 32 tz (unat c) @ ys) None = ?head" by (simp add: carve head)
    ultimately show ?thesis using sp z(1,2) gap(2) by (cases whole) (simp_all add: ba_rep_def carve f2)
  qed
  ultimately show ?thesis by (simp add: f2)
qed

section \<open>The search\<close>

text \<open>A list of blocks that starts with a gap of \<open>g\<close> bytes, or with a block in use.\<close>

definition gap :: "nat \<Rightarrow> blocks" where
  "gap g = (if g = 0 then [] else [(False, g)])"

lemma gap_simps [simp]:
  "span (gap g) = g" "next_used a (gap g) n = n" "last_used a (gap g) p = p"
  "frees a (gap g) = (if g = 0 then [] else [(a, g)])" "tags m a (gap g) p n"
  by (simp_all add: gap_def)

lemma gap_split:
  assumes "coalesced bs" "tags m a bs p n"
  shows "\<exists>g us. bs = gap g @ us \<and> (us = [] \<or> fst (hd us))"
proof (cases bs)
  case Nil
  then show ?thesis by (intro exI [of _ 0] exI [of _ "[]"]) (simp add: gap_def)
next
  case (Cons b bs')
  obtain u z where b: "b = (u, z)" by fastforce
  show ?thesis
  proof (cases u)
    case True
    then show ?thesis by (intro exI [of _ 0] exI [of _ bs]) (simp add: gap_def Cons b)
  next
    case False
    then show ?thesis using assms
      by (intro exI [of _ z] exI [of _ bs']) (cases bs'; auto simp: gap_def Cons b)
  qed
qed

lemma ba_border_ok:
  assumes "us = [] \<or> fst (hd us)" "a + span us = unat (ba_space s)"
  shows "ba_border s (next_used a us None) = a"
  using assms by (cases us) (auto simp: ba_border_def)

lemma ba_gap_word:
  assumes "us = [] \<or> fst (hd us)" "a + g + span us = unat (ba_space s)" "a + g < 2 ^ 64"
  shows "of_nat (ba_border s (next_used (a + g) us None)) - of_nat a = (of_nat g :: 64 word)"
  using ba_border_ok [of us "a + g" s] assms by simp

text \<open>
  The blocks before the target, for the pointer \<open>prev\<close>: the search has looked at the blocks \<open>ds\<close>.
\<close>

definition searched :: "ba \<Rightarrow> nat \<Rightarrow> blocks \<Rightarrow> nat option \<Rightarrow> (nat \<times> 64 word) option \<Rightarrow> bool" where
  "searched s need ds prev target \<longleftrightarrow>
     (case target of
        None \<Rightarrow> chosen (ba_fit s) need (frees 0 ds) None None
      | Some (t, w) \<Rightarrow> \<exists>xs ys. ds = xs @ (False, unat w) # ys \<and> t = span xs + 32 \<and> prev = last_used 0 xs None \<and>
          chosen (ba_fit s) need (frees 0 ds) (last_of (frees 0 xs)) (Some (span xs, w)))"

lemma searched_more:
  assumes "searched s need ds prev target" "target \<noteq> None \<Longrightarrow> ba_fit s = First_fit \<or> frees (span ds) es = []"
    and "target = None \<Longrightarrow> frees (span ds) es = []"
  shows "searched s need (ds @ es) prev target"
proof (cases target)
  case None
  then show ?thesis using assms(1,3) by (simp add: searched_def)
next
  case (Some tw)
  obtain t w where tw: "tw = (t, w)" by fastforce
  obtain xs ys where x: "ds = xs @ (False, unat w) # ys" "t = span xs + 32" "prev = last_used 0 xs None"
      "chosen (ba_fit s) need (frees 0 ds) (last_of (frees 0 xs)) (Some (span xs, w))"
    using assms(1) by (auto simp: searched_def Some tw)
  have "chosen (ba_fit s) need (frees 0 (ds @ es)) (last_of (frees 0 xs)) (Some (span xs, w))"
  proof (cases "ba_fit s = First_fit")
    case True
    then show ?thesis using chosen_first_grows [of need "frees 0 ds"] x(4) by simp
  next
    case False
    then show ?thesis using assms(2) x(4) Some by simp
  qed
  then show ?thesis using x(1-3) by (auto simp: searched_def Some tw)
qed

lemma word_diff_less:
  fixes x y need :: "64 word"
  shows "need \<le> x \<Longrightarrow> need \<le> y \<Longrightarrow> x - need < y - need \<longleftrightarrow> x < y"
  by (auto simp: word_less_nat_alt word_le_nat_alt unat_sub)

definition takes :: "fit_mode \<Rightarrow> 64 word \<Rightarrow> 64 word \<Rightarrow> (nat \<times> 64 word) option \<Rightarrow> bool" where
  "takes fit need sz target \<longleftrightarrow> need \<le> sz \<and>
     (case target of
        None \<Rightarrow> True
      | Some (_, u) \<Rightarrow> fit = The_best_fit \<and> sz - need < u - need \<or> fit = The_worst_fit \<and> u - need < sz - need)"

lemma searched_chosen:
  assumes "searched s need ds prev target"
  shows "\<exists>p target'. chosen (ba_fit s) need (frees 0 ds) p target' \<and>
    (case target of None \<Rightarrow> target' = None | Some (t, w) \<Rightarrow> need \<le> unat w \<and> (\<exists>t'. target' = Some (t', w)))"
proof (cases target)
  case (Some tw)
  then obtain t w xs where "tw = (t, w)" "chosen (ba_fit s) need (frees 0 ds) (last_of (frees 0 xs)) (Some (span xs, w))"
    using assms by (cases tw) (auto simp: searched_def)
  moreover from this(2) have "need \<le> unat w" by (auto simp: chosen_def)
  ultimately show ?thesis unfolding Some by (intro exI conjI) auto
qed (use assms in \<open>auto simp: searched_def\<close>)

lemma searched_take:
  assumes c: "searched s (unat need) ds prev target" and no: "\<not> (ba_fit s = First_fit \<and> target \<noteq> None)"
    and g: "g < 2 ^ 64" "need \<noteq> 0" and t: "takes (ba_fit s) need (of_nat g) target"
  shows "searched s (unat need) (ds @ gap g) (last_used 0 ds None) (Some (span ds + 32, of_nat g))"
proof -
  obtain p target' where p: "chosen (ba_fit s) (unat need) (frees 0 ds) p target'"
      "case target of None \<Rightarrow> target' = None | Some (t, w) \<Rightarrow> unat need \<le> unat w \<and> (\<exists>t'. target' = Some (t', w))"
    using searched_chosen [OF c] by blast
  have u: "unat (of_nat g :: 64 word) = g" using g(1) by (simp add: unat_of_nat)
  have n: "unat need \<le> g" using t u by (simp add: takes_def word_le_nat_alt)
  moreover have "0 < unat need" using g(2) by (simp add: unat_gt_0)
  ultimately have g0: "g \<noteq> 0" by linarith
  have "case target' of None \<Rightarrow> True | Some (_, u) \<Rightarrow>
      ba_fit s = The_best_fit \<and> of_nat g < u \<or> ba_fit s = The_worst_fit \<and> u < of_nat g"
    using t p(2) by (cases target) (auto simp: takes_def word_diff_less word_le_nat_alt)
  moreover have "ba_fit s = First_fit \<longrightarrow> target' = None" using no p(2) by (cases target) auto
  ultimately have "chosen (ba_fit s) (unat need) (frees 0 ds @ [(span ds, unat (of_nat g :: 64 word))])
      (last_of (frees 0 ds)) (Some (span ds, of_nat g))"
    using chosen_take [OF p(1), of "of_nat g"] n u by simp
  then show ?thesis using u g0 by (auto simp: searched_def gap_def)
qed

lemma searched_skip:
  assumes c: "searched s (unat need) ds prev target" and no: "\<not> (ba_fit s = First_fit \<and> target \<noteq> None)"
    and g: "g < 2 ^ 64" and t: "\<not> takes (ba_fit s) need (of_nat g) target"
  shows "searched s (unat need) (ds @ gap g) prev target"
proof (cases "g = 0")
  case True
  then show ?thesis using c by (simp add: gap_def)
next
  case False
  have u: "unat (of_nat g :: 64 word) = g" using g(1) by (simp add: unat_of_nat)
  show ?thesis
  proof (cases target)
    case None
    then show ?thesis using c t u False
      by (auto simp: searched_def takes_def word_le_nat_alt intro: chosen_skip)
  next
    case (Some tw)
    obtain t w where tw: "tw = (t, w)" by fastforce
    obtain xs ys where x: "ds = xs @ (False, unat w) # ys" "t = span xs + 32" "prev = last_used 0 xs None"
        "chosen (ba_fit s) (unat need) (frees 0 ds) (last_of (frees 0 xs)) (Some (span xs, w))"
      using c by (auto simp: searched_def Some tw)
    have n: "unat need \<le> unat w" using x(4) by (auto simp: chosen_def)
    have "chosen (ba_fit s) (unat need) (frees 0 ds @ [(span ds, g)]) (last_of (frees 0 xs)) (Some (span xs, w))"
    proof (rule chosen_skip [OF x(4)])
      assume "unat need \<le> g"
      then have "(ba_fit s = The_best_fit \<longrightarrow> \<not> of_nat g < w) \<and> (ba_fit s = The_worst_fit \<longrightarrow> \<not> w < of_nat g)"
        using t n u by (auto simp: takes_def Some tw word_le_nat_alt word_diff_less)
      then show "\<exists>t w'. Some (span xs, w) = Some (t, w') \<and> (ba_fit s = The_best_fit \<longrightarrow> unat w' \<le> g) \<and>
          (ba_fit s = The_worst_fit \<longrightarrow> g \<le> unat w')"
        using u by (auto simp: word_less_nat_alt not_less)
    qed
    then have "chosen (ba_fit s) (unat need) (frees 0 (ds @ gap g)) (last_of (frees 0 xs)) (Some (span xs, w))"
      using False by simp
    moreover have "ds @ gap g = xs @ (False, unat w) # (ys @ gap g)" by (simp add: x(1))
    ultimately show ?thesis unfolding searched_def Some tw option.case prod.case using x(2,3) by blast
  qed
qed

lemma ba_search_ok:
  assumes t: "tags (ba_mem s) 0 (ds @ us) None None" and sp: "span (ds @ us) = unat (ba_space s)" "unat (ba_space s) + 84 < 2 ^ 64"
    and u: "us = [] \<or> fst (hd us)" "coalesced (ds @ us)" "span us < fuel"
    and c: "searched s (unat need) ds prev target" "need \<noteq> 0"
  shows "\<exists>prev' target'. ba_search fuel s need (next_used (span ds) us None) prev target = Some (prev', target') \<and>
    searched s (unat need) (ds @ us) prev' target'"
  using assms
proof (induction fuel arbitrary: ds us prev target)
  case (Suc fuel)
  show ?case
  proof (cases us)
    case Nil
    then show ?thesis using Suc.prems by auto
  next
    case (Cons b ys)
    obtain z where b: "b = (True, z)" using Suc.prems(4) by (cases b) (auto simp: Cons)
    have h: "32 \<le> z" "ba_mem s (span ds) = Some (Size (of_nat (z - 32)))"
        "ba_mem s (span ds + 24) = Some (Link (next_used (span ds + z) ys None))"
        "tags (ba_mem s) (span ds + z) ys (Some (span ds + 32)) None"
      using Suc.prems(1) by (simp_all add: Cons b tags_append)
    show ?thesis
    proof (cases "ba_fit s = First_fit \<and> target \<noteq> None")
      case True
      then show ?thesis using Suc.prems(7) searched_more [of s "unat need" ds prev target us] by (auto simp: Cons b)
    next
      case False
      have "coalesced ys" using Suc.prems(5) by (cases ys) (auto simp: Cons b coalesced_append)
      then obtain g vs where g: "ys = gap g @ vs" "vs = [] \<or> fst (hd vs)" using gap_split [OF _ h(4)] by blast
      let ?ds = "ds @ [(True, z)]" and ?l = "span ds + 32 + unat (of_nat (z - 32) :: 64 word)"
      have total: "span ds + z + g + span vs = unat (ba_space s)" using Suc.prems(2) by (simp add: Cons b g(1))
      have "unat (of_nat (z - 32) :: 64 word) = z - 32" by (rule unat_of_nat_small) (use total Suc.prems(3) in simp)
      then have l: "?l = span ds + z" using h(1) by simp
      have sz: "of_nat (ba_border s (next_used (span ds + z) ys None)) - of_nat (span ds + z) = (of_nat g :: 64 word)"
        using ba_gap_word [of vs "span ds + z" g s] g(2) total Suc.prems(3) unfolding g(1) by simp
      have c1: "searched s (unat need) ?ds prev target"
        using searched_more [OF Suc.prems(7), of "[(True, z)]"] by simp
      have g64: "g < 2 ^ 64" using total Suc.prems(3) by simp
      have IH: "\<exists>prev' target'. ba_search fuel s need (next_used (span ds + z) ys None) p r = Some (prev', target') \<and>
          searched s (unat need) (ds @ us) prev' target'" if "searched s (unat need) (?ds @ gap g) p r" for p r
        using Suc.IH [of "?ds @ gap g" vs p r] Suc.prems(1-6,8) that g h(1) by (simp add: Cons b add.assoc)
      have step: "ba_search (Suc fuel) s need (next_used (span ds) us None) prev target =
          (if takes (ba_fit s) need (of_nat g) target
           then ba_search fuel s need (next_used (span ds + z) ys None) (Some (span ds + 32)) (Some (span ds + z + 32, of_nat g))
           else ba_search fuel s need (next_used (span ds + z) ys None) prev target)"
      proof -
        have "next_used (span ds) us None = Some (span ds + 32)" by (simp add: Cons b)
        moreover have "ba_next (ba_mem s) (span ds + 32) = Some (next_used (span ds + z) ys None)"
            "ba_data_size (ba_mem s) (span ds + 32) = Some (of_nat (z - 32))"
          using h(2,3) by (simp_all add: ba_next_def ba_data_size_def add.commute)
        ultimately show ?thesis
          by (simp only: ba_search.simps(2) option.case prod.case if_not_P [OF False] Let_def l sz takes_def)
      qed
      show ?thesis
        unfolding step
        using searched_take [OF c1 False g64 Suc.prems(8)] searched_skip [OF c1 False g64] IH by auto
    qed
  qed
qed simp

lemma tags_pos: "tags m a bs p n \<Longrightarrow> \<forall>(u, z) \<in> set bs. 0 < z"
  by (induction m a bs p n rule: tags.induct) (auto split: if_splits)

lemma searched_fits:
  assumes "searched s need bs prev target" "\<forall>(u, z) \<in> set bs. 0 < z"
  shows "case target of
      None \<Rightarrow> \<forall>z. (False, z) \<in> set bs \<longrightarrow> z < need
    | Some (t, w) \<Rightarrow> \<exists>xs ys. bs = xs @ (False, unat w) # ys \<and> t = span xs + 32 \<and> prev = last_used 0 xs None \<and>
        fits (ba_fit s) need xs (unat w) ys"
proof (cases target)
  case None
  then show ?thesis using assms chosen_none by (auto simp: searched_def)
next
  case (Some tw)
  obtain t w where tw: "tw = (t, w)" by fastforce
  obtain xs ys where x: "bs = xs @ (False, unat w) # ys" "t = span xs + 32" "prev = last_used 0 xs None"
      "chosen (ba_fit s) need (frees 0 bs) (last_of (frees 0 xs)) (Some (span xs, w))"
    using assms by (auto simp: searched_def Some tw)
  from chosen_fits_at [OF x(4,1) assms(2)] show ?thesis using x(1-3) by (auto simp: Some tw)
qed

lemma ba_allocate_ok:
  assumes rep: "ba_rep s bs" and need: "unat (value_size * values_count) + 32 < 2 ^ 64"
  shows "(\<exists>xs tz ys s'. bs = xs @ (False, tz) # ys \<and>
      ba_allocate s value_size values_count = (Inr (span xs + 32), s') \<and>
      fits (ba_fit s) (unat (value_size * values_count) + 32) xs tz ys \<and>
      ba_rep s' (xs @ carve 32 tz (unat (value_size * values_count) + 32) @ ys) \<and>
      ba_space s' = ba_space s \<and> ba_fit s' = ba_fit s) \<or>
    ba_allocate s value_size values_count = (Inl Al_bad_alloc, s) \<and>
      (\<forall>z. (False, z) \<in> set bs \<longrightarrow> z < unat (value_size * values_count) + 32)"
proof -
  define r where "r = value_size * values_count"
  define c where "c = r + ba_block_meta_size"
  have c: "unat c = unat r + 32" "c \<noteq> 0"
    using need by (simp_all add: c_def r_def ba_block_meta_size_def unat_word_ariths unat_eq_zero [symmetric])
  have h: "tags (ba_mem s) 0 bs None None" "ba_head s = next_used 0 bs None" "span bs = unat (ba_space s)"
      "coalesced bs" "unat (ba_space s) + 84 < 2 ^ 64"
    using rep by (auto simp: ba_rep_def)
  obtain g us where g: "bs = gap g @ us" "us = [] \<or> fst (hd us)" using gap_split [OF h(4,1)] by blast
  have g64: "g < 2 ^ 64" using h(3,5) by (simp add: g(1))
  have border: "ba_border s (ba_head s) = g" using ba_border_ok [of us g s] g(2) h(2,3) by (simp add: g(1))
  let ?t0 = "if c \<le> of_nat g then Some (32, of_nat g) else None"
  have empty: "searched s (unat c) [] None None" by (simp add: searched_def chosen_def)
  have c0: "searched s (unat c) (gap g) None ?t0"
    using searched_take [OF empty _ g64 c(2)] searched_skip [OF empty _ g64] by (simp add: takes_def)
  obtain prev target where r: "ba_search (Suc (Suc (unat (ba_space s)))) s c (ba_head s) None ?t0 = Some (prev, target)"
      "searched s (unat c) bs prev target"
    using ba_search_ok [of s "gap g" us "Suc (Suc (unat (ba_space s)))" c None ?t0] h g c0 c(2) by auto
  have run: "ba_allocate s value_size values_count =
      (case (prev, target) of
         (_, None) \<Rightarrow> (Inl Al_bad_alloc, s)
       | (prev, Some (target, chosen_size)) \<Rightarrow>
           (case ba_take s prev target chosen_size r c of
              None \<Rightarrow> (Inl Al_undefined, s)
            | Some s' \<Rightarrow> (Inr target, s')))"
    using r(1) unfolding ba_allocate_def Let_def r_def [symmetric] c_def [symmetric] border by (simp del: ba_search.simps)
  show ?thesis
  proof (cases target)
    case None
    then show ?thesis using run searched_fits [OF r(2) tags_pos [OF h(1)]] c(1) by (simp add: r_def)
  next
    case (Some tw)
    obtain t w where tw: "tw = (t, w)" by fastforce
    obtain xs ys where x: "bs = xs @ (False, unat w) # ys" "t = span xs + 32" "prev = last_used 0 xs None"
        "fits (ba_fit s) (unat c) xs (unat w) ys"
      using searched_fits [OF r(2) tags_pos [OF h(1)]] by (auto simp: Some tw)
    have "unat c \<le> unat w" using x(4) by (simp add: fits_def)
    then obtain s' where s': "ba_take s prev (span xs + 32) (of_nat (unat w)) r c = Some s'"
        "ba_rep s' (xs @ carve 32 (unat w) (unat c) @ ys)" "ba_space s' = ba_space s" "ba_fit s' = ba_fit s"
      using ba_take_ok [OF rep [unfolded x(1)], of c r prev] x(3) c(1) by (auto simp: c_def ba_block_meta_size_def)
    have "ba_allocate s value_size values_count = (Inr (span xs + 32), s')"
      using run s'(1) x(2) by (simp add: Some tw)
    then show ?thesis using x(1,4) s'(2-4) c(1) by (auto simp: r_def)
  qed
qed

section \<open>Deallocation\<close>

text \<open>Neighbouring gaps are one gap, whatever their sizes.\<close>

lemma tags_merge:
  assumes "tags m a (us @ (False, y) # (False, z) # vs) p n"
  shows "tags m a (us @ (False, y + z) # vs) p n"
    "next_used a (us @ (False, y + z) # vs) n = next_used a (us @ (False, y) # (False, z) # vs) n"
  using assms by (simp_all add: tags_append add.assoc)

lemma tags_release:
  assumes "tags m 0 (xs @ (False, z) # ys) None None"
  shows "tags m 0 (release xs z ys) None None"
    "next_used 0 (release xs z ys) None = next_used 0 (xs @ (False, z) # ys) None"
proof -
  obtain z' ys' where r: "join_right z ys = (z', ys')" by fastforce
  have t: "tags m 0 (xs @ (False, z') # ys') None None \<and>
      next_used 0 (xs @ (False, z') # ys') None = next_used 0 (xs @ (False, z) # ys) None"
    using r assms tags_merge [of m 0 xs z _ _ None None]
    by (auto simp: join_right_def split: list.splits prod.splits bool.splits)
  have "tags m 0 (join_left xs z' @ ys') None None \<and>
      next_used 0 (join_left xs z' @ ys') None = next_used 0 (xs @ (False, z') # ys') None"
  proof (cases "xs \<noteq> [] \<and> \<not> fst (last xs)")
    case True
    then obtain us x where xs: "xs = us @ [(False, x)]" by (cases xs rule: rev_cases) (auto simp: prod_eq_iff)
    show ?thesis using t tags_merge [of m 0 us x z' ys' None None] by (simp add: xs join_left_def)
  next
    case False
    then show ?thesis using t by (auto simp: join_left_def)
  qed
  then show "tags m 0 (release xs z ys) None None"
    "next_used 0 (release xs z ys) None = next_used 0 (xs @ (False, z) # ys) None"
    using t by (simp_all add: release_def r)
qed

lemma ba_deallocate_ok:
  assumes rep: "ba_rep s (xs @ (True, z) # ys)" and inside: "32 < z \<or> ys \<noteq> []"
  shows "\<exists>s'. ba_deallocate s (Some (int (span xs + 32))) = (Inr (), s') \<and> ba_rep s' (release xs z ys) \<and>
    ba_space s' = ba_space s \<and> ba_fit s' = ba_fit s \<and>
    (\<forall>i \<le> z. ba_mem s' (span xs + i) = ba_mem s (span xs + i))"
proof -
  let ?t = "span xs" and ?prev = "last_used 0 xs None" and ?next = "next_used (span xs + z) ys None"
  have h: "tags (ba_mem s) 0 xs None (Some (?t + 32))" "32 \<le> z" "ba_mem s ?t = Some (Size (of_nat (z - 32)))"
      "ba_mem s (?t + 8) = Some Owner" "ba_mem s (?t + 16) = Some (Link ?prev)" "ba_mem s (?t + 24) = Some (Link ?next)"
      "tags (ba_mem s) (?t + z) ys (Some (?t + 32)) None" "ba_head s = next_used 0 xs (Some (?t + 32))"
    using rep by (simp_all add: ba_rep_def tags_append)
  have sp: "?t + z + span ys = unat (ba_space s)" "unat (ba_space s) + 84 < 2 ^ 64"
      "free_sum xs + free_sum ys = unat (ba_avail s)" "coalesced (xs @ (True, z) # ys)"
    using rep by (simp_all add: ba_rep_def)
  have z: "unat (of_nat (z - 32) :: 64 word) = z - 32" by (rule unat_of_nat_small) (use sp in simp)
  define s1 where "s1 = (if ?prev = None then s\<lparr>ba_head := ?next\<rparr> else ba_link s ?prev ?next)"
  have s1: "ba_mem s1 = ba_mem (ba_link s ?prev ?next)" "ba_avail s1 = ba_avail s" "ba_space s1 = ba_space s"
      "ba_fit s1 = ba_fit s" "ba_head s1 = (if ?prev = None then ?next else ba_head s)"
    by (auto simp: s1_def ba_link_def)
  define s2 where "s2 = ba_link_back s1 ?next ?prev"
  have m2: "ba_mem s2 = ba_mem (ba_link_back (ba_link s ?prev ?next) ?next ?prev)"
    by (simp add: s2_def ba_link_back_def s1 split: option.split)
  have s2: "ba_avail s2 = ba_avail s" "ba_space s2 = ba_space s" "ba_fit s2 = ba_fit s" "ba_head s2 = ba_head s1"
    by (simp_all add: s2_def s1)
  note k = relink_both [OF h(1,7) _ refl refl, where n' = ?next and p' = ?prev, folded m2]
  let ?s = "s2\<lparr>ba_avail := ba_avail s2 + (ba_block_meta_size + of_nat (z - 32))\<rparr>"
  have p: "?t + 32 < unat (ba_space s)"
  proof (cases ys)
    case (Cons b bs)
    then have "0 < span ys" using h(7) by (cases b) (auto split: if_splits)
    then show ?thesis using sp(1) h(2) by simp
  qed (use inside sp(1) in simp)
  have "ba_deallocate s (Some (int (?t + 32))) = (Inr (), ?s)"
  proof -
    have "int (?t + 32) < int (unat (ba_space s))" using p by linarith
    moreover have "ba_data_size (ba_mem s) (?t + 32) = Some (of_nat (z - 32))"
        "ba_prev (ba_mem s) (?t + 32) = Some ?prev" "ba_next (ba_mem s) (?t + 32) = Some ?next"
      using h by (simp_all add: ba_data_size_def ba_prev_def ba_next_def add.commute)
    moreover have "ba_mem s (?t + 32 - 24) = Some Owner" using h(4) by (simp add: add.commute)
    ultimately show ?thesis
      unfolding ba_deallocate_def option.case Let_def nat_int s2_def s1_def by simp
  qed
  moreover have "ba_rep ?s (release xs z ys)"
  proof -
    have t: "tags (ba_mem s2) 0 (xs @ (False, z) # ys) None None" using k(1,2) h(2) by (simp add: tags_append)
    note t' = tags_release [OF t]
    have "ba_head s2 = next_used 0 (xs @ (False, z) # ys) None"
    proof (cases ?prev)
      case None
      then show ?thesis using none_used(1) [of 0 xs] by (simp add: s2 s1)
    next
      case (Some q)
      then have same: "next_used 0 xs n = next_used 0 xs None" for n
        by (cases "next_used 0 xs None") (use none_used(2) [of 0 xs None] next_used_Some [of 0 xs] none_used(1) [of 0] in fastforce)+
      show ?thesis using Some h(8) same [of "Some (?t + 32)"] same [of ?next] by (simp add: s2 s1)
    qed
    moreover have "unat (ba_avail s + (ba_block_meta_size + of_nat (z - 32))) = free_sum xs + z + free_sum ys"
    proof -
      have "ba_block_meta_size + of_nat (z - 32) = (of_nat z :: 64 word)"
        using h(2) by (simp add: ba_block_meta_size_def of_nat_diff)
      moreover have "free_sum xs + z + free_sum ys \<le> unat (ba_space s)"
        using sp(1) free_sum_le [of xs] free_sum_le [of ys] by simp
      ultimately show ?thesis using sp(2,3) by (simp add: unat_word_ariths unat_of_nat)
    qed
    moreover have "span (release xs z ys) = unat (ba_space s)"
      using sp(1) span_join_right [of z ys] by (simp add: release_def span_join_left)
    ultimately show ?thesis
      using t' coalesced_release [OF sp(4)] sp(2) by (simp add: ba_rep_def s2 free_sum_release)
  qed
  moreover have "\<forall>i \<le> z. ba_mem ?s (?t + i) = ba_mem s (?t + i)" using k(3) by simp
  ultimately show ?thesis using s2 by auto
qed

text \<open>The header of a block that was given back is still there: it can be given back again.\<close>

lemma ba_deallocate_again:
  assumes rep: "ba_rep s (xs @ (True, z) # ys)" and inside: "32 < z \<or> ys \<noteq> []"
  shows "\<exists>s' s''. ba_deallocate s (Some (int (span xs + 32))) = (Inr (), s') \<and> ba_rep s' (release xs z ys) \<and>
    ba_deallocate s' (Some (int (span xs + 32))) = (Inr (), s'') \<and> ba_avail s'' = ba_avail s' + of_nat z"
proof -
  let ?t = "span xs" and ?prev = "last_used 0 xs None" and ?next = "next_used (span xs + z) ys None"
  obtain s' where s': "ba_deallocate s (Some (int (?t + 32))) = (Inr (), s')" "ba_rep s' (release xs z ys)"
      "ba_space s' = ba_space s" "\<And>i. i \<le> z \<Longrightarrow> ba_mem s' (?t + i) = ba_mem s (?t + i)"
    using ba_deallocate_ok [OF assms] by blast
  have h: "32 \<le> z" "ba_mem s ?t = Some (Size (of_nat (z - 32)))" "ba_mem s (?t + 8) = Some Owner"
      "ba_mem s (?t + 16) = Some (Link ?prev)" "ba_mem s (?t + 24) = Some (Link ?next)" "tags (ba_mem s) (?t + z) ys (Some (?t + 32)) None"
    using rep by (simp_all add: ba_rep_def tags_append)
  have "ba_mem s' ?t = Some (Size (of_nat (z - 32)))" "ba_mem s' (?t + 8) = Some Owner"
      "ba_mem s' (?t + 16) = Some (Link ?prev)" "ba_mem s' (?t + 24) = Some (Link ?next)"
    using h s'(4) [of 0] s'(4) [of 8] s'(4) [of 16] s'(4) [of 24] by simp_all
  then have "ba_data_size (ba_mem s') (?t + 32) = Some (of_nat (z - 32))" "ba_mem s' (?t + 32 - 24) = Some Owner"
      "ba_prev (ba_mem s') (?t + 32) = Some ?prev" "ba_next (ba_mem s') (?t + 32) = Some ?next"
    by (simp_all add: ba_data_size_def ba_prev_def ba_next_def add.commute)
  moreover have "int (?t + 32) < int (unat (ba_space s))"
  proof -
    have "?t + z + span ys = unat (ba_space s)" using rep by (simp add: ba_rep_def)
    moreover have "ys \<noteq> [] \<Longrightarrow> 0 < span ys" using h(6) by (cases ys) (auto split: if_splits)
    ultimately have "?t + 32 < unat (ba_space s)" using inside h(1) by (cases "ys = []") auto
    then show ?thesis by linarith
  qed
  moreover have "ba_block_meta_size + of_nat (z - 32) = (of_nat z :: 64 word)"
    using h(1) by (simp add: ba_block_meta_size_def of_nat_diff)
  ultimately have "\<exists>s''. ba_deallocate s' (Some (int (?t + 32))) = (Inr (), s'') \<and> ba_avail s'' = ba_avail s' + of_nat z"
    unfolding ba_deallocate_def option.case Let_def nat_int by (simp add: s'(3))
  then show ?thesis using s'(1,2) by blast
qed

lemma ba_deallocate_outside:
  "p < 0 \<or> int (unat (ba_space s)) \<le> p \<Longrightarrow>
   ba_deallocate s (Some p) = (Inl (Al_logic_error ''try of deallocation non-related memory''), s)"
  by (simp add: ba_deallocate_def)

section \<open>The list of blocks, the bytes of the user, the constructor\<close>

lemma of_nat_small_0: "n < 2 ^ 64 \<Longrightarrow> (of_nat n :: 64 word) = 0 \<longleftrightarrow> n = 0"
  by (simp only: unat_eq_0 [symmetric] unat_of_nat_small)

lemma ba_blocks_from_ok:
  assumes t: "tags (ba_mem s) a us p None" and sp: "a + span us = unat (ba_space s)" "unat (ba_space s) + 84 < 2 ^ 64"
    and u: "us = [] \<or> fst (hd us)" "coalesced us" "span us < fuel"
  shows "ba_blocks_from fuel s (next_used a us None) = Some (map (\<lambda>(u, z). (of_nat z, u)) us)"
  using assms
proof (induction fuel arbitrary: a us p)
  case (Suc fuel)
  show ?case
  proof (cases us)
    case (Cons b ys)
    obtain z where b: "b = (True, z)" using Suc.prems(4) by (cases b) (auto simp: Cons)
    have h: "32 \<le> z" "ba_mem s a = Some (Size (of_nat (z - 32)))" "ba_mem s (a + 24) = Some (Link (next_used (a + z) ys None))"
        "tags (ba_mem s) (a + z) ys (Some (a + 32)) None"
      using Suc.prems(1) by (simp_all add: Cons b)
    have "coalesced ys" using Suc.prems(5) by (cases ys) (auto simp: Cons b)
    then obtain g vs where g: "ys = gap g @ vs" "vs = [] \<or> fst (hd vs)" using gap_split [OF _ h(4)] by blast
    have total: "a + z + g + span vs = unat (ba_space s)" using Suc.prems(2) by (simp add: Cons b g(1))
    have "unat (of_nat (z - 32) :: 64 word) = z - 32" by (rule unat_of_nat_small) (use total Suc.prems(3) in simp)
    then have l: "a + 32 + unat (of_nat (z - 32) :: 64 word) = a + z" using h(1) by simp
    have sz: "of_nat (ba_border s (next_used (a + z) ys None)) - of_nat (a + z) = (of_nat g :: 64 word)"
      using ba_gap_word [of vs "a + z" g s] g(2) total Suc.prems(3) unfolding g(1) by simp
    have g0: "(of_nat g :: 64 word) \<noteq> 0 \<longleftrightarrow> g \<noteq> 0"
      using of_nat_small_0 [of g] total Suc.prems(3) by linarith
    have IH: "ba_blocks_from fuel s (next_used (a + z) ys None) = Some (map (\<lambda>(u, z). (of_nat z, u)) vs)"
    proof -
      have "coalesced vs" using \<open>coalesced ys\<close> by (auto simp: g(1) coalesced_append)
      then have "ba_blocks_from fuel s (next_used (a + z + g) vs None) = Some (map (\<lambda>(u, z). (of_nat z, u)) vs)"
        using Suc.IH [of "a + z + g" vs "Some (a + 32)"] Suc.prems(2-6) h(1,4) g(2) total by (simp add: Cons b g(1) tags_append)
      then show ?thesis by (simp add: g(1))
    qed
    have "next_used a us None = Some (a + 32)" by (simp add: Cons b)
    moreover have "ba_next (ba_mem s) (a + 32) = Some (next_used (a + z) ys None)"
        "ba_data_size (ba_mem s) (a + 32) = Some (of_nat (z - 32))"
      using h(2,3) by (simp_all add: ba_next_def ba_data_size_def add.commute)
    moreover have "ba_block_meta_size + of_nat (z - 32) = (of_nat z :: 64 word)"
      using h(1) by (simp add: ba_block_meta_size_def of_nat_diff)
    ultimately have "ba_blocks_from (Suc fuel) s (next_used a us None) =
        Some ((of_nat z, True) # (if g \<noteq> 0 then [(of_nat g, False)] else []) @ map (\<lambda>(u, z). (of_nat z, u)) vs)"
      by (simp only: ba_blocks_from.simps(2) option.case prod.case Let_def l sz g0 IH option.map)
    then show ?thesis by (simp add: Cons b g(1) gap_def)
  qed simp
qed simp

lemma ba_blocks_info_ok: 
  assumes "ba_rep s bs"
  shows "ba_create_blocks_info s = Some (map (\<lambda>(u, z). (of_nat z, u)) bs)"
proof -
  have h: "tags (ba_mem s) 0 bs None None" "ba_head s = next_used 0 bs None" "span bs = unat (ba_space s)"
      "coalesced bs" "unat (ba_space s) + 84 < 2 ^ 64"
    using assms by (auto simp: ba_rep_def)
  obtain g us where g: "bs = gap g @ us" "us = [] \<or> fst (hd us)" using gap_split [OF h(4,1)] by blast
  have border: "ba_border s (ba_head s) = g" using ba_border_ok [of us g s] g(2) h(2,3) by (simp add: g(1))
  have g0: "(of_nat g :: 64 word) \<noteq> 0 \<longleftrightarrow> g \<noteq> 0"
    using of_nat_small_0 [of g] h(3,5) by (simp only: g(1)) simp
  have "coalesced us" using h(4) by (auto simp: g(1) coalesced_append)
  then have "ba_blocks_from (Suc (Suc (unat (ba_space s)))) s (next_used g us None) = Some (map (\<lambda>(u, z). (of_nat z, u)) us)"
    using ba_blocks_from_ok [of s g us None] h g by (simp add: tags_append del: ba_blocks_from.simps)
  then have "ba_create_blocks_info s =
      Some ((if g \<noteq> 0 then [(of_nat g, False)] else []) @ map (\<lambda>(u, z). (of_nat z, u)) us)"
    unfolding ba_create_blocks_info_def Let_def border g0 by (simp add: h(2) g(1) del: ba_blocks_from.simps)
  then show ?thesis by (simp add: g(1) gap_def)
qed

lemma ba_scribble_ok:
  assumes rep: "ba_rep s (xs @ (True, z) # ys)" and k: "i + k \<le> z - 32"
  shows "ba_rep (s\<lparr>ba_mem := scribble (ba_mem s) (span xs + 32 + i) k\<rparr>) (xs @ (True, z) # ys)"
proof -
  let ?m = "scribble (ba_mem s) (span xs + 32 + i) k"
  have z: "32 \<le> z" using rep by (simp add: ba_rep_def tags_append)
  have o: "?m b = ba_mem s b" if "b + 8 \<le> span xs + 32 \<or> span xs + z \<le> b" for b
    using that k z by (intro scribble_other) auto
  have "tags ?m 0 xs p n = tags (ba_mem s) 0 xs p n" for p n by (rule tags_frame) (simp add: o)
  moreover have "tags ?m (span xs + z) ys p n = tags (ba_mem s) (span xs + z) ys p n" for p n
    by (rule tags_frame) (simp add: o)
  ultimately show ?thesis
    using rep o [of "span xs"] o [of "span xs + 8"] o [of "span xs + 16"] o [of "span xs + 24"]
    by (simp add: ba_rep_def tags_append)
qed

lemma ba_new_ok:
  assumes "ba_new grants has_logger n mode = Inr s"
  shows "ba_rep s [(False, unat n)] \<and> ba_space s = n \<and> ba_fit s = mode"
proof -
  have n: "32 \<le> n" "\<not> n + 84 < n" and s: "s = \<lparr>ba_space = n, ba_avail = n, ba_head = None, ba_fit = mode, ba_mem = Map.empty\<rparr>"
    using assms by (auto simp: ba_new_def ba_block_meta_size_def ba_meta_size_def split: if_splits)
  have "32 \<le> unat n" using n(1) by (simp add: word_le_nat_alt)
  then show ?thesis using fits_word [OF n(2)] by (simp add: ba_rep_def s)
qed

section \<open>The contract of an allocator\<close>

definition ba_start :: "ba \<Rightarrow> bool" where
  "ba_start s \<longleftrightarrow> (\<exists>grants has_logger n mode. ba_new grants has_logger n mode = Inr s)"

definition ba_store :: "ba \<Rightarrow> nat \<Rightarrow> nat \<Rightarrow> ba" where
  "ba_store s a n = s\<lparr>ba_mem := scribble (ba_mem s) a n\<rparr>"

lemma ba_deallocate_contract:
  assumes rep: "ba_rep s (xs @ (True, z) # ys)"
  shows "ba_rep (snd (ba_deallocate s (Some (int (span xs + 32))))) (release xs z ys) \<or>
    snd (ba_deallocate s (Some (int (span xs + 32)))) = s"
proof (cases "32 < z \<or> ys \<noteq> []")
  case True
  then show ?thesis using ba_deallocate_ok [OF rep] by auto
next
  case False
  then have "unat (ba_space s) \<le> span xs + 32" using rep by (simp add: ba_rep_def)
  then have "int (unat (ba_space s)) \<le> int (span xs + 32)" by linarith
  then show ?thesis using ba_deallocate_outside [of "int (span xs + 32)" s] by simp
qed

lemma tags_used: "tags m a bs p n \<Longrightarrow> (True, z) \<in> set bs \<Longrightarrow> 32 \<le> z"
  by (induction m a bs p n rule: tags.induct) (auto split: if_splits)

interpretation ba_contract: block_allocator 32 ba_rep ba_start ba_allocate ba_deallocate ba_store ba_create_blocks_info ba_set_fit_mode
proof (unfold_locales, goal_cases)
  case (1 s)
  then show ?case using ba_new_ok unfolding ba_start_def by blast
next
  case (2 s bs)
  then show ?case by (simp add: ba_rep_def)
next
  case (3 s bs z)
  then show ?case using tags_used unfolding ba_rep_def by blast
next
  case (4 s bs)
  then show ?case by (simp add: ba_rep_def)
next
  case (5 s bs)
  then show ?case using ba_blocks_info_ok [of s bs] by (simp add: block_info_def)
next
  case (6 s bs value_size values_count)
  then show ?case using ba_allocate_ok [OF 6] unfolding fits_def by blast
next
  case (7 s xs z ys)
  then show ?case by (rule ba_deallocate_contract)
next
  case (8 s xs z ys i j)
  then show ?case unfolding ba_store_def by (rule ba_scribble_ok)
next
  case (9 s bs mode)
  then show ?case by (simp add: ba_rep_def ba_set_fit_mode_def)
qed

end
