(* ===== verification/Buddies_System_Allocator.thy ===== *)
theory Buddies_System_Allocator
  imports Arena Collection
begin

unbundle bit_operations_syntax

text \<open>
  \<open>allocator_buddies_system.cpp\<close>: the memory is halved again and again, each block has a power of two of
  bytes. The first byte of a block is its tag, the exponent and, in the top bit, whether the block is in
  use. A block in use has behind it the address of the allocator; a free one the pointers to the
  free blocks before and behind it. The mutex and the messages with the lists of blocks are left
  out, but not the dump of the block that is given back.
\<close>

section \<open>State\<close>

text \<open>The bytes that are tags beside the words of the arena; a write of one makes the other indeterminate.\<close>

record bs =
  bs_power :: "8 word"
  bs_avail :: "64 word"
  bs_head :: "nat option"
  bs_fit :: fit_mode
  bs_tags :: "nat \<Rightarrow> 8 word option"
  bs_mem :: arena

definition put_tag :: "nat \<Rightarrow> 8 word \<Rightarrow> bs \<Rightarrow> bs" where
  "put_tag a t s = s\<lparr>bs_tags := (bs_tags s)(a \<mapsto> t), bs_mem := scribble (bs_mem s) a 1\<rparr>"

definition put_word :: "nat \<Rightarrow> arena_cell \<Rightarrow> bs \<Rightarrow> bs" where
  "put_word a c s = s\<lparr>bs_tags := (\<lambda>b. if a \<le> b \<and> b < a + 8 then None else bs_tags s b), bs_mem := put (bs_mem s) a c\<rparr>"

text \<open>Any bytes that the user writes at \<open>a\<close>, \<open>n\<close> of them.\<close>

definition bs_store :: "bs \<Rightarrow> nat \<Rightarrow> nat \<Rightarrow> bs" where
  "bs_store s a n =
     s\<lparr>bs_tags := (\<lambda>b. if a \<le> b \<and> b < a + n then None else bs_tags s b), bs_mem := scribble (bs_mem s) a n\<rparr>"

definition bs_meta_size :: "64 word" where "bs_meta_size = 77"
definition bs_block_meta_size :: "64 word" where "bs_block_meta_size = 17"
definition bs_occupied_meta_size :: nat where "bs_occupied_meta_size = 9"

text \<open>\<open>1 << k\<close> for an \<open>int\<close>; from 31 on the value is no longer a positive \<open>int\<close>, which is taken as undefined.\<close>

definition int_shift :: "nat \<Rightarrow> nat option" where
  "int_shift k = (if k < 31 then Some (2 ^ k) else None)"

section \<open>The fields of a block\<close>

definition block_is_occupied :: "bs \<Rightarrow> nat \<Rightarrow> bool option" where
  "block_is_occupied s a = map_option (\<lambda>t. drop_bit 7 t \<noteq> 0) (bs_tags s a)"

definition get_block_data_size :: "bs \<Rightarrow> nat \<Rightarrow> nat option" where
  "get_block_data_size s a = map_option (\<lambda>t. unat (t AND 127)) (bs_tags s a)"

definition occupy_block :: "nat \<Rightarrow> bs \<Rightarrow> bs option" where
  "occupy_block a s = map_option (\<lambda>t. put_tag a (t OR 128) s) (bs_tags s a)"

definition avail_block :: "nat \<Rightarrow> bs \<Rightarrow> bs option" where
  "avail_block a s = map_option (\<lambda>t. put_tag a (t AND NOT 128) s) (bs_tags s a)"

definition set_block_size :: "nat \<Rightarrow> nat \<Rightarrow> bs \<Rightarrow> bs" where
  "set_block_size a k s = put_tag a (of_nat k) s"

definition get_next_available :: "bs \<Rightarrow> nat \<Rightarrow> nat option option" where
  "get_next_available s a = get_link (bs_mem s) (a + 9)"

definition get_prev_available :: "bs \<Rightarrow> nat \<Rightarrow> nat option option" where
  "get_prev_available s a = get_link (bs_mem s) (a + 1)"

definition set_next_available :: "nat \<Rightarrow> nat option \<Rightarrow> bs \<Rightarrow> bs" where
  "set_next_available a p s = put_word (a + 9) (Link p) s"

definition set_prev_available :: "nat \<Rightarrow> nat option \<Rightarrow> bs \<Rightarrow> bs" where
  "set_prev_available a p s = put_word (a + 1) (Link p) s"

definition get_buddy :: "bs \<Rightarrow> nat \<Rightarrow> nat option" where
  "get_buddy s a = do { k \<leftarrow> get_block_data_size s a; d \<leftarrow> int_shift k; Some (a XOR d) }"

definition belong_trusted_memory :: "bs \<Rightarrow> nat \<Rightarrow> bool option" where
  "belong_trusted_memory s a = map_option (\<lambda>z. a < z) (int_shift (unat (bs_power s)))"

text \<open>
  \<open>ceil(log2(size))\<close>, exact; the logarithm of zero is minus infinity, and its conversion is undefined. (For
  sizes above \<open>2 ^ 47\<close> the rounding of \<open>log2\<close> may give one less.)
\<close>

fun ceil_log2 :: "nat \<Rightarrow> nat" where
  "ceil_log2 n = (if n \<le> 1 then 0 else Suc (ceil_log2 ((n + 1) div 2)))"

declare ceil_log2.simps [simp del]

definition get_power_of_size :: "64 word \<Rightarrow> nat option" where
  "get_power_of_size n = (if n = 0 then None else Some (ceil_log2 (unat n)))"

section \<open>The constructor\<close>

definition bs_new :: "(64 word \<Rightarrow> bool) \<Rightarrow> 64 word \<Rightarrow> fit_mode \<Rightarrow> alloc_exn + bs" where
  "bs_new grants space_size mode =
     (if 64 \<le> space_size then Inl Al_undefined
      else
        let memory_size = push_bit (unat space_size) 1 in
        if memory_size < bs_block_meta_size then Inl (Al_logic_error ''Cannot initialize allocator'')
        else if \<not> grants (memory_size + bs_meta_size) then Inl Al_bad_alloc
        else
          let s = \<lparr>bs_power = ucast space_size, bs_avail = memory_size, bs_head = Some 0, bs_fit = mode,
                bs_tags = Map.empty, bs_mem = Map.empty\<rparr> in
          (case avail_block 0 (put_tag 0 (ucast space_size) s) of
             None \<Rightarrow> Inl Al_undefined
           | Some s1 \<Rightarrow> Inr (set_next_available 0 None (set_prev_available 0 None s1))))"

section \<open>Allocation\<close>

text \<open>
  The loop over the free blocks. \<open>size - power\<close> is an \<open>int\<close>, which the comparison converts to \<open>size_t\<close>. \<open>None\<close> is a
  read of a word that is no pointer or of no tag, or the end of the fuel.
\<close>

fun bs_search ::
  "nat \<Rightarrow> bs \<Rightarrow> nat \<Rightarrow> nat \<Rightarrow> nat option \<Rightarrow> nat option \<Rightarrow> nat option \<Rightarrow> (nat \<times> 64 word) option
    \<Rightarrow> (nat option \<times> (nat \<times> 64 word) option) option" where
  "bs_search 0 s alloc_power req_power cur previous prev target = None"
| "bs_search (Suc fuel) s alloc_power req_power cur previous prev target =
     (case cur of
        None \<Rightarrow> Some (prev, target)
      | Some c \<Rightarrow>
          if bs_fit s = First_fit \<and> target \<noteq> None then Some (prev, target)
          else
            (case get_block_data_size s c of
               None \<Rightarrow> None
             | Some sz \<Rightarrow>
                 (case get_next_available s c of
                    None \<Rightarrow> None
                  | Some next \<Rightarrow>
                      if alloc_power \<le> sz \<and>
                         (case target of
                            None \<Rightarrow> True
                          | Some (_, chosen_size) \<Rightarrow>
                              bs_fit s = The_best_fit \<and>
                                of_nat sz - of_nat req_power < chosen_size - of_nat req_power \<or>
                              bs_fit s = The_worst_fit \<and>
                                chosen_size - of_nat req_power < of_nat sz - of_nat req_power)
                      then bs_search fuel s alloc_power req_power next (Some c) previous (Some (c, of_nat sz))
                      else bs_search fuel s alloc_power req_power next (Some c) prev target)))"

text \<open>One round of the splitting: \<open>k\<close> is the new exponent of both halves.\<close>

definition bs_halve :: "bs \<Rightarrow> nat \<Rightarrow> nat \<Rightarrow> bs option" where
  "bs_halve s target k = do {
     let s1 = set_block_size target k s;
     buddy \<leftarrow> get_buddy s1 target;
     s2 \<leftarrow> avail_block buddy (set_block_size buddy k s1);
     next \<leftarrow> get_next_available s2 target;
     let s3 = set_next_available target (Some buddy) (set_next_available buddy next s2);
     behind \<leftarrow> get_next_available s3 buddy;
     Some (case behind of
         Some b \<Rightarrow> set_prev_available b (Some buddy) s3
       | None \<Rightarrow> set_prev_available buddy (Some target) s3)
   }"

text \<open>The loop \<open>while (((1 << target_size) >> 1) >= (1 << power))\<close>; with \<open>target_size = 0\<close> the left side is 0.\<close>

fun bs_split :: "nat \<Rightarrow> nat \<Rightarrow> nat \<Rightarrow> bs \<Rightarrow> (nat \<times> bs) option" where
  "bs_split 0 alloc_power target s = Option.bind (int_shift alloc_power) (\<lambda>_. Some (0, s))"
| "bs_split (Suc k) alloc_power target s = do {
     z \<leftarrow> int_shift (Suc k);
     need \<leftarrow> int_shift alloc_power;
     if need \<le> z div 2 then Option.bind (bs_halve s target k) (bs_split k alloc_power target)
     else Some (Suc k, s)
   }"

text \<open>The target leaves the list. The pointer of the block behind it is written without a test for null.\<close>

definition bs_take :: "bs \<Rightarrow> nat option \<Rightarrow> nat \<Rightarrow> nat \<Rightarrow> bs option" where
  "bs_take s prev target chosen_size = do {
     s1 \<leftarrow> occupy_block target s;
     let s2 = put_word (target + 1) Owner s1;
     next \<leftarrow> get_next_available s2 target;
     let s3 = (case prev of None \<Rightarrow> s2 | Some p \<Rightarrow> set_next_available p next s2);
     let s4 = (if bs_head s3 = Some target then s3\<lparr>bs_head := next\<rparr> else s3);
     n \<leftarrow> next;
     z \<leftarrow> int_shift chosen_size;
     let s5 = set_prev_available n prev s4;
     Some (s5\<lparr>bs_avail := bs_avail s5 - of_nat z\<rparr>)
   }"

definition bs_allocate :: "bs \<Rightarrow> 64 word \<Rightarrow> 64 word \<Rightarrow> (alloc_exn + nat) \<times> bs" where
  "bs_allocate s value_size values_count =
     (let requested_size = value_size * values_count in
      case do {
        alloc_power \<leftarrow> get_power_of_size (requested_size + bs_block_meta_size);
        req_power \<leftarrow> get_power_of_size requested_size;
        first \<leftarrow> (case bs_head s of
            None \<Rightarrow> Some None
          | Some c \<Rightarrow> map_option (\<lambda>z. if alloc_power \<le> z then Some (c, of_nat z) else None) (get_block_data_size s c));
        r \<leftarrow> bs_search (Suc (Suc (2 ^ unat (bs_power s)))) s alloc_power req_power (bs_head s) None None first;
        Some (alloc_power, r) } of
        None \<Rightarrow> (Inl Al_undefined, s)
      | Some (alloc_power, prev, None) \<Rightarrow> (Inl Al_bad_alloc, s)
      | Some (alloc_power, prev, Some (target, chosen_size)) \<Rightarrow>
          (case Option.bind (bs_split (unat chosen_size) alloc_power target s) (\<lambda>(k, s1). bs_take s1 prev target k) of
             None \<Rightarrow> (Inl Al_undefined, s)
           | Some s' \<Rightarrow> (Inr (target + bs_occupied_meta_size), s')))"

section \<open>Deallocation\<close>

text \<open>One round of the loop that should merge buddies: the block at hand, \<open>curr_size\<close>, and the state.\<close>

definition bs_merge_step :: "nat \<Rightarrow> nat \<Rightarrow> 64 word \<Rightarrow> bs \<Rightarrow> (nat \<times> 64 word \<times> bs) option" where
  "bs_merge_step buddy temp curr_size s = do {
     s1 \<leftarrow> avail_block temp s;
     next_block \<leftarrow> get_next_available s1 buddy;
     prev_block \<leftarrow> get_prev_available s1 buddy;
     let s2 = set_next_available temp next_block s1;
     let s3 = (case next_block of None \<Rightarrow> s2 | Some n \<Rightarrow> set_prev_available n (Some temp) s2);
     let s4 = set_prev_available temp prev_block s3;
     let s5 = (case prev_block of None \<Rightarrow> s4 | Some p \<Rightarrow> set_next_available p (Some temp) s4);
     t \<leftarrow> bs_tags s5 temp;
     temp' \<leftarrow> (if ucast t AND curr_size \<noteq> 0 then get_buddy s5 temp else Some temp);
     k \<leftarrow> get_block_data_size s5 temp';
     Some (temp', of_nat (k + 1), set_block_size temp' (k + 1) s5)
   }"

text \<open>\<open>curr_size\<close> starts with 0. The end of the fuel is a loop that does not end.\<close>

fun bs_merge :: "nat \<Rightarrow> nat \<Rightarrow> nat \<Rightarrow> 64 word \<Rightarrow> bs \<Rightarrow> bs option" where
  "bs_merge 0 buddy temp curr_size s = None"
| "bs_merge (Suc fuel) buddy temp curr_size s = do {
     occ \<leftarrow> block_is_occupied s buddy;
     z \<leftarrow> get_block_data_size s buddy;
     if \<not> occ \<and> curr_size \<noteq> ucast (bs_power s) \<and> curr_size = of_nat z
     then Option.bind (bs_merge_step buddy temp curr_size s) (\<lambda>(t, c, s'). bs_merge fuel buddy t c s')
     else Some s
   }"

text \<open>
  The argument is the offset of the pointer, \<open>None\<close> the null pointer. The dump reads the same byte, seventeen
  behind the block's start, again and again.
\<close>

definition bs_deallocate :: "bs \<Rightarrow> int option \<Rightarrow> (alloc_exn + unit) \<times> bs" where
  "bs_deallocate s at_ptr =
     (case at_ptr of
        None \<Rightarrow> (Inr (), s)
      | Some p \<Rightarrow>
          if p < int bs_occupied_meta_size then (Inl Al_undefined, s)
          else
            let at = nat p - bs_occupied_meta_size in
            (case bs_mem s (at + 1) of
               None \<Rightarrow> (Inl Al_undefined, s)
             | Some (Size _) \<Rightarrow> (Inl (Al_logic_error ''trying to deallocate non-related memory''), s)
             | Some (Link _) \<Rightarrow> (Inl (Al_logic_error ''trying to deallocate non-related memory''), s)
             | Some Owner \<Rightarrow>
                 (case belong_trusted_memory s at of
                    None \<Rightarrow> (Inl Al_undefined, s)
                  | Some False \<Rightarrow> (Inl (Al_logic_error ''trying to deallocate non-related memory''), s)
                  | Some True \<Rightarrow>
                      (case do {
                         buddy \<leftarrow> get_buddy s at;
                         k \<leftarrow> get_block_data_size s at;
                         exempted_size \<leftarrow> int_shift k;
                         occ \<leftarrow> block_is_occupied s buddy;
                         s1 \<leftarrow> (if occ then avail_block at s else Some s);
                         s2 \<leftarrow> bs_merge 256 buddy at 0 s1;
                         Some (s2\<lparr>bs_avail := bs_avail s2 + of_nat exempted_size\<rparr>) } of
                         None \<Rightarrow> (Inl Al_undefined, s)
                       | Some s' \<Rightarrow>
                           if belong_trusted_memory s (at + 17) = Some True then (Inr (), s') else (Inl Al_undefined, s')))))"

section \<open>The rest\<close>

definition bs_set_fit_mode :: "bs \<Rightarrow> fit_mode \<Rightarrow> bs" where
  "bs_set_fit_mode s mode = s\<lparr>bs_fit := mode\<rparr>"

fun bs_blocks_from :: "nat \<Rightarrow> bs \<Rightarrow> nat \<Rightarrow> (64 word \<times> bool) list option" where
  "bs_blocks_from 0 s cur = None"
| "bs_blocks_from (Suc fuel) s cur = do {
     inside \<leftarrow> belong_trusted_memory s cur;
     if inside then do {
       occ \<leftarrow> block_is_occupied s cur;
       k \<leftarrow> get_block_data_size s cur;
       z \<leftarrow> int_shift k;
       map_option (\<lambda>bs. (of_nat z, occ) # bs) (bs_blocks_from fuel s (cur + z))
     }
     else Some []
   }"

definition bs_create_blocks_info :: "bs \<Rightarrow> (64 word \<times> bool) list option" where
  "bs_create_blocks_info s = bs_blocks_from (Suc (2 ^ unat (bs_power s))) s 0"

text \<open>
  The object holds the pointer to its memory; \<open>None\<close> is the null pointer that a move leaves. The
  destructor and both moves ask for the logger behind that pointer.
\<close>

type_synonym bs_object = "bs option"

definition bs_destroy :: "bs_object \<Rightarrow> alloc_exn + unit" where
  "bs_destroy obj = (case obj of None \<Rightarrow> Inl Al_undefined | Some _ \<Rightarrow> Inr ())"

definition bs_move_construct :: "bs_object \<Rightarrow> alloc_exn + (bs_object \<times> bs_object)" where
  "bs_move_construct other = (case other of None \<Rightarrow> Inl Al_undefined | Some s \<Rightarrow> Inr (Some s, None))"

text \<open>The assignment to itself gives the object back.\<close>

definition bs_move_assign :: "bool \<Rightarrow> bs_object \<Rightarrow> bs_object \<Rightarrow> alloc_exn + (bs_object \<times> bs_object)" where
  "bs_move_assign same obj other =
     (case obj of
        None \<Rightarrow> Inl Al_undefined
      | Some _ \<Rightarrow>
          if same then Inr (obj, obj)
          else (case other of None \<Rightarrow> Inl Al_undefined | Some s \<Rightarrow> Inr (Some s, None)))"

end
