(* ===== verification/Buddies_System_Correct.thy ===== *)
theory Buddies_System_Correct
  imports Buddies_System_Allocator Allocator_Client
begin

text \<open>
  The buddies system against the list of blocks. A block counts as free when it is in the list of free
  blocks; a block that was given back is not, whatever its tag says.
\<close>

section \<open>Powers of two\<close>

lemma xor_low: "2 ^ Suc k dvd (a :: nat) \<Longrightarrow> a XOR 2 ^ k = a + 2 ^ k"
proof -
  assume a: "2 ^ Suc k dvd a"
  then have "take_bit (Suc k) a = 0" by (simp add: take_bit_eq_0_iff)
  then have "\<not> bit (take_bit (Suc k) a) k" by simp
  then have "\<not> bit a k" by (simp add: bit_take_bit_iff)
  then have "a AND 2 ^ k = 0" by (simp add: and_exp_eq_0_iff_not_bit)
  then show ?thesis by (simp add: disjunctive_add_eq_xor)
qed

lemma xor_high: "2 ^ Suc k dvd (a :: nat) \<Longrightarrow> (a + 2 ^ k) XOR 2 ^ k = a"
  using xor_low [of k a] by (simp add: xor.assoc flip: xor_low)

lemma ceil_log2_le: "n \<le> 2 ^ ceil_log2 n"
proof (induction n rule: ceil_log2.induct)
  case (1 n)
  show ?case
  proof (cases "n \<le> 1")
    case True
    then show ?thesis by (subst ceil_log2.simps) simp
  next
    case False
    then show ?thesis using 1 by (subst ceil_log2.simps) simp
  qed
qed

lemma ceil_log2_least: "n \<le> 2 ^ k \<Longrightarrow> ceil_log2 n \<le> k"
proof (induction n arbitrary: k rule: ceil_log2.induct)
  case (1 n)
  show ?case
  proof (cases "n \<le> 1")
    case True
    then show ?thesis by (subst ceil_log2.simps) simp
  next
    case False
    then obtain j where "k = Suc j" using 1(2) by (cases k) auto
    then have "(n + 1) div 2 \<le> 2 ^ j" using 1(2) by simp
    then show ?thesis using 1(1) False \<open>k = Suc j\<close> by (subst ceil_log2.simps) simp
  qed
qed

lemma ceil_log2_pow [simp]: "ceil_log2 (2 ^ k) = k"
proof (rule antisym)
  have "(2 :: nat) ^ k \<le> 2 ^ ceil_log2 (2 ^ k)" by (rule ceil_log2_le)
  then show "k \<le> ceil_log2 (2 ^ k)" by simp
qed (simp add: ceil_log2_least)

lemma ceil_log2_mono: "m \<le> n \<Longrightarrow> ceil_log2 m \<le> ceil_log2 n"
  using ceil_log2_least [of m "ceil_log2 n"] ceil_log2_le [of n] by simp

section \<open>Buddies\<close>

inductive buddies :: "nat \<Rightarrow> blocks \<Rightarrow> bool" where
  whole: "buddies k [(u, 2 ^ k)]"
| halves: "buddies k bs \<Longrightarrow> buddies k cs \<Longrightarrow> buddies (Suc k) (bs @ cs)"

lemma buddies_span: "buddies n bs \<Longrightarrow> span bs = 2 ^ n"
  by (induction rule: buddies.induct) simp_all

lemma buddies_pos: "buddies n bs \<Longrightarrow> (u, z) \<in> set bs \<Longrightarrow> \<exists>k \<le> n. z = 2 ^ k"
  by (induction rule: buddies.induct) (auto intro: le_SucI)

lemma buddies_not_Nil: "buddies n bs \<Longrightarrow> bs \<noteq> []"
  by (induction rule: buddies.induct) simp_all

lemma append_block:
  assumes "xs @ ys = us @ b # vs"
  obtains vs' where "xs = us @ b # vs'" "vs = vs' @ ys" | us' where "ys = us' @ b # vs" "us = xs @ us'"
proof -
  from assms consider ws where "xs = us @ ws" "ws @ ys = b # vs" | ws where "xs @ ws = us" "ys = ws @ b # vs"
    by (auto simp: append_eq_append_conv2)
  then show ?thesis
  proof cases
    case (1 ws)
    then show ?thesis using that by (cases ws) auto
  qed (use that in auto)
qed

text \<open>A block stands at a multiple of its size, and any buddies of this size may take its place.\<close>

lemma buddies_block:
  assumes "buddies n bs" "bs = xs @ (u, 2 ^ k) # ys"
  shows "2 ^ k dvd span xs \<and> (\<forall>cs. buddies k cs \<longrightarrow> buddies n (xs @ cs @ ys))"
  using assms
proof (induction arbitrary: xs ys rule: buddies.induct)
  case (whole n v)
  then have "xs = []" "ys = []" "k = n" by (auto simp: Cons_eq_append_conv)
  then show ?case by simp
next
  case (halves n bs cs)
  from halves.prems show ?case
  proof (cases rule: append_block)
    case (1 vs')
    then show ?thesis using halves.IH(1) [OF 1(1)] buddies.halves [OF _ halves.hyps(2)] by fastforce
  next
    case (2 us')
    have "k \<le> n" using buddies_pos [OF halves.hyps(2), of u "2 ^ k"] 2(1) by auto
    then have "2 ^ k dvd span bs" using buddies_span [OF halves.hyps(1)] by (simp add: le_imp_power_dvd)
    then show ?thesis using halves.IH(2) [OF 2(1)] buddies.halves [OF halves.hyps(1)] 2(2) by fastforce
  qed
qed

lemma buddies_full:
  assumes "buddies n bs" "bs = xs @ (u, 2 ^ n) # ys"
  shows "xs = [] \<and> ys = []"
proof -
  have s: "span xs = 0" "span ys = 0" using buddies_span [OF assms(1)] by (simp_all add: assms(2))
  have "\<forall>(v, z) \<in> set bs. 0 < z" using buddies_pos [OF assms(1)] by fastforce
  then show ?thesis using s by (cases xs; cases ys) (auto simp: assms(2))
qed

text \<open>Where the buddy of a block should be, a block starts.\<close>

lemma buddies_buddy:
  assumes "buddies n bs" "bs = xs @ (u, 2 ^ k) # ys" "k < n" "2 ^ n dvd c"
  shows "\<exists>us v zs. bs = us @ v # zs \<and> c + span us = (c + span xs) XOR 2 ^ k"
  using assms
proof (induction arbitrary: xs ys c rule: buddies.induct)
  case (whole n v)
  then show ?case by (auto simp: Cons_eq_append_conv)
next
  case (halves n bs cs)
  have n: "2 ^ n dvd c" "2 ^ n dvd c + 2 ^ n" "span bs = 2 ^ n"
    using halves.prems(3) power_le_dvd [of 2 "Suc n" c n] buddies_span [OF halves.hyps(1)] by (simp_all add: dvd_add)
  from halves.prems(1) show ?case
  proof (cases rule: append_block)
    case (1 vs')
    show ?thesis
    proof (cases "k = n")
      case True
      then have "xs = []" "bs = [(u, 2 ^ n)]" using buddies_full [OF halves.hyps(1)] 1(1) by auto
      moreover obtain v zs where "cs = v # zs" using buddies_not_Nil [OF halves.hyps(2)] by (cases cs) auto
      ultimately show ?thesis using xor_low [OF halves.prems(3)] True
        by (intro exI [of _ bs] exI [of _ v] exI [of _ zs]) simp
    next
      case False
      then obtain us v zs where "bs = us @ v # zs" "c + span us = (c + span xs) XOR 2 ^ k"
        using halves.IH(1) [OF 1(1) _ n(1)] halves.prems(2) by auto
      then show ?thesis by (intro exI [of _ us] exI [of _ v] exI [of _ "zs @ cs"]) simp
    qed
  next
    case (2 us')
    show ?thesis
    proof (cases "k = n")
      case True
      then have "us' = []" using buddies_full [OF halves.hyps(2)] 2(1) by auto
      moreover obtain v zs where "bs = v # zs" using buddies_not_Nil [OF halves.hyps(1)] by (cases bs) auto
      ultimately show ?thesis using xor_high [OF halves.prems(3)] True 2(2) n(3)
        by (intro exI [of _ "[]"] exI [of _ v] exI [of _ "zs @ cs"]) simp
    next
      case False
      then obtain us v zs where "cs = us @ v # zs" "c + 2 ^ n + span us = (c + 2 ^ n + span us') XOR 2 ^ k"
        using halves.IH(2) [OF 2(1) _ n(2)] halves.prems(2) by auto
      then show ?thesis using 2(2) n(3) by (intro exI [of _ "bs @ us"] exI [of _ v] exI [of _ zs]) (simp add: add.assoc)
    qed
  qed
qed

text \<open>What is left of a block when a smaller one is split off its front.\<close>

definition split_off :: "nat \<Rightarrow> nat \<Rightarrow> blocks" where
  "split_off p k = map (\<lambda>i. (False, 2 ^ i)) [p..<k]"

lemma split_off_simps: "split_off p p = []" "p \<le> k \<Longrightarrow> split_off p (Suc k) = split_off p k @ [(False, 2 ^ k)]"
  by (simp_all add: split_off_def)

lemma buddies_split_off: "p \<le> k \<Longrightarrow> buddies k ((u, 2 ^ p) # split_off p k)"
proof (induction k)
  case (Suc k)
  show ?case
  proof (cases "p = Suc k")
    case False
    then have "p \<le> k" using Suc.prems by simp
    then show ?thesis using buddies.halves [OF Suc.IH whole [of k False]] by (simp add: split_off_simps)
  qed (use whole [of "Suc k" u] in \<open>simp add: split_off_simps\<close>)
qed (use whole [of 0 u] in \<open>simp add: split_off_simps\<close>)

section \<open>The blocks in the memory\<close>

fun bs_cells :: "bs \<Rightarrow> nat \<Rightarrow> blocks \<Rightarrow> nat option \<Rightarrow> bool" where
  "bs_cells s a [] n \<longleftrightarrow> True"
| "bs_cells s a ((used, z) # bs) n \<longleftrightarrow>
     (\<exists>k t. 5 \<le> k \<and> z = 2 ^ k \<and> bs_tags s a = Some t \<and> unat (t AND 127) = k \<and> (\<not> used \<longrightarrow> drop_bit 7 t = 0)) \<and>
     (if used then bs_mem s (a + 1) = Some Owner else bs_mem s (a + 9) = Some (Link (first_of (frees (a + z) bs) n))) \<and>
     bs_cells s (a + z) bs n"

lemma bs_cells_append:
  "bs_cells s a (xs @ ys) n \<longleftrightarrow>
   bs_cells s a xs (first_of (frees (a + span xs) ys) n) \<and> bs_cells s (a + span xs) ys n"
  by (induction s a xs n rule: bs_cells.induct) (auto simp: add.assoc)

lemma pow_32: "5 \<le> k \<Longrightarrow> (32 :: nat) \<le> 2 ^ k"
  using power_increasing [of 5 k "2 :: nat"] by simp

lemma bs_cells_frame:
  assumes "\<And>b. a \<le> b \<Longrightarrow> b < a + span bs \<Longrightarrow> bs_tags s' b = bs_tags s b"
    and "\<And>b. a \<le> b \<Longrightarrow> b + 8 \<le> a + span bs \<Longrightarrow> bs_mem s' b = bs_mem s b"
  shows "bs_cells s' a bs n = bs_cells s a bs n"
  using assms
proof (induction s a bs n rule: bs_cells.induct)
  case (2 s a used z bs n)
  show ?case
  proof (cases "32 \<le> z")
    case True
    have "bs_cells s' (a + z) bs n = bs_cells s (a + z) bs n" using 2(2,3) by (intro 2(1)) (auto simp: add.assoc)
    moreover have "bs_tags s' a = bs_tags s a" "bs_mem s' (a + 1) = bs_mem s (a + 1)" "bs_mem s' (a + 9) = bs_mem s (a + 9)"
      using 2(2,3) True by simp_all
    ultimately show ?thesis by simp
  next
    case False
    then show ?thesis using pow_32 by auto
  qed
qed simp

lemma bs_tags_put [simp]:
  "bs_tags (put_tag x t s) = (bs_tags s)(x \<mapsto> t)" "bs_mem (put_tag x t s) = scribble (bs_mem s) x 1"
  "bs_tags (put_word x c s) b = (if x \<le> b \<and> b < x + 8 then None else bs_tags s b)" "bs_mem (put_word x c s) = put (bs_mem s) x c"
  by (simp_all add: put_tag_def put_word_def)

text \<open>What the writes into blocks leave alone.\<close>

definition same_fields :: "bs \<Rightarrow> bs \<Rightarrow> bool" where
  "same_fields s s' \<longleftrightarrow> bs_power s' = bs_power s \<and> bs_avail s' = bs_avail s \<and> bs_head s' = bs_head s \<and> bs_fit s' = bs_fit s"

lemma same_fields_simps [simp]: "same_fields s s" "same_fields s (put_tag x t s') = same_fields s s'"
  "same_fields s (put_word x c s') = same_fields s s'"
  by (simp_all add: same_fields_def put_tag_def put_word_def)

lemma same_fields_trans: "same_fields s s' \<Longrightarrow> same_fields s' s'' \<Longrightarrow> same_fields s s''"
  by (simp add: same_fields_def)

lemma bs_cells_put_tag [simp]:
  "x < a \<or> a + span bs \<le> x \<Longrightarrow> bs_cells (put_tag x t s) a bs n = bs_cells s a bs n"
  by (rule bs_cells_frame) (auto intro: scribble_other)

lemma bs_cells_put_word [simp]:
  "x + 8 \<le> a \<or> a + span bs \<le> x \<Longrightarrow> bs_cells (put_word x c s) a bs n = bs_cells s a bs n"
  by (rule bs_cells_frame) (auto intro: put_other)

lemma bs_cells_fields [simp]:
  "bs_cells (s\<lparr>bs_head := h\<rparr>) a bs n = bs_cells s a bs n" "bs_cells (s\<lparr>bs_avail := v\<rparr>) a bs n = bs_cells s a bs n"
  "bs_cells (s\<lparr>bs_fit := f\<rparr>) a bs n = bs_cells s a bs n"
  by (rule bs_cells_frame; simp)+

lemma bs_cells_free:
  assumes "bs_cells s a bs n" "frees a bs = pre @ (x, z) # post"
  shows "\<exists>k t. 5 \<le> k \<and> z = 2 ^ k \<and> bs_tags s x = Some t \<and> unat (t AND 127) = k \<and> drop_bit 7 t = 0"
    "bs_mem s (x + 9) = Some (Link (first_of post n))"
proof -
  obtain xs ys where "bs = xs @ (False, z) # ys" "frees a xs = pre" "x = a + span xs" "frees (x + z) ys = post"
    using frees_split [OF assms(2)] by blast
  then show "\<exists>k t. 5 \<le> k \<and> z = 2 ^ k \<and> bs_tags s x = Some t \<and> unat (t AND 127) = k \<and> drop_bit 7 t = 0"
    "bs_mem s (x + 9) = Some (Link (first_of post n))"
    using assms(1) by (auto simp: bs_cells_append)
qed

text \<open>The pointer to the block before is never read in a free block.\<close>

lemma bs_cells_prev:
  assumes "bs_cells s a bs n" "(x, z) \<in> set (frees a bs)"
  shows "bs_cells (set_prev_available x p s) a bs n"
proof -
  obtain pre post where f: "frees a bs = pre @ (x, z) # post" using assms(2) by (meson split_list)
  obtain xs ys where x: "bs = xs @ (False, z) # ys" "x = a + span xs" using frees_split [OF f] by blast
  have c: "bs_cells s a xs (Some x)" "bs_cells s (x + z) ys n" "bs_cells s x [(False, z)] (first_of (frees (x + z) ys) n)"
    using assms(1) x(2) by (simp_all add: x(1) bs_cells_append)
  have "32 \<le> z" using c(3) pow_32 by auto
  then have "bs_cells (put_word (x + 1) (Link p) s) a xs (Some x)" "bs_cells (put_word (x + 1) (Link p) s) (x + z) ys n"
      "bs_cells (put_word (x + 1) (Link p) s) x [(False, z)] (first_of (frees (x + z) ys) n)"
    using c x(2) by (simp_all add: put_other)
  then show ?thesis using x(2) by (simp add: x(1) bs_cells_append set_prev_available_def)
qed

lemma bs_cells_no_free: "frees a xs = [] \<Longrightarrow> bs_cells s a xs n = bs_cells s a xs n'"
  by (induction s a xs n rule: bs_cells.induct) (auto split: if_splits)

section \<open>Splitting\<close>

lemma and_not_exp: "\<not> bit x n \<Longrightarrow> x AND NOT (2 ^ n) = (x :: 8 word)"
  by (rule bit_word_eqI) (auto simp: bit_and_iff bit_not_iff bit_exp_iff)

lemma tag_word: "k < 128 \<Longrightarrow> unat (of_nat k AND 127 :: 8 word) = k" "k < 128 \<Longrightarrow> (of_nat k :: 8 word) AND NOT 128 = of_nat k"
    "k < 128 \<Longrightarrow> drop_bit 7 (of_nat k :: 8 word) = 0"
proof -
  assume k: "k < 128"
  have u: "unat (of_nat k :: 8 word) = k" using k by (simp add: unat_of_nat take_bit_nat_eq_self)
  have m: "(127 :: 8 word) = mask 7" by (simp add: mask_eq_exp_minus_1)
  have t: "take_bit 7 (of_nat k :: 8 word) = of_nat k" 
    by (rule word_unat_eq_iff [THEN iffD2]) (use k in \<open>simp add: unsigned_take_bit_eq u take_bit_nat_eq_self\<close>)
  show "unat (of_nat k AND 127 :: 8 word) = k" unfolding m using t u by (simp add: take_bit_eq_mask)
  show "drop_bit 7 (of_nat k :: 8 word) = 0"
    by (rule word_unat_eq_iff [THEN iffD2]) (simp add: drop_bit_eq_div unat_div u k)
  have "\<not> bit (of_nat k :: 8 word) 7"
  proof -
    have "bit (of_nat k :: 8 word) 7 = bit (take_bit 7 (of_nat k :: 8 word)) 7" by (simp only: t)
    then show ?thesis by (simp add: bit_take_bit_iff)
  qed
  from and_not_exp [OF this] show "(of_nat k :: 8 word) AND NOT 128 = of_nat k" by simp
qed

lemma bs_halve_ok:
  assumes c: "bs_cells s 0 (xs @ (False, 2 ^ Suc k) # ys) None" and k: "5 \<le> k" "Suc k < 31"
    and al: "2 ^ Suc k dvd span xs"
  shows "\<exists>s'. bs_halve s (span xs) k = Some s' \<and> same_fields s s' \<and>
    bs_cells s' 0 (xs @ (False, 2 ^ k) # (False, 2 ^ k) # ys) None"
proof -
  let ?a = "span xs" and ?b = "span xs + 2 ^ k" and ?n = "first_of (frees (span xs + 2 ^ Suc k) ys) None"
  have z: "(32 :: nat) \<le> 2 ^ k" using k(1) by (rule pow_32)
  have h: "bs_cells s 0 xs (Some ?a)" "bs_mem s (?a + 9) = Some (Link ?n)" "bs_cells s (?a + 2 ^ Suc k) ys None"
    using c by (simp_all add: bs_cells_append)
  define s2 where "s2 = put_tag ?b (of_nat k) (put_tag ?b (of_nat k) (put_tag ?a (of_nat k) s))"
  define s3 where "s3 = set_next_available ?a (Some ?b) (set_next_available ?b ?n s2)"
  have m: "bs_mem s2 (?a + 9) = Some (Link ?n)" using h(2) z by (simp add: s2_def scribble_other)
  have m3: "bs_mem s3 (?b + 9) = Some (Link ?n)" "bs_mem s3 (?a + 9) = Some (Link (Some ?b))"
      "bs_tags s3 ?a = Some (of_nat k)" "bs_tags s3 ?b = Some (of_nat k)"
    using z by (simp_all add: s3_def s2_def set_next_available_def put_other)
  have c3: "bs_cells s3 0 xs (Some ?a)" "bs_cells s3 (?a + 2 ^ Suc k) ys None"
    using h(1,3) z by (simp_all add: s3_def s2_def set_next_available_def)
  have cells: "bs_cells s3 0 (xs @ (False, 2 ^ k) # (False, 2 ^ k) # ys) None"
    using c3 m3 k tag_word [of k] by (simp add: bs_cells_append add.assoc mult_2)
  have b: "get_buddy (set_block_size ?a k s) ?a = Some ?b"
    using xor_low [OF al] k tag_word(1) [of k] by (simp add: get_buddy_def get_block_data_size_def set_block_size_def int_shift_def)
  have av: "avail_block ?b (set_block_size ?b k (set_block_size ?a k s)) = Some s2"
    using k tag_word(2) [of k] by (simp add: avail_block_def set_block_size_def s2_def)
  define s' where "s' = (case ?n of Some c \<Rightarrow> set_prev_available c (Some ?b) s3 | None \<Rightarrow> set_prev_available ?b (Some ?a) s3)"
  have g: "get_next_available s2 ?a = Some ?n" "get_next_available s3 ?b = Some ?n"
    using m m3(1) by (simp_all add: get_next_available_def)
  have "bs_halve s ?a k = Some s'"
    by (simp only: bs_halve_def Let_def b bind.bind_lunit av g(1) s3_def [symmetric] g(2) s'_def)
  moreover have "same_fields s s'"
    by (simp add: s'_def s3_def s2_def set_prev_available_def set_next_available_def split: option.split)
  moreover have "bs_cells s' 0 (xs @ (False, 2 ^ k) # (False, 2 ^ k) # ys) None"
  proof (cases "frees (?a + 2 ^ Suc k) ys")
    case Nil
    then have "s' = set_prev_available ?b (Some ?a) s3" by (simp add: s'_def)
    then show ?thesis using bs_cells_prev [OF cells, of ?b "2 ^ k"] by simp
  next
    case (Cons c fs)
    then have "s' = set_prev_available (fst c) (Some ?b) s3" by (simp add: s'_def)
    moreover have "(fst c, snd c) \<in> set (frees (?a + 2 ^ Suc k) ys)" unfolding Cons by simp
    ultimately show ?thesis using bs_cells_prev [OF cells, of "fst c" "snd c"] by (simp add: add.assoc mult_2)
  qed
  ultimately show ?thesis by blast
qed

lemma bs_split_ok:
  assumes "bs_cells s 0 (xs @ (False, 2 ^ k) # ys) None" "5 \<le> p" "p \<le> k" "k < 31" "2 ^ k dvd span xs"
  shows "\<exists>s'. bs_split k p (span xs) s = Some (p, s') \<and> same_fields s s' \<and>
    bs_cells s' 0 (xs @ (False, 2 ^ p) # split_off p k @ ys) None"
  using assms
proof (induction k arbitrary: s ys)
  case (Suc k)
  show ?case
  proof (cases "p = Suc k")
    case True
    then show ?thesis using Suc.prems by (simp add: int_shift_def split_off_simps)
  next
    case False
    then have p: "p \<le> k" using Suc.prems(3) by simp
    obtain s1 where s1: "bs_halve s (span xs) k = Some s1" "same_fields s s1"
        "bs_cells s1 0 (xs @ (False, 2 ^ k) # (False, 2 ^ k) # ys) None"
      using bs_halve_ok [OF Suc.prems(1) _ Suc.prems(4,5)] p Suc.prems(2) by auto
    have "2 ^ k dvd span xs" using Suc.prems(5) by (rule power_le_dvd) simp
    then obtain s2 where s2: "bs_split k p (span xs) s1 = Some (p, s2)" "same_fields s1 s2"
        "bs_cells s2 0 (xs @ (False, 2 ^ p) # split_off p k @ (False, 2 ^ k) # ys) None"
      using Suc.IH [OF s1(3) Suc.prems(2) p] Suc.prems(4) by auto
    have "(2 :: nat) ^ p \<le> 2 ^ k" using p by simp
    then have "bs_split (Suc k) p (span xs) s = Some (p, s2)"
      using s1(1) s2(1) Suc.prems(3,4) by (simp add: int_shift_def)
    then show ?thesis using same_fields_trans [OF s1(2) s2(2)] s2(3) p by (auto simp: split_off_simps)
  qed
qed simp

section \<open>Taking a block\<close>

lemma bs_relink:
  assumes "bs_cells s a xs n" "last_of (frees a xs) = Some p"
  shows "bs_cells (set_next_available p n' s) a xs n'" "a \<le> p" "p + 17 \<le> a + span xs"
proof -
  obtain us z vs where x: "xs = us @ (False, z) # vs" "p = a + span us" "frees (p + z) vs = []"
    using last_free_split [OF assms(2)] by blast
  have h: "bs_cells s a us (Some p)" "bs_cells s p [(False, z)] n" "bs_cells s (p + z) vs n"
    using assms(1) x(2,3) by (auto simp: x(1) bs_cells_append)
  have z: "32 \<le> z" using h(2) pow_32 by auto
  have "bs_cells s (p + z) vs n'" using h(3) bs_cells_no_free [OF x(3), of s n n'] by simp
  then have "bs_cells (set_next_available p n' s) a us (Some p)" "bs_cells (set_next_available p n' s) (p + z) vs n'"
    using h(1) z x(2) by (simp_all add: set_next_available_def)
  moreover have "bs_cells (set_next_available p n' s) p [(False, z)] n'" using h(2) by (simp add: set_next_available_def)
  ultimately show "bs_cells (set_next_available p n' s) a xs n'" using x(2,3) by (simp add: x(1) bs_cells_append)
  show "a \<le> p" "p + 17 \<le> a + span xs" using z x(1,2) by auto
qed

lemma bs_take_ok:
  assumes c: "bs_cells s 0 (xs @ (False, 2 ^ k) # ys) None" and hd: "bs_head s = first_of (frees 0 xs) (Some (span xs))"
    and prev: "prev = last_of (frees 0 xs)" and k: "5 \<le> k" "k < 31"
  shows "frees (span xs + 2 ^ k) ys = [] \<Longrightarrow> bs_take s prev (span xs) k = None"
    "frees (span xs + 2 ^ k) ys \<noteq> [] \<Longrightarrow> \<exists>s'. bs_take s prev (span xs) k = Some s' \<and>
      bs_cells s' 0 (xs @ (True, 2 ^ k) # ys) None \<and> bs_head s' = first_of (frees 0 (xs @ (True, 2 ^ k) # ys)) None \<and>
      bs_power s' = bs_power s \<and> bs_fit s' = bs_fit s \<and> bs_avail s' = bs_avail s - 2 ^ k"
proof -
  let ?a = "span xs" and ?n = "first_of (frees (span xs + 2 ^ k) ys) None"
  have z: "(32 :: nat) \<le> 2 ^ k" using k(1) by (rule pow_32)
  have h: "bs_cells s 0 xs (Some ?a)" "bs_mem s (?a + 9) = Some (Link ?n)" "bs_cells s (?a + 2 ^ k) ys None"
    using c by (simp_all add: bs_cells_append)
  obtain t where t: "bs_tags s ?a = Some t" "unat (t AND 127) = k" using c by (auto simp: bs_cells_append)
  have t': "unat ((t OR 128) AND 127) = k"
  proof -
    have "(128 :: 8 word) AND 127 = 0" by simp
    then have "(t OR 128) AND 127 = t AND 127" by (simp add: bit.conj_disj_distrib2)
    then show ?thesis using t(2) by simp
  qed
  define s2 where "s2 = put_word (?a + 1) Owner (put_tag ?a (t OR 128) s)"
  define s3 where "s3 = (case prev of None \<Rightarrow> s2 | Some p \<Rightarrow> set_next_available p ?n s2)"
  define s4 where "s4 = (if bs_head s3 = Some ?a then s3\<lparr>bs_head := ?n\<rparr> else s3)"
  have g: "occupy_block ?a s = Some (put_tag ?a (t OR 128) s)" "get_next_available s2 ?a = Some ?n"
    using t(1) h(2) by (simp_all add: occupy_block_def s2_def get_next_available_def put_other scribble_other)
  have run: "bs_take s prev ?a k =
      Option.bind ?n (\<lambda>n. Some ((set_prev_available n prev s4)\<lparr>bs_avail := bs_avail (set_prev_available n prev s4) - of_nat (2 ^ k)\<rparr>))"
    by (simp only: bs_take_def Let_def bind.bind_lunit g(1) s2_def [symmetric] g(2) s3_def [symmetric] s4_def [symmetric])
      (simp add: int_shift_def k(2))
  have s2: "bs_cells s2 0 xs (Some ?a)" "bs_cells s2 (?a + 2 ^ k) ys None" "bs_cells s2 ?a [(True, 2 ^ k)] ?n"
      "same_fields s s2"
    using h z t' k(1) by (simp_all add: s2_def)
  have s3: "bs_cells s3 0 xs ?n" "bs_cells s3 (?a + 2 ^ k) ys None" "bs_cells s3 ?a [(True, 2 ^ k)] ?n" "same_fields s s3"
  proof -
    have "bs_cells s3 0 xs ?n \<and> bs_cells s3 (?a + 2 ^ k) ys None \<and> bs_cells s3 ?a [(True, 2 ^ k)] ?n \<and> same_fields s s3"
    proof (cases prev)
      case None
      then have "frees 0 xs = []" using prev by (auto simp: last_of_def split: if_splits)
      from bs_cells_no_free [OF this, of s2 "Some ?a" ?n] show ?thesis using s2 None by (simp add: s3_def)
    next
      case (Some p)
      then have l: "last_of (frees 0 xs) = Some p" using prev by simp
      note r = bs_relink(1) [OF s2(1) l, of ?n] bs_relink(3) [OF s2(1) l]
      have eq: "s3 = put_word (p + 9) (Link ?n) s2" using Some by (simp add: s3_def set_next_available_def)
      have e: "p + 9 + 8 \<le> ?a" using r(2) by simp
      have "bs_cells s3 0 xs ?n" using r(1) by (simp add: eq set_next_available_def)
      moreover have "bs_cells s3 (?a + 2 ^ k) ys None"
        unfolding eq using s2(2) e by (subst bs_cells_put_word) simp_all
      moreover have "bs_cells s3 ?a [(True, 2 ^ k)] ?n"
        unfolding eq using s2(3) e by (subst bs_cells_put_word) simp_all
      moreover have "same_fields s s3" unfolding eq using s2(4) by simp
      ultimately show ?thesis by blast
    qed
    then show "bs_cells s3 0 xs ?n" "bs_cells s3 (?a + 2 ^ k) ys None" "bs_cells s3 ?a [(True, 2 ^ k)] ?n" "same_fields s s3"
      by blast+
  qed
  have cells: "bs_cells s4 0 (xs @ (True, 2 ^ k) # ys) None"
    using s3 by (auto simp: s4_def bs_cells_append)
  have other: "(x, w) \<in> set (frees 0 xs) \<Longrightarrow> x \<noteq> ?a" for x w
  proof -
    assume x: "(x, w) \<in> set (frees 0 xs)"
    then obtain pre post where "frees 0 xs = pre @ (x, w) # post" by (meson split_list)
    then obtain j where "5 \<le> j" "w = 2 ^ j" using bs_cells_free(1) [OF h(1)] by blast
    then have "0 < w" by simp
    then show ?thesis using frees_bounds [OF x] by simp
  qed
  have head: "bs_head s4 = first_of (frees 0 (xs @ (True, 2 ^ k) # ys)) None"
  proof (cases "frees 0 xs")
    case (Cons q fs)
    obtain x w where "q = (x, w)" by fastforce
    then show ?thesis using hd s3(4) Cons other [of x w]
      by (simp add: s4_def same_fields_def)
  qed (use hd s3(4) in \<open>simp add: s4_def same_fields_def\<close>)
  have f4: "bs_power s4 = bs_power s" "bs_fit s4 = bs_fit s" "bs_avail s4 = bs_avail s"
    using s3(4) by (simp_all add: s4_def same_fields_def)
  show "bs_take s prev ?a k = None" if "frees (?a + 2 ^ k) ys = []" using that unfolding run by simp
  show "\<exists>s'. bs_take s prev (span xs) k = Some s' \<and>
      bs_cells s' 0 (xs @ (True, 2 ^ k) # ys) None \<and> bs_head s' = first_of (frees 0 (xs @ (True, 2 ^ k) # ys)) None \<and>
      bs_power s' = bs_power s \<and> bs_fit s' = bs_fit s \<and> bs_avail s' = bs_avail s - 2 ^ k"
    if ne: "frees (?a + 2 ^ k) ys \<noteq> []"
  proof -
    obtain n w fs where n: "frees (?a + 2 ^ k) ys = (n, w) # fs" using ne by (cases "frees (?a + 2 ^ k) ys") auto
    let ?s = "set_prev_available n prev s4"
    have "bs_cells ?s 0 (xs @ (True, 2 ^ k) # ys) None"
      by (rule bs_cells_prev [OF cells, of _ w]) (simp add: n)
    moreover have "same_fields s4 ?s" by (simp add: set_prev_available_def)
    ultimately show ?thesis using run head f4 unfolding n by (auto simp: same_fields_def)
  qed
qed

section \<open>The search\<close>

text \<open>The search compares exponents.\<close>

definition powers :: "(nat \<times> nat) list \<Rightarrow> (nat \<times> nat) list" where
  "powers fl = map (\<lambda>(a, z). (a, ceil_log2 z)) fl"

lemma powers_simps [simp]: "powers [] = []" "powers ((a, z) # fl) = (a, ceil_log2 z) # powers fl"
  "powers (fl @ fl') = powers fl @ powers fl'" "length (powers fl) = length fl"
  by (simp_all add: powers_def)

lemma last_of_powers [simp]: "last_of (powers fl) = last_of fl"
  by (cases fl rule: rev_cases) (auto simp: last_of_def powers_def)

lemma of_nat_word_less: "m < 2 ^ 64 \<Longrightarrow> n < 2 ^ 64 \<Longrightarrow> ((of_nat m :: 64 word) < of_nat n) = (m < n)"
  by (simp add: word_less_nat_alt unat_of_nat_small)

lemma exponent_diff_less:
  assumes "r \<le> x" "r \<le> y" "x < 2 ^ 64" "y < 2 ^ 64"
  shows "((of_nat x :: 64 word) - of_nat r < of_nat y - of_nat r) = (x < y)"
proof -
  have "(of_nat x :: 64 word) - of_nat r = of_nat (x - r)" "(of_nat y :: 64 word) - of_nat r = of_nat (y - r)"
    using assms by (simp_all add: of_nat_diff)
  then have "((of_nat x :: 64 word) - of_nat r < of_nat y - of_nat r) = ((of_nat (x - r) :: 64 word) < of_nat (y - r))"
    by (simp only:)
  also have "\<dots> = (x - r < y - r)" using assms by (intro of_nat_word_less) simp_all
  finally show ?thesis using assms by auto
qed

lemma bs_search_ok:
  assumes c: "bs_cells s 0 bs None" and sp: "span bs < 2 ^ 31"
    and fl: "frees 0 bs = dn @ rest" "length rest < fuel" and r: "req_power \<le> need"
    and ch: "chosen (bs_fit s) need (powers dn) prev target"
  shows "\<exists>prev' target'. bs_search fuel s need req_power (first_of rest None) (last_of dn) prev target = Some (prev', target') \<and>
    chosen (bs_fit s) need (powers (frees 0 bs)) prev' target'"
  using fl ch
proof (induction fuel arbitrary: dn rest prev target)
  case (Suc fuel)
  show ?case
  proof (cases rest)
    case Nil
    then show ?thesis using Suc.prems by simp
  next
    case (Cons xz rest')
    obtain x z where xz: "xz = (x, z)" by fastforce
    show ?thesis
    proof (cases "bs_fit s = First_fit \<and> target \<noteq> None")
      case True
      then show ?thesis
        using Suc.prems chosen_first_grows [of need "powers dn" prev _ "powers rest"] by (auto simp: Cons xz)
    next
      case False
      have fr: "frees 0 bs = dn @ (x, z) # rest'" using Suc.prems(1) by (simp add: Cons xz)
      obtain k t where k: "5 \<le> k" "z = 2 ^ k" "bs_tags s x = Some t" "unat (t AND 127) = k"
        using bs_cells_free(1) [OF c fr] by blast
      have sz: "get_block_data_size s x = Some k" using k by (simp add: get_block_data_size_def)
      have nx: "get_next_available s x = Some (first_of rest' None)"
        using bs_cells_free(2) [OF c fr] by (simp add: get_next_available_def)
      have "z \<le> span bs" using frees_bounds [of x z 0 bs] fr by simp
      then have "(2 :: nat) ^ k < 2 ^ 31" using sp k(2) by simp
      then have k31: "k < 31" by (rule power_less_imp_less_exp [rotated]) simp
      then have uk: "unat (of_nat k :: 64 word) = k" by (simp add: unat_of_nat_small)
      have fuel: "length rest' < fuel" using Suc.prems(2) by (simp add: Cons)
      have fl': "frees 0 bs = (dn @ [(x, z)]) @ rest'" using fr by simp
      have tgt: "unat w \<ge> need \<and> unat w < 64" if "target = Some (a, w)" for a w
      proof -
        have "chosen (bs_fit s) need (powers dn) prev (Some (a, w))" using Suc.prems(3) that by simp
        then obtain pre post where "powers dn = pre @ (a, unat w) # post" "need \<le> unat w"
          unfolding chosen_def by (simp only: option.case prod.case) blast
        then have "(a, unat w) \<in> set (powers dn)" by simp
        then obtain v where v: "(a, v) \<in> set dn" "unat w = ceil_log2 v" by (auto simp: powers_def)
        then have "(a, v) \<in> set (frees 0 bs)" using Suc.prems(1) by simp
        then have "v \<le> span bs" using frees_bounds by fastforce
        then have "v \<le> 2 ^ 31" using sp by simp
        then have "ceil_log2 v \<le> 31" by (rule ceil_log2_least)
        then show ?thesis using v(2) \<open>need \<le> unat w\<close> by simp
      qed
      let ?take = "need \<le> k \<and> (case target of None \<Rightarrow> True | Some (_, w) \<Rightarrow>
          bs_fit s = The_best_fit \<and> of_nat k < w \<or> bs_fit s = The_worst_fit \<and> w < of_nat k)"
      have cmp: "(need \<le> k \<and> (case target of None \<Rightarrow> True | Some (_, w) \<Rightarrow>
          bs_fit s = The_best_fit \<and> of_nat k - of_nat req_power < w - of_nat req_power \<or>
          bs_fit s = The_worst_fit \<and> w - of_nat req_power < of_nat k - of_nat req_power)) = ?take"
      proof (cases "need \<le> k")
        case True
        have "(of_nat k - of_nat req_power < w - of_nat req_power) = (of_nat k < w)"
          "(w - of_nat req_power < of_nat k - of_nat req_power) = (w < of_nat k)" if "target = Some (a, w)" for a w
          using exponent_diff_less [of req_power k "unat w"] exponent_diff_less [of req_power "unat w" k] True r k31 uk tgt [OF that]
          by (simp_all add: word_less_nat_alt)
        then show ?thesis by (auto split: option.split)
      qed simp
      have step: "bs_search (Suc fuel) s need req_power (first_of rest None) (last_of dn) prev target =
          (if ?take then bs_search fuel s need req_power (first_of rest' None) (Some x) (last_of dn) (Some (x, of_nat k))
           else bs_search fuel s need req_power (first_of rest' None) (Some x) prev target)"
        by (simp only: Cons xz first_of_simps fst_conv bs_search.simps option.case sz nx False if_False cmp)
      show ?thesis
      proof (cases ?take)
        case True
        have "chosen (bs_fit s) need (powers dn @ [(x, unat (of_nat k :: 64 word))]) (last_of (powers dn)) (Some (x, of_nat k))"
        proof (rule chosen_take [OF Suc.prems(3)])
          show "bs_fit s = First_fit \<longrightarrow> target = None" using False by blast
        qed (use True in \<open>simp_all add: uk\<close>)
        then have "chosen (bs_fit s) need (powers (dn @ [(x, z)])) (last_of dn) (Some (x, of_nat k))"
          by (simp add: uk k(2))
        from Suc.IH [OF fl' fuel this] show ?thesis
          unfolding step using True by simp
      next
        case no: False
        have "chosen (bs_fit s) need (powers dn @ [(x, k)]) prev target"
          using no uk by (intro chosen_skip [OF Suc.prems(3)])
            (auto simp: word_less_nat_alt not_less split: option.splits)
        then have "chosen (bs_fit s) need (powers (dn @ [(x, z)])) prev target" by (simp add: k(2))
        from Suc.IH [OF fl' fuel this] show ?thesis unfolding step if_not_P [OF no] by simp
      qed
    qed
  qed
qed simp

section \<open>Allocation\<close>

definition bs_rep :: "bs \<Rightarrow> blocks \<Rightarrow> bool" where
  "bs_rep s bs \<longleftrightarrow> unat (bs_power s) \<le> 30 \<and> buddies (unat (bs_power s)) bs \<and> bs_cells s 0 bs None \<and>
     bs_head s = first_of (frees 0 bs) None"

lemma bs_rep_span: "bs_rep s bs \<Longrightarrow> span bs = 2 ^ unat (bs_power s) \<and> span bs < 2 ^ 31"
  using power_strict_increasing [of "unat (bs_power s)" 31 "2 :: nat"] by (auto simp: bs_rep_def dest: buddies_span)

lemma free_power:
  assumes "bs_cells s a bs n" "(x, z) \<in> set (frees a bs)"
  shows "z = 2 ^ ceil_log2 z \<and> 5 \<le> ceil_log2 z"
proof -
  obtain us vs where "frees a bs = us @ (x, z) # vs" using assms(2) by (meson split_list)
  then show ?thesis using bs_cells_free(1) [OF assms(1)] by fastforce
qed

lemma frees_empty: "frees a bs = [] \<longleftrightarrow> (\<forall>b \<in> set bs. fst b)"
  by (induction a bs rule: frees.induct) auto

lemma powers_split:
  "powers fl = pre @ (t, k) # post \<Longrightarrow> \<exists>pre' z post'. fl = pre' @ (t, z) # post' \<and> powers pre' = pre \<and> k = ceil_log2 z"
proof (induction fl arbitrary: pre)
  case (Cons b fl)
  obtain a z where b: "b = (a, z)" by fastforce
  show ?case
  proof (cases pre)
    case Nil
    then show ?thesis using Cons.prems b by (intro exI [of _ "[]"]) simp
  next
    case (Cons c pre1)
    then obtain pre' y post' where "fl = pre' @ (t, y) # post'" "powers pre' = pre1" "k = ceil_log2 y"
      using Cons.IH [of pre1] Cons.prems b by auto
    then show ?thesis using Cons Cons.prems b by (intro exI [of _ "b # pre'"]) simp
  qed
qed simp

lemma chosen_powers:
  assumes c: "bs_cells s 0 bs None" and ch: "chosen fit need (powers (frees 0 bs)) prev (Some (t, w))"
  shows "\<exists>xs ys. bs = xs @ (False, 2 ^ unat w) # ys \<and> t = span xs \<and> prev = last_of (frees 0 xs) \<and>
    fits fit (2 ^ need) xs (2 ^ unat w) ys \<and> 5 \<le> unat w"
proof -
  let ?fl = "frees 0 bs"
  note pw = free_power [OF c]
  obtain pre post where p: "powers ?fl = pre @ (t, unat w) # post" "need \<le> unat w" "prev = last_of pre"
      "fit = First_fit \<longrightarrow> (\<forall>(x, z) \<in> set pre. z < need)"
      "fit = The_best_fit \<longrightarrow> (\<forall>(x, z) \<in> set (powers ?fl). need \<le> z \<longrightarrow> unat w \<le> z)"
      "fit = The_worst_fit \<longrightarrow> (\<forall>(x, z) \<in> set (powers ?fl). z \<le> unat w)"
    using ch unfolding chosen_def option.case prod.case by (elim exE conjE) (rule that)
  then obtain pre' z post' where q: "?fl = pre' @ (t, z) # post'" "powers pre' = pre" "unat w = ceil_log2 z"
    using powers_split by blast
  have zw: "z = 2 ^ unat w" "5 \<le> unat w" using pw [of t z] q(1,3) by simp_all
  have fl: "?fl = pre' @ (t, 2 ^ unat w) # post'" using q(1) zw by simp
  obtain xs ys where x: "bs = xs @ (False, 2 ^ unat w) # ys" "frees 0 xs = pre'" "t = span xs"
    using frees_split [OF fl] by auto
  have le: "(2 :: nat) ^ i \<le> 2 ^ j \<longleftrightarrow> i \<le> j" for i j by simp
  have free: "v = 2 ^ ceil_log2 v \<and> (\<exists>a. (a, ceil_log2 v) \<in> set (powers ?fl))" if "(False, v) \<in> set bs" for v
    using that pw frees_iff [of v 0 bs] by (force simp: powers_def)
  have first: "v = 2 ^ ceil_log2 v \<and> (\<exists>a. (a, ceil_log2 v) \<in> set pre)" if "(False, v) \<in> set xs" for v
    using that free [of v] frees_iff [of v 0 xs] x(1) unfolding q(2) [symmetric] x(2) [symmetric]
    by (force simp: powers_def)
  have "fits fit (2 ^ need) xs (2 ^ unat w) ys" unfolding fits_def
  proof (intro conjI impI allI)
    show "(2 :: nat) ^ need \<le> 2 ^ unat w" using p(2) by simp
    show "v < 2 ^ need" if f: "fit = First_fit" "(False, v) \<in> set xs" for v
    proof -
      obtain a where v: "v = 2 ^ ceil_log2 v" "(a, ceil_log2 v) \<in> set pre" using first [OF f(2)] by blast
      then have "ceil_log2 v < need" using p(4) f(1) by blast
      then show ?thesis using v(1) power_strict_increasing [of "ceil_log2 v" need "2 :: nat"] by simp
    qed
    show "2 ^ unat w \<le> v" if f: "fit = The_best_fit" "(False, v) \<in> set (xs @ ys) \<and> 2 ^ need \<le> v" for v
    proof -
      obtain a where v: "v = 2 ^ ceil_log2 v" "(a, ceil_log2 v) \<in> set (powers ?fl)" using free [of v] f(2) x(1) by auto
      then have "need \<le> ceil_log2 v" using f(2) le by metis
      then have "unat w \<le> ceil_log2 v" using p(5) f(1) v(2) by blast
      then show ?thesis using v(1) le by metis
    qed
    show "v \<le> 2 ^ unat w" if f: "fit = The_worst_fit" "(False, v) \<in> set (xs @ ys)" for v
    proof -
      obtain a where v: "v = 2 ^ ceil_log2 v" "(a, ceil_log2 v) \<in> set (powers ?fl)" using free [of v] f(2) x(1) by auto
      then have "ceil_log2 v \<le> unat w" using p(6) f(1) by blast
      then show ?thesis using v(1) le by metis
    qed
  qed
  then show ?thesis using x p(3) q(2) zw(2) by (intro exI [of _ xs] exI [of _ ys]) auto
qed

text \<open>The exponent of the smallest block for a request of \<open>n\<close> bytes.\<close>

definition need_power :: "nat \<Rightarrow> nat" where
  "need_power n = ceil_log2 (n + 17)"

lemma need_power_bounds: "5 \<le> need_power n" "n + 17 \<le> 2 ^ need_power n" "ceil_log2 n \<le> need_power n"
proof -
  show "n + 17 \<le> 2 ^ need_power n" unfolding need_power_def by (rule ceil_log2_le)
  show "ceil_log2 n \<le> need_power n" unfolding need_power_def by (rule ceil_log2_mono) simp
  show "5 \<le> need_power n"
  proof (rule ccontr)
    assume "\<not> 5 \<le> need_power n"
    then have "(2 :: nat) ^ need_power n \<le> 2 ^ 4" by (intro power_increasing) simp_all
    then show False using ceil_log2_le [of "n + 17"] by (simp add: need_power_def)
  qed
qed

lemma length_bs_frees: "bs_cells s a bs n \<Longrightarrow> length (frees a bs) \<le> span bs"
proof (induction s a bs n rule: bs_cells.induct)
  case (2 s a used z bs n)
  then have "1 \<le> z" by auto
  then show ?case using 2 by auto
qed simp

lemma bs_choice:
  assumes rep: "bs_rep s bs" and sz: "0 < unat r" "unat r + 17 < 2 ^ 64"
  shows "\<exists>prev target. do {
        alloc_power \<leftarrow> get_power_of_size (r + bs_block_meta_size);
        req_power \<leftarrow> get_power_of_size r;
        first \<leftarrow> (case bs_head s of
            None \<Rightarrow> Some None
          | Some c \<Rightarrow> map_option (\<lambda>z. if alloc_power \<le> z then Some (c, of_nat z) else None) (get_block_data_size s c));
        r \<leftarrow> bs_search (Suc (Suc (2 ^ unat (bs_power s)))) s alloc_power req_power (bs_head s) None None first;
        Some (alloc_power, r) } = Some (need_power (unat r), prev, target) \<and>
      chosen (bs_fit s) (need_power (unat r)) (powers (frees 0 bs)) prev target"
proof -
  let ?p = "need_power (unat r)"
  have h: "bs_cells s 0 bs None" "bs_head s = first_of (frees 0 bs) None" using rep by (simp_all add: bs_rep_def)
  have u: "unat (r + bs_block_meta_size) = unat r + 17"
    using sz(2) by (simp add: bs_block_meta_size_def unat_word_ariths)
  then have "r + bs_block_meta_size \<noteq> 0" by (metis add_is_0 unat_0 zero_neq_numeral)
  then have p: "get_power_of_size (r + bs_block_meta_size) = Some ?p" "get_power_of_size r = Some (ceil_log2 (unat r))"
    using u sz(1) by (auto simp: get_power_of_size_def need_power_def)
  let ?run = "\<lambda>first. bs_search (Suc (Suc (2 ^ unat (bs_power s)))) s ?p (ceil_log2 (unat r)) (bs_head s) None None first"
  show ?thesis
  proof (cases "frees 0 bs")
    case Nil
    then show ?thesis using h(2) p by (simp add: chosen_def)
  next
    case (Cons xz fs)
    obtain x z where xz: "xz = (x, z)" by fastforce
    have fl: "frees 0 bs = [] @ (x, z) # fs" by (simp add: Cons xz)
    obtain k t where k: "z = 2 ^ k" "bs_tags s x = Some t" "unat (t AND 127) = k"
      using bs_cells_free(1) [OF h(1) fl] by blast
    have sz: "get_block_data_size s x = Some k" using k by (simp add: get_block_data_size_def)
    have nx: "get_next_available s x = Some (first_of fs None)"
      using bs_cells_free(2) [OF h(1) fl] by (simp add: get_next_available_def)
    have "k < 2 ^ 64" using k(3) unsigned_less [of "t AND 127", where 'a = nat] by simp
    then have uk: "unat (of_nat k :: 64 word) = k" by (simp add: unat_of_nat_small)
    let ?first = "if ?p \<le> k then Some (x, of_nat k :: 64 word) else None"
    have ch: "chosen (bs_fit s) ?p (powers [(x, z)]) None ?first"
      by (auto simp: chosen_def k(1) uk intro: exI [of _ "[]"])
    have "\<exists>prev' target'. ?run ?first = Some (prev', target') \<and> chosen (bs_fit s) ?p (powers (frees 0 bs)) prev' target'"
    proof (cases "bs_fit s = First_fit \<and> ?first \<noteq> None")
      case True
      then have "?run ?first = Some (None, ?first)" using h(2) by (simp add: fl)
      moreover have "chosen (bs_fit s) ?p (powers [(x, z)] @ powers fs) None ?first"
        using ch True chosen_first_grows [of ?p "powers [(x, z)]" None "(x, of_nat k)" "powers fs"]
        by (simp del: powers_simps split: if_splits)
      ultimately show ?thesis by (simp add: fl)
    next
      case False
      have "?run ?first = bs_search (Suc (2 ^ unat (bs_power s))) s ?p (ceil_log2 (unat r)) (first_of fs None) (Some x) None ?first"
      proof -
        let ?r = "ceil_log2 (unat r)"
        have no: "(?p \<le> k \<and> (case ?first of None \<Rightarrow> True | Some (_, w) \<Rightarrow>
            bs_fit s = The_best_fit \<and> of_nat k - of_nat ?r < w - of_nat ?r \<or>
            bs_fit s = The_worst_fit \<and> w - of_nat ?r < of_nat k - of_nat ?r)) = False"
          by simp
        show ?thesis
          by (simp only: h(2) fl append_Nil first_of_simps fst_conv bs_search.simps(2) [of "Suc _"] option.case sz nx False no if_False)
      qed
      moreover have "length fs < Suc (2 ^ unat (bs_power s))"
        using length_bs_frees [OF h(1)] bs_rep_span [OF rep] fl by simp
      ultimately show ?thesis
        using bs_search_ok [OF h(1) _ _ _ need_power_bounds(3) ch, of fs "Suc (2 ^ unat (bs_power s))"] bs_rep_span [OF rep] fl
        by (simp add: last_of_def del: bs_search.simps split del: if_split)
    qed
    then show ?thesis using p sz h(2) by (auto simp: fl simp del: bs_search.simps)
  qed
qed

text \<open>
  The outcome: \<open>Al_undefined\<close> when the chosen block needs no split and no free block lies behind it.
\<close>

lemma bs_allocate_ok:
  assumes rep: "bs_rep s bs" and sz: "0 < unat (value_size * values_count)" "unat (value_size * values_count) + 17 < 2 ^ 64"
  shows "(\<exists>xs k ys s'. let p = need_power (unat (value_size * values_count)) in
      bs = xs @ (False, 2 ^ k) # ys \<and> fits (bs_fit s) (2 ^ p) xs (2 ^ k) ys \<and>
      (if p = k \<and> frees 0 ys = [] then bs_allocate s value_size values_count = (Inl Al_undefined, s)
       else bs_allocate s value_size values_count = (Inr (span xs + 9), s') \<and>
         bs_rep s' (xs @ (True, 2 ^ p) # split_off p k @ ys) \<and> bs_power s' = bs_power s \<and> bs_fit s' = bs_fit s \<and>
         bs_avail s' = bs_avail s - 2 ^ p)) \<or>
    bs_allocate s value_size values_count = (Inl Al_bad_alloc, s) \<and>
      (\<forall>z. (False, z) \<in> set bs \<longrightarrow> z < 2 ^ need_power (unat (value_size * values_count)))"
proof -
  let ?p = "need_power (unat (value_size * values_count))"
  have h: "unat (bs_power s) \<le> 30" "buddies (unat (bs_power s)) bs" "bs_cells s 0 bs None" "bs_head s = first_of (frees 0 bs) None"
    using rep by (auto simp: bs_rep_def)
  obtain prev target where c: "bs_allocate s value_size values_count =
       (case target of None \<Rightarrow> (Inl Al_bad_alloc, s)
        | Some (target, chosen_size) \<Rightarrow>
            (case Option.bind (bs_split (unat chosen_size) ?p target s) (\<lambda>(k, s1). bs_take s1 prev target k) of
               None \<Rightarrow> (Inl Al_undefined, s)
             | Some s' \<Rightarrow> (Inr (target + bs_occupied_meta_size), s')))"
      "chosen (bs_fit s) ?p (powers (frees 0 bs)) prev target"
  proof -
    from bs_choice [OF rep sz] obtain prev target where r: "do {
        alloc_power \<leftarrow> get_power_of_size (value_size * values_count + bs_block_meta_size);
        req_power \<leftarrow> get_power_of_size (value_size * values_count);
        first \<leftarrow> (case bs_head s of
            None \<Rightarrow> Some None
          | Some c \<Rightarrow> map_option (\<lambda>z. if alloc_power \<le> z then Some (c, of_nat z) else None) (get_block_data_size s c));
        r \<leftarrow> bs_search (Suc (Suc (2 ^ unat (bs_power s)))) s alloc_power req_power (bs_head s) None None first;
        Some (alloc_power, r) } = Some (?p, prev, target)"
      "chosen (bs_fit s) ?p (powers (frees 0 bs)) prev target"
      by blast
    show ?thesis
      by (rule that [OF _ r(2)]) (cases target; simp only: bs_allocate_def Let_def r(1) option.case prod.case split: prod.split)
  qed
  show ?thesis
  proof (cases target)
    case None
    have "z < 2 ^ ?p" if z: "(False, z) \<in> set bs" for z
    proof -
      obtain x where xz: "(x, z) \<in> set (frees 0 bs)" using z frees_iff [of z 0 bs] by blast
      then have "ceil_log2 z < ?p" using c(2) None by (auto simp: chosen_def powers_def)
      then show ?thesis using free_power [OF h(3) xz] power_strict_increasing [of "ceil_log2 z" ?p "2 :: nat"] by simp
    qed
    then show ?thesis using c(1) None by simp
  next
    case (Some tw)
    obtain t w where tw: "tw = (t, w)" by fastforce
    let ?k = "unat w"
    obtain xs ys where x: "bs = xs @ (False, 2 ^ ?k) # ys" "t = span xs" "prev = last_of (frees 0 xs)"
        "fits (bs_fit s) (2 ^ ?p) xs (2 ^ ?k) ys" "5 \<le> ?k"
      using chosen_powers [OF h(3)] c(2) unfolding Some tw by blast
    have pk: "?p \<le> ?k" using x(4) by (simp add: fits_def)
    have "?k \<le> unat (bs_power s)" using buddies_pos [OF h(2), of False "2 ^ ?k"] x(1) by auto
    then have k31: "?k < 31" using h(1) by simp
    have bl: "2 ^ ?k dvd span xs" "buddies ?k cs \<Longrightarrow> buddies (unat (bs_power s)) (xs @ cs @ ys)" for cs
      using buddies_block [OF h(2) x(1)] by auto
    let ?ys = "split_off ?p ?k @ ys"
    obtain s1 where s1: "bs_split ?k ?p (span xs) s = Some (?p, s1)" "same_fields s s1"
        "bs_cells s1 0 (xs @ (False, 2 ^ ?p) # ?ys) None"
      using bs_split_ok [OF h(3) [unfolded x(1)] need_power_bounds(1) pk k31 bl(1)] by blast
    have hd: "bs_head s1 = first_of (frees 0 xs) (Some (span xs))"
      using s1(2) h(4) by (simp add: same_fields_def x(1))
    have p31: "?p < 31" using pk k31 by simp
    note tk = bs_take_ok [OF s1(3) hd x(3) need_power_bounds(1) p31]
    have run: "bs_allocate s value_size values_count =
        (case bs_take s1 prev (span xs) ?p of None \<Rightarrow> (Inl Al_undefined, s) | Some s' \<Rightarrow> (Inr (span xs + 9), s'))"
      unfolding c(1) Some tw by (simp add: s1(1) x(2) bs_occupied_meta_size_def split: option.split)
    have "frees (span xs + 2 ^ ?p) (split_off ?p ?k) = [] \<longleftrightarrow> ?p = ?k"
      using pk by (auto simp: frees_empty split_off_def)
    then have empty: "frees (span xs + 2 ^ ?p) ?ys = [] \<longleftrightarrow> ?p = ?k \<and> frees 0 ys = []"
      by (simp add: frees_empty [of _ ys])
    show ?thesis
    proof (cases "?p = ?k \<and> frees 0 ys = []")
      case True
      then have "bs_allocate s value_size values_count = (Inl Al_undefined, s)"
        using tk(1) empty unfolding run by simp
      then show ?thesis using x(1,4) True by (auto simp: Let_def)
    next
      case False
      obtain s' where s': "bs_take s1 prev (span xs) ?p = Some s'" "bs_cells s' 0 (xs @ (True, 2 ^ ?p) # ?ys) None"
          "bs_head s' = first_of (frees 0 (xs @ (True, 2 ^ ?p) # ?ys)) None" "bs_power s' = bs_power s1" "bs_fit s' = bs_fit s1"
          "bs_avail s' = bs_avail s1 - 2 ^ ?p"
        using tk(2) empty False by blast
      have "buddies (unat (bs_power s)) (xs @ ((True, 2 ^ ?p) # split_off ?p ?k) @ ys)"
        by (rule bl(2) [OF buddies_split_off [OF pk]])
      then have "bs_rep s' (xs @ (True, 2 ^ ?p) # ?ys)"
        using s' s1(2) h(1) by (simp add: bs_rep_def same_fields_def)
      moreover have "bs_allocate s value_size values_count = (Inr (span xs + 9), s')" unfolding run s'(1) by simp
      ultimately show ?thesis using x(1,4) False s'(4-6) s1(2) unfolding Let_def same_fields_def
        by (intro disjI1 exI [of _ xs] exI [of _ ?k] exI [of _ ys] exI [of _ s']) simp
    qed
  qed
qed

section \<open>The other operations\<close>

lemma bs_new_ok:
  assumes "bs_new grants n mode = Inr s" "n \<le> 30"
  shows "bs_rep s [(False, 2 ^ unat n)] \<and> bs_power s = ucast n \<and> bs_fit s = mode \<and> bs_avail s = 2 ^ unat n"
proof -
  have n: "unat n \<le> 30" using assms(2) by (simp add: word_le_nat_alt)
  have z: "unat (push_bit (unat n) 1 :: 64 word) = 2 ^ unat n"
  proof -
    have "(2 :: nat) ^ unat n < 2 ^ 64" using n by (intro power_strict_increasing) simp_all
    moreover have "push_bit (unat n) (1 :: 64 word) = of_nat (2 ^ unat n)" by (simp add: push_bit_eq_mult)
    ultimately show ?thesis by (simp only: unat_of_nat_small)
  qed
  have "\<not> 64 \<le> n" using n by (simp add: word_le_nat_alt)
  moreover have big: "\<not> push_bit (unat n) 1 < bs_block_meta_size"
    using assms(1) calculation by (auto simp: bs_new_def Let_def)
  then have "17 \<le> (2 :: nat) ^ unat n" using z by (simp add: bs_block_meta_size_def word_less_nat_alt)
  then have n5: "5 \<le> unat n"
    using power_increasing [of "unat n" 4 "2 :: nat"] by (cases "5 \<le> unat n") auto
  define s0 where "s0 = \<lparr>bs_power = ucast n, bs_avail = push_bit (unat n) 1, bs_head = Some 0, bs_fit = mode,
      bs_tags = Map.empty, bs_mem = Map.empty\<rparr>"
  have u: "(ucast n :: 8 word) = of_nat (unat n)" by simp
  let ?s1 = "put_tag 0 (ucast n) (put_tag 0 (ucast n) s0)"
  have av: "avail_block 0 (put_tag 0 (ucast n) s0) = Some ?s1"
    using tag_word(2) [of "unat n"] n unfolding u by (simp add: avail_block_def)
  have "s = set_next_available 0 None (set_prev_available 0 None ?s1)"
  proof -
    have "bs_new grants n mode = (if grants (push_bit (unat n) 1 + bs_meta_size)
        then Inr (set_next_available 0 None (set_prev_available 0 None ?s1)) else Inl Al_bad_alloc)"
      using calculation big by (simp only: bs_new_def Let_def s0_def [symmetric] av option.case if_False) simp
    then show ?thesis using assms(1) by (simp split: if_splits)
  qed
  moreover have "unat (ucast n :: 8 word) = unat n"
    using n by (simp add: unsigned_ucast_eq take_bit_nat_eq_self)
  moreover have "unat (ucast n AND 127 :: 8 word) = unat n" "drop_bit 7 (ucast n :: 8 word) = 0"
    using tag_word(1,3) [of "unat n"] n unfolding u by simp_all
  ultimately show ?thesis
    using n n5 z whole [of "unat n" False]
    by (simp add: bs_rep_def set_next_available_def set_prev_available_def put_word_def put_tag_def s0_def
        push_bit_eq_mult)
qed

lemma bs_mode_ok: "bs_rep s bs \<Longrightarrow> bs_rep (bs_set_fit_mode s mode) bs"
  by (simp add: bs_rep_def bs_set_fit_mode_def)

text \<open>What the user writes into a block leaves the blocks alone.\<close>

lemma bs_store_ok:
  assumes rep: "bs_rep s (xs @ (True, z) # ys)" and ij: "9 + i + j \<le> z"
  shows "bs_rep (bs_store s (span xs + 9 + i) j) (xs @ (True, z) # ys)"
proof -
  let ?s = "bs_store s (span xs + 9 + i) j"
  have c: "bs_cells s 0 xs (first_of (frees (span xs + z) ys) None)" "bs_cells s (span xs) [(True, z)] None"
      "bs_cells s (span xs + z) ys None"
    using rep by (auto simp: bs_rep_def bs_cells_append)
  have "bs_cells ?s 0 xs (first_of (frees (span xs + z) ys) None)" "bs_cells ?s (span xs + z) ys None"
      "bs_cells ?s (span xs) [(True, z)] None"
    subgoal unfolding bs_store_def using c(1) by (subst bs_cells_frame [where s = s]) (simp_all add: scribble_other)
    subgoal unfolding bs_store_def using c(3) ij by (subst bs_cells_frame [where s = s]) (auto intro: scribble_other)
    subgoal using c(2) by (auto simp: bs_store_def scribble_other)
    done
  then have "bs_cells ?s 0 (xs @ (True, z) # ys) None" by (simp add: bs_cells_append)
  then show ?thesis using rep by (simp add: bs_rep_def bs_store_def)
qed

text \<open>The loop is never entered: \<open>curr_size\<close> is 0, and no block has the exponent 0.\<close>

lemma bs_merge_stop:
  "block_is_occupied s b = Some u \<Longrightarrow> get_block_data_size s b = Some i \<Longrightarrow> (of_nat i :: 64 word) \<noteq> 0 \<Longrightarrow>
   bs_merge (Suc fuel) b t 0 s = Some s"
  by simp

lemma bs_deallocate_ok:
  assumes rep: "bs_rep s (xs @ (True, z) # ys)" and other: "xs @ ys \<noteq> []"
  shows "\<exists>s'. bs_deallocate s (Some (int (span xs + 9))) = (Inr (), s') \<and> bs_rep s' (xs @ (True, z) # ys) \<and>
    bs_power s' = bs_power s \<and> bs_fit s' = bs_fit s \<and> bs_avail s' = bs_avail s + of_nat z"
proof -
  let ?n = "unat (bs_power s)" and ?a = "span xs"
  have h: "?n \<le> 30" "buddies ?n (xs @ (True, z) # ys)" "bs_cells s 0 (xs @ (True, z) # ys) None"
      "bs_head s = first_of (frees 0 (xs @ (True, z) # ys)) None"
    using rep by (auto simp: bs_rep_def)
  have c: "bs_cells s 0 xs (first_of (frees (span xs + z) ys) None)" "bs_cells s (span xs + z) ys None"
      "bs_mem s (?a + 1) = Some Owner"
    using h(3) by (auto simp: bs_cells_append)
  obtain k t where k: "5 \<le> k" "z = 2 ^ k" "bs_tags s ?a = Some t" "unat (t AND 127) = k"
    using h(3) by (auto simp: bs_cells_append)
  have "k \<le> ?n" using buddies_pos [OF h(2), of True z] k(2) by auto
  moreover have "k \<noteq> ?n" using buddies_full [OF h(2), of xs True ys] other k(2) by auto
  ultimately have kn: "k < ?n" by simp
  have k31: "k < 31" using kn h(1) by simp
  obtain us u w zs where b: "xs @ (True, z) # ys = us @ (u, w) # zs" "span us = ?a XOR 2 ^ k"
    using buddies_buddy [OF h(2) _ kn, of xs True ys 0] k(2) by auto
  let ?b = "span us"
  obtain j tb where j: "5 \<le> j" "bs_tags s ?b = Some tb" "unat (tb AND 127) = j"
    using h(3) unfolding b(1) by (auto simp: bs_cells_append)
  define s1 where "s1 = (if drop_bit 7 tb \<noteq> 0 then put_tag ?a (t AND NOT 128) s else s)"
  have t127: "(t AND NOT 128) AND 127 = t AND 127"
  proof -
    have "NOT 128 AND 127 = (127 :: 8 word)" by simp
    then show ?thesis by (simp add: and.assoc)
  qed
  have av: "avail_block ?a s = Some (put_tag ?a (t AND NOT 128) s)" using k(3) by (simp add: avail_block_def)
  have sz: "get_block_data_size s ?a = Some k" using k by (simp add: get_block_data_size_def)
  have bu: "get_buddy s ?a = Some ?b" using sz k31 b(2) by (simp add: get_buddy_def int_shift_def)
  have oc: "block_is_occupied s ?b = Some (drop_bit 7 tb \<noteq> 0)" using j(2) by (simp add: block_is_occupied_def)
  have z32: "32 \<le> z" using k(1,2) pow_32 by simp
  have rep1: "bs_rep s1 (xs @ (True, z) # ys)"
  proof -
    have "bs_cells (put_tag ?a (t AND NOT 128) s) 0 (xs @ (True, z) # ys) None"
      using c k z32 t127 by (simp add: bs_cells_append scribble_other)
    then show ?thesis using rep by (simp add: bs_rep_def s1_def put_tag_def)
  qed
  have m: "bs_merge 256 ?b ?a 0 s1 = Some s1"
  proof -
    have "bs_cells s1 0 (us @ (u, w) # zs) None" using rep1 unfolding b(1) by (simp add: bs_rep_def)
    then obtain i ti where i: "5 \<le> i" "bs_tags s1 ?b = Some ti" "unat (ti AND 127) = i"
      by (auto simp: bs_cells_append)
    have "(of_nat i :: 64 word) \<noteq> 0"
    proof -
      have "i < 2 ^ 64" using i(3) unsigned_less [of "ti AND 127", where 'a = nat] by simp
      then have "unat (of_nat i :: 64 word) = i" by (simp add: unat_of_nat_small)
      then show ?thesis using i(1) by auto
    qed
    then show ?thesis using i bs_merge_stop [of s1 ?b "drop_bit 7 ti \<noteq> 0" i 255 ?a]
      by (simp add: block_is_occupied_def get_block_data_size_def)
  qed
  have "int_shift ?n = Some (2 ^ ?n)" using h(1) by (simp add: int_shift_def)
  moreover have "?a + 17 < 2 ^ ?n" using buddies_span [OF h(2)] z32 by simp
  ultimately have tr: "belong_trusted_memory s ?a = Some True"
      "belong_trusted_memory s (?a + 17) = Some True"
    by (auto simp: belong_trusted_memory_def)
  let ?s' = "s1\<lparr>bs_avail := bs_avail s1 + of_nat z\<rparr>"
  have run: "do {
       buddy \<leftarrow> get_buddy s ?a;
       k \<leftarrow> get_block_data_size s ?a;
       exempted_size \<leftarrow> int_shift k;
       occ \<leftarrow> block_is_occupied s buddy;
       s1 \<leftarrow> (if occ then avail_block ?a s else Some s);
       s2 \<leftarrow> bs_merge 256 buddy ?a 0 s1;
       Some (s2\<lparr>bs_avail := bs_avail s2 + of_nat exempted_size\<rparr>) } = Some ?s'"
  proof -
    have "int_shift k = Some z" using k31 k(2) by (simp add: int_shift_def)
    moreover have "(if drop_bit 7 tb \<noteq> 0 then avail_block ?a s else Some s) = Some s1" using av by (simp add: s1_def)
    ultimately show ?thesis by (simp only: bu sz oc bind.bind_lunit m)
  qed
  have "nat (int (?a + 9)) - bs_occupied_meta_size = ?a" "\<not> int (?a + 9) < int bs_occupied_meta_size"
    by (simp_all add: bs_occupied_meta_size_def)
  then have "bs_deallocate s (Some (int (?a + 9))) = (Inr (), ?s')"
    by (simp only: bs_deallocate_def Let_def option.case if_False c(3) arena_cell.case tr run bool.case if_True simp_thms)
  moreover have "bs_rep ?s' (xs @ (True, z) # ys)" using rep1 by (simp add: bs_rep_def)
  moreover have "bs_power ?s' = bs_power s" "bs_fit ?s' = bs_fit s" "bs_avail ?s' = bs_avail s + of_nat z"
    by (simp_all add: s1_def put_tag_def)
  ultimately show ?thesis by blast
qed

lemma bs_blocks_ok:
  assumes "bs_cells s a bs n" "a + span bs = 2 ^ unat (bs_power s)" "unat (bs_power s) \<le> 30" "span bs < fuel"
  shows "\<exists>info. bs_blocks_from fuel s a = Some info \<and> map fst info = map (of_nat \<circ> snd) bs"
  using assms
proof (induction s a bs n arbitrary: fuel rule: bs_cells.induct)
  case (1 s a n)
  then show ?case by (cases fuel) (auto simp: belong_trusted_memory_def int_shift_def)
next
  case (2 s a used z bs n)
  obtain k t where k: "5 \<le> k" "z = 2 ^ k" "bs_tags s a = Some t" "unat (t AND 127) = k" using 2(2) by auto
  obtain g where g: "fuel = Suc g" using 2(5) by (cases fuel) auto
  have "a + (z + span bs) = 2 ^ unat (bs_power s)" using 2(3) by simp
  then have z: "0 < z" "z \<le> 2 ^ unat (bs_power s)" using k(2) by (simp, linarith)
  then have "k \<le> unat (bs_power s)" using k(2) by simp
  then have k31: "k < 31" using 2(4) by simp
  obtain info where "bs_blocks_from g s (a + z) = Some info" "map fst info = map (of_nat \<circ> snd) bs"
    using 2(1) [of g] 2(2-5) z(1) g by (auto simp: add.assoc)
  moreover have "belong_trusted_memory s a = Some True"
    using 2(3,4) z(1) by (simp add: belong_trusted_memory_def int_shift_def)
  moreover have "block_is_occupied s a = Some (drop_bit 7 t \<noteq> 0)" "get_block_data_size s a = Some k"
    using k(3,4) by (simp_all add: block_is_occupied_def get_block_data_size_def)
  moreover have "int_shift k = Some z" using k31 k(2) by (simp add: int_shift_def)
  ultimately show ?case by (simp add: g)
qed

section \<open>Clients\<close>

text \<open>
  The runs of a client, with the pointers it has ever been given and how many bytes it asked for there, as a
  product of natural numbers; it may give back a block more than once and use it all the same. The first argument
  is the exponent of the memory's size.
\<close>

inductive bs_reach :: "64 word \<Rightarrow> bs \<Rightarrow> (nat \<times> nat) list \<Rightarrow> bool" where
  reach_new: "bs_reach n s []" if "bs_new grants n mode = Inr s"
| reach_alloc: "bs_reach n s' ((p, unat value_size * unat values_count) # ps)"
  if "bs_reach n s ps" "bs_allocate s value_size values_count = (Inr p, s')"
| reach_dealloc: "bs_reach n (snd (bs_deallocate s (Some (int p)))) ps" if "bs_reach n s ps" "(p, j) \<in> set ps"
| reach_store: "bs_reach n (bs_store s (p + i) l) ps" if "bs_reach n s ps" "(p, j) \<in> set ps" "i + l \<le> j"
| reach_mode: "bs_reach n (bs_set_fit_mode s mode) ps" if "bs_reach n s ps"

definition apart :: "nat \<times> nat \<Rightarrow> nat \<times> nat \<Rightarrow> bool" where
  "apart = (\<lambda>(p, j) (q, i). p + j \<le> q \<or> q + i \<le> p)"

text \<open>Every pointer has a block of its own, which stays in use.\<close>

definition served :: "blocks \<Rightarrow> (nat \<times> nat) list \<Rightarrow> bool" where
  "served bs ps \<longleftrightarrow> length (filter fst bs) = length ps \<and> (\<exists>z. (False, z) \<in> set bs) \<and>
     (\<forall>(p, j) \<in> set ps. \<exists>us z vs. bs = us @ (True, z) # vs \<and> p = span us + 9 \<and> j + 9 \<le> z) \<and> sorted_wrt apart ps"

lemma served_alloc:
  assumes sv: "served (xs @ (False, tz) # ys) ps" and tz: "z + span cs = tz" "\<forall>c \<in> set cs. \<not> fst c"
    and j: "j + 9 \<le> z" and free: "\<exists>z. (False, z) \<in> set (xs @ cs @ ys)"
  shows "served (xs @ (True, z) # cs @ ys) ((span xs + 9, j) # ps)"
proof -
  have "filter fst cs = []" using tz(2) by (simp add: filter_empty_conv)
  then have len: "length (filter fst (xs @ (True, z) # cs @ ys)) = Suc (length ps)"
    using sv by (simp add: served_def)
  have old: "(\<exists>us w vs. xs @ (True, z) # cs @ ys = us @ (True, w) # vs \<and> q = span us + 9 \<and> i + 9 \<le> w) \<and>
      apart (span xs + 9, j) (q, i)" if q: "(q, i) \<in> set ps" for q i
  proof -
    obtain us w vs where us: "xs @ (False, tz) # ys = us @ (True, w) # vs" "q = span us + 9" "i + 9 \<le> w"
      using sv q unfolding served_def by fastforce
    from us(1) show ?thesis
    proof (cases rule: append_block)
      case (1 vs')
      show ?thesis
      proof
        show "\<exists>us w vs. xs @ (True, z) # cs @ ys = us @ (True, w) # vs \<and> q = span us + 9 \<and> i + 9 \<le> w"
          by (rule exI [of _ us], rule exI [of _ w], rule exI [of _ "vs' @ (True, z) # cs @ ys"]) (use 1 us(2,3) in simp)
        show "apart (span xs + 9, j) (q, i)" using 1 us(2,3) by (simp add: apart_def)
      qed
    next
      case (2 us')
      then obtain us'' where u: "us' = (False, tz) # us''" "ys = us'' @ (True, w) # vs" by (cases us') auto
      show ?thesis
      proof
        show "\<exists>us w vs. xs @ (True, z) # cs @ ys = us @ (True, w) # vs \<and> q = span us + 9 \<and> i + 9 \<le> w"
          by (rule exI [of _ "xs @ (True, z) # cs @ us''"], rule exI [of _ w], rule exI [of _ vs])
            (use u 2(2) us(2,3) tz(1) in auto)
        show "apart (span xs + 9, j) (q, i)" using u 2(2) us(2) tz(1) j by (simp add: apart_def)
      qed
    qed
  qed
  show ?thesis unfolding served_def
  proof (intro conjI)
    show "\<forall>(p, i) \<in> set ((span xs + 9, j) # ps). \<exists>us w vs. xs @ (True, z) # cs @ ys = us @ (True, w) # vs \<and> p = span us + 9 \<and> i + 9 \<le> w"
      using old j by auto
    show "sorted_wrt apart ((span xs + 9, j) # ps)" using old sv by (auto simp: served_def)
  qed (use len free in auto)
qed

text \<open>Requests of at least one byte that leave room for the sum with the header and the rounding.\<close>

definition requests_ok :: "(nat \<times> nat) list \<Rightarrow> bool" where
  "requests_ok ps \<longleftrightarrow> (\<forall>(p, j) \<in> set ps. 0 < j \<and> j + 17 < 2 ^ 64)"

lemma bs_reach_served: "bs_reach n s ps \<Longrightarrow> n \<le> 30 \<Longrightarrow> requests_ok ps \<Longrightarrow> \<exists>bs. bs_rep s bs \<and> served bs ps"
proof (induction rule: bs_reach.induct)
  case (reach_new grants n s mode)
  then show ?case using bs_new_ok [OF reach_new(1)] by (auto simp: served_def)
next
  case (reach_alloc n s ps value_size values_count p s')
  have small: "0 < unat value_size * unat values_count" "unat value_size * unat values_count + 17 < 2 ^ 64"
    using reach_alloc.prems(2) by (simp_all add: requests_ok_def)
  note exact = unat_product [OF small(2)]
  obtain bs where bs: "bs_rep s bs" "served bs ps"
    using reach_alloc.IH reach_alloc.prems by (auto simp: requests_ok_def)
  let ?r = "unat (value_size * values_count)"
  let ?p = "need_power ?r"
  from bs_allocate_ok [OF bs(1) small [folded exact]] reach_alloc(2) obtain xs k ys where
    x: "bs = xs @ (False, 2 ^ k) # ys" "fits (bs_fit s) (2 ^ ?p) xs (2 ^ k) ys" "\<not> (?p = k \<and> frees 0 ys = [])"
      "p = span xs + 9" "bs_rep s' (xs @ (True, 2 ^ ?p) # split_off ?p k @ ys)"
    by (auto simp: Let_def split: if_splits)
  have pk: "?p \<le> k" using x(2) by (simp add: fits_def)
  have "served (xs @ (True, 2 ^ ?p) # split_off ?p k @ ys) ((span xs + 9, ?r) # ps)"
  proof (rule served_alloc [OF bs(2) [unfolded x(1)]])
    show "2 ^ ?p + span (split_off ?p k) = 2 ^ k" using buddies_span [OF buddies_split_off [OF pk, of True]] by simp
    show "\<exists>z. (False, z) \<in> set (xs @ split_off ?p k @ ys)"
      using x(3) pk by (cases "?p = k") (auto simp: frees_empty split_off_def intro: exI [of _ "2 ^ ?p"])
  qed (use need_power_bounds(2) [of ?r] in \<open>auto simp: split_off_def\<close>)
  then show ?case using x(4,5) exact by auto
next
  case (reach_dealloc n s ps p j)
  obtain bs where bs: "bs_rep s bs" "served bs ps" using reach_dealloc.IH reach_dealloc.prems by blast
  obtain us z vs where u: "bs = us @ (True, z) # vs" "p = span us + 9"
    using bs(2) reach_dealloc(2) unfolding served_def by fastforce
  have "us @ vs \<noteq> []" using bs(2) u(1) by (auto simp: served_def)
  from bs_deallocate_ok [OF bs(1) [unfolded u(1)] this] bs(2) show ?case unfolding u by auto
next
  case (reach_store n s ps p j i l)
  obtain bs where bs: "bs_rep s bs" "served bs ps" using reach_store.IH reach_store.prems by blast
  obtain us z vs where u: "bs = us @ (True, z) # vs" "p = span us + 9" "j + 9 \<le> z"
    using bs(2) reach_store(2) unfolding served_def by fastforce
  have "bs_rep (bs_store s (span us + 9 + i) l) (us @ (True, z) # vs)"
    by (rule bs_store_ok) (use bs(1) u reach_store(3) in auto)
  then show ?case using bs(2) u by auto
qed (use bs_mode_ok in blast)

lemma bs_cells_length: "bs_cells s a bs n \<Longrightarrow> 32 * length bs \<le> span bs"
proof (induction s a bs n rule: bs_cells.induct)
  case (2 s a used z bs n)
  then have "32 \<le> z" using pow_32 by auto
  then show ?case using 2 by simp
qed simp

lemma bs_reach_count:
  assumes "bs_reach n s ps" "n \<le> 30" "requests_ok ps"
  shows "32 * length ps + 32 \<le> 2 ^ unat (bs_power s) \<and> sorted_wrt apart ps"
proof -
  obtain bs where bs: "bs_rep s bs" "served bs ps" using bs_reach_served [OF assms] by blast
  obtain z where "(False, z) \<in> set bs" using bs(2) by (auto simp: served_def)
  then have "length (filter fst bs) < length bs" by (intro length_filter_less) auto
  then have "32 * length ps + 32 \<le> 32 * length bs" using bs(2) by (simp add: served_def)
  also have "\<dots> \<le> 2 ^ unat (bs_power s)" using bs_cells_length [of s 0 bs None] bs_rep_span [OF bs(1)] bs(1)
    by (simp add: bs_rep_def)
  finally show ?thesis using bs(2) by (simp add: served_def)
qed

lemma bs_reach_info:
  assumes "bs_reach n s ps" "n \<le> 30" "requests_ok ps"
  shows "\<exists>info. bs_create_blocks_info s = Some info \<and> sum_list (map (unat \<circ> fst) info) = 2 ^ unat (bs_power s)"
proof -
  obtain bs where bs: "bs_rep s bs" using bs_reach_served [OF assms] by blast
  note sp = bs_rep_span [OF bs]
  have c: "bs_cells s 0 bs None" "unat (bs_power s) \<le> 30" using bs by (simp_all add: bs_rep_def)
  have "span bs < Suc (2 ^ unat (bs_power s))" using sp by simp
  then obtain info where info: "bs_create_blocks_info s = Some info" "map fst info = map (of_nat \<circ> snd) bs"
    using bs_blocks_ok [OF c(1) _ c(2), of "Suc (2 ^ unat (bs_power s))"] sp by (auto simp: bs_create_blocks_info_def)
  have "unat (of_nat w :: 64 word) = w" if "(v, w) \<in> set bs" for v w
  proof -
    have "w \<in> set (map snd bs)" using that by force
    then have "w \<le> span bs" unfolding span_def by (rule member_le_sum_list) simp
    then show ?thesis using sp by (simp add: unat_of_nat_small)
  qed
  then have "map (unat \<circ> fst) info = map snd bs"
    using arg_cong [OF info(2), of "map unat"] by (auto intro!: map_cong)
  then show ?thesis using info(1) sp by (simp add: span_def)
qed

end
