(* ===== verification/Red_Black_Allocator.thy ===== *)
theory Red_Black_Allocator
  imports Arena Collection
begin

text \<open>
  \<open>allocator_red_black_tree.cpp\<close>: the blocks are a list in the order of their addresses, and the free ones are
  the nodes of a red-black tree by their sizes. The header of a block has the pointers to the blocks
  before and behind it, a size, and two characters, the colour and whether the block is in use; a free block has
  the three pointers of the tree behind them, a block in use the address of the allocator, over the
  second of the three. The mutex and the messages are left out.
\<close>

section \<open>State\<close>

text \<open>The characters \<open>'0'\<close> and \<open>'1'\<close> of the headers beside the words of the arena.\<close>

record rb =
  rb_space :: "64 word"
  rb_fit :: fit_mode
  rb_root :: "nat option"
  rb_chars :: "nat \<Rightarrow> bool option"
  rb_mem :: arena

definition rb_meta_size :: "64 word" where "rb_meta_size = 84"
definition rb_available_meta_size :: "64 word" where "rb_available_meta_size = 50"
definition rb_occupied_meta_size :: "64 word" where "rb_occupied_meta_size = 32"

definition put_char :: "nat \<Rightarrow> bool \<Rightarrow> rb \<Rightarrow> rb" where
  "put_char a c s = s\<lparr>rb_chars := (rb_chars s)(a \<mapsto> c), rb_mem := scribble (rb_mem s) a 1\<rparr>"

definition put_cell :: "nat \<Rightarrow> arena_cell \<Rightarrow> rb \<Rightarrow> rb" where
  "put_cell a c s =
     s\<lparr>rb_chars := (\<lambda>b. if a \<le> b \<and> b < a + 8 then None else rb_chars s b), rb_mem := put (rb_mem s) a c\<rparr>"

text \<open>Any bytes that the user writes at \<open>a\<close>, \<open>n\<close> of them.\<close>

definition rb_store :: "rb \<Rightarrow> nat \<Rightarrow> nat \<Rightarrow> rb" where
  "rb_store s a n =
     s\<lparr>rb_chars := (\<lambda>b. if a \<le> b \<and> b < a + n then None else rb_chars s b), rb_mem := scribble (rb_mem s) a n\<rparr>"

section \<open>The fields of a block\<close>

text \<open>A read gives \<open>None\<close> where no pointer, size or character was written. The null pointer has no fields.\<close>

abbreviation rb_link :: "nat \<Rightarrow> rb \<Rightarrow> nat \<Rightarrow> nat option option" where
  "rb_link off s a \<equiv> get_link (rb_mem s) (a + off)"

definition get_prev_block :: "rb \<Rightarrow> nat \<Rightarrow> nat option option" where "get_prev_block s a = rb_link 0 s a"
definition get_next_block :: "rb \<Rightarrow> nat \<Rightarrow> nat option option" where "get_next_block s a = rb_link 8 s a"
definition get_parent :: "rb \<Rightarrow> nat \<Rightarrow> nat option option" where "get_parent s a = rb_link 26 s a"
definition get_left_child :: "rb \<Rightarrow> nat \<Rightarrow> nat option option" where "get_left_child s a = rb_link 34 s a"
definition get_right_child :: "rb \<Rightarrow> nat \<Rightarrow> nat option option" where "get_right_child s a = rb_link 42 s a"

definition rb_block_size :: "rb \<Rightarrow> nat \<Rightarrow> 64 word option" where
  "rb_block_size s a = get_size (rb_mem s) (a + 16)"

definition set_prev_block :: "nat \<Rightarrow> nat option \<Rightarrow> rb \<Rightarrow> rb" where "set_prev_block a p = put_cell a (Link p)"
definition set_next_block :: "nat \<Rightarrow> nat option \<Rightarrow> rb \<Rightarrow> rb" where "set_next_block a p = put_cell (a + 8) (Link p)"
definition set_rb_size :: "nat \<Rightarrow> 64 word \<Rightarrow> rb \<Rightarrow> rb" where "set_rb_size a n = put_cell (a + 16) (Size n)"
definition set_parent :: "nat \<Rightarrow> nat option \<Rightarrow> rb \<Rightarrow> rb" where "set_parent a p = put_cell (a + 26) (Link p)"
definition set_left_child :: "nat \<Rightarrow> nat option \<Rightarrow> rb \<Rightarrow> rb" where "set_left_child a p = put_cell (a + 34) (Link p)"
definition set_right_child :: "nat \<Rightarrow> nat option \<Rightarrow> rb \<Rightarrow> rb" where "set_right_child a p = put_cell (a + 42) (Link p)"
definition set_block_allocator :: "nat \<Rightarrow> rb \<Rightarrow> rb" where "set_block_allocator a = put_cell (a + 34) Owner"

definition rb_is_occupied :: "rb \<Rightarrow> nat \<Rightarrow> bool option" where "rb_is_occupied s a = rb_chars s (a + 25)"
definition rb_occupy_block :: "nat \<Rightarrow> rb \<Rightarrow> rb" where "rb_occupy_block a = put_char (a + 25) True"
definition rb_avail_block :: "nat \<Rightarrow> rb \<Rightarrow> rb" where "rb_avail_block a = put_char (a + 25) False"

definition block_is_black :: "rb \<Rightarrow> nat option \<Rightarrow> bool option" where
  "block_is_black s b = (case b of None \<Rightarrow> Some True | Some a \<Rightarrow> rb_chars s (a + 24))"

definition set_black :: "nat \<Rightarrow> rb \<Rightarrow> rb" where "set_black a = put_char (a + 24) True"
definition set_red :: "nat \<Rightarrow> rb \<Rightarrow> rb" where "set_red a = put_char (a + 24) False"

text \<open>The parent of a block that may be null is not written.\<close>

definition set_parent_of :: "nat option \<Rightarrow> nat option \<Rightarrow> rb \<Rightarrow> rb" where
  "set_parent_of b p s = (case b of None \<Rightarrow> s | Some a \<Rightarrow> set_parent a p s)"

text \<open>The address of the link that points down to \<open>b\<close>: the left one of its parent if that points to it, else the right one.\<close>

definition link_down :: "rb \<Rightarrow> nat \<Rightarrow> nat \<Rightarrow> nat option" where
  "link_down s p b = map_option (\<lambda>l. if l = Some b then p + 34 else p + 42) (get_left_child s p)"

text \<open>\<open>std::swap\<close> of two pointers by their addresses.\<close>

definition swap_links :: "nat \<Rightarrow> nat \<Rightarrow> rb \<Rightarrow> rb option" where
  "swap_links x y s = do {
     p \<leftarrow> get_link (rb_mem s) x;
     q \<leftarrow> get_link (rb_mem s) y;
     Some (put_cell y (Link p) (put_cell x (Link q) s))
   }"

section \<open>The constructor\<close>

definition rb_new :: "(64 word \<Rightarrow> bool) \<Rightarrow> 64 word \<Rightarrow> fit_mode \<Rightarrow> alloc_exn + rb" where
  "rb_new grants space_size mode =
     (if space_size < rb_available_meta_size then Inl (Al_logic_error ''Cannot initialize allocator'')
      else if \<not> grants (space_size + rb_meta_size) then Inl Al_bad_alloc
      else Inr (set_right_child 0 None (set_left_child 0 None (set_parent 0 None (rb_avail_block 0 (set_black 0
        (set_rb_size 0 space_size (set_next_block 0 None (set_prev_block 0 None
          \<lparr>rb_space = space_size, rb_fit = mode, rb_root = Some 0, rb_chars = Map.empty, rb_mem = Map.empty\<rparr>)))))))))"

section \<open>Rotations\<close>

definition rb_new_root :: "nat option \<Rightarrow> nat \<Rightarrow> nat \<Rightarrow> rb \<Rightarrow> rb option" where
  "rb_new_root parent block new_root s =
     (case parent of
        None \<Rightarrow> Some (set_parent new_root None (s\<lparr>rb_root := Some new_root\<rparr>))
      | Some p \<Rightarrow>
          map_option (\<lambda>r. if r = Some block then set_right_child p (Some new_root) s else set_left_child p (Some new_root) s)
            (get_right_child s p))"

definition left_rotate :: "nat \<Rightarrow> rb \<Rightarrow> rb option" where
  "left_rotate block s = do {
     parent \<leftarrow> get_parent s block;
     right \<leftarrow> get_right_child s block;
     new_root \<leftarrow> right;
     root_left_child \<leftarrow> get_left_child s new_root;
     let s1 = set_parent_of root_left_child (Some block) (set_right_child block root_left_child s);
     let s2 = set_parent new_root parent (set_parent block (Some new_root) (set_left_child new_root (Some block) s1));
     rb_new_root parent block new_root s2
   }"

definition right_rotate :: "nat \<Rightarrow> rb \<Rightarrow> rb option" where
  "right_rotate block s = do {
     parent \<leftarrow> get_parent s block;
     left \<leftarrow> get_left_child s block;
     new_root \<leftarrow> left;
     right_root_child \<leftarrow> get_right_child s new_root;
     let s1 = set_parent_of right_root_child (Some block) (set_left_child block right_root_child s);
     let s2 = set_parent new_root parent (set_parent block (Some new_root) (set_right_child new_root (Some block) s1));
     rb_new_root parent block new_root s2
   }"

section \<open>Insertion\<close>

text \<open>
  The outcome of an insertion: the state, with the exception of \<open>get_uncle\<close> if it throws. \<open>None\<close> is undefined, or the
  end of the fuel.
\<close>

type_synonym rb_outcome = "(alloc_exn option \<times> rb) option"

text \<open>The uncle is black: \<open>parent_left\<close> tells on which side of the grandfather the parent is.\<close>

definition rb_insert_rotate :: "bool \<Rightarrow> nat \<Rightarrow> nat \<Rightarrow> nat \<Rightarrow> rb \<Rightarrow> rb option" where
  "rb_insert_rotate parent_left curr_block parent granddad s =
     (if parent_left then do {
        let s1 = set_red granddad (set_black parent s);
        r \<leftarrow> get_right_child s1 parent;
        s2 \<leftarrow> (if r = Some curr_block then left_rotate parent (set_black curr_block (set_red parent s1)) else Some s1);
        right_rotate granddad s2
      }
      else do {
        let s1 = set_red granddad (set_black curr_block s);
        l \<leftarrow> get_left_child s1 parent;
        s2 \<leftarrow> (if l = Some curr_block then right_rotate parent s1 else Some s1);
        left_rotate granddad s2
      })"

fun balance_after_insert :: "nat \<Rightarrow> nat \<Rightarrow> rb \<Rightarrow> rb_outcome" where
  "balance_after_insert 0 curr_block s = None"
| "balance_after_insert (Suc fuel) curr_block s =
     (case get_parent s curr_block of
        None \<Rightarrow> None
      | Some None \<Rightarrow> Some (None, set_black curr_block s)
      | Some (Some p) \<Rightarrow>
          (case (block_is_black s (Some curr_block), block_is_black s (Some p)) of
             (Some True, _) \<Rightarrow> Some (None, s)
           | (Some False, Some True) \<Rightarrow> Some (None, s)
           | (Some False, Some False) \<Rightarrow>
               (case get_parent s p of
                  None \<Rightarrow> None
                | Some None \<Rightarrow> Some (Some (Al_logic_error ''Granddad does don exist''), s)
                | Some (Some g) \<Rightarrow> do {
                    gl \<leftarrow> get_left_child s g;
                    uncle \<leftarrow> (if gl = Some p then get_right_child s g else Some gl);
                    uncle_black \<leftarrow> block_is_black s uncle;
                    (case (uncle, uncle_black) of
                       (Some u, False) \<Rightarrow> balance_after_insert fuel g (set_red g (set_black u (set_black p s)))
                     | _ \<Rightarrow> map_option (\<lambda>s'. (None, s')) (rb_insert_rotate (gl = Some p) curr_block p g s))
                  })
           | _ \<Rightarrow> None))"

text \<open>The descent to the parent of the new block: smaller and equal sizes go left.\<close>

fun rb_descend :: "nat \<Rightarrow> rb \<Rightarrow> 64 word \<Rightarrow> nat \<Rightarrow> nat option" where
  "rb_descend 0 s sz parent = None"
| "rb_descend (Suc fuel) s sz parent = do {
     n \<leftarrow> rb_block_size s parent;
     current \<leftarrow> (if sz \<le> n then get_left_child s parent else get_right_child s parent);
     (case current of None \<Rightarrow> Some parent | Some c \<Rightarrow> rb_descend fuel s sz c)
   }"

definition rb_fuel :: "rb \<Rightarrow> nat" where
  "rb_fuel s = Suc (unat (rb_space s))"

definition insert_to_tree :: "nat \<Rightarrow> 64 word \<Rightarrow> rb \<Rightarrow> rb_outcome" where
  "insert_to_tree block sz s =
     (let s1 = set_parent block None (set_right_child block None (set_left_child block None (set_red block s))) in
      case rb_root s1 of
        None \<Rightarrow> Some (None, set_parent block None ((set_black block s1)\<lparr>rb_root := Some block\<rparr>))
      | Some root \<Rightarrow> do {
          parent \<leftarrow> rb_descend (rb_fuel s1) s1 sz root;
          let s2 = set_right_child block None (set_left_child block None (set_parent block (Some parent)
            (rb_avail_block block (set_rb_size block sz (set_red block s1)))));
          n \<leftarrow> rb_block_size s2 parent;
          let s3 = (if sz < n then set_left_child parent (Some block) s2 else set_right_child parent (Some block) s2);
          balance_after_insert (rb_fuel s3) block s3
        })"

section \<open>Removal\<close>

text \<open>The search for the block itself; it ends with the null pointer, which has no size.\<close>

fun rb_find :: "nat \<Rightarrow> rb \<Rightarrow> nat \<Rightarrow> 64 word \<Rightarrow> nat option \<Rightarrow> nat option" where
  "rb_find 0 s block sz current = None"
| "rb_find (Suc fuel) s block sz current =
     (if current = Some block then Some block
      else do {
        c \<leftarrow> current;
        n \<leftarrow> rb_block_size s c;
        next \<leftarrow> (if sz \<le> n then get_left_child s c else get_right_child s c);
        rb_find fuel s block sz next
      })"

fun rb_rightmost :: "nat \<Rightarrow> rb \<Rightarrow> nat \<Rightarrow> nat option" where
  "rb_rightmost 0 s a = None"
| "rb_rightmost (Suc fuel) s a =
     Option.bind (get_right_child s a) (\<lambda>r. case r of None \<Rightarrow> Some a | Some b \<Rightarrow> rb_rightmost fuel s b)"

text \<open>The colours of the two blocks are exchanged.\<close>

definition rb_swap_colours :: "nat \<Rightarrow> nat \<Rightarrow> rb \<Rightarrow> rb option" where
  "rb_swap_colours current node s = do {
     c \<leftarrow> block_is_black s (Some current);
     n \<leftarrow> block_is_black s (Some node);
     Some (if c \<noteq> n then (if c then set_black node (set_red current s) else set_black current (set_red node s)) else s)
   }"

text \<open>\<open>current\<close> is the child of \<open>node\<close>: it takes its place and gets it as its child.\<close>

definition rb_swap_neighbours :: "nat \<Rightarrow> nat \<Rightarrow> rb \<Rightarrow> rb option" where
  "rb_swap_neighbours current node s = do {
     pn \<leftarrow> get_parent s node;
     s1 \<leftarrow> (case pn of
         Some p \<Rightarrow> map_option (\<lambda>x. put_cell x (Link (Some current)) s) (link_down s p node)
       | None \<Rightarrow> Some (s\<lparr>rb_root := Some current\<rparr>));
     r \<leftarrow> get_right_child s1 node;
     if r = Some current then do {
       ln \<leftarrow> get_left_child s1 node;
       lc \<leftarrow> get_left_child s1 current;
       s2 \<leftarrow> swap_links (node + 34) (current + 34) (set_parent_of lc (Some node) (set_parent_of ln (Some current) s1));
       pn2 \<leftarrow> get_parent s2 node;
       let s3 = set_parent current pn2 s2;
       rc \<leftarrow> get_right_child s3 current;
       let s4 = set_right_child node rc (set_parent_of rc (Some node) s3);
       Some (set_right_child current (Some node) (set_parent node (Some current) s4))
     }
     else do {
       rn \<leftarrow> get_right_child s1 node;
       rc \<leftarrow> get_right_child s1 current;
       s2 \<leftarrow> swap_links (node + 42) (current + 42) (set_parent_of rc (Some node) (set_parent_of rn (Some current) s1));
       pn2 \<leftarrow> get_parent s2 node;
       let s3 = set_parent current pn2 s2;
       lc \<leftarrow> get_left_child s3 current;
       let s4 = set_left_child node lc (set_parent_of lc (Some node) s3);
       Some (set_left_child current (Some node) (set_parent node (Some current) s4))
     }
   }"

text \<open>\<open>current\<close> is deeper; \<open>down\<close> is the address of the link that points to it.\<close>

definition rb_swap_apart :: "nat \<Rightarrow> nat \<Rightarrow> nat \<Rightarrow> rb \<Rightarrow> rb option" where
  "rb_swap_apart down current node s = do {
     pn \<leftarrow> get_parent s node;
     s1 \<leftarrow> (case pn of
         Some p \<Rightarrow> Option.bind (link_down s p node) (\<lambda>x. swap_links x down s)
       | None \<Rightarrow> Some (set_parent current None ((put_cell down (Link (Some node)) s)\<lparr>rb_root := Some current\<rparr>)));
     lc \<leftarrow> get_left_child s1 current;
     ln \<leftarrow> get_left_child s1 node;
     l \<leftarrow> ln;
     s2 \<leftarrow> (case lc of Some a \<Rightarrow> swap_links (a + 26) (l + 26) s1 | None \<Rightarrow> Some (set_parent l (Some current) s1));
     rn \<leftarrow> get_right_child s2 node;
     let s3 = set_parent_of rn (Some current) s2;
     s4 \<leftarrow> swap_links (current + 26) (node + 26) s3;
     s5 \<leftarrow> swap_links (current + 34) (node + 34) s4;
     swap_links (current + 42) (node + 42) s5
   }"

text \<open>A block with two children changes places with the greatest block that is smaller.\<close>

definition rb_swap_with_smaller :: "nat \<Rightarrow> nat \<Rightarrow> rb \<Rightarrow> rb option" where
  "rb_swap_with_smaller node left s = do {
     current \<leftarrow> rb_rightmost (rb_fuel s) s left;
     s1 \<leftarrow> rb_swap_colours current node s;
     pc \<leftarrow> get_parent s1 current;
     p \<leftarrow> pc;
     down \<leftarrow> link_down s1 p current;
     if p = node then rb_swap_neighbours current node s1 else rb_swap_apart down current node s1
   }"

fun balance_black_leaf :: "nat \<Rightarrow> nat option \<Rightarrow> nat option \<Rightarrow> rb \<Rightarrow> rb option" where
  "balance_black_leaf 0 block parent s = None"
| "balance_black_leaf (Suc fuel) block parent s =
     (case parent of
        None \<Rightarrow> Option.bind block (\<lambda>b. Some (set_black b s))
      | Some p \<Rightarrow> do {
          l \<leftarrow> get_left_child s p;
          if l = block then do {
            brother \<leftarrow> get_right_child s p;
            bb \<leftarrow> block_is_black s brother;
            if \<not> bb then do {
              b \<leftarrow> brother;
              s1 \<leftarrow> left_rotate p (set_black b (set_red p s));
              balance_black_leaf fuel block parent s1
            }
            else do {
              b \<leftarrow> brother;
              right \<leftarrow> get_right_child s b;
              right_black \<leftarrow> block_is_black s right;
              parent_black \<leftarrow> block_is_black s (Some p);
              if \<not> right_black then do {
                r \<leftarrow> right;
                left_rotate p (set_black r (set_black p (if parent_black then set_black b s else set_red b s)))
              }
              else do {
                left \<leftarrow> get_left_child s b;
                left_black \<leftarrow> block_is_black s left;
                if \<not> left_black then do {
                  a \<leftarrow> left;
                  let s1 = set_black p (if parent_black then set_black a s else set_red a s);
                  pr \<leftarrow> get_right_child s1 p;
                  q \<leftarrow> pr;
                  s2 \<leftarrow> right_rotate q s1;
                  left_rotate p s2
                }
                else if \<not> parent_black then Some (set_black p (set_red b s))
                else do {
                  let s1 = set_red b s;
                  pp \<leftarrow> get_parent s1 p;
                  balance_black_leaf fuel (Some p) pp s1
                }
              }
            }
          }
          else do {
            brother \<leftarrow> get_left_child s p;
            bb \<leftarrow> block_is_black s brother;
            if \<not> bb then do {
              b \<leftarrow> brother;
              s1 \<leftarrow> right_rotate p (set_black b (set_red p s));
              balance_black_leaf fuel block parent s1
            }
            else do {
              b \<leftarrow> brother;
              left \<leftarrow> get_left_child s b;
              left_black \<leftarrow> block_is_black s left;
              parent_black \<leftarrow> block_is_black s (Some p);
              if \<not> left_black then do {
                a \<leftarrow> left;
                right_rotate p (set_black a (set_black p (if parent_black then set_black b s else set_red b s)))
              }
              else do {
                right \<leftarrow> get_right_child s b;
                right_black \<leftarrow> block_is_black s right;
                if \<not> right_black then do {
                  r \<leftarrow> right;
                  let s1 = set_black p (if parent_black then set_black r s else set_red r s);
                  pl \<leftarrow> get_left_child s1 p;
                  q \<leftarrow> pl;
                  s2 \<leftarrow> left_rotate q s1;
                  right_rotate p s2
                }
                else if \<not> parent_black then Some (set_black p (set_red b s))
                else balance_black_leaf fuel parent parent (set_red b s)
              }
            }
          }
        })"

definition balance_after_delete :: "nat option \<Rightarrow> nat option \<Rightarrow> nat \<Rightarrow> rb \<Rightarrow> rb option" where
  "balance_after_delete block parent old_block s =
     (if block = None \<and> parent = None then Some s
      else do {
        old_black \<leftarrow> block_is_black s (Some old_block);
        if \<not> old_black then Some s
        else do {
          black \<leftarrow> block_is_black s block;
          if \<not> black then Option.bind block (\<lambda>b. Some (set_black b s))
          else balance_black_leaf (rb_fuel s) block parent s
        }
      })"

definition delete_from_tree :: "nat \<Rightarrow> 64 word \<Rightarrow> rb \<Rightarrow> rb option" where
  "delete_from_tree block sz s = do {
     node \<leftarrow> rb_find (rb_fuel s) s block sz (rb_root s);
     left \<leftarrow> get_left_child s node;
     right \<leftarrow> get_right_child s node;
     s1 \<leftarrow> (case (left, right) of (Some l, Some _) \<Rightarrow> rb_swap_with_smaller node l s | _ \<Rightarrow> Some s);
     l \<leftarrow> get_left_child s1 node;
     r \<leftarrow> get_right_child s1 node;
     let tmp = (if l = None then r else l);
     parent \<leftarrow> get_parent s1 node;
     s2 \<leftarrow> (case parent of
         Some p \<Rightarrow> map_option (\<lambda>x. put_cell x (Link tmp) s1) (link_down s1 p node)
       | None \<Rightarrow> Some (set_parent_of tmp None (s1\<lparr>rb_root := tmp\<rparr>)));
     parent2 \<leftarrow> get_parent s2 node;
     balance_after_delete tmp parent2 node s2
   }"

section \<open>The choice of a block\<close>

fun rb_first_fit :: "nat \<Rightarrow> rb \<Rightarrow> 64 word \<Rightarrow> nat option \<Rightarrow> nat option option" where
  "rb_first_fit 0 s sz cur = None"
| "rb_first_fit (Suc fuel) s sz cur =
     (case cur of
        None \<Rightarrow> Some None
      | Some c \<Rightarrow> do {
          n \<leftarrow> rb_block_size s c;
          if n \<le> sz then Option.bind (get_right_child s c) (rb_first_fit fuel s sz) else Some (Some c)
        })"

text \<open>The root is read first, also when it is the null pointer.\<close>

definition get_first_fit :: "rb \<Rightarrow> 64 word \<Rightarrow> nat option option" where
  "get_first_fit s sz = Option.bind (rb_root s) (\<lambda>c. rb_first_fit (rb_fuel s) s sz (Some c))"

definition get_worst_fit :: "rb \<Rightarrow> 64 word \<Rightarrow> nat option option" where
  "get_worst_fit s sz = do {
     root \<leftarrow> rb_root s;
     c \<leftarrow> rb_rightmost (rb_fuel s) s root;
     n \<leftarrow> rb_block_size s c;
     Some (if sz \<le> n then Some c else None)
   }"

fun rb_climb_right :: "nat \<Rightarrow> rb \<Rightarrow> 64 word \<Rightarrow> nat \<Rightarrow> nat option option" where
  "rb_climb_right 0 s sz c = None"
| "rb_climb_right (Suc fuel) s sz c = do {
     n \<leftarrow> rb_block_size s c;
     if n < sz then do {
       r \<leftarrow> get_right_child s c;
       (case r of None \<Rightarrow> Some None | Some b \<Rightarrow> rb_climb_right fuel s sz b)
     }
     else Some (Some c)
   }"

fun rb_climb_left :: "nat \<Rightarrow> rb \<Rightarrow> 64 word \<Rightarrow> nat \<Rightarrow> nat option" where
  "rb_climb_left 0 s sz c = None"
| "rb_climb_left (Suc fuel) s sz c = do {
     l \<leftarrow> get_left_child s c;
     (case l of
        None \<Rightarrow> Some c
      | Some b \<Rightarrow> Option.bind (rb_block_size s b) (\<lambda>n. if sz \<le> n then rb_climb_left fuel s sz b else Some c))
   }"

definition get_best_fit :: "rb \<Rightarrow> 64 word \<Rightarrow> nat option option" where
  "get_best_fit s sz = do {
     root \<leftarrow> rb_root s;
     c \<leftarrow> rb_climb_right (rb_fuel s) s sz root;
     (case c of None \<Rightarrow> Some None | Some b \<Rightarrow> map_option Some (rb_climb_left (rb_fuel s) s sz b))
   }"

definition rb_target :: "rb \<Rightarrow> 64 word \<Rightarrow> nat option option" where
  "rb_target s wanted =
     (case rb_fit s of
        The_worst_fit \<Rightarrow> get_worst_fit s wanted
      | First_fit \<Rightarrow> get_first_fit s wanted
      | The_best_fit \<Rightarrow> get_best_fit s wanted
      | _ \<Rightarrow> Some None)"

section \<open>Allocation\<close>

text \<open>The rest of the block becomes a block of its own, and a node.\<close>

definition rb_carve :: "nat \<Rightarrow> 64 word \<Rightarrow> 64 word \<Rightarrow> rb \<Rightarrow> rb_outcome" where
  "rb_carve target size_to_alloc real_size s = do {
     let new_block = target + unat size_to_alloc;
     let new_block_size = real_size - size_to_alloc;
     let s1 = set_prev_block new_block (Some target) s;
     n \<leftarrow> get_next_block s1 target;
     let s2 = set_next_block new_block n s1;
     let s3 = (case n of None \<Rightarrow> s2 | Some b \<Rightarrow> set_prev_block b (Some new_block) s2);
     let s4 = set_rb_size target (size_to_alloc - rb_occupied_meta_size)
       (set_rb_size new_block new_block_size (set_next_block target (Some new_block) s3));
     insert_to_tree new_block new_block_size s4
   }"

definition rb_allocate :: "rb \<Rightarrow> 64 word \<Rightarrow> 64 word \<Rightarrow> (alloc_exn + nat) \<times> rb" where
  "rb_allocate s value_size values_count =
     (let requested_size = value_size * values_count;
          wanted = max (requested_size + rb_occupied_meta_size) rb_available_meta_size in
      case rb_target s wanted of
        None \<Rightarrow> (Inl Al_undefined, s)
      | Some None \<Rightarrow> (Inl (Al_logic_error ''Cannot allocate memory''), s)
      | Some (Some target) \<Rightarrow>
          (case do {
             real_size \<leftarrow> rb_block_size s target;
             let difference = real_size - wanted;
             let size_to_alloc = (if difference \<noteq> 0 \<and> difference < rb_available_meta_size then real_size else wanted);
             s1 \<leftarrow> delete_from_tree target real_size s;
             if size_to_alloc < real_size then rb_carve target size_to_alloc real_size s1 else Some (None, s1) } of
             None \<Rightarrow> (Inl Al_undefined, s)
           | Some (Some e, s2) \<Rightarrow> (Inl e, s2)
           | Some (None, s2) \<Rightarrow>
               (Inr (target + unat rb_occupied_meta_size), set_block_allocator target (rb_occupy_block target s2))))"

section \<open>Deallocation\<close>

definition rb_join_next :: "nat \<Rightarrow> rb \<Rightarrow> rb option" where
  "rb_join_next block s = do {
     next_block \<leftarrow> get_next_block s block;
     (case next_block of
        None \<Rightarrow> Some s
      | Some n \<Rightarrow> do {
          occ \<leftarrow> rb_is_occupied s n;
          if occ then Some s
          else do {
            z \<leftarrow> rb_block_size s n;
            s1 \<leftarrow> delete_from_tree n z s;
            y \<leftarrow> rb_block_size s1 block;
            z1 \<leftarrow> rb_block_size s1 n;
            let s2 = set_rb_size block (y + z1) s1;
            nn \<leftarrow> get_next_block s2 n;
            Some (set_next_block block nn (case nn of None \<Rightarrow> s2 | Some b \<Rightarrow> set_prev_block b (Some block) s2))
          }
        })
   }"

text \<open>The result has the block that is a node now.\<close>

definition rb_join_prev :: "nat \<Rightarrow> rb \<Rightarrow> (nat \<times> rb) option" where
  "rb_join_prev block s = do {
     prev_block \<leftarrow> get_prev_block s block;
     (case prev_block of
        None \<Rightarrow> Some (block, s)
      | Some p \<Rightarrow> do {
          occ \<leftarrow> rb_is_occupied s p;
          if occ then Some (block, s)
          else do {
            y \<leftarrow> rb_block_size s p;
            s1 \<leftarrow> delete_from_tree p y s;
            y1 \<leftarrow> rb_block_size s1 p;
            z \<leftarrow> rb_block_size s1 block;
            let s2 = set_rb_size p (y1 + z) s1;
            nb \<leftarrow> get_next_block s2 block;
            let s3 = (case nb of None \<Rightarrow> s2 | Some b \<Rightarrow> set_prev_block b (Some p) s2);
            Some (p, set_next_block p nb s3)
          }
        })
   }"

text \<open>
  The argument is the offset of the pointer, \<open>None\<close> the null pointer. The address of the allocator is read, two
  bytes behind the pointer, but not used.
\<close>

definition rb_deallocate :: "rb \<Rightarrow> int option \<Rightarrow> (alloc_exn + unit) \<times> rb" where
  "rb_deallocate s at_ptr =
     (case at_ptr of
        None \<Rightarrow> (Inl Al_undefined, s)
      | Some p \<Rightarrow>
          if p + 2 < - uint rb_meta_size \<or> uint (rb_space s) < p + 10 then (Inl Al_undefined, s)
          else if p < 0 \<or> uint (rb_space s) \<le> p then
            (Inl (Al_logic_error ''allocator_red_black_tree::deallocate(void *at) trying to deallocate non-related memory''), s)
          else if p < uint rb_occupied_meta_size then (Inl Al_undefined, s)
          else
            let block = nat p - unat rb_occupied_meta_size in
            (case do {
               s1 \<leftarrow> rb_join_next block s;
               (b, s2) \<leftarrow> rb_join_prev block s1;
               z \<leftarrow> rb_block_size s2 b;
               insert_to_tree b z s2 } of
               None \<Rightarrow> (Inl Al_undefined, s)
             | Some (Some e, s') \<Rightarrow> (Inl e, s')
             | Some (None, s') \<Rightarrow> (Inr (), s')))"

section \<open>The rest\<close>

definition rb_set_fit_mode :: "rb \<Rightarrow> fit_mode \<Rightarrow> rb" where
  "rb_set_fit_mode s mode = s\<lparr>rb_fit := mode\<rparr>"

type_synonym rb_object = "rb option"

definition rb_destroy :: "rb_object \<Rightarrow> alloc_exn + unit" where
  "rb_destroy obj = (case obj of None \<Rightarrow> Inl Al_undefined | Some _ \<Rightarrow> Inr ())"

definition rb_move_construct :: "rb_object \<Rightarrow> rb_object \<times> rb_object" where
  "rb_move_construct other = (other, None)"

text \<open>The assignment to itself gives the object back.\<close>

definition rb_move_assign :: "bool \<Rightarrow> rb_object \<Rightarrow> rb_object \<Rightarrow> alloc_exn + (rb_object \<times> rb_object)" where
  "rb_move_assign same obj other =
     (if same then Inr (obj, obj) else (case obj of None \<Rightarrow> Inl Al_undefined | Some _ \<Rightarrow> Inr (other, None)))"

end
