(* ===== verification/Red_Black_Correct.thy ===== *)
theory Red_Black_Correct
  imports Red_Black_Allocator "HOL-Library.Tree"
begin

text \<open>
  The free blocks of the red-black tree allocator as a tree: \<open>rb_tree\<close> reads it below a pointer, \<open>rb_ctx\<close> around one,
  so that a step of an operation is a step at the focus. Rotations keep the order of the blocks,
  an insertion puts the block where its size belongs, and the three fits find a block
  that is large enough if there is one.
\<close>

section \<open>Blocks that do not overlap\<close>

definition rb_apart :: "nat \<Rightarrow> nat \<Rightarrow> bool" where
  "rb_apart a b = (a + 50 \<le> b \<or> b + 50 \<le> a)"

lemma rb_apart_sym: "rb_apart a b \<Longrightarrow> rb_apart b a"
  by (auto simp: rb_apart_def)

lemma rb_apart_irrefl [simp]: "\<not> rb_apart a a"
  by (simp add: rb_apart_def)

named_theorems rb_setters

lemmas [rb_setters] =
  set_rb_size_def set_parent_def set_left_child_def set_right_child_def set_black_def set_red_def rb_avail_block_def

named_theorems rb_getters

lemmas [rb_getters] =
  get_parent_def get_left_child_def get_right_child_def rb_block_size_def

definition rb_marked :: "rb \<Rightarrow> nat \<Rightarrow> bool" where
  "rb_marked s a = (rb_chars s (a + 24) \<noteq> None)"

text \<open>A write to the header of a block leaves the headers of the others.\<close>

lemma put_cell_other [simp]:
  "rb_apart a b \<Longrightarrow> i + 8 \<le> 50 \<Longrightarrow> j + 8 \<le> 50 \<Longrightarrow> get_link (rb_mem (put_cell (a + i) c s)) (b + j) = get_link (rb_mem s) (b + j)"
  "rb_apart a b \<Longrightarrow> i + 8 \<le> 50 \<Longrightarrow> j + 8 \<le> 50 \<Longrightarrow> get_size (rb_mem (put_cell (a + i) c s)) (b + j) = get_size (rb_mem s) (b + j)"
  "rb_apart a b \<Longrightarrow> i + 8 \<le> 50 \<Longrightarrow> j < 50 \<Longrightarrow> rb_chars (put_cell (a + i) c s) (b + j) = rb_chars s (b + j)"
  by (auto simp: rb_apart_def put_cell_def get_link_def get_size_def put_other)

lemma put_char_other [simp]:
  "rb_apart a b \<Longrightarrow> i < 50 \<Longrightarrow> j + 8 \<le> 50 \<Longrightarrow> get_link (rb_mem (put_char (a + i) c s)) (b + j) = get_link (rb_mem s) (b + j)"
  "rb_apart a b \<Longrightarrow> i < 50 \<Longrightarrow> j + 8 \<le> 50 \<Longrightarrow> get_size (rb_mem (put_char (a + i) c s)) (b + j) = get_size (rb_mem s) (b + j)"
  "rb_apart a b \<Longrightarrow> i < 50 \<Longrightarrow> j < 50 \<Longrightarrow> rb_chars (put_char (a + i) c s) (b + j) = rb_chars s (b + j)"
  by (auto simp: rb_apart_def put_char_def get_link_def get_size_def scribble_other)

text \<open>The fields of the header itself.\<close>

lemma put_cell_here [simp]:
  "get_link (rb_mem (put_cell a (Link p) s)) a = Some p"
  "get_size (rb_mem (put_cell a (Size n) s)) a = Some n"
  "j + 8 \<le> i \<or> i + 8 \<le> j \<Longrightarrow> get_link (rb_mem (put_cell (a + i) c s)) (a + j) = get_link (rb_mem s) (a + j)"
  "j + 8 \<le> i \<or> i + 8 \<le> j \<Longrightarrow> get_size (rb_mem (put_cell (a + i) c s)) (a + j) = get_size (rb_mem s) (a + j)"
  "j < i \<or> i + 8 \<le> j \<Longrightarrow> rb_chars (put_cell (a + i) c s) (a + j) = rb_chars s (a + j)"
  by (auto simp: put_cell_def get_link_def get_size_def put_other)

lemma put_char_here [simp]:
  "j + 8 \<le> i \<or> i < j \<Longrightarrow> get_link (rb_mem (put_char (a + i) c s)) (a + j) = get_link (rb_mem s) (a + j)"
  "j + 8 \<le> i \<or> i < j \<Longrightarrow> get_size (rb_mem (put_char (a + i) c s)) (a + j) = get_size (rb_mem s) (a + j)"
  "rb_chars (put_char a c s) a = Some c" "i \<noteq> j \<Longrightarrow> rb_chars (put_char (a + i) c s) (a + j) = rb_chars s (a + j)"
  by (auto simp: put_char_def get_link_def get_size_def scribble_other)

lemma put_fields [simp]:
  "rb_root (put_cell a c s) = rb_root s" "rb_space (put_cell a c s) = rb_space s" "rb_fit (put_cell a c s) = rb_fit s"
  "rb_root (put_char a d s) = rb_root s" "rb_space (put_char a d s) = rb_space s" "rb_fit (put_char a d s) = rb_fit s"
  by (simp_all add: put_cell_def put_char_def)

section \<open>The fields after a write\<close>

lemma set_fields [simp]:
  "rb_root (set_parent a p s) = rb_root s" "rb_space (set_parent a p s) = rb_space s" "rb_fit (set_parent a p s) = rb_fit s"
  "rb_root (set_left_child a p s) = rb_root s" "rb_space (set_left_child a p s) = rb_space s"
  "rb_fit (set_left_child a p s) = rb_fit s"
  "rb_root (set_right_child a p s) = rb_root s" "rb_space (set_right_child a p s) = rb_space s"
  "rb_fit (set_right_child a p s) = rb_fit s"
  "rb_root (set_rb_size a n s) = rb_root s" "rb_space (set_rb_size a n s) = rb_space s" "rb_fit (set_rb_size a n s) = rb_fit s"
  "rb_root (set_black a s) = rb_root s" "rb_space (set_black a s) = rb_space s" "rb_fit (set_black a s) = rb_fit s"
  "rb_root (set_red a s) = rb_root s" "rb_space (set_red a s) = rb_space s" "rb_fit (set_red a s) = rb_fit s"
  "rb_root (rb_avail_block a s) = rb_root s" "rb_space (rb_avail_block a s) = rb_space s"
  "rb_fit (rb_avail_block a s) = rb_fit s"
  "rb_root (set_parent_of b p s) = rb_root s" "rb_space (set_parent_of b p s) = rb_space s"
  "rb_fit (set_parent_of b p s) = rb_fit s"
  by (auto simp: rb_setters set_parent_of_def split: option.split)

lemma get_root_update [simp]:
  "get_parent (s\<lparr>rb_root := r\<rparr>) a = get_parent s a" "get_left_child (s\<lparr>rb_root := r\<rparr>) a = get_left_child s a"
  "get_right_child (s\<lparr>rb_root := r\<rparr>) a = get_right_child s a" "rb_block_size (s\<lparr>rb_root := r\<rparr>) a = rb_block_size s a"
  "rb_marked (s\<lparr>rb_root := r\<rparr>) a = rb_marked s a"
  by (simp_all add: rb_getters rb_marked_def)

lemma get_parent_set [simp]:
  "get_parent (set_parent a p s) a = Some p" "get_parent (set_left_child a p s) a = get_parent s a"
  "get_parent (set_right_child a p s) a = get_parent s a" "get_parent (set_rb_size a n s) a = get_parent s a"
  "get_parent (set_black a s) a = get_parent s a" "get_parent (set_red a s) a = get_parent s a"
  "get_parent (rb_avail_block a s) a = get_parent s a"
  by (simp_all add: rb_setters rb_getters)

lemma get_left_child_set [simp]:
  "get_left_child (set_parent a p s) a = get_left_child s a" "get_left_child (set_left_child a p s) a = Some p"
  "get_left_child (set_right_child a p s) a = get_left_child s a" "get_left_child (set_rb_size a n s) a = get_left_child s a"
  "get_left_child (set_black a s) a = get_left_child s a" "get_left_child (set_red a s) a = get_left_child s a"
  "get_left_child (rb_avail_block a s) a = get_left_child s a"
  by (simp_all add: rb_setters rb_getters)

lemma get_right_child_set [simp]:
  "get_right_child (set_parent a p s) a = get_right_child s a" "get_right_child (set_left_child a p s) a = get_right_child s a"
  "get_right_child (set_right_child a p s) a = Some p" "get_right_child (set_rb_size a n s) a = get_right_child s a"
  "get_right_child (set_black a s) a = get_right_child s a" "get_right_child (set_red a s) a = get_right_child s a"
  "get_right_child (rb_avail_block a s) a = get_right_child s a"
  by (simp_all add: rb_setters rb_getters)

lemma rb_block_size_set [simp]:
  "rb_block_size (set_parent a p s) a = rb_block_size s a" "rb_block_size (set_left_child a p s) a = rb_block_size s a"
  "rb_block_size (set_right_child a p s) a = rb_block_size s a" "rb_block_size (set_rb_size a n s) a = Some n"
  "rb_block_size (set_black a s) a = rb_block_size s a" "rb_block_size (set_red a s) a = rb_block_size s a"
  "rb_block_size (rb_avail_block a s) a = rb_block_size s a"
  by (simp_all add: rb_setters rb_getters)

lemma rb_marked_set [simp]:
  "rb_marked (set_parent a p s) a = rb_marked s a" "rb_marked (set_left_child a p s) a = rb_marked s a"
  "rb_marked (set_right_child a p s) a = rb_marked s a" "rb_marked (set_rb_size a n s) a = rb_marked s a"
  "rb_marked (set_black a s) a" "rb_marked (set_red a s) a" "rb_marked (rb_avail_block a s) a = rb_marked s a"
  by (simp_all add: rb_setters rb_marked_def)

lemma get_parent_other [simp]:
  "rb_apart a b \<Longrightarrow> get_parent (set_parent a p s) b = get_parent s b"
  "rb_apart a b \<Longrightarrow> get_parent (set_left_child a p s) b = get_parent s b"
  "rb_apart a b \<Longrightarrow> get_parent (set_right_child a p s) b = get_parent s b"
  "rb_apart a b \<Longrightarrow> get_parent (set_rb_size a n s) b = get_parent s b"
  "rb_apart a b \<Longrightarrow> get_parent (set_black a s) b = get_parent s b"
  "rb_apart a b \<Longrightarrow> get_parent (set_red a s) b = get_parent s b"
  "rb_apart a b \<Longrightarrow> get_parent (rb_avail_block a s) b = get_parent s b"
  by (simp_all add: rb_setters rb_getters rb_marked_def)

lemma get_left_other [simp]:
  "rb_apart a b \<Longrightarrow> get_left_child (set_parent a p s) b = get_left_child s b"
  "rb_apart a b \<Longrightarrow> get_left_child (set_left_child a p s) b = get_left_child s b"
  "rb_apart a b \<Longrightarrow> get_left_child (set_right_child a p s) b = get_left_child s b"
  "rb_apart a b \<Longrightarrow> get_left_child (set_rb_size a n s) b = get_left_child s b"
  "rb_apart a b \<Longrightarrow> get_left_child (set_black a s) b = get_left_child s b"
  "rb_apart a b \<Longrightarrow> get_left_child (set_red a s) b = get_left_child s b"
  "rb_apart a b \<Longrightarrow> get_left_child (rb_avail_block a s) b = get_left_child s b"
  by (simp_all add: rb_setters rb_getters rb_marked_def)

lemma get_right_other [simp]:
  "rb_apart a b \<Longrightarrow> get_right_child (set_parent a p s) b = get_right_child s b"
  "rb_apart a b \<Longrightarrow> get_right_child (set_left_child a p s) b = get_right_child s b"
  "rb_apart a b \<Longrightarrow> get_right_child (set_right_child a p s) b = get_right_child s b"
  "rb_apart a b \<Longrightarrow> get_right_child (set_rb_size a n s) b = get_right_child s b"
  "rb_apart a b \<Longrightarrow> get_right_child (set_black a s) b = get_right_child s b"
  "rb_apart a b \<Longrightarrow> get_right_child (set_red a s) b = get_right_child s b"
  "rb_apart a b \<Longrightarrow> get_right_child (rb_avail_block a s) b = get_right_child s b"
  by (simp_all add: rb_setters rb_getters rb_marked_def)

lemma rb_block_size_other [simp]:
  "rb_apart a b \<Longrightarrow> rb_block_size (set_parent a p s) b = rb_block_size s b"
  "rb_apart a b \<Longrightarrow> rb_block_size (set_left_child a p s) b = rb_block_size s b"
  "rb_apart a b \<Longrightarrow> rb_block_size (set_right_child a p s) b = rb_block_size s b"
  "rb_apart a b \<Longrightarrow> rb_block_size (set_rb_size a n s) b = rb_block_size s b"
  "rb_apart a b \<Longrightarrow> rb_block_size (set_black a s) b = rb_block_size s b"
  "rb_apart a b \<Longrightarrow> rb_block_size (set_red a s) b = rb_block_size s b"
  "rb_apart a b \<Longrightarrow> rb_block_size (rb_avail_block a s) b = rb_block_size s b"
  by (simp_all add: rb_setters rb_getters rb_marked_def)

lemma rb_marked_other [simp]:
  "rb_apart a b \<Longrightarrow> rb_marked (set_parent a p s) b = rb_marked s b"
  "rb_apart a b \<Longrightarrow> rb_marked (set_left_child a p s) b = rb_marked s b"
  "rb_apart a b \<Longrightarrow> rb_marked (set_right_child a p s) b = rb_marked s b"
  "rb_apart a b \<Longrightarrow> rb_marked (set_rb_size a n s) b = rb_marked s b"
  "rb_apart a b \<Longrightarrow> rb_marked (set_black a s) b = rb_marked s b"
  "rb_apart a b \<Longrightarrow> rb_marked (set_red a s) b = rb_marked s b"
  "rb_apart a b \<Longrightarrow> rb_marked (rb_avail_block a s) b = rb_marked s b"
  by (simp_all add: rb_setters rb_getters rb_marked_def)

section \<open>Nodes\<close>

text \<open>The address of the root of a tree, and the header of a node with the pointers it must have.\<close>

type_synonym rb_node = "nat \<times> 64 word"

fun troot :: "rb_node tree \<Rightarrow> nat option" where
  "troot \<langle>\<rangle> = None"
| "troot \<langle>l, x, r\<rangle> = Some (fst x)"

definition node_is :: "rb \<Rightarrow> nat option \<Rightarrow> rb_node \<Rightarrow> nat option \<Rightarrow> nat option \<Rightarrow> bool" where
  "node_is s p x l r \<longleftrightarrow>
     get_parent s (fst x) = Some p \<and> rb_block_size s (fst x) = Some (snd x) \<and>
     get_left_child s (fst x) = Some l \<and> get_right_child s (fst x) = Some r \<and> rb_marked s (fst x)"

fun rb_tree :: "rb \<Rightarrow> nat option \<Rightarrow> rb_node tree \<Rightarrow> bool" where
  "rb_tree s p \<langle>\<rangle> = True"
| "rb_tree s p \<langle>l, x, r\<rangle> =
     (node_is s p x (troot l) (troot r) \<and> rb_tree s (Some (fst x)) l \<and> rb_tree s (Some (fst x)) r)"

lemma node_is_other [simp]:
  "rb_apart a (fst x) \<Longrightarrow> node_is (set_parent a p s) q x l r = node_is s q x l r"
  "rb_apart a (fst x) \<Longrightarrow> node_is (set_left_child a p s) q x l r = node_is s q x l r"
  "rb_apart a (fst x) \<Longrightarrow> node_is (set_right_child a p s) q x l r = node_is s q x l r"
  "rb_apart a (fst x) \<Longrightarrow> node_is (set_rb_size a n s) q x l r = node_is s q x l r"
  "rb_apart a (fst x) \<Longrightarrow> node_is (set_black a s) q x l r = node_is s q x l r"
  "rb_apart a (fst x) \<Longrightarrow> node_is (set_red a s) q x l r = node_is s q x l r"
  "rb_apart a (fst x) \<Longrightarrow> node_is (rb_avail_block a s) q x l r = node_is s q x l r"
  "node_is (s\<lparr>rb_root := b\<rparr>) q x l r = node_is s q x l r"
  by (simp_all add: node_is_def rb_setters rb_getters rb_marked_def)


text \<open>Around a pointer: the blocks above it with the trees on their other sides, the nearest first.\<close>

type_synonym rb_around = "(bool \<times> rb_node \<times> rb_node tree) list"

fun rb_top :: "rb_around \<Rightarrow> nat option" where
  "rb_top [] = None"
| "rb_top ((_, x, _) # c) = Some (fst x)"

fun rb_ctx :: "rb \<Rightarrow> nat option \<Rightarrow> rb_around \<Rightarrow> bool" where
  "rb_ctx s b [] = (rb_root s = b)"
| "rb_ctx s b ((sd, x, t) # c) =
     (node_is s (rb_top c) x (if sd then b else troot t) (if sd then troot t else b) \<and>
      rb_tree s (Some (fst x)) t \<and> rb_ctx s (Some (fst x)) c)"

fun rb_plug :: "rb_around \<Rightarrow> rb_node tree \<Rightarrow> rb_node tree" where
  "rb_plug [] t = t"
| "rb_plug ((sd, x, u) # c) t = rb_plug c (if sd then \<langle>t, x, u\<rangle> else \<langle>u, x, t\<rangle>)"

fun rb_above :: "rb_around \<Rightarrow> rb_node list" where
  "rb_above [] = []"
| "rb_above ((sd, x, u) # c) = x # inorder u @ rb_above c"

section \<open>Separated nodes\<close>

definition rb_off :: "nat \<Rightarrow> rb_node list \<Rightarrow> bool" where
  "rb_off a xs \<longleftrightarrow> (\<forall>x \<in> set xs. rb_apart a (fst x))"

lemma rb_off_simps [simp]:
  "rb_off a []" "rb_off a (x # xs) = (rb_apart a (fst x) \<and> rb_off a xs)" "rb_off a (xs @ ys) = (rb_off a xs \<and> rb_off a ys)"
  by (auto simp: rb_off_def)

fun rb_sep :: "rb_node list \<Rightarrow> bool" where
  "rb_sep [] = True"
| "rb_sep (x # xs) = (rb_off (fst x) xs \<and> rb_sep xs)"

definition rb_off_all :: "rb_node list \<Rightarrow> rb_node list \<Rightarrow> bool" where
  "rb_off_all xs ys \<longleftrightarrow> (\<forall>x \<in> set xs. rb_off (fst x) ys)"

lemma rb_off_all_simps [simp]:
  "rb_off_all [] ys" "rb_off_all (x # xs) ys = (rb_off (fst x) ys \<and> rb_off_all xs ys)"
  "rb_off_all (xs @ zs) ys = (rb_off_all xs ys \<and> rb_off_all zs ys)"
  "rb_off_all xs []" "rb_off_all xs (y # ys) = (rb_off (fst y) xs \<and> rb_off_all xs ys)"
  "rb_off_all xs (ys @ zs) = (rb_off_all xs ys \<and> rb_off_all xs zs)"
  by (auto simp: rb_off_all_def rb_off_def rb_apart_def)

lemma rb_off_all_sym: "rb_off_all xs ys \<Longrightarrow> rb_off_all ys xs"
  by (auto simp: rb_off_all_def rb_off_def rb_apart_def)

lemma rb_sep_append [simp]: "rb_sep (xs @ ys) \<longleftrightarrow> rb_sep xs \<and> rb_sep ys \<and> rb_off_all xs ys"
  by (induction xs) auto

lemma rb_tree_other [simp]:
  "rb_off a (inorder t) \<Longrightarrow> rb_tree (set_parent a p s) q t = rb_tree s q t"
  "rb_off a (inorder t) \<Longrightarrow> rb_tree (set_left_child a p s) q t = rb_tree s q t"
  "rb_off a (inorder t) \<Longrightarrow> rb_tree (set_right_child a p s) q t = rb_tree s q t"
  "rb_off a (inorder t) \<Longrightarrow> rb_tree (set_rb_size a n s) q t = rb_tree s q t"
  "rb_off a (inorder t) \<Longrightarrow> rb_tree (set_black a s) q t = rb_tree s q t"
  "rb_off a (inorder t) \<Longrightarrow> rb_tree (set_red a s) q t = rb_tree s q t"
  "rb_off a (inorder t) \<Longrightarrow> rb_tree (rb_avail_block a s) q t = rb_tree s q t"
  "rb_tree (s\<lparr>rb_root := b\<rparr>) q t = rb_tree s q t"
  by (induction t arbitrary: q) simp_all

lemma rb_ctx_other [simp]:
  "rb_off a (rb_above c) \<Longrightarrow> rb_ctx (set_parent a p s) b c = rb_ctx s b c"
  "rb_off a (rb_above c) \<Longrightarrow> rb_ctx (set_left_child a p s) b c = rb_ctx s b c"
  "rb_off a (rb_above c) \<Longrightarrow> rb_ctx (set_right_child a p s) b c = rb_ctx s b c"
  "rb_off a (rb_above c) \<Longrightarrow> rb_ctx (set_rb_size a n s) b c = rb_ctx s b c"
  "rb_off a (rb_above c) \<Longrightarrow> rb_ctx (set_black a s) b c = rb_ctx s b c"
  "rb_off a (rb_above c) \<Longrightarrow> rb_ctx (set_red a s) b c = rb_ctx s b c"
  "rb_off a (rb_above c) \<Longrightarrow> rb_ctx (rb_avail_block a s) b c = rb_ctx s b c"
  by (induction c arbitrary: b) auto

text \<open>The whole tree with the focus at one of its parts.\<close>

definition rb_zip :: "rb \<Rightarrow> rb_around \<Rightarrow> rb_node tree \<Rightarrow> bool" where
  "rb_zip s c t \<longleftrightarrow> rb_ctx s (troot t) c \<and> rb_tree s (rb_top c) t \<and> rb_sep (inorder t @ rb_above c)"

lemma rb_zip_up: "rb_zip s ((sd, x, u) # c) t \<longleftrightarrow> rb_zip s c (if sd then \<langle>t, x, u\<rangle> else \<langle>u, x, t\<rangle>)"
  by (auto simp: rb_zip_def intro: rb_off_all_sym)

lemma rb_zip_plug: "rb_zip s c t \<longleftrightarrow> rb_zip s [] (rb_plug c t)"
proof (induction c arbitrary: t)
  case (Cons f c)
  then show ?case by (cases f) (simp only: rb_zip_up rb_plug.simps)
qed simp

section \<open>Rotations\<close>

lemma node_is_fields:
  assumes "node_is s p x l r"
  shows "get_parent s (fst x) = Some p" "rb_block_size s (fst x) = Some (snd x)" "get_left_child s (fst x) = Some l"
    "get_right_child s (fst x) = Some r" "rb_marked s (fst x)"
  using assms by (simp_all add: node_is_def)

lemma rb_apart_commute: "rb_apart a b = rb_apart b a"
  by (auto simp: rb_apart_def)

lemma troot_off: "rb_off a (inorder t) \<Longrightarrow> troot t \<noteq> Some a"
  by (cases t) auto

text \<open>A rotation at the focus; the blocks around it keep their fields.\<close>

lemma left_rotate_zip:
  assumes "rb_zip s c \<langle>a, x, \<langle>b, y, d\<rangle>\<rangle>"
  shows "\<exists>s'. left_rotate (fst x) s = Some s' \<and> rb_zip s' c \<langle>\<langle>a, x, b\<rangle>, y, d\<rangle> \<and> rb_space s' = rb_space s \<and> rb_fit s' = rb_fit s"
proof (cases c)
  case Nil
  then show ?thesis using assms
    by (cases b) (auto simp: rb_zip_def left_rotate_def rb_new_root_def set_parent_of_def Let_def node_is_def rb_apart_commute)
next
  case (Cons f c')
  obtain sd p u where f: "f = (sd, p, u)" by (cases f) auto
  show ?thesis using assms Cons f
    by (cases b; cases sd)
      (auto simp: rb_zip_def left_rotate_def rb_new_root_def set_parent_of_def Let_def node_is_def rb_apart_commute
         dest: troot_off [of "fst x" u])
qed

lemma right_rotate_zip:
  assumes "rb_zip s c \<langle>\<langle>a, x, b\<rangle>, y, d\<rangle>"
  shows "\<exists>s'. right_rotate (fst y) s = Some s' \<and> rb_zip s' c \<langle>a, x, \<langle>b, y, d\<rangle>\<rangle> \<and> rb_space s' = rb_space s \<and> rb_fit s' = rb_fit s"
proof (cases c)
  case Nil
  then show ?thesis using assms
    by (cases b) (auto simp: rb_zip_def right_rotate_def rb_new_root_def set_parent_of_def Let_def node_is_def rb_apart_commute)
next
  case (Cons f c')
  obtain sd p u where f: "f = (sd, p, u)" by (cases f) auto
  show ?thesis using assms Cons f
    by (cases b; cases sd)
      (auto simp: rb_zip_def right_rotate_def rb_new_root_def set_parent_of_def Let_def node_is_def rb_apart_commute
         dest: troot_off [of "fst y" u])
qed

section \<open>Colours\<close>

text \<open>A colour of any block of the tree may be written.\<close>

lemma rb_tree_colour:
  assumes "rb_tree s p t" "\<forall>x \<in> set_tree t. fst x = a \<or> rb_apart a (fst x)"
  shows "rb_tree (set_black a s) p t" "rb_tree (set_red a s) p t"
  using assms
proof (induction t arbitrary: p)
  case (Node l x r)
  case 1
  show ?case using Node 1 by (cases "fst x = a") (auto simp: node_is_def)
next
  case (Node l x r)
  case 2
  show ?case using Node 2 by (cases "fst x = a") (auto simp: node_is_def)
qed simp_all

lemma rb_sep_cases: "rb_sep xs \<Longrightarrow> x \<in> set xs \<Longrightarrow> y \<in> set xs \<Longrightarrow> fst y = fst x \<or> rb_apart (fst x) (fst y)"
  by (induction xs) (auto simp: rb_off_def rb_apart_def)

lemma rb_zip_colour:
  assumes "rb_zip s c t" "x \<in> set_tree (rb_plug c t)"
  shows "rb_zip (set_black (fst x) s) c t" "rb_zip (set_red (fst x) s) c t"
proof -
  let ?t = "rb_plug c t"
  have z: "rb_zip s [] ?t" using assms(1) rb_zip_plug by blast
  then have tree: "rb_tree s None ?t" and sep: "rb_sep (inorder ?t)" and root: "rb_root s = troot ?t" by (auto simp: rb_zip_def)
  have "\<forall>y \<in> set_tree ?t. fst y = fst x \<or> rb_apart (fst x) (fst y)"
    using rb_sep_cases [OF sep] assms(2) by (auto simp: set_inorder)
  then have "rb_tree (set_black (fst x) s) None ?t" "rb_tree (set_red (fst x) s) None ?t" using rb_tree_colour tree by auto
  then show "rb_zip (set_black (fst x) s) c t" "rb_zip (set_red (fst x) s) c t"
    using sep root rb_zip_plug [of _ c t] by (auto simp: rb_zip_def)
qed


text \<open>The blocks in front of the focus, and those behind it.\<close>

fun rb_before :: "rb_around \<Rightarrow> rb_node list" where
  "rb_before [] = []"
| "rb_before ((sd, x, u) # c) = rb_before c @ (if sd then [] else inorder u @ [x])"

fun rb_after :: "rb_around \<Rightarrow> rb_node list" where
  "rb_after [] = []"
| "rb_after ((sd, x, u) # c) = (if sd then x # inorder u else []) @ rb_after c"

lemma inorder_plug [simp]: "inorder (rb_plug c t) = rb_before c @ inorder t @ rb_after c"
  by (induction c t rule: rb_plug.induct) simp_all

lemma set_tree_plug: "set_tree t \<subseteq> set_tree (rb_plug c t)"
  by (induction c t rule: rb_plug.induct) (auto split: if_splits)

text \<open>What a step of the insertion keeps: the order of the blocks and the fields of the allocator.\<close>

definition rb_keeps :: "rb_around \<Rightarrow> rb_node tree \<Rightarrow> rb \<Rightarrow> rb \<Rightarrow> bool" where
  "rb_keeps c t s s' \<longleftrightarrow> (\<exists>t'. rb_zip s' c t' \<and> inorder t' = inorder t) \<and> rb_space s' = rb_space s \<and> rb_fit s' = rb_fit s"

lemma rb_keepsI:
  "rb_zip s' c t' \<Longrightarrow> inorder t' = inorder t \<Longrightarrow> rb_space s' = rb_space s \<Longrightarrow> rb_fit s' = rb_fit s \<Longrightarrow> rb_keeps c t s s'"
  by (auto simp: rb_keeps_def)

lemma rb_keeps_plug: "rb_keeps c t s s' \<Longrightarrow> rb_keeps [] (rb_plug c t) s s'"
  unfolding rb_keeps_def by (metis inorder_plug rb_zip_plug rb_before.simps(1))

lemma rb_insert_rotate_left:
  assumes z: "rb_zip s c \<langle>\<langle>a, p, b\<rangle>, g, u\<rangle>" and x: "x \<in> set_tree \<langle>\<langle>a, p, b\<rangle>, g, u\<rangle>"
  shows "\<exists>s'. rb_insert_rotate True (fst x) (fst p) (fst g) s = Some s' \<and> rb_keeps c \<langle>\<langle>a, p, b\<rangle>, g, u\<rangle> s s'"
proof -
  let ?t = "\<langle>\<langle>a, p, b\<rangle>, g, u\<rangle>"
  have mem: "y \<in> set_tree (rb_plug c ?t)" if "y \<in> set_tree ?t" for y using set_tree_plug that by blast
  let ?s1 = "set_red (fst g) (set_black (fst p) s)"
  have z1: "rb_zip ?s1 c ?t" using rb_zip_colour z mem by simp
  then have right: "get_right_child ?s1 (fst p) = Some (troot b)" by (simp add: rb_zip_def node_is_def)
  show ?thesis
  proof (cases "troot b = Some (fst x)")
    case True
    then obtain b1 y b2 where b: "b = \<langle>b1, y, b2\<rangle>" by (cases b) auto
    let ?s2 = "set_black (fst x) (set_red (fst p) ?s1)"
    have "rb_zip ?s2 c ?t" using rb_zip_colour z1 mem x by simp
    then have "rb_zip ?s2 ((True, g, u) # c) \<langle>a, p, b\<rangle>" by (simp add: rb_zip_up)
    then obtain s3 where s3: "left_rotate (fst p) ?s2 = Some s3" "rb_zip s3 ((True, g, u) # c) \<langle>\<langle>a, p, b1\<rangle>, y, b2\<rangle>"
        "rb_space s3 = rb_space ?s2" "rb_fit s3 = rb_fit ?s2"
      using left_rotate_zip b by blast
    then have "rb_zip s3 c \<langle>\<langle>\<langle>a, p, b1\<rangle>, y, b2\<rangle>, g, u\<rangle>" by (simp add: rb_zip_up)
    then obtain s4 where s4: "right_rotate (fst g) s3 = Some s4" "rb_zip s4 c \<langle>\<langle>a, p, b1\<rangle>, y, \<langle>b2, g, u\<rangle>\<rangle>"
        "rb_space s4 = rb_space s3" "rb_fit s4 = rb_fit s3"
      using right_rotate_zip by blast
    then have "rb_keeps c ?t s s4" using s3(3,4) b by (intro rb_keepsI [OF s4(2)]) simp_all
    then show ?thesis using s3(1) s4(1) right True b by (simp add: rb_insert_rotate_def)
  next
    case False
    obtain s4 where s4: "right_rotate (fst g) ?s1 = Some s4" "rb_zip s4 c \<langle>a, p, \<langle>b, g, u\<rangle>\<rangle>"
        "rb_space s4 = rb_space ?s1" "rb_fit s4 = rb_fit ?s1"
      using right_rotate_zip [OF z1] by blast
    then have "rb_keeps c ?t s s4" by (intro rb_keepsI [OF s4(2)]) simp_all
    then show ?thesis using s4(1) right False by (simp add: rb_insert_rotate_def)
  qed
qed

lemma rb_insert_rotate_right:
  assumes z: "rb_zip s c \<langle>u, g, \<langle>a, p, b\<rangle>\<rangle>" and x: "x \<in> set_tree \<langle>u, g, \<langle>a, p, b\<rangle>\<rangle>"
  shows "\<exists>s'. rb_insert_rotate False (fst x) (fst p) (fst g) s = Some s' \<and> rb_keeps c \<langle>u, g, \<langle>a, p, b\<rangle>\<rangle> s s'"
proof -
  let ?t = "\<langle>u, g, \<langle>a, p, b\<rangle>\<rangle>"
  have mem: "y \<in> set_tree (rb_plug c ?t)" if "y \<in> set_tree ?t" for y using set_tree_plug that by blast
  let ?s1 = "set_red (fst g) (set_black (fst x) s)"
  have z1: "rb_zip ?s1 c ?t" using rb_zip_colour z mem x by simp
  then have l: "get_left_child ?s1 (fst p) = Some (troot a)" by (simp add: rb_zip_def node_is_def)
  show ?thesis
  proof (cases "troot a = Some (fst x)")
    case True
    then obtain a1 y a2 where a: "a = \<langle>a1, y, a2\<rangle>" by (cases a) auto
    have "rb_zip ?s1 ((False, g, u) # c) \<langle>a, p, b\<rangle>" using z1 by (simp add: rb_zip_up)
    then obtain s3 where s3: "right_rotate (fst p) ?s1 = Some s3" "rb_zip s3 ((False, g, u) # c) \<langle>a1, y, \<langle>a2, p, b\<rangle>\<rangle>"
        "rb_space s3 = rb_space ?s1" "rb_fit s3 = rb_fit ?s1"
      using right_rotate_zip a by blast
    then have "rb_zip s3 c \<langle>u, g, \<langle>a1, y, \<langle>a2, p, b\<rangle>\<rangle>\<rangle>" by (simp add: rb_zip_up)
    then obtain s4 where s4: "left_rotate (fst g) s3 = Some s4" "rb_zip s4 c \<langle>\<langle>u, g, a1\<rangle>, y, \<langle>a2, p, b\<rangle>\<rangle>"
        "rb_space s4 = rb_space s3" "rb_fit s4 = rb_fit s3"
      using left_rotate_zip by blast
    then have "rb_keeps c ?t s s4" using s3(3,4) a by (intro rb_keepsI [OF s4(2)]) simp_all
    then show ?thesis using s3(1) s4(1) l True a by (simp add: rb_insert_rotate_def)
  next
    case False
    obtain s4 where s4: "left_rotate (fst g) ?s1 = Some s4" "rb_zip s4 c \<langle>\<langle>u, g, a\<rangle>, p, b\<rangle>"
        "rb_space s4 = rb_space ?s1" "rb_fit s4 = rb_fit ?s1"
      using left_rotate_zip [OF z1] by blast
    then have "rb_keeps c ?t s s4" by (intro rb_keepsI [OF s4(2)]) simp_all
    then show ?thesis using s4(1) l False by (simp add: rb_insert_rotate_def)
  qed
qed

lemma block_is_black_root:
  assumes "rb_tree s q t"
  shows "\<exists>c. block_is_black s (troot t) = Some c"
  using assms by (cases t) (auto simp: block_is_black_def node_is_def rb_marked_def)

lemma rb_zip_node:
  assumes "rb_zip s c \<langle>l, x, r\<rangle>"
  shows "get_parent s (fst x) = Some (rb_top c)" "get_left_child s (fst x) = Some (troot l)"
    "get_right_child s (fst x) = Some (troot r)" "rb_block_size s (fst x) = Some (snd x)"
    "\<exists>k. block_is_black s (Some (fst x)) = Some k"
    "\<exists>k. block_is_black s (troot l) = Some k" "\<exists>k. block_is_black s (troot r) = Some k"
    "troot l \<noteq> Some (fst x)" "troot r \<noteq> Some (fst x)"
  using assms block_is_black_root [of s _ l] block_is_black_root [of s _ r] troot_off [of "fst x" r] troot_off [of "fst x" l]
  by (auto simp: rb_zip_def node_is_def block_is_black_def rb_marked_def rb_apart_commute)


text \<open>
  The fuel is enough when it exceeds the depth of the focus. The exception of \<open>get_uncle\<close> comes after the block
  was put into the tree.
\<close>

lemma balance_after_insert_keeps:
  assumes "rb_zip s c \<langle>l, x, r\<rangle>" "length c < fuel"
  shows "\<exists>e s'. balance_after_insert fuel (fst x) s = Some (e, s') \<and> rb_keeps [] (rb_plug c \<langle>l, x, r\<rangle>) s s'"
  using assms
proof (induction fuel arbitrary: s c l x r)
  case (Suc fuel)
  note z = Suc.prems(1)
  let ?t = "\<langle>l, x, r\<rangle>"
  have parent: "get_parent s (fst x) = Some (rb_top c)" using z by (simp add: rb_zip_def node_is_def)
  have keep: "rb_keeps [] (rb_plug c ?t) s s" using z rb_zip_plug [of s c ?t] by (auto simp: rb_keeps_def)
  show ?case
  proof (cases c)
    case Nil
    then have "rb_keeps [] (rb_plug c ?t) s (set_black (fst x) s)"
      using rb_zip_colour(1) [OF z, of x] by (intro rb_keepsI [of _ _ ?t]) simp_all
    then show ?thesis using parent Nil by simp
  next
    case (Cons f c2)
    obtain sd p u where f: "f = (sd, p, u)" by (cases f) auto
    have zp: "rb_zip s c2 (if sd then \<langle>?t, p, u\<rangle> else \<langle>u, p, ?t\<rangle>)" using z Cons f by (simp only: rb_zip_up)
    then have pp: "get_parent s (fst p) = Some (rb_top c2)" by (cases sd) (simp_all add: rb_zip_node)
    obtain kx where kx: "block_is_black s (Some (fst x)) = Some kx" using rb_zip_node(5) [OF z] by blast
    obtain kp where kp: "block_is_black s (Some (fst p)) = Some kp" using zp rb_zip_node(5) by (cases sd) (simp, blast)+
    note k = kx kp
    show ?thesis
    proof (cases "kx \<or> kp")
      case True
      then show ?thesis using parent Cons f k keep by (cases kx) auto
    next
      case red: False
      show ?thesis
      proof (cases c2)
        case Nil
        then show ?thesis using parent Cons f k pp red keep by auto
      next
        case (Cons f2 c3)
        obtain sd2 g v where f2: "f2 = (sd2, g, v)" by (cases f2) auto
        define t where "t = (if sd then \<langle>?t, p, u\<rangle> else \<langle>u, p, ?t\<rangle>)"
        have t: "troot t = Some (fst p)" "p \<in> set_tree t" "x \<in> set_tree t" by (simp_all add: t_def)
        let ?g = "if sd2 then \<langle>t, g, v\<rangle> else \<langle>v, g, t\<rangle>"
        have zg: "rb_zip s c3 ?g" using zp Cons f2 by (simp only: rb_zip_up t_def)
        have plug: "rb_plug c ?t = rb_plug c3 ?g" using \<open>c = f # c2\<close> Cons f f2 by (simp add: t_def)
        have tree: "rb_tree s (Some (fst g)) v" and sep: "rb_off_all (inorder t) (inorder v)"
          using zg by (cases sd2; auto simp: rb_zip_def intro: rb_off_all_sym)+
        have not_p: "troot v \<noteq> Some (fst p)"
          using sep t(2) by (intro troot_off) (simp add: rb_off_all_def)
        have gl: "get_left_child s (fst g) = Some (if sd2 then Some (fst p) else troot v)"
          using zg rb_zip_node(2) [of s c3] t(1) by (cases sd2) simp_all
        have gr: "get_right_child s (fst g) = Some (troot v)" if sd2
          using zg rb_zip_node(3) [of s c3] that by simp
        obtain ku where ku: "block_is_black s (troot v) = Some ku" using block_is_black_root [OF tree] by blast
        have mem: "y \<in> set_tree (rb_plug c3 ?g)" if "y \<in> set_tree ?g" for y using set_tree_plug that by blast
        have unfold: "balance_after_insert (Suc fuel) (fst x) s =
            (case (troot v, ku) of
               (Some u, False) \<Rightarrow> balance_after_insert fuel (fst g) (set_red (fst g) (set_black u (set_black (fst p) s)))
             | _ \<Rightarrow> map_option (Pair None) (rb_insert_rotate sd2 (fst x) (fst p) (fst g) s))"
          using gl gr not_p ku by (cases sd2; cases ku; cases "troot v")
            (simp_all add: parent \<open>c = f # c2\<close> Cons f f2 k pp red[simplified])
        show ?thesis
        proof (cases "troot v \<noteq> None \<and> \<not> ku")
          case True
          then obtain v1 y v2 where v: "v = \<langle>v1, y, v2\<rangle>" by (cases v) auto
          let ?s1 = "set_red (fst g) (set_black (fst y) (set_black (fst p) s))"
          have in_g: "p \<in> set_tree ?g" "y \<in> set_tree ?g" "g \<in> set_tree ?g" using v t(2) by auto
          have "rb_zip ?s1 c3 ?g"
            by (rule rb_zip_colour(2) [OF rb_zip_colour(1) [OF rb_zip_colour(1) [OF zg]]]) (use in_g mem in blast)+
          moreover have "length c3 < fuel" using Suc.prems(2) \<open>c = f # c2\<close> Cons by simp
          ultimately have "\<exists>e s'. balance_after_insert fuel (fst g) ?s1 = Some (e, s') \<and> rb_keeps [] (rb_plug c3 ?g) ?s1 s'"
            using Suc.IH by (cases sd2) simp_all
          then show ?thesis using True v unfolding unfold plug by (simp add: rb_keeps_def)
        next
          case False
          have "\<exists>s'. rb_insert_rotate sd2 (fst x) (fst p) (fst g) s = Some s' \<and> rb_keeps c3 ?g s s'"
          proof (cases sd)
            case True
            then show ?thesis using zg rb_insert_rotate_left [of s c3 ?t p u g v x] rb_insert_rotate_right [of s c3 v g ?t p u x]
              by (cases sd2) (simp_all add: t_def)
          next
            case False
            then show ?thesis using zg rb_insert_rotate_left [of s c3 u p ?t g v x] rb_insert_rotate_right [of s c3 v g u p ?t x]
              by (cases sd2) (simp_all add: t_def)
          qed
          then obtain s' where s': "rb_insert_rotate sd2 (fst x) (fst p) (fst g) s = Some s'" "rb_keeps c3 ?g s s'" by blast
          have "rb_keeps [] (rb_plug c ?t) s s'" unfolding plug by (rule rb_keeps_plug [OF s'(2)])
          then show ?thesis using s'(1) False unfolding unfold by (cases "troot v"; cases ku) simp_all
        qed
      qed
    qed
  qed
qed simp


section \<open>Insertion\<close>

text \<open>The place for a size: smaller and equal sizes go left.\<close>

fun rb_place :: "64 word \<Rightarrow> rb_node tree \<Rightarrow> rb_around \<Rightarrow> rb_around" where
  "rb_place sz \<langle>\<rangle> c = c"
| "rb_place sz \<langle>l, x, r\<rangle> c = (if sz \<le> snd x then rb_place sz l ((True, x, r) # c) else rb_place sz r ((False, x, l) # c))"

lemma rb_plug_place [simp]: "rb_plug (rb_place sz t c) \<langle>\<rangle> = rb_plug c t"
  by (induction sz t c rule: rb_place.induct) simp_all

lemma rb_zip_place: "rb_zip s (rb_place sz t c) \<langle>\<rangle> \<longleftrightarrow> rb_zip s c t"
  using rb_zip_plug [of s c t] rb_zip_plug [of s "rb_place sz t c" "\<langle>\<rangle>"] by simp

lemma length_place: "length (rb_place sz t c) \<le> length c + size t"
  by (induction sz t c rule: rb_place.induct) auto

lemma rb_descend_place:
  assumes "rb_zip s c \<langle>l, x, r\<rangle>" "size l + size r < fuel"
  shows "\<exists>y u c'. rb_place sz \<langle>l, x, r\<rangle> c = (sz \<le> snd y, y, u) # c' \<and> rb_descend fuel s sz (fst x) = Some (fst y)"
  using assms
proof (induction fuel arbitrary: c l x r)
  case (Suc fuel)
  note n = rb_zip_node [OF Suc.prems(1)]
  show ?case
  proof (cases "if sz \<le> snd x then l else r")
    case Leaf
    then show ?thesis using n by (auto split: if_splits)
  next
    case (Node l' x' r')
    show ?thesis
    proof (cases "sz \<le> snd x")
      case True
      then have "rb_zip s ((True, x, r) # c) \<langle>l', x', r'\<rangle>" using Suc.prems(1) Node by (simp add: rb_zip_up)
      moreover have "size l' + size r' < fuel" using Suc.prems(2) Node True by simp
      ultimately show ?thesis using Suc.IH [of "(True, x, r) # c" l' x' r'] n True Node by simp
    next
      case False
      then have "rb_zip s ((False, x, l) # c) \<langle>l', x', r'\<rangle>" using Suc.prems(1) Node by (simp add: rb_zip_up)
      moreover have "size l' + size r' < fuel" using Suc.prems(2) Node False by simp
      ultimately show ?thesis using Suc.IH [of "(False, x, l) # c" l' x' r'] n False Node by simp
    qed
  qed
qed simp

lemma rb_place_order:
  assumes "sorted (map snd (inorder t))" "\<forall>x \<in> set_tree t. snd x \<noteq> sz"
  shows "rb_before (rb_place sz t c) = rb_before c @ filter (\<lambda>x. snd x < sz) (inorder t) \<and>
    rb_after (rb_place sz t c) = filter (\<lambda>x. sz < snd x) (inorder t) @ rb_after c"
  using assms
proof (induction t arbitrary: c)
  case (Node l x r)
  have sorted: "sorted (map snd (inorder l))" "sorted (map snd (inorder r))"
    and left: "\<And>y. y \<in> set_tree l \<Longrightarrow> snd y \<le> snd x" and right: "\<And>y. y \<in> set_tree r \<Longrightarrow> snd x \<le> snd y"
    using Node.prems(1) by (auto simp: sorted_append)
  have less: "filter (\<lambda>x. snd x < sz) (inorder l) = inorder l" "filter (\<lambda>x. sz < snd x) (inorder l) = []" if "snd x < sz"
    using left that by (fastforce simp: filter_id_conv filter_empty_conv)+
  have greater: "filter (\<lambda>x. sz < snd x) (inorder r) = inorder r" "filter (\<lambda>x. snd x < sz) (inorder r) = []" if "sz < snd x"
    using right that by (fastforce simp: filter_id_conv filter_empty_conv)+
  show ?case
  proof (cases "sz < snd x")
    case True
    then show ?thesis using Node.IH(1) sorted(1) Node.prems(2) greater by auto
  next
    case False
    then have "snd x < sz" using Node.prems(2) by (metis linorder_neqE tree.set_intros(2))
    then show ?thesis using Node.IH(2) sorted(2) Node.prems(2) less by auto
  qed
qed simp_all


section \<open>The search tree\<close>

definition rb_search :: "rb \<Rightarrow> rb_node tree \<Rightarrow> bool" where
  "rb_search s t \<longleftrightarrow> rb_zip s [] t \<and> sorted (map snd (inorder t)) \<and> (\<forall>x \<in> set_tree t. fst x + 50 \<le> unat (rb_space s))"

lemma rb_sep_distinct: "rb_sep xs \<Longrightarrow> distinct (map fst xs)"
  by (induction xs) (auto simp: rb_off_def)

lemma rb_search_size:
  assumes "rb_search s t"
  shows "size t < rb_fuel s"
proof -
  have sep: "distinct (map fst (inorder t))" using assms by (simp add: rb_search_def rb_zip_def rb_sep_distinct)
  have "set (map fst (inorder t)) \<subseteq> {..<unat (rb_space s)}" using assms by (auto simp: rb_search_def)
  then have "card (set (map fst (inorder t))) \<le> unat (rb_space s)" using card_mono [of "{..<unat (rb_space s)}"] by simp
  then show ?thesis using distinct_card [OF sep] by (simp add: rb_fuel_def)
qed

text \<open>A new leaf.\<close>

lemma rb_attach:
  assumes "rb_zip s ((sd, y, u) # c) \<langle>\<rangle>" "node_is s (Some (fst y)) x None None" "rb_off (fst x) (rb_above ((sd, y, u) # c))"
  shows "rb_zip (if sd then set_left_child (fst y) (Some (fst x)) s else set_right_child (fst y) (Some (fst x)) s)
    ((sd, y, u) # c) \<langle>\<langle>\<rangle>, x, \<langle>\<rangle>\<rangle>"
  using assms by (cases sd) (auto simp: rb_zip_def node_is_def rb_apart_commute)


lemma rb_above_plug: "set (inorder (rb_plug c t)) = set (inorder t @ rb_above c)"
proof (induction c arbitrary: t)
  case (Cons f c)
  obtain sd x u where "f = (sd, x, u)" by (cases f) auto
  then show ?case using Cons [of "if sd then \<langle>t, x, u\<rangle> else \<langle>u, x, t\<rangle>"] by auto
qed simp

lemma rb_off_above:
  assumes "rb_off a (inorder (rb_plug c t))"
  shows "rb_off a (rb_above c)"
  using assms unfolding rb_off_def rb_above_plug by simp

lemma insert_to_tree_keeps:
  assumes "rb_search s t" "\<forall>x \<in> set_tree t. snd x \<noteq> sz \<and> rb_apart block (fst x)" "rb_block_size s block = Some sz"
  shows "\<exists>e s'. insert_to_tree block sz s = Some (e, s') \<and>
    rb_keeps [] (rb_plug (rb_place sz t []) \<langle>\<langle>\<rangle>, (block, sz), \<langle>\<rangle>\<rangle>) s s'"
proof -
  define s1 where "s1 = set_parent block None (set_right_child block None (set_left_child block None (set_red block s)))"
  have off: "rb_off block (inorder t)" using assms(2) by (simp add: rb_off_def set_inorder)
  have z: "rb_zip s [] t" using assms(1) by (simp add: rb_search_def)
  then have z1: "rb_zip s1 [] t" using off by (simp add: rb_zip_def s1_def)
  have same: "rb_space s1 = rb_space s" "rb_fit s1 = rb_fit s" "rb_root s1 = rb_root s" by (simp_all add: s1_def)
  show ?thesis
  proof (cases t)
    case Leaf
    then have root: "rb_root s = None" using z by (simp add: rb_zip_def)
    let ?s = "set_parent block None ((set_black block s1)\<lparr>rb_root := Some block\<rparr>)"
    have "rb_zip ?s [] \<langle>\<langle>\<rangle>, (block, sz), \<langle>\<rangle>\<rangle>" using assms(3) by (simp add: rb_zip_def node_is_def s1_def)
    then have "rb_keeps [] \<langle>\<langle>\<rangle>, (block, sz), \<langle>\<rangle>\<rangle> s ?s" by (rule rb_keepsI) (simp_all add: same)
    then show ?thesis using root Leaf same by (simp add: insert_to_tree_def Let_def s1_def [symmetric])
  next
    case (Node l x r)
    have root: "rb_root s1 = Some (fst x)" using z Node same by (simp add: rb_zip_def)
    have fuel: "size t < rb_fuel s1" using rb_search_size [OF assms(1)] same by (simp add: rb_fuel_def)
    then obtain y u c where place: "rb_place sz t [] = (sz \<le> snd y, y, u) # c"
        and down: "rb_descend (rb_fuel s1) s1 sz (fst x) = Some (fst y)"
      using rb_descend_place [of s1 "[]" l x r "rb_fuel s1" sz] z1 Node by auto
    define s2 where "s2 = set_right_child block None (set_left_child block None (set_parent block (Some (fst y))
      (rb_avail_block block (set_rb_size block sz (set_red block s1)))))"
    have z2: "rb_zip s2 ((sz \<le> snd y, y, u) # c) \<langle>\<rangle>"
      using z1 off rb_zip_place [of s2 sz t "[]"] place by (simp add: rb_zip_def s2_def)
    have new: "node_is s2 (Some (fst y)) (block, sz) None None" by (simp add: node_is_def s2_def)
    have plug: "rb_plug ((sz \<le> snd y, y, u) # c) \<langle>\<rangle> = t"
      using rb_plug_place [of sz t "[]"] unfolding place by (simp only: rb_plug.simps(1))
    have off_c: "rb_off block (rb_above ((sz \<le> snd y, y, u) # c))"
      by (rule rb_off_above [of _ _ "\<langle>\<rangle>"]) (simp only: plug off)
    have y: "y \<in> set_tree t"
      using rb_above_plug [of "(sz \<le> snd y, y, u) # c" "\<langle>\<rangle>"] unfolding plug by (auto simp: set_inorder)
    let ?c = "(sz \<le> snd y, y, u) # c" and ?leaf = "\<langle>\<langle>\<rangle>, (block, sz), \<langle>\<rangle>\<rangle>"
    let ?s3 = "if sz < snd y then set_left_child (fst y) (Some block) s2 else set_right_child (fst y) (Some block) s2"
    have side: "sz < snd y \<longleftrightarrow> sz \<le> snd y" using assms(2) y by (auto simp: order.order_iff_strict)
    have z3: "rb_zip ?s3 ?c ?leaf" using rb_attach [OF z2 new] off_c side by (cases "sz \<le> snd y") simp_all
    have ns: "rb_block_size s2 (fst y) = Some (snd y)" using z2 by (simp add: rb_zip_def node_is_def)
    have len: "length ?c < rb_fuel ?s3"
      using length_place [of sz t "[]"] place fuel same by (simp add: rb_fuel_def s2_def)
    obtain e s' where bal: "balance_after_insert (rb_fuel ?s3) block ?s3 = Some (e, s')"
        and keeps: "rb_keeps [] (rb_plug ?c ?leaf) ?s3 s'"
      using balance_after_insert_keeps [OF z3 len, unfolded fst_conv] by blast
    have "insert_to_tree block sz s = balance_after_insert (rb_fuel ?s3) block ?s3"
      using root down ns by (simp add: insert_to_tree_def Let_def s1_def [symmetric] s2_def [symmetric])
    moreover have "rb_keeps [] (rb_plug ?c ?leaf) s s'"
      using keeps by (auto simp: rb_keeps_def s2_def same)
    ultimately show ?thesis using bal place by simp
  qed
qed


text \<open>
  C20. An insertion into the tree of the free blocks ends, and afterwards the pointers, parents included, are again those of
  a tree with the same blocks and the new one, in the order of their sizes: also when \<open>get_uncle\<close> throws, which
  comes after the block was attached. The size must be new, because the descent and the
  attachment treat equal sizes differently.
\<close>

theorem rb_insert_ordered:
  assumes "rb_search s t" "\<forall>x \<in> set_tree t. snd x \<noteq> sz \<and> rb_apart block (fst x)"
    "rb_block_size s block = Some sz" "block + 50 \<le> unat (rb_space s)"
  shows "\<exists>e s' t'. insert_to_tree block sz s = Some (e, s') \<and> rb_search s' t' \<and>
    inorder t' = filter (\<lambda>x. snd x < sz) (inorder t) @ (block, sz) # filter (\<lambda>x. sz < snd x) (inorder t)"
proof -
  obtain e s' t' where i: "insert_to_tree block sz s = Some (e, s')" "rb_zip s' [] t'" "rb_space s' = rb_space s"
      and order: "inorder t' = inorder (rb_plug (rb_place sz t []) \<langle>\<langle>\<rangle>, (block, sz), \<langle>\<rangle>\<rangle>)"
    using insert_to_tree_keeps [OF assms(1-3)] by (auto simp: rb_keeps_def)
  have sorted: "sorted (map snd (inorder t))" and room: "\<forall>x \<in> set_tree t. fst x + 50 \<le> unat (rb_space s)"
    using assms(1) by (simp_all add: rb_search_def)
  have order': "inorder t' = filter (\<lambda>x. snd x < sz) (inorder t) @ (block, sz) # filter (\<lambda>x. sz < snd x) (inorder t)"
    using order rb_place_order [OF sorted, of sz "[]"] assms(2) by simp
  have "sorted (map snd (inorder t'))"
    using sorted unfolding order' by (fastforce simp: sorted_append sorted_filter)
  moreover have "set_tree t' \<subseteq> insert (block, sz) (set_tree t)"
    using order' by (auto simp: set_inorder [symmetric] simp del: set_inorder)
  ultimately have "rb_search s' t'" using i assms(4) room by (auto simp: rb_search_def)
  then show ?thesis using i(1) order' by blast
qed

section \<open>The fits\<close>

text \<open>The right spine from the focus.\<close>

lemma rb_rightmost_last:
  assumes "rb_tree s p \<langle>l, x, r\<rangle>" "size r < fuel"
  shows "rb_rightmost fuel s (fst x) = Some (fst (last (inorder \<langle>l, x, r\<rangle>)))"
  using assms
proof (induction fuel arbitrary: p l x r)
  case (Suc fuel)
  show ?case
  proof (cases r)
    case Leaf
    then show ?thesis using Suc.prems by (simp add: node_is_def)
  next
    case (Node r1 y r2)
    then have "rb_rightmost fuel s (fst y) = Some (fst (last (inorder r)))"
      using Suc.IH [of "Some (fst x)" r1 y r2] Suc.prems by simp
    then show ?thesis using Suc.prems(1) Node by (simp add: node_is_def)
  qed
qed simp

lemma rb_tree_member: "rb_tree s p t \<Longrightarrow> x \<in> set_tree t \<Longrightarrow> rb_block_size s (fst x) = Some (snd x)"
  by (induction t arbitrary: p) (auto simp: node_is_def)

lemma rb_first_fit_found:
  assumes "rb_tree s p t" "sorted (map snd (inorder t))" "size t < fuel"
  shows "\<exists>b. rb_first_fit fuel s sz (troot t) = Some b \<and>
    (case b of None \<Rightarrow> \<forall>x \<in> set_tree t. snd x \<le> sz | Some a \<Rightarrow> \<exists>n. (a, n) \<in> set_tree t \<and> sz < n)"
  using assms
proof (induction fuel arbitrary: p t)
  case (Suc fuel)
  show ?case
  proof (cases t)
    case (Node l x r)
    show ?thesis
    proof (cases "snd x \<le> sz")
      case True
      have le: "snd y \<le> sz" if "y \<in> set_tree l" for y
        using that Suc.prems(2) Node True by (fastforce simp: sorted_append)
      obtain b where "rb_first_fit fuel s sz (troot r) = Some b"
          "case b of None \<Rightarrow> \<forall>x \<in> set_tree r. snd x \<le> sz | Some a \<Rightarrow> \<exists>n. (a, n) \<in> set_tree r \<and> sz < n"
        using Suc.IH [of "Some (fst x)" r] Suc.prems Node by (auto simp: sorted_append)
      then show ?thesis using Suc.prems(1) Node True le by (auto simp: node_is_def split: option.splits)
    next
      case False
      then show ?thesis using Suc.prems(1) Node by (cases x) (auto simp: node_is_def)
    qed
  qed simp
qed simp

text \<open>The block from which the search for a smaller one starts, with the tree below it.\<close>

definition rb_part :: "rb \<Rightarrow> rb_node tree \<Rightarrow> 64 word \<Rightarrow> nat \<Rightarrow> bool" where
  "rb_part s t sz a \<longleftrightarrow> (\<exists>q u n. rb_tree s q u \<and> troot u = Some a \<and> set_tree u \<subseteq> set_tree t \<and> size u \<le> size t \<and>
     rb_block_size s a = Some n \<and> sz \<le> n)"

lemma rb_part_left: "rb_part s l sz a \<Longrightarrow> rb_part s \<langle>l, x, r\<rangle> sz a"
  unfolding rb_part_def by fastforce

lemma rb_part_right: "rb_part s r sz a \<Longrightarrow> rb_part s \<langle>l, x, r\<rangle> sz a"
  unfolding rb_part_def by fastforce

lemma rb_climb_right_found:
  assumes "rb_tree s p \<langle>l, x, r\<rangle>" "sorted (map snd (inorder \<langle>l, x, r\<rangle>))" "size r < fuel"
  shows "\<exists>b. rb_climb_right fuel s sz (fst x) = Some b \<and>
    (case b of None \<Rightarrow> \<forall>y \<in> set_tree \<langle>l, x, r\<rangle>. snd y < sz | Some a \<Rightarrow> rb_part s \<langle>l, x, r\<rangle> sz a)"
  using assms
proof (induction fuel arbitrary: p l x r)
  case (Suc fuel)
  have n: "rb_block_size s (fst x) = Some (snd x)" "get_right_child s (fst x) = Some (troot r)"
    using Suc.prems(1) by (simp_all add: node_is_def)
  show ?case
  proof (cases "snd x < sz")
    case True
    have le: "snd y < sz" if "y \<in> set_tree l" for y
      using that Suc.prems(2) True by (fastforce simp: sorted_append)
    show ?thesis
    proof (cases r)
      case Leaf
      then show ?thesis using n True le by simp
    next
      case (Node r1 y r2)
      obtain b where b: "rb_climb_right fuel s sz (fst y) = Some b"
          "case b of None \<Rightarrow> \<forall>y \<in> set_tree r. snd y < sz | Some a \<Rightarrow> rb_part s r sz a"
        using Suc.IH [of "Some (fst x)" r1 y r2] Suc.prems Node by (auto simp: sorted_append)
      then have "case b of None \<Rightarrow> \<forall>y \<in> set_tree \<langle>l, x, r\<rangle>. snd y < sz | Some a \<Rightarrow> rb_part s \<langle>l, x, r\<rangle> sz a"
        using le True by (cases b) (auto intro: rb_part_right)
      then show ?thesis using n True Node b(1) by simp
    qed
  next
    case False
    then have "rb_part s \<langle>l, x, r\<rangle> sz (fst x)" using Suc.prems(1) n unfolding rb_part_def by (metis linorder_not_less order_refl troot.simps(2))
    then show ?thesis using n False by simp
  qed
qed simp

lemma rb_climb_left_found:
  assumes "rb_tree s p u" "troot u = Some a" "size u < fuel" "rb_block_size s a = Some n" "sz \<le> n"
  shows "\<exists>b m. rb_climb_left fuel s sz a = Some b \<and> (b, m) \<in> set_tree u \<and> sz \<le> m"
  using assms
proof (induction fuel arbitrary: p u a n)
  case (Suc fuel)
  obtain l x r where u: "u = \<langle>l, x, r\<rangle>" "a = fst x" using Suc.prems(2) by (cases u) auto
  have n: "snd x = n" "get_left_child s (fst x) = Some (troot l)" using Suc.prems(1,4) u by (simp_all add: node_is_def)
  have x: "(fst x, n) \<in> set_tree u" using u n(1) by (cases x) simp
  show ?case
  proof (cases l)
    case Leaf
    then show ?thesis using n(2) x u(2) Suc.prems(5) by auto
  next
    case (Node l1 y l2)
    have ny: "rb_block_size s (fst y) = Some (snd y)" using Suc.prems(1) u Node by (simp add: node_is_def)
    show ?thesis
    proof (cases "sz \<le> snd y")
      case True
      then obtain b m where "rb_climb_left fuel s sz (fst y) = Some b" "(b, m) \<in> set_tree l" "sz \<le> m"
        using Suc.IH [of "Some (fst x)" l "fst y" "snd y"] Suc.prems u Node ny by auto
      then show ?thesis using n(2) u Node ny True by auto
    next
      case False
      then show ?thesis using n(2) x u(2) Suc.prems(5) Node ny by auto
    qed
  qed
qed simp

lemma sorted_last_max: "sorted (map snd xs) \<Longrightarrow> y \<in> set xs \<Longrightarrow> snd y \<le> snd (last xs)"
  by (induction xs) (auto split: if_splits)

text \<open>
  C21. The three fits end on every tree of free blocks that is not empty. They give a free block that is large
  enough, the worst fit the largest one, or the null pointer when there is none; only the first
  fit refuses a block of exactly the wanted size.
\<close>

theorem rb_target_found:
  assumes "rb_search s t" "t \<noteq> \<langle>\<rangle>" "rb_fit s \<in> {First_fit, The_best_fit, The_worst_fit}"
  shows "\<exists>b. rb_target s sz = Some b \<and>
    (case b of
       None \<Rightarrow> \<forall>x \<in> set_tree t. (if rb_fit s = First_fit then snd x \<le> sz else snd x < sz)
     | Some a \<Rightarrow> \<exists>n. (a, n) \<in> set_tree t \<and> (if rb_fit s = First_fit then sz < n else sz \<le> n) \<and>
         (rb_fit s = The_worst_fit \<longrightarrow> (\<forall>x \<in> set_tree t. snd x \<le> n)))"
proof -
  obtain l x r where t: "t = \<langle>l, x, r\<rangle>" using assms(2) by (cases t) auto
  have tree: "rb_tree s None t" and sorted: "sorted (map snd (inorder t))" and root: "rb_root s = Some (fst x)"
    using assms(1) t by (auto simp: rb_search_def rb_zip_def)
  have size: "size t < rb_fuel s" by (rule rb_search_size [OF assms(1)])
  show ?thesis
  proof (cases "rb_fit s")
    case First_fit
    then show ?thesis using rb_first_fit_found [OF tree sorted size, of sz] root t
      by (auto simp: rb_target_def get_first_fit_def split: option.splits)
  next
    case The_worst_fit
    let ?last = "last (inorder t)"
    have last: "?last \<in> set_tree t" using t last_in_set [of "inorder t"] by simp
    have max: "snd y \<le> snd ?last" if "y \<in> set_tree t" for y
      using sorted_last_max [OF sorted] that by (simp add: set_inorder)
    have "rb_rightmost (rb_fuel s) s (fst x) = Some (fst ?last)" using rb_rightmost_last [of s None l x r] tree t size by simp
    then have target: "rb_target s sz = Some (if sz \<le> snd ?last then Some (fst ?last) else None)"
      using The_worst_fit root rb_tree_member [OF tree last] by (simp add: rb_target_def get_worst_fit_def)
    show ?thesis
    proof (cases "sz \<le> snd ?last")
      case True
      then show ?thesis using target max last The_worst_fit by (cases ?last) auto
    next
      case False
      then have "snd y < sz" if "y \<in> set_tree t" for y using max [OF that] by simp
      then show ?thesis using False target The_worst_fit by simp
    qed
  next
    case Fit_other
    then show ?thesis using assms(3) by simp
  next
    case The_best_fit
    obtain c where c: "rb_climb_right (rb_fuel s) s sz (fst x) = Some c"
        "case c of None \<Rightarrow> \<forall>y \<in> set_tree t. snd y < sz | Some a \<Rightarrow> rb_part s t sz a"
      using rb_climb_right_found [of s None l x r "rb_fuel s" sz] tree sorted size t by auto
    show ?thesis
    proof (cases c)
      case None
      then show ?thesis using c The_best_fit root by (simp add: rb_target_def get_best_fit_def)
    next
      case (Some a)
      then obtain q u n where u: "rb_tree s q u" "troot u = Some a" "set_tree u \<subseteq> set_tree t" "size u \<le> size t"
          "rb_block_size s a = Some n" "sz \<le> n"
        using c(2) by (auto simp: rb_part_def)
      obtain b m where "rb_climb_left (rb_fuel s) s sz a = Some b" "(b, m) \<in> set_tree u" "sz \<le> m"
        using rb_climb_left_found [OF u(1,2) _ u(5,6)] u(4) size by (meson order.strict_trans1)
      then show ?thesis using Some c(1) The_best_fit root u(3) by (auto simp: rb_target_def get_best_fit_def)
    qed
  qed
qed


section \<open>Runs\<close>

definition rb_fresh :: "64 word \<Rightarrow> fit_mode \<Rightarrow> rb" where
  "rb_fresh n mode = projr (rb_new (\<lambda>_. True) n mode)"

text \<open>Two free blocks, the smaller one the root.\<close>

definition rb_pair :: "fit_mode \<Rightarrow> rb" where
  "rb_pair mode =
     set_right_child 0 (Some 50) (set_rb_size 0 50 (set_left_child 50 None (set_right_child 50 None
       (set_parent 50 (Some 0) (set_rb_size 50 60 (set_red 50 (rb_fresh 220 mode)))))))"

lemma rb_pair_search: "rb_search (rb_pair First_fit) \<langle>\<langle>\<rangle>, (0, 50), \<langle>\<langle>\<rangle>, (50, 60), \<langle>\<rangle>\<rangle>\<rangle>"
  by code_simp

text \<open>The rest that the first allocation carves is never marked as free, and the first deallocation reads the mark.\<close>

lemma rb_first_deallocation:
  "fst (rb_deallocate (snd (rb_allocate (rb_fresh 220 First_fit) 100 1)) (Some 32)) = Inl Al_undefined"
  by code_simp

text \<open>A block with the size of the root replaces its right child, which is no longer in the tree.\<close>

lemma rb_equal_size_replaces:
  "map_option (\<lambda>(e, s). (e, rb_root s, get_left_child s 0, get_right_child s 0, get_left_child s 110, get_right_child s 110))
     (insert_to_tree 110 50 (rb_pair First_fit)) = Some (None, Some 0, Some None, Some (Some 110), Some None, Some None)"
  by code_simp

theorem rb_insert_ordered_witness:
  "\<exists>e s' t'. insert_to_tree 110 55 (set_rb_size 110 55 (rb_pair First_fit)) = Some (e, s') \<and> rb_search s' t' \<and>
     inorder t' = [(0, 50), (110, 55), (50, 60)]"
proof -
  let ?s = "set_rb_size 110 55 (rb_pair First_fit)" and ?t = "\<langle>\<langle>\<rangle>, (0, 50), \<langle>\<langle>\<rangle>, (50, 60), \<langle>\<rangle>\<rangle>\<rangle> :: rb_node tree"
  have "rb_search ?s ?t" by code_simp
  moreover have "\<forall>x \<in> set_tree ?t. snd x \<noteq> 55 \<and> rb_apart 110 (fst x)" by (simp add: rb_apart_def)
  moreover have "110 + 50 \<le> unat (rb_space ?s)" by code_simp
  ultimately show ?thesis using rb_insert_ordered [of ?s ?t 55 110] by simp
qed

theorem rb_target_found_witness:
  "\<exists>b. rb_target (rb_pair The_best_fit) 55 = Some b \<and> b = Some 50"
proof -
  let ?t = "\<langle>\<langle>\<rangle>, (0, 50), \<langle>\<langle>\<rangle>, (50, 60), \<langle>\<rangle>\<rangle>\<rangle> :: rb_node tree"
  have s: "rb_search (rb_pair The_best_fit) ?t" by code_simp
  have fit: "rb_fit (rb_pair The_best_fit) = The_best_fit" by code_simp
  obtain b where b: "rb_target (rb_pair The_best_fit) 55 = Some b"
      "case b of
         None \<Rightarrow> \<forall>x \<in> set_tree ?t. (if The_best_fit = First_fit then snd x \<le> 55 else snd x < 55)
       | Some a \<Rightarrow> \<exists>n. (a, n) \<in> set_tree ?t \<and> (if The_best_fit = First_fit then 55 < n else 55 \<le> n) \<and>
           (The_best_fit = The_worst_fit \<longrightarrow> (\<forall>x \<in> set_tree ?t. snd x \<le> n))"
    using rb_target_found [OF s, of 55, unfolded fit] by blast
  have "b = Some 50" using b(2) by (cases b) auto
  then show ?thesis using b(1) by simp
qed

end
