(* ===== verification/Global_Heap.thy ===== *)
theory Global_Heap
  imports Arena
begin

text \<open>
  \<open>allocator_global_heap.cpp\<close>, \<open>allocator.cpp\<close>, \<open>allocator_guardant.cpp\<close> and \<open>allocator_test_utils.cpp\<close>: the allocator
  that forwards to \<open>operator new\<close> and writes 16 bytes in front of a block, its own address and the size.
  The heap of the process is a map from the addresses that \<open>operator new\<close> gave; where it gives the next block, if
  it does, is a parameter. The messages are left out, but not the dump of the freed bytes.
\<close>

section \<open>The heap\<close>

text \<open>A block has the bytes that were asked for, and the header if the allocator wrote one.\<close>

record heap_block =
  hb_bytes :: "64 word"
  hb_header :: "(nat \<times> 64 word) option"

type_synonym heap = "nat \<Rightarrow> heap_block option"

type_synonym placing = "heap \<Rightarrow> 64 word \<Rightarrow> nat option"

definition operator_new :: "placing \<Rightarrow> 64 word \<Rightarrow> heap \<Rightarrow> (alloc_exn + nat) \<times> heap" where
  "operator_new place n h =
     (case place h n of
        None \<Rightarrow> (Inl Al_bad_alloc, h)
      | Some p \<Rightarrow> (Inr p, h(p \<mapsto> \<lparr>hb_bytes = n, hb_header = None\<rparr>)))"

text \<open>The null pointer is freed without effect.\<close>

definition operator_delete :: "nat option \<Rightarrow> heap \<Rightarrow> (alloc_exn + unit) \<times> heap" where
  "operator_delete at_ptr h =
     (case at_ptr of
        None \<Rightarrow> (Inr (), h)
      | Some p \<Rightarrow> (if h p = None then (Inl Al_undefined, h) else (Inr (), h(p := None))))"

section \<open>The dump\<close>

definition hex_digit :: "nat \<Rightarrow> char" where
  "hex_digit n = ''0123456789abcdef'' ! (n mod 16)"

fun hex_digits :: "nat \<Rightarrow> string" where
  "hex_digits n = (if n < 16 then [hex_digit n] else hex_digits (n div 16) @ [hex_digit n])"

text \<open>Width 2, filled with zeros.\<close>

definition hex_padded :: "nat \<Rightarrow> string" where
  "hex_padded n = (if n < 16 then ''0'' else []) @ hex_digits n"

text \<open>The counter is added to the first byte, not to its address, and the sum is cut to 32 bits.\<close>

definition get_block_dump :: "8 word \<Rightarrow> nat \<Rightarrow> string" where
  "get_block_dump first n =
     (if n > 0 then '' with data:'' else []) @
     concat (map (\<lambda>i. '' 0x'' @ hex_padded ((unat first + i) mod 2 ^ 32)) [0..<n])"

section \<open>The allocator\<close>

text \<open>An object has its address, as which it signs the blocks, and a logger.\<close>

record global_heap =
  gh_this :: nat
  gh_logger :: "nat option"

definition gh_header :: "64 word" where "gh_header = 16"

text \<open>The product and the sum wrap around; a block without room for the header is written beyond its end.\<close>

definition gh_allocate :: "global_heap \<Rightarrow> placing \<Rightarrow> 64 word \<Rightarrow> 64 word \<Rightarrow> heap \<Rightarrow> (alloc_exn + nat) \<times> heap" where
  "gh_allocate g place value_size values_count h =
     (let n = value_size * values_count in
      case operator_new place (n + gh_header) h of
        (Inl e, h1) \<Rightarrow> (Inl e, h1)
      | (Inr p, h1) \<Rightarrow>
          if n + gh_header < gh_header then (Inl Al_undefined, h1)
          else (Inr (p + unat gh_header), h1(p \<mapsto> \<lparr>hb_bytes = n + gh_header, hb_header = Some (gh_this g, n)\<rparr>)))"

text \<open>The result is the dump of the freed bytes, of which only the first is read.\<close>

definition gh_deallocate :: "global_heap \<Rightarrow> (nat \<Rightarrow> 8 word) \<Rightarrow> nat option \<Rightarrow> heap \<Rightarrow> (alloc_exn + string) \<times> heap" where
  "gh_deallocate g bytes at_ptr h =
     (case at_ptr of
        None \<Rightarrow> (Inl Al_undefined, h)
      | Some a \<Rightarrow>
          if a < unat gh_header then (Inl Al_undefined, h)
          else
            let p = a - unat gh_header in
            (case Option.bind (h p) hb_header of
               None \<Rightarrow> (Inl Al_undefined, h)
             | Some (owner, n) \<Rightarrow>
                 if owner \<noteq> gh_this g then (Inl (Al_logic_error ''try of deallocation non-related memory''), h)
                 else
                   let dump = get_block_dump (bytes a) (unat n) in
                   (case operator_delete (Some p) h of
                      (Inl e, h1) \<Rightarrow> (Inl e, h1)
                    | (Inr _, h1) \<Rightarrow> (Inr dump, h1))))"

definition gh_new :: "nat \<Rightarrow> nat option \<Rightarrow> global_heap" where
  "gh_new this logger = \<lparr>gh_this = this, gh_logger = logger\<rparr>"

text \<open>The moves: the constructor leaves the logger with the other object, too.\<close>

definition gh_move_construct :: "nat \<Rightarrow> global_heap \<Rightarrow> global_heap \<times> global_heap" where
  "gh_move_construct this other = (\<lparr>gh_this = this, gh_logger = gh_logger other\<rparr>, other)"

definition gh_move_assign :: "global_heap \<Rightarrow> global_heap \<Rightarrow> global_heap \<times> global_heap" where
  "gh_move_assign g other =
     (if gh_this g \<noteq> gh_this other
      then (g\<lparr>gh_logger := gh_logger other\<rparr>, other\<lparr>gh_logger := None\<rparr>)
      else (g, other))"

section \<open>The guardant\<close>

text \<open>With a null pointer for the allocator the guardant goes to the heap itself.\<close>

definition allocate_with_guard ::
  "placing \<Rightarrow> (64 word \<Rightarrow> 64 word \<Rightarrow> heap \<Rightarrow> (alloc_exn + nat) \<times> heap) option \<Rightarrow> 64 word \<Rightarrow> 64 word \<Rightarrow> heap \<Rightarrow>
   (alloc_exn + nat) \<times> heap" where
  "allocate_with_guard place target value_size values_count h =
     (case target of
        None \<Rightarrow> operator_new place (value_size * values_count) h
      | Some alloc \<Rightarrow> alloc value_size values_count h)"

definition deallocate_with_guard ::
  "(nat option \<Rightarrow> heap \<Rightarrow> (alloc_exn + unit) \<times> heap) option \<Rightarrow> nat option \<Rightarrow> heap \<Rightarrow> (alloc_exn + unit) \<times> heap" where
  "deallocate_with_guard target at_ptr h =
     (case target of None \<Rightarrow> operator_delete at_ptr h | Some dealloc \<Rightarrow> dealloc at_ptr h)"

text \<open>The entries of the lists of blocks.\<close>

definition block_info_eq :: "64 word \<times> bool \<Rightarrow> 64 word \<times> bool \<Rightarrow> bool" where
  "block_info_eq x y \<longleftrightarrow> fst x = fst y \<and> snd x = snd y"

definition block_info_neq :: "64 word \<times> bool \<Rightarrow> 64 word \<times> bool \<Rightarrow> bool" where
  "block_info_neq x y \<longleftrightarrow> \<not> block_info_eq x y"

section \<open>What the allocator promises\<close>

text \<open>A block that was given out can be given back to the same object, which leaves the heap as it was.\<close>

lemma gh_allocate_deallocate:
  assumes "gh_allocate g place vs vc h = (Inr a, h1)" "\<And>p. place h (vs * vc + gh_header) = Some p \<Longrightarrow> h p = None"
  shows "gh_deallocate g bytes (Some a) h1 = (Inr (get_block_dump (bytes a) (unat (vs * vc))), h)"
proof -
  obtain p where p: "place h (vs * vc + gh_header) = Some p"
    and h1: "a = p + unat gh_header" "h1 = h(p \<mapsto> \<lparr>hb_bytes = vs * vc + gh_header, hb_header = Some (gh_this g, vs * vc)\<rparr>)"
    using assms(1) by (auto simp: gh_allocate_def operator_new_def Let_def split: option.splits if_splits)
  have "h1(p := None) = h" using assms(2) [OF p] h1 by auto
  then show ?thesis using h1 by (simp add: gh_deallocate_def operator_delete_def Let_def fun_upd_idem_iff)
qed

text \<open>Another object refuses the block, also one that was made by moving the first.\<close>

lemma gh_deallocate_foreign:
  assumes "gh_allocate g place vs vc h = (Inr a, h1)" "gh_this g' \<noteq> gh_this g"
  shows "gh_deallocate g' bytes (Some a) h1 = (Inl (Al_logic_error ''try of deallocation non-related memory''), h1)"
proof -
  obtain p where "a = p + unat gh_header"
      "h1 = h(p \<mapsto> \<lparr>hb_bytes = vs * vc + gh_header, hb_header = Some (gh_this g, vs * vc)\<rparr>)"
    using assms(1) by (auto simp: gh_allocate_def operator_new_def Let_def split: option.splits if_splits)
  then show ?thesis using assms(2) by (simp add: gh_deallocate_def Let_def)
qed

lemma gh_moved_refuses:
  assumes "gh_allocate g place vs vc h = (Inr a, h1)" "this \<noteq> gh_this g"
  shows "fst (gh_deallocate (fst (gh_move_construct this g)) bytes (Some a) h1) \<noteq> Inr d"
  using gh_deallocate_foreign [OF assms(1), of "fst (gh_move_construct this g)"] assms(2) by (simp add: gh_move_construct_def)

text \<open>A size within 16 of \<open>2 ^ 64\<close> gives a block too small for its header, for instance eight bytes for \<open>2 ^ 64 - 8\<close>.\<close>

lemma gh_allocate_wraps:
  "gh_allocate g (\<lambda>_ _. Some 0) (- 8) 1 Map.empty = (Inl Al_undefined, [0 \<mapsto> \<lparr>hb_bytes = 8, hb_header = None\<rparr>])"
  by (simp add: gh_allocate_def operator_new_def gh_header_def Let_def)

text \<open>Only the first byte counts.\<close>

lemma get_block_dump_example: "get_block_dump 10 3 = '' with data: 0x0a 0x0b 0x0c''"
  by (simp add: get_block_dump_def hex_padded_def hex_digit_def upt_rec)

end
