(* ===== verification/Allocator_Properties.thy ===== *)
theory Allocator_Properties
  imports Sorted_List_Correct Boundary_Tags_Correct Buddies_System_Correct Red_Black_Correct Global_Heap
begin

text \<open>
  The properties of the allocators. The witnesses run the operations on an arena of a hundred bytes.
\<close>

section \<open>The sorted list allocator\<close>

definition ex_sl :: sl where
  "ex_sl = (case sl_new (\<lambda>_. True) 100 The_best_fit of Inr s \<Rightarrow> s | Inl _ \<Rightarrow> undefined)"

lemma ex_sl_ok: "sl_rep ex_sl [(False, 100)]" "sl_fit ex_sl = The_best_fit"
proof -
  have "sl_new (\<lambda>_. True) 100 The_best_fit = Inr ex_sl"
    by (simp add: ex_sl_def sl_new_def sl_block_meta_size_def sl_meta_size_def)
  from sl_new_ok [OF this] show "sl_rep ex_sl [(False, 100)]" "sl_fit ex_sl = The_best_fit" by simp_all
qed

text \<open>
  C13. \<open>allocate\<close> refines the choice of a free block in the list of blocks: it takes the first, the smallest
  or the largest block that is big enough, as the fit mode says, carves the request with its
  sixteen bytes of header out of it, or takes it whole when the rest could not hold a header, and
  throws without a change exactly when no free block is big enough.
\<close>

theorem sl_allocate_refines:
  assumes "sl_rep s bs" "unat (value_size * values_count) + 16 < 2 ^ 64"
  shows "(\<exists>xs tz ys s'. bs = xs @ (False, tz) # ys \<and>
      sl_allocate s value_size values_count = (Inr (span xs + 16), s') \<and>
      fits (sl_fit s) (unat (value_size * values_count) + 16) xs tz ys \<and>
      sl_rep s' (xs @ carve 16 tz (unat (value_size * values_count) + 16) @ ys)) \<or>
    sl_allocate s value_size values_count = (Inl Al_bad_alloc, s) \<and>
      (\<forall>z. (False, z) \<in> set bs \<longrightarrow> z < unat (value_size * values_count) + 16)"
  using sl_allocate_ok [OF assms] by blast

theorem sl_allocate_refines_witness:
  "\<exists>s'. sl_allocate ex_sl 8 3 = (Inr 16, s') \<and> sl_rep s' [(True, 40), (False, 60)]"
proof -
  have "unat ((8 :: 64 word) * 3) = 24" by simp
  then show ?thesis using sl_allocate_refines [OF ex_sl_ok(1), of 8 3] by (auto simp: Cons_eq_append_conv carve_def)
qed

text \<open>
  C14. \<open>deallocate\<close> of a block in use gives it back and joins it with the free blocks on both sides. But
  its dump then reads as many bytes behind the pointer as the block has with its header, sixteen
  too many, so that for the last block of the arena it reads behind the memory.
\<close>

theorem sl_deallocate_refines:
  assumes "sl_rep s (xs @ (True, z) # ys)" "16 < z \<or> ys \<noteq> []"
  shows "\<exists>s'. sl_deallocate s (Some (int (span xs + 16))) = (if ys = [] then Inl Al_undefined else Inr (), s') \<and>
    sl_rep s' (release xs z ys)"
  using sl_deallocate_ok [OF assms] by blast

theorem sl_deallocate_refines_witness:
  "\<exists>s s'. sl_allocate ex_sl 8 3 = (Inr 16, s) \<and> sl_deallocate s (Some 16) = (Inr (), s') \<and> sl_rep s' [(False, 100)]"
proof -
  obtain s where s: "sl_allocate ex_sl 8 3 = (Inr 16, s)" "sl_rep s ([] @ (True, 40) # [(False, 60)])"
    using sl_allocate_ok [OF ex_sl_ok(1), of 8 3] by (auto simp: Cons_eq_append_conv carve_def)
  show ?thesis using sl_deallocate_refines [OF s(2)] s(1) by (auto simp: release_def join_right_def join_left_def)
qed

text \<open>The states that a client of the allocator can reach, with the numbers of bytes that it has asked for.\<close>

definition sl_reachable :: "sl \<Rightarrow> nat list \<Rightarrow> bool" where
  "sl_reachable =
     client_reachable 16 sl_start sl_allocate sl_deallocate sl_store sl_create_blocks_info sl_set_fit_mode"

text \<open>
  C32. Whatever a client does with what it was given, as long as it never asks for so many bytes that with the
  16 of the header they are 2^64 or more, the allocator's list of blocks covers the whole memory without gaps or
  overlaps, no two free blocks lie side by side, and the counter of the free space is the sum of the free
  blocks. A larger request wraps around and is granted (\<open>sl_allocate_wraps\<close>, \<open>sl_header_wraps\<close>).
\<close>

theorem sl_reachable_blocks:
  assumes "sl_reachable s rs" "\<forall>r \<in> set rs. r + 16 < 2 ^ 64"
  shows "\<exists>bs. sl_rep s bs \<and> sl_create_blocks_info s = Some (block_info bs) \<and>
    span bs = unat (sl_space s) \<and> free_sum bs = unat (sl_free s) \<and> coalesced bs"
proof -
  obtain bs where bs: "sl_rep s bs" using sl_contract.reachable_rep assms unfolding sl_reachable_def by blast
  then show ?thesis using sl_contract.info_ok [OF bs] by (auto simp: sl_rep_def)
qed

theorem sl_reachable_blocks_witness:
  "sl_create_blocks_info (snd (sl_allocate ex_sl 8 3)) \<noteq> None"
proof -
  have "sl_new (\<lambda>_. True) 100 The_best_fit = Inr ex_sl"
    by (simp add: ex_sl_def sl_new_def sl_block_meta_size_def sl_meta_size_def)
  then have "sl_reachable ex_sl []" unfolding sl_reachable_def by (intro client_start) (auto simp: sl_start_def)
  then have "sl_reachable (snd (sl_allocate ex_sl 8 3)) [unat (8 :: 64 word) * unat (3 :: 64 word)]"
    unfolding sl_reachable_def by (rule client_alloc)
  from sl_reachable_blocks [OF this] show ?thesis by auto
qed

text \<open>
  A request for 2^64 - 16 bytes succeeds on a memory of a hundred: the block has size zero, stays the first of the
  free blocks, and the walk over the blocks reads its owner as a link.
\<close>

lemma sl_header_wraps:
  "fst (sl_allocate ex_sl (- 16) 1) = Inr 16 \<and> sl_head (snd (sl_allocate ex_sl (- 16) 1)) = Some 0 \<and>
    sl_mem (snd (sl_allocate ex_sl (- 16) 1)) 0 = Some (Size 0) \<and>
    sl_create_blocks_info (snd (sl_allocate ex_sl (- 16) 1)) = None"
  by code_simp

text \<open>
  A double deallocation is refused: a pointer to a block that was given back and still starts a free
  block of the list, and a pointer outside the memory, throw without a change.
\<close>

theorem sl_double_deallocate:
  assumes "sl_rep s bs" "bs = xs @ (False, z) # ys \<and> p = int (span xs + 16) \<or> p < 0 \<or> int (span bs) \<le> p"
  shows "sl_deallocate s (Some p) = (Inl (Al_logic_error ''try of deallocation non-related memory''), s)"
  using assms(2)
proof (elim disjE conjE)
  assume "bs = xs @ (False, z) # ys" "p = int (span xs + 16)"
  then show ?thesis using sl_deallocate_free assms(1) by simp
qed (use sl_deallocate_outside [of p s] assms(1) in \<open>simp_all add: sl_rep_def\<close>)

theorem sl_double_deallocate_witness:
  "sl_deallocate ex_sl (Some 16) = (Inl (Al_logic_error ''try of deallocation non-related memory''), ex_sl)"
  using sl_double_deallocate [OF ex_sl_ok(1), of "[]" 100 "[]" 16] by simp

lemma free_sum_pos: "free_sum bs \<noteq> 0 \<Longrightarrow> \<exists>z. (False, z) \<in> set bs"
  by (induction bs) (auto split: if_splits)

text \<open>
  The size of a request wraps around: when the product of the two arguments is a multiple of 2^64, the
  allocator returns a block with less than sixteen bytes behind its header, if it has a free block at all.
\<close>

theorem sl_allocate_wraps:
  assumes "sl_rep s bs" "free_sum bs \<noteq> 0" "2 ^ 64 dvd unat value_size * unat values_count"
  shows "\<exists>xs z ys s'. sl_allocate s value_size values_count = (Inr (span xs + 16), s') \<and>
    sl_rep s' (xs @ (True, z) # ys) \<and> z < 16 + 16"
proof -
  have w: "unat (value_size * values_count) = 0" using assms(3) by (simp add: unat_word_ariths)
  obtain z where z: "(False, z) \<in> set bs" using free_sum_pos [OF assms(2)] by blast
  then have "16 \<le> z" using frees_iff [of z 0 bs] headers_bounds assms(1) unfolding sl_rep_def by blast
  then have "\<not> (\<forall>z. (False, z) \<in> set bs \<longrightarrow> z < 16)" using z by fastforce
  then obtain xs tz ys s' where x: "sl_allocate s value_size values_count = (Inr (span xs + 16), s')"
      "sl_rep s' (xs @ carve 16 tz 16 @ ys)"
    using sl_allocate_ok [OF assms(1), of value_size values_count] unfolding w by auto
  show ?thesis
  proof (cases "tz < 32")
    case True
    then show ?thesis using x by (auto simp: carve_def)
  next
    case False
    then have "sl_rep s' (xs @ (True, 16) # (False, tz - 16) # ys)" using x(2) by (simp add: carve_def)
    then show ?thesis using x(1) by (intro exI [of _ xs] exI [of _ 16] exI [of _ "(False, tz - 16) # ys"] exI [of _ s']) simp
  qed
qed

theorem sl_allocate_wraps_witness:
  "\<exists>xs z ys s'. sl_allocate ex_sl (2 ^ 32) (2 ^ 32) = (Inr (span xs + 16), s') \<and>
    sl_rep s' (xs @ (True, z) # ys) \<and> z < 16 + 16"
  by (rule sl_allocate_wraps [OF ex_sl_ok(1)]) simp_all

section \<open>The boundary tags allocator\<close>

definition ex_ba :: ba where
  "ex_ba = (case ba_new (\<lambda>_. True) False 200 The_worst_fit of Inr s \<Rightarrow> s | Inl _ \<Rightarrow> undefined)"

lemma ex_ba_new: "ba_new (\<lambda>_. True) False 200 The_worst_fit = Inr ex_ba"
  by (simp add: ex_ba_def ba_new_def ba_block_meta_size_def ba_meta_size_def)

lemma ex_ba_ok: "ba_rep ex_ba [(False, 200)]" "ba_fit ex_ba = The_worst_fit"
  using ba_new_ok [OF ex_ba_new] by simp_all

text \<open>
  C15. \<open>allocate\<close> of the boundary tags allocator refines the same choice among the gaps between the blocks in
  use, with 32 bytes of header: first, best or worst fit, carved or taken whole, and bad_alloc without a
  change exactly when no gap is big enough.
\<close>

theorem ba_allocate_refines:
  assumes "ba_rep s bs" "unat (value_size * values_count) + 32 < 2 ^ 64"
  shows "(\<exists>xs tz ys s'. bs = xs @ (False, tz) # ys \<and>
      ba_allocate s value_size values_count = (Inr (span xs + 32), s') \<and>
      fits (ba_fit s) (unat (value_size * values_count) + 32) xs tz ys \<and>
      ba_rep s' (xs @ carve 32 tz (unat (value_size * values_count) + 32) @ ys)) \<or>
    ba_allocate s value_size values_count = (Inl Al_bad_alloc, s) \<and>
      (\<forall>z. (False, z) \<in> set bs \<longrightarrow> z < unat (value_size * values_count) + 32)"
  using ba_allocate_ok [OF assms] by blast

theorem ba_allocate_refines_witness:
  "\<exists>s'. ba_allocate ex_ba 8 3 = (Inr 32, s') \<and> ba_rep s' [(True, 56), (False, 144)]"
proof -
  have "unat ((8 :: 64 word) * 3) = 24" by simp
  then show ?thesis using ba_allocate_refines [OF ex_ba_ok(1), of 8 3] by (auto simp: Cons_eq_append_conv carve_def)
qed

text \<open>
  C16. \<open>deallocate\<close> of a block in use of the boundary tags allocator unlinks it, which joins the gaps on both
  sides. But its header stays: a second deallocation of the same pointer is accepted as well and counts
  the bytes of the block as free once more.
\<close>

theorem ba_deallocate_refines:
  assumes "ba_rep s (xs @ (True, z) # ys)" "32 < z \<or> ys \<noteq> []"
  shows "\<exists>s' s''. ba_deallocate s (Some (int (span xs + 32))) = (Inr (), s') \<and> ba_rep s' (release xs z ys) \<and>
    ba_deallocate s' (Some (int (span xs + 32))) = (Inr (), s'') \<and> ba_avail s'' = ba_avail s' + of_nat z"
  by (rule ba_deallocate_again [OF assms])

theorem ba_deallocate_refines_witness:
  "\<exists>s s' s''. ba_allocate ex_ba 8 3 = (Inr 32, s) \<and> ba_deallocate s (Some 32) = (Inr (), s') \<and>
    ba_rep s' [(False, 200)] \<and> ba_deallocate s' (Some 32) = (Inr (), s'') \<and> ba_avail s'' = ba_avail s' + 56"
proof -
  obtain s where s: "ba_allocate ex_ba 8 3 = (Inr 32, s)" "ba_rep s ([] @ (True, 56) # [(False, 144)])"
    using ba_allocate_ok [OF ex_ba_ok(1), of 8 3] by (auto simp: Cons_eq_append_conv carve_def)
  show ?thesis using ba_deallocate_refines [OF s(2)] s(1) by (auto simp: release_def join_right_def join_left_def)
qed

definition ba_reachable :: "ba \<Rightarrow> nat list \<Rightarrow> bool" where
  "ba_reachable =
     client_reachable 32 ba_start ba_allocate ba_deallocate ba_store ba_create_blocks_info ba_set_fit_mode"

text \<open>
  C33. As long as no request, an exact product of its two factors, reaches 2^64 with the 32 bytes of a header: a block
  that the boundary tags allocator hands out to a client that gives back only what it got lies apart
  from all blocks in use, has at least the bytes that were asked for, and all blocks in use stay in use. A product
  that wraps around gives a block that is too small (\<open>ba_allocate_wraps\<close>).
\<close>

theorem ba_allocate_fresh:
  assumes "ba_reachable s rs" "\<forall>r \<in> set ((unat value_size * unat values_count) # rs). r + 32 < 2 ^ 64"
    and "ba_allocate s value_size values_count = (Inr p, s')"
  shows "\<exists>k. unat value_size * unat values_count \<le> k \<and>
    set (live 32 (ba_create_blocks_info s')) = insert (p, k) (set (live 32 (ba_create_blocks_info s))) \<and>
    (\<forall>(q, j) \<in> set (live 32 (ba_create_blocks_info s)). p + k \<le> q \<or> q + j \<le> p)"
  using ba_contract.alloc_live assms unfolding ba_reachable_def by blast

theorem ba_allocate_fresh_witness:
  "\<exists>p s'. ba_allocate ex_ba 8 3 = (Inr p, s') \<and> (\<exists>k. 24 \<le> k \<and> (p, k) \<in> set (live 32 (ba_create_blocks_info s')))"
proof -
  have "ba_reachable ex_ba []" unfolding ba_reachable_def using ex_ba_new by (intro client_start) (auto simp: ba_start_def)
  moreover obtain s' where "ba_allocate ex_ba 8 3 = (Inr 32, s')"
    using ba_allocate_ok [OF ex_ba_ok(1), of 8 3] by (auto simp: Cons_eq_append_conv)
  ultimately show ?thesis using ba_allocate_fresh [of ex_ba "[]" 8 3 32 s'] by auto
qed

text \<open>A request for 2^32 objects of 2^32 bytes gets a block, of nothing but its header.\<close>

lemma ba_allocate_wraps:
  "fst (ba_allocate ex_ba (2 ^ 32) (2 ^ 32)) = Inr 32 \<and>
    live 32 (ba_create_blocks_info (snd (ba_allocate ex_ba (2 ^ 32) (2 ^ 32)))) = [(32, 0)]"
  by code_simp

section \<open>The buddies system\<close>

definition ex_bs :: bs where
  "ex_bs = (case bs_new (\<lambda>_. True) 7 First_fit of Inr s \<Rightarrow> s | Inl _ \<Rightarrow> undefined)"

lemma ex_bs_new: "bs_new (\<lambda>_. True) 7 First_fit = Inr ex_bs"
  by (simp add: ex_bs_def bs_new_def bs_block_meta_size_def avail_block_def put_tag_def)

lemma ex_bs_ok: "bs_rep ex_bs [(False, 128)]"
  using bs_new_ok [OF ex_bs_new] by simp

lemma need_power_24: "need_power 24 = 6"
  by code_simp

lemma pow_128: "(2 :: nat) ^ k = 128 \<longleftrightarrow> k = 7"
  using power_inject_exp [of "2 :: nat" k 7] by simp

lemma split_off_6_7: "split_off 6 7 = [(False, 64)]"
  by (simp add: split_off_def upt_rec)

lemmas ex_bs_simps = need_power_24 pow_128 split_off_6_7 Let_def Cons_eq_append_conv

lemma ex_bs_run:
  obtains s s' where "bs_allocate ex_bs 8 3 = (Inr 9, s)" "bs_rep s ([] @ (True, 64) # [(False, 64)])"
    "bs_deallocate s (Some 9) = (Inr (), s')"
proof -
  have u: "unat ((8 :: 64 word) * 3) = 24" by simp
  obtain s where s: "bs_allocate ex_bs 8 3 = (Inr 9, s)" "bs_rep s ([] @ (True, 64) # [(False, 64)])"
    using bs_allocate_ok [OF ex_bs_ok, of 8 3] by (auto simp: ex_bs_simps split: if_splits)
  then show ?thesis using that bs_deallocate_ok [OF s(2)] by auto
qed

text \<open>
  C17. \<open>allocate\<close> of the buddies system refines the halving of blocks: of the free blocks with at least the next
  power of two above the request and seventeen bytes it takes the first, the smallest or the largest,
  and halves it as long as the request fits. When no free block is big enough it throws without a
  change. But a block that needs no halving is given only if a free block lies behind it; if none does, the
  code writes through the null pointer.
\<close>

theorem bs_allocate_refines:
  assumes "bs_rep s bs" "0 < unat (value_size * values_count)" "unat (value_size * values_count) + 17 < 2 ^ 64"
  shows "(\<exists>xs k ys s'. let p = need_power (unat (value_size * values_count)) in
      bs = xs @ (False, 2 ^ k) # ys \<and> fits (bs_fit s) (2 ^ p) xs (2 ^ k) ys \<and>
      (if p = k \<and> frees 0 ys = [] then bs_allocate s value_size values_count = (Inl Al_undefined, s)
       else bs_allocate s value_size values_count = (Inr (span xs + 9), s') \<and>
         bs_rep s' (xs @ (True, 2 ^ p) # split_off p k @ ys) \<and> bs_avail s' = bs_avail s - 2 ^ p)) \<or>
    bs_allocate s value_size values_count = (Inl Al_bad_alloc, s) \<and>
      (\<forall>z. (False, z) \<in> set bs \<longrightarrow> z < 2 ^ need_power (unat (value_size * values_count)))"
  using bs_allocate_ok [OF assms] by (auto simp: Let_def split: if_splits)

theorem bs_allocate_refines_witness:
  "\<exists>s'. bs_allocate ex_bs 8 3 = (Inr 9, s') \<and> bs_rep s' [(True, 64), (False, 64)]"
proof -
  have u: "unat ((8 :: 64 word) * 3) = 24" by simp
  show ?thesis using bs_allocate_refines [OF ex_bs_ok, of 8 3] by (auto simp: ex_bs_simps split: if_splits)
qed

text \<open>
  C18. \<open>deallocate\<close> of a block in use gives nothing back: it returns and adds the size of the block to the counter of
  the free bytes, but the blocks in use and the list of free blocks stay as they are, so that no buddies are
  ever merged and the bytes are never allocated again; and it may be called again.
\<close>

theorem bs_deallocate_keeps:
  assumes "bs_rep s (xs @ (True, z) # ys)" "xs @ ys \<noteq> []"
  shows "\<exists>s'. bs_deallocate s (Some (int (span xs + 9))) = (Inr (), s') \<and> bs_rep s' (xs @ (True, z) # ys) \<and>
    bs_avail s' = bs_avail s + of_nat z"
  using bs_deallocate_ok [OF assms] by blast

theorem bs_deallocate_keeps_witness:
  "\<exists>s s'. bs_allocate ex_bs 8 3 = (Inr 9, s) \<and> bs_deallocate s (Some 9) = (Inr (), s') \<and> bs_rep s' [(True, 64), (False, 64)]"
proof -
  obtain s where s: "bs_allocate ex_bs 8 3 = (Inr 9, s)" "bs_rep s ([] @ (True, 64) # [(False, 64)])"
    by (rule ex_bs_run)
  show ?thesis using bs_deallocate_keeps [OF s(2)] s(1) by auto
qed

text \<open>
  C19. On a memory of up to 2^30 bytes, whatever a client does that asks for at least one byte and for less than 2^64 - 17
  at a time: the blocks that the buddies system has ever handed out lie apart, with all the bytes that were asked for,
  also those that were given back; there are fewer of them than a 32nd of the memory's bytes; its list of blocks
  covers the memory. Beyond these bounds the code is undefined or wraps around.
\<close>

theorem bs_serves_once:
  assumes "bs_reach n s ps" "n \<le> 30" "requests_ok ps"
  shows "sorted_wrt apart ps \<and> 32 * length ps + 32 \<le> 2 ^ unat (bs_power s) \<and>
    (\<exists>info. bs_create_blocks_info s = Some info \<and> sum_list (map (unat \<circ> fst) info) = 2 ^ unat (bs_power s))"
  using bs_reach_count [OF assms] bs_reach_info [OF assms] by blast

theorem bs_serves_once_witness:
  "\<exists>s s' ps. bs_allocate ex_bs 8 3 = (Inr 9, s) \<and> bs_deallocate s (Some 9) = (Inr (), s') \<and>
    bs_reach 7 s' [(9, 24)] \<and> bs_create_blocks_info s' \<noteq> None"
proof -
  obtain s s' where s: "bs_allocate ex_bs 8 3 = (Inr 9, s)" "bs_deallocate s (Some 9) = (Inr (), s')"
    by (rule ex_bs_run)
  have "bs_reach 7 ex_bs []" by (rule reach_new [OF ex_bs_new])
  from reach_alloc [OF this, of 8 3 9 s] have r: "bs_reach 7 s [(9, 24)]" using s(1) by simp
  have r': "bs_reach 7 s' [(9, 24)]" using reach_dealloc [OF r, of 9 24] s(2) by simp
  have "requests_ok [(9, 24)]" by (simp add: requests_ok_def)
  then show ?thesis using bs_serves_once [OF r'] r' s by fastforce
qed

end
