(* ===== verification/Structures.thy ===== *)
theory Structures
  imports Consolidation
begin

text \<open>
  Schemas and pools of \<open>db_storage.cpp\<close>: B-trees from names to collections and from names to schemas.
  The tree variant of a schema or pool is never set by its constructor (\<open>None\<close>). Values reach the
  trees through the move constructors. The copy constructors are never called and are left out.
\<close>

section \<open>State\<close>

record schema =
  s_collections :: "(string, collection) b_tree"
  s_tree_variant :: "search_tree_variant option"

record pool =
  p_schemas :: "(string, schema) b_tree"
  p_tree_variant :: "search_tree_variant option"

text \<open>Each tree may use as many nodes as memory has left objects.\<close>

definition named_tree :: "db_env \<Rightarrow> nat \<Rightarrow> db_exn + (string, 'v) b_tree" where
  "named_tree env t_for_b_trees =
     (if env_memory env = 0 then Inl Db_bad_alloc
      else case b_tree_new t_for_b_trees default_key_comparer_string (env_memory env) of
        Inl e \<Rightarrow> Inl (tree_failure e)
      | Inr tr \<Rightarrow> Inr tr)"

definition schema_new :: "db_env \<Rightarrow> search_tree_variant \<Rightarrow> nat \<Rightarrow> db_exn + schema" where
  "schema_new env tree_variant t_for_b_trees =
     (case named_tree env t_for_b_trees of
        Inl e \<Rightarrow> Inl e
      | Inr tr \<Rightarrow> Inr \<lparr>s_collections = tr, s_tree_variant = None\<rparr>)"

definition schema_move :: "schema \<Rightarrow> schema" where
  "schema_move other = other\<lparr>s_collections := fst (bt_move_construct (s_collections other))\<rparr>"

definition pool_new :: "db_env \<Rightarrow> search_tree_variant \<Rightarrow> nat \<Rightarrow> db_exn + pool" where
  "pool_new env tree_variant t_for_b_trees =
     (case named_tree env t_for_b_trees of
        Inl e \<Rightarrow> Inl e
      | Inr tr \<Rightarrow> Inr \<lparr>p_schemas = tr, p_tree_variant = None\<rparr>)"

definition pool_move :: "pool \<Rightarrow> pool" where
  "pool_move other = other\<lparr>p_schemas := fst (bt_move_construct (p_schemas other))\<rparr>"

section \<open>The exceptions of the trees of names\<close>

definition struct_added :: "'k tree_exn \<Rightarrow> db_exn" where
  "struct_added e = (case e of Insertion_of_existent_key _ \<Rightarrow> Insertion_of_existent_struct | _ \<Rightarrow> tree_failure e)"

definition struct_disposed :: "'k tree_exn \<Rightarrow> db_exn" where
  "struct_disposed e = (case e of Disposal_of_nonexistent_key _ \<Rightarrow> Disposal_of_nonexistent_struct | _ \<Rightarrow> tree_failure e)"

definition struct_obtained :: "'k tree_exn \<Rightarrow> db_exn" where
  "struct_obtained e = (case e of Obtaining_of_nonexistent_key _ \<Rightarrow> Invalid_path | _ \<Rightarrow> tree_failure e)"

text \<open>Insertion, disposal and lookup of a structure by its name.\<close>

definition add_named :: "(string, 'v) b_tree \<Rightarrow> string \<Rightarrow> 'v \<Rightarrow> (db_exn + unit) \<times> (string, 'v) b_tree" where
  "add_named tr name v =
     (case bt_insert_rvalue tr name v of
        (Inl e, tr') \<Rightarrow> (Inl (struct_added e), tr')
      | (Inr _, tr') \<Rightarrow> (Inr (), tr'))"

text \<open>
  \<open>dispose\<close> moves the value out of its slot. \<open>std::swap\<close> of a slot whose pool, schema or collection was moved away
  dereferences the null pointer that the move left for its tree, so the behaviour is undefined when a pair
  follows in the leaf, and also when the leaf is then filled from the right brother or merged, where a
  pair is moved to the leaf and its old slot swapped. Only what comes from the left brother is swapped alive.
\<close>

definition filling_swaps_null :: "nat \<Rightarrow> (string, 'v) path \<Rightarrow> nat \<Rightarrow> bool" where
  "filling_swaps_null t path keys_left =
     (keys_left < get_min_keys_count t \<and>
      (case path of
         (Some parent, i) # _ \<Rightarrow>
           can_take t (sub_index i \<noteq> 0) parent (sub_index i - 1) \<noteq> Some True
       | _ \<Rightarrow> False))"

definition disposal_swaps_null :: "(string, 'v) b_tree \<Rightarrow> string \<Rightarrow> bool" where
  "disposal_swaps_null tr name =
     (case find_path (bt_keys_comparer tr) (bt_root tr) name of
        Some ((Some n, i) # path) \<Rightarrow>
          (case (if i < 0 then None else dispose_target n (nat i) path) of
             Some (target, index, path') \<Rightarrow>
               index + 1 < virtual_size target \<or> filling_swaps_null (bt_t tr) path' (virtual_size target - 1)
           | None \<Rightarrow> False)
      | _ \<Rightarrow> False)"

definition dispose_named :: "(string, 'v) b_tree \<Rightarrow> string \<Rightarrow> (db_exn + unit) \<times> (string, 'v) b_tree" where
  "dispose_named tr name =
     (if disposal_swaps_null tr name then (Inl Db_undefined_behaviour, tr)
      else case bt_dispose tr name of
        (Inl e, tr') \<Rightarrow> (Inl (struct_disposed e), tr')
      | (Inr _, tr') \<Rightarrow> (Inr (), tr'))"

definition obtain_named :: "(string, 'v) b_tree \<Rightarrow> string \<Rightarrow> db_exn + 'v" where
  "obtain_named tr name =
     (case bt_obtain tr name of Inl e \<Rightarrow> Inl (struct_obtained e) | Inr v \<Rightarrow> Inr v)"

text \<open>The tree after a value has been changed through the reference that \<open>obtain\<close> returned.\<close>

definition set_named :: "(string, 'v) b_tree \<Rightarrow> string \<Rightarrow> 'v \<Rightarrow> (string, 'v) b_tree" where
  "set_named tr name v = (case bt_obtain_modify tr name (\<lambda>_. v) of Inl e \<Rightarrow> tr | Inr tr' \<Rightarrow> tr')"

text \<open>The loops \<open>for (; iter != iter_end; ++iter)\<close> that call a method of every value.\<close>

fun each_value ::
  "(string \<Rightarrow> 'v \<Rightarrow> db_env \<Rightarrow> (db_exn + unit) \<times> 'v \<times> db_env) \<Rightarrow> (string \<times> 'v) list
    \<Rightarrow> (string, 'v) b_tree \<Rightarrow> db_env \<Rightarrow> (db_exn + unit) \<times> (string, 'v) b_tree \<times> db_env" where
  "each_value f [] tr env = (Inr (), tr, env)"
| "each_value f ((name, v) # nvs) tr env =
     (case f name v env of
        (Inl e, v', env') \<Rightarrow> (Inl e, set_named tr name v', env')
      | (Inr _, v', env') \<Rightarrow> each_value f nvs (set_named tr name v') env')"

section \<open>Schemas\<close>

definition schema_add ::
  "schema \<Rightarrow> db_env \<Rightarrow> string \<Rightarrow> search_tree_variant \<Rightarrow> allocator_variant \<Rightarrow> fit_mode \<Rightarrow> nat
    \<Rightarrow> (db_exn + unit) \<times> schema" where
  "schema_add s env collection_name tree_variant allocator_variant fit_mode t_for_b_trees =
     (case collection_new env tree_variant allocator_variant fit_mode t_for_b_trees of
        Inl e \<Rightarrow> (Inl e, s)
      | Inr c \<Rightarrow>
          (case add_named (s_collections s) collection_name (collection_move env c) of
             (r, tr) \<Rightarrow> (r, s\<lparr>s_collections := tr\<rparr>)))"

definition schema_dispose :: "schema \<Rightarrow> string \<Rightarrow> (db_exn + unit) \<times> schema" where
  "schema_dispose s collection_name =
     (case dispose_named (s_collections s) collection_name of (r, tr) \<Rightarrow> (r, s\<lparr>s_collections := tr\<rparr>))"

definition schema_obtain :: "schema \<Rightarrow> string \<Rightarrow> db_exn + collection" where
  "schema_obtain s collection_name = obtain_named (s_collections s) collection_name"

definition schema_consolidate :: "schema \<Rightarrow> db_env \<Rightarrow> string \<Rightarrow> (db_exn + unit) \<times> schema \<times> db_env" where
  "schema_consolidate s env path =
     (case tree_pairs (s_collections s) of
        None \<Rightarrow> (Inl Db_undefined_behaviour, s, env)
      | Some ncs \<Rightarrow>
          (case each_value (\<lambda>name c env. collection_consolidate c env (make_path_strings [path, name]))
                  ncs (s_collections s) env of
             (r, tr, env') \<Rightarrow> (r, s\<lparr>s_collections := tr\<rparr>, env')))"

section \<open>Pools\<close>

definition pool_add :: "pool \<Rightarrow> db_env \<Rightarrow> string \<Rightarrow> search_tree_variant \<Rightarrow> nat \<Rightarrow> (db_exn + unit) \<times> pool" where
  "pool_add p env schema_name tree_variant t_for_b_trees =
     (case schema_new env tree_variant t_for_b_trees of
        Inl e \<Rightarrow> (Inl e, p)
      | Inr s \<Rightarrow>
          (case add_named (p_schemas p) schema_name (schema_move s) of (r, tr) \<Rightarrow> (r, p\<lparr>p_schemas := tr\<rparr>)))"

definition pool_dispose :: "pool \<Rightarrow> string \<Rightarrow> (db_exn + unit) \<times> pool" where
  "pool_dispose p schema_name =
     (case dispose_named (p_schemas p) schema_name of (r, tr) \<Rightarrow> (r, p\<lparr>p_schemas := tr\<rparr>))"

definition pool_obtain :: "pool \<Rightarrow> string \<Rightarrow> db_exn + schema" where
  "pool_obtain p schema_name = obtain_named (p_schemas p) schema_name"

definition pool_consolidate :: "pool \<Rightarrow> db_env \<Rightarrow> string \<Rightarrow> (db_exn + unit) \<times> pool \<times> db_env" where
  "pool_consolidate p env path =
     (case tree_pairs (p_schemas p) of
        None \<Rightarrow> (Inl Db_undefined_behaviour, p, env)
      | Some nss \<Rightarrow>
          (case each_value (\<lambda>name s env. schema_consolidate s env (make_path_strings [path, name]))
                  nss (p_schemas p) env of
             (r, tr, env') \<Rightarrow> (r, p\<lparr>p_schemas := tr\<rparr>, env')))"

end
