(* ===== verification/Storage.thy ===== *)
theory Storage
  imports Structures
begin

text \<open>
  The storage itself, \<open>db_storage\<close>: the singleton's state, its validators, the structural operations and
  the operations on records. Each call returns the outcome and the storage, also when it throws.
\<close>

section \<open>State and validators\<close>

record db_storage =
  ds_env :: db_env
  ds_pools :: "(string, pool) b_tree"

definition db_storage_new :: "file_system \<Rightarrow> nat \<Rightarrow> string option \<Rightarrow> 64 word \<times> 64 word \<Rightarrow> db_storage" where
  "db_storage_new fs mem cwd junk =
     \<lparr>ds_env = \<lparr>env_id = 0, env_mode = Uninitialized, env_fs = fs, env_memory = mem, env_cwd = cwd, env_junk = junk\<rparr>,
      ds_pools = \<lparr>bt_root = None, bt_t = 8, bt_keys_comparer = default_key_comparer_string, bt_memory = mem\<rparr>\<rparr>"

type_synonym 'a db_result = "(db_exn + 'a) \<times> db_storage"

definition get_id :: "db_storage \<Rightarrow> 64 word" where
  "get_id db = env_id (ds_env db)"

definition throw_if_initialized_at_setup :: "db_storage \<Rightarrow> db_exn + unit" where
  "throw_if_initialized_at_setup db =
     (if env_mode (ds_env db) = Uninitialized then Inr ()
      else Inl (Setup_failure ''attempt to change previously set up mode''))"

definition throw_if_invalid_setup :: "64 word \<Rightarrow> db_mode \<Rightarrow> db_exn + unit" where
  "throw_if_invalid_setup new_id mode =
     (if mode \<noteq> Uninitialized \<and> 0 < new_id then Inr () else Inl (Setup_failure ''invalid setup data''))"

definition throw_if_uninutialized_at_perform :: "db_storage \<Rightarrow> db_exn + unit" where
  "throw_if_uninutialized_at_perform db =
     (if env_mode (ds_env db) \<noteq> Uninitialized then Inr ()
      else Inl (Db_logic_error ''attempt to perform an operation while mode not initialized''))"

definition throw_if_invalid_path :: "db_storage \<Rightarrow> string \<Rightarrow> db_exn + unit" where
  "throw_if_invalid_path db path =
     (if env_mode (ds_env db) = File_system \<and> \<not> fs_exists (env_fs (ds_env db)) path
      then Inl Invalid_path else Inr ())"

text \<open>The loop over the characters; \<open>space\<close> remembers only whether the last one was a space.\<close>

definition is_alnum :: "char \<Rightarrow> bool" where
  "is_alnum c =
     (is_digit c \<or> (let n = of_char c :: nat in n \<in> {65..90} \<or> n \<in> {97..122}))"

fun check_file_name :: "bool \<Rightarrow> string \<Rightarrow> db_exn + unit" where
  "check_file_name space [] = (if space then Inl Invalid_struct_name else Inr ())"
| "check_file_name space (c # cs) =
     (if \<not> is_alnum c \<and> c \<noteq> CHR ''_'' \<and> c \<noteq> CHR ''-'' \<and> c \<noteq> CHR '' '' then Inl Invalid_struct_name
      else check_file_name (c = CHR '' '') cs)"

definition throw_if_invalid_file_name :: "db_storage \<Rightarrow> string \<Rightarrow> db_exn + unit" where
  "throw_if_invalid_file_name db file_name =
     (if env_mode (ds_env db) = File_system then check_file_name False file_name else Inr ())"

text \<open>\<open>PATH_MAX\<close> is 4096.\<close>

definition throw_if_path_is_too_long :: "db_storage \<Rightarrow> string \<Rightarrow> db_exn + unit" where
  "throw_if_path_is_too_long db path =
     (if env_mode (ds_env db) = File_system then
        (case env_cwd (ds_env db) of
           None \<Rightarrow> Inl Invalid_path
         | Some cwd \<Rightarrow> if 4096 - 10 < length (cwd @ path) then Inl Too_big_path else Inr ())
      else Inr ())"

text \<open>The checks of a call in their order: the first exception, if there is one.\<close>

fun checks :: "(db_exn + unit) list \<Rightarrow> db_exn + unit" where
  "checks [] = Inr ()"
| "checks (Inl e # rs) = Inl e"
| "checks (Inr _ # rs) = checks rs"

definition guarded :: "db_storage \<Rightarrow> (db_exn + unit) list \<Rightarrow> 'a db_result \<Rightarrow> 'a db_result" where
  "guarded db rs r = (case checks rs of Inl e \<Rightarrow> (Inl e, db) | Inr _ \<Rightarrow> r)"

section \<open>Setting up\<close>

definition setup_db :: "db_storage \<Rightarrow> 64 word \<Rightarrow> db_mode \<Rightarrow> unit db_result" where
  "setup_db db new_id mode =
     guarded db [throw_if_initialized_at_setup db, throw_if_invalid_setup new_id mode]
       (let env = (ds_env db)\<lparr>env_id := new_id, env_mode := mode\<rparr> in
        (Inr (), db\<lparr>ds_env := (if mode = File_system
                              then env\<lparr>env_fs := fs_mkdir (env_fs env) ''pools''\<rparr> else env)\<rparr>))"

section \<open>Pools by name\<close>

definition db_add_pool_named :: "db_storage \<Rightarrow> string \<Rightarrow> search_tree_variant \<Rightarrow> nat \<Rightarrow> unit db_result" where
  "db_add_pool_named db pool_name tree_variant t_for_b_trees =
     (case pool_new (ds_env db) tree_variant t_for_b_trees of
        Inl e \<Rightarrow> (Inl e, db)
      | Inr p \<Rightarrow> (case add_named (ds_pools db) pool_name (pool_move p) of (r, tr) \<Rightarrow> (r, db\<lparr>ds_pools := tr\<rparr>)))"

definition db_dispose_named :: "db_storage \<Rightarrow> string \<Rightarrow> unit db_result" where
  "db_dispose_named db pool_name =
     (case dispose_named (ds_pools db) pool_name of (r, tr) \<Rightarrow> (r, db\<lparr>ds_pools := tr\<rparr>))"

definition db_obtain_named :: "db_storage \<Rightarrow> string \<Rightarrow> db_exn + pool" where
  "db_obtain_named db pool_name = obtain_named (ds_pools db) pool_name"

text \<open>Calls on the pool, the schema and the collection that the chain of \<open>obtain\<close> leads to.\<close>

definition at_pool :: "db_storage \<Rightarrow> string \<Rightarrow> (pool \<Rightarrow> db_env \<Rightarrow> (db_exn + 'a) \<times> pool \<times> db_env) \<Rightarrow> 'a db_result" where
  "at_pool db pool_name f =
     (case db_obtain_named db pool_name of
        Inl e \<Rightarrow> (Inl e, db)
      | Inr p \<Rightarrow>
          (case f p (ds_env db) of
             (r, p', env') \<Rightarrow> (r, db\<lparr>ds_env := env', ds_pools := set_named (ds_pools db) pool_name p'\<rparr>)))"

definition at_schema ::
  "db_storage \<Rightarrow> string \<Rightarrow> string \<Rightarrow> (schema \<Rightarrow> db_env \<Rightarrow> (db_exn + 'a) \<times> schema \<times> db_env) \<Rightarrow> 'a db_result" where
  "at_schema db pool_name schema_name f =
     at_pool db pool_name (\<lambda>p env.
       case pool_obtain p schema_name of
         Inl e \<Rightarrow> (Inl e, p, env)
       | Inr s \<Rightarrow>
           (case f s env of
              (r, s', env') \<Rightarrow> (r, p\<lparr>p_schemas := set_named (p_schemas p) schema_name s'\<rparr>, env')))"

definition at_collection ::
  "db_storage \<Rightarrow> string \<Rightarrow> string \<Rightarrow> string \<Rightarrow> (collection \<Rightarrow> db_env \<Rightarrow> 'a outcome) \<Rightarrow> 'a db_result" where
  "at_collection db pool_name schema_name collection_name f =
     at_schema db pool_name schema_name (\<lambda>s env.
       case schema_obtain s collection_name of
         Inl e \<Rightarrow> (Inl e, s, env)
       | Inr c \<Rightarrow>
           (case f c env of
              (r, c', env') \<Rightarrow> (r, s\<lparr>s_collections := set_named (s_collections s) collection_name c'\<rparr>, env')))"

section \<open>Records\<close>

definition record_path :: "db_storage \<Rightarrow> string \<Rightarrow> string \<Rightarrow> string \<Rightarrow> string" where
  "record_path db pool_name schema_name collection_name =
     make_path_strings [''pools'', pool_name, schema_name, collection_name, show_nat (unat (get_id db))]"

definition on_records ::
  "db_storage \<Rightarrow> string \<Rightarrow> string \<Rightarrow> string \<Rightarrow> (collection \<Rightarrow> db_env \<Rightarrow> string \<Rightarrow> 'a outcome) \<Rightarrow> 'a db_result" where
  "on_records db pool_name schema_name collection_name f =
     (let path = record_path db pool_name schema_name collection_name in
      guarded db [throw_if_uninutialized_at_perform db, throw_if_invalid_path db path]
        (at_collection db pool_name schema_name collection_name (\<lambda>c env. f c env path)))"

definition db_add :: "db_storage \<Rightarrow> string \<Rightarrow> string \<Rightarrow> string \<Rightarrow> tkey \<Rightarrow> tvalue \<Rightarrow> unit db_result" where
  "db_add db pn sn cn key value = on_records db pn sn cn (\<lambda>c env path. collection_insert c env key value path)"

definition db_add_rvalue :: "db_storage \<Rightarrow> string \<Rightarrow> string \<Rightarrow> string \<Rightarrow> tkey \<Rightarrow> tvalue \<Rightarrow> unit db_result" where
  "db_add_rvalue db pn sn cn key value =
     on_records db pn sn cn (\<lambda>c env path. collection_insert_rvalue c env key value path)"

definition db_update :: "db_storage \<Rightarrow> string \<Rightarrow> string \<Rightarrow> string \<Rightarrow> tkey \<Rightarrow> tvalue \<Rightarrow> unit db_result" where
  "db_update db pn sn cn key value = on_records db pn sn cn (\<lambda>c env path. collection_update c env key value path)"

definition db_update_rvalue :: "db_storage \<Rightarrow> string \<Rightarrow> string \<Rightarrow> string \<Rightarrow> tkey \<Rightarrow> tvalue \<Rightarrow> unit db_result" where
  "db_update_rvalue db pn sn cn key value =
     on_records db pn sn cn (\<lambda>c env path. collection_update_rvalue c env key value path)"

definition db_dispose :: "db_storage \<Rightarrow> string \<Rightarrow> string \<Rightarrow> string \<Rightarrow> tkey \<Rightarrow> tvalue db_result" where
  "db_dispose db pn sn cn key = on_records db pn sn cn (\<lambda>c env path. collection_dispose c env key path)"

definition db_obtain :: "db_storage \<Rightarrow> string \<Rightarrow> string \<Rightarrow> string \<Rightarrow> tkey \<Rightarrow> tvalue db_result" where
  "db_obtain db pn sn cn key = on_records db pn sn cn (\<lambda>c env path. collection_obtain c env key path)"

definition db_obtain_between ::
  "db_storage \<Rightarrow> string \<Rightarrow> string \<Rightarrow> string \<Rightarrow> tkey \<Rightarrow> tkey \<Rightarrow> bool \<Rightarrow> bool \<Rightarrow> (tkey \<times> tvalue) list db_result" where
  "db_obtain_between db pn sn cn lower_bound upper_bound lower_bound_inclusive upper_bound_inclusive =
     on_records db pn sn cn (\<lambda>c env path.
       collection_obtain_between c env lower_bound upper_bound lower_bound_inclusive upper_bound_inclusive path)"

definition db_obtain_min :: "db_storage \<Rightarrow> string \<Rightarrow> string \<Rightarrow> string \<Rightarrow> (tkey \<times> tvalue) db_result" where
  "db_obtain_min db pn sn cn = on_records db pn sn cn collection_obtain_min"

definition db_obtain_max :: "db_storage \<Rightarrow> string \<Rightarrow> string \<Rightarrow> string \<Rightarrow> (tkey \<times> tvalue) db_result" where
  "db_obtain_max db pn sn cn = on_records db pn sn cn collection_obtain_max"

definition db_obtain_next :: "db_storage \<Rightarrow> string \<Rightarrow> string \<Rightarrow> string \<Rightarrow> tkey \<Rightarrow> (tkey \<times> tvalue) db_result" where
  "db_obtain_next db pn sn cn key = on_records db pn sn cn (\<lambda>c env path. collection_obtain_next c env path key)"

definition db_get_collection_records_cnt :: "db_storage \<Rightarrow> string \<Rightarrow> string \<Rightarrow> string \<Rightarrow> 64 word db_result" where
  "db_get_collection_records_cnt db pn sn cn =
     on_records db pn sn cn (\<lambda>c env path. (Inr (collection_get_records_cnt c), c, env))"

definition db_consolidate :: "db_storage \<Rightarrow> unit db_result" where
  "db_consolidate db =
     (case tree_pairs (ds_pools db) of
        None \<Rightarrow> (Inl Db_undefined_behaviour, db)
      | Some nps \<Rightarrow>
          (case each_value (\<lambda>name p env. pool_consolidate p env (make_path_strings [''pools'', name]))
                  nps (ds_pools db) (ds_env db) of
             (r, tr, env') \<Rightarrow> (r, db\<lparr>ds_env := env', ds_pools := tr\<rparr>)))"

section \<open>Configuration files\<close>

definition int_of_tree_variant :: "search_tree_variant \<Rightarrow> int" where
  "int_of_tree_variant v =
     (case v of St_b \<Rightarrow> 0 | St_b_plus \<Rightarrow> 1 | St_b_star \<Rightarrow> 2 | St_b_star_plus \<Rightarrow> 3 | St_other i \<Rightarrow> i)"

definition tree_variant_of_int :: "int \<Rightarrow> search_tree_variant" where
  "tree_variant_of_int i =
     (if i = 0 then St_b else if i = 1 then St_b_plus else if i = 2 then St_b_star
      else if i = 3 then St_b_star_plus else St_other i)"

definition int_of_allocator_variant :: "allocator_variant \<Rightarrow> int" where
  "int_of_allocator_variant v =
     (case v of Av_global_heap \<Rightarrow> 0 | Av_sorted_list \<Rightarrow> 1 | Av_buddy_system \<Rightarrow> 2 | Av_boundary_tags \<Rightarrow> 3
      | Av_red_black_tree \<Rightarrow> 4 | Av_other i \<Rightarrow> i)"

definition allocator_variant_of_int :: "int \<Rightarrow> allocator_variant" where
  "allocator_variant_of_int i =
     (if i = 0 then Av_global_heap else if i = 1 then Av_sorted_list else if i = 2 then Av_buddy_system
      else if i = 3 then Av_boundary_tags else if i = 4 then Av_red_black_tree else Av_other i)"

definition int_of_fit_mode :: "fit_mode \<Rightarrow> int" where
  "int_of_fit_mode m = (case m of First_fit \<Rightarrow> 0 | The_best_fit \<Rightarrow> 1 | The_worst_fit \<Rightarrow> 2 | Fit_other i \<Rightarrow> i)"

definition fit_mode_of_int :: "int \<Rightarrow> fit_mode" where
  "fit_mode_of_int i =
     (if i = 0 then First_fit else if i = 1 then The_best_fit else if i = 2 then The_worst_fit else Fit_other i)"

definition show_int :: "int \<Rightarrow> string" where
  "show_int i = (if i < 0 then CHR ''-'' # show_nat (nat (- i)) else show_nat (nat i))"

text \<open>\<open>stream << i << std::endl\<close> for each number.\<close>

definition cfg_text :: "int list \<Rightarrow> string" where
  "cfg_text is = concat (map (\<lambda>i. show_int i @ [CHR 0x0A]) is)"

text \<open>Opening the configuration file, and writing it; the result tells whether both succeeded.\<close>

definition write_cfg :: "file_system \<Rightarrow> string \<Rightarrow> int list \<Rightarrow> bool \<times> file_system" where
  "write_cfg fs cfg_path is =
     (case fs_open_trunc fs cfg_path of
        None \<Rightarrow> (False, fs)
      | Some fs1 \<Rightarrow> (case fs_append fs1 cfg_path (cfg_text is) of None \<Rightarrow> (False, fs1) | Some fs2 \<Rightarrow> (True, fs2)))"

definition with_fs :: "db_storage \<Rightarrow> file_system \<Rightarrow> db_storage" where
  "with_fs db fs = db\<lparr>ds_env := (ds_env db)\<lparr>env_fs := fs\<rparr>\<rparr>"

section \<open>Pools, schemas and collections\<close>

text \<open>
  The end of \<open>add_pool\<close> and \<open>add_schema\<close>: directory and configuration file. The handler disposes of a
  pool with the name of the whole path, and its exception replaces the one to be thrown.
\<close>

definition create_cfg :: "db_storage \<Rightarrow> string \<Rightarrow> int list \<Rightarrow> unit db_result" where
  "create_cfg db path is =
     (let cfg_path = make_path_strings [path, ''cfg'']; fs = env_fs (ds_env db) in
      if env_mode (ds_env db) = File_system \<and> (\<not> fs_exists fs path \<or> \<not> fs_exists fs cfg_path) then
        (case write_cfg (fs_mkdir fs path) cfg_path is of
           (True, fs1) \<Rightarrow> (Inr (), with_fs db fs1)
         | (False, fs1) \<Rightarrow>
             (case db_dispose_named (with_fs db (fs_rmdir (fs_remove fs1 cfg_path) path)) path of
                (Inl e, db') \<Rightarrow> (Inl e, db')
              | (Inr _, db') \<Rightarrow> (Inl Insertion_of_struct_failure, db')))
      else (Inr (), db))"

definition add_pool :: "db_storage \<Rightarrow> string \<Rightarrow> search_tree_variant \<Rightarrow> nat \<Rightarrow> unit db_result" where
  "add_pool db pool_name tree_variant t_for_b_trees =
     (let path = make_path_strings [''pools'', pool_name] in
      guarded db
        [throw_if_uninutialized_at_perform db, throw_if_invalid_file_name db pool_name,
         throw_if_path_is_too_long db path]
        (case db_add_pool_named db pool_name tree_variant t_for_b_trees of
           (Inl e, db1) \<Rightarrow> (Inl e, db1)
         | (Inr _, db1) \<Rightarrow> create_cfg db1 path [int_of_tree_variant tree_variant, int t_for_b_trees]))"

definition dispose_pool :: "db_storage \<Rightarrow> string \<Rightarrow> unit db_result" where
  "dispose_pool db pool_name =
     guarded db [throw_if_uninutialized_at_perform db]
       (case db_dispose_named db pool_name of
          (Inl e, db1) \<Rightarrow> (Inl e, db1)
        | (Inr _, db1) \<Rightarrow>
            (Inr (), with_fs db1 (fs_remove_all (env_fs (ds_env db1)) (make_path_strings [''pools'', pool_name]))))"

definition add_schema :: "db_storage \<Rightarrow> string \<Rightarrow> string \<Rightarrow> search_tree_variant \<Rightarrow> nat \<Rightarrow> unit db_result" where
  "add_schema db pool_name schema_name tree_variant t_for_b_trees =
     (let old_path = make_path_strings [''pools'', pool_name];
          path = make_path_strings [''pools'', pool_name, schema_name] in
      guarded db
        [throw_if_uninutialized_at_perform db, throw_if_invalid_path db old_path,
         throw_if_invalid_file_name db schema_name, throw_if_path_is_too_long db path]
        (case at_pool db pool_name (\<lambda>p env.
                case pool_add p env schema_name tree_variant t_for_b_trees of (r, p') \<Rightarrow> (r, p', env)) of
           (Inl e, db1) \<Rightarrow> (Inl e, db1)
         | (Inr _, db1) \<Rightarrow> create_cfg db1 path [int_of_tree_variant tree_variant, int t_for_b_trees]))"

definition dispose_schema :: "db_storage \<Rightarrow> string \<Rightarrow> string \<Rightarrow> unit db_result" where
  "dispose_schema db pool_name schema_name =
     guarded db [throw_if_uninutialized_at_perform db]
       (case at_pool db pool_name (\<lambda>p env. case pool_dispose p schema_name of (r, p') \<Rightarrow> (r, p', env)) of
          (Inl e, db1) \<Rightarrow> (Inl e, db1)
        | (Inr _, db1) \<Rightarrow>
            (Inr (), with_fs db1 (fs_remove_all (env_fs (ds_env db1))
                                    (make_path_strings [''pools'', pool_name, schema_name]))))"

text \<open>
  The files of a new collection. Here the handler disposes of the collection itself. The storage
  file is truncated when only the configuration is missing.
\<close>

definition create_collection_files ::
  "db_storage \<Rightarrow> string \<Rightarrow> int list \<Rightarrow> (db_storage \<Rightarrow> unit db_result) \<Rightarrow> unit db_result" where
  "create_collection_files db path is dispose_it =
     (let cfg_path = make_path_strings [path, ''cfg''];
          strg_path = make_path_strings [path, show_nat (unat (get_id db))];
          fs = env_fs (ds_env db) in
      if env_mode (ds_env db) = File_system \<and>
         (\<not> fs_exists fs path \<or> \<not> fs_exists fs cfg_path \<or> \<not> fs_exists fs strg_path) then
        let fs1 = fs_mkdir fs path;
            fs2 = (case fs_open_trunc fs1 strg_path of None \<Rightarrow> fs1 | Some fs2 \<Rightarrow> fs2) in
        (case (if fs_exists fs2 strg_path then write_cfg fs2 cfg_path is else (False, fs2)) of
           (True, fs3) \<Rightarrow> (Inr (), with_fs db fs3)
         | (False, fs3) \<Rightarrow>
             (case dispose_it (with_fs db (fs_rmdir (fs_remove (fs_remove fs3 strg_path) cfg_path) path)) of
                (Inl e, db') \<Rightarrow> (Inl e, db')
              | (Inr _, db') \<Rightarrow> (Inl Insertion_of_struct_failure, db')))
      else (Inr (), db))"

definition add_collection ::
  "db_storage \<Rightarrow> string \<Rightarrow> string \<Rightarrow> string \<Rightarrow> search_tree_variant \<Rightarrow> allocator_variant \<Rightarrow> fit_mode \<Rightarrow> nat
    \<Rightarrow> unit db_result" where
  "add_collection db pool_name schema_name collection_name tree_variant allocator_variant fit_mode t_for_b_trees =
     (let old_path = make_path_strings [''pools'', pool_name, schema_name];
          path = make_path_strings [''pools'', pool_name, schema_name, collection_name] in
      guarded db
        [throw_if_uninutialized_at_perform db, throw_if_invalid_path db old_path,
         throw_if_invalid_file_name db collection_name, throw_if_path_is_too_long db path]
        (case at_schema db pool_name schema_name (\<lambda>s env.
                case schema_add s env collection_name tree_variant allocator_variant fit_mode t_for_b_trees of
                  (r, s') \<Rightarrow> (r, s', env)) of
           (Inl e, db1) \<Rightarrow> (Inl e, db1)
         | (Inr _, db1) \<Rightarrow>
             create_collection_files db1 path
               [int_of_tree_variant tree_variant, int_of_allocator_variant allocator_variant,
                int_of_fit_mode fit_mode, int t_for_b_trees]
               (\<lambda>db2. at_schema db2 pool_name schema_name (\<lambda>s env.
                  case schema_dispose s collection_name of (r, s') \<Rightarrow> (r, s', env)))))"

definition dispose_collection :: "db_storage \<Rightarrow> string \<Rightarrow> string \<Rightarrow> string \<Rightarrow> unit db_result" where
  "dispose_collection db pool_name schema_name collection_name =
     guarded db [throw_if_uninutialized_at_perform db]
       (case at_schema db pool_name schema_name (\<lambda>s env.
               case schema_dispose s collection_name of (r, s') \<Rightarrow> (r, s', env)) of
          (Inl e, db1) \<Rightarrow> (Inl e, db1)
        | (Inr _, db1) \<Rightarrow>
            (Inr (), with_fs db1 (fs_remove_all (env_fs (ds_env db1))
                                    (make_path_strings [''pools'', pool_name, schema_name, collection_name]))))"

end
