(* ===== verification/Ipc_Data.thy ===== *)
theory Ipc_Data
  imports Storage
begin

text \<open>
  \<open>ipc_data.h\<close>: the messages between clients, manager and storage servers, and the System V queue that
  carries them. The enumerations of the variants are those of the storage, value by value, so the
  casts between them are left out.
\<close>

section \<open>Messages\<close>

datatype command =
    ADD_STORAGE_SERVER | TERMINATE_STORAGE_SERVER
  | SET_IN_MEMORY_CACHE_MODE | SET_FILE_SYSTEM_MODE | END_SETUP
  | PING | SHUTDOWN | TERMINATE | TERMINATE_ASSISTANT_THREAD
  | GET_RECORDS_CNT
  | ADD_POOL | ADD_SCHEMA | ADD_COLLECTION | DISPOSE_POOL | DISPOSE_SCHEMA | DISPOSE_COLLECTION
  | ADD | UPDATE | DISPOSE | OBTAIN | OBTAIN_BETWEEN | OBTAIN_MIN | OBTAIN_MAX | OBTAIN_NEXT

datatype command_status =
    CLIENT | SERVER_IS_BUSY
  | OK | OBTAIN_BETWEEN_END
  | BAD_ALLOC
  | INVALID_STRUCT_NAME | TOO_BIG_STRUCT_NAME | INVALID_PATH
  | ATTEMPT_TO_CHANGE_SETUP
  | STRUCT_DOES_NOT_EXIST | POOL_DOES_NOT_EXIST | SCHEMA_DOES_NOT_EXIST | COLLECTION_DOES_NOT_EXIST
  | ATTEMPT_TO_ADD_STRUCT_DUBLICATE | ATTEMPT_TO_ADD_POOL_DUBLICATE | ATTEMPT_TO_ADD_SCHEMA_DUBLICATE
  | ATTEMPT_TO_ADD_COLLECTION_DUBLICATE
  | ATTEMPT_TO_INSERT_EXISTENT_KEY | ATTEMPT_TO_UPDATE_NONEXISTENT_KEY
  | ATTEMPT_TO_DISPOSE_NONEXISTENT_KEY | ATTTEMT_TO_OBTAIN_NONEXISTENT_KEY
  | FAILED_TO_SETUP_STORAGE_SERVER | FAILED_TO_ADD_STRUCT | FAILED_TO_DISPOSE_STRUCT
  | FAILED_TO_PERFORM_DATA_COMMAND | FAILED_TO_INSERT_KEY | FAILED_TO_UPDATE_KEY
  | FAILED_TO_DISPOSE_KEY | FAILED_TO_OBTAIN_KEY

text \<open>The character arrays of the message are given by the strings that they hold.\<close>

record strg_msg =
  mtype :: int
  pid :: int
  req_id :: "64 word"
  cmd :: command
  status :: command_status
  extra_value :: "64 word"
  pool_name :: string
  schema_name :: string
  collection_name :: string
  tree_variant :: search_tree_variant
  alloc_variant :: allocator_variant
  alloc_fit_mode :: fit_mode
  t_for_b_trees :: nat
  login :: string
  right_boundary_login :: string
  hashed_password :: "64 word"
  value_name :: string

definition MSG_KEY_SIZE :: nat where "MSG_KEY_SIZE = 64"
definition MSG_NAME_SIZE :: nat where "MSG_NAME_SIZE = 64"
definition MSG_STRUCTS_NAME_SIZE :: nat where "MSG_STRUCTS_NAME_SIZE = 255"

definition MANAGER_SERVER_MAX_COMMON_PRIOR :: int where "MANAGER_SERVER_MAX_COMMON_PRIOR = 30"
definition MANAGER_SERVER_MAX_COMMAND_PRIOR :: int where "MANAGER_SERVER_MAX_COMMAND_PRIOR = 50"
definition MANAGER_SERVER_STORAGE_ANSWER_PRIOR :: int where "MANAGER_SERVER_STORAGE_ANSWER_PRIOR = 8"
definition MANAGER_SERVER_CLIENT_PRIOR :: int where "MANAGER_SERVER_CLIENT_PRIOR = 10"
definition MANAGER_SERVER_CLIENT_PING_PRIOR :: int where "MANAGER_SERVER_CLIENT_PING_PRIOR = 11"
definition MANAGER_SERVER_STORAGE_ADDITION_PRIOR :: int where "MANAGER_SERVER_STORAGE_ADDITION_PRIOR = 31"
definition MANAGER_SERVER_STRUCT_ADDITION_PRIOR :: int where "MANAGER_SERVER_STRUCT_ADDITION_PRIOR = 32"
definition MANAGER_SERVER_STRUCT_DISPOSAL_PRIOR :: int where "MANAGER_SERVER_STRUCT_DISPOSAL_PRIOR = 33"
definition MANAGER_SERVER_STORAGE_GETTING_RECORDS_CNT_PRIOR :: int where
  "MANAGER_SERVER_STORAGE_GETTING_RECORDS_CNT_PRIOR = 40"

lemmas priors =
  MANAGER_SERVER_MAX_COMMON_PRIOR_def MANAGER_SERVER_MAX_COMMAND_PRIOR_def MANAGER_SERVER_STORAGE_ANSWER_PRIOR_def
  MANAGER_SERVER_CLIENT_PRIOR_def MANAGER_SERVER_CLIENT_PING_PRIOR_def MANAGER_SERVER_STORAGE_ADDITION_PRIOR_def
  MANAGER_SERVER_STRUCT_ADDITION_PRIOR_def MANAGER_SERVER_STRUCT_DISPOSAL_PRIOR_def
  MANAGER_SERVER_STORAGE_GETTING_RECORDS_CNT_PRIOR_def

text \<open>\<open>strcpy\<close> of a C string into an array of \<open>n\<close> characters; \<open>None\<close> is a write behind the array.\<close>

definition c_str :: "string \<Rightarrow> string" where
  "c_str s = takeWhile (\<lambda>c. c \<noteq> CHR 0x00) s"

definition strcpy :: "nat \<Rightarrow> string \<Rightarrow> string option" where
  "strcpy n s = (if length (c_str s) < n then Some (c_str s) else None)"

lemma c_str_plain: "CHR 0x00 \<notin> set s \<Longrightarrow> c_str s = s"
  unfolding c_str_def takeWhile_eq_all_conv by auto

lemma strcpy_plain: "CHR 0x00 \<notin> set s \<Longrightarrow> length s < n \<Longrightarrow> strcpy n s = Some s"
  by (simp add: strcpy_def c_str_plain)

section \<open>The queue\<close>

text \<open>
  \<open>msgsnd\<close> appends. \<open>msgrcv\<close> takes the first message of a positive type, the first one of the lowest type up
  to \<open>- t\<close> for a negative type, and the first message for type 0. A full queue is not modelled.
\<close>

type_synonym msg_queue = "strg_msg list"

definition msgsnd :: "msg_queue \<Rightarrow> strg_msg \<Rightarrow> msg_queue" where
  "msgsnd q m = q @ [m]"

fun take_first :: "(strg_msg \<Rightarrow> bool) \<Rightarrow> msg_queue \<Rightarrow> (strg_msg \<times> msg_queue) option" where
  "take_first P [] = None"
| "take_first P (m # q) =
     (if P m then Some (m, q) else map_option (\<lambda>(x, q'). (x, m # q')) (take_first P q))"

definition msgrcv :: "msg_queue \<Rightarrow> int \<Rightarrow> (strg_msg \<times> msg_queue) option" where
  "msgrcv q t =
     (if 0 < t then take_first (\<lambda>m. mtype m = t) q
      else if t = 0 then take_first (\<lambda>_. True) q
      else case filter (\<lambda>i. i \<le> - t) (map mtype q) of
        [] \<Rightarrow> None
      | i # is \<Rightarrow> take_first (\<lambda>m. mtype m = fold min is i) q)"

lemma take_first_Some:
  "take_first P q = Some (m, q') \<Longrightarrow> \<exists>us vs. q = us @ m # vs \<and> q' = us @ vs \<and> P m \<and> (\<forall>u \<in> set us. \<not> P u)"
proof (induction q arbitrary: q')
  case (Cons x q)
  show ?case
  proof (cases "P x")
    case True
    then show ?thesis using Cons.prems by (intro exI [of _ "[]"] exI [of _ q]) simp
  next
    case False
    then obtain q1 where q1: "take_first P q = Some (m, q1)" "q' = x # q1" using Cons.prems by auto
    from Cons.IH [OF q1(1)] obtain us vs where "q = us @ m # vs" "q1 = us @ vs" "P m" "\<forall>u \<in> set us. \<not> P u" by blast
    then show ?thesis using False q1(2) by (intro exI [of _ "x # us"] exI [of _ vs]) simp
  qed
qed simp

lemma take_first_None: "take_first P q = None \<longleftrightarrow> (\<forall>m \<in> set q. \<not> P m)"
  by (induction q) (auto split: option.splits)

lemma take_first_append:
  "(\<forall>u \<in> set us. \<not> P u) \<Longrightarrow> P m \<Longrightarrow> take_first P (us @ m # vs) = Some (m, us @ vs)"
  by (induction us) auto

end
