(* ===== verification/Client.thy ===== *)
theory Client
  imports Ipc_Data
begin

text \<open>
  \<open>client.cpp\<close>: the console that turns lines into messages and prints the answers. What the other
  processes do reaches it as two lists, the outcomes of \<open>msgsnd\<close> and \<open>msgget\<close> and the messages that
  \<open>msgrcvt\<close> gets, one entry for each call; \<open>None\<close> is a timeout.
\<close>

section \<open>Reading a line\<close>

datatype client_exn = Cl_runtime_error string | Cl_undefined

text \<open>\<open>std::istringstream\<close>: the characters that are left and the end-of-file bit.\<close>

type_synonym istream = "string \<times> bool"

type_synonym 'a reader = "istream \<Rightarrow> client_exn + 'a \<times> istream"

definition and_then :: "client_exn + 'a \<Rightarrow> ('a \<Rightarrow> client_exn + 'b) \<Rightarrow> client_exn + 'b" where
  "and_then r f = (case r of Inl e \<Rightarrow> Inl e | Inr x \<Rightarrow> f x)"

lemma and_then_simps [simp]: "and_then (Inl e) f = Inl e" "and_then (Inr x) f = f x"
  by (simp_all add: and_then_def)

text \<open>\<open>args >> word\<close>; \<open>None\<close> is a failed stream.\<close>

definition read_word :: "istream \<Rightarrow> string option \<times> istream" where
  "read_word args =
     (case args of (s, eof) \<Rightarrow>
        if eof then (None, args)
        else
          let s1 = dropWhile is_blank s in
          if s1 = [] then (None, ([], True))
          else
            let rest = dropWhile (\<lambda>c. \<not> is_blank c) s1 in
            (Some (takeWhile (\<lambda>c. \<not> is_blank c) s1), (rest, rest = [])))"

text \<open>The digits of a number after an optional sign, and whether there is a minus.\<close>

definition read_digits :: "istream \<Rightarrow> (bool \<times> nat) option \<times> istream" where
  "read_digits args =
     (case args of (s, eof) \<Rightarrow>
        if eof then (None, args)
        else
          let s1 = dropWhile is_blank s;
              s2 = (if s1 \<noteq> [] \<and> hd s1 \<in> {CHR ''-'', CHR ''+''} then tl s1 else s1);
              ds = takeWhile is_digit s2; rest = dropWhile is_digit s2 in
          ((if ds = [] then None else Some (s1 \<noteq> [] \<and> hd s1 = CHR ''-'', nat_of_digits ds)), (rest, rest = [])))"

text \<open>\<open>int64_t\<close>: out of range is a failure. \<open>size_t\<close>: a minus wraps around.\<close>

definition read_int64 :: "istream \<Rightarrow> 64 word option \<times> istream" where
  "read_int64 args =
     (case read_digits args of
        (Some (neg, n), a) \<Rightarrow>
          ((if neg \<and> n \<le> 2 ^ 63 then Some (- of_nat n) else if \<not> neg \<and> n < 2 ^ 63 then Some (of_nat n) else None), a)
      | (None, a) \<Rightarrow> (None, a))"

definition read_size_t :: "istream \<Rightarrow> 64 word option \<times> istream" where
  "read_size_t args =
     (case read_digits args of
        (Some (neg, n), a) \<Rightarrow> ((if n < 2 ^ 64 then Some (if neg then - of_nat n else of_nat n) else None), a)
      | (None, a) \<Rightarrow> (None, a))"

definition read_allocator :: "allocator_variant reader" where
  "read_allocator args =
     (case read_word args of
        (None, a) \<Rightarrow> Inl (Cl_runtime_error ''Expected allocator type'')
      | (Some w, a) \<Rightarrow>
          if w = ''global_heap'' then Inr (Av_global_heap, a)
          else if w = ''boundary_tags'' then Inr (Av_boundary_tags, a)
          else if w = ''buddies_system'' then Inr (Av_buddy_system, a)
          else if w = ''sorted_list'' then Inr (Av_sorted_list, a)
          else if w = ''red_black_tree'' then Inr (Av_red_black_tree, a)
          else Inl (Cl_runtime_error ''Invalid allocator type''))"

definition read_allocator_fit_mode :: "fit_mode reader" where
  "read_allocator_fit_mode args =
     (case read_word args of
        (None, a) \<Rightarrow> Inl (Cl_runtime_error ''Expected allocator fit mode'')
      | (Some w, a) \<Rightarrow>
          if w = ''first'' then Inr (First_fit, a)
          else if w = ''best'' then Inr (The_best_fit, a)
          else if w = ''worst'' then Inr (The_worst_fit, a)
          else Inl (Cl_runtime_error ''Invalid allocator fit mode''))"

definition read_key :: "string reader" where
  "read_key args =
     (case read_word args of
        (None, a) \<Rightarrow> Inl (Cl_runtime_error ''Expected key'')
      | (Some w, a) \<Rightarrow> if w = [] then Inl (Cl_runtime_error ''Invalid key'') else Inr (w, a))"

definition read_value :: "(64 word \<times> string) reader" where
  "read_value args =
     (case read_int64 args of
        (None, a) \<Rightarrow> Inl (Cl_runtime_error ''Expected value'')
      | (Some n, a) \<Rightarrow>
          (case read_word a of
             (None, a') \<Rightarrow> Inl (Cl_runtime_error ''Expected value'')
           | (Some w, a') \<Rightarrow> Inr ((n, w), a')))"

definition read_struct_name :: "string reader" where
  "read_struct_name args =
     (case read_word args of
        (None, a) \<Rightarrow> Inl (Cl_runtime_error ''Expected struct name'')
      | (Some w, a) \<Rightarrow>
          if MSG_STRUCTS_NAME_SIZE < length w then Inl (Cl_runtime_error ''Invalid struct name'') else Inr (w, a))"

definition read_parameter_t_for_b_trees :: "64 word reader" where
  "read_parameter_t_for_b_trees args =
     (case read_size_t args of
        (None, a) \<Rightarrow> Inl (Cl_runtime_error ''Expected BTree parameter'')
      | (Some t, a) \<Rightarrow> if t < 2 then Inl (Cl_runtime_error ''Invalid BTree parameter'') else Inr (t, a))"

definition validate_eof :: "istream \<Rightarrow> client_exn + unit" where
  "validate_eof args = (if snd args then Inr () else Inl (Cl_runtime_error ''Excess arguments''))"

section \<open>Commands\<close>

text \<open>\<open>strcpy\<close> into the arrays of the message; the next field follows when the copy fits.\<close>

definition copied :: "nat \<Rightarrow> string \<Rightarrow> client_exn + string" where
  "copied n s = (case strcpy n s of None \<Rightarrow> Inl Cl_undefined | Some t \<Rightarrow> Inr t)"

definition put_pool :: "string \<Rightarrow> strg_msg \<Rightarrow> client_exn + strg_msg" where
  "put_pool s m = and_then (copied MSG_STRUCTS_NAME_SIZE s) (\<lambda>t. Inr (m\<lparr>pool_name := t\<rparr>))"

definition put_schema :: "string \<Rightarrow> strg_msg \<Rightarrow> client_exn + strg_msg" where
  "put_schema s m = and_then (copied MSG_STRUCTS_NAME_SIZE s) (\<lambda>t. Inr (m\<lparr>schema_name := t\<rparr>))"

definition put_collection :: "string \<Rightarrow> strg_msg \<Rightarrow> client_exn + strg_msg" where
  "put_collection s m = and_then (copied MSG_STRUCTS_NAME_SIZE s) (\<lambda>t. Inr (m\<lparr>collection_name := t\<rparr>))"

definition put_path :: "string \<Rightarrow> string \<Rightarrow> string \<Rightarrow> strg_msg \<Rightarrow> client_exn + strg_msg" where
  "put_path p s c m = and_then (put_pool p m) (\<lambda>m1. and_then (put_schema s m1) (put_collection c))"

definition put_login :: "string \<Rightarrow> strg_msg \<Rightarrow> client_exn + strg_msg" where
  "put_login s m = and_then (copied MSG_KEY_SIZE s) (\<lambda>t. Inr (m\<lparr>login := t\<rparr>))"

definition put_right_login :: "string \<Rightarrow> strg_msg \<Rightarrow> client_exn + strg_msg" where
  "put_right_login s m = and_then (copied MSG_KEY_SIZE s) (\<lambda>t. Inr (m\<lparr>right_boundary_login := t\<rparr>))"

definition put_name :: "string \<Rightarrow> strg_msg \<Rightarrow> client_exn + strg_msg" where
  "put_name s m = and_then (copied MSG_NAME_SIZE s) (\<lambda>t. Inr (m\<lparr>value_name := t\<rparr>))"

definition client_msg :: "int \<Rightarrow> command \<Rightarrow> strg_msg \<Rightarrow> strg_msg" where
  "client_msg getpid c m = m\<lparr>mtype := MANAGER_SERVER_CLIENT_PRIOR, pid := getpid, cmd := c, status := CLIENT\<rparr>"

text \<open>The three names in front of the arguments of a command on records.\<close>

definition read_path :: "(string \<times> string \<times> string) reader" where
  "read_path args =
     and_then (read_struct_name args) (\<lambda>(p, a1).
     and_then (read_struct_name a1) (\<lambda>(s, a2).
     and_then (read_struct_name a2) (\<lambda>(c, a3). Inr ((p, s, c), a3))))"

definition put_command :: "command \<Rightarrow> int \<Rightarrow> istream \<Rightarrow> strg_msg \<Rightarrow> client_exn + strg_msg" where
  "put_command c getpid args m =
     and_then (read_path args) (\<lambda>((p, s, cn), a1).
     and_then (read_key a1) (\<lambda>(key, a2).
     and_then (read_value a2) (\<lambda>((password, name), a3).
     and_then (validate_eof a3) (\<lambda>_.
     and_then (put_path p s cn (client_msg getpid c m)) (\<lambda>m1.
     and_then (put_login key m1) (\<lambda>m2.
       put_name name (m2\<lparr>hashed_password := password\<rparr>)))))))"

definition handle_add_command :: "int \<Rightarrow> istream \<Rightarrow> strg_msg \<Rightarrow> client_exn + strg_msg" where
  "handle_add_command = put_command ADD"

definition handle_update_command :: "int \<Rightarrow> istream \<Rightarrow> strg_msg \<Rightarrow> client_exn + strg_msg" where
  "handle_update_command = put_command UPDATE"

definition handle_dispose_command :: "int \<Rightarrow> istream \<Rightarrow> strg_msg \<Rightarrow> client_exn + strg_msg" where
  "handle_dispose_command getpid args m =
     and_then (read_path args) (\<lambda>((p, s, c), a1).
     and_then (read_key a1) (\<lambda>(key, a2).
     and_then (validate_eof a2) (\<lambda>_.
     and_then (put_path p s c (client_msg getpid DISPOSE m)) (put_login key))))"

definition handle_obtain_command :: "int \<Rightarrow> istream \<Rightarrow> strg_msg \<Rightarrow> client_exn + strg_msg" where
  "handle_obtain_command getpid args m =
     and_then (read_path args) (\<lambda>((p, s, c), a1).
     and_then (read_key a1) (\<lambda>(key1, a2).
     and_then (if snd a2 then Inr ([], a2) else read_key a2) (\<lambda>(key2, a3).
     and_then (validate_eof a3) (\<lambda>_.
     and_then (put_path p s c (client_msg getpid (if c_str key2 \<noteq> [] then OBTAIN_BETWEEN else OBTAIN) m)) (\<lambda>m1.
     and_then (put_login key1 m1) (put_right_login key2))))))"

definition handle_add_pool_command :: "int \<Rightarrow> istream \<Rightarrow> strg_msg \<Rightarrow> client_exn + strg_msg" where
  "handle_add_pool_command getpid args m =
     and_then (read_struct_name args) (\<lambda>(p, a1).
     and_then (read_parameter_t_for_b_trees a1) (\<lambda>(t, a2).
     and_then (validate_eof a2) (\<lambda>_.
     and_then (put_pool p (client_msg getpid ADD_POOL m)) (\<lambda>m1.
       Inr (m1\<lparr>tree_variant := St_b, t_for_b_trees := unat t\<rparr>)))))"

definition handle_add_schema_command :: "int \<Rightarrow> istream \<Rightarrow> strg_msg \<Rightarrow> client_exn + strg_msg" where
  "handle_add_schema_command getpid args m =
     and_then (read_struct_name args) (\<lambda>(p, a1).
     and_then (read_struct_name a1) (\<lambda>(s, a2).
     and_then (read_parameter_t_for_b_trees a2) (\<lambda>(t, a3).
     and_then (validate_eof a3) (\<lambda>_.
     and_then (put_pool p (client_msg getpid ADD_SCHEMA m)) (\<lambda>m1.
     and_then (put_schema s m1) (\<lambda>m2.
       Inr (m2\<lparr>tree_variant := St_b, t_for_b_trees := unat t\<rparr>)))))))"

definition handle_add_collection_command :: "int \<Rightarrow> istream \<Rightarrow> strg_msg \<Rightarrow> client_exn + strg_msg" where
  "handle_add_collection_command getpid args m =
     and_then (read_path args) (\<lambda>((p, s, c), a1).
     and_then (read_parameter_t_for_b_trees a1) (\<lambda>(t, a2).
     and_then (read_allocator a2) (\<lambda>(av, a3).
     and_then (read_allocator_fit_mode a3) (\<lambda>(fm, a4).
     and_then (validate_eof a4) (\<lambda>_.
     and_then (put_path p s c (client_msg getpid ADD_COLLECTION m)) (\<lambda>m1.
       Inr (m1\<lparr>tree_variant := St_b, t_for_b_trees := unat t, alloc_variant := av, alloc_fit_mode := fm\<rparr>)))))))"

definition handle_dispose_pool_command :: "int \<Rightarrow> istream \<Rightarrow> strg_msg \<Rightarrow> client_exn + strg_msg" where
  "handle_dispose_pool_command getpid args m =
     and_then (read_struct_name args) (\<lambda>(p, a1).
     and_then (validate_eof a1) (\<lambda>_. put_pool p (client_msg getpid DISPOSE_POOL m)))"

definition handle_dispose_schema_command :: "int \<Rightarrow> istream \<Rightarrow> strg_msg \<Rightarrow> client_exn + strg_msg" where
  "handle_dispose_schema_command getpid args m =
     and_then (read_struct_name args) (\<lambda>(p, a1).
     and_then (read_struct_name a1) (\<lambda>(s, a2).
     and_then (validate_eof a2) (\<lambda>_.
     and_then (put_pool p (client_msg getpid DISPOSE_SCHEMA m)) (put_schema s))))"

definition handle_dispose_collection_command :: "int \<Rightarrow> istream \<Rightarrow> strg_msg \<Rightarrow> client_exn + strg_msg" where
  "handle_dispose_collection_command getpid args m =
     and_then (read_path args) (\<lambda>((p, s, c), a1).
     and_then (validate_eof a1) (\<lambda>_. put_path p s c (client_msg getpid DISPOSE_COLLECTION m)))"

end
