(* ===== verification/Client_Session.thy ===== *)
theory Client_Session
  imports Client
begin

text \<open>
  \<open>client.cpp\<close>: waiting for the answer to a command, printing it, and the session that reads the lines of the
  terminal or of a command file. The other processes are lists: \<open>cw_sends\<close> and \<open>cw_gets\<close> say which calls of
  \<open>msgsnd\<close> and \<open>msgget\<close> succeed (none when the list has ended), and \<open>cw_inbox\<close> holds what each call of
  \<open>msgrcvt\<close> brings, \<open>None\<close> for a timeout.
\<close>

record client_world =
  cw_sends :: "bool list"
  cw_gets :: "bool list"
  cw_inbox :: "strg_msg option list"
  cw_sent :: "strg_msg list"
  cw_out :: string
  cw_counter :: "64 word"
  cw_files :: "string \<Rightarrow> string option"
  cw_junk :: strg_msg

type_synonym client_result = "(client_exn + unit) \<times> strg_msg \<times> client_world"

section \<open>Output\<close>

definition out :: "string \<Rightarrow> client_world \<Rightarrow> client_world" where
  "out s w = w\<lparr>cw_out := cw_out w @ s\<rparr>"

definition out_line :: "string \<Rightarrow> client_world \<Rightarrow> client_world" where
  "out_line s w = out (s @ [CHR 0x0A]) w"

definition apostrophe :: string where "apostrophe = [CHR 0x27]"

definition show_int64 :: "64 word \<Rightarrow> string" where
  "show_int64 x = (if sint x < 0 then CHR ''-'' # show_nat (nat (- sint x)) else show_nat (nat (sint x)))"

definition record_text :: "strg_msg \<Rightarrow> string" where
  "record_text m = '' record { '' @ login m @ '' : '' @ show_int64 (hashed_password m) @ '', '' @ value_name m @ '' }.''"

section \<open>Sending and receiving\<close>

text \<open>The end of each command: \<open>connected\<close> is false for the descriptor -1.\<close>

definition send_command :: "bool \<Rightarrow> (client_exn + strg_msg) \<Rightarrow> strg_msg \<Rightarrow> client_world \<Rightarrow> client_result" where
  "send_command connected r msg w =
     (case r of
        Inl e \<Rightarrow> (Inl e, msg, w)
      | Inr m \<Rightarrow>
          if \<not> connected then (Inl (Cl_runtime_error ''Failed to send command to the server''), m, w)
          else (case cw_sends w of
            True # ss \<Rightarrow> (Inr (), m, w\<lparr>cw_sends := ss, cw_sent := cw_sent w @ [m]\<rparr>)
          | ss \<Rightarrow> (Inl (Cl_runtime_error ''Failed to send command to the server''), m, w\<lparr>cw_sends := tl ss\<rparr>)))"

text \<open>What \<open>msgrcv\<close> can still bring: nothing on the descriptor -1.\<close>

definition inbox_of :: "bool \<Rightarrow> client_world \<Rightarrow> strg_msg option list" where
  "inbox_of connected w = (if connected then cw_inbox w else [])"

definition set_inbox :: "bool \<Rightarrow> strg_msg option list \<Rightarrow> client_world \<Rightarrow> client_world" where
  "set_inbox connected rs w = (if connected then w\<lparr>cw_inbox := rs\<rparr> else w)"

definition no_answer :: client_exn where
  "no_answer = Cl_runtime_error ''Cannot receive server answer''"

text \<open>
  Waiting for the message with the number \<open>counter\<close>; a message \<open>PING\<close> counts as a failure. The result has
  the messages that are left.
\<close>

fun await_answer ::
  "64 word \<Rightarrow> strg_msg option list \<Rightarrow> strg_msg \<Rightarrow> (client_exn + unit) \<times> strg_msg \<times> strg_msg option list" where
  "await_answer counter rs msg =
     (if counter = req_id msg then (Inr (), msg, rs)
      else case rs of
        [] \<Rightarrow> (Inl no_answer, msg, [])
      | None # rs1 \<Rightarrow> (Inl no_answer, msg, rs1)
      | Some m # rs1 \<Rightarrow> if cmd m = PING then (Inl no_answer, m, rs1) else await_answer counter rs1 m)"

declare await_answer.simps [simp del]

section \<open>The answer\<close>

definition status_error :: "strg_msg \<Rightarrow> string option" where
  "status_error m =
     (case status m of
        BAD_ALLOC \<Rightarrow> Some ''Memory lack occured''
      | INVALID_STRUCT_NAME \<Rightarrow> Some ''Invalid struct name''
      | TOO_BIG_STRUCT_NAME \<Rightarrow> Some ''Too big struct name''
      | INVALID_PATH \<Rightarrow> Some ''Invalid structs path''
      | STRUCT_DOES_NOT_EXIST \<Rightarrow> Some ''Enteted struct does not exist''
      | POOL_DOES_NOT_EXIST \<Rightarrow> Some ''Enteted pool does not exist''
      | SCHEMA_DOES_NOT_EXIST \<Rightarrow> Some ''Entered schema does not exist''
      | COLLECTION_DOES_NOT_EXIST \<Rightarrow> Some ''Entered collection does not exist''
      | ATTEMPT_TO_ADD_POOL_DUBLICATE \<Rightarrow> Some ''Entered pool already exists''
      | ATTEMPT_TO_ADD_SCHEMA_DUBLICATE \<Rightarrow> Some ''Entered schema already exists''
      | ATTEMPT_TO_ADD_COLLECTION_DUBLICATE \<Rightarrow> Some ''Entered collection already exists''
      | ATTEMPT_TO_INSERT_EXISTENT_KEY \<Rightarrow> Some ''Entered key already exists''
      | ATTEMPT_TO_UPDATE_NONEXISTENT_KEY \<Rightarrow> Some ''Entered key does not exist''
      | ATTEMPT_TO_DISPOSE_NONEXISTENT_KEY \<Rightarrow> Some ''Entered key does not exist''
      | ATTTEMT_TO_OBTAIN_NONEXISTENT_KEY \<Rightarrow>
          (case cmd m of OBTAIN_BETWEEN \<Rightarrow> Some ''Entered keys do not exist'' | _ \<Rightarrow> Some ''Entered key does not exist'')
      | FAILED_TO_ADD_STRUCT \<Rightarrow>
          (case cmd m of
             ADD_POOL \<Rightarrow> Some ''Failed to add pool''
           | ADD_SCHEMA \<Rightarrow> Some ''Failed to add schema''
           | ADD_COLLECTION \<Rightarrow> Some ''Failed to add collection''
           | _ \<Rightarrow> Some ''Failed to add struct'')
      | FAILED_TO_DISPOSE_STRUCT \<Rightarrow>
          (case cmd m of
             ADD_POOL \<Rightarrow> Some ''Failed to dispose pool''
           | ADD_SCHEMA \<Rightarrow> Some ''Failed to dispose schema''
           | ADD_COLLECTION \<Rightarrow> Some ''Failed to dispose collection''
           | _ \<Rightarrow> Some ''Failed to dispose struct'')
      | FAILED_TO_PERFORM_DATA_COMMAND \<Rightarrow>
          (case cmd m of
             ADD \<Rightarrow> Some ''Failed to insert key''
           | UPDATE \<Rightarrow> Some ''Failed to update key''
           | DISPOSE \<Rightarrow> Some ''Failed to dispose key''
           | OBTAIN \<Rightarrow> Some ''Failed to obtain key''
           | _ \<Rightarrow> Some ''Failed to perform data command'')
      | FAILED_TO_INSERT_KEY \<Rightarrow> Some ''Failed to insert key''
      | FAILED_TO_UPDATE_KEY \<Rightarrow> Some ''Failed to update key''
      | FAILED_TO_DISPOSE_KEY \<Rightarrow> Some ''Failed to dispose key''
      | FAILED_TO_OBTAIN_KEY \<Rightarrow> Some ''Failed to obtain key''
      | _ \<Rightarrow> None)"

text \<open>The rest of a range: records until \<open>target\<close> servers have sent their last one.\<close>

fun print_range ::
  "bool \<Rightarrow> strg_msg option list \<Rightarrow> 64 word \<Rightarrow> 64 word \<Rightarrow> strg_msg \<Rightarrow> client_world \<Rightarrow> client_result" where
  "print_range connected rs counter target msg w =
     (if counter = target then (Inr (), msg, set_inbox connected rs w)
      else case rs of
        [] \<Rightarrow> (Inl no_answer, msg, set_inbox connected [] w)
      | None # rs1 \<Rightarrow> (Inl no_answer, msg, set_inbox connected rs1 w)
      | Some m # rs1 \<Rightarrow>
          print_range connected rs1 (if status m = OBTAIN_BETWEEN_END then counter + 1 else counter) target m
            (out_line (''Obtained'' @ record_text m) w))"

declare print_range.simps [simp del]

definition print_answer :: "bool \<Rightarrow> string \<Rightarrow> strg_msg \<Rightarrow> client_world \<Rightarrow> client_result" where
  "print_answer connected key m w =
     (case cmd m of
        ADD \<Rightarrow> (Inr (), m, out_line (''Added'' @ record_text m) w)
      | UPDATE \<Rightarrow> (Inr (), m, out_line (''Updated'' @ record_text m) w)
      | DISPOSE \<Rightarrow> (Inr (), m, out_line (''Disposed'' @ record_text m) w)
      | OBTAIN \<Rightarrow> (Inr (), m, out_line (''Obtained'' @ record_text m) w)
      | OBTAIN_BETWEEN \<Rightarrow>
          print_range connected (inbox_of connected w)
            (if status m = OBTAIN_BETWEEN_END then 1 else 0) (extra_value m) m
            (out_line (''Obtained'' @ record_text m)
              (out_line (''Between '' @ key @ '' and '' @ right_boundary_login m) w))
      | ADD_POOL \<Rightarrow> (Inr (), m, out_line (''Added pool '' @ apostrophe @ pool_name m @ apostrophe) w)
      | ADD_SCHEMA \<Rightarrow> (Inr (), m, out_line (''Added schema '' @ apostrophe @ pool_name m @ ''/'' @ schema_name m @ apostrophe) w)
      | ADD_COLLECTION \<Rightarrow>
          (Inr (), m, out_line (''Added collection '' @ apostrophe @ pool_name m @ ''/'' @ schema_name m @ ''/'' @ collection_name m @ apostrophe) w)
      | DISPOSE_POOL \<Rightarrow> (Inr (), m, out_line (''Disposed schema '' @ apostrophe @ pool_name m @ apostrophe) w)
      | DISPOSE_SCHEMA \<Rightarrow> (Inr (), m, out_line (''Disposed schema '' @ apostrophe @ pool_name m @ ''/'' @ schema_name m @ apostrophe) w)
      | DISPOSE_COLLECTION \<Rightarrow>
          (Inr (), m, out_line (''Disposed pool '' @ apostrophe @ pool_name m @ ''/'' @ schema_name m @ ''/'' @ collection_name m @ apostrophe) w)
      | _ \<Rightarrow> (Inl (Cl_runtime_error ''Invalid server answer''), m, w))"

definition finish_answer :: "client_result \<Rightarrow> client_result" where
  "finish_answer r = (case r of (Inr _, m, w) \<Rightarrow> (Inr (), m, out_line [] w) | _ \<Rightarrow> r)"

definition handle_server_answer :: "bool \<Rightarrow> strg_msg \<Rightarrow> client_world \<Rightarrow> client_result" where
  "handle_server_answer connected msg w =
     (case strcpy MSG_KEY_SIZE (login msg) of
        None \<Rightarrow> (Inl Cl_undefined, msg, w)
      | Some key \<Rightarrow>
          (case await_answer (cw_counter w) (inbox_of connected w) (msg\<lparr>req_id := 0\<rparr>) of
             (Inl e, m, rs) \<Rightarrow> (Inl e, m, set_inbox connected rs w)
           | (Inr _, m, rs) \<Rightarrow>
               (case status_error m of
                  Some text \<Rightarrow> (Inl (Cl_runtime_error text), m, set_inbox connected rs w)
                | None \<Rightarrow> finish_answer (print_answer connected key m (set_inbox connected rs w)))))"

section \<open>The session\<close>

text \<open>\<open>line >> cmd\<close>: a line of blanks leaves the word of the line before.\<close>

definition line_word :: "string \<Rightarrow> string \<Rightarrow> string \<times> istream" where
  "line_word last_word buf = (case read_word (buf, False) of (Some w, a) \<Rightarrow> (w, a) | (None, a) \<Rightarrow> (last_word, a))"

definition count_request :: "client_world \<Rightarrow> client_world" where
  "count_request w = w\<lparr>cw_counter := cw_counter w mod 1000000000 + 1\<rparr>"

text \<open>The commands that go to the server.\<close>

definition command_of :: "int \<Rightarrow> string \<Rightarrow> istream \<Rightarrow> strg_msg \<Rightarrow> client_exn + strg_msg" where
  "command_of getpid word args msg =
     (if word = ''add'' then handle_add_command getpid args msg
      else if word = ''update'' then handle_update_command getpid args msg
      else if word = ''dispose'' then handle_dispose_command getpid args msg
      else if word = ''obtain'' then handle_obtain_command getpid args msg
      else if word = ''addPool'' then handle_add_pool_command getpid args msg
      else if word = ''addSchema'' then handle_add_schema_command getpid args msg
      else if word = ''addCollection'' then handle_add_collection_command getpid args msg
      else if word = ''disposePool'' then handle_dispose_pool_command getpid args msg
      else if word = ''disposeSchema'' then handle_dispose_schema_command getpid args msg
      else if word = ''disposeCollection'' then handle_dispose_collection_command getpid args msg
      else Inl (Cl_runtime_error ''Invalid command''))"

definition run_command :: "int \<Rightarrow> bool \<Rightarrow> string \<Rightarrow> istream \<Rightarrow> strg_msg \<Rightarrow> client_world \<Rightarrow> client_result" where
  "run_command getpid connected word args msg w =
     (case send_command connected (command_of getpid word args msg) msg w of
        (Inr _, m, w1) \<Rightarrow>
          (case handle_server_answer connected m w1 of
             (Inr _, m2, w2) \<Rightarrow> (Inr (), m2, count_request w2)
           | r \<Rightarrow> r)
      | r \<Rightarrow> r)"

definition handle_reconnect_command :: "istream \<Rightarrow> bool \<Rightarrow> client_world \<Rightarrow> (client_exn + unit) \<times> bool \<times> client_world" where
  "handle_reconnect_command args connected w =
     (case validate_eof args of
        Inl e \<Rightarrow> (Inl e, connected, w)
      | Inr _ \<Rightarrow>
          (case cw_gets w of
             True # gs \<Rightarrow> (Inr (), True, out_line [] (out_line ''Reconnected'' (w\<lparr>cw_gets := gs\<rparr>)))
           | gs \<Rightarrow> (Inl (Cl_runtime_error ''Cannot reconnect to the server''), False, w\<lparr>cw_gets := tl gs\<rparr>)))"

text \<open>The lines of a command file, as \<open>std::getline\<close> gives them.\<close>

function file_lines :: "string \<Rightarrow> string list" where
  "file_lines s =
     (if s = [] then []
      else takeWhile (\<lambda>c. c \<noteq> CHR 0x0A) s # file_lines (tl (dropWhile (\<lambda>c. c \<noteq> CHR 0x0A) s)))"
  by pat_completeness auto
termination
proof (relation "measure length", simp, goal_cases)
  case (1 s)
  have "length (dropWhile (\<lambda>c. c \<noteq> CHR 0x0A) s) \<le> length s" by (rule length_dropWhile_le)
  moreover have "0 < length s" using 1 by simp
  ultimately have "length (tl (dropWhile (\<lambda>c. c \<noteq> CHR 0x0A) s)) < length s" by (simp add: less_eq_Suc_le)
  then show ?case by simp
qed

declare file_lines.simps [simp del]

definition open_command_file :: "istream \<Rightarrow> client_world \<Rightarrow> client_exn + string list" where
  "open_command_file args w =
     (case read_word args of
        (path, a) \<Rightarrow>
          and_then (validate_eof a) (\<lambda>_.
            case cw_files w (case path of None \<Rightarrow> [] | Some p \<Rightarrow> p) of
              None \<Rightarrow> Inl (Cl_runtime_error ''Cannot open the command file'')
            | Some text \<Rightarrow> Inr (file_lines text)))"

text \<open>What a session has between two lines: the descriptor, the last word, the message and the world.\<close>

type_synonym session = "bool \<times> string \<times> strg_msg \<times> client_world"

text \<open>The \<open>catch\<close> block: the terminal prints the error and goes on, a command file passes it on.\<close>

definition caught :: "bool \<Rightarrow> (client_exn + unit) \<times> session \<Rightarrow> (client_exn + unit) \<times> session" where
  "caught is_terminal r =
     (case r of
        (Inl (Cl_runtime_error text), c, word, m, w) \<Rightarrow>
          if is_terminal then (Inr (), c, word, m, out_line [] (out_line text w)) else r
      | _ \<Rightarrow> r)"

text \<open>Every line but \<open>stop\<close> and \<open>executeFile\<close>.\<close>

definition plain_line :: "int \<Rightarrow> string \<Rightarrow> istream \<Rightarrow> session \<Rightarrow> (client_exn + unit) \<times> session" where
  "plain_line getpid word args s =
     (case s of
        (connected, _, msg, w) \<Rightarrow>
          if word = ''reconnect'' then
            (case handle_reconnect_command args connected w of (r, c, w1) \<Rightarrow> (r, c, word, msg, w1))
          else (case run_command getpid connected word args msg w of (r, m, w1) \<Rightarrow> (r, connected, word, m, w1)))"

text \<open>
  The session. A command file that executes itself without an end is the value \<open>None\<close>; in C++ the stack
  overflows.
\<close>

partial_function (option) run_session ::
  "int \<Rightarrow> bool \<Rightarrow> string list \<Rightarrow> session \<Rightarrow> ((client_exn + unit) \<times> client_world) option" where
  "run_session getpid is_terminal lines s =
     (case lines of
        [] \<Rightarrow> Some (Inr (), snd (snd (snd s)))
      | buf # rest \<Rightarrow>
          if c_str buf = [] then run_session getpid is_terminal rest s
          else
            (case s of (connected, cmd0, msg0, w) \<Rightarrow>
            (case line_word cmd0 buf of (word, args) \<Rightarrow>
            if word = ''stop'' \<and> snd args then Some (Inr (), w)
            else
              Option.bind
                (if word = ''stop'' then
                   Some (caught is_terminal
                     (Inl (Cl_runtime_error ''Excess arguments''), connected, word, msg0\<lparr>req_id := cw_counter w\<rparr>, w))
                 else if word = ''executeFile'' then
                   (case open_command_file args w of
                      Inl e \<Rightarrow> Some (caught is_terminal (Inl e, connected, word, msg0\<lparr>req_id := cw_counter w\<rparr>, w))
                    | Inr ls \<Rightarrow>
                        Option.bind (run_session getpid False ls (connected, [], cw_junk w, w))
                          (\<lambda>(r, w1). Some (case r of
                             Inl e \<Rightarrow> caught is_terminal (Inl e, connected, word, msg0\<lparr>req_id := cw_counter w\<rparr>, w1)
                           | Inr _ \<Rightarrow> (Inr (), connected, word, msg0\<lparr>req_id := cw_counter w\<rparr>, count_request w1))))
                 else Some (caught is_terminal
                   (plain_line getpid word args (connected, word, msg0\<lparr>req_id := cw_counter w\<rparr>, w))))
                (\<lambda>r. case r of
                   (Inl e, s1) \<Rightarrow> Some (Inl e, snd (snd (snd s1)))
                 | (Inr _, s1) \<Rightarrow> run_session getpid is_terminal rest s1))))"

end
