(* ===== verification/Client_Correct.thy ===== *)
theory Client_Correct
  imports Client_Session
begin

text \<open>
  Reading a command line back, what every message of the client has, and how the answers are taken from
  the queue.
\<close>

section \<open>Words\<close>

definition word_ok :: "nat \<Rightarrow> string \<Rightarrow> bool" where
  "word_ok n w \<longleftrightarrow> w \<noteq> [] \<and> (\<forall>c \<in> set w. \<not> is_blank c \<and> c \<noteq> CHR 0x00) \<and> length w < n"

definition spaced :: "string list \<Rightarrow> string" where
  "spaced ws = concat (map (\<lambda>w. CHR '' '' # w) ws)"

lemma spaced_Cons: "spaced (w # ws) = CHR '' '' # w @ spaced ws"
  by (simp add: spaced_def)

lemma spaced_end: "spaced ws = [] \<or> is_blank (hd (spaced ws))" "spaced ws = [] \<longleftrightarrow> ws = []"
  by (cases ws; simp add: spaced_def is_blank_def)+

lemma span_word:
  assumes "\<forall>c \<in> set w. P c" "rest = [] \<or> \<not> P (hd rest)"
  shows "takeWhile P (w @ rest) = w" "dropWhile P (w @ rest) = rest"
  using assms by (cases rest; simp add: takeWhile_append2 dropWhile_append2)+

lemma read_word_spaced:
  assumes "w \<noteq> []" "\<forall>c \<in> set w. \<not> is_blank c"
  shows "read_word (spaced (w # ws), False) = (Some w, (spaced ws, ws = []))"
proof -
  have d: "dropWhile is_blank (spaced (w # ws)) = w @ spaced ws"
    using assms by (cases w) (simp_all add: spaced_Cons is_blank_def)
  have "\<forall>c \<in> set w. \<not> is_blank c" "spaced ws = [] \<or> \<not> \<not> is_blank (hd (spaced ws))" using assms(2) spaced_end(1) by auto
  note s = span_word [OF this]
  show ?thesis using assms(1) spaced_end(2) [of ws] by (simp add: read_word_def d s Let_def)
qed

lemma word_okD: "word_ok n w \<Longrightarrow> w \<noteq> []" "word_ok n w \<Longrightarrow> length w < n"
  unfolding word_ok_def by blast+

lemma read_word_ok: "word_ok n w \<Longrightarrow> read_word (spaced (w # ws), False) = (Some w, (spaced ws, ws = []))"
  by (rule read_word_spaced) (auto simp: word_ok_def)

lemma copied_ok: "word_ok n w \<Longrightarrow> n \<le> k \<Longrightarrow> copied k w = Inr w"
proof -
  assume w: "word_ok n w" "n \<le> k"
  then have "CHR 0x00 \<notin> set w" "length w < k" unfolding word_ok_def by (blast, linarith)
  from strcpy_plain [OF this] show ?thesis by (simp add: copied_def)
qed

section \<open>Numbers\<close>

lemma read_digits_spaced:
  assumes "sign \<in> {[], ''-'', ''+''}"
  shows "read_digits (CHR '' '' # sign @ show_nat n @ spaced ws, False) = (Some (sign = ''-'', n), (spaced ws, ws = []))"
proof -
  have d: "\<forall>c \<in> set (show_nat n). is_digit c" by (rule show_nat_digits)
  obtain c cs where c: "show_nat n = c # cs" using show_nat_not_Nil [of n] by (cases "show_nat n") auto
  have nb: "\<not> is_blank c" "c \<noteq> CHR ''-''" "c \<noteq> CHR ''+''" using digit_not_blank [of c] d c by auto
  have "spaced ws = [] \<or> \<not> is_digit (hd (spaced ws))" using spaced_end(1) digit_not_blank by blast
  note s = span_word [OF d this]
  have bl: "is_blank (CHR '' '')" "\<not> is_blank (CHR ''-'')" "\<not> is_blank (CHR ''+'')" by (simp_all add: is_blank_def)
  have h: "hd (show_nat n @ spaced ws) = c" "dropWhile is_blank (show_nat n @ spaced ws) = show_nat n @ spaced ws"
    using nb(1) by (simp_all add: c)
  note simps = read_digits_def Let_def bl h nb s show_nat_not_Nil nat_of_show_nat spaced_end(2)
  from assms consider "sign = []" | "sign = ''-''" | "sign = ''+''" by blast
  then show ?thesis by cases (simp_all add: simps del: dropWhile_eq_Nil_conv)
qed

lemma read_int64_spaced:
  "read_int64 (spaced (show_int64 v # ws), False) = (Some v, (spaced ws, ws = []))"
proof (cases "sint v < 0")
  case True
  have "- (2 ^ 63) \<le> sint v" using sint_ge [of v] by simp
  then have n: "nat (- sint v) \<le> 2 ^ 63" by simp
  have "(- of_nat (nat (- sint v)) :: 64 word) = of_int (sint v)" using True by simp
  then show ?thesis
    using True n read_digits_spaced [of "''-''" "nat (- sint v)" ws]
    by (simp add: read_int64_def show_int64_def spaced_Cons)
next
  case False
  have "sint v < 2 ^ 63" using sint_lt [of v] by simp
  then have n: "nat (sint v) < 2 ^ 63" by simp
  have "(of_nat (nat (sint v)) :: 64 word) = of_int (sint v)" using False by simp
  then show ?thesis
    using False n read_digits_spaced [of "[]" "nat (sint v)" ws]
    by (simp add: read_int64_def show_int64_def spaced_Cons)
qed

lemma read_size_t_spaced:
  "n < 2 ^ 64 \<Longrightarrow> read_size_t (spaced (show_nat n # ws), False) = (Some (of_nat n), (spaced ws, ws = []))"
  using read_digits_spaced [of "[]" n ws] by (simp add: read_size_t_def spaced_Cons)

section \<open>Command lines\<close>

definition structs_ok :: "string list \<Rightarrow> bool" where
  "structs_ok ws \<longleftrightarrow> (\<forall>w \<in> set ws. word_ok MSG_STRUCTS_NAME_SIZE w)"

lemma read_struct_name_ok:
  "word_ok MSG_STRUCTS_NAME_SIZE w \<Longrightarrow> read_struct_name (spaced (w # ws), False) = Inr (w, (spaced ws, ws = []))"
  using word_okD(2) [of MSG_STRUCTS_NAME_SIZE w] by (simp add: read_struct_name_def read_word_ok [of MSG_STRUCTS_NAME_SIZE])

lemma read_path_ok:
  assumes "structs_ok [p, s, c]"
  shows "read_path (spaced (p # s # c # ws), False) = Inr ((p, s, c), (spaced ws, ws = []))"
  using assms by (simp add: read_path_def structs_ok_def read_struct_name_ok)

lemma read_key_ok: "word_ok MSG_KEY_SIZE w \<Longrightarrow> read_key (spaced (w # ws), False) = Inr (w, (spaced ws, ws = []))"
  using word_okD(1) [of MSG_KEY_SIZE w] by (simp add: read_key_def read_word_ok [of MSG_KEY_SIZE])

lemma read_value_ok:
  "word_ok MSG_NAME_SIZE n \<Longrightarrow> read_value (spaced (show_int64 v # n # ws), False) = Inr ((v, n), (spaced ws, ws = []))"
  using read_word_ok [of MSG_NAME_SIZE n ws] by (simp add: read_value_def read_int64_spaced)

lemma read_parameter_ok:
  assumes "2 \<le> t" "t < 2 ^ 64"
  shows "read_parameter_t_for_b_trees (spaced (show_nat t # ws), False) = Inr (of_nat t, (spaced ws, ws = []))"
proof -
  have "unat (of_nat t :: 64 word) = t" using assms(2) by (simp add: unat_of_nat take_bit_nat_eq_self)
  then have "\<not> (of_nat t :: 64 word) < 2" using assms(1) by (simp add: word_less_nat_alt)
  then show ?thesis by (simp add: read_parameter_t_for_b_trees_def read_size_t_spaced [OF assms(2)])
qed

definition allocator_word :: "allocator_variant \<Rightarrow> string" where
  "allocator_word v =
     (case v of Av_global_heap \<Rightarrow> ''global_heap'' | Av_boundary_tags \<Rightarrow> ''boundary_tags'' | Av_buddy_system \<Rightarrow> ''buddies_system''
      | Av_sorted_list \<Rightarrow> ''sorted_list'' | Av_red_black_tree \<Rightarrow> ''red_black_tree'' | Av_other _ \<Rightarrow> ''-'')"

definition fit_mode_word :: "fit_mode \<Rightarrow> string" where
  "fit_mode_word m = (case m of First_fit \<Rightarrow> ''first'' | The_best_fit \<Rightarrow> ''best'' | The_worst_fit \<Rightarrow> ''worst'' | Fit_other _ \<Rightarrow> ''-'')"

text \<open>The variants that have a word; the others come only from casts.\<close>

definition has_word :: "allocator_variant \<Rightarrow> fit_mode \<Rightarrow> bool" where
  "has_word v m \<longleftrightarrow> (\<forall>n. v \<noteq> Av_other n) \<and> (\<forall>n. m \<noteq> Fit_other n)"

lemma allocator_word_ok: "allocator_word v \<noteq> []" "\<forall>c \<in> set (allocator_word v). \<not> is_blank c"
  unfolding allocator_word_def is_blank_def by (simp_all split: allocator_variant.split)

lemma fit_mode_word_ok: "fit_mode_word m \<noteq> []" "\<forall>c \<in> set (fit_mode_word m). \<not> is_blank c"
  unfolding fit_mode_word_def is_blank_def by (simp_all split: fit_mode.split)

lemma read_allocator_ok: "has_word v m \<Longrightarrow> read_allocator (spaced (allocator_word v # ws), False) = Inr (v, (spaced ws, ws = []))"
proof -
  have "read_word (spaced (allocator_word v # ws), False) = (Some (allocator_word v), (spaced ws, ws = []))"
    by (intro read_word_spaced allocator_word_ok)
  moreover assume "has_word v m"
  ultimately show ?thesis by (cases v) (simp_all add: read_allocator_def allocator_word_def has_word_def)
qed

lemma read_allocator_fit_mode_ok:
  "has_word v m \<Longrightarrow> read_allocator_fit_mode (spaced (fit_mode_word m # ws), False) = Inr (m, (spaced ws, ws = []))"
proof -
  have "read_word (spaced (fit_mode_word m # ws), False) = (Some (fit_mode_word m), (spaced ws, ws = []))"
    by (intro read_word_spaced fit_mode_word_ok)
  moreover assume "has_word v m"
  ultimately show ?thesis by (cases m) (simp_all add: read_allocator_fit_mode_def fit_mode_word_def has_word_def)
qed

lemma put_ok:
  "word_ok MSG_STRUCTS_NAME_SIZE w \<Longrightarrow> put_pool w m = Inr (m\<lparr>pool_name := w\<rparr>)"
  "word_ok MSG_STRUCTS_NAME_SIZE w \<Longrightarrow> put_schema w m = Inr (m\<lparr>schema_name := w\<rparr>)"
  "word_ok MSG_STRUCTS_NAME_SIZE w \<Longrightarrow> put_collection w m = Inr (m\<lparr>collection_name := w\<rparr>)"
  "word_ok MSG_KEY_SIZE w \<Longrightarrow> put_login w m = Inr (m\<lparr>login := w\<rparr>)"
  "word_ok MSG_KEY_SIZE w \<Longrightarrow> put_right_login w m = Inr (m\<lparr>right_boundary_login := w\<rparr>)"
  "word_ok MSG_NAME_SIZE w \<Longrightarrow> put_name w m = Inr (m\<lparr>value_name := w\<rparr>)"
  by (simp_all add: put_pool_def put_schema_def put_collection_def put_login_def put_right_login_def put_name_def
      copied_ok [OF _ order_refl])

lemma put_path_ok:
  "structs_ok [p, s, c] \<Longrightarrow> put_path p s c m = Inr (m\<lparr>pool_name := p, schema_name := s, collection_name := c\<rparr>)"
  by (simp add: put_path_def structs_ok_def put_ok)

lemma validate_eof_simps [simp]: "validate_eof (x, True) = Inr ()"
  by (simp add: validate_eof_def)

lemma c_str_word: "word_ok n w \<Longrightarrow> c_str w = w"
  by (rule c_str_plain) (auto simp: word_ok_def)

lemmas command_line_ok =
  read_path_ok read_key_ok read_value_ok put_ok put_path_ok

lemma put_command_line:
  assumes "structs_ok [p, s, c]" "word_ok MSG_KEY_SIZE k" "word_ok MSG_NAME_SIZE n"
  shows "put_command cm pd (spaced [p, s, c, k, show_int64 v, n], False) m =
    Inr ((client_msg pd cm m)\<lparr>pool_name := p, schema_name := s, collection_name := c, login := k,
      hashed_password := v, value_name := n\<rparr>)"
  using assms by (simp add: put_command_def command_line_ok)

lemma handle_dispose_line:
  assumes "structs_ok [p, s, c]" "word_ok MSG_KEY_SIZE k"
  shows "handle_dispose_command pd (spaced [p, s, c, k], False) m =
    Inr ((client_msg pd DISPOSE m)\<lparr>pool_name := p, schema_name := s, collection_name := c, login := k\<rparr>)"
  using assms by (simp add: handle_dispose_command_def command_line_ok)

lemma handle_obtain_line:
  assumes "structs_ok [p, s, c]" "word_ok MSG_KEY_SIZE k"
  shows "handle_obtain_command pd (spaced [p, s, c, k], False) m =
    Inr ((client_msg pd OBTAIN m)\<lparr>pool_name := p, schema_name := s, collection_name := c, login := k,
      right_boundary_login := []\<rparr>)"
  using assms
  by (simp add: handle_obtain_command_def command_line_ok put_right_login_def copied_def strcpy_def c_str_def MSG_KEY_SIZE_def)

lemma handle_obtain_range_line:
  assumes "structs_ok [p, s, c]" "word_ok MSG_KEY_SIZE k" "word_ok MSG_KEY_SIZE r"
  shows "handle_obtain_command pd (spaced [p, s, c, k, r], False) m =
    Inr ((client_msg pd OBTAIN_BETWEEN m)\<lparr>pool_name := p, schema_name := s, collection_name := c, login := k,
      right_boundary_login := r\<rparr>)"
proof -
  have "c_str r \<noteq> []" using c_str_word [OF assms(3)] word_okD(1) [OF assms(3)] by simp
  then show ?thesis using assms by (simp add: handle_obtain_command_def command_line_ok)
qed

lemma handle_add_struct_lines:
  assumes "structs_ok [p, s, c]" "2 \<le> t" "t < 2 ^ 64" "has_word av fm"
  shows "handle_add_pool_command pd (spaced [p, show_nat t], False) m =
      Inr ((client_msg pd ADD_POOL m)\<lparr>pool_name := p, tree_variant := St_b, t_for_b_trees := t\<rparr>)"
    "handle_add_schema_command pd (spaced [p, s, show_nat t], False) m =
      Inr ((client_msg pd ADD_SCHEMA m)\<lparr>pool_name := p, schema_name := s, tree_variant := St_b, t_for_b_trees := t\<rparr>)"
    "handle_add_collection_command pd (spaced [p, s, c, show_nat t, allocator_word av, fit_mode_word fm], False) m =
      Inr ((client_msg pd ADD_COLLECTION m)\<lparr>pool_name := p, schema_name := s, collection_name := c, tree_variant := St_b,
        t_for_b_trees := t, alloc_variant := av, alloc_fit_mode := fm\<rparr>)"
proof -
  have u: "unat (of_nat t :: 64 word) = t" using assms(3) by (simp add: unat_of_nat take_bit_nat_eq_self)
  have w: "word_ok MSG_STRUCTS_NAME_SIZE p" "word_ok MSG_STRUCTS_NAME_SIZE s" using assms(1) by (simp_all add: structs_ok_def)
  show "handle_add_pool_command pd (spaced [p, show_nat t], False) m =
      Inr ((client_msg pd ADD_POOL m)\<lparr>pool_name := p, tree_variant := St_b, t_for_b_trees := t\<rparr>)"
    using w by (simp add: handle_add_pool_command_def read_struct_name_ok read_parameter_ok [OF assms(2,3)] put_ok u)
  show "handle_add_schema_command pd (spaced [p, s, show_nat t], False) m =
      Inr ((client_msg pd ADD_SCHEMA m)\<lparr>pool_name := p, schema_name := s, tree_variant := St_b, t_for_b_trees := t\<rparr>)"
    using w by (simp add: handle_add_schema_command_def read_struct_name_ok read_parameter_ok [OF assms(2,3)] put_ok u)
  show "handle_add_collection_command pd (spaced [p, s, c, show_nat t, allocator_word av, fit_mode_word fm], False) m =
      Inr ((client_msg pd ADD_COLLECTION m)\<lparr>pool_name := p, schema_name := s, collection_name := c, tree_variant := St_b,
        t_for_b_trees := t, alloc_variant := av, alloc_fit_mode := fm\<rparr>)"
    using assms(1) read_allocator_ok [OF assms(4)] read_allocator_fit_mode_ok [OF assms(4)]
    by (simp add: handle_add_collection_command_def read_path_ok put_path_ok read_parameter_ok [OF assms(2,3)] u)
qed

lemma handle_dispose_struct_lines:
  assumes "structs_ok [p, s, c]"
  shows "handle_dispose_pool_command pd (spaced [p], False) m = Inr ((client_msg pd DISPOSE_POOL m)\<lparr>pool_name := p\<rparr>)"
    "handle_dispose_schema_command pd (spaced [p, s], False) m =
      Inr ((client_msg pd DISPOSE_SCHEMA m)\<lparr>pool_name := p, schema_name := s\<rparr>)"
    "handle_dispose_collection_command pd (spaced [p, s, c], False) m =
      Inr ((client_msg pd DISPOSE_COLLECTION m)\<lparr>pool_name := p, schema_name := s, collection_name := c\<rparr>)"
proof -
  have w: "word_ok MSG_STRUCTS_NAME_SIZE p" "word_ok MSG_STRUCTS_NAME_SIZE s" using assms by (simp_all add: structs_ok_def)
  show "handle_dispose_pool_command pd (spaced [p], False) m = Inr ((client_msg pd DISPOSE_POOL m)\<lparr>pool_name := p\<rparr>)"
    "handle_dispose_schema_command pd (spaced [p, s], False) m =
      Inr ((client_msg pd DISPOSE_SCHEMA m)\<lparr>pool_name := p, schema_name := s\<rparr>)"
    using w by (simp_all add: handle_dispose_pool_command_def handle_dispose_schema_command_def read_struct_name_ok put_ok)
  show "handle_dispose_collection_command pd (spaced [p, s, c], False) m =
      Inr ((client_msg pd DISPOSE_COLLECTION m)\<lparr>pool_name := p, schema_name := s, collection_name := c\<rparr>)"
    using assms by (simp add: handle_dispose_collection_command_def command_line_ok)
qed

section \<open>What every message of the client has\<close>

definition from_client :: "int \<Rightarrow> 64 word \<Rightarrow> strg_msg \<Rightarrow> bool" where
  "from_client pd n m \<longleftrightarrow> mtype m = MANAGER_SERVER_CLIENT_PRIOR \<and> status m = CLIENT \<and> pid m = pd \<and> req_id m = n"

text \<open>A result that is an exception or a message with the property.\<close>

definition gives_msg :: "(strg_msg \<Rightarrow> bool) \<Rightarrow> client_exn + strg_msg \<Rightarrow> bool" where
  "gives_msg P r \<longleftrightarrow> (case r of Inr m \<Rightarrow> P m | Inl e \<Rightarrow> True)"

lemma gives_msg_then: "(\<And>x. gives_msg P (f x)) \<Longrightarrow> gives_msg P (and_then r f)"
  by (cases r) (simp_all add: gives_msg_def)

lemma gives_msg_put: "gives_msg P r \<Longrightarrow> (\<And>m. P m \<Longrightarrow> gives_msg P (f m)) \<Longrightarrow> gives_msg P (and_then r f)"
  by (cases r) (simp_all add: gives_msg_def)

lemma gives_msg_simps: "gives_msg P (Inr m) \<longleftrightarrow> P m" "gives_msg P (Inl e)"
  by (simp_all add: gives_msg_def)

lemma gives_msg_fields:
  assumes "from_client pd n m"
  shows "gives_msg (from_client pd n) (put_pool s m)" "gives_msg (from_client pd n) (put_schema s m)"
    "gives_msg (from_client pd n) (put_collection s m)" "gives_msg (from_client pd n) (put_login s m)"
    "gives_msg (from_client pd n) (put_right_login s m)" "gives_msg (from_client pd n) (put_name s m)"
  using assms
  by (auto simp: put_pool_def put_schema_def put_collection_def put_login_def put_right_login_def put_name_def
      from_client_def gives_msg_simps intro!: gives_msg_then)

lemma gives_msg_path: "from_client pd n m \<Longrightarrow> gives_msg (from_client pd n) (put_path p s c m)"
  unfolding put_path_def by (intro gives_msg_put gives_msg_fields)

lemma from_client_msg: "from_client pd (req_id m) (client_msg pd c m)"
  by (simp add: from_client_def client_msg_def)

lemma from_client_update:
  "from_client pd n m \<Longrightarrow> from_client pd n (m\<lparr>hashed_password := v\<rparr>)"
  "from_client pd n m \<Longrightarrow> from_client pd n (m\<lparr>tree_variant := tv, t_for_b_trees := t\<rparr>)"
  "from_client pd n m \<Longrightarrow> from_client pd n (m\<lparr>tree_variant := tv, t_for_b_trees := t, alloc_variant := av, alloc_fit_mode := fm\<rparr>)"
  by (simp_all add: from_client_def)

lemmas reading =
  gives_msg_then [where r = "read_path a" for a] gives_msg_then [where r = "read_key a" for a]
  gives_msg_then [where r = "read_value a" for a] gives_msg_then [where r = "validate_eof a" for a]
  gives_msg_then [where r = "if b then x else read_key a" for b x a]
  gives_msg_then [where r = "read_parameter_t_for_b_trees a" for a] gives_msg_then [where r = "read_allocator a" for a]
  gives_msg_then [where r = "read_allocator_fit_mode a" for a] gives_msg_then [where r = "read_struct_name a" for a]

lemmas writing =
  gives_msg_put [where r = "put_path p s c m" for p s c m] gives_msg_put [where r = "put_pool s m" for s m]
  gives_msg_put [where r = "put_schema s m" for s m] gives_msg_put [where r = "put_login s m" for s m]
  gives_msg_path gives_msg_fields from_client_msg from_client_update

lemma handlers_give_msg:
  "gives_msg (from_client pd (req_id msg)) (put_command cm pd args msg)"
  "gives_msg (from_client pd (req_id msg)) (handle_dispose_command pd args msg)"
  "gives_msg (from_client pd (req_id msg)) (handle_obtain_command pd args msg)"
  "gives_msg (from_client pd (req_id msg)) (handle_add_pool_command pd args msg)"
  "gives_msg (from_client pd (req_id msg)) (handle_add_schema_command pd args msg)"
  "gives_msg (from_client pd (req_id msg)) (handle_add_collection_command pd args msg)"
  "gives_msg (from_client pd (req_id msg)) (handle_dispose_pool_command pd args msg)"
  "gives_msg (from_client pd (req_id msg)) (handle_dispose_schema_command pd args msg)"
  "gives_msg (from_client pd (req_id msg)) (handle_dispose_collection_command pd args msg)"
  unfolding put_command_def handle_dispose_command_def handle_obtain_command_def handle_add_pool_command_def
    handle_add_schema_command_def handle_add_collection_command_def handle_dispose_pool_command_def
    handle_dispose_schema_command_def handle_dispose_collection_command_def
  by (auto simp: gives_msg_simps intro!: reading writing)

lemma command_of_msg:
  assumes "command_of pd word args msg = Inr m"
  shows "from_client pd (req_id msg) m"
proof -
  have "gives_msg (from_client pd (req_id msg)) (command_of pd word args msg)"
    by (simp add: command_of_def handle_add_command_def handle_update_command_def handlers_give_msg gives_msg_simps)
  then show ?thesis using assms by (simp add: gives_msg_simps)
qed

section \<open>Answers\<close>

lemma await_answer_found:
  assumes "\<forall>u \<in> set us. req_id u \<noteq> counter \<and> cmd u \<noteq> PING" "req_id a = counter" "cmd a \<noteq> PING" "counter \<noteq> req_id msg"
  shows "await_answer counter (map Some us @ Some a # rs) msg = (Inr (), a, rs)"
  using assms
proof (induction us arbitrary: msg)
  case Nil
  then show ?case by (subst await_answer.simps) (simp add: await_answer.simps)
next
  case (Cons u us)
  then show ?case by (subst await_answer.simps) auto
qed

text \<open>The range ends with the last message of the last server, in whatever order they come.\<close>

definition ends :: "strg_msg list \<Rightarrow> nat" where
  "ends ms = length (filter (\<lambda>m. status m = OBTAIN_BETWEEN_END) ms)"

lemma ends_simps [simp]: "ends [] = 0" "ends (m # ms) = (if status m = OBTAIN_BETWEEN_END then Suc (ends ms) else ends ms)"
  by (simp_all add: ends_def)

lemma ends_last: "ms \<noteq> [] \<Longrightarrow> status (last ms) = OBTAIN_BETWEEN_END \<Longrightarrow> 0 < ends ms"
  by (induction ms) (auto split: if_splits)

definition out_records :: "strg_msg list \<Rightarrow> client_world \<Rightarrow> client_world" where
  "out_records ms w = fold (\<lambda>m. out_line (''Obtained'' @ record_text m)) ms w"

lemma print_range_all:
  assumes "ends ms < 2 ^ 64" "counter + of_nat (ends ms) = target"
    and "ms \<noteq> [] \<longrightarrow> status (last ms) = OBTAIN_BETWEEN_END"
  shows "print_range connected (map Some ms @ rs) counter target msg w =
    (Inr (), last (msg # ms), set_inbox connected rs (out_records ms w))"
  using assms
proof (induction ms arbitrary: counter msg w)
  case Nil
  then show ?case by (subst print_range.simps) (simp add: out_records_def)
next
  case (Cons m ms)
  have pos: "0 < ends (m # ms)" using Cons.prems(3) ends_last [of "m # ms"] by simp
  have ne: "counter \<noteq> target"
  proof
    assume "counter = target"
    then have "(of_nat (ends (m # ms)) :: 64 word) = 0" using Cons.prems(2) by simp
    then have "unat (of_nat (ends (m # ms)) :: 64 word) = 0" by simp
    moreover have "unat (of_nat (ends (m # ms)) :: 64 word) = ends (m # ms)"
      using Cons.prems(1) by (simp only: unat_of_nat take_bit_nat_eq_self word_size len_of_numeral_defs) (simp add: take_bit_nat_eq_self)
    ultimately show False using pos by simp
  qed
  let ?c = "if status m = OBTAIN_BETWEEN_END then counter + 1 else counter"
  have "?c + of_nat (ends ms) = target" "ends ms < 2 ^ 64" using Cons.prems(1,2) by (auto simp: algebra_simps split: if_splits)
  moreover have "ms \<noteq> [] \<longrightarrow> status (last ms) = OBTAIN_BETWEEN_END" using Cons.prems(3) by auto
  ultimately have "print_range connected (map Some ms @ rs) ?c target m (out_line (''Obtained'' @ record_text m) w) =
    (Inr (), last (m # ms), set_inbox connected rs (out_records ms (out_line (''Obtained'' @ record_text m) w)))"
    by (intro Cons.IH)
  then show ?case using ne by (subst print_range.simps) (simp add: out_records_def)
qed

section \<open>The session\<close>

definition count_ok :: "64 word \<Rightarrow> bool" where
  "count_ok n \<longleftrightarrow> 1 \<le> n \<and> n \<le> 1000000000"

definition session_ok :: "int \<Rightarrow> client_world \<Rightarrow> bool" where
  "session_ok pd w \<longleftrightarrow> count_ok (cw_counter w) \<and> (\<forall>m \<in> set (cw_sent w). \<exists>n. count_ok n \<and> from_client pd n m)"

definition same_requests :: "client_world \<Rightarrow> client_world \<Rightarrow> bool" where
  "same_requests w w' \<longleftrightarrow> cw_counter w' = cw_counter w \<and> cw_sent w' = cw_sent w"

lemma same_requests_simps [simp]:
  "same_requests w w" "same_requests w (out_line s w1) = same_requests w w1" "same_requests w (out s w1) = same_requests w w1"
  "same_requests w (set_inbox c rs w1) = same_requests w w1" "same_requests (out_line s w1) w = same_requests w1 w"
  "same_requests (set_inbox c rs w1) w = same_requests w1 w"
  by (simp_all add: same_requests_def out_line_def out_def set_inbox_def)

lemma same_requests_ok: "same_requests w w' \<Longrightarrow> session_ok pd w \<Longrightarrow> session_ok pd w'"
  by (simp add: same_requests_def session_ok_def)

lemma print_range_requests: "same_requests w (snd (snd (print_range c rs n target msg w)))"
proof (induction c rs n target msg w rule: print_range.induct)
  case (1 c rs n target msg w)
  then show ?case
    by (subst print_range.simps) (auto split: list.split option.split)
qed

lemma handle_server_answer_requests: "same_requests w (snd (snd (handle_server_answer c msg w)))"
proof -
  have p: "same_requests w1 (snd (snd (print_answer c k m w1)))" for k m w1
    using print_range_requests by (auto simp: print_answer_def split: command.split) (metis same_requests_simps(5))+
  have "same_requests w1 (snd (snd (finish_answer r))) = same_requests w1 (snd (snd r))" for r w1
    by (cases r) (auto simp: finish_answer_def split: sum.split)
  then show ?thesis
    using p by (auto simp: handle_server_answer_def split: option.split sum.split prod.split) (metis same_requests_simps(6))
qed

lemma count_request_ok: "session_ok pd w \<Longrightarrow> session_ok pd (count_request w)"
proof -
  have "count_ok (n mod 1000000000 + 1)" for n :: "64 word"
  proof -
    have m: "unat (n mod 1000000000) < 1000000000" by (simp add: unat_mod)
    then have "unat (n mod 1000000000 + 1) = unat (n mod 1000000000) + 1" by (simp add: unat_word_ariths)
    then show ?thesis using m by (simp add: count_ok_def word_le_nat_alt)
  qed
  then show "session_ok pd w \<Longrightarrow> ?thesis" by (simp add: session_ok_def count_request_def)
qed

lemma run_command_ok:
  assumes "session_ok pd w" "req_id msg = cw_counter w" "run_command pd c word args msg w = (r, m, w')"
  shows "session_ok pd w'"
proof -
  obtain r1 m1 w1 where s: "send_command c (command_of pd word args msg) msg w = (r1, m1, w1)" by (metis prod_cases3)
  have w1: "session_ok pd w1"
  proof (cases "command_of pd word args msg")
    case (Inl e)
    then show ?thesis using s assms(1) by (simp add: send_command_def)
  next
    case (Inr a)
    from command_of_msg [OF Inr] show ?thesis
      using s assms(1,2) by (auto simp: send_command_def Inr session_ok_def split: if_splits list.splits bool.splits)
  qed
  show ?thesis
  proof (cases r1)
    case (Inl e)
    then show ?thesis using assms(3) s w1 by (simp add: run_command_def)
  next
    case (Inr u)
    have "session_ok pd (snd (snd (handle_server_answer c m1 w1)))"
      using same_requests_ok [OF handle_server_answer_requests w1] .
    then show ?thesis
      using assms(3) s Inr count_request_ok by (auto simp: run_command_def split: prod.splits sum.splits)
  qed
qed

end
