(* ===== verification/Loading.thy ===== *)
theory Loading
  imports Storage
begin

text \<open>
  Reading the files of a storage: \<open>load_db\<close>, \<open>load_collection\<close> and \<open>clear\<close>. Each directory loop works
  on the listing taken when it starts. The exceptions of directory iteration are \<open>Filesystem_error\<close>.
\<close>

section \<open>Directory loops\<close>

definition list_dir :: "file_system \<Rightarrow> string \<Rightarrow> (string \<times> fs_entry) list option" where
  "list_dir fs path = (if fs_lookup fs path = Some Dir then Some (children_of fs path) else None)"

text \<open>A loop over the entries; an exception ends it.\<close>

fun each_entry :: "(string \<times> fs_entry \<Rightarrow> 's \<Rightarrow> (db_exn + unit) \<times> 's) \<Rightarrow> (string \<times> fs_entry) list \<Rightarrow> 's \<Rightarrow> (db_exn + unit) \<times> 's" where
  "each_entry f [] s = (Inr (), s)"
| "each_entry f (e # es) s =
     (case f e s of
        (Inl x, s') \<Rightarrow> (Inl x, s')
      | (Inr _, s') \<Rightarrow> each_entry f es s')"

definition for_dir ::
  "db_storage \<Rightarrow> string \<Rightarrow> (string \<times> fs_entry \<Rightarrow> db_storage \<Rightarrow> unit db_result) \<Rightarrow> unit db_result" where
  "for_dir db path f =
     (case list_dir (env_fs (ds_env db)) path of
        None \<Rightarrow> (Inl Filesystem_error, db)
      | Some es \<Rightarrow> each_entry f es db)"

text \<open>The numbers of a configuration file; \<open>None\<close> is a failed stream, also when the file does not open.\<close>

fun read_ints :: "nat \<Rightarrow> string \<Rightarrow> int list option" where
  "read_ints 0 s = Some []"
| "read_ints (Suc n) s =
     (case read_int s of
        None \<Rightarrow> None
      | Some (i, rest) \<Rightarrow> map_option (\<lambda>is. i # is) (read_ints n rest))"

definition read_cfg :: "file_system \<Rightarrow> string \<Rightarrow> nat \<Rightarrow> int list option" where
  "read_cfg fs path n = Option.bind (fs_open_read fs path) (read_ints n)"

text \<open>An \<open>int\<close> passed for a \<open>size_t\<close>.\<close>

definition size_of_int :: "int \<Rightarrow> nat" where
  "size_of_int i = nat (i mod 2 ^ 64)"

section \<open>Loading a collection\<close>

text \<open>
  The loop of \<open>load_collection\<close>. The pointer \<open>login\<close> is never set, so a login that is not empty is
  written through the null pointer, and an empty one leaves the null key. A length that cannot be
  read has no value. A name that is cut short is filled up with its last character, and the loop
  ends with the failed stream. \<open>load\<close> is the call on the collection, and \<open>fuel\<close> bounds the records.
  The name is written into the shared empty string; other holders of that string are not followed.
\<close>

fun load_records ::
  "nat \<Rightarrow> string \<Rightarrow> int \<Rightarrow> (tkey \<Rightarrow> tvalue \<Rightarrow> int \<Rightarrow> 's \<Rightarrow> (db_exn + unit) \<times> 's) \<Rightarrow> 's \<Rightarrow> (db_exn + unit) \<times> 's" where
  "load_records 0 bytes pos load s = (Inl Db_undefined_behaviour, s)"
| "load_records (Suc fuel) bytes pos load s =
     (if int (length bytes) \<le> pos then (Inr (), s)
      else case (read_at bytes pos 8, read_at bytes (pos + 8) 8, read_at bytes (pos + 16) 8) of
        (Some login_len, Some pid, Some name_len) \<Rightarrow>
          if word_of_bytes login_len \<noteq> 0 then (Inl Db_undefined_behaviour, s)
          else
            let n = unat (word_of_bytes name_len);
                found = take n (drop (nat pos + 24) bytes);
                value = (\<lambda>name. \<lparr>personal_id = word_of_bytes pid, tname = Some name\<rparr>) in
            if length found = n then
              (case load None (value found) pos s of
                 (Inl e, s') \<Rightarrow> (Inl e, s')
               | (Inr _, s') \<Rightarrow> load_records fuel bytes (pos + 24 + int n) load s')
            else if found = [] then (Inl Db_undefined_behaviour, s)
            else
              (case load None (value (found @ replicate (n - length found) (last found))) pos s of
                 (Inl e, s') \<Rightarrow> (Inl e, s')
               | (Inr _, s') \<Rightarrow> (Inl (Ios_failure ''Failed to load collection''), s'))
      | _ \<Rightarrow> (Inl Db_undefined_behaviour, s))"

definition load_collection ::
  "db_storage \<Rightarrow> string \<Rightarrow> string \<Rightarrow> string \<Rightarrow> string \<Rightarrow> unit db_result" where
  "load_collection db prefix pool_name schema_name collection_name =
     (let data_path = make_path_strings [prefix, pool_name, schema_name, collection_name, show_nat (unat (get_id db))] in
      case fs_open_read (env_fs (ds_env db)) data_path of
        None \<Rightarrow> (Inl (Ios_failure ''Failed to load collection''), db)
      | Some bytes \<Rightarrow>
          load_records (Suc (length bytes)) bytes 0
            (\<lambda>key value pos db. at_collection db pool_name schema_name collection_name
               (\<lambda>c env. collection_load c env key value pos)) db)"

section \<open>Loading a storage\<close>

text \<open>The innermost loop: the data file of this storage, by its name.\<close>

definition load_tables :: "db_storage \<Rightarrow> string \<Rightarrow> string \<Rightarrow> string \<Rightarrow> string \<Rightarrow> unit db_result" where
  "load_tables db path pool_name schema_name collection_name =
     for_dir db (make_path_strings [path, pool_name, schema_name, collection_name]) (\<lambda>(p, e) db.
       if e = Dir then (Inr (), db)
       else if file_name_of p = show_nat (unat (get_id db))
       then load_collection db path pool_name schema_name collection_name
       else (Inr (), db))"

definition load_collections :: "db_storage \<Rightarrow> string \<Rightarrow> string \<Rightarrow> string \<Rightarrow> unit db_result" where
  "load_collections db path pool_name schema_name =
     for_dir db (make_path_strings [path, pool_name, schema_name]) (\<lambda>(p, e) db.
       let collection_name = file_name_of p;
           cfg_path = make_path_strings [path, pool_name, schema_name, collection_name, ''cfg''] in
       if e \<noteq> Dir \<or> \<not> fs_exists (env_fs (ds_env db)) cfg_path then (Inr (), db)
       else (case read_cfg (env_fs (ds_env db)) cfg_path 4 of
           Some [variant, alloc, fit, t] \<Rightarrow>
             (case add_collection db pool_name schema_name collection_name (tree_variant_of_int variant)
                     (allocator_variant_of_int alloc) (fit_mode_of_int fit) (size_of_int t) of
                (Inl x, db1) \<Rightarrow> (Inl x, db1)
              | (Inr _, db1) \<Rightarrow> load_tables db1 path pool_name schema_name collection_name)
         | _ \<Rightarrow> (Inl (Load_failure ''invalid configs''), db)))"

definition load_schemas :: "db_storage \<Rightarrow> string \<Rightarrow> string \<Rightarrow> unit db_result" where
  "load_schemas db path pool_name =
     for_dir db (make_path_strings [path, pool_name]) (\<lambda>(p, e) db.
       let schema_name = file_name_of p;
           cfg_path = make_path_strings [path, pool_name, schema_name, ''cfg''] in
       if e \<noteq> Dir \<or> \<not> fs_exists (env_fs (ds_env db)) cfg_path then (Inr (), db)
       else (case read_cfg (env_fs (ds_env db)) cfg_path 2 of
           Some [variant, t] \<Rightarrow>
             (case add_schema db pool_name schema_name (tree_variant_of_int variant) (size_of_int t) of
                (Inl x, db1) \<Rightarrow> (Inl x, db1)
              | (Inr _, db1) \<Rightarrow> load_collections db1 path pool_name schema_name)
         | _ \<Rightarrow> (Inl (Load_failure ''invalid configs''), db)))"

definition load_pools :: "db_storage \<Rightarrow> string \<Rightarrow> unit db_result" where
  "load_pools db path =
     for_dir db path (\<lambda>(p, e) db.
       let pool_name = file_name_of p;
           cfg_path = make_path_strings [path, pool_name, ''cfg''] in
       if e \<noteq> Dir \<or> \<not> fs_exists (env_fs (ds_env db)) cfg_path then (Inr (), db)
       else (case read_cfg (env_fs (ds_env db)) cfg_path 2 of
           Some [variant, t] \<Rightarrow>
             (case add_pool db pool_name (tree_variant_of_int variant) (size_of_int t) of
                (Inl x, db1) \<Rightarrow> (Inl x, db1)
              | (Inr _, db1) \<Rightarrow> load_schemas db1 path pool_name)
         | _ \<Rightarrow> (Inl (Load_failure ''invalid configs''), db)))"

definition load_db :: "db_storage \<Rightarrow> string \<Rightarrow> unit db_result" where
  "load_db db path =
     (if \<not> fs_exists (env_fs (ds_env db)) path then (Inl Invalid_path, db)
      else case load_pools db path of
        (Inl e, db1) \<Rightarrow> (Inl e, db1)
      | (Inr _, db1) \<Rightarrow>
          (case db_consolidate db1 of
             (Inl e, db2) \<Rightarrow> if is_ios_failure e then (Inr (), db2) else (Inl e, db2)
           | (Inr _, db2) \<Rightarrow> (Inr (), db2)))"

section \<open>Clearing\<close>

text \<open>\<open>clear\<close> deletes the data files of this storage under \<open>pools\<close>; the trees stay as they are.\<close>

definition clear_below :: "db_storage \<Rightarrow> string list \<Rightarrow> (db_storage \<Rightarrow> string list \<Rightarrow> unit db_result) \<Rightarrow> unit db_result" where
  "clear_below db names continue =
     for_dir db (make_path_strings names) (\<lambda>(p, e) db.
       let names' = names @ [file_name_of p] in
       if e \<noteq> Dir \<or> \<not> fs_exists (env_fs (ds_env db)) (make_path_strings (names' @ [''cfg''])) then (Inr (), db)
       else continue db names')"

definition clear_tables :: "db_storage \<Rightarrow> string list \<Rightarrow> unit db_result" where
  "clear_tables db names =
     for_dir db (make_path_strings names) (\<lambda>(p, e) db.
       if e = Dir then (Inr (), db)
       else if file_name_of p = show_nat (unat (get_id db)) then (Inr (), with_fs db (fs_remove (env_fs (ds_env db)) p))
       else (Inr (), db))"

definition clear_db :: "db_storage \<Rightarrow> unit db_result" where
  "clear_db db =
     (if env_mode (ds_env db) = In_memory_cache \<or> \<not> fs_exists (env_fs (ds_env db)) ''pools'' then (Inr (), db)
      else clear_below db [''pools''] (\<lambda>db names.
             clear_below db names (\<lambda>db names.
               clear_below db names clear_tables)))"

end
