(* ===== verification/Storage_Server.thy ===== *)
theory Storage_Server
  imports Ipc_Data Loading
begin

text \<open>
  \<open>db_storage_server.cpp\<close>: the process around one storage. It takes the messages of its own type from the
  queue, calls the storage and answers with a status for each exception that the command catches. An
  exception that it does not catch ends the process. The logger and the pool of shared strings are
  left out.
\<close>

section \<open>State and exceptions\<close>

record storage_server =
  srv_db :: db_storage
  srv_is_setup :: bool
  srv_run :: bool

text \<open>What handling a message leads to: the messages that are sent, or the exception that is not caught.\<close>

type_synonym srv_result = "(db_exn + strg_msg list) \<times> storage_server"

definition with_db :: "storage_server \<Rightarrow> db_storage \<Rightarrow> storage_server" where
  "with_db s db = s\<lparr>srv_db := db\<rparr>"

text \<open>The end of a command: the answer, or what the handlers of the command make of the exception.\<close>

definition answer ::
  "storage_server \<Rightarrow> strg_msg \<Rightarrow> (db_exn \<Rightarrow> command_status option) \<Rightarrow> (db_exn + strg_msg) \<times> db_storage \<Rightarrow> srv_result" where
  "answer s msg caught r =
     (case r of
        (Inr msg', db) \<Rightarrow> (Inr [msg'], with_db s db)
      | (Inl e, db) \<Rightarrow>
          (case caught e of
             Some st \<Rightarrow> (Inr [msg\<lparr>status := st\<rparr>], with_db s db)
           | None \<Rightarrow> (Inl e, with_db s db)))"

text \<open>A result of the storage as a message.\<close>

definition fill :: "'a db_result \<Rightarrow> ('a \<Rightarrow> strg_msg option) \<Rightarrow> (db_exn + strg_msg) \<times> db_storage" where
  "fill r f =
     (case r of
        (Inl e, db) \<Rightarrow> (Inl e, db)
      | (Inr x, db) \<Rightarrow> (case f x of None \<Rightarrow> (Inl Db_undefined_behaviour, db) | Some m \<Rightarrow> (Inr m, db)))"

definition server_new :: "db_storage \<Rightarrow> storage_server" where
  "server_new db = \<lparr>srv_db = db, srv_is_setup = False, srv_run = True\<rparr>"

section \<open>Setting up and ending\<close>

definition handle_set_in_memory_cache_mode :: "storage_server \<Rightarrow> strg_msg \<Rightarrow> srv_result" where
  "handle_set_in_memory_cache_mode s msg =
     (let msg = msg\<lparr>mtype := MANAGER_SERVER_STORAGE_ADDITION_PRIOR\<rparr> in
      if srv_is_setup s then (Inr [msg\<lparr>status := ATTEMPT_TO_CHANGE_SETUP\<rparr>], s)
      else (case setup_db (srv_db s) (extra_value msg) In_memory_cache of
        (Inl e, db) \<Rightarrow> (Inl e, with_db s db)
      | (Inr _, db) \<Rightarrow> (Inr [msg], with_db s db)))"

definition setup_caught :: "db_exn \<Rightarrow> command_status option" where
  "setup_caught e =
     (case e of
        Setup_failure _ \<Rightarrow> Some FAILED_TO_SETUP_STORAGE_SERVER
      | Invalid_path \<Rightarrow> Some FAILED_TO_SETUP_STORAGE_SERVER
      | Ios_failure _ \<Rightarrow> Some FAILED_TO_SETUP_STORAGE_SERVER
      | _ \<Rightarrow> None)"

definition handle_set_file_system_mode :: "storage_server \<Rightarrow> strg_msg \<Rightarrow> srv_result" where
  "handle_set_file_system_mode s msg =
     (let msg = msg\<lparr>mtype := MANAGER_SERVER_STORAGE_ADDITION_PRIOR\<rparr> in
      if srv_is_setup s then (Inr [msg\<lparr>status := ATTEMPT_TO_CHANGE_SETUP\<rparr>], s)
      else answer s msg setup_caught
        (case setup_db (srv_db s) (extra_value msg) File_system of
           (Inl e, db) \<Rightarrow> (Inl e, db)
         | (Inr _, db) \<Rightarrow> fill (load_db db ''pools'') (\<lambda>_. Some msg)))"

definition handle_shutdown :: "storage_server \<Rightarrow> srv_result" where
  "handle_shutdown s = (Inr [], s\<lparr>srv_run := False\<rparr>)"

text \<open>The case of \<open>END_SETUP\<close> has no \<open>break\<close>: it goes on with that of \<open>SHUTDOWN\<close>.\<close>

definition handle_end_setup :: "storage_server \<Rightarrow> srv_result" where
  "handle_end_setup s = handle_shutdown (s\<lparr>srv_is_setup := True\<rparr>)"

definition handle_terminate :: "storage_server \<Rightarrow> srv_result" where
  "handle_terminate s =
     (case clear_db (srv_db s) of
        (Inl e, db) \<Rightarrow> (Inl e, with_db (s\<lparr>srv_run := False\<rparr>) db)
      | (Inr _, db) \<Rightarrow> (Inr [], with_db (s\<lparr>srv_run := False\<rparr>) db))"

text \<open>The handler of the missing path throws the exception again.\<close>

definition handle_get_records_cnt :: "storage_server \<Rightarrow> strg_msg \<Rightarrow> srv_result" where
  "handle_get_records_cnt s msg =
     (case db_get_collection_records_cnt (srv_db s) (pool_name msg) (schema_name msg) (collection_name msg) of
        (Inl e, db) \<Rightarrow> (Inl e, with_db s db)
      | (Inr n, db) \<Rightarrow>
          (Inr [msg\<lparr>mtype := MANAGER_SERVER_STORAGE_GETTING_RECORDS_CNT_PRIOR, extra_value := n\<rparr>], with_db s db))"

section \<open>Structures\<close>

text \<open>
  The handlers of the three additions and of the three disposals; every duplicate is reported as
  one of a pool, every missing structure as a missing pool.
\<close>

definition add_struct_caught :: "db_exn \<Rightarrow> command_status option" where
  "add_struct_caught e =
     (case e of
        Setup_failure _ \<Rightarrow> Some FAILED_TO_ADD_STRUCT
      | Invalid_struct_name \<Rightarrow> Some INVALID_STRUCT_NAME
      | Too_big_struct_name \<Rightarrow> Some TOO_BIG_STRUCT_NAME
      | Insertion_of_existent_struct \<Rightarrow> Some ATTEMPT_TO_ADD_POOL_DUBLICATE
      | Insertion_of_struct_failure \<Rightarrow> Some FAILED_TO_ADD_STRUCT
      | Db_bad_alloc \<Rightarrow> Some BAD_ALLOC
      | Invalid_path \<Rightarrow> Some INVALID_PATH
      | _ \<Rightarrow> None)"

definition dispose_struct_caught :: "db_exn \<Rightarrow> command_status option" where
  "dispose_struct_caught e =
     (case e of
        Setup_failure _ \<Rightarrow> Some FAILED_TO_DISPOSE_STRUCT
      | Invalid_path \<Rightarrow> Some INVALID_PATH
      | Disposal_of_nonexistent_struct \<Rightarrow> Some POOL_DOES_NOT_EXIST
      | _ \<Rightarrow> None)"

definition handle_add_pool :: "storage_server \<Rightarrow> strg_msg \<Rightarrow> srv_result" where
  "handle_add_pool s msg =
     (let msg = msg\<lparr>mtype := MANAGER_SERVER_STRUCT_ADDITION_PRIOR\<rparr> in
      answer s msg add_struct_caught
        (fill (add_pool (srv_db s) (pool_name msg) (tree_variant msg) (t_for_b_trees msg)) (\<lambda>_. Some msg)))"

definition handle_add_schema :: "storage_server \<Rightarrow> strg_msg \<Rightarrow> srv_result" where
  "handle_add_schema s msg =
     (let msg = msg\<lparr>mtype := MANAGER_SERVER_STRUCT_ADDITION_PRIOR\<rparr> in
      answer s msg add_struct_caught
        (fill (add_schema (srv_db s) (pool_name msg) (schema_name msg) (tree_variant msg) (t_for_b_trees msg))
          (\<lambda>_. Some msg)))"

definition handle_add_collection :: "storage_server \<Rightarrow> strg_msg \<Rightarrow> srv_result" where
  "handle_add_collection s msg =
     (let msg = msg\<lparr>mtype := MANAGER_SERVER_STRUCT_ADDITION_PRIOR\<rparr> in
      answer s msg add_struct_caught
        (fill (add_collection (srv_db s) (pool_name msg) (schema_name msg) (collection_name msg) (tree_variant msg)
                 (alloc_variant msg) (alloc_fit_mode msg) (t_for_b_trees msg))
          (\<lambda>_. Some msg)))"

definition handle_dispose_pool :: "storage_server \<Rightarrow> strg_msg \<Rightarrow> srv_result" where
  "handle_dispose_pool s msg =
     (let msg' = msg\<lparr>mtype := MANAGER_SERVER_STRUCT_DISPOSAL_PRIOR, schema_name := [], collection_name := []\<rparr> in
      answer s msg' dispose_struct_caught (fill (dispose_pool (srv_db s) (pool_name msg)) (\<lambda>_. Some msg')))"

definition handle_dispose_schema :: "storage_server \<Rightarrow> strg_msg \<Rightarrow> srv_result" where
  "handle_dispose_schema s msg =
     (let msg' = msg\<lparr>mtype := MANAGER_SERVER_STRUCT_DISPOSAL_PRIOR, schema_name := []\<rparr> in
      answer s msg' dispose_struct_caught
        (fill (dispose_schema (srv_db s) (pool_name msg) (schema_name msg)) (\<lambda>_. Some msg')))"

definition handle_dispose_collection :: "storage_server \<Rightarrow> strg_msg \<Rightarrow> srv_result" where
  "handle_dispose_collection s msg =
     (let msg' = msg\<lparr>mtype := MANAGER_SERVER_STRUCT_DISPOSAL_PRIOR\<rparr> in
      answer s msg' dispose_struct_caught
        (fill (dispose_collection (srv_db s) (pool_name msg) (schema_name msg) (collection_name msg)) (\<lambda>_. Some msg')))"

section \<open>Records\<close>

definition msg_key :: "strg_msg \<Rightarrow> tkey" where
  "msg_key msg = Some (login msg)"

definition msg_value :: "strg_msg \<Rightarrow> tvalue" where
  "msg_value msg = tvalue_of_flyweight (hashed_password msg) (Some (value_name msg))"

text \<open>Copying a value, or a key with its value, into the message. A null name or key is dereferenced.\<close>

definition put_value :: "strg_msg \<Rightarrow> tvalue \<Rightarrow> strg_msg option" where
  "put_value msg v =
     (case tname v of
        None \<Rightarrow> None
      | Some n \<Rightarrow> map_option (\<lambda>n. msg\<lparr>hashed_password := personal_id v, value_name := n\<rparr>) (strcpy MSG_NAME_SIZE n))"

definition put_record :: "strg_msg \<Rightarrow> tkey \<times> tvalue \<Rightarrow> strg_msg option" where
  "put_record msg kv =
     (case kv of
        (None, v) \<Rightarrow> None
      | (Some k, v) \<Rightarrow> Option.bind (strcpy MSG_KEY_SIZE k) (\<lambda>k. put_value (msg\<lparr>login := k\<rparr>) v))"

definition add_caught :: "db_exn \<Rightarrow> command_status option" where
  "add_caught e =
     (case e of
        Setup_failure _ \<Rightarrow> Some FAILED_TO_INSERT_KEY
      | Invalid_struct_name \<Rightarrow> Some INVALID_STRUCT_NAME
      | Invalid_path \<Rightarrow> Some INVALID_PATH
      | Db_insertion_of_existent_key \<Rightarrow> Some ATTEMPT_TO_INSERT_EXISTENT_KEY
      | Db_bad_alloc \<Rightarrow> Some BAD_ALLOC
      | Ios_failure _ \<Rightarrow> Some FAILED_TO_INSERT_KEY
      | _ \<Rightarrow> None)"

definition update_caught :: "db_exn \<Rightarrow> command_status option" where
  "update_caught e =
     (case e of
        Setup_failure _ \<Rightarrow> Some FAILED_TO_UPDATE_KEY
      | Invalid_struct_name \<Rightarrow> Some INVALID_STRUCT_NAME
      | Invalid_path \<Rightarrow> Some INVALID_PATH
      | Db_updating_of_nonexistent_key \<Rightarrow> Some ATTEMPT_TO_UPDATE_NONEXISTENT_KEY
      | Db_bad_alloc \<Rightarrow> Some BAD_ALLOC
      | Ios_failure _ \<Rightarrow> Some FAILED_TO_UPDATE_KEY
      | _ \<Rightarrow> None)"

definition dispose_caught :: "db_exn \<Rightarrow> command_status option" where
  "dispose_caught e =
     (case e of
        Setup_failure _ \<Rightarrow> Some FAILED_TO_DISPOSE_KEY
      | Invalid_struct_name \<Rightarrow> Some INVALID_STRUCT_NAME
      | Invalid_path \<Rightarrow> Some INVALID_PATH
      | Db_disposal_of_nonexistent_key \<Rightarrow> Some ATTEMPT_TO_DISPOSE_NONEXISTENT_KEY
      | Ios_failure _ \<Rightarrow> Some FAILED_TO_DISPOSE_KEY
      | _ \<Rightarrow> None)"

definition obtain_caught :: "db_exn \<Rightarrow> command_status option" where
  "obtain_caught e =
     (case e of
        Setup_failure _ \<Rightarrow> Some FAILED_TO_OBTAIN_KEY
      | Invalid_struct_name \<Rightarrow> Some INVALID_STRUCT_NAME
      | Invalid_path \<Rightarrow> Some INVALID_PATH
      | Db_obtaining_of_nonexistent_key \<Rightarrow> Some ATTTEMT_TO_OBTAIN_NONEXISTENT_KEY
      | Ios_failure _ \<Rightarrow> Some FAILED_TO_OBTAIN_KEY
      | _ \<Rightarrow> None)"

text \<open>The handlers around \<open>OBTAIN_BETWEEN\<close> do not know the exception for a missing key.\<close>

definition obtain_between_caught :: "db_exn \<Rightarrow> command_status option" where
  "obtain_between_caught e =
     (case e of
        Setup_failure _ \<Rightarrow> Some FAILED_TO_OBTAIN_KEY
      | Invalid_struct_name \<Rightarrow> Some INVALID_STRUCT_NAME
      | Invalid_path \<Rightarrow> Some INVALID_PATH
      | Ios_failure _ \<Rightarrow> Some FAILED_TO_OBTAIN_KEY
      | _ \<Rightarrow> None)"

definition handle_add :: "storage_server \<Rightarrow> strg_msg \<Rightarrow> srv_result" where
  "handle_add s msg =
     answer s msg add_caught
       (fill (db_add (srv_db s) (pool_name msg) (schema_name msg) (collection_name msg) (msg_key msg) (msg_value msg))
         (\<lambda>_. Some msg))"

definition handle_update :: "storage_server \<Rightarrow> strg_msg \<Rightarrow> srv_result" where
  "handle_update s msg =
     answer s msg update_caught
       (fill (db_update (srv_db s) (pool_name msg) (schema_name msg) (collection_name msg) (msg_key msg) (msg_value msg))
         (\<lambda>_. Some msg))"

definition handle_dispose :: "storage_server \<Rightarrow> strg_msg \<Rightarrow> srv_result" where
  "handle_dispose s msg =
     answer s msg dispose_caught
       (fill (db_dispose (srv_db s) (pool_name msg) (schema_name msg) (collection_name msg) (msg_key msg))
         (put_value msg))"

definition handle_obtain :: "storage_server \<Rightarrow> strg_msg \<Rightarrow> srv_result" where
  "handle_obtain s msg =
     answer s msg obtain_caught
       (fill (db_obtain (srv_db s) (pool_name msg) (schema_name msg) (collection_name msg) (msg_key msg))
         (put_value msg))"

definition handle_obtain_min :: "storage_server \<Rightarrow> strg_msg \<Rightarrow> srv_result" where
  "handle_obtain_min s msg =
     answer s msg obtain_caught
       (fill (db_obtain_min (srv_db s) (pool_name msg) (schema_name msg) (collection_name msg)) (put_record msg))"

definition handle_obtain_max :: "storage_server \<Rightarrow> strg_msg \<Rightarrow> srv_result" where
  "handle_obtain_max s msg =
     answer s msg obtain_caught
       (fill (db_obtain_max (srv_db s) (pool_name msg) (schema_name msg) (collection_name msg)) (put_record msg))"

definition handle_obtain_next :: "storage_server \<Rightarrow> strg_msg \<Rightarrow> srv_result" where
  "handle_obtain_next s msg =
     answer s msg obtain_caught
       (fill (db_obtain_next (srv_db s) (pool_name msg) (schema_name msg) (collection_name msg) (msg_key msg))
         (put_record msg))"

text \<open>
  The range: one message for each record, the status of the last one marks the end. The message
  is the one of the record before, with the new record in it.
\<close>

fun range_msgs :: "strg_msg \<Rightarrow> (tkey \<times> tvalue) list \<Rightarrow> strg_msg list option" where
  "range_msgs msg [] = Some []"
| "range_msgs msg (kv # kvs) =
     Option.bind (put_record (if kvs = [] then msg\<lparr>status := OBTAIN_BETWEEN_END\<rparr> else msg) kv)
       (\<lambda>m. map_option (\<lambda>ms. m # ms) (range_msgs m kvs))"

text \<open>The left bound is looked up first, as if it had to be a key.\<close>

definition obtain_range :: "db_storage \<Rightarrow> strg_msg \<Rightarrow> (db_exn + (tkey \<times> tvalue) list) \<times> strg_msg \<times> db_storage" where
  "obtain_range db msg =
     (case fill (db_obtain db (pool_name msg) (schema_name msg) (collection_name msg) (msg_key msg)) (put_value msg) of
        (Inl e, db1) \<Rightarrow> (Inl e, msg, db1)
      | (Inr msg1, db1) \<Rightarrow>
          (case db_obtain_between db1 (pool_name msg) (schema_name msg) (collection_name msg) (msg_key msg)
                  (Some (right_boundary_login msg)) True True of
             (r, db2) \<Rightarrow> (r, msg1, db2)))"

definition handle_obtain_between :: "storage_server \<Rightarrow> strg_msg \<Rightarrow> srv_result" where
  "handle_obtain_between s msg =
     (case obtain_range (srv_db s) msg of
        (Inl e, msg1, db) \<Rightarrow>
          if obtain_between_caught e = None then (Inl e, with_db s db)
          else (Inr [msg1\<lparr>status := ATTTEMT_TO_OBTAIN_NONEXISTENT_KEY\<rparr>], with_db s db)
      | (Inr kvs, msg1, db) \<Rightarrow>
          if kvs = [] then (Inr [msg1\<lparr>status := ATTTEMT_TO_OBTAIN_NONEXISTENT_KEY\<rparr>], with_db s db)
          else (case range_msgs msg1 kvs of
            None \<Rightarrow> (Inl Db_undefined_behaviour, with_db s db)
          | Some ms \<Rightarrow> (Inr ms, with_db s db)))"

section \<open>One round of the loop\<close>

definition handle_msg :: "storage_server \<Rightarrow> strg_msg \<Rightarrow> srv_result" where
  "handle_msg s msg0 =
     (let msg = msg0\<lparr>mtype := MANAGER_SERVER_STORAGE_ANSWER_PRIOR, status := OK\<rparr> in
      case cmd msg of
        SET_IN_MEMORY_CACHE_MODE \<Rightarrow> handle_set_in_memory_cache_mode s msg
      | SET_FILE_SYSTEM_MODE \<Rightarrow> handle_set_file_system_mode s msg
      | END_SETUP \<Rightarrow> handle_end_setup s
      | SHUTDOWN \<Rightarrow> handle_shutdown s
      | TERMINATE \<Rightarrow> handle_terminate s
      | GET_RECORDS_CNT \<Rightarrow> handle_get_records_cnt s msg
      | ADD_POOL \<Rightarrow> handle_add_pool s msg
      | ADD_SCHEMA \<Rightarrow> handle_add_schema s msg
      | ADD_COLLECTION \<Rightarrow> handle_add_collection s msg
      | DISPOSE_POOL \<Rightarrow> handle_dispose_pool s msg
      | DISPOSE_SCHEMA \<Rightarrow> handle_dispose_schema s msg
      | DISPOSE_COLLECTION \<Rightarrow> handle_dispose_collection s msg
      | ADD \<Rightarrow> handle_add s msg
      | UPDATE \<Rightarrow> handle_update s msg
      | DISPOSE \<Rightarrow> handle_dispose s msg
      | OBTAIN \<Rightarrow> handle_obtain s msg
      | OBTAIN_BETWEEN \<Rightarrow> handle_obtain_between s msg
      | OBTAIN_MIN \<Rightarrow> handle_obtain_min s msg
      | OBTAIN_MAX \<Rightarrow> handle_obtain_max s msg
      | OBTAIN_NEXT \<Rightarrow> handle_obtain_next s msg
      | _ \<Rightarrow> (Inr [], s))"

text \<open>The process after its loop: the storage is consolidated once more.\<close>

definition finish_server :: "storage_server \<Rightarrow> (db_exn + unit) \<times> storage_server" where
  "finish_server s = (case db_consolidate (srv_db s) of (r, db) \<Rightarrow> (r, with_db s db))"

end
