(* ===== verification/Manager_Server.thy ===== *)
theory Manager_Server
  imports Storage_Server
begin

text \<open>
  \<open>manager_server.cpp\<close>: the process that routes the messages of the clients to the storage servers. Each
  collection is split among the servers by separators, one less than there are servers.

  The world holds the queue, the storage servers and a schedule. Every time that the manager
  waits, one entry of the schedule tells what the other processes do before the next look into the
  queue: a storage server handles a message, or a message of a client arrives. The processes that
  \<open>fork\<close> will start are \<open>w_spawned\<close>, each with a storage \<open>w_fresh\<close>. \<open>w_junk\<close> is what an uninitialised
  message holds. Output, the thread that reads the terminal and the sleeping are left out.
\<close>

section \<open>The world\<close>

datatype event = Serve int | Arrive strg_msg

record world =
  w_queue :: msg_queue
  w_servers :: "int \<Rightarrow> storage_server option"
  w_schedule :: "event list list"
  w_spawned :: "int option list"
  w_fresh :: storage_server
  w_files :: file_system
  w_self :: int
  w_junk :: strg_msg

text \<open>
  A storage server takes a message of its own type. A process that throws, or that has left its loop
  and has finished, is gone.
\<close>

definition serve :: "int \<Rightarrow> world \<Rightarrow> world" where
  "serve p w =
     (case w_servers w p of
        None \<Rightarrow> w
      | Some s \<Rightarrow>
          (case msgrcv (w_queue w) p of
             None \<Rightarrow> w
           | Some (m, q) \<Rightarrow>
               (case handle_msg s m of
                  (Inl e, s') \<Rightarrow> w\<lparr>w_queue := q, w_servers := (w_servers w)(p := None)\<rparr>
                | (Inr ms, s') \<Rightarrow>
                    w\<lparr>w_queue := q @ ms, w_servers := (w_servers w)(p := if srv_run s' then Some s' else None)\<rparr>)))"

fun happen :: "event \<Rightarrow> world \<Rightarrow> world" where
  "happen (Serve p) w = serve p w"
| "happen (Arrive m) w = w\<lparr>w_queue := w_queue w @ [m]\<rparr>"

definition others_run :: "world \<Rightarrow> world" where
  "others_run w =
     (case w_schedule w of [] \<Rightarrow> w | es # rest \<Rightarrow> fold happen es (w\<lparr>w_schedule := rest\<rparr>))"

definition send :: "world \<Rightarrow> strg_msg \<Rightarrow> world" where
  "send w m = w\<lparr>w_queue := msgsnd (w_queue w) m\<rparr>"

text \<open>\<open>msgrcvt\<close>: up to \<open>max_counter\<close> looks into the queue; \<open>None\<close> is the result -1.\<close>

fun msgrcvt :: "nat \<Rightarrow> int \<Rightarrow> world \<Rightarrow> strg_msg option \<times> world" where
  "msgrcvt 0 mtypes w = (None, w)"
| "msgrcvt (Suc max_counter) mtypes w =
     (let w1 = others_run w in
      case msgrcv (w_queue w1) mtypes of
        Some (m, q) \<Rightarrow> (Some m, w1\<lparr>w_queue := q\<rparr>)
      | None \<Rightarrow> msgrcvt max_counter mtypes w1)"

text \<open>Sending a message and waiting for an answer: the message that the variable then holds.\<close>

definition ask :: "nat \<Rightarrow> int \<Rightarrow> strg_msg \<Rightarrow> world \<Rightarrow> bool \<times> strg_msg \<times> world" where
  "ask max_counter mtypes m w =
     (case msgrcvt max_counter mtypes (send w m) of
        (None, w') \<Rightarrow> (False, m, w')
      | (Some m', w') \<Rightarrow> (True, m', w'))"

section \<open>State of the manager\<close>

type_synonym db_path = "string \<times> string \<times> string"

definition db_path_less :: "db_path \<Rightarrow> db_path \<Rightarrow> bool" where
  "db_path_less lhs rhs =
     (case (lhs, rhs) of
        ((pool, schema, coll), (pool', schema', coll')) \<Rightarrow>
          if pool \<noteq> pool' then pool < pool' else if schema \<noteq> schema' then schema < schema' else coll < coll')"

text \<open>\<open>std::map<db_path, std::vector<std::string>>\<close> in the order of its iterators.\<close>

type_synonym separator_map = "(db_path \<times> string list) list"

fun map_assign :: "db_path \<Rightarrow> string list \<Rightarrow> separator_map \<Rightarrow> separator_map" where
  "map_assign p v [] = [(p, v)]"
| "map_assign p v ((q, u) # m) =
     (if p = q then (p, v) # m else if db_path_less p q then (p, v) # (q, u) # m else (q, u) # map_assign p v m)"

definition map_erase :: "db_path \<Rightarrow> separator_map \<Rightarrow> separator_map" where
  "map_erase p m = filter (\<lambda>e. fst e \<noteq> p) m"

record manager =
  mg_servers :: "int list"
  mg_separators :: separator_map
  mg_changes :: nat
  mg_run :: bool

text \<open>\<open>std::string(MSG_KEY_SIZE, 127)\<close>, above every key.\<close>

definition last_separator :: string where
  "last_separator = replicate MSG_KEY_SIZE (CHR 0x7F)"

definition msg_path :: "strg_msg \<Rightarrow> db_path" where
  "msg_path m = (pool_name m, schema_name m, collection_name m)"

text \<open>The exceptions of a handler, \<open>std::runtime_error\<close> and the \<open>std::out_of_range\<close> of \<open>at\<close>.\<close>

datatype manager_exn = Mg_runtime_error string | Mg_out_of_range | Mg_undefined

text \<open>A message to a path; \<open>getpid\<close> is the number of the manager.\<close>

definition with_path :: "db_path \<Rightarrow> strg_msg \<Rightarrow> strg_msg" where
  "with_path p m = (case p of (pool, schema, coll) \<Rightarrow> m\<lparr>pool_name := pool, schema_name := schema, collection_name := coll\<rparr>)"

section \<open>Routing\<close>

fun count_below :: "string list \<Rightarrow> string \<Rightarrow> nat" where
  "count_below [] key = 0"
| "count_below (s # ss) key = (if 0 \<le> tkey_comparer_string key s then Suc (count_below ss key) else 0)"

definition get_id_for_key :: "separator_map \<Rightarrow> db_path \<Rightarrow> string \<Rightarrow> nat option" where
  "get_id_for_key separators path key =
     (if separators = [] then Some 0
      else map_option (\<lambda>v. count_below v key) (map_of separators path))"

definition vec_at :: "'a list \<Rightarrow> nat \<Rightarrow> 'a option" where
  "vec_at xs i = (if i < length xs then Some (xs ! i) else None)"

definition handle_data_command :: "manager \<Rightarrow> strg_msg \<Rightarrow> world \<Rightarrow> (manager_exn + unit) \<times> world" where
  "handle_data_command mg msg w =
     (if status msg = CLIENT then
        if mg_servers mg = [] then
          (Inr (), send w (msg\<lparr>mtype := pid msg, status := FAILED_TO_PERFORM_DATA_COMMAND\<rparr>))
        else
          (case Option.bind (get_id_for_key (mg_separators mg) (msg_path msg) (login msg)) (vec_at (mg_servers mg)) of
             None \<Rightarrow> (Inl Mg_out_of_range, w)
           | Some p \<Rightarrow> (Inr (), send w (msg\<lparr>mtype := p\<rparr>)))
      else (Inr (), send w (msg\<lparr>mtype := pid msg\<rparr>)))"

text \<open>The loop \<open>for (id = left_id; id <= right_id; ++id)\<close>.\<close>

fun send_each :: "int list \<Rightarrow> strg_msg \<Rightarrow> nat \<Rightarrow> nat \<Rightarrow> world \<Rightarrow> (manager_exn + unit) \<times> world" where
  "send_each servers msg i 0 w = (Inr (), w)"
| "send_each servers msg i (Suc n) w =
     (case vec_at servers i of
        None \<Rightarrow> (Inl Mg_out_of_range, w)
      | Some p \<Rightarrow> send_each servers msg (i + 1) n (send w (msg\<lparr>mtype := p\<rparr>)))"

definition handle_obtain_between_command :: "manager \<Rightarrow> strg_msg \<Rightarrow> world \<Rightarrow> (manager_exn + unit) \<times> world" where
  "handle_obtain_between_command mg msg w =
     (if status msg = CLIENT then
        if mg_servers mg = [] then
          (Inr (), send w (msg\<lparr>mtype := pid msg, status := FAILED_TO_PERFORM_DATA_COMMAND\<rparr>))
        else
          (case (get_id_for_key (mg_separators mg) (msg_path msg) (login msg),
                 get_id_for_key (mg_separators mg) (msg_path msg) (right_boundary_login msg)) of
             (Some left_id, Some right_id) \<Rightarrow>
               send_each (mg_servers mg)
                 (msg\<lparr>extra_value := of_nat right_id - of_nat left_id + 1\<rparr>) left_id (Suc right_id - left_id) w
           | _ \<Rightarrow> (Inl Mg_out_of_range, w))
      else (Inr (), send w (msg\<lparr>mtype := pid msg\<rparr>)))"

section \<open>Structures\<close>

text \<open>One question for each storage server, up to the first that fails: its place and the message at hand.\<close>

fun ask_each :: "int list \<Rightarrow> nat \<Rightarrow> strg_msg \<Rightarrow> world \<Rightarrow> (nat \<times> strg_msg + strg_msg) \<times> world" where
  "ask_each [] i msg w = (Inr msg, w)"
| "ask_each (p # ps) i msg w =
     (case ask 20 MANAGER_SERVER_STRUCT_ADDITION_PRIOR (msg\<lparr>mtype := p\<rparr>) w of
        (rcv, m, w1) \<Rightarrow> if \<not> rcv \<or> status m \<noteq> OK then (Inl (i, m), w1) else ask_each ps (i + 1) m w1)"

definition disposal_of :: "command \<Rightarrow> command" where
  "disposal_of c =
     (case c of ADD_POOL \<Rightarrow> DISPOSE_POOL | ADD_SCHEMA \<Rightarrow> DISPOSE_SCHEMA | ADD_COLLECTION \<Rightarrow> DISPOSE_COLLECTION | _ \<Rightarrow> c)"

text \<open>\<open>for (size_t j = i; j > 0; ++i)\<close>: the loop does not change \<open>j\<close>.\<close>

partial_function (option) undo_loop :: "int list \<Rightarrow> nat \<Rightarrow> strg_msg \<Rightarrow> world \<Rightarrow> (strg_msg \<times> world) option" where
  "undo_loop servers j msg w =
     (if 0 < j then
        (case ask 20 MANAGER_SERVER_STRUCT_DISPOSAL_PRIOR (msg\<lparr>status := OK, mtype := servers ! (j - 1)\<rparr>) w of
           (rcv, m, w1) \<Rightarrow> undo_loop servers j m w1)
      else Some (msg, w))"

definition handle_add_struct_command :: "manager \<Rightarrow> strg_msg \<Rightarrow> world \<Rightarrow> (manager \<times> world) option" where
  "handle_add_struct_command mg msg w =
     (if mg_servers mg = [] then Some (mg, send w (msg\<lparr>mtype := pid msg, status := FAILED_TO_ADD_STRUCT\<rparr>))
      else case ask_each (mg_servers mg) 0 msg w of
        (Inl (i, m), w1) \<Rightarrow>
          let old_status = (if status m \<noteq> OK then status m else FAILED_TO_ADD_STRUCT) in
          map_option
            (\<lambda>(m2, w2). (mg, send w2 (m2\<lparr>mtype := pid m2, cmd := cmd m, status := old_status\<rparr>)))
            (undo_loop (mg_servers mg) i (m\<lparr>cmd := disposal_of (cmd m)\<rparr>) w1)
      | (Inr m, w1) \<Rightarrow>
          let mg1 = (if cmd m = ADD_COLLECTION
                     then mg\<lparr>mg_separators := map_assign (msg_path m)
                               (replicate (length (mg_servers mg) - 1) last_separator) (mg_separators mg)\<rparr>
                     else mg) in
          Some (mg1, send w1 (m\<lparr>mtype := pid m, status := OK\<rparr>)))"

text \<open>The disposal goes on after a failure.\<close>

fun tell_each :: "int list \<Rightarrow> strg_msg \<Rightarrow> world \<Rightarrow> strg_msg \<times> world" where
  "tell_each [] msg w = (msg, w)"
| "tell_each (p # ps) msg w =
     (case ask 20 MANAGER_SERVER_STRUCT_DISPOSAL_PRIOR (msg\<lparr>mtype := p\<rparr>) w of (rcv, m, w1) \<Rightarrow> tell_each ps m w1)"

definition handle_dispose_struct_command :: "manager \<Rightarrow> strg_msg \<Rightarrow> world \<Rightarrow> manager \<times> world" where
  "handle_dispose_struct_command mg msg w =
     (if mg_servers mg = [] then (mg, send w (msg\<lparr>mtype := pid msg, status := FAILED_TO_DISPOSE_KEY\<rparr>))
      else case tell_each (mg_servers mg) msg w of
        (m, w1) \<Rightarrow>
          ((if cmd m = DISPOSE_COLLECTION
            then mg\<lparr>mg_separators := map_erase (msg_path m) (mg_separators mg)\<rparr> else mg),
           send w1 (m\<lparr>mtype := pid m, status := OK\<rparr>)))"

section \<open>Moving records between neighbours\<close>

text \<open>The outcome is an exception, or whether the function returned 0.\<close>

type_synonym transfer = "(manager_exn + bool) \<times> manager \<times> world"

text \<open>\<open>separators[path][i] = value\<close>\<close>

definition set_separator :: "db_path \<Rightarrow> nat \<Rightarrow> string \<Rightarrow> manager \<Rightarrow> world \<Rightarrow> transfer" where
  "set_separator path i v mg w =
     (case map_of (mg_separators mg) path of
        None \<Rightarrow> (Inl Mg_undefined, mg, w)
      | Some ss \<Rightarrow>
          if i < length ss
          then (Inr True, mg\<lparr>mg_separators := map_assign path (ss[i := v]) (mg_separators mg)\<rparr>, w)
          else (Inl Mg_undefined, mg, w))"

text \<open>A question to the server with a number, and what to do with its answer.\<close>

definition ask_server ::
  "nat \<Rightarrow> manager \<Rightarrow> nat \<Rightarrow> strg_msg \<Rightarrow> world \<Rightarrow> (bool \<Rightarrow> strg_msg \<Rightarrow> world \<Rightarrow> transfer) \<Rightarrow> transfer" where
  "ask_server max_counter mg i m w f =
     (case vec_at (mg_servers mg) i of
        None \<Rightarrow> (Inl Mg_out_of_range, mg, w)
      | Some p \<Rightarrow>
          (case ask max_counter MANAGER_SERVER_STORAGE_ANSWER_PRIOR (m\<lparr>mtype := p\<rparr>) w of
             (rcv, m1, w1) \<Rightarrow> f (rcv \<and> status m1 = OK) m1 w1))"

definition own_msg :: "world \<Rightarrow> db_path \<Rightarrow> command \<Rightarrow> strg_msg" where
  "own_msg w path c = (with_path path (w_junk w))\<lparr>pid := w_self w, status := OK, cmd := c\<rparr>"

text \<open>The answer to \<open>OBTAIN_NEXT\<close> overwrites the least record; what follows moves the next one.\<close>

definition transfer_left :: "manager \<Rightarrow> db_path \<Rightarrow> nat \<Rightarrow> world \<Rightarrow> transfer" where
  "transfer_left mg path i w =
     ask_server 10 mg i (own_msg w path OBTAIN_MIN) w (\<lambda>ok1 m1 w1.
       if \<not> ok1 then (Inr False, mg, w1) else
       ask_server 10 mg i (m1\<lparr>status := OK, cmd := OBTAIN_NEXT\<rparr>) w1 (\<lambda>ok2 m2 w2.
         if \<not> ok2 then (Inr False, mg, w2) else
         if i = 0 then (Inl Mg_out_of_range, mg, w2) else
         ask_server 10 mg (i - 1) (m2\<lparr>cmd := ADD\<rparr>) w2 (\<lambda>ok3 m3 w3.
           if \<not> ok3 then (Inr False, mg, w3) else
           ask_server 25 mg i (m3\<lparr>cmd := DISPOSE\<rparr>) w3 (\<lambda>ok4 m4 w4.
             set_separator path (i - 1) (login m2) mg w4))))"

definition transfer_right :: "manager \<Rightarrow> db_path \<Rightarrow> nat \<Rightarrow> world \<Rightarrow> transfer" where
  "transfer_right mg path i w =
     ask_server 10 mg i (own_msg w path OBTAIN_MAX) w (\<lambda>ok1 m1 w1.
       if \<not> ok1 then (Inr False, mg, w1) else
       ask_server 10 mg (i + 1) (m1\<lparr>cmd := ADD\<rparr>) w1 (\<lambda>ok2 m2 w2.
         if \<not> ok2 then (Inr False, mg, w2) else
         ask_server 10 mg i (m2\<lparr>cmd := DISPOSE\<rparr>) w2 (\<lambda>ok3 m3 w3.
           set_separator path i (login m1) mg w3)))"

fun transfer_n :: "(manager \<Rightarrow> world \<Rightarrow> transfer) \<Rightarrow> nat \<Rightarrow> manager \<Rightarrow> world \<Rightarrow> transfer" where
  "transfer_n f 0 mg w = (Inr True, mg, w)"
| "transfer_n f (Suc n) mg w =
     (case f mg w of
        (Inr True, mg1, w1) \<Rightarrow> transfer_n f n mg1 w1
      | r \<Rightarrow> r)"

text \<open>The parameter \<open>n\<close> is an \<open>int\<close> and is compared with a \<open>size_t\<close>.\<close>

definition int_param :: "int \<Rightarrow> nat" where
  "int_param n = unat (word_of_int (signed_take_bit 31 n) :: 64 word)"

definition transfer_left_n :: "manager \<Rightarrow> db_path \<Rightarrow> nat \<Rightarrow> int \<Rightarrow> world \<Rightarrow> transfer" where
  "transfer_left_n mg path i n w = transfer_n (\<lambda>mg. transfer_left mg path i) (int_param n) mg w"

definition transfer_right_n :: "manager \<Rightarrow> db_path \<Rightarrow> nat \<Rightarrow> int \<Rightarrow> world \<Rightarrow> transfer" where
  "transfer_right_n mg path i n w = transfer_n (\<lambda>mg. transfer_right mg path i) (int_param n) mg w"

section \<open>Redistribution\<close>

fun get_counts :: "int list \<Rightarrow> strg_msg \<Rightarrow> world \<Rightarrow> 64 word list option \<times> world" where
  "get_counts [] msg w = (Some [], w)"
| "get_counts (p # ps) msg w =
     (case ask 20 MANAGER_SERVER_STORAGE_GETTING_RECORDS_CNT_PRIOR (msg\<lparr>mtype := p\<rparr>) w of
        (False, m, w1) \<Rightarrow> (None, w1)
      | (True, m, w1) \<Rightarrow> (case get_counts ps m w1 of (r, w2) \<Rightarrow> (map_option (\<lambda>cs. extra_value m # cs) r, w2)))"

text \<open>The share of each of the servers, the first ones with one record more.\<close>

definition targets :: "64 word list \<Rightarrow> 64 word list" where
  "targets cnts =
     (let sz = of_nat (length cnts); sum = sum_list cnts in
      map (\<lambda>i. sum div sz + (if of_nat i < sum mod sz then 1 else 0)) [0..<length cnts])"

definition need_redistribution :: "64 word list \<Rightarrow> bool" where
  "need_redistribution cnts =
     list_ex (\<lambda>(c, t). c = 0 \<or> 2 < t div c \<or> 2 < c div t) (zip cnts (targets cnts))"

definition differences :: "64 word list \<Rightarrow> int list" where
  "differences cnts = map2 (\<lambda>c t. sint (c - t)) cnts (targets cnts)"

fun prefix_sums :: "int \<Rightarrow> int list \<Rightarrow> int list" where
  "prefix_sums a [] = []"
| "prefix_sums a (d # ds) = (a + d) # prefix_sums (a + d) ds"

text \<open>The inner loop \<open>for (j = i; j > 0; --j)\<close>.\<close>

fun pull_left :: "db_path \<Rightarrow> int list \<Rightarrow> nat \<Rightarrow> manager \<Rightarrow> world \<Rightarrow> transfer" where
  "pull_left path prefix 0 mg w = (Inr True, mg, w)"
| "pull_left path prefix (Suc j) mg w =
     (case transfer_left_n mg path (Suc j) (- (prefix ! j)) w of
        (Inr True, mg1, w1) \<Rightarrow> pull_left path prefix j mg1 w1
      | r \<Rightarrow> r)"

text \<open>The outer loop from \<open>i\<close> on, \<open>n\<close> rounds.\<close>

fun balance :: "db_path \<Rightarrow> nat \<Rightarrow> nat \<Rightarrow> int list \<Rightarrow> int list \<Rightarrow> manager \<Rightarrow> world \<Rightarrow> transfer" where
  "balance path 0 i differ prefix mg w = (Inr True, mg, w)"
| "balance path (Suc n) i differ prefix mg w =
     (if 0 \<le> prefix ! i then
        let pulls = (0 < i \<and> prefix ! (i - 1) < 0);
            r1 = (if pulls then pull_left path prefix i mg w else (Inr True, mg, w));
            differ1 = (if pulls then differ[i := differ ! i + prefix ! (i - 1)] else differ) in
        (case r1 of
           (Inr True, mg1, w1) \<Rightarrow>
             let pushes = (i + 1 < length differ \<and> 0 < differ1 ! i);
                 r2 = (if pushes then transfer_right_n mg1 path i (differ1 ! i) w1 else (Inr True, mg1, w1));
                 differ2 = (if pushes then differ1[i + 1 := differ1 ! (i + 1) + differ1 ! i] else differ1) in
             (case r2 of
                (Inr True, mg2, w2) \<Rightarrow> balance path n (i + 1) differ2 (prefix[i := 0]) mg2 w2
              | r \<Rightarrow> r)
         | r \<Rightarrow> r)
      else balance path n (i + 1) differ prefix mg w)"

definition redistribute_path_keys :: "manager \<Rightarrow> db_path \<Rightarrow> world \<Rightarrow> transfer" where
  "redistribute_path_keys mg path w =
     (case get_counts (mg_servers mg) (own_msg w path GET_RECORDS_CNT) w of
        (None, w1) \<Rightarrow> (Inr False, mg, w1)
      | (Some cnts, w1) \<Rightarrow>
          if sum_list cnts < of_nat (length cnts) \<or> \<not> need_redistribution cnts then (Inr True, mg, w1)
          else balance path (length cnts) 0 (differences cnts) (prefix_sums 0 (differences cnts)) mg w1)"

text \<open>The loop over the map; a failure does not end it, an exception does.\<close>

fun redistribute_each :: "db_path list \<Rightarrow> manager \<Rightarrow> world \<Rightarrow> transfer" where
  "redistribute_each [] mg w = (Inr True, mg, w)"
| "redistribute_each (p # ps) mg w =
     (case redistribute_path_keys mg p w of
        (Inl e, mg1, w1) \<Rightarrow> (Inl e, mg1, w1)
      | (Inr ok, mg1, w1) \<Rightarrow>
          (case redistribute_each ps mg1 w1 of
             (Inl e, mg2, w2) \<Rightarrow> (Inl e, mg2, w2)
           | (Inr ok', mg2, w2) \<Rightarrow> (Inr (ok \<and> ok'), mg2, w2)))"

definition redistribute_keys :: "manager \<Rightarrow> world \<Rightarrow> transfer" where
  "redistribute_keys mg w =
     (case redistribute_each (map fst (mg_separators mg)) mg w of
        (Inl e, mg1, w1) \<Rightarrow> (Inl e, mg1, w1)
      | (Inr ok, mg1, w1) \<Rightarrow>
          (Inr ok, mg1, send w1 ((w_junk w1)\<lparr>mtype := MANAGER_SERVER_CLIENT_PING_PRIOR, cmd := TERMINATE_ASSISTANT_THREAD\<rparr>)))"

section \<open>Adding and terminating servers\<close>

text \<open>\<open>fork\<close> and \<open>execl\<close>; \<open>None\<close> is the result -1.\<close>

definition run_storage_server :: "world \<Rightarrow> int option \<times> world" where
  "run_storage_server w =
     (case w_spawned w of
        [] \<Rightarrow> (None, w)
      | None # rest \<Rightarrow> (None, w\<lparr>w_spawned := rest\<rparr>)
      | Some p # rest \<Rightarrow> (Some p, w\<lparr>w_spawned := rest, w_servers := (w_servers w)(p \<mapsto> w_fresh w)\<rparr>))"

definition handle_add_server_command :: "bool \<Rightarrow> manager \<Rightarrow> strg_msg \<Rightarrow> world \<Rightarrow> transfer" where
  "handle_add_server_command is_filesystem mg msg w =
     (let new_id = length (mg_servers mg) + 1 in
      case run_storage_server w of
        (None, w1) \<Rightarrow> (Inr False, mg, w1)
      | (Some p, w1) \<Rightarrow>
          (case ask 10 MANAGER_SERVER_STORAGE_ADDITION_PRIOR
                  (msg\<lparr>mtype := p, cmd := (if is_filesystem then SET_FILE_SYSTEM_MODE else SET_IN_MEMORY_CACHE_MODE),
                       extra_value := of_nat new_id, pid := w_self w1\<rparr>) w1 of
             (rcv, m, w2) \<Rightarrow>
               if \<not> rcv \<or> status m = FAILED_TO_SETUP_STORAGE_SERVER
               then (Inr False, mg, w2\<lparr>w_servers := (w_servers w2)(p := None)\<rparr>)
               else
                 let mg1 = mg\<lparr>mg_servers := mg_servers mg @ [p]\<rparr> in
                 if 1 < new_id
                 then redistribute_keys
                        (mg1\<lparr>mg_separators := map (\<lambda>(q, ss). (q, ss @ [last_separator])) (mg_separators mg1)\<rparr>) w2
                 else (Inr True, mg1, w2)))"

text \<open>The records of the last server go to its left neighbour, path by path.\<close>

fun empty_last :: "db_path list \<Rightarrow> nat \<Rightarrow> strg_msg \<Rightarrow> manager \<Rightarrow> world \<Rightarrow> transfer \<times> strg_msg" where
  "empty_last [] i msg mg w = ((Inr True, mg, w), msg)"
| "empty_last (path # paths) i msg mg w =
     (case vec_at (mg_servers mg) i of
        None \<Rightarrow> ((Inl Mg_out_of_range, mg, w), msg)
      | Some p \<Rightarrow>
          (case ask 25 MANAGER_SERVER_STORAGE_GETTING_RECORDS_CNT_PRIOR
                  ((with_path path msg)\<lparr>status := OK, mtype := p\<rparr>) w of
             (False, m, w1) \<Rightarrow> ((Inl (Mg_runtime_error ''Failed to terminate server''), mg, w1), m)
           | (True, m, w1) \<Rightarrow>
               (case transfer_left_n mg path i (sint (extra_value m)) w1 of
                  (Inr True, mg2, w2) \<Rightarrow> empty_last paths i m mg2 w2
                | (Inr False, mg2, w2) \<Rightarrow> ((Inl (Mg_runtime_error ''Failed to terminate server''), mg2, w2), m)
                | (Inl e, mg2, w2) \<Rightarrow> ((Inl e, mg2, w2), m))))"

definition handle_terminate_server_command :: "manager \<Rightarrow> strg_msg \<Rightarrow> world \<Rightarrow> transfer" where
  "handle_terminate_server_command mg msg w =
     (if length (mg_servers mg) = 1 then (Inl (Mg_runtime_error ''Cannot terminate single server''), mg, w)
      else if mg_servers mg = [] then (Inl Mg_undefined, mg, w)
      else
        let i = length (mg_servers mg) - 1 in
        (case empty_last (map fst (mg_separators mg)) i (msg\<lparr>cmd := GET_RECORDS_CNT, pid := w_self w\<rparr>) mg w of
           ((Inr _, mg1, w1), m) \<Rightarrow>
             redistribute_keys (mg1\<lparr>mg_servers := butlast (mg_servers mg1)\<rparr>)
               (send w1 (m\<lparr>mtype := mg_servers mg1 ! i, cmd := TERMINATE\<rparr>))
         | (r, m) \<Rightarrow> r))"

section \<open>The main loop\<close>

definition save_config :: "nat \<Rightarrow> world \<Rightarrow> world" where
  "save_config strg_servers_cnt w = w\<lparr>w_files :=
     (case fs_open_trunc (w_files w) ''cfg'' of
        None \<Rightarrow> w_files w
      | Some fs \<Rightarrow> (case fs_append fs ''cfg'' (show_nat strg_servers_cnt) of None \<Rightarrow> fs | Some fs' \<Rightarrow> fs'))\<rparr>"

text \<open>
  The outcome of a round: \<open>None\<close> when a loop does not end, otherwise the exception that ends the process,
  or the states. The handlers of \<open>std::runtime_error\<close> only print; the configuration is then not saved.
\<close>

type_synonym round_result = "(manager_exn + manager \<times> world) option"

definition saved :: "transfer \<Rightarrow> round_result" where
  "saved r =
     (case r of
        (Inr _, mg, w) \<Rightarrow> Some (Inr (mg, save_config (length (mg_servers mg)) w))
      | (Inl (Mg_runtime_error _), mg, w) \<Rightarrow> Some (Inr (mg, w))
      | (Inl e, mg, w) \<Rightarrow> Some (Inl e))"

definition plain :: "manager \<Rightarrow> (manager_exn + unit) \<times> world \<Rightarrow> round_result" where
  "plain mg r = (case r of (Inl e, w) \<Rightarrow> Some (Inl e) | (Inr _, w) \<Rightarrow> Some (Inr (mg, w)))"

text \<open>The case of \<open>PING\<close> has no \<open>break\<close>: it goes on with that of \<open>SHUTDOWN\<close>.\<close>

definition manager_switch :: "bool \<Rightarrow> manager \<Rightarrow> strg_msg \<Rightarrow> world \<Rightarrow> round_result" where
  "manager_switch is_filesystem mg msg w =
     (case cmd msg of
        PING \<Rightarrow> Some (Inr (mg\<lparr>mg_run := False\<rparr>, save_config (length (mg_servers mg)) w))
      | SHUTDOWN \<Rightarrow> Some (Inr (mg\<lparr>mg_run := False\<rparr>, save_config (length (mg_servers mg)) w))
      | ADD_STORAGE_SERVER \<Rightarrow> saved (handle_add_server_command is_filesystem mg msg w)
      | TERMINATE_STORAGE_SERVER \<Rightarrow> saved (handle_terminate_server_command mg msg w)
      | ADD_POOL \<Rightarrow> map_option Inr (handle_add_struct_command mg msg w)
      | ADD_SCHEMA \<Rightarrow> map_option Inr (handle_add_struct_command mg msg w)
      | ADD_COLLECTION \<Rightarrow> map_option Inr (handle_add_struct_command mg msg w)
      | DISPOSE_POOL \<Rightarrow> Some (Inr (handle_dispose_struct_command mg msg w))
      | DISPOSE_SCHEMA \<Rightarrow> Some (Inr (handle_dispose_struct_command mg msg w))
      | DISPOSE_COLLECTION \<Rightarrow> Some (Inr (handle_dispose_struct_command mg msg w))
      | ADD \<Rightarrow> plain (mg\<lparr>mg_changes := mg_changes mg + 1\<rparr>) (handle_data_command mg msg w)
      | UPDATE \<Rightarrow> plain (mg\<lparr>mg_changes := mg_changes mg + 1\<rparr>) (handle_data_command mg msg w)
      | DISPOSE \<Rightarrow> plain (mg\<lparr>mg_changes := mg_changes mg + 1\<rparr>) (handle_data_command mg msg w)
      | OBTAIN \<Rightarrow> plain mg (handle_data_command mg msg w)
      | OBTAIN_MIN \<Rightarrow> plain mg (handle_data_command mg msg w)
      | OBTAIN_MAX \<Rightarrow> plain mg (handle_data_command mg msg w)
      | OBTAIN_NEXT \<Rightarrow> plain mg (handle_data_command mg msg w)
      | OBTAIN_BETWEEN \<Rightarrow> plain mg (handle_obtain_between_command mg msg w)
      | _ \<Rightarrow> Some (Inr (mg, w)))"

definition manager_round :: "bool \<Rightarrow> manager \<Rightarrow> strg_msg \<Rightarrow> world \<Rightarrow> round_result" where
  "manager_round is_filesystem mg msg w =
     (case manager_switch is_filesystem mg (msg\<lparr>mtype := pid msg\<rparr>) w of
        Some (Inr (mg1, w1)) \<Rightarrow>
          if 30 * (1 + length (mg_servers mg1)) \<le> mg_changes mg1 then
            (case redistribute_keys mg1 w1 of
               (Inl e, mg2, w2) \<Rightarrow> Some (Inl e)
             | (Inr _, mg2, w2) \<Rightarrow> Some (Inr (mg2\<lparr>mg_changes := 0\<rparr>, w2)))
          else Some (Inr (mg1, w1))
      | r \<Rightarrow> r)"

text \<open>The message that the loop takes next: the lowest type up to \<open>MANAGER_SERVER_MAX_COMMON_PRIOR\<close>.\<close>

definition manager_receive :: "world \<Rightarrow> (strg_msg \<times> world) option" where
  "manager_receive w =
     map_option (\<lambda>(m, q). (m, w\<lparr>w_queue := q\<rparr>)) (msgrcv (w_queue w) (- MANAGER_SERVER_MAX_COMMON_PRIOR))"

end
