(* ===== verification/Named_Trees.thy ===== *)
theory Named_Trees
  imports Loading
begin

text \<open>
  Two foundations of the storage's correctness: the paths under \<open>pools\<close> are different for different
  lists of names, and the trees of names act as finite maps.
\<close>

section \<open>Paths\<close>

definition pools_path :: "string list \<Rightarrow> string" where
  "pools_path xs = ''pools'' @ concat (map (\<lambda>x. CHR ''/'' # x) xs)"

definition slashless :: "string \<Rightarrow> bool" where
  "slashless x \<longleftrightarrow> CHR ''/'' \<notin> set x"

lemma make_path_pools: "make_path_strings (''pools'' # xs) = pools_path xs"
proof -
  have "foldl (\<lambda>path elem. (if path \<noteq> [] \<and> hd path \<noteq> CHR 0x00 then path @ ''/'' else path) @ elem) a xs =
      a @ concat (map (\<lambda>x. CHR ''/'' # x) xs)" if "a \<noteq> []" "hd a \<noteq> CHR 0x00" for a
    using that by (induction xs arbitrary: a) auto
  then show ?thesis by (simp add: make_path_strings_def pools_path_def)
qed

lemma make_path_below: "make_path_strings (pools_path xs # ys) = pools_path (xs @ ys)"
proof -
  have "foldl (\<lambda>path elem. (if path \<noteq> [] \<and> hd path \<noteq> CHR 0x00 then path @ ''/'' else path) @ elem) a ys =
      a @ concat (map (\<lambda>x. CHR ''/'' # x) ys)" if "a \<noteq> []" "hd a \<noteq> CHR 0x00" for a
    using that by (induction ys arbitrary: a) auto
  then show ?thesis by (simp add: make_path_strings_def pools_path_def)
qed

lemma names_inj:
  assumes "\<forall>x \<in> set xs. slashless x" "\<forall>y \<in> set ys. slashless y"
    and "concat (map (\<lambda>x. CHR ''/'' # x) xs) = concat (map (\<lambda>x. CHR ''/'' # x) ys)"
  shows "xs = ys"
  using assms
proof (induction xs arbitrary: ys)
  case (Cons x xs)
  then obtain y ys' where ys: "ys = y # ys'" by (cases ys) auto
  let ?p = "\<lambda>xs. concat (map (\<lambda>x. CHR ''/'' # x) xs)"
  have tw: "takeWhile (\<lambda>c. c \<noteq> CHR ''/'') (z @ ?p zs) = z" if "slashless z" for z zs
    using that by (cases zs) (auto simp: slashless_def takeWhile_append)
  have e: "x @ ?p xs = y @ ?p ys'" using Cons.prems(3) by (simp add: ys)
  have sl: "slashless x" "slashless y" "\<forall>z \<in> set xs. slashless z" "\<forall>z \<in> set ys'. slashless z"
    using Cons.prems(1,2) by (simp_all add: ys)
  have xy: "x = y" using tw [OF sl(1), of xs] tw [OF sl(2), of ys'] e by metis
  then have "?p xs = ?p ys'" using e by simp
  then have "xs = ys'" by (rule Cons.IH [OF sl(3,4)])
  then show ?case by (simp add: ys xy)
next
  case Nil
  then show ?case by (cases ys) auto
qed

lemma pools_path_inj:
  "\<forall>x \<in> set xs. slashless x \<Longrightarrow> \<forall>y \<in> set ys. slashless y \<Longrightarrow> pools_path xs = pools_path ys \<longleftrightarrow> xs = ys"
  using names_inj by (auto simp: pools_path_def)

lemma slashless_show_nat [simp]: "slashless (show_nat n)"
  using slash_not_digit by (simp add: slashless_def)

lemma slashless_simps [simp]: "slashless ''cfg''" "slashless ''tmp''" "slashless ''pools''" "slashless []"
  by (simp_all add: slashless_def)

text \<open>A valid file name has no slash in it.\<close>

lemma check_file_name_exact:
  "check_file_name space cs =
   (if (\<forall>c \<in> set cs. is_alnum c \<or> c = CHR ''_'' \<or> c = CHR ''-'' \<or> c = CHR '' '') \<and>
       \<not> (if cs = [] then space else last cs = CHR '' '') then Inr () else Inl Invalid_struct_name)"
  by (induction space cs rule: check_file_name.induct) auto

lemma check_file_name_slashless: "check_file_name False cs = Inr () \<Longrightarrow> slashless cs"
proof -
  have "\<not> is_alnum (CHR ''/'')" by (simp add: is_alnum_def is_digit_def less_eq_char_def Let_def)
  then show "check_file_name False cs = Inr () \<Longrightarrow> slashless cs"
    by (auto simp: check_file_name_exact slashless_def split: if_splits)
qed

section \<open>Trees of names\<close>

abbreviation named_ok :: "(string, 'v) b_tree \<Rightarrow> bool" where
  "named_ok \<equiv> bt_inv default_key_comparer_string"

lemma obtain_named_eq:
  assumes "named_ok tr"
  shows "obtain_named tr name = (case bt_view tr name of None \<Rightarrow> Inl Invalid_path | Some v \<Rightarrow> Inr v)"
  using key_order.bt_obtain_correct [OF string_keys.key_order_axioms, of tr name] assms
  by (auto simp: obtain_named_def bt_inv_def bt_view_def struct_obtained_def split: option.splits)

lemma set_named_ok:
  assumes "named_ok tr" "bt_view tr name = Some w"
  shows "named_ok (set_named tr name v)" "bt_view (set_named tr name v) = (bt_view tr)(name \<mapsto> v)"
    "bt_memory (set_named tr name v) = bt_memory tr"
proof -
  have t: "bt_ok tr" "bt_keys_comparer tr = default_key_comparer_string" "map_of (bt_entries tr) name = Some w"
    using assms by (simp_all add: bt_inv_def bt_view_def)
  obtain tr' where tr': "bt_obtain_modify tr name (\<lambda>_. v) = Inr tr'" "bt_ok tr'"
      "bt_keys_comparer tr' = default_key_comparer_string" "bt_entries tr' = upd_entries name v (bt_entries tr)"
      "bt_memory tr' = bt_memory tr"
    using key_order.bt_obtain_modify_correct [OF string_keys.key_order_axioms t, of "\<lambda>_. v"] by auto
  then show "named_ok (set_named tr name v)" "bt_view (set_named tr name v) = (bt_view tr)(name \<mapsto> v)"
    "bt_memory (set_named tr name v) = bt_memory tr"
    by (simp_all add: set_named_def bt_inv_def bt_view_def map_of_upd_entries)
qed

lemma set_named_same:
  assumes "named_ok tr" "bt_view tr name = Some v"
  shows "bt_view (set_named tr name v) = bt_view tr"
  using set_named_ok(2) [OF assms] assms(2) by (auto simp: fun_eq_iff)

lemma add_named_new:
  assumes "named_ok tr" "bt_view tr name = None" "bt_fits tr"
  shows "\<exists>tr'. add_named tr name v = (Inr (), tr') \<and> named_ok tr' \<and> bt_view tr' = (bt_view tr)(name \<mapsto> v)"
  using string_keys.tree.insert_new [OF assms, of v]
  by (auto simp: add_named_def bt_insert_rvalue_def bt_insert_def)

lemma add_named_old:
  assumes "named_ok tr" "bt_view tr name \<noteq> None"
  shows "add_named tr name v = (Inl Insertion_of_existent_struct, tr)"
  using string_keys.tree.insert_old [OF assms, of v]
  by (simp add: add_named_def bt_insert_rvalue_def bt_insert_def struct_added_def)

text \<open>A name that is missing leads to no swap; a disposal without a swap of a null pointer is that of the tree.\<close>

lemma disposal_swaps_null_present:
  assumes "named_ok tr" "disposal_swaps_null tr name"
  shows "bt_view tr name \<noteq> None"
proof -
  obtain ptr i path where "find_path default_key_comparer_string (bt_root tr) name = Some ((ptr, i) # path)"
      "0 \<le> i \<longleftrightarrow> name \<in> fst ` set (bt_entries tr)"
    using key_order.find_tree [OF string_keys.key_order_axioms, of tr name] assms(1) by (auto simp: bt_inv_def)
  then show ?thesis
    using assms by (cases ptr) (auto simp: disposal_swaps_null_def bt_inv_def bt_view_def map_of_eq_None_iff split: if_splits)
qed

lemma dispose_named_old:
  assumes "named_ok tr" "bt_view tr name = Some v" "bt_has_room tr" "\<not> disposal_swaps_null tr name"
  shows "\<exists>tr'. dispose_named tr name = (Inr (), tr') \<and> named_ok tr' \<and> bt_view tr' = (bt_view tr)(name := None)"
  using string_keys.tree.dispose_old [OF assms(1-3)] assms(4) by (auto simp: dispose_named_def)

lemma dispose_named_new:
  assumes "named_ok tr" "bt_view tr name = None"
  shows "dispose_named tr name = (Inl Disposal_of_nonexistent_struct, tr)"
  using string_keys.tree.dispose_new [OF assms] disposal_swaps_null_present [OF assms(1), of name] assms(2)
  by (auto simp: dispose_named_def struct_disposed_def)

lemma dispose_named_undefined:
  "disposal_swaps_null tr name \<Longrightarrow> dispose_named tr name = (Inl Db_undefined_behaviour, tr)"
  by (simp add: dispose_named_def)

lemma last_name_index:
  assumes "sorted_keys xs" "i < length xs"
  shows "i + 1 < length xs \<longleftrightarrow> fst (xs ! i) \<noteq> fst (last xs)"
proof -
  have "fst (xs ! i) < fst (last xs)" if "i + 1 < length xs"
    using assms that sorted_wrt_nth_less [of "(<)" "map fst xs" i "length xs - 1"]
    by (cases xs rule: rev_cases) (auto simp: last_conv_nth nth_append)
  moreover have "xs ! i = last xs" if "\<not> i + 1 < length xs"
  proof -
    have "i = length xs - 1" "xs \<noteq> []" using that assms(2) by auto
    then show ?thesis by (simp add: last_conv_nth)
  qed
  ultimately show ?thesis by fastforce
qed

text \<open>In a tree of one node only the greatest name can be disposed of.\<close>

lemma disposal_swaps_null_single:
  assumes ok: "named_ok tr" and one: "bt_levels tr \<le> 1" and v: "bt_view tr name \<noteq> None"
  shows "disposal_swaps_null tr name \<longleftrightarrow> name \<noteq> fst (last (bt_entries tr))"
proof -
  have t: "2 \<le> bt_t tr" "tree_ok (bt_t tr) (bt_root tr)" and cmp: "bt_keys_comparer tr = default_key_comparer_string"
    using ok by (simp_all add: bt_inv_def bt_ok_def)
  obtain n where n: "bt_root tr = Some n" using v by (cases "bt_root tr") (auto simp: bt_view_def bt_entries_def)
  then have h: "node_height n = 0" using one by (simp add: bt_levels_def)
  obtain m h' path ks cs where m: "find_path default_key_comparer_string (Some n) name = Some ((Some m, search_result ks name) # path)"
      "node_at (bt_t tr) h' m ks cs" "key_at name (bt_t tr) h' path m" "zip_content path m = inorder n"
      "search_result ks name < 0 \<longrightarrow> h' = 0" "h' + length path = node_height n"
    using t n by (auto elim: key_order.find_path_treeE [OF string_keys.key_order_axioms, where key = name])
  have path: "path = []" "h' = 0" using m(6) h by simp_all
  have ks: "bt_entries tr = ks"
    using m(4) leaf_content [OF m(2) [unfolded path(2)]] n path(1) by (simp add: bt_entries_def zip_content_def)
  have sorted: "sorted_keys ks" using m(3,4) n ks by (simp add: key_at_def bt_entries_def)
  have rep: "node_rep (bt_t tr) m ks cs" using m(2) by (rule node_at_rep)
  have first: "arr_get (subtrees m) 0 = Some None"
    using node_rep_arr_get [OF rep, of 0] node_at_ptr [OF m(2), of 0] path(2) by (auto elim: ptr_ok_cases)
  have "name \<in> fst ` set ks" using v ks by (simp add: bt_view_def map_of_eq_None_iff)
  then have i: "0 \<le> search_result ks name"
    using key_at_member [OF m(3,2)] m(4,5) n ks by (auto simp: bt_entries_def)
  have "disposal_swaps_null tr name \<longleftrightarrow> nat (search_result ks name) + 1 < length ks"
    using m(1) n cmp i first path(1) node_rep_vs [OF rep]
    by (simp add: disposal_swaps_null_def dispose_target_def filling_swaps_null_def)
  also have "\<dots> \<longleftrightarrow> name \<noteq> fst (last ks)"
    using last_name_index [OF sorted search_result_found(1) [OF i]] search_result_found(2) [OF i] by simp
  finally show ?thesis using ks by simp
qed

lemma named_tree_ok: "named_tree env t = Inr tr \<Longrightarrow> named_ok tr \<and> bt_view tr = Map.empty"
  by (auto simp: named_tree_def b_tree_new_def bt_inv_def bt_ok_def bt_view_def bt_entries_def tree_ok_def split: if_splits)

end
