(* ===== verification/Storage_Correct.thy ===== *)
theory Storage_Correct
  imports Named_Trees
begin

text \<open>
  The storage as a map from the names of a pool, a schema and a collection to the collection's
  entries; its invariant, and the operations on records as operations on that map.
\<close>

section \<open>The storage as a map\<close>

definition db_schema :: "db_storage \<Rightarrow> string \<Rightarrow> string \<Rightarrow> schema option" where
  "db_schema db pn sn = Option.bind (bt_view (ds_pools db) pn) (\<lambda>p. bt_view (p_schemas p) sn)"

definition db_lookup :: "db_storage \<Rightarrow> string \<Rightarrow> string \<Rightarrow> string \<Rightarrow> collection option" where
  "db_lookup db pn sn cn = Option.bind (db_schema db pn sn) (\<lambda>s. bt_view (s_collections s) cn)"

definition pool_named :: "pool \<Rightarrow> bool" where
  "pool_named p \<longleftrightarrow> named_ok (p_schemas p) \<and> (\<forall>sn s. bt_view (p_schemas p) sn = Some s \<longrightarrow> named_ok (s_collections s))"

definition db_trees :: "db_storage \<Rightarrow> bool" where
  "db_trees db \<longleftrightarrow> named_ok (ds_pools db) \<and> (\<forall>pn p. bt_view (ds_pools db) pn = Some p \<longrightarrow> pool_named p)"

lemma at_pool_missing:
  "db_trees db \<Longrightarrow> bt_view (ds_pools db) pn = None \<Longrightarrow> at_pool db pn f = (Inl Invalid_path, db)"
  by (simp add: at_pool_def db_obtain_named_def obtain_named_eq db_trees_def)

lemma at_pool_found:
  assumes "db_trees db" "bt_view (ds_pools db) pn = Some p" "f p (ds_env db) = (r, p', env')" "pool_named p'"
  shows "\<exists>db'. at_pool db pn f = (r, db') \<and> db_trees db' \<and> ds_env db' = env' \<and>
    bt_view (ds_pools db') = (bt_view (ds_pools db))(pn \<mapsto> p')"
proof -
  have n: "named_ok (ds_pools db)" using assms(1) by (simp add: db_trees_def)
  note s = set_named_ok [OF n assms(2), of p']
  let ?db = "db\<lparr>ds_env := env', ds_pools := set_named (ds_pools db) pn p'\<rparr>"
  have "at_pool db pn f = (r, ?db)"
    using assms(2,3) by (simp add: at_pool_def db_obtain_named_def obtain_named_eq [OF n])
  moreover have "db_trees ?db" using assms(1,4) s by (auto simp: db_trees_def)
  ultimately show ?thesis using s(2) by (intro exI [of _ ?db]) simp
qed

lemma at_schema_missing:
  assumes "db_trees db" "db_schema db pn sn = None"
  shows "\<exists>db'. at_schema db pn sn f = (Inl Invalid_path, db') \<and> db_trees db' \<and> ds_env db' = ds_env db \<and>
    bt_view (ds_pools db') = bt_view (ds_pools db)"
proof (cases "bt_view (ds_pools db) pn")
  case None
  then show ?thesis using assms(1) by (simp add: at_schema_def at_pool_missing)
next
  case (Some p)
  then have p: "pool_named p" "bt_view (p_schemas p) sn = None" using assms by (auto simp: db_trees_def db_schema_def)
  let ?f = "\<lambda>p env. case pool_obtain p sn of Inl e \<Rightarrow> (Inl e, p, env)
      | Inr s \<Rightarrow> (case f s env of
          (r, s', env') \<Rightarrow> (r, p\<lparr>p_schemas := set_named (p_schemas p) sn s'\<rparr>, env'))"
  have "?f p (ds_env db) = (Inl Invalid_path, p, ds_env db)"
    using p by (simp add: pool_obtain_def obtain_named_eq pool_named_def)
  then obtain db' where "at_schema db pn sn f = (Inl Invalid_path, db')" "db_trees db'" "ds_env db' = ds_env db"
      "bt_view (ds_pools db') = (bt_view (ds_pools db))(pn \<mapsto> p)"
    using at_pool_found [where f = ?f, OF assms(1) Some _ p(1)] unfolding at_schema_def by blast
  then show ?thesis using Some by (auto simp: fun_upd_idem)
qed

lemma at_schema_found:
  assumes "db_trees db" "db_schema db pn sn = Some s" "f s (ds_env db) = (r, s', env')" "named_ok (s_collections s')"
  shows "\<exists>db'. at_schema db pn sn f = (r, db') \<and> db_trees db' \<and> ds_env db' = env' \<and>
    (\<forall>p q. db_schema db' p q = (if p = pn \<and> q = sn then Some s' else db_schema db p q)) \<and>
    dom (bt_view (ds_pools db')) = dom (bt_view (ds_pools db))"
proof -
  obtain p where p: "bt_view (ds_pools db) pn = Some p" "bt_view (p_schemas p) sn = Some s"
    using assms(2) by (auto simp: db_schema_def bind_eq_Some_conv)
  have pn: "pool_named p" using assms(1) p(1) by (auto simp: db_trees_def)
  then have n: "named_ok (p_schemas p)" by (simp add: pool_named_def)
  note sn = set_named_ok [OF n p(2), of s']
  let ?p = "p\<lparr>p_schemas := set_named (p_schemas p) sn s'\<rparr>"
  have "pool_named ?p" using pn sn assms(4) by (auto simp: pool_named_def)
  moreover have "(case pool_obtain p sn of Inl e \<Rightarrow> (Inl e, p, ds_env db)
      | Inr s \<Rightarrow> (case f s (ds_env db) of
          (r, s', env') \<Rightarrow> (r, p\<lparr>p_schemas := set_named (p_schemas p) sn s'\<rparr>, env'))) = (r, ?p, env')"
    using p(2) assms(3) by (simp add: pool_obtain_def obtain_named_eq [OF n])
  ultimately obtain db' where "at_schema db pn sn f = (r, db')" "db_trees db'" "ds_env db' = env'"
      "bt_view (ds_pools db') = (bt_view (ds_pools db))(pn \<mapsto> ?p)"
    using at_pool_found [OF assms(1) p(1), where f = "\<lambda>p env. case pool_obtain p sn of Inl e \<Rightarrow> (Inl e, p, env)
      | Inr s \<Rightarrow> (case f s env of
          (r, s', env') \<Rightarrow> (r, p\<lparr>p_schemas := set_named (p_schemas p) sn s'\<rparr>, env'))"]
    unfolding at_schema_def by blast
  then show ?thesis using p sn(2) by (intro exI [of _ db']) (auto simp: db_schema_def)
qed

lemma at_collection_missing:
  assumes "db_trees db" "db_lookup db pn sn cn = None"
  shows "\<exists>db'. at_collection db pn sn cn f = (Inl Invalid_path, db') \<and> db_trees db' \<and> ds_env db' = ds_env db \<and>
    db_schema db' = db_schema db \<and> dom (bt_view (ds_pools db')) = dom (bt_view (ds_pools db))"
proof (cases "db_schema db pn sn")
  case None
  obtain db' where "at_collection db pn sn cn f = (Inl Invalid_path, db')" "db_trees db'" "ds_env db' = ds_env db"
      "bt_view (ds_pools db') = bt_view (ds_pools db)"
    unfolding at_collection_def using at_schema_missing [OF assms(1) None] by blast
  then show ?thesis by (auto simp: db_schema_def fun_eq_iff)
next
  case (Some s)
  have n: "named_ok (s_collections s)"
    using assms(1) Some by (auto simp: db_trees_def pool_named_def db_schema_def bind_eq_Some_conv)
  let ?f = "\<lambda>s env. case schema_obtain s cn of Inl e \<Rightarrow> (Inl e, s, env)
      | Inr c \<Rightarrow> (case f c env of
          (r, c', env') \<Rightarrow> (r, s\<lparr>s_collections := set_named (s_collections s) cn c'\<rparr>, env'))"
  have "?f s (ds_env db) = (Inl Invalid_path, s, ds_env db)"
    using assms(2) Some by (simp add: schema_obtain_def obtain_named_eq [OF n] db_lookup_def)
  then obtain db' where "at_collection db pn sn cn f = (Inl Invalid_path, db')" "db_trees db'" "ds_env db' = ds_env db"
      "\<forall>p q. db_schema db' p q = (if p = pn \<and> q = sn then Some s else db_schema db p q)"
      "dom (bt_view (ds_pools db')) = dom (bt_view (ds_pools db))"
    using at_schema_found [where f = ?f, OF assms(1) Some _ n] unfolding at_collection_def by blast
  then show ?thesis using Some by (intro exI [of _ db']) (auto simp: fun_eq_iff)
qed

lemma at_collection_found:
  assumes "db_trees db" "db_lookup db pn sn cn = Some c" "f c (ds_env db) = (r, c', env')"
  shows "\<exists>db'. at_collection db pn sn cn f = (r, db') \<and> db_trees db' \<and> ds_env db' = env' \<and>
    (\<forall>p q n. db_lookup db' p q n = (if p = pn \<and> q = sn \<and> n = cn then Some c' else db_lookup db p q n)) \<and>
    (\<forall>p q. db_schema db' p q = None \<longleftrightarrow> db_schema db p q = None) \<and>
    dom (bt_view (ds_pools db')) = dom (bt_view (ds_pools db))"
proof -
  obtain s where s: "db_schema db pn sn = Some s" "bt_view (s_collections s) cn = Some c"
    using assms(2) by (auto simp: db_lookup_def bind_eq_Some_conv)
  have n: "named_ok (s_collections s)"
    using assms(1) s by (auto simp: db_trees_def pool_named_def db_schema_def bind_eq_Some_conv)
  note cn = set_named_ok [OF n s(2), of c']
  let ?s = "s\<lparr>s_collections := set_named (s_collections s) cn c'\<rparr>"
  have f: "(case schema_obtain s cn of Inl e \<Rightarrow> (Inl e, s, ds_env db)
      | Inr c \<Rightarrow> (case f c (ds_env db) of
          (r, c', env') \<Rightarrow> (r, s\<lparr>s_collections := set_named (s_collections s) cn c'\<rparr>, env'))) = (r, ?s, env')"
    using s(2) assms(3) by (simp add: schema_obtain_def obtain_named_eq [OF n])
  have n': "named_ok (s_collections ?s)" using cn(1) by simp
  obtain db' where db': "at_collection db pn sn cn f = (r, db')" "db_trees db'" "ds_env db' = env'"
      "\<forall>p q. db_schema db' p q = (if p = pn \<and> q = sn then Some ?s else db_schema db p q)"
      "dom (bt_view (ds_pools db')) = dom (bt_view (ds_pools db))"
    using at_schema_found [OF assms(1) s(1), where f = "\<lambda>s env. case schema_obtain s cn of Inl e \<Rightarrow> (Inl e, s, env)
      | Inr c \<Rightarrow> (case f c env of
          (r, c', env') \<Rightarrow> (r, s\<lparr>s_collections := set_named (s_collections s) cn c'\<rparr>, env'))", OF f n']
    unfolding at_collection_def by blast
  have "\<forall>p q n. db_lookup db' p q n = (if p = pn \<and> q = sn \<and> n = cn then Some c' else db_lookup db p q n)"
    using db'(4) s cn(2) by (auto simp: db_lookup_def)
  moreover have "\<forall>p q. db_schema db' p q = None \<longleftrightarrow> db_schema db p q = None" using db'(4) s(1) by auto
  ultimately show ?thesis using db' by blast
qed

end
