(* ===== verification/Storage_Invariant.thy ===== *)
theory Storage_Invariant
  imports Storage_Correct Collection_Invariant
begin

text \<open>
  The invariant of the storage and the calls on records: each call acts on the entries of one
  collection, as the collection's operation does, and leaves those of every other collection alone.
\<close>

section \<open>The invariant\<close>

definition names_ok :: "db_storage \<Rightarrow> bool" where
  "names_ok db \<longleftrightarrow>
     (\<forall>pn. bt_view (ds_pools db) pn \<noteq> None \<longrightarrow> slashless pn) \<and>
     (\<forall>pn sn. db_schema db pn sn \<noteq> None \<longrightarrow> slashless sn) \<and>
     (\<forall>pn sn cn. db_lookup db pn sn cn \<noteq> None \<longrightarrow> slashless cn)"

definition db_ok :: "db_storage \<Rightarrow> bool" where
  "db_ok db \<longleftrightarrow> db_trees db \<and> env_mode (ds_env db) \<noteq> Uninitialized \<and>
     (\<forall>pn sn cn c. db_lookup db pn sn cn = Some c \<longrightarrow> coll_ok c (ds_env db) (record_path db pn sn cn)) \<and>
     (env_mode (ds_env db) = File_system \<longrightarrow> names_ok db)"

lemma db_lookup_names:
  assumes "names_ok db" "db_lookup db pn sn cn = Some c"
  shows "slashless pn" "slashless sn" "slashless cn"
proof -
  have "db_schema db pn sn \<noteq> None" using assms(2) by (auto simp: db_lookup_def bind_eq_Some_conv)
  moreover from this have "bt_view (ds_pools db) pn \<noteq> None" by (auto simp: db_schema_def bind_eq_Some_conv)
  ultimately show "slashless pn" "slashless sn" "slashless cn"
    using assms unfolding names_ok_def by blast+
qed

definition db_entries :: "db_storage \<Rightarrow> string \<Rightarrow> string \<Rightarrow> string \<Rightarrow> (tkey \<times> tvalue) list option" where
  "db_entries db pn sn cn =
     map_option (\<lambda>c. coll_entries c (ds_env db) (record_path db pn sn cn)) (db_lookup db pn sn cn)"

lemma record_path_pools: "record_path db pn sn cn = pools_path [pn, sn, cn, show_nat (unat (get_id db))]"
  by (simp add: record_path_def make_path_pools)

lemma record_path_env: "env_id (ds_env db') = env_id (ds_env db) \<Longrightarrow> record_path db' = record_path db"
  by (simp add: record_path_def get_id_def fun_eq_iff)

text \<open>What happens to other files does not matter to a collection.\<close>

lemma coll_ok_other:
  assumes ok: "coll_ok c env path" and o: "only_file p env env'"
    and np: "env_mode env = File_system \<Longrightarrow> p \<noteq> path \<and> p \<noteq> make_path_strings [path, show_nat (unat (env_id env))]"
  shows "coll_ok c env' path" "coll_entries c env' path = coll_entries c env path"
proof -
  have m: "env_mode env' = env_mode env" "env_id env' = env_id env" using o by (simp_all add: only_file_def)
  have r: "fs_open_read (env_fs env') path = fs_open_read (env_fs env) path" if "env_mode env = File_system"
    using o np that by (auto simp: only_file_def fs_open_read_def)
  have d: "data_ok c env' path k q v = data_ok c env path k q v" for k q v
    using m r by (auto simp: data_ok_def)
  have df: "data_file env path \<Longrightarrow> data_file env' path" if "env_mode env = File_system"
    using o np [OF that] r [OF that] m by (auto simp: data_file_def only_file_def fs_exists_def)
  show "coll_ok c env' path" using ok d df m by (auto simp: coll_ok_def)
  have "deserialize (env_fs env') pos path = deserialize (env_fs env) pos path" if "env_mode env = File_system" for pos
    using r [OF that] by (simp add: deserialize_def)
  then have "value_of c env' path q = value_of c env path q" for q
    using m by (simp add: value_of_def read_data_def split: option.split tdata.split)
  then show "coll_entries c env' path = coll_entries c env path" by (simp add: coll_entries_def)
qed

lemma record_paths_differ:
  assumes "\<forall>x \<in> {pn, sn, cn, p, q, n}. slashless x" "(p, q, n) \<noteq> (pn, sn, cn)"
  shows "record_path db pn sn cn \<noteq> record_path db p q n"
    "record_path db pn sn cn \<noteq> make_path_strings [record_path db p q n, show_nat i]"
  using assms by (auto simp: record_path_pools make_path_below pools_path_inj)

section \<open>Calls on records\<close>

lemma on_records_found:
  assumes ok: "db_ok db" and l: "db_lookup db pn sn cn = Some c"
    and f: "f c (ds_env db) (record_path db pn sn cn) = (r, c', env')"
    and c': "coll_ok c' env' (record_path db pn sn cn)" "only_file (record_path db pn sn cn) (ds_env db) env'"
  shows "\<exists>db'. on_records db pn sn cn f = (r, db') \<and> db_ok db' \<and> ds_env db' = env' \<and>
    db_lookup db' pn sn cn = Some c' \<and>
    (\<forall>p q n. db_entries db' p q n = (if p = pn \<and> q = sn \<and> n = cn
       then Some (coll_entries c' env' (record_path db pn sn cn)) else db_entries db p q n))"
proof -
  let ?path = "record_path db pn sn cn"
  have t: "db_trees db" "env_mode (ds_env db) \<noteq> Uninitialized" using ok by (simp_all add: db_ok_def)
  have l_ok: "coll_ok c (ds_env db) ?path" using ok l by (simp add: db_ok_def)
  have "throw_if_invalid_path db ?path = Inr ()"
    using l_ok by (auto simp: throw_if_invalid_path_def coll_ok_def data_file_def fs_exists_def fs_open_read_def
        split: option.splits)
  then have run: "on_records db pn sn cn f = at_collection db pn sn cn (\<lambda>c env. f c env ?path)"
    using t(2) by (simp add: on_records_def guarded_def throw_if_uninutialized_at_perform_def)
  obtain db' where db': "on_records db pn sn cn f = (r, db')" "db_trees db'" "ds_env db' = env'"
      "\<forall>p q n. db_lookup db' p q n = (if p = pn \<and> q = sn \<and> n = cn then Some c' else db_lookup db p q n)"
      "\<forall>p q. db_schema db' p q = None \<longleftrightarrow> db_schema db p q = None"
      "dom (bt_view (ds_pools db')) = dom (bt_view (ds_pools db))"
    using at_collection_found [where f = "\<lambda>c env. f c env ?path", OF t(1) l f] unfolding run by blast
  have m: "env_mode env' = env_mode (ds_env db)" and rp: "record_path db' = record_path db"
    using c'(2) db'(3) by (auto simp: only_file_def intro: record_path_env)
  have other: "coll_ok d env' (record_path db p q n) \<and>
      coll_entries d env' (record_path db p q n) = coll_entries d (ds_env db) (record_path db p q n)"
    if d: "db_lookup db p q n = Some d" "(p, q, n) \<noteq> (pn, sn, cn)" for p q n d
  proof -
    have "coll_ok d (ds_env db) (record_path db p q n)" using ok d(1) by (simp add: db_ok_def)
    moreover have "?path \<noteq> record_path db p q n \<and>
        ?path \<noteq> make_path_strings [record_path db p q n, show_nat (unat (env_id (ds_env db)))]"
      if "env_mode (ds_env db) = File_system"
      using record_paths_differ [OF _ d(2)] ok d(1) l that db_lookup_names [of db] by (simp add: db_ok_def)
    ultimately show ?thesis using coll_ok_other [OF _ c'(2)] by blast
  qed
  have "db_ok db'"
    unfolding db_ok_def
  proof (intro conjI allI impI)
    fix p q n d assume d: "db_lookup db' p q n = Some d"
    show "coll_ok d (ds_env db') (record_path db' p q n)"
      using d db'(3,4) c'(1) other by (auto simp: rp split: if_splits)
  next
    assume "env_mode (ds_env db') = File_system"
    then have "names_ok db" using ok m db'(3) by (simp add: db_ok_def)
    then show "names_ok db'"
      using db'(4-6) l unfolding names_ok_def by (metis domIff option.distinct(1))
  qed (use db' t m in auto)
  moreover have "db_entries db' p q n = (if p = pn \<and> q = sn \<and> n = cn
       then Some (coll_entries c' env' ?path) else db_entries db p q n)" for p q n
    using db'(3,4) other [of p q n] by (cases "db_lookup db p q n") (auto simp: db_entries_def rp)
  ultimately show ?thesis using db' by (intro exI [of _ db']) auto
qed

lemma db_ok_same_map:
  assumes "db_ok db" "db_trees db'" "ds_env db' = ds_env db" "db_schema db' = db_schema db"
    "dom (bt_view (ds_pools db')) = dom (bt_view (ds_pools db))"
  shows "db_ok db'" "db_entries db' = db_entries db"
proof -
  have l: "db_lookup db' = db_lookup db" using assms(4) by (simp add: db_lookup_def fun_eq_iff)
  have r: "record_path db' = record_path db" by (rule record_path_env) (simp add: assms(3))
  have "bt_view (ds_pools db') pn = None \<longleftrightarrow> bt_view (ds_pools db) pn = None" for pn
    using assms(5) by (metis domIff)
  then have "names_ok db' = names_ok db" using assms(4) l by (simp add: names_ok_def)
  then show "db_ok db'" using assms(1,2,3) l r by (simp add: db_ok_def)
  show "db_entries db' = db_entries db" using assms(3) l r by (simp add: db_entries_def fun_eq_iff)
qed

lemma on_records_missing:
  assumes ok: "db_ok db" and l: "db_lookup db pn sn cn = None"
  shows "\<exists>db'. on_records db pn sn cn f = (Inl Invalid_path, db') \<and> db_ok db' \<and> db_entries db' = db_entries db \<and>
    ds_env db' = ds_env db"
proof -
  let ?path = "record_path db pn sn cn"
  have t: "db_trees db" "env_mode (ds_env db) \<noteq> Uninitialized" using ok by (simp_all add: db_ok_def)
  show ?thesis
  proof (cases "throw_if_invalid_path db ?path")
    case (Inl e)
    then have "e = Invalid_path" by (auto simp: throw_if_invalid_path_def split: if_splits)
    then show ?thesis
      using Inl t(2) ok by (simp add: on_records_def guarded_def throw_if_uninutialized_at_perform_def)
  next
    case (Inr u)
    obtain db' where db': "at_collection db pn sn cn (\<lambda>c env. f c env ?path) = (Inl Invalid_path, db')" "db_trees db'"
        "ds_env db' = ds_env db" "db_schema db' = db_schema db"
        "dom (bt_view (ds_pools db')) = dom (bt_view (ds_pools db))"
      using at_collection_missing [OF t(1) l] by blast
    then show ?thesis
      using db_ok_same_map [OF ok db'(2-5)] Inr t(2)
      by (simp add: on_records_def guarded_def throw_if_uninutialized_at_perform_def)
  qed
qed

text \<open>A call that keeps its collection well-formed keeps the storage well-formed.\<close>

lemma on_records_kept:
  assumes "db_ok db"
    and "\<And>c. db_lookup db pn sn cn = Some c \<Longrightarrow>
      kept (record_path db pn sn cn) (ds_env db) (f c (ds_env db) (record_path db pn sn cn))"
  shows "db_ok (snd (on_records db pn sn cn f)) \<and>
    (\<forall>p q n. (p, q, n) \<noteq> (pn, sn, cn) \<longrightarrow> db_entries (snd (on_records db pn sn cn f)) p q n = db_entries db p q n)"
proof (cases "db_lookup db pn sn cn")
  case None
  then show ?thesis using on_records_missing [OF assms(1) None, of f] by auto
next
  case (Some c)
  obtain r c' env' where f: "f c (ds_env db) (record_path db pn sn cn) = (r, c', env')" by (cases "f c (ds_env db) (record_path db pn sn cn)")
  then show ?thesis using on_records_found [where f = f, OF assms(1) Some f] assms(2) [OF Some] by (auto simp: kept_def)
qed

end
