(* ===== verification/Storage_Steps.thy ===== *)
theory Storage_Steps
  imports Storage_Invariant
begin

text \<open>
  Adding pools, schemas and collections keeps the invariant: the collections that were there keep
  their entries, and a new one is empty.
\<close>

section \<open>Files of the structural operations\<close>

lemma coll_ok_env:
  assumes "env_mode env' = env_mode env" "env_id env' = env_id env"
    and "env_mode env = File_system \<Longrightarrow> fs_lookup (env_fs env') path = fs_lookup (env_fs env) path \<and>
      fs_lookup (env_fs env') (make_path_strings [path, show_nat (unat (env_id env))]) =
      fs_lookup (env_fs env) (make_path_strings [path, show_nat (unat (env_id env))])"
  shows "coll_ok c env path \<Longrightarrow> coll_ok c env' path" "coll_entries c env' path = coll_entries c env path"
proof -
  have r: "fs_open_read (env_fs env') path = fs_open_read (env_fs env) path" if "env_mode env = File_system"
    using assms(3) [OF that] by (simp add: fs_open_read_def)
  have d: "data_ok c env' path k q v = data_ok c env path k q v" for k q v
    using assms(1) r by (auto simp: data_ok_def)
  have "data_file env path \<Longrightarrow> data_file env' path" if "env_mode env = File_system"
    using assms(3) [OF that] r [OF that] assms(2) by (auto simp: data_file_def fs_exists_def)
  then show "coll_ok c env path \<Longrightarrow> coll_ok c env' path" using assms(1) d by (auto simp: coll_ok_def)
  have "deserialize (env_fs env') pos path = deserialize (env_fs env) pos path" if "env_mode env = File_system" for pos
    using r [OF that] by (simp add: deserialize_def)
  then have "value_of c env' path q = value_of c env path q" for q
    using assms(1) by (simp add: value_of_def read_data_def split: option.split tdata.split)
  then show "coll_entries c env' path = coll_entries c env path" by (simp add: coll_entries_def)
qed

text \<open>
  A change of the structure keeps the invariant when the collections that stay keep their files and
  every other one is well-formed.
\<close>

definition stays :: "db_storage \<Rightarrow> db_storage \<Rightarrow> string \<Rightarrow> string \<Rightarrow> string \<Rightarrow> bool" where
  "stays db db' pn sn cn \<longleftrightarrow> db_lookup db' pn sn cn = db_lookup db pn sn cn \<and>
     (env_mode (ds_env db) = File_system \<longrightarrow>
        fs_lookup (env_fs (ds_env db')) (record_path db pn sn cn) =
          fs_lookup (env_fs (ds_env db)) (record_path db pn sn cn) \<and>
        fs_lookup (env_fs (ds_env db')) (make_path_strings [record_path db pn sn cn, show_nat (unat (env_id (ds_env db)))]) =
          fs_lookup (env_fs (ds_env db)) (make_path_strings [record_path db pn sn cn, show_nat (unat (env_id (ds_env db)))]))"

lemma db_ok_structural:
  assumes ok: "db_ok db" and t: "db_trees db'"
    and e: "env_mode (ds_env db') = env_mode (ds_env db)" "env_id (ds_env db') = env_id (ds_env db)"
    and n: "env_mode (ds_env db) = File_system \<Longrightarrow> names_ok db'"
    and c: "\<And>pn sn cn c. db_lookup db' pn sn cn = Some c \<Longrightarrow>
      stays db db' pn sn cn \<or> coll_ok c (ds_env db') (record_path db pn sn cn)"
  shows "db_ok db'" "stays db db' pn sn cn \<Longrightarrow> db_entries db' pn sn cn = db_entries db pn sn cn"
proof -
  have r: "record_path db' = record_path db" by (rule record_path_env) (simp add: e)
  have "coll_ok d (ds_env db') (record_path db' pn sn cn)" if "db_lookup db' pn sn cn = Some d" for pn sn cn d
    using c [OF that]
  proof
    assume a: "stays db db' pn sn cn"
    then have "coll_ok d (ds_env db) (record_path db pn sn cn)" using ok that by (simp add: db_ok_def stays_def)
    then show ?thesis unfolding r by (rule coll_ok_env(1) [rotated -1]) (use a e in \<open>auto simp: stays_def\<close>)
  qed (simp add: r)
  then show "db_ok db'" using ok t e n by (simp add: db_ok_def)
  show "db_entries db' pn sn cn = db_entries db pn sn cn" if a: "stays db db' pn sn cn"
  proof -
    have "coll_entries d (ds_env db') (record_path db pn sn cn) = coll_entries d (ds_env db) (record_path db pn sn cn)" for d
      by (rule coll_ok_env(2)) (use a e in \<open>auto simp: stays_def\<close>)
    then show ?thesis using a by (simp add: db_entries_def r stays_def)
  qed
qed

text \<open>The files that creation and removal of a structure touch.\<close>

lemma fs_mkdir_other: "q \<noteq> p \<Longrightarrow> fs_lookup (fs_mkdir fs p) q = fs_lookup fs q"
  by (simp add: fs_mkdir_def)

lemma fs_open_trunc_other: "fs_open_trunc fs p = Some fs' \<Longrightarrow> q \<noteq> p \<Longrightarrow> fs_lookup fs' q = fs_lookup fs q"
  by (auto simp: fs_open_trunc_def dest: fs_open_append_other split: option.splits)

lemma write_cfg_other:
  assumes "write_cfg fs cfg is = (b, fs')" "q \<noteq> cfg"
  shows "fs_lookup fs' q = fs_lookup fs q"
  using assms
  by (auto simp: write_cfg_def fs_append_def dest: fs_open_trunc_other split: option.splits if_splits)

lemma fs_remove_other: "q \<noteq> p \<Longrightarrow> fs_lookup (fs_remove fs p) q = fs_lookup fs q" "q \<noteq> p \<Longrightarrow> fs_lookup (fs_rmdir fs p) q = fs_lookup fs q"
  by (auto simp: fs_remove_def fs_rmdir_def split: option.splits fs_entry.splits)

text \<open>The handler of \<open>create_cfg\<close> looks for a pool with the name of a path, which no pool has.\<close>

lemma create_cfg_kept:
  assumes "create_cfg db path is = (r, db')"
    and "env_mode (ds_env db) = File_system \<Longrightarrow> named_ok (ds_pools db) \<and> bt_view (ds_pools db) path = None"
  shows "ds_pools db' = ds_pools db \<and> env_mode (ds_env db') = env_mode (ds_env db) \<and>
    env_id (ds_env db') = env_id (ds_env db) \<and>
    (\<forall>q. q \<noteq> path \<and> q \<noteq> make_path_strings [path, ''cfg''] \<longrightarrow>
       fs_lookup (env_fs (ds_env db')) q = fs_lookup (env_fs (ds_env db)) q) \<and>
    (r = Inr () \<or> r = Inl Disposal_of_nonexistent_struct)"
proof -
  let ?fs = "env_fs (ds_env db)" and ?cfg = "make_path_strings [path, ''cfg'']"
  obtain b fs' where w: "write_cfg (fs_mkdir ?fs path) ?cfg is = (b, fs')" by fastforce
  have o: "fs_lookup fs' q = fs_lookup ?fs q" if "q \<noteq> path" "q \<noteq> ?cfg" for q
    using write_cfg_other [OF w that(2)] fs_mkdir_other [OF that(1)] by simp
  have d: "db_dispose_named (with_fs db g) path = (Inl Disposal_of_nonexistent_struct, with_fs db g)"
    if "env_mode (ds_env db) = File_system" for g
    using assms(2) [OF that] by (simp add: db_dispose_named_def with_fs_def dispose_named_new)
  have "(r, db') = (Inr (), db) \<or> (r, db') = (Inr (), with_fs db fs') \<or>
      (r, db') = (Inl Disposal_of_nonexistent_struct, with_fs db (fs_rmdir (fs_remove fs' ?cfg) path))"
    using assms(1) w d by (cases b) (auto simp: create_cfg_def Let_def split: if_splits)
  then show ?thesis using o fs_remove_other by (auto simp: with_fs_def)
qed

lemma create_collection_files_done:
  assumes "create_collection_files db path is d = (Inr (), db')"
  shows "ds_pools db' = ds_pools db \<and> env_mode (ds_env db') = env_mode (ds_env db) \<and>
    env_id (ds_env db') = env_id (ds_env db) \<and>
    (\<forall>q. q \<noteq> path \<and> q \<noteq> make_path_strings [path, ''cfg''] \<and>
         q \<noteq> make_path_strings [path, show_nat (unat (get_id db))] \<longrightarrow>
       fs_lookup (env_fs (ds_env db')) q = fs_lookup (env_fs (ds_env db)) q)"
proof -
  let ?fs = "env_fs (ds_env db)" and ?cfg = "make_path_strings [path, ''cfg'']"
    and ?strg = "make_path_strings [path, show_nat (unat (get_id db))]"
  let ?fs1 = "fs_mkdir ?fs path"
  define fs2 where "fs2 = (case fs_open_trunc ?fs1 ?strg of None \<Rightarrow> ?fs1 | Some fs2 \<Rightarrow> fs2)"
  have o: "fs_lookup fs2 q = fs_lookup ?fs q" if "q \<noteq> path" "q \<noteq> ?strg" for q
    using that fs_mkdir_other fs_open_trunc_other [of ?fs1 ?strg _ q] by (auto simp: fs2_def split: option.splits)
  obtain b fs' where w: "(if fs_exists fs2 ?strg then write_cfg fs2 ?cfg is else (False, fs2)) = (b, fs')"
    by fastforce
  have "db' = db \<or> b \<and> db' = with_fs db fs'"
    using assms w by (cases b)
      (auto simp: create_collection_files_def Let_def fs2_def [symmetric] split: if_splits prod.splits sum.splits)
  then show ?thesis
    using w write_cfg_other [of fs2 ?cfg "is" b fs'] o by (auto simp: with_fs_def split: if_splits)
qed

lemma create_collection_files_fresh:
  assumes "create_collection_files db path is d = (Inr (), db')" "env_mode (ds_env db) = File_system"
    "fs_lookup (env_fs (ds_env db)) (make_path_strings [path, show_nat (unat (get_id db))]) = None"
    "make_path_strings [path, show_nat (unat (get_id db))] \<noteq> make_path_strings [path, ''cfg'']"
    "make_path_strings [path, show_nat (unat (get_id db))] \<noteq> path"
  shows "fs_open_read (env_fs (ds_env db')) (make_path_strings [path, show_nat (unat (get_id db))]) = Some []"
proof -
  let ?fs = "env_fs (ds_env db)" and ?cfg = "make_path_strings [path, ''cfg'']"
    and ?strg = "make_path_strings [path, show_nat (unat (get_id db))]"
  let ?fs1 = "fs_mkdir ?fs path"
  have none: "fs_lookup ?fs1 ?strg = None" using assms(3,5) by (simp add: fs_mkdir_def)
  define fs2 where "fs2 = (case fs_open_trunc ?fs1 ?strg of None \<Rightarrow> ?fs1 | Some fs2 \<Rightarrow> fs2)"
  have ne: "\<not> fs_exists ?fs ?strg" using assms(3) by (simp add: fs_exists_def)
  obtain b fs' where w: "(if fs_exists fs2 ?strg then write_cfg fs2 ?cfg is else (False, fs2)) = (b, fs')"
    by fastforce
  have run: "create_collection_files db path is d =
      (case (b, fs') of
         (True, fs3) \<Rightarrow> (Inr (), with_fs db fs3)
       | (False, fs3) \<Rightarrow>
           (case d (with_fs db (fs_rmdir (fs_remove (fs_remove fs3 ?strg) ?cfg) path)) of
              (Inl e, db') \<Rightarrow> (Inl e, db')
            | (Inr _, db') \<Rightarrow> (Inl Insertion_of_struct_failure, db')))"
    using assms(2) ne unfolding create_collection_files_def Let_def fs2_def [symmetric] w by simp
  have b: "b" "db' = with_fs db fs'"
    using assms(1) unfolding run by (auto split: bool.splits prod.splits sum.splits)
  then have ex: "fs_exists fs2 ?strg" using w by (auto split: if_splits)
  then obtain g where g: "fs_open_trunc ?fs1 ?strg = Some g" "fs2 = g"
    using none by (auto simp: fs2_def fs_exists_def split: option.splits)
  then have "fs_open_read fs2 ?strg = Some []" by (auto simp: fs_open_trunc_def split: option.splits)
  then have "fs_open_read fs' ?strg = Some []"
    using w ex write_cfg_other [of fs2 ?cfg "is" b fs' ?strg] assms(4) by (simp add: fs_open_read_def)
  then show ?thesis using b(2) by (simp add: with_fs_def)
qed

lemma remove_all_other: "\<not> under_path p q \<Longrightarrow> fs_lookup (fs_remove_all fs p) q = fs_lookup fs q"
proof -
  assume n: "\<not> under_path p q"
  have "map_of (filter (\<lambda>r. \<not> under_path p (fst r)) xs) q = map_of xs q" for xs :: "(string \<times> fs_entry) list"
    using n by (induction xs) auto
  then show ?thesis by (simp add: fs_lookup_def fs_remove_all_def)
qed

lemma names_prefix:
  assumes "concat (map (\<lambda>x. CHR ''/'' # x) ys) = concat (map (\<lambda>x. CHR ''/'' # x) xs) @ CHR ''/'' # rest"
    "\<forall>x \<in> set xs. slashless x" "\<forall>y \<in> set ys. slashless y"
  shows "take (length xs) ys = xs"
  using assms
proof (induction xs arbitrary: ys)
  case (Cons x xs)
  then obtain y ys' where ys: "ys = y # ys'" by (cases ys) auto
  let ?p = "\<lambda>xs. concat (map (\<lambda>x. CHR ''/'' # x) xs)"
  have e: "y @ ?p ys' = x @ ?p xs @ CHR ''/'' # rest" using Cons.prems(1) by (simp add: ys)
  have s: "slashless x" "slashless y" using Cons.prems(2,3) by (simp_all add: ys)
  have "takeWhile (\<lambda>c. c \<noteq> CHR ''/'') (y @ ?p ys') = y"
    using s(2) by (cases ys') (auto simp: slashless_def takeWhile_append)
  moreover have "takeWhile (\<lambda>c. c \<noteq> CHR ''/'') (x @ ?p xs @ CHR ''/'' # rest) = x"
    using s(1) by (cases xs) (auto simp: slashless_def takeWhile_append)
  ultimately have xy: "y = x" using e by metis
  then have "take (length xs) ys' = xs" using Cons.IH [of ys'] Cons.prems(2,3) e by (simp add: ys)
  then show ?case by (simp add: ys xy)
qed simp

lemma under_pools_path:
  assumes "under_path (pools_path xs) (pools_path ys)" "\<forall>x \<in> set xs. slashless x" "\<forall>y \<in> set ys. slashless y"
  shows "take (length xs) ys = xs"
proof (cases "pools_path ys = pools_path xs")
  case True
  then show ?thesis using pools_path_inj assms(2,3) by auto
next
  case False
  then have "take (length (pools_path xs) + 1) (pools_path ys) = pools_path xs @ ''/''"
    using assms(1) by (simp add: under_path_def)
  then have "pools_path ys = pools_path xs @ CHR ''/'' # drop (length (pools_path xs) + 1) (pools_path ys)"
    by (metis append.assoc append_Cons append_Nil append_take_drop_id)
  then show ?thesis using names_prefix [OF _ assms(2,3)] by (simp add: pools_path_def)
qed

section \<open>Adding structures\<close>

lemma checks_Cons: "checks (r # rs) = Inr () \<longleftrightarrow> r = Inr () \<and> checks rs = Inr ()"
  by (cases r) auto

lemma guarded_Inr: "guarded db rs r = (Inr x, db') \<longleftrightarrow> checks rs = Inr () \<and> r = (Inr x, db')"
  by (auto simp: guarded_def split: sum.splits)

lemma valid_name_slashless:
  "throw_if_invalid_file_name db x = Inr () \<Longrightarrow> env_mode (ds_env db) = File_system \<Longrightarrow> slashless x"
  by (simp add: throw_if_invalid_file_name_def check_file_name_slashless)

lemma record_path_not_pools:
  assumes "slashless pn" "slashless sn" "slashless cn" "\<forall>x \<in> set xs. slashless x" "length xs \<noteq> 4" "length xs \<noteq> 5"
  shows "record_path db pn sn cn \<noteq> pools_path xs"
    "make_path_strings [record_path db pn sn cn, show_nat i] \<noteq> pools_path xs"
  using assms by (auto simp: record_path_pools make_path_below pools_path_inj)

lemma pool_new_named:
  assumes "pool_new env v t = Inr p"
  shows "pool_named (pool_move p)" "bt_view (p_schemas (pool_move p)) = Map.empty"
  using assms
  by (auto simp: pool_new_def pool_move_def bt_move_construct_def pool_named_def dest: named_tree_ok split: sum.splits)

lemma schema_new_named:
  assumes "schema_new env v t = Inr s"
  shows "named_ok (s_collections (schema_move s))" "bt_view (s_collections (schema_move s)) = Map.empty"
  using assms
  by (auto simp: schema_new_def schema_move_def bt_move_construct_def dest: named_tree_ok split: sum.splits)

lemma add_named_done:
  assumes "named_ok tr" "bt_fits tr" "add_named tr n v = (Inr (), tr')"
  shows "bt_view tr n = None" "named_ok tr'" "bt_view tr' = (bt_view tr)(n \<mapsto> v)"
proof -
  show n: "bt_view tr n = None"
  proof (rule ccontr)
    assume "bt_view tr n \<noteq> None"
    then show False using add_named_old [OF assms(1)] assms(3) by simp
  qed
  show "named_ok tr'" "bt_view tr' = (bt_view tr)(n \<mapsto> v)"
    using add_named_new [OF assms(1) n assms(2), of v] assms(3) by auto
qed

text \<open>A step that keeps the collections and touches no path of the length of a data file's.\<close>

lemma same_collections_kept:
  assumes ok: "db_ok db" and t: "db_trees db'"
    and e: "env_mode (ds_env db') = env_mode (ds_env db)" "env_id (ds_env db') = env_id (ds_env db)"
    and n: "env_mode (ds_env db) = File_system \<Longrightarrow> names_ok db' \<and> (\<forall>x \<in> set xs. slashless x)"
    and len: "length xs < 3" and l: "db_lookup db' = db_lookup db"
    and f: "\<forall>q. q \<noteq> pools_path xs \<and> q \<noteq> pools_path (xs @ [''cfg'']) \<longrightarrow>
      fs_lookup (env_fs (ds_env db')) q = fs_lookup (env_fs (ds_env db)) q"
  shows "db_ok db'" "db_entries db' = db_entries db"
proof -
  have st: "stays db db' p q c" if d: "db_lookup db p q c = Some d" for p q c d
    unfolding stays_def
  proof (intro conjI impI)
    assume m: "env_mode (ds_env db) = File_system"
    then have sl: "slashless p" "slashless q" "slashless c" using ok d db_lookup_names by (auto simp: db_ok_def)
    have "\<forall>x \<in> set xs. slashless x" "\<forall>x \<in> set (xs @ [''cfg'']). slashless x" using n [OF m] by auto
    note np = record_path_not_pools [OF sl this(1), of db] record_path_not_pools [OF sl this(2), of db]
    show "fs_lookup (env_fs (ds_env db')) (record_path db p q c) = fs_lookup (env_fs (ds_env db)) (record_path db p q c)"
      using f np len by simp
    show "fs_lookup (env_fs (ds_env db')) (make_path_strings [record_path db p q c, show_nat (unat (env_id (ds_env db)))]) =
        fs_lookup (env_fs (ds_env db)) (make_path_strings [record_path db p q c, show_nat (unat (env_id (ds_env db)))])"
      using f np len by simp
  qed (simp add: l)
  note k = db_ok_structural [OF ok t e]
  show "db_ok db'" by (rule k(1)) (use st l n in auto)
  have "db_entries db' x y z = db_entries db x y z" for x y z
  proof (cases "db_lookup db x y z")
    case None
    then show ?thesis by (simp add: db_entries_def l)
  next
    case (Some c)
    show ?thesis by (rule k(2)) (use st l n Some in auto)
  qed
  then show "db_entries db' = db_entries db" by (simp add: fun_eq_iff)
qed

text \<open>A structure is added with a new tree or an exception, and the exception leaves the tree.\<close>

lemma add_named_any:
  assumes "named_ok tr" "bt_fits tr" "add_named tr n v = (r, tr')"
  shows "r = Inr () \<and> bt_view tr n = None \<and> named_ok tr' \<and> bt_view tr' = (bt_view tr)(n \<mapsto> v) \<or>
    r = Inl Insertion_of_existent_struct \<and> bt_view tr n \<noteq> None \<and> tr' = tr"
  using add_named_old [OF assms(1), of n v] add_named_new [OF assms(1) _ assms(2), of n v] assms(3)
  by (cases "bt_view tr n") auto

lemma path_no_pool:
  assumes "db_ok db" "env_mode (ds_env db) = File_system"
  shows "bt_view (ds_pools db) (pools_path (x # xs)) = None"
proof -
  have "\<not> slashless (pools_path (x # xs))" by (simp add: pools_path_def slashless_def)
  then show ?thesis using assms unfolding db_ok_def names_ok_def by blast
qed

lemma add_pool_kept:
  assumes ok: "db_ok db" and fits: "bt_fits (ds_pools db)" and run: "add_pool db pn v t = (r, db')"
  shows "db_ok db' \<and> db_entries db' = db_entries db \<and> (r = Inr () \<longrightarrow> bt_view (ds_pools db') pn \<noteq> None)"
proof (cases "\<exists>db1. throw_if_invalid_file_name db pn = Inr () \<and> db_add_pool_named db pn v t = (Inr (), db1) \<and>
    create_cfg db1 (make_path_strings [''pools'', pn]) [int_of_tree_variant v, int t] = (r, db')")
  case False
  have "\<exists>e. r = Inl e \<and> (db' = db \<or> db_add_pool_named db pn v t = (r, db'))"
  proof (cases "checks [throw_if_uninutialized_at_perform db, throw_if_invalid_file_name db pn,
      throw_if_path_is_too_long db (make_path_strings [''pools'', pn])]")
    case (Inl e)
    then have "(Inl e, db) = (r, db')" unfolding run [symmetric] by (simp add: add_pool_def Let_def guarded_def)
    then show ?thesis by blast
  next
    case (Inr u)
    moreover from this have "throw_if_invalid_file_name db pn = Inr ()" by (simp add: checks_Cons)
    ultimately show ?thesis using run False
      by (auto simp: add_pool_def Let_def guarded_def split: prod.splits sum.splits)
  qed
  moreover have "db' = db" if "db_add_pool_named db pn v t = (Inl e, db')" for e
    using that add_named_any [OF _ fits] ok
    by (fastforce simp: db_add_pool_named_def db_ok_def db_trees_def split: sum.splits prod.splits)
  ultimately show ?thesis using ok by auto
next
  case True
  then obtain db1 where g: "throw_if_invalid_file_name db pn = Inr ()"
      "db_add_pool_named db pn v t = (Inr (), db1)"
      "create_cfg db1 (make_path_strings [''pools'', pn]) [int_of_tree_variant v, int t] = (r, db')"
    by blast
  have tr: "named_ok (ds_pools db)" "db_trees db" using ok by (simp_all add: db_ok_def db_trees_def)
  obtain p tr' where p: "pool_new (ds_env db) v t = Inr p"
      "add_named (ds_pools db) pn (pool_move p) = (Inr (), tr')" "db1 = db\<lparr>ds_pools := tr'\<rparr>"
    using g(2) by (auto simp: db_add_pool_named_def split: sum.splits prod.splits)
  note a = add_named_done [OF tr(1) fits p(2)]
  note pn = pool_new_named [OF p(1)]
  have np: "named_ok (ds_pools db1) \<and> bt_view (ds_pools db1) (pools_path [pn]) = None"
    if m: "env_mode (ds_env db1) = File_system"
  proof -
    have "slashless pn" by (rule valid_name_slashless [OF g(1)]) (use m in \<open>simp add: p(3)\<close>)
    then have "pools_path [pn] \<noteq> pn" by (auto simp: pools_path_def slashless_def)
    then show ?thesis using path_no_pool [OF ok] m a by (simp add: p(3))
  qed
  note f = create_cfg_kept [OF g(3), unfolded make_path_pools make_path_below, OF np, simplified]
  have "db_trees db1" using tr(2) a pn(1) by (auto simp: db_trees_def p(3))
  then have t': "db_trees db'" using f by (simp add: db_trees_def)
  have sch: "db_schema db' = db_schema db"
    using f a pn(2) by (auto simp: db_schema_def p(3) fun_eq_iff)
  then have l: "db_lookup db' = db_lookup db" by (simp add: db_lookup_def fun_eq_iff)
  have n: "names_ok db' \<and> (\<forall>x \<in> set [pn]. slashless x)" if m: "env_mode (ds_env db) = File_system"
    using ok valid_name_slashless [OF g(1) m] m f a(3) unfolding db_ok_def names_ok_def sch l by (auto simp: p(3))
  have e: "env_mode (ds_env db') = env_mode (ds_env db)" "env_id (ds_env db') = env_id (ds_env db)"
    and fs: "\<forall>q. q \<noteq> pools_path [pn] \<and> q \<noteq> pools_path ([pn] @ [''cfg'']) \<longrightarrow>
      fs_lookup (env_fs (ds_env db')) q = fs_lookup (env_fs (ds_env db)) q"
    using f by (simp_all add: p(3))
  note k = same_collections_kept [OF ok t' e n _ l fs]
  show ?thesis using k f a(3) by (simp add: p(3))
qed

lemma add_schema_kept:
  assumes ok: "db_ok db" and fits: "\<And>p. bt_view (ds_pools db) pn = Some p \<Longrightarrow> bt_fits (p_schemas p)"
    and run: "add_schema db pn sn v t = (r, db')"
  shows "db_ok db' \<and> db_entries db' = db_entries db \<and> (r = Inr () \<longrightarrow> db_schema db' pn sn \<noteq> None)"
proof -
  have tr: "db_trees db" using ok by (simp add: db_ok_def)
  let ?f = "\<lambda>p env. case pool_add p env sn v t of (r, p') \<Rightarrow> (r, p', env)"
  let ?guards = "[throw_if_uninutialized_at_perform db, throw_if_invalid_path db (make_path_strings [''pools'', pn]),
    throw_if_invalid_file_name db sn, throw_if_path_is_too_long db (make_path_strings [''pools'', pn, sn])]"
  obtain q db1 where ap: "at_pool db pn ?f = (q, db1)" by fastforce
  have run': "add_schema db pn sn v t = (case checks ?guards of Inl e \<Rightarrow> (Inl e, db) | Inr _ \<Rightarrow>
      (case q of Inl e \<Rightarrow> (Inl e, db1) | Inr _ \<Rightarrow>
        create_cfg db1 (make_path_strings [''pools'', pn, sn]) [int_of_tree_variant v, int t]))"
    by (simp add: add_schema_def Let_def guarded_def ap split: sum.split)
  show ?thesis
  proof (cases "checks ?guards")
    case (Inl e)
    then show ?thesis using run ok by (auto simp: run')
  next
    case Inr
    then have guards: "throw_if_invalid_file_name db sn = Inr ()" by (simp add: checks_Cons)
    show ?thesis
    proof (cases "bt_view (ds_pools db) pn")
      case None
      then have "(q, db1) = (Inl Invalid_path, db)" using at_pool_missing [OF tr None, of ?f] ap by simp
      then show ?thesis using run ok by (auto simp: run' Inr)
    next
      case (Some p)
      have pn: "pool_named p" "named_ok (p_schemas p)" using tr Some by (auto simp: db_trees_def pool_named_def)
      obtain pr p' where r: "pool_add p (ds_env db) sn v t = (pr, p')" by fastforce
      have f: "?f p (ds_env db) = (pr, p', ds_env db)" using r by simp
      have alt: "(\<exists>e. pr = Inl e \<and> p' = p) \<or>
        (\<exists>s. pr = Inr () \<and> bt_view (p_schemas p) sn = None \<and> pool_named p' \<and>
          bt_view (p_schemas p') = (bt_view (p_schemas p))(sn \<mapsto> s) \<and> bt_view (s_collections s) = Map.empty)"
      proof (cases "schema_new (ds_env db) v t")
        case (Inl e)
        then show ?thesis using r by (auto simp: pool_add_def)
      next
        case (Inr s)
        obtain ar at where a: "add_named (p_schemas p) sn (schema_move s) = (ar, at)" by fastforce
        have "pr = ar" "p' = p\<lparr>p_schemas := at\<rparr>" using r by (simp_all add: pool_add_def Inr a)
        then show ?thesis
          using add_named_any [OF pn(2) fits [OF Some] a] schema_new_named [OF Inr] pn(1)
          by (elim disjE conjE) (auto simp: pool_named_def)
      qed
      then have p': "pool_named p'" using pn(1) by auto
      obtain db2 where db2: "at_pool db pn ?f = (pr, db2)" "db_trees db2" "ds_env db2 = ds_env db"
          "bt_view (ds_pools db2) = (bt_view (ds_pools db))(pn \<mapsto> p')"
        using at_pool_found [where f = ?f, OF tr Some f p'] by blast
      have d12: "db2 = db1" "q = pr" using db2(1) ap by simp_all
      have dm: "dom (bt_view (ds_pools db1)) = dom (bt_view (ds_pools db))" using db2(4) Some d12 by auto
      show ?thesis using alt
      proof (elim disjE exE conjE)
        fix e assume e: "pr = Inl e" "p' = p"
        have "db_schema db1 = db_schema db" using db2(4) Some e d12 by (auto simp: db_schema_def fun_eq_iff)
        from db_ok_same_map [OF ok _ _ this dm] show ?thesis using run Inr db2 d12 e by (auto simp: run')
      next
        fix s assume s: "pr = Inr ()" "bt_view (p_schemas p) sn = None"
          "bt_view (p_schemas p') = (bt_view (p_schemas p))(sn \<mapsto> s)" "bt_view (s_collections s) = Map.empty"
        have g: "create_cfg db1 (make_path_strings [''pools'', pn, sn]) [int_of_tree_variant v, int t] = (r, db')"
          using run s(1) Inr by (simp add: run' d12)
        have np: "named_ok (ds_pools db1) \<and> bt_view (ds_pools db1) (pools_path [pn, sn]) = None"
          if m: "env_mode (ds_env db1) = File_system"
        proof -
          have "bt_view (ds_pools db) (pools_path [pn, sn]) = None"
            using path_no_pool [OF ok] m db2(3) by (simp add: d12)
          then have "bt_view (ds_pools db1) (pools_path [pn, sn]) = None" using dm by (metis domIff)
          then show ?thesis using db2(2) by (simp add: d12 db_trees_def)
        qed
        note f = create_cfg_kept [OF g, unfolded make_path_pools make_path_below, OF np, simplified]
        have t': "db_trees db'" using f db2(2) by (simp add: db_trees_def d12)
        have sch: "db_schema db' x y = (if x = pn \<and> y = sn then Some s else db_schema db x y)" for x y
          using f Some s db2(4) by (auto simp: db_schema_def d12)
        have old: "db_schema db pn sn = None" using Some s(2) by (simp add: db_schema_def)
        have l: "db_lookup db' = db_lookup db" using sch old s(4) by (auto simp: db_lookup_def fun_eq_iff)
        have n: "names_ok db' \<and> (\<forall>x \<in> set [pn, sn]. slashless x)" if m: "env_mode (ds_env db) = File_system"
          using ok valid_name_slashless [OF guards m] m f db2(4) Some sch
          unfolding db_ok_def names_ok_def l by (auto simp: d12)
        have e: "env_mode (ds_env db') = env_mode (ds_env db)" "env_id (ds_env db') = env_id (ds_env db)"
          and fs: "\<forall>q. q \<noteq> pools_path [pn, sn] \<and> q \<noteq> pools_path ([pn, sn] @ [''cfg'']) \<longrightarrow>
            fs_lookup (env_fs (ds_env db')) q = fs_lookup (env_fs (ds_env db)) q"
          using f db2(3) by (simp_all add: d12)
        note k = same_collections_kept [OF ok t' e n _ l fs]
        show ?thesis using k sch by simp
      qed
    qed
  qed
qed

lemma cfg_not_number: "show_nat n \<noteq> ''cfg''" "''cfg'' \<noteq> show_nat n"
proof -
  have "\<not> is_digit (CHR ''c'')" by (simp add: is_digit_def less_eq_char_def)
  then show "show_nat n \<noteq> ''cfg''" using show_nat_digits [of n] by force
  then show "''cfg'' \<noteq> show_nat n" by simp
qed

text \<open>A new collection, moved into its schema, is empty.\<close>

lemma collection_new_ok:
  assumes "collection_new env v a m t = Inr c"
  shows "bt_inv tkey_comparer (c_data (collection_move env c))" "bt_entries (c_data (collection_move env c)) = []"
  using assms
  by (auto simp: collection_new_def collection_move_def bt_move_construct_def b_tree_new_def bt_inv_def bt_ok_def
      tree_ok_def bt_entries_def split: if_splits)

lemma empty_collection_ok:
  assumes "bt_inv tkey_comparer (c_data c)" "bt_entries (c_data c) = []" "env_mode env \<noteq> Uninitialized"
    "env_mode env = File_system \<Longrightarrow> data_file env path"
  shows "coll_ok c env path" "coll_entries c env path = []"
  using assms by (auto simp: coll_ok_def coll_entries_def)

text \<open>The schema after \<open>schema.add\<close>, and the map after it.\<close>

lemma schema_add_found:
  assumes tr: "db_trees db" and fits: "\<And>s. db_schema db pn sn = Some s \<Longrightarrow> bt_fits (s_collections s)"
    and run: "at_schema db pn sn (\<lambda>s env. case schema_add s env cn v a m t of (r, s') \<Rightarrow> (r, s', env)) = (Inr (), db1)"
  shows "\<exists>c. db_trees db1 \<and> ds_env db1 = ds_env db \<and> db_lookup db pn sn cn = None \<and>
    bt_inv tkey_comparer (c_data c) \<and> bt_entries (c_data c) = [] \<and>
    (\<forall>p q n. db_lookup db1 p q n = (if p = pn \<and> q = sn \<and> n = cn then Some c else db_lookup db p q n)) \<and>
    (\<forall>p q. db_schema db1 p q = None \<longleftrightarrow> db_schema db p q = None) \<and> db_schema db pn sn \<noteq> None \<and>
    dom (bt_view (ds_pools db1)) = dom (bt_view (ds_pools db))"
proof -
  let ?f = "\<lambda>s env. case schema_add s env cn v a m t of (r, s') \<Rightarrow> (r, s', env)"
  obtain s where s: "db_schema db pn sn = Some s"
    using at_schema_missing [OF tr, of pn sn ?f] run by (cases "db_schema db pn sn") auto
  have n: "named_ok (s_collections s)"
    using tr s by (auto simp: db_trees_def pool_named_def db_schema_def bind_eq_Some_conv)
  obtain r s' where r: "schema_add s (ds_env db) cn v a m t = (r, s')" by fastforce
  have f: "?f s (ds_env db) = (r, s', ds_env db)" using r by simp
  have "\<exists>r' db'. at_schema db pn sn ?f = (r', db') \<and> r' = r"
  proof -
    obtain p where p: "bt_view (ds_pools db) pn = Some p" "bt_view (p_schemas p) sn = Some s"
      using s by (auto simp: db_schema_def bind_eq_Some_conv)
    have "named_ok (ds_pools db)" "named_ok (p_schemas p)" using tr p(1) by (auto simp: db_trees_def pool_named_def)
    then show ?thesis
      using p r by (simp add: at_schema_def at_pool_def db_obtain_named_def pool_obtain_def obtain_named_eq)
  qed
  then have r': "r = Inr ()" using run by auto
  obtain c0 tr' where c0: "collection_new (ds_env db) v a m t = Inr c0"
      "add_named (s_collections s) cn (collection_move (ds_env db) c0) = (Inr (), tr')" "s' = s\<lparr>s_collections := tr'\<rparr>"
    using r r' by (auto simp: schema_add_def split: sum.splits prod.splits)
  note ad = add_named_done [OF n fits [OF s] c0(2)]
  have n': "named_ok (s_collections s')" using ad(2) c0(3) by simp
  obtain db2 where db2: "at_schema db pn sn ?f = (Inr (), db2)" "db_trees db2" "ds_env db2 = ds_env db"
      "\<forall>p q. db_schema db2 p q = (if p = pn \<and> q = sn then Some s' else db_schema db p q)"
      "dom (bt_view (ds_pools db2)) = dom (bt_view (ds_pools db))"
    using at_schema_found [where f = ?f, OF tr s f n'] r' by blast
  have "db2 = db1" using db2(1) run by simp
  moreover have "db_lookup db pn sn cn = None" using s ad(1) by (simp add: db_lookup_def)
  moreover have "db_lookup db2 p q n = (if p = pn \<and> q = sn \<and> n = cn then Some (collection_move (ds_env db) c0)
      else db_lookup db p q n)" for p q n
    using db2(4) s ad(3) by (auto simp: db_lookup_def c0(3))
  ultimately show ?thesis
    using db2 s collection_new_ok [OF c0(1)] by (intro exI [of _ "collection_move (ds_env db) c0"]) auto
qed

lemma add_collection_kept:
  assumes ok: "db_ok db" and fits: "\<And>s. db_schema db pn sn = Some s \<Longrightarrow> bt_fits (s_collections s)"
    and clean: "env_mode (ds_env db) = File_system \<Longrightarrow>
      fs_lookup (env_fs (ds_env db)) (record_path db pn sn cn) = None \<and>
      fs_lookup (env_fs (ds_env db)) (make_path_strings [record_path db pn sn cn, show_nat (unat (get_id db))]) = None"
    and run: "add_collection db pn sn cn v a m t = (Inr (), db')"
  shows "db_ok db' \<and> (\<forall>p q n. db_entries db' p q n = (if p = pn \<and> q = sn \<and> n = cn then Some [] else db_entries db p q n))"
proof -
  have tr: "db_trees db" using ok by (simp add: db_ok_def)
  let ?path = "make_path_strings [''pools'', pn, sn, cn]" and ?i = "show_nat (unat (get_id db))"
  obtain db1 d ns where g: "throw_if_invalid_file_name db cn = Inr ()"
      "at_schema db pn sn (\<lambda>s env. case schema_add s env cn v a m t of (r, s') \<Rightarrow> (r, s', env)) = (Inr (), db1)"
      "create_collection_files db1 ?path ns d = (Inr (), db')"
    using run by (auto simp: add_collection_def Let_def guarded_Inr checks_Cons split: prod.splits sum.splits)
  obtain c where c: "db_trees db1" "ds_env db1 = ds_env db" "db_lookup db pn sn cn = None"
      "bt_inv tkey_comparer (c_data c)" "bt_entries (c_data c) = []"
      "\<forall>p q n. db_lookup db1 p q n = (if p = pn \<and> q = sn \<and> n = cn then Some c else db_lookup db p q n)"
      "\<forall>p q. db_schema db1 p q = None \<longleftrightarrow> db_schema db p q = None" "db_schema db pn sn \<noteq> None"
      "dom (bt_view (ds_pools db1)) = dom (bt_view (ds_pools db))"
    using schema_add_found [OF tr fits g(2)] by auto
  have gi: "get_id db1 = get_id db" using c(2) by (simp add: get_id_def)
  note f = create_collection_files_done [OF g(3), unfolded make_path_pools make_path_below gi, simplified]
  have l: "db_lookup db' p q n = (if p = pn \<and> q = sn \<and> n = cn then Some c else db_lookup db p q n)" for p q n
    using f c(6) by (simp add: db_lookup_def db_schema_def)
  have sch: "db_schema db' = db_schema db1" using f by (simp add: db_schema_def fun_eq_iff)
  have t': "db_trees db'" using f c(1) by (simp add: db_trees_def)
  have e: "env_mode (ds_env db') = env_mode (ds_env db)" "env_id (ds_env db') = env_id (ds_env db)"
    using f c(2) by simp_all
  have sl: "slashless pn" "slashless sn" "slashless cn" if m: "env_mode (ds_env db) = File_system"
  proof -
    have nm: "names_ok db" using ok m by (simp add: db_ok_def)
    have "bt_view (ds_pools db) pn \<noteq> None" using c(8) by (auto simp: db_schema_def bind_eq_Some_conv)
    then show "slashless pn" "slashless sn" using nm c(8) unfolding names_ok_def by blast+
    show "slashless cn" using valid_name_slashless [OF g(1) m] .
  qed
  have n: "names_ok db'" if m: "env_mode (ds_env db) = File_system"
  proof -
    have "bt_view (ds_pools db') x = None \<longleftrightarrow> bt_view (ds_pools db) x = None" for x
      using c(9) f by (metis domIff)
    then show ?thesis using ok m c(7) sl [OF m] l by (auto simp: db_ok_def names_ok_def sch)
  qed
  let ?rp = "record_path db pn sn cn"
  have new: "coll_ok c (ds_env db') ?rp" "coll_entries c (ds_env db') ?rp = []"
  proof -
    have "data_file (ds_env db') ?rp" if m: "env_mode (ds_env db') = File_system"
    proof -
      have m0: "env_mode (ds_env db) = File_system" using m e by simp
      have p: "?rp = make_path_strings [?path, ?i]" by (simp add: record_path_pools make_path_pools make_path_below get_id_def)
      have "make_path_strings [?path, ?i] \<noteq> make_path_strings [?path, ''cfg'']" "make_path_strings [?path, ?i] \<noteq> ?path"
        using sl [OF m0] cfg_not_number by (simp_all add: make_path_pools make_path_below pools_path_inj)
      then have "fs_open_read (env_fs (ds_env db')) ?rp = Some []"
        using create_collection_files_fresh [OF g(3)] clean [OF m0] m0 c(2) by (simp add: gi p)
      moreover have "fs_lookup (env_fs (ds_env db')) (make_path_strings [?rp, ?i]) = None"
        using clean [OF m0] f c(2) sl [OF m0]
        by (simp add: record_path_pools make_path_below pools_path_inj get_id_def)
      ultimately show ?thesis using e(2) by (simp add: data_file_def fs_exists_def get_id_def)
    qed
    moreover have "env_mode (ds_env db') \<noteq> Uninitialized" using ok e by (simp add: db_ok_def)
    ultimately show "coll_ok c (ds_env db') ?rp" "coll_entries c (ds_env db') ?rp = []"
      using empty_collection_ok [OF c(4,5)] by auto
  qed
  have st: "stays db db' p q x" if d: "db_lookup db p q x = Some y" "(p, q, x) \<noteq> (pn, sn, cn)" for p q x y
    unfolding stays_def
  proof (intro conjI impI)
    assume m: "env_mode (ds_env db) = File_system"
    have "slashless p" "slashless q" "slashless x" using ok d(1) m db_lookup_names by (auto simp: db_ok_def)
    note s = this sl [OF m]
    show "fs_lookup (env_fs (ds_env db')) (record_path db p q x) = fs_lookup (env_fs (ds_env db)) (record_path db p q x)"
      "fs_lookup (env_fs (ds_env db')) (make_path_strings [record_path db p q x, show_nat (unat (env_id (ds_env db)))]) =
        fs_lookup (env_fs (ds_env db)) (make_path_strings [record_path db p q x, show_nat (unat (env_id (ds_env db)))])"
      using f c(2) s d(2) cfg_not_number by (auto simp: record_path_pools make_path_below pools_path_inj)
  qed (use l d in auto)
  note k = db_ok_structural [OF ok t' e n]
  have cond: "stays db db' p q x \<or> coll_ok y (ds_env db') (record_path db p q x)"
    if "db_lookup db' p q x = Some y" for p q x y
    using that new(1) st l by (cases "(p, q, x) = (pn, sn, cn)") auto
  have r: "record_path db' = record_path db" by (rule record_path_env) (simp add: e)
  have "db_ok db'" by (rule k(1)) (use cond in auto)
  moreover have "db_entries db' p q x = (if p = pn \<and> q = sn \<and> x = cn then Some [] else db_entries db p q x)" for p q x
  proof (cases "(p, q, x) = (pn, sn, cn)")
    case True
    then show ?thesis using new(2) l by (simp add: db_entries_def r)
  next
    case False
    show ?thesis
    proof (cases "db_lookup db p q x")
      case None
      then show ?thesis using False l by (auto simp: db_entries_def)
    next
      case (Some y)
      have "db_entries db' p q x = db_entries db p q x" by (rule k(2)) (use cond st [OF Some False] in auto)
      then show ?thesis using False by auto
    qed
  qed
  ultimately show ?thesis by blast
qed

end
