(* ===== verification/Storage_Reachable.thy ===== *)
theory Storage_Reachable
  imports Storage_Steps
begin

text \<open>
  Disposing of pools, schemas and collections keeps the invariant, and the calls on the storage as a
  step relation: every storage reached from a set-up one is well-formed.
\<close>

section \<open>Disposing of structures\<close>

lemma dispose_named_done:
  assumes "named_ok tr" "bt_has_room tr" "dispose_named tr n = (Inr (), tr')"
  shows "bt_view tr n \<noteq> None" "named_ok tr'" "bt_view tr' = (bt_view tr)(n := None)"
proof -
  show n: "bt_view tr n \<noteq> None"
  proof
    assume "bt_view tr n = None"
    then show False using dispose_named_new [OF assms(1), of n] assms(3) by simp
  qed
  then obtain v where v: "bt_view tr n = Some v" by blast
  have "\<not> disposal_swaps_null tr n" using assms(3) dispose_named_undefined [of tr n] by auto
  from dispose_named_old [OF assms(1) v assms(2) this]
  show "named_ok tr'" "bt_view tr' = (bt_view tr)(n := None)" using assms(3) by auto
qed

text \<open>Any other outcome leaves the tree as it was.\<close>

lemma dispose_named_any:
  assumes "named_ok tr" "bt_has_room tr" "dispose_named tr n = (r, tr')"
  shows "r = Inr () \<or> (\<exists>e. r = Inl e) \<and> tr' = tr"
proof (cases "disposal_swaps_null tr n")
  case True
  then show ?thesis using dispose_named_undefined [OF True] assms(3) by auto
next
  case False
  then show ?thesis
    using dispose_named_old [OF assms(1) _ assms(2) False] dispose_named_new [OF assms(1), of n] assms(3)
    by (cases "bt_view tr n") auto
qed

text \<open>The names in \<open>xs\<close> lead to what is removed, with all the files below.\<close>

lemma subtree_removed_kept:
  assumes ok: "db_ok db" and t: "db_trees db1" and e1: "ds_env db1 = ds_env db"
    and l: "\<And>p q n. db_lookup db1 p q n = (if take (length xs) [p, q, n] = xs then None else db_lookup db p q n)"
    and n: "env_mode (ds_env db) = File_system \<Longrightarrow> names_ok db1 \<and> (\<forall>x \<in> set xs. slashless x)"
    and len: "length xs \<le> 3"
    and db': "db' = with_fs db1 (fs_remove_all (env_fs (ds_env db1)) (pools_path xs))"
  shows "db_ok db'" "db_entries db' p q c = (if take (length xs) [p, q, c] = xs then None else db_entries db p q c)"
proof -
  have t': "db_trees db'" using t by (simp add: db_trees_def db' with_fs_def)
  have e: "env_mode (ds_env db') = env_mode (ds_env db)" "env_id (ds_env db') = env_id (ds_env db)"
    by (simp_all add: db' with_fs_def e1)
  have s': "db_schema db' = db_schema db1" by (simp add: db_schema_def db' with_fs_def fun_eq_iff)
  then have l': "db_lookup db' = db_lookup db1" by (simp add: db_lookup_def fun_eq_iff)
  have n': "names_ok db'" if "env_mode (ds_env db) = File_system"
    using n [OF that] by (simp add: names_ok_def l' s') (simp add: db' with_fs_def)
  have st: "stays db db' p q c" if d: "db_lookup db p q c = Some d" and o: "take (length xs) [p, q, c] \<noteq> xs" for p q c d
    unfolding stays_def
  proof (intro conjI impI)
    assume m: "env_mode (ds_env db) = File_system"
    then have s: "slashless p" "slashless q" "slashless c" using ok d db_lookup_names by (auto simp: db_ok_def)
    let ?i = "show_nat (unat (get_id db))"
    have "\<not> under_path (pools_path xs) (pools_path ([p, q, c] @ ys))" if "\<forall>y \<in> set ys. slashless y" for ys
    proof
      assume "under_path (pools_path xs) (pools_path ([p, q, c] @ ys))"
      then have "take (length xs) ([p, q, c] @ ys) = xs" by (rule under_pools_path) (use n [OF m] s that in auto)
      then show False using o len by (simp add: take_Cons' split: if_splits)
    qed
    from this [of "[?i]"] this [of "[?i, ?i]"]
    show "fs_lookup (env_fs (ds_env db')) (record_path db p q c) = fs_lookup (env_fs (ds_env db)) (record_path db p q c)"
      "fs_lookup (env_fs (ds_env db')) (make_path_strings [record_path db p q c, show_nat (unat (env_id (ds_env db)))]) =
        fs_lookup (env_fs (ds_env db)) (make_path_strings [record_path db p q c, show_nat (unat (env_id (ds_env db)))])"
      by (simp_all add: db' with_fs_def e1 record_path_pools make_path_below remove_all_other get_id_def)
  qed (use l l' o in simp)
  note k = db_ok_structural [OF ok t' e n']
  have c: "stays db db' p q c \<or> coll_ok d (ds_env db') (record_path db p q c)" if "db_lookup db' p q c = Some d" for p q c d
    using that st l l' by (metis option.distinct(1))
  show "db_ok db'" by (rule k(1)) (use c in auto)
  show "db_entries db' p q c = (if take (length xs) [p, q, c] = xs then None else db_entries db p q c)"
  proof (cases "db_lookup db' p q c")
    case None
    then show ?thesis using l l' by (auto simp: db_entries_def)
  next
    case (Some d)
    then have o: "take (length xs) [p, q, c] \<noteq> xs" "db_lookup db p q c = Some d"
      using l l' by (auto split: if_splits)
    have "db_entries db' p q c = db_entries db p q c" by (rule k(2)) (use c st [OF o(2,1)] in auto)
    then show ?thesis using o(1) by simp
  qed
qed

lemma dispose_pool_kept:
  assumes ok: "db_ok db" and room: "bt_has_room (ds_pools db)" and run: "dispose_pool db pn = (Inr (), db')"
  shows "db_ok db' \<and> (\<forall>p q n. db_entries db' p q n = (if p = pn then None else db_entries db p q n)) \<and>
    bt_view (ds_pools db') pn = None"
proof -
  have tr: "named_ok (ds_pools db)" "db_trees db" using ok by (simp_all add: db_ok_def db_trees_def)
  obtain tr' where g: "dispose_named (ds_pools db) pn = (Inr (), tr')"
      "db' = with_fs (db\<lparr>ds_pools := tr'\<rparr>) (fs_remove_all (env_fs (ds_env db)) (make_path_strings [''pools'', pn]))"
    using run by (auto simp: dispose_pool_def guarded_Inr checks_Cons db_dispose_named_def split: prod.splits sum.splits)
  note d = dispose_named_done [OF tr(1) room g(1)]
  let ?db1 = "db\<lparr>ds_pools := tr'\<rparr>"
  have t: "db_trees ?db1" using tr(2) d by (auto simp: db_trees_def)
  have s: "db_schema ?db1 p q = (if p = pn then None else db_schema db p q)" for p q
    using d(3) by (simp add: db_schema_def)
  then have l: "db_lookup ?db1 p q n = (if take (length [pn]) [p, q, n] = [pn] then None else db_lookup db p q n)" for p q n
    by (simp add: db_lookup_def)
  have n: "names_ok ?db1 \<and> (\<forall>x \<in> set [pn]. slashless x)" if "env_mode (ds_env db) = File_system"
    using ok that d(1,3) l unfolding db_ok_def names_ok_def s by auto
  note k = subtree_removed_kept [OF ok t _ l n, of db']
  show ?thesis using k g(2) d(3) by (simp add: make_path_pools with_fs_def)
qed

lemma dispose_schema_kept:
  assumes ok: "db_ok db" and room: "\<And>p. bt_view (ds_pools db) pn = Some p \<Longrightarrow> bt_has_room (p_schemas p)"
    and run: "dispose_schema db pn sn = (Inr (), db')"
  shows "db_ok db' \<and> (\<forall>p q n. db_entries db' p q n = (if p = pn \<and> q = sn then None else db_entries db p q n)) \<and>
    db_schema db' pn sn = None"
proof -
  have tr: "db_trees db" using ok by (simp add: db_ok_def)
  let ?f = "\<lambda>p env. case pool_dispose p sn of (r, p') \<Rightarrow> (r, p', env)"
  obtain db1 where g: "at_pool db pn ?f = (Inr (), db1)"
      "db' = with_fs db1 (fs_remove_all (env_fs (ds_env db1)) (make_path_strings [''pools'', pn, sn]))"
    using run by (auto simp: dispose_schema_def guarded_Inr checks_Cons split: prod.splits sum.splits)
  obtain p where p: "bt_view (ds_pools db) pn = Some p"
    using at_pool_missing [OF tr, of pn ?f] g(1) by (cases "bt_view (ds_pools db) pn") auto
  have pn: "pool_named p" "named_ok (p_schemas p)" using tr p by (auto simp: db_trees_def pool_named_def)
  obtain r p' where r: "pool_dispose p sn = (r, p')" by fastforce
  have "at_pool db pn ?f = (r, db\<lparr>ds_pools := set_named (ds_pools db) pn p'\<rparr>)"
    using p r tr by (simp add: at_pool_def db_obtain_named_def obtain_named_eq db_trees_def)
  then have r': "pool_dispose p sn = (Inr (), p')" using g(1) r by simp
  obtain tr' where s: "dispose_named (p_schemas p) sn = (Inr (), tr')" "p' = p\<lparr>p_schemas := tr'\<rparr>"
    using r' by (auto simp: pool_dispose_def split: prod.splits)
  note d = dispose_named_done [OF pn(2) room [OF p] s(1)]
  have p': "pool_named p'" using pn(1) d by (auto simp: pool_named_def s(2))
  have "?f p (ds_env db) = (Inr (), p', ds_env db)" using r' by simp
  then obtain db2 where db2: "at_pool db pn ?f = (Inr (), db2)" "db_trees db2" "ds_env db2 = ds_env db"
      "bt_view (ds_pools db2) = (bt_view (ds_pools db))(pn \<mapsto> p')"
    using at_pool_found [where f = ?f, OF tr p _ p'] by blast
  have d12: "db2 = db1" using db2(1) g(1) by simp
  have sc: "db_schema db1 x y = (if x = pn \<and> y = sn then None else db_schema db x y)" for x y
    using db2(4) p d(3) by (auto simp: db_schema_def s(2) d12)
  have was: "db_schema db pn sn \<noteq> None" using p d(1) by (simp add: db_schema_def)
  have l: "db_lookup db1 x y n = (if take (length [pn, sn]) [x, y, n] = [pn, sn] then None else db_lookup db x y n)" for x y n
    using sc by (simp add: db_lookup_def)
  have n: "names_ok db1 \<and> (\<forall>x \<in> set [pn, sn]. slashless x)" if "env_mode (ds_env db) = File_system"
    using ok that was p db2(4) l unfolding db_ok_def names_ok_def sc by (auto simp: d12)
  have t1: "db_trees db1" "ds_env db1 = ds_env db" using db2 d12 by simp_all
  note k = subtree_removed_kept [OF ok t1 l n, of db']
  show ?thesis using k g(2) sc by (simp add: make_path_pools with_fs_def db_schema_def)
qed

lemma dispose_collection_kept:
  assumes ok: "db_ok db" and room: "\<And>s. db_schema db pn sn = Some s \<Longrightarrow> bt_has_room (s_collections s)"
    and run: "dispose_collection db pn sn cn = (Inr (), db')"
  shows "db_ok db' \<and> (\<forall>p q n. db_entries db' p q n = (if p = pn \<and> q = sn \<and> n = cn then None else db_entries db p q n))"
proof -
  have tr: "db_trees db" using ok by (simp add: db_ok_def)
  let ?f = "\<lambda>s env. case schema_dispose s cn of (r, s') \<Rightarrow> (r, s', env)"
  obtain db1 where g: "at_schema db pn sn ?f = (Inr (), db1)"
      "db' = with_fs db1 (fs_remove_all (env_fs (ds_env db1)) (make_path_strings [''pools'', pn, sn, cn]))"
    using run by (auto simp: dispose_collection_def guarded_Inr checks_Cons split: prod.splits sum.splits)
  obtain s where s: "db_schema db pn sn = Some s"
    using at_schema_missing [OF tr, of pn sn ?f] g(1) by (cases "db_schema db pn sn") auto
  have n: "named_ok (s_collections s)"
    using tr s by (auto simp: db_trees_def pool_named_def db_schema_def bind_eq_Some_conv)
  obtain r tr' where d0: "dispose_named (s_collections s) cn = (r, tr')" by fastforce
  have f: "?f s (ds_env db) = (r, s\<lparr>s_collections := tr'\<rparr>, ds_env db)" by (simp add: schema_dispose_def d0)
  have n': "named_ok tr'"
    using dispose_named_any [OF n room [OF s] d0] dispose_named_done(2) [OF n room [OF s]] d0 n by auto
  obtain db2 where db2: "at_schema db pn sn ?f = (r, db2)" "db_trees db2" "ds_env db2 = ds_env db"
      "\<forall>p q. db_schema db2 p q = (if p = pn \<and> q = sn then Some (s\<lparr>s_collections := tr'\<rparr>) else db_schema db p q)"
      "dom (bt_view (ds_pools db2)) = dom (bt_view (ds_pools db))"
    using at_schema_found [where f = ?f, OF tr s f] n' by auto
  have d12: "db2 = db1" "r = Inr ()" using db2(1) g(1) by simp_all
  note d = dispose_named_done [OF n room [OF s] d0 [unfolded d12(2)]]
  have l: "db_lookup db1 p q x =
      (if take (length [pn, sn, cn]) [p, q, x] = [pn, sn, cn] then None else db_lookup db p q x)" for p q x
    using db2(4) s d(3) by (auto simp: db_lookup_def d12)
  have was: "db_lookup db pn sn cn \<noteq> None" "db_schema db pn sn \<noteq> None" "bt_view (ds_pools db) pn \<noteq> None"
    using s d(1) by (auto simp: db_lookup_def db_schema_def bind_eq_Some_conv)
  have sc: "db_schema db1 p q = None \<longleftrightarrow> db_schema db p q = None" for p q using db2(4) s by (simp add: d12)
  have pl: "bt_view (ds_pools db1) x = None \<longleftrightarrow> bt_view (ds_pools db) x = None" for x
    using db2(5) unfolding d12 by (metis domIff)
  have nm: "names_ok db1 \<and> (\<forall>x \<in> set [pn, sn, cn]. slashless x)" if "env_mode (ds_env db) = File_system"
  proof -
    have "names_ok db" using ok that by (simp add: db_ok_def)
    then show ?thesis using was unfolding names_ok_def sc pl l by auto
  qed
  have t1: "db_trees db1" "ds_env db1 = ds_env db" using db2 d12 by simp_all
  note k = subtree_removed_kept [OF ok t1 l nm, of db']
  show ?thesis using k g(2) by (simp add: make_path_pools)
qed

text \<open>A call that throws leaves the map as it was.\<close>

lemma dispose_pool_refused:
  assumes ok: "db_ok db" and room: "bt_has_room (ds_pools db)" and run: "dispose_pool db pn = (Inl e, db')"
  shows "db_ok db' \<and> db_entries db' = db_entries db"
proof -
  have tr: "named_ok (ds_pools db)" using ok by (simp add: db_ok_def db_trees_def)
  obtain r tr' where d: "dispose_named (ds_pools db) pn = (r, tr')" by fastforce
  have "db' = db"
    using run d dispose_named_any [OF tr room d]
    by (auto simp: dispose_pool_def guarded_def db_dispose_named_def split: sum.splits)
  then show ?thesis using ok by simp
qed

lemma dispose_schema_refused:
  assumes ok: "db_ok db" and room: "\<And>p. bt_view (ds_pools db) pn = Some p \<Longrightarrow> bt_has_room (p_schemas p)"
    and run: "dispose_schema db pn sn = (Inl e, db')"
  shows "db_ok db' \<and> db_entries db' = db_entries db"
proof -
  have tr: "db_trees db" using ok by (simp add: db_ok_def)
  let ?f = "\<lambda>p env. case pool_dispose p sn of (r, p') \<Rightarrow> (r, p', env)"
  have run': "db' = db \<or> at_pool db pn ?f = (Inl e, db')"
    using run by (auto simp: dispose_schema_def guarded_def split: sum.splits prod.splits)
  show ?thesis
  proof (cases "bt_view (ds_pools db) pn")
    case None
    then have "db' = db" using run' at_pool_missing [OF tr None, of ?f] by auto
    then show ?thesis using ok by simp
  next
    case (Some p)
    have pn: "pool_named p" "named_ok (p_schemas p)" using tr Some by (auto simp: db_trees_def pool_named_def)
    obtain r tr' where d: "dispose_named (p_schemas p) sn = (r, tr')" by fastforce
    have f: "?f p (ds_env db) = (r, p\<lparr>p_schemas := tr'\<rparr>, ds_env db)" by (simp add: pool_dispose_def d)
    have "at_pool db pn ?f = (r, db\<lparr>ds_pools := set_named (ds_pools db) pn (p\<lparr>p_schemas := tr'\<rparr>)\<rparr>)"
      using Some f tr by (simp add: at_pool_def db_obtain_named_def obtain_named_eq db_trees_def)
    then consider "db' = db" | "r \<noteq> Inr ()" "tr' = p_schemas p" using run' dispose_named_any [OF pn(2) room [OF Some] d] by auto
    then show ?thesis
    proof cases
      case 2
      obtain db2 where db2: "at_pool db pn ?f = (r, db2)" "db_trees db2" "ds_env db2 = ds_env db"
          "bt_view (ds_pools db2) = (bt_view (ds_pools db))(pn \<mapsto> p)"
        using at_pool_found [where f = ?f, OF tr Some f] pn(1) 2(2) by auto
      have "bt_view (ds_pools db2) = bt_view (ds_pools db)" using db2(4) Some by auto
      then have "db_schema db2 = db_schema db" "dom (bt_view (ds_pools db2)) = dom (bt_view (ds_pools db))"
        by (auto simp: db_schema_def intro!: ext)
      from db_ok_same_map [OF ok db2(2,3) this] show ?thesis using run' db2(1) ok by auto
    qed (use ok in simp)
  qed
qed

lemma dispose_collection_refused:
  assumes ok: "db_ok db" and room: "\<And>s. db_schema db pn sn = Some s \<Longrightarrow> bt_has_room (s_collections s)"
    and run: "dispose_collection db pn sn cn = (Inl e, db')"
  shows "db_ok db' \<and> db_entries db' = db_entries db"
proof -
  have tr: "db_trees db" using ok by (simp add: db_ok_def)
  let ?f = "\<lambda>s env. case schema_dispose s cn of (r, s') \<Rightarrow> (r, s', env)"
  have run': "db' = db \<or> at_schema db pn sn ?f = (Inl e, db')"
    using run by (auto simp: dispose_collection_def guarded_def split: sum.splits prod.splits)
  show ?thesis
  proof (cases "db_schema db pn sn")
    case None
    obtain db2 where db2: "at_schema db pn sn ?f = (Inl Invalid_path, db2)" "db_trees db2" "ds_env db2 = ds_env db"
        "bt_view (ds_pools db2) = bt_view (ds_pools db)"
      using at_schema_missing [OF tr None] by blast
    have "db_schema db2 = db_schema db" "dom (bt_view (ds_pools db2)) = dom (bt_view (ds_pools db))"
      using db2(4) by (auto simp: db_schema_def intro!: ext)
    from db_ok_same_map [OF ok db2(2,3) this] show ?thesis using run' db2(1) ok by auto
  next
    case (Some s)
    have n: "named_ok (s_collections s)"
      using tr Some by (auto simp: db_trees_def pool_named_def db_schema_def bind_eq_Some_conv)
    obtain r tr' where d: "dispose_named (s_collections s) cn = (r, tr')" by fastforce
    have f: "?f s (ds_env db) = (r, s\<lparr>s_collections := tr'\<rparr>, ds_env db)" by (simp add: schema_dispose_def d)
    have n': "named_ok tr'"
      using d dispose_named_done(2) [OF n room [OF Some]] dispose_named_any [OF n room [OF Some] d] n by auto
    obtain db2 where db2: "at_schema db pn sn ?f = (r, db2)" "db_trees db2" "ds_env db2 = ds_env db"
        "\<forall>p q. db_schema db2 p q = (if p = pn \<and> q = sn then Some (s\<lparr>s_collections := tr'\<rparr>) else db_schema db p q)"
        "dom (bt_view (ds_pools db2)) = dom (bt_view (ds_pools db))"
      using at_schema_found [where f = ?f, OF tr Some f] n' by auto
    consider "db' = db" | "db' = db2" "tr' = s_collections s"
      using run' db2(1) dispose_named_any [OF n room [OF Some] d] by auto
    then show ?thesis
    proof cases
      case 2
      have "db_schema db2 = db_schema db" using db2(4) Some 2(2) by (auto simp: fun_eq_iff)
      from db_ok_same_map [OF ok db2(2,3) this db2(5)] show ?thesis using 2(1) by simp
    qed (use ok in simp)
  qed
qed

section \<open>Setting up\<close>

lemma setup_db_done:
  assumes "setup_db db new_id mode = (Inr (), db')"
  shows "env_mode (ds_env db) = Uninitialized \<and> env_mode (ds_env db') = mode \<and> env_id (ds_env db') = new_id \<and>
    mode \<noteq> Uninitialized \<and> 0 < new_id \<and> ds_pools db' = ds_pools db"
  using assms
  by (auto simp: setup_db_def guarded_Inr checks_Cons throw_if_initialized_at_setup_def throw_if_invalid_setup_def
      Let_def split: if_splits)

lemma setup_db_new_ok:
  assumes "setup_db (db_storage_new fs mem cwd junk) new_id mode = (Inr (), db)"
  shows "db_ok db \<and> db_entries db = (\<lambda>p q n. None)"
proof -
  note d = setup_db_done [OF assms]
  have p: "ds_pools db = \<lparr>bt_root = None, bt_t = 8, bt_keys_comparer = default_key_comparer_string, bt_memory = mem\<rparr>"
    using d by (simp add: db_storage_new_def)
  have "named_ok (ds_pools db)" "bt_view (ds_pools db) = Map.empty"
    by (simp_all add: p bt_inv_def bt_ok_def bt_view_def bt_entries_def tree_ok_def)
  then show ?thesis using d
    by (simp add: db_ok_def db_trees_def names_ok_def db_lookup_def db_schema_def db_entries_def fun_eq_iff)
qed

section \<open>The calls as steps\<close>

text \<open>
  A call is a step whether it returns or throws, except that an \<open>add_collection\<close> that throws is left
  out, and so are the disposals of pools, schemas and collections with undefined behaviour. The trees have
  to fit into the memory that is left, and a disposal must not meet a full inner node; a new
  collection has to find none of its files on the disk. \<open>consolidate\<close>, \<open>load_db\<close> and \<open>clear\<close> are no steps.
\<close>

inductive db_step :: "db_storage \<Rightarrow> db_storage \<Rightarrow> bool" where
  step_add: "db_step db (snd (db_add db pn sn cn k v))"
  if "sized k v" "\<And>c. db_lookup db pn sn cn = Some c \<Longrightarrow> bt_fits (c_data c)"
| step_add_rvalue: "db_step db (snd (db_add_rvalue db pn sn cn k v))"
  if "sized k v" "\<And>c. db_lookup db pn sn cn = Some c \<Longrightarrow> bt_fits (c_data c)"
| step_update: "db_step db (snd (db_update db pn sn cn k v))" if "sized k v"
| step_update_rvalue: "db_step db (snd (db_update_rvalue db pn sn cn k v))" if "sized k v"
| step_dispose: "db_step db (snd (db_dispose db pn sn cn k))"
  if "\<And>c. db_lookup db pn sn cn = Some c \<Longrightarrow> bt_has_room (c_data c)"
| step_obtain: "db_step db (snd (db_obtain db pn sn cn k))"
| step_obtain_between: "db_step db (snd (db_obtain_between db pn sn cn lo hi li ui))"
| step_obtain_min: "db_step db (snd (db_obtain_min db pn sn cn))"
| step_obtain_max: "db_step db (snd (db_obtain_max db pn sn cn))"
| step_obtain_next: "db_step db (snd (db_obtain_next db pn sn cn k))"
| step_records_cnt: "db_step db (snd (db_get_collection_records_cnt db pn sn cn))"
| step_add_pool: "db_step db (snd (add_pool db pn tv t))" if "bt_fits (ds_pools db)"
| step_add_schema: "db_step db (snd (add_schema db pn sn tv t))"
  if "\<And>p. bt_view (ds_pools db) pn = Some p \<Longrightarrow> bt_fits (p_schemas p)"
| step_add_collection: "db_step db db'"
  if "add_collection db pn sn cn tv av fm t = (Inr (), db')"
    "\<And>s. db_schema db pn sn = Some s \<Longrightarrow> bt_fits (s_collections s)"
    "env_mode (ds_env db) = File_system \<Longrightarrow>
      fs_lookup (env_fs (ds_env db)) (record_path db pn sn cn) = None \<and>
      fs_lookup (env_fs (ds_env db)) (make_path_strings [record_path db pn sn cn, show_nat (unat (get_id db))]) = None"
| step_dispose_pool: "db_step db (snd (dispose_pool db pn))"
  if "fst (dispose_pool db pn) \<noteq> Inl Db_undefined_behaviour" "bt_has_room (ds_pools db)"
| step_dispose_schema: "db_step db (snd (dispose_schema db pn sn))"
  if "fst (dispose_schema db pn sn) \<noteq> Inl Db_undefined_behaviour"
    "\<And>p. bt_view (ds_pools db) pn = Some p \<Longrightarrow> bt_has_room (p_schemas p)"
| step_dispose_collection: "db_step db (snd (dispose_collection db pn sn cn))"
  if "fst (dispose_collection db pn sn cn) \<noteq> Inl Db_undefined_behaviour"
    "\<And>s. db_schema db pn sn = Some s \<Longrightarrow> bt_has_room (s_collections s)"
| step_setup: "db_step db (snd (setup_db db new_id mode))"

inductive db_reachable :: "db_storage \<Rightarrow> bool" where
  reachable_setup: "db_reachable db"
  if "setup_db (db_storage_new fs mem cwd junk) new_id mode = (Inr (), db)"
| reachable_step: "db_reachable db'" if "db_reachable db" "db_step db db'"

text \<open>A call on the records of one collection keeps the entries of all others.\<close>

lemma records_kept:
  assumes ok: "db_ok db"
  shows "sized k v \<Longrightarrow> (\<And>c. db_lookup db pn sn cn = Some c \<Longrightarrow> bt_fits (c_data c)) \<Longrightarrow>
      db_ok (snd (db_add db pn sn cn k v)) \<and> db_ok (snd (db_add_rvalue db pn sn cn k v))"
    "sized k v \<Longrightarrow> db_ok (snd (db_update db pn sn cn k v)) \<and> db_ok (snd (db_update_rvalue db pn sn cn k v))"
    "(\<And>c. db_lookup db pn sn cn = Some c \<Longrightarrow> bt_has_room (c_data c)) \<Longrightarrow> db_ok (snd (db_dispose db pn sn cn k))"
    "db_ok (snd (db_obtain db pn sn cn k))" "db_ok (snd (db_obtain_between db pn sn cn lo hi li ui))"
    "db_ok (snd (db_obtain_min db pn sn cn))" "db_ok (snd (db_obtain_max db pn sn cn))"
    "db_ok (snd (db_obtain_next db pn sn cn k))" "db_ok (snd (db_get_collection_records_cnt db pn sn cn))"
proof -
  have c: "coll_ok c (ds_env db) (record_path db pn sn cn)" if "db_lookup db pn sn cn = Some c" for c
    using ok that by (simp add: db_ok_def)
  note k = on_records_kept [OF ok, THEN conjunct1]
  have rv: "collection_insert_rvalue = collection_insert" "collection_update_rvalue = collection_update"
    by (simp_all add: fun_eq_iff collection_insert_rvalue_def collection_insert_def collection_update_rvalue_def
        collection_update_def)
  show "db_ok (snd (db_add db pn sn cn k v)) \<and> db_ok (snd (db_add_rvalue db pn sn cn k v))"
    if "sized k v" "\<And>c. db_lookup db pn sn cn = Some c \<Longrightarrow> bt_fits (c_data c)"
    unfolding db_add_def db_add_rvalue_def rv by (intro conjI k collection_insert_kept c that)
  show "db_ok (snd (db_update db pn sn cn k v)) \<and> db_ok (snd (db_update_rvalue db pn sn cn k v))" if "sized k v"
    unfolding db_update_def db_update_rvalue_def rv by (intro conjI k collection_update_kept c that)
  show "db_ok (snd (db_dispose db pn sn cn k))"
    if "\<And>c. db_lookup db pn sn cn = Some c \<Longrightarrow> bt_has_room (c_data c)"
    unfolding db_dispose_def by (intro k collection_dispose_kept c that)
  show "db_ok (snd (db_obtain db pn sn cn k))" "db_ok (snd (db_obtain_between db pn sn cn lo hi li ui))"
    "db_ok (snd (db_obtain_min db pn sn cn))" "db_ok (snd (db_obtain_max db pn sn cn))"
    "db_ok (snd (db_obtain_next db pn sn cn k))"
    unfolding db_obtain_def db_obtain_between_def db_obtain_min_def db_obtain_max_def db_obtain_next_def
    by (intro k lookups_kept c; assumption)+
  show "db_ok (snd (db_get_collection_records_cnt db pn sn cn))"
    unfolding db_get_collection_records_cnt_def by (rule k) (simp add: kept_def c)
qed

lemma setup_again:
  assumes "env_mode (ds_env db) \<noteq> Uninitialized"
  shows "setup_db db new_id mode = (Inl (Setup_failure ''attempt to change previously set up mode''), db)"
  using assms by (simp add: setup_db_def guarded_def throw_if_initialized_at_setup_def)

lemma structures_kept:
  assumes ok: "db_ok db"
  shows "bt_fits (ds_pools db) \<Longrightarrow> db_ok (snd (add_pool db pn tv t))"
    "(\<And>p. bt_view (ds_pools db) pn = Some p \<Longrightarrow> bt_fits (p_schemas p)) \<Longrightarrow> db_ok (snd (add_schema db pn sn tv t))"
    "bt_has_room (ds_pools db) \<Longrightarrow> db_ok (snd (dispose_pool db pn))"
    "(\<And>p. bt_view (ds_pools db) pn = Some p \<Longrightarrow> bt_has_room (p_schemas p)) \<Longrightarrow> db_ok (snd (dispose_schema db pn sn))"
    "(\<And>s. db_schema db pn sn = Some s \<Longrightarrow> bt_has_room (s_collections s)) \<Longrightarrow>
      db_ok (snd (dispose_collection db pn sn cn))"
proof -
  show "db_ok (snd (add_pool db pn tv t))" if "bt_fits (ds_pools db)"
    by (rule add_pool_kept [OF ok that, THEN conjunct1, of pn tv t "fst (add_pool db pn tv t)"]) simp
  show "db_ok (snd (add_schema db pn sn tv t))" if "\<And>p. bt_view (ds_pools db) pn = Some p \<Longrightarrow> bt_fits (p_schemas p)"
    by (rule add_schema_kept [OF ok that, THEN conjunct1, of pn sn tv t "fst (add_schema db pn sn tv t)"]) simp_all
  show "db_ok (snd (dispose_pool db pn))" if h: "bt_has_room (ds_pools db)"
  proof (cases "dispose_pool db pn")
    case (Pair r db')
    then show ?thesis using dispose_pool_kept [OF ok h] dispose_pool_refused [OF ok h] by (cases r) auto
  qed
  show "db_ok (snd (dispose_schema db pn sn))"
    if h: "\<And>p. bt_view (ds_pools db) pn = Some p \<Longrightarrow> bt_has_room (p_schemas p)"
  proof (cases "dispose_schema db pn sn")
    case (Pair r db')
    then show ?thesis using dispose_schema_kept [OF ok h] dispose_schema_refused [OF ok h] by (cases r) auto
  qed
  show "db_ok (snd (dispose_collection db pn sn cn))"
    if h: "\<And>s. db_schema db pn sn = Some s \<Longrightarrow> bt_has_room (s_collections s)"
  proof (cases "dispose_collection db pn sn cn")
    case (Pair r db')
    then show ?thesis
      using dispose_collection_kept [OF ok h] dispose_collection_refused [OF ok h] by (cases r) auto
  qed
qed

lemma db_step_ok: "db_step db db' \<Longrightarrow> db_ok db \<Longrightarrow> db_ok db'"
proof (induction rule: db_step.induct)
  case (step_add_collection db pn sn cn tv av fm t db')
  from add_collection_kept [OF step_add_collection(4,2,3,1)] show ?case by blast
next
  case (step_setup db new_id mode)
  then show ?case by (simp add: setup_again db_ok_def)
qed (simp_all add: records_kept structures_kept)

lemma reachable_ok: "db_reachable db \<Longrightarrow> db_ok db"
  by (induction rule: db_reachable.induct) (auto dest: setup_db_new_ok db_step_ok)

inductive_cases db_reachableE: "db_reachable db"

text \<open>The mode and the identity of a storage are set once.\<close>

lemma db_step_env:
  assumes "db_ok db" "db_step db db'"
  shows "env_mode (ds_env db') \<noteq> Uninitialized"
  using db_step_ok [OF assms(2,1)] by (simp add: db_ok_def)

end
