(* ===== verification/Storage_Records.thy ===== *)
theory Storage_Records
  imports Storage_Reachable
begin

text \<open>
  The calls on records of a well-formed storage, as operations on the sorted list of entries of one
  collection: what they return, and that they change this list alone.
\<close>

section \<open>Calls that only read\<close>

lemma db_read:
  assumes ok: "db_ok db" and l: "db_lookup db pn sn cn = Some c"
    and f: "f c (ds_env db) (record_path db pn sn cn) = (r, c\<lparr>c_disposed_cnt := d\<rparr>, ds_env db)"
  shows "\<exists>db'. on_records db pn sn cn f = (r, db') \<and> db_ok db' \<and> ds_env db' = ds_env db \<and>
    db_entries db' = db_entries db \<and>
    map_option c_data (db_lookup db' pn sn cn) = map_option c_data (db_lookup db pn sn cn)"
proof -
  let ?p = "record_path db pn sn cn"
  have c: "coll_ok (c\<lparr>c_disposed_cnt := d\<rparr>) (ds_env db) ?p" using ok l by (simp add: db_ok_def)
  obtain db' where db': "on_records db pn sn cn f = (r, db')" "db_ok db'" "ds_env db' = ds_env db"
      "db_lookup db' pn sn cn = Some (c\<lparr>c_disposed_cnt := d\<rparr>)"
      "\<forall>p q n. db_entries db' p q n = (if p = pn \<and> q = sn \<and> n = cn
         then Some (coll_entries c (ds_env db) ?p) else db_entries db p q n)"
    using on_records_found [where f = f, OF ok l f c] by auto
  moreover have "db_entries db pn sn cn = Some (coll_entries c (ds_env db) ?p)" using l by (simp add: db_entries_def)
  ultimately have "db_entries db' = db_entries db" by (auto simp: fun_eq_iff)
  then show ?thesis using db' l by (intro exI [of _ db']) simp
qed

lemma db_entriesE:
  assumes "db_ok db" "db_entries db pn sn cn = Some xs"
  obtains c where "db_lookup db pn sn cn = Some c" "coll_ok c (ds_env db) (record_path db pn sn cn)"
    "coll_entries c (ds_env db) (record_path db pn sn cn) = xs"
  using assms by (auto simp: db_ok_def db_entries_def)

lemma db_entries_sorted:
  assumes "db_ok db" "db_entries db pn sn cn = Some xs"
  shows "sorted_keys xs"
proof -
  obtain c where c: "coll_ok c (ds_env db) (record_path db pn sn cn)"
      "coll_entries c (ds_env db) (record_path db pn sn cn) = xs"
    using assms by (rule db_entriesE)
  from sorted_coll_entries [OF c(1)] c(2) show ?thesis by simp
qed

lemma db_read_exact:
  assumes "db_ok db" "db_entries db pn sn cn = Some xs"
    and "\<And>c env path. coll_ok c env path \<Longrightarrow> coll_entries c env path = xs \<Longrightarrow>
      \<exists>d. f c env path = (r, c\<lparr>c_disposed_cnt := d\<rparr>, env)"
  shows "\<exists>db'. on_records db pn sn cn f = (r, db') \<and> db_ok db' \<and> ds_env db' = ds_env db \<and>
    db_entries db' = db_entries db \<and>
    map_option c_data (db_lookup db' pn sn cn) = map_option c_data (db_lookup db pn sn cn)"
proof -
  obtain c where c: "db_lookup db pn sn cn = Some c" "coll_ok c (ds_env db) (record_path db pn sn cn)"
      "coll_entries c (ds_env db) (record_path db pn sn cn) = xs"
    using assms(1,2) by (rule db_entriesE)
  from assms(3) [OF c(2,3)] obtain d where
    "f c (ds_env db) (record_path db pn sn cn) = (r, c\<lparr>c_disposed_cnt := d\<rparr>, ds_env db)" by blast
  from db_read [where f = f, OF assms(1) c(1) this] show ?thesis .
qed

lemma db_obtain_missing:
  assumes "db_ok db" "db_entries db pn sn cn = None"
  shows "\<exists>db'. db_obtain db pn sn cn k = (Inl Invalid_path, db') \<and> db_ok db' \<and> db_entries db' = db_entries db"
proof -
  have "db_lookup db pn sn cn = None" using assms(2) by (simp add: db_entries_def)
  from on_records_missing [OF assms(1) this] show ?thesis unfolding db_obtain_def by blast
qed

text \<open>What a call that only reads does: its result, and the same entries everywhere and the same tree.\<close>

definition answers :: "'a db_result \<Rightarrow> db_exn + 'a \<Rightarrow> db_storage \<Rightarrow> string \<Rightarrow> string \<Rightarrow> string \<Rightarrow> bool" where
  "answers res r db pn sn cn \<longleftrightarrow>
     fst res = r \<and> db_ok (snd res) \<and> ds_env (snd res) = ds_env db \<and> db_entries (snd res) = db_entries db \<and>
     map_option c_data (db_lookup (snd res) pn sn cn) = map_option c_data (db_lookup db pn sn cn)"

lemma answersE:
  assumes "answers res r db pn sn cn"
  obtains db' where "res = (r, db')" "db_ok db'" "ds_env db' = ds_env db" "db_entries db' = db_entries db"
    "map_option c_data (db_lookup db' pn sn cn) = map_option c_data (db_lookup db pn sn cn)"
  using assms by (cases res) (auto simp: answers_def)

lemma db_answers:
  assumes "db_ok db" "db_entries db pn sn cn = Some xs"
    and "\<And>c env path. coll_ok c env path \<Longrightarrow> coll_entries c env path = xs \<Longrightarrow>
      \<exists>d. f c env path = (r, c\<lparr>c_disposed_cnt := d\<rparr>, env)"
  shows "answers (on_records db pn sn cn f) r db pn sn cn"
  using db_read_exact [where f = f, OF assms(1,2,3)] by (auto simp: answers_def)

lemma db_obtain_exact:
  assumes "db_ok db" "db_entries db pn sn cn = Some xs"
  shows "answers (db_obtain db pn sn cn k)
    (case map_of xs k of None \<Rightarrow> Inl Db_obtaining_of_nonexistent_key | Some v \<Rightarrow> Inr v) db pn sn cn"
  unfolding db_obtain_def using collection_obtain_exact by (intro db_answers [OF assms]) blast

lemma db_obtain_min_exact:
  assumes "db_ok db" "db_entries db pn sn cn = Some xs"
  shows "answers (db_obtain_min db pn sn cn)
    (case xs of [] \<Rightarrow> Inl Db_obtaining_of_nonexistent_key | x # _ \<Rightarrow> Inr x) db pn sn cn"
  unfolding db_obtain_min_def using collection_obtain_min_exact by (intro db_answers [OF assms]) blast

lemma db_obtain_max_exact:
  assumes "db_ok db" "db_entries db pn sn cn = Some xs"
  shows "answers (db_obtain_max db pn sn cn)
    (if xs = [] then Inl Db_obtaining_of_nonexistent_key else Inr (last xs)) db pn sn cn"
  unfolding db_obtain_max_def using collection_obtain_max_exact by (intro db_answers [OF assms]) blast

lemma db_obtain_next_exact:
  assumes "db_ok db" "db_entries db pn sn cn = Some xs"
  shows "answers (db_obtain_next db pn sn cn k)
    (case next_entry k xs of None \<Rightarrow> Inl Db_obtaining_of_nonexistent_key | Some x \<Rightarrow> Inr x) db pn sn cn"
  unfolding db_obtain_next_def using collection_obtain_next_exact by (intro db_answers [OF assms]) blast

lemma db_obtain_between_exact:
  assumes "db_ok db" "db_entries db pn sn cn = Some xs" "xs \<noteq> []"
  shows "answers (db_obtain_between db pn sn cn lo hi li ui)
    (Inr (filter (\<lambda>p. (if li then lo \<le> fst p else lo < fst p) \<and> (if ui then fst p \<le> hi else fst p < hi)) xs)) db pn sn cn"
  unfolding db_obtain_between_def
proof (rule db_answers [OF assms(1,2)])
  fix c env path assume c: "coll_ok c env path" "coll_entries c env path = xs"
  then have "bt_root (c_data c) \<noteq> None" using assms(3) by (auto simp: coll_entries_def bt_entries_def)
  from collection_obtain_between_exact [OF c(1) this, of lo hi li ui] c(2)
  show "\<exists>d. collection_obtain_between c env lo hi li ui path =
    (Inr (filter (\<lambda>p. (if li then lo \<le> fst p else lo < fst p) \<and> (if ui then fst p \<le> hi else fst p < hi)) xs),
     c\<lparr>c_disposed_cnt := d\<rparr>, env)" by simp
qed

section \<open>Calls that write\<close>

lemma db_write:
  assumes ok: "db_ok db" and l: "db_lookup db pn sn cn = Some c"
    and f: "f c (ds_env db) (record_path db pn sn cn) = (r, c', env')"
    and c': "coll_ok c' env' (record_path db pn sn cn)" "only_file (record_path db pn sn cn) (ds_env db) env'"
      "coll_entries c' env' (record_path db pn sn cn) = ys"
  shows "\<exists>db'. on_records db pn sn cn f = (r, db') \<and> db_ok db' \<and>
    db_entries db' = (\<lambda>p q n. if (p, q, n) = (pn, sn, cn) then Some ys else db_entries db p q n)"
proof -
  obtain db' where "on_records db pn sn cn f = (r, db')" "db_ok db'"
      "\<forall>p q n. db_entries db' p q n = (if p = pn \<and> q = sn \<and> n = cn then Some ys else db_entries db p q n)"
    using on_records_found [where f = f, OF ok l f c'(1,2)] c'(3) by auto
  then show ?thesis by (intro exI [of _ db']) (auto simp: fun_eq_iff)
qed

lemma db_add_exact:
  assumes ok: "db_ok db" and xs: "db_entries db pn sn cn = Some xs" and w: "writable (ds_env db) k v"
    and fits: "\<And>c. db_lookup db pn sn cn = Some c \<Longrightarrow> bt_fits (c_data c)"
  shows "\<exists>db'. db_add db pn sn cn k v =
      (if k \<in> fst ` set xs then Inl Db_insertion_of_existent_key else Inr (), db') \<and> db_ok db' \<and>
    db_entries db' = (\<lambda>p q n. if (p, q, n) = (pn, sn, cn)
      then Some (if k \<in> fst ` set xs then xs else upd_entries k v xs) else db_entries db p q n)"
proof -
  obtain c where c: "db_lookup db pn sn cn = Some c" "coll_ok c (ds_env db) (record_path db pn sn cn)"
      "coll_entries c (ds_env db) (record_path db pn sn cn) = xs"
    using ok xs by (rule db_entriesE)
  have "\<exists>c' env'. collection_insert c (ds_env db) k v (record_path db pn sn cn) =
        (if k \<in> fst ` set xs then Inl Db_insertion_of_existent_key else Inr (), c', env') \<and>
      coll_ok c' env' (record_path db pn sn cn) \<and> only_file (record_path db pn sn cn) (ds_env db) env' \<and>
      coll_entries c' env' (record_path db pn sn cn) = (if k \<in> fst ` set xs then xs else upd_entries k v xs)"
    using collection_insert_old [OF c(2) w] collection_insert_new [OF c(2) w _ fits [OF c(1)]] c(3) by auto
  then show ?thesis
    unfolding db_add_def by (elim exE conjE) (rule db_write [OF ok c(1)])
qed

lemma db_update_exact:
  assumes ok: "db_ok db" and xs: "db_entries db pn sn cn = Some xs" and w: "writable (ds_env db) k v"
  shows "\<exists>db'. db_update db pn sn cn k v =
      (if k \<in> fst ` set xs then Inr () else Inl Db_updating_of_nonexistent_key, db') \<and> db_ok db' \<and>
    db_entries db' = (\<lambda>p q n. if (p, q, n) = (pn, sn, cn)
      then Some (if k \<in> fst ` set xs then upd_entries k v xs else xs) else db_entries db p q n)"
proof -
  obtain c where c: "db_lookup db pn sn cn = Some c" "coll_ok c (ds_env db) (record_path db pn sn cn)"
      "coll_entries c (ds_env db) (record_path db pn sn cn) = xs"
    using ok xs by (rule db_entriesE)
  have "\<exists>c' env'. collection_update c (ds_env db) k v (record_path db pn sn cn) =
        (if k \<in> fst ` set xs then Inr () else Inl Db_updating_of_nonexistent_key, c', env') \<and>
      coll_ok c' env' (record_path db pn sn cn) \<and> only_file (record_path db pn sn cn) (ds_env db) env' \<and>
      coll_entries c' env' (record_path db pn sn cn) = (if k \<in> fst ` set xs then upd_entries k v xs else xs)"
    using collection_update_old [OF c(2) w] collection_update_new [OF c(2) w] c(3)
    by (cases "k \<in> fst ` set xs") auto
  then show ?thesis
    unfolding db_update_def by (elim exE conjE) (rule db_write [OF ok c(1)])
qed

lemma db_dispose_exact:
  assumes ok: "db_ok db" and xs: "db_entries db pn sn cn = Some xs"
    and room: "\<And>c. db_lookup db pn sn cn = Some c \<Longrightarrow> bt_has_room (c_data c)"
  shows "\<exists>db'. db_dispose db pn sn cn k =
      (case map_of xs k of None \<Rightarrow> Inl Db_disposal_of_nonexistent_key | Some v \<Rightarrow> Inr v, db') \<and> db_ok db' \<and>
    db_entries db' = (\<lambda>p q n. if (p, q, n) = (pn, sn, cn) then Some (del_entries k xs) else db_entries db p q n)"
proof -
  obtain c where c: "db_lookup db pn sn cn = Some c" "coll_ok c (ds_env db) (record_path db pn sn cn)"
      "coll_entries c (ds_env db) (record_path db pn sn cn) = xs"
    using ok xs by (rule db_entriesE)
  have "\<exists>c' env'. collection_dispose c (ds_env db) k (record_path db pn sn cn) =
        (case map_of xs k of None \<Rightarrow> Inl Db_disposal_of_nonexistent_key | Some v \<Rightarrow> Inr v, c', env') \<and>
      coll_ok c' env' (record_path db pn sn cn) \<and> only_file (record_path db pn sn cn) (ds_env db) env' \<and>
      coll_entries c' env' (record_path db pn sn cn) = del_entries k xs"
  proof (cases "map_of xs k")
    case None
    then have n: "k \<notin> fst ` set xs" by (simp add: map_of_eq_None_iff)
    then have d: "del_entries k xs = xs" by (force simp: del_entries_def filter_id_conv)
    have "k \<notin> fst ` set (coll_entries c (ds_env db) (record_path db pn sn cn))" using n c(3) by simp
    from collection_dispose_new [OF c(2) this] show ?thesis
      using None c(2,3) d by (simp add: only_file_def)
  next
    case (Some v)
    then have "map_of (coll_entries c (ds_env db) (record_path db pn sn cn)) k = Some v" using c(3) by simp
    from collection_dispose_old [OF c(2) this room [OF c(1)]] show ?thesis using Some c(3) by auto
  qed
  then show ?thesis
    unfolding db_dispose_def by (elim exE conjE) (rule db_write [OF ok c(1)])
qed

end
