(* ===== verification/Server_Correct.thy ===== *)
theory Server_Correct
  imports Manager_Server Storage_Records
begin

text \<open>
  What a storage server does with the messages about records, as a function of the message and of the sorted list of
  entries of the collection that the message names; the contract of such a server, and the moves
  of records between two servers that rest on it.
\<close>

section \<open>Records that fit into messages\<close>

definition text_fits :: "nat \<Rightarrow> string \<Rightarrow> bool" where
  "text_fits n s \<longleftrightarrow> CHR 0x00 \<notin> set s \<and> length s < n"

definition record_fits :: "tkey \<times> tvalue \<Rightarrow> bool" where
  "record_fits kv \<longleftrightarrow>
     (case kv of (Some k, v) \<Rightarrow>
        (case tname v of Some n \<Rightarrow> text_fits MSG_KEY_SIZE k \<and> text_fits MSG_NAME_SIZE n | None \<Rightarrow> False)
      | (None, v) \<Rightarrow> False)"

definition msg_fits :: "strg_msg \<Rightarrow> bool" where
  "msg_fits m \<longleftrightarrow> text_fits MSG_KEY_SIZE (login m) \<and> text_fits MSG_NAME_SIZE (value_name m)"

definition with_value :: "strg_msg \<Rightarrow> tvalue \<Rightarrow> strg_msg" where
  "with_value m v = m\<lparr>hashed_password := personal_id v, value_name := the (tname v)\<rparr>"

definition with_record :: "strg_msg \<Rightarrow> tkey \<times> tvalue \<Rightarrow> strg_msg" where
  "with_record m kv = with_value (m\<lparr>login := the (fst kv)\<rparr>) (snd kv)"

lemma strcpy_fits: "text_fits n s \<Longrightarrow> strcpy n s = Some s"
  by (simp add: text_fits_def strcpy_plain)

lemma put_value_fits: "record_fits (k, v) \<Longrightarrow> put_value m v = Some (with_value m v)"
  by (auto simp: record_fits_def put_value_def with_value_def strcpy_fits split: option.splits)

lemma put_record_fits: "record_fits kv \<Longrightarrow> put_record m kv = Some (with_record m kv)"
  by (cases kv) (auto simp: put_record_def with_record_def put_value_fits strcpy_fits record_fits_def split: option.splits)

text \<open>A record that was put into a message is read back from it.\<close>

lemma with_record_back:
  assumes "record_fits kv"
  shows "msg_key (with_record m kv) = fst kv" "msg_value (with_record m kv) = snd kv"
    "msg_fits (with_record m kv)"
  using assms
  by (cases kv; auto simp: record_fits_def with_record_def with_value_def msg_key_def msg_value_def msg_fits_def
      tvalue_of_flyweight_def split: option.splits)+

lemma record_of_msg_fits: "msg_fits m \<Longrightarrow> record_fits (msg_key m, msg_value m)"
  by (simp add: record_fits_def msg_fits_def msg_key_def msg_value_def tvalue_of_flyweight_def)

lemma msg_path_update [simp]:
  "msg_path (m\<lparr>mtype := t\<rparr>) = msg_path m" "msg_path (m\<lparr>pid := i\<rparr>) = msg_path m" "msg_path (m\<lparr>cmd := c\<rparr>) = msg_path m"
  "msg_path (m\<lparr>status := st\<rparr>) = msg_path m" "msg_path (m\<lparr>extra_value := x\<rparr>) = msg_path m"
  "msg_path (m\<lparr>login := k\<rparr>) = msg_path m"
  by (simp_all add: msg_path_def)

lemma with_value_path [simp]: "msg_path (with_value m v) = msg_path m" "mtype (with_value m v) = mtype m"
    "status (with_value m v) = status m" "cmd (with_value m v) = cmd m" "login (with_value m v) = login m"
    "pid (with_value m v) = pid m"
  by (simp_all add: with_value_def msg_path_def)

lemma with_record_path [simp]: "msg_path (with_record m kv) = msg_path m" "mtype (with_record m kv) = mtype m"
    "status (with_record m kv) = status m" "cmd (with_record m kv) = cmd m" "login (with_record m kv) = the (fst kv)"
    "pid (with_record m kv) = pid m"
  by (simp_all add: with_record_def)

section \<open>The specification of a storage server\<close>

definition data_command :: "command \<Rightarrow> bool" where
  "data_command c \<longleftrightarrow> c \<in> {ADD, UPDATE, DISPOSE, OBTAIN, OBTAIN_MIN, OBTAIN_MAX, OBTAIN_NEXT}"

text \<open>The answer to a message, and the entries of the collection afterwards.\<close>

definition data_reply :: "strg_msg \<Rightarrow> (tkey \<times> tvalue) list \<Rightarrow> strg_msg \<times> (tkey \<times> tvalue) list" where
  "data_reply m0 xs =
     (let m = m0\<lparr>mtype := MANAGER_SERVER_STORAGE_ANSWER_PRIOR, status := OK\<rparr>; k = msg_key m; v = msg_value m;
          missing = m\<lparr>status := ATTTEMT_TO_OBTAIN_NONEXISTENT_KEY\<rparr> in
      case cmd m of
        ADD \<Rightarrow>
          if k \<in> fst ` set xs then (m\<lparr>status := ATTEMPT_TO_INSERT_EXISTENT_KEY\<rparr>, xs) else (m, upd_entries k v xs)
      | UPDATE \<Rightarrow>
          if k \<in> fst ` set xs then (m, upd_entries k v xs) else (m\<lparr>status := ATTEMPT_TO_UPDATE_NONEXISTENT_KEY\<rparr>, xs)
      | DISPOSE \<Rightarrow>
          (case map_of xs k of
             None \<Rightarrow> (m\<lparr>status := ATTEMPT_TO_DISPOSE_NONEXISTENT_KEY\<rparr>, xs)
           | Some u \<Rightarrow> (with_value m u, del_entries k xs))
      | OBTAIN \<Rightarrow> (case map_of xs k of None \<Rightarrow> (missing, xs) | Some u \<Rightarrow> (with_value m u, xs))
      | OBTAIN_MIN \<Rightarrow> (if xs = [] then (missing, xs) else (with_record m (hd xs), xs))
      | OBTAIN_MAX \<Rightarrow> (if xs = [] then (missing, xs) else (with_record m (last xs), xs))
      | OBTAIN_NEXT \<Rightarrow> (case next_entry k xs of None \<Rightarrow> (missing, xs) | Some kv \<Rightarrow> (with_record m kv, xs))
      | _ \<Rightarrow> (m, xs))"

lemma data_reply_msg:
  "msg_path (fst (data_reply m xs)) = msg_path m" "pid (fst (data_reply m xs)) = pid m"
  "mtype (fst (data_reply m xs)) = MANAGER_SERVER_STORAGE_ANSWER_PRIOR" "cmd (fst (data_reply m xs)) = cmd m"
  "status (fst (data_reply m xs)) \<noteq> CLIENT"
  by (simp_all add: data_reply_def Let_def split: command.split option.split)

section \<open>The state of a server\<close>

definition srv_ok :: "storage_server \<Rightarrow> bool" where
  "srv_ok s \<longleftrightarrow> db_ok (srv_db s) \<and> srv_run s"

definition srv_entries :: "storage_server \<Rightarrow> db_path \<Rightarrow> (tkey \<times> tvalue) list option" where
  "srv_entries s p = (case p of (pn, sn, cn) \<Rightarrow> db_entries (srv_db s) pn sn cn)"

text \<open>
  There is memory for a record and for the nodes of a split, and room for the merges of a disposal, see
  \<open>bt_has_room\<close>.
\<close>

definition srv_able :: "storage_server \<Rightarrow> strg_msg \<Rightarrow> bool" where
  "srv_able s m \<longleftrightarrow>
     (case db_lookup (srv_db s) (pool_name m) (schema_name m) (collection_name m) of
        None \<Rightarrow> True
      | Some c \<Rightarrow>
          (cmd m = ADD \<longrightarrow> writable (ds_env (srv_db s)) (msg_key m) (msg_value m) \<and> bt_fits (c_data c)) \<and>
          (cmd m = UPDATE \<longrightarrow> writable (ds_env (srv_db s)) (msg_key m) (msg_value m)) \<and>
          (cmd m = DISPOSE \<longrightarrow> bt_has_room (c_data c)))"

lemma srv_entries_sorted: "srv_ok s \<Longrightarrow> srv_entries s p = Some xs \<Longrightarrow> sorted_keys xs"
  by (auto simp: srv_ok_def srv_entries_def split: prod.splits intro: db_entries_sorted)

text \<open>A storage with the entries \<open>ys\<close> for one collection, seen from the server.\<close>

lemma srv_entries_upd:
  assumes "db_entries db = (\<lambda>p q n. if (p, q, n) = msg_path m then Some ys else db_entries (srv_db s) p q n)"
  shows "srv_entries (with_db s db) = (srv_entries s)(msg_path m \<mapsto> ys)"
  using assms by (auto simp: srv_entries_def with_db_def fun_eq_iff)

lemma srv_entries_same:
  assumes "db_entries db = db_entries (srv_db s)" "srv_entries s p = Some xs"
  shows "srv_entries (with_db s db) = (srv_entries s)(p \<mapsto> xs)"
  using assms by (auto simp: srv_entries_def with_db_def fun_eq_iff)

section \<open>The messages about records\<close>

text \<open>The handlers see the message with its new type and status.\<close>

definition taken :: "strg_msg \<Rightarrow> strg_msg" where
  "taken m = m\<lparr>mtype := MANAGER_SERVER_STORAGE_ANSWER_PRIOR, status := OK\<rparr>"

lemma taken_simps [simp]:
  "msg_path (taken m) = msg_path m" "cmd (taken m) = cmd m" "msg_key (taken m) = msg_key m" "msg_value (taken m) = msg_value m"
  "pool_name (taken m) = pool_name m" "schema_name (taken m) = schema_name m" "collection_name (taken m) = collection_name m"
  "status (taken m) = OK" "mtype (taken m) = MANAGER_SERVER_STORAGE_ANSWER_PRIOR"
  by (simp_all add: taken_def msg_key_def msg_value_def)

definition replies :: "storage_server \<Rightarrow> strg_msg \<Rightarrow> (tkey \<times> tvalue) list \<Rightarrow> srv_result \<Rightarrow> bool" where
  "replies s m xs r \<longleftrightarrow>
     fst r = Inr [fst (data_reply m xs)] \<and> srv_ok (snd r) \<and>
     srv_entries (snd r) = (srv_entries s)(msg_path m \<mapsto> snd (data_reply m xs))"

definition same_able :: "storage_server \<Rightarrow> strg_msg \<Rightarrow> storage_server \<Rightarrow> bool" where
  "same_able s m s' \<longleftrightarrow> (\<forall>m'. msg_path m' = msg_path m \<longrightarrow> srv_able s' m' = srv_able s m')"

text \<open>A handler around a call that only reads, and around one that writes.\<close>

lemma replies_read:
  assumes "srv_ok s" "srv_entries s (msg_path m) = Some xs" "answers res r (srv_db s) (pool_name m) (schema_name m) (collection_name m)"
    and "snd (data_reply m xs) = xs"
    and "case r of Inr x \<Rightarrow> f x = Some (fst (data_reply m xs))
      | Inl e \<Rightarrow> (\<exists>st. caught e = Some st \<and> fst (data_reply m xs) = (taken m)\<lparr>status := st\<rparr>)"
  shows "replies s m xs (answer s (taken m) caught (fill res f)) \<and>
    same_able s m (snd (answer s (taken m) caught (fill res f)))"
proof -
  obtain db' where db': "res = (r, db')" "db_ok db'" "db_entries db' = db_entries (srv_db s)"
      "ds_env db' = ds_env (srv_db s)"
      "map_option c_data (db_lookup db' (pool_name m) (schema_name m) (collection_name m)) =
       map_option c_data (db_lookup (srv_db s) (pool_name m) (schema_name m) (collection_name m))"
    using assms(3) by (rule answersE)
  have a: "same_able s m (with_db s db')"
    using db'(4,5) by (auto simp: same_able_def srv_able_def with_db_def msg_path_def split: option.split)
  have e: "srv_entries (with_db s db') = (srv_entries s)(msg_path m \<mapsto> xs)"
    using db'(3) assms(2) by (rule srv_entries_same)
  have ok: "srv_ok (with_db s db')" using assms(1) db'(2) by (simp add: srv_ok_def with_db_def)
  show ?thesis
    using assms(4,5) db'(1) e ok a by (cases r) (auto simp: replies_def answer_def fill_def)
qed

lemma replies_write:
  assumes "srv_ok s" "res = (r, db')" "db_ok db'"
    and "db_entries db' = (\<lambda>p q n. if (p, q, n) = msg_path m then Some (snd (data_reply m xs)) else db_entries (srv_db s) p q n)"
    and "case r of Inr x \<Rightarrow> f x = Some (fst (data_reply m xs))
      | Inl e \<Rightarrow> (\<exists>st. caught e = Some st \<and> fst (data_reply m xs) = (taken m)\<lparr>status := st\<rparr>)"
  shows "replies s m xs (answer s (taken m) caught (fill res f))"
proof -
  have e: "srv_entries (with_db s db') = (srv_entries s)(msg_path m \<mapsto> snd (data_reply m xs))"
    using assms(4) by (rule srv_entries_upd)
  have ok: "srv_ok (with_db s db')" using assms(1,3) by (simp add: srv_ok_def with_db_def)
  show ?thesis
    using assms(2,5) e ok by (cases r) (auto simp: replies_def answer_def fill_def)
qed

lemma handle_msg_data:
  "cmd m = ADD \<Longrightarrow> handle_msg s m = handle_add s (taken m)"
  "cmd m = UPDATE \<Longrightarrow> handle_msg s m = handle_update s (taken m)"
  "cmd m = DISPOSE \<Longrightarrow> handle_msg s m = handle_dispose s (taken m)"
  "cmd m = OBTAIN \<Longrightarrow> handle_msg s m = handle_obtain s (taken m)"
  "cmd m = OBTAIN_MIN \<Longrightarrow> handle_msg s m = handle_obtain_min s (taken m)"
  "cmd m = OBTAIN_MAX \<Longrightarrow> handle_msg s m = handle_obtain_max s (taken m)"
  "cmd m = OBTAIN_NEXT \<Longrightarrow> handle_msg s m = handle_obtain_next s (taken m)"
  by (simp_all add: handle_msg_def taken_def)

lemma data_reply_taken:
  "data_reply m xs = (case cmd m of
      ADD \<Rightarrow> if msg_key m \<in> fst ` set xs then ((taken m)\<lparr>status := ATTEMPT_TO_INSERT_EXISTENT_KEY\<rparr>, xs)
        else (taken m, upd_entries (msg_key m) (msg_value m) xs)
    | UPDATE \<Rightarrow> if msg_key m \<in> fst ` set xs then (taken m, upd_entries (msg_key m) (msg_value m) xs)
        else ((taken m)\<lparr>status := ATTEMPT_TO_UPDATE_NONEXISTENT_KEY\<rparr>, xs)
    | DISPOSE \<Rightarrow> (case map_of xs (msg_key m) of
          None \<Rightarrow> ((taken m)\<lparr>status := ATTEMPT_TO_DISPOSE_NONEXISTENT_KEY\<rparr>, xs)
        | Some u \<Rightarrow> (with_value (taken m) u, del_entries (msg_key m) xs))
    | OBTAIN \<Rightarrow> (case map_of xs (msg_key m) of
          None \<Rightarrow> ((taken m)\<lparr>status := ATTTEMT_TO_OBTAIN_NONEXISTENT_KEY\<rparr>, xs) | Some u \<Rightarrow> (with_value (taken m) u, xs))
    | OBTAIN_MIN \<Rightarrow> (if xs = [] then ((taken m)\<lparr>status := ATTTEMT_TO_OBTAIN_NONEXISTENT_KEY\<rparr>, xs)
        else (with_record (taken m) (hd xs), xs))
    | OBTAIN_MAX \<Rightarrow> (if xs = [] then ((taken m)\<lparr>status := ATTTEMT_TO_OBTAIN_NONEXISTENT_KEY\<rparr>, xs)
        else (with_record (taken m) (last xs), xs))
    | OBTAIN_NEXT \<Rightarrow> (case next_entry (msg_key m) xs of
          None \<Rightarrow> ((taken m)\<lparr>status := ATTTEMT_TO_OBTAIN_NONEXISTENT_KEY\<rparr>, xs) | Some kv \<Rightarrow> (with_record (taken m) kv, xs))
    | _ \<Rightarrow> (taken m, xs))"
  by (cases "cmd m") (simp_all add: data_reply_def Let_def taken_def [symmetric] split: option.split)

lemma next_entry_in: "next_entry k xs = Some kv \<Longrightarrow> kv \<in> set xs"
proof -
  assume "next_entry k xs = Some kv"
  then have "kv \<in> set (dropWhile (\<lambda>p. fst p \<noteq> k) xs)" by (auto simp: next_entry_def split: list.splits)
  then show ?thesis by (rule set_dropWhileD)
qed

lemma replies_obtaining:
  assumes ok: "srv_ok s" and xs: "srv_entries s (msg_path m) = Some xs" and fits: "\<forall>kv \<in> set xs. record_fits kv"
    and c: "cmd m \<in> {OBTAIN, OBTAIN_MIN, OBTAIN_MAX, OBTAIN_NEXT}"
  shows "replies s m xs (handle_msg s m) \<and> same_able s m (snd (handle_msg s m))"
proof -
  have db: "db_ok (srv_db s)" using ok by (simp add: srv_ok_def)
  have e: "db_entries (srv_db s) (pool_name m) (schema_name m) (collection_name m) = Some xs"
    using xs by (simp add: srv_entries_def msg_path_def)
  have fit: "put_value n v = Some (with_value n v)" if "map_of xs k = Some v" for k v n
    using fits map_of_SomeD [OF that] put_value_fits by blast
  have fit2: "put_record n kv = Some (with_record n kv)" if "kv \<in> set xs" for kv n
    using fits that put_record_fits by blast
  consider "cmd m = OBTAIN" | "cmd m = OBTAIN_MIN" | "cmd m = OBTAIN_MAX" | "cmd m = OBTAIN_NEXT" using c by blast
  then show ?thesis
  proof cases
    case 1
    show ?thesis unfolding handle_msg_data(4) [OF 1] handle_obtain_def taken_simps
      by (rule replies_read [OF ok xs db_obtain_exact [OF db e]])
        (auto simp: 1 fit obtain_caught_def data_reply_taken split: option.split)
  next
    case 2
    show ?thesis unfolding handle_msg_data(5) [OF 2] handle_obtain_min_def taken_simps
      by (rule replies_read [OF ok xs db_obtain_min_exact [OF db e]])
        (auto simp: 2 fit2 obtain_caught_def data_reply_taken split: list.split)
  next
    case 3
    show ?thesis unfolding handle_msg_data(6) [OF 3] handle_obtain_max_def taken_simps
      by (rule replies_read [OF ok xs db_obtain_max_exact [OF db e]])
        (auto simp: 3 fit2 obtain_caught_def data_reply_taken)
  next
    case 4
    show ?thesis unfolding handle_msg_data(7) [OF 4] handle_obtain_next_def taken_simps
      by (rule replies_read [OF ok xs db_obtain_next_exact [OF db e]])
        (auto simp: 4 fit2 next_entry_in obtain_caught_def data_reply_taken split: option.split)
  qed
qed

lemma replies_writing:
  assumes ok: "srv_ok s" and xs: "srv_entries s (msg_path m) = Some xs" and fits: "\<forall>kv \<in> set xs. record_fits kv"
    and c: "cmd m \<in> {ADD, UPDATE, DISPOSE}" and able: "srv_able s m"
  shows "replies s m xs (handle_msg s m)"
proof -
  have db: "db_ok (srv_db s)" using ok by (simp add: srv_ok_def)
  have e: "db_entries (srv_db s) (pool_name m) (schema_name m) (collection_name m) = Some xs"
    using xs by (simp add: srv_entries_def msg_path_def)
  obtain c where l: "db_lookup (srv_db s) (pool_name m) (schema_name m) (collection_name m) = Some c"
    using e by (auto simp: db_entries_def)
  have fit: "put_value n v = Some (with_value n v)" if "map_of xs k = Some v" for k v n
    using fits map_of_SomeD [OF that] put_value_fits by blast
  consider "cmd m = ADD" | "cmd m = UPDATE" | "cmd m = DISPOSE" using c by blast
  then show ?thesis
  proof cases
    case 1
    have w: "writable (ds_env (srv_db s)) (msg_key m) (msg_value m)" using 1 able l by (simp add: srv_able_def)
    have f: "bt_fits (c_data c')"
      if "db_lookup (srv_db s) (pool_name m) (schema_name m) (collection_name m) = Some c'" for c'
      using 1 able that by (simp add: srv_able_def)
    show ?thesis
      unfolding handle_msg_data(1) [OF 1] handle_add_def taken_simps
      by (rule exE [OF db_add_exact [OF db e w]], erule f, elim conjE,
        erule replies_write [OF ok], assumption,
        auto simp: 1 add_caught_def data_reply_taken msg_path_def fun_eq_iff)
  next
    case 2
    have w: "writable (ds_env (srv_db s)) (msg_key m) (msg_value m)" using 2 able l by (simp add: srv_able_def)
    from db_update_exact [OF db e w] show ?thesis
      unfolding handle_msg_data(2) [OF 2] handle_update_def taken_simps
      by (elim exE conjE) (erule replies_write [OF ok], assumption,
        auto simp: 2 update_caught_def data_reply_taken msg_path_def fun_eq_iff)
  next
    case 3
    have r: "bt_has_room (c_data c')"
      if "db_lookup (srv_db s) (pool_name m) (schema_name m) (collection_name m) = Some c'" for c'
      using 3 able that by (simp add: srv_able_def)
    have d: "del_entries (msg_key m) xs = xs" if "map_of xs (msg_key m) = None"
      using that by (force simp: del_entries_def filter_id_conv map_of_eq_None_iff)
    show ?thesis
      unfolding handle_msg_data(3) [OF 3] handle_dispose_def taken_simps
      by (rule exE [OF db_dispose_exact [OF db e]], erule r, elim conjE,
        erule replies_write [OF ok], assumption,
        auto simp: 3 fit d dispose_caught_def data_reply_taken msg_path_def fun_eq_iff split: option.split)
  qed
qed

lemma replies_data:
  assumes "srv_ok s" "srv_entries s (msg_path m) = Some xs" "data_command (cmd m)"
    and "\<forall>kv \<in> set xs. record_fits kv" "srv_able s m"
  shows "replies s m xs (handle_msg s m)"
  using assms(3) replies_obtaining [OF assms(1,2,4)] replies_writing [OF assms(1,2,4) _ assms(5)]
  by (auto simp: data_command_def)

section \<open>The contract of a storage server\<close>

text \<open>
  What the manager relies on. \<open>able\<close> stands for the resources that a message needs; questions need none
  and take none.
\<close>

definition question :: "command \<Rightarrow> bool" where
  "question c \<longleftrightarrow> c \<in> {OBTAIN, OBTAIN_MIN, OBTAIN_MAX, OBTAIN_NEXT}"

definition all_fit :: "(tkey \<times> tvalue) list \<Rightarrow> bool" where
  "all_fit xs \<longleftrightarrow> (\<forall>kv \<in> set xs. record_fits kv)"

lemma upd_entries_front:
  assumes "\<forall>y \<in> set ys. k < fst y"
  shows "upd_entries k v ys = (k, v) # ys"
proof -
  have "filter (\<lambda>p. fst p < k) ys = []" "filter (\<lambda>p. k < fst p) ys = ys"
    using assms by (auto simp: filter_empty_conv filter_id_conv dest: less_asym)
  then show ?thesis by (simp add: upd_entries_def)
qed

lemma upd_entries_back:
  assumes "\<forall>y \<in> set ys. fst y < k"
  shows "upd_entries k v ys = ys @ [(k, v)]"
proof -
  have "filter (\<lambda>p. fst p < k) ys = ys" "filter (\<lambda>p. k < fst p) ys = []"
    using assms by (auto simp: filter_empty_conv filter_id_conv dest: less_asym)
  then show ?thesis by (simp add: upd_entries_def)
qed

lemma sorted_entry:
  assumes "sorted_keys (us @ kv # vs)"
  shows "map_of (us @ kv # vs) (fst kv) = Some (snd kv)" "del_entries (fst kv) (us @ kv # vs) = us @ vs"
    "\<forall>u \<in> set us. fst u < fst kv" "\<forall>v \<in> set vs. fst kv < fst v"
proof -
  show o: "\<forall>u \<in> set us. fst u < fst kv" "\<forall>v \<in> set vs. fst kv < fst v" using assms by (auto simp: sorted_wrt_append)
  then have n: "fst kv \<notin> fst ` set us" "\<forall>x \<in> set us. fst x \<noteq> fst kv" "\<forall>x \<in> set vs. fst x \<noteq> fst kv" by auto
  have "map_of us (fst kv) = None" using n(1) by (simp add: map_of_eq_None_iff)
  then show "map_of (us @ kv # vs) (fst kv) = Some (snd kv)" by (simp add: map_add_Some_iff)
  show "del_entries (fst kv) (us @ kv # vs) = us @ vs" using n(2,3) by (simp add: del_entries_def)
qed

locale record_server =
  fixes handle :: "'s \<Rightarrow> strg_msg \<Rightarrow> (db_exn + strg_msg list) \<times> 's"
    and entries :: "'s \<Rightarrow> db_path \<Rightarrow> (tkey \<times> tvalue) list option"
    and ok :: "'s \<Rightarrow> bool"
    and able :: "'s \<Rightarrow> strg_msg \<Rightarrow> bool"
  assumes reply: "\<lbrakk>ok s; entries s (msg_path m) = Some xs; data_command (cmd m); all_fit xs; able s m\<rbrakk> \<Longrightarrow>
      \<exists>s'. handle s m = (Inr [fst (data_reply m xs)], s') \<and> ok s' \<and>
        entries s' = (entries s)(msg_path m \<mapsto> snd (data_reply m xs))"
    and sorted_law: "ok s \<Longrightarrow> entries s p = Some xs \<Longrightarrow> sorted_keys xs"
    and question_able: "question (cmd m) \<Longrightarrow> able s m"
    and question_keeps: "\<lbrakk>ok s; entries s (msg_path m) = Some xs; question (cmd m); all_fit xs;
        msg_path m' = msg_path m\<rbrakk> \<Longrightarrow> able (snd (handle s m)) m' = able s m'"
begin

text \<open>A question, and one record that goes from \<open>s\<close> to \<open>d\<close>.\<close>

lemma ask_question:
  assumes "ok s" "entries s (msg_path m) = Some xs" "all_fit xs" "question (cmd m)"
  shows "\<exists>s'. handle s m = (Inr [fst (data_reply m xs)], s') \<and> ok s' \<and> entries s' = entries s \<and>
    (\<forall>m'. msg_path m' = msg_path m \<longrightarrow> able s' m' = able s m')"
proof -
  have d: "data_command (cmd m)" "snd (data_reply m xs) = xs"
    using assms(4) by (auto simp: question_def data_command_def data_reply_taken split: option.split)
  then obtain s' where "handle s m = (Inr [fst (data_reply m xs)], s')" "ok s'" "entries s' = (entries s)(msg_path m \<mapsto> xs)"
    using reply [OF assms(1,2) _ assms(3) question_able [OF assms(4)]] by auto
  then show ?thesis using question_keeps [OF assms(1,2,4,3)] assms(2) by (auto simp: fun_upd_idem)
qed

lemma hand_over:
  assumes s: "ok s" "entries s p = Some (us @ kv # vs)" "all_fit (us @ kv # vs)"
    and d: "ok d" "entries d p = Some ys" "all_fit ys" "fst kv \<notin> fst ` set ys"
    and a: "msg_key a = fst kv" "msg_value a = snd kv" "msg_path a = p"
    and m2: "m2 = a\<lparr>cmd := ADD, mtype := t2\<rparr>" and m3: "m3 = (taken m2)\<lparr>cmd := DISPOSE, mtype := t3\<rparr>"
    and able: "able d m2" "able s m3"
  shows "\<exists>d1 s2. handle d m2 = (Inr [taken m2], d1) \<and> ok d1 \<and>
      entries d1 = (entries d)(p \<mapsto> upd_entries (fst kv) (snd kv) ys) \<and>
      handle s m3 = (Inr [with_value (taken m3) (snd kv)], s2) \<and> ok s2 \<and> entries s2 = (entries s)(p \<mapsto> us @ vs)"
proof -
  have k2: "msg_key m2 = fst kv" "msg_value m2 = snd kv" "msg_path m2 = p" "cmd m2 = ADD"
    using a by (simp_all add: m2 msg_key_def msg_value_def)
  have k3: "msg_key m3 = fst kv" "msg_path m3 = p" "cmd m3 = DISPOSE"
    using k2 by (simp_all add: m3 msg_key_def taken_def)
  have "data_reply m2 ys = (taken m2, upd_entries (fst kv) (snd kv) ys)" using d(4) by (simp add: data_reply_taken k2)
  then have "\<exists>d1. handle d m2 = (Inr [taken m2], d1) \<and> ok d1 \<and> entries d1 = (entries d)(p \<mapsto> upd_entries (fst kv) (snd kv) ys)"
    using reply [OF d(1), of m2 ys] d k2 able(1) by (simp add: data_command_def)
  moreover have "data_reply m3 (us @ kv # vs) = (with_value (taken m3) (snd kv), us @ vs)"
    using sorted_entry [OF sorted_law [OF s(1,2)]] by (simp add: data_reply_taken k3)
  then have "\<exists>s2. handle s m3 = (Inr [with_value (taken m3) (snd kv)], s2) \<and> ok s2 \<and> entries s2 = (entries s)(p \<mapsto> us @ vs)"
    using reply [OF s(1), of m3 "us @ kv # vs"] s k3 able(2) by (simp add: data_command_def)
  ultimately show ?thesis by blast
qed

end

interpretation srv_contract: record_server handle_msg srv_entries srv_ok srv_able
proof (unfold_locales, goal_cases)
  case (1 s m xs)
  then show ?case using replies_data [of s m xs] by (cases "handle_msg s m") (auto simp: replies_def all_fit_def)
next
  case (2 s p xs)
  then show ?case by (rule srv_entries_sorted)
next
  case (3 m s)
  then show ?case by (auto simp: srv_able_def question_def split: option.split)
next
  case (4 s m xs m')
  then show ?case using replies_obtaining [of s m xs] by (auto simp: same_able_def question_def all_fit_def)
qed

end
