(* ===== verification/Cluster.thy ===== *)
theory Cluster
  imports Server_Correct
begin

text \<open>
  The manager and its storage servers as one map from keys to values: routing by separators, a
  question that is answered, and the moves of records between neighbours.
\<close>

section \<open>Routing\<close>

lemma tkey_comparer_string_le: "0 \<le> tkey_comparer_string key s \<longleftrightarrow> s \<le> key"
  by (auto simp: tkey_comparer_string_def)

lemma count_below_le: "count_below ss key \<le> length ss"
  by (induction ss) auto

lemma count_below_below: "j < count_below ss key \<Longrightarrow> ss ! j \<le> key"
  by (induction ss arbitrary: j) (auto simp: tkey_comparer_string_le nth_Cons split: if_splits nat.split)

lemma count_below_above: "count_below ss key < length ss \<Longrightarrow> key < ss ! count_below ss key"
  by (induction ss) (auto simp: tkey_comparer_string_le split: if_splits)

definition in_range :: "string list \<Rightarrow> nat \<Rightarrow> string \<Rightarrow> bool" where
  "in_range ss i key \<longleftrightarrow>
     i \<le> length ss \<and> (0 < i \<longrightarrow> ss ! (i - 1) \<le> key) \<and> (i < length ss \<longrightarrow> key < ss ! i)"

lemma count_below_in_range: "in_range ss (count_below ss key) key"
  using count_below_le count_below_below count_below_above by (simp add: in_range_def)

text \<open>Sorted separators cut the keys into intervals, one for each server.\<close>

lemma in_range_unique:
  assumes "sorted ss" "in_range ss i key" "in_range ss j key"
  shows "i = j"
proof -
  have "\<not> i < j" if "in_range ss i key" "in_range ss j key" for i j
  proof
    assume "i < j"
    then have "key < ss ! i" "ss ! (j - 1) \<le> key" using that by (auto simp: in_range_def)
    moreover have "ss ! i \<le> ss ! (j - 1)"
      using assms(1) \<open>i < j\<close> that(2) by (intro sorted_nth_mono) (auto simp: in_range_def)
    ultimately show False by simp
  qed
  then show ?thesis using assms(2,3) by (metis linorder_neqE_nat)
qed

lemma count_below_iff:
  "sorted ss \<Longrightarrow> count_below ss key = i \<longleftrightarrow> in_range ss i key"
  using in_range_unique count_below_in_range by blast

section \<open>Servers that get their turn\<close>

text \<open>
  The numbers of the processes are above all priorities. A quiet queue holds no message to a server and no answer
  of one; messages of clients may wait in it.
\<close>

definition answer_types :: "int set" where
  "answer_types = {MANAGER_SERVER_STORAGE_ANSWER_PRIOR, MANAGER_SERVER_STORAGE_ADDITION_PRIOR,
     MANAGER_SERVER_STRUCT_ADDITION_PRIOR, MANAGER_SERVER_STRUCT_DISPOSAL_PRIOR,
     MANAGER_SERVER_STORAGE_GETTING_RECORDS_CNT_PRIOR}"

definition pids_ok :: "int list \<Rightarrow> bool" where
  "pids_ok ps \<longleftrightarrow> distinct ps \<and> (\<forall>p \<in> set ps. MANAGER_SERVER_MAX_COMMAND_PRIOR < p)"

definition quiet :: "int list \<Rightarrow> msg_queue \<Rightarrow> bool" where
  "quiet ps q \<longleftrightarrow> (\<forall>m \<in> set q. mtype m \<notin> set ps \<and> mtype m \<notin> answer_types)"

text \<open>In each of the next \<open>n\<close> rounds every server gets its turn.\<close>

definition prompt :: "int list \<Rightarrow> nat \<Rightarrow> world \<Rightarrow> bool" where
  "prompt ps n w \<longleftrightarrow> (\<exists>rest. w_schedule w = replicate n (map Serve ps) @ rest)"

lemma answer_types_pos: "t \<in> answer_types \<Longrightarrow> 0 < t \<and> t \<le> MANAGER_SERVER_MAX_COMMAND_PRIOR"
  by (auto simp: answer_types_def priors)

lemma msgrcv_pos: "0 < t \<Longrightarrow> msgrcv q t = take_first (\<lambda>m. mtype m = t) q"
  by (simp add: msgrcv_def)

lemma msgrcv_new:
  assumes "0 < t" "\<forall>u \<in> set q. mtype u \<noteq> t" "mtype m = t"
  shows "msgrcv (q @ [m]) t = Some (m, q)"
  using take_first_append [of q "\<lambda>m. mtype m = t" m "[]"] assms by (simp add: msgrcv_pos)

lemma serve_idle: "0 < p \<Longrightarrow> \<forall>m \<in> set (w_queue w). mtype m \<noteq> p \<Longrightarrow> serve p w = w"
proof -
  assume "0 < p" "\<forall>m \<in> set (w_queue w). mtype m \<noteq> p"
  then have "msgrcv (w_queue w) p = None" by (simp add: msgrcv_pos take_first_None)
  then show ?thesis by (simp add: serve_def split: option.split)
qed

lemma all_idle:
  "(\<And>p. p \<in> set ps \<Longrightarrow> 0 < p \<and> (\<forall>m \<in> set (w_queue w). mtype m \<noteq> p)) \<Longrightarrow> fold happen (map Serve ps) w = w"
  by (induction ps) (simp_all add: serve_idle)

lemma one_serves:
  assumes ps: "pids_ok ps" "p \<in> set ps" and q: "quiet ps (w_queue w)"
    and s: "w_servers w p = Some s" "handle_msg s m = (Inr [a], s')" "srv_run s'"
    and m: "mtype m = p" "mtype a \<in> answer_types"
  shows "fold happen (map Serve ps) (w\<lparr>w_queue := w_queue w @ [m]\<rparr>) =
    w\<lparr>w_queue := w_queue w @ [a], w_servers := (w_servers w)(p := Some s')\<rparr>"
proof -
  let ?w1 = "w\<lparr>w_queue := w_queue w @ [m]\<rparr>"
  let ?w2 = "w\<lparr>w_queue := w_queue w @ [a], w_servers := (w_servers w)(p := Some s')\<rparr>"
  obtain us vs where uv: "ps = us @ p # vs" using ps(2) by (auto simp: in_set_conv_decomp)
  have pos: "0 < r" if "r \<in> set ps" for r using ps(1) that by (fastforce simp: pids_ok_def priors)
  have n: "p \<notin> set us" "p \<notin> set vs" using ps(1) uv by (auto simp: pids_ok_def)
  have at: "mtype a \<notin> set ps" using answer_types_pos [OF m(2)] ps(1) by (fastforce simp: pids_ok_def)
  have "fold happen (map Serve us) ?w1 = ?w1"
    using n(1) q m(1) pos uv by (intro all_idle) (auto simp: quiet_def)
  moreover have "msgrcv (w_queue ?w1) p = Some (m, w_queue w)"
    using q m(1) pos [OF ps(2)] ps(2) by (subst msgrcv_new [of p "w_queue w" m, symmetric]) (auto simp: quiet_def)
  then have "serve p ?w1 = ?w2" using s by (cases w) (simp add: serve_def)
  moreover have "fold happen (map Serve vs) ?w2 = ?w2"
    using q at pos uv by (intro all_idle) (auto simp: quiet_def)
  ultimately show ?thesis by (simp add: uv)
qed

text \<open>A question that is answered in the first round.\<close>

lemma ask_answered:
  assumes ps: "pids_ok ps" "p \<in> set ps" and q: "quiet ps (w_queue w)" and pr: "prompt ps (Suc k) w"
    and s: "w_servers w p = Some s" "handle_msg s (m\<lparr>mtype := p\<rparr>) = (Inr [a], s')" "srv_run s'"
    and t: "mtype a = t" "t \<in> answer_types" and n: "0 < n"
  shows "\<exists>w'. ask n t (m\<lparr>mtype := p\<rparr>) w = (True, a, w') \<and> w_servers w' = (w_servers w)(p := Some s') \<and>
    w_queue w' = w_queue w \<and> prompt ps k w' \<and> w_self w' = w_self w \<and> w_junk w' = w_junk w"
proof -
  obtain rest where sch: "w_schedule w = map Serve ps # replicate k (map Serve ps) @ rest"
    using pr by (auto simp: prompt_def)
  obtain c where c: "n = Suc c" using n by (cases n) auto
  let ?w = "w\<lparr>w_schedule := replicate k (map Serve ps) @ rest\<rparr>"
  let ?w2 = "?w\<lparr>w_queue := w_queue ?w @ [a], w_servers := (w_servers ?w)(p := Some s')\<rparr>"
  have "fold happen (map Serve ps) (?w\<lparr>w_queue := w_queue ?w @ [m\<lparr>mtype := p\<rparr>]\<rparr>) = ?w2"
    using one_serves [OF ps, of ?w s "m\<lparr>mtype := p\<rparr>" a s'] q s t by simp
  moreover have "(send w (m\<lparr>mtype := p\<rparr>))\<lparr>w_schedule := replicate k (map Serve ps) @ rest\<rparr> =
      ?w\<lparr>w_queue := w_queue ?w @ [m\<lparr>mtype := p\<rparr>]\<rparr>"
    by (cases w) (simp add: send_def msgsnd_def)
  moreover have "w_schedule (send w (m\<lparr>mtype := p\<rparr>)) = map Serve ps # replicate k (map Serve ps) @ rest"
    by (simp add: send_def sch)
  ultimately have o: "others_run (send w (m\<lparr>mtype := p\<rparr>)) = ?w2" by (simp add: others_run_def)
  have "msgrcv (w_queue ?w2) t = Some (a, w_queue w)"
    using q t answer_types_pos [OF t(2)] by (subst msgrcv_new [of t "w_queue w" a, symmetric]) (auto simp: quiet_def)
  then have "ask n t (m\<lparr>mtype := p\<rparr>) w = (True, a, ?w2\<lparr>w_queue := w_queue w\<rparr>)"
    by (simp add: ask_def c o Let_def)
  moreover have "prompt ps k (?w2\<lparr>w_queue := w_queue w\<rparr>)" by (auto simp: prompt_def)
  ultimately show ?thesis by simp
qed

section \<open>The records of a collection on all servers\<close>

lemma map_of_map_assign: "map_of (map_assign p v m) = (map_of m)(p \<mapsto> v)"
  by (induction p v m rule: map_assign.induct) (auto simp: fun_eq_iff)

definition shard_is :: "world \<Rightarrow> int \<Rightarrow> db_path \<Rightarrow> (tkey \<times> tvalue) list \<Rightarrow> bool" where
  "shard_is w p path xs \<longleftrightarrow>
     (\<exists>s. w_servers w p = Some s \<and> srv_ok s \<and> srv_entries s path = Some xs \<and> all_fit xs)"

text \<open>
  The servers hold the lists \<open>xss\<close> for the collection \<open>path\<close>, one each, with every record on the server
  that the separators \<open>ss\<close> assign to its key.
\<close>

definition cluster :: "manager \<Rightarrow> world \<Rightarrow> db_path \<Rightarrow> string list \<Rightarrow> (tkey \<times> tvalue) list list \<Rightarrow> bool" where
  "cluster mg w path ss xss \<longleftrightarrow>
     pids_ok (mg_servers mg) \<and> map_of (mg_separators mg) path = Some ss \<and> sorted ss \<and>
     Suc (length ss) = length (mg_servers mg) \<and> length xss = length (mg_servers mg) \<and>
     (\<forall>i < length xss. shard_is w (mg_servers mg ! i) path (xss ! i)) \<and>
     (\<forall>i < length xss. \<forall>kv \<in> set (xss ! i). in_range ss i (the (fst kv)))"

text \<open>Where a key is looked up.\<close>

definition cluster_lookup :: "manager \<Rightarrow> world \<Rightarrow> db_path \<Rightarrow> string \<Rightarrow> tvalue option" where
  "cluster_lookup mg w path key =
     Option.bind (Option.bind (get_id_for_key (mg_separators mg) path key) (vec_at (mg_servers mg))) (\<lambda>p.
     Option.bind (w_servers w p) (\<lambda>s.
     Option.bind (srv_entries s path) (\<lambda>xs. map_of xs (Some key))))"

lemma clusterD:
  assumes "cluster mg w path ss xss"
  shows "pids_ok (mg_servers mg)" "map_of (mg_separators mg) path = Some ss" "sorted ss"
    "Suc (length ss) = length (mg_servers mg)" "length xss = length (mg_servers mg)"
    "i < length xss \<Longrightarrow> shard_is w (mg_servers mg ! i) path (xss ! i)"
    "i < length xss \<Longrightarrow> kv \<in> set (xss ! i) \<Longrightarrow> in_range ss i (the (fst kv))"
  using assms unfolding cluster_def by blast+

lemma in_range_mono:
  assumes "sorted ss" "in_range ss i a" "in_range ss j b" "i < j"
  shows "a < b"
proof -
  have "a < ss ! i" "ss ! (j - 1) \<le> b" using assms by (auto simp: in_range_def)
  moreover have "ss ! i \<le> ss ! (j - 1)"
    using assms by (intro sorted_nth_mono) (auto simp: in_range_def)
  ultimately show ?thesis by simp
qed

lemma all_fit_Some: "all_fit xs \<Longrightarrow> kv \<in> set xs \<Longrightarrow> fst kv = Some (the (fst kv))"
  by (auto simp: all_fit_def record_fits_def split: option.splits)

text \<open>The records in front of and behind the server for a key.\<close>

lemma cluster_sides:
  assumes c: "cluster mg w path ss xss" and i: "in_range ss i key"
  shows "\<forall>a \<in> set (concat (take i xss)). fst a < Some key" "\<forall>b \<in> set (concat (drop (Suc i) xss)). Some key < fst b"
    "xss = take i xss @ xss ! i # drop (Suc i) xss" "i < length xss"
proof -
  have fit: "fst kv = Some (the (fst kv))" if "j < length xss" "kv \<in> set (xss ! j)" for j kv
    using clusterD(6) [OF c that(1)] that(2) all_fit_Some unfolding shard_is_def by blast
  show "\<forall>a \<in> set (concat (take i xss)). fst a < Some key"
  proof
    fix a assume "a \<in> set (concat (take i xss))"
    then obtain xs where "xs \<in> set (take i xss)" "a \<in> set xs" by auto
    then obtain j where j: "j < length xss" "j < i" "a \<in> set (xss ! j)" by (auto simp: in_set_conv_nth [of xs])
    have "the (fst a) < key" using in_range_mono [OF clusterD(3) [OF c] clusterD(7) [OF c j(1,3)] i j(2)] .
    then show "fst a < Some key" using fit [OF j(1,3)] by (metis less_option_Some)
  qed
  show "\<forall>b \<in> set (concat (drop (Suc i) xss)). Some key < fst b"
  proof
    fix b assume "b \<in> set (concat (drop (Suc i) xss))"
    then obtain xs where "xs \<in> set (drop (Suc i) xss)" "b \<in> set xs" by auto
    then obtain n where n: "n < length xss - Suc i" "b \<in> set (xss ! (Suc i + n))" by (auto simp: in_set_conv_nth [of xs])
    then obtain j where j: "j < length xss" "i < j" "b \<in> set (xss ! j)" by (intro that [of "Suc i + n"]) auto
    have "key < the (fst b)" using in_range_mono [OF clusterD(3) [OF c] i clusterD(7) [OF c j(1,3)] j(2)] .
    then show "Some key < fst b" using fit [OF j(1,3)] by (metis less_option_Some)
  qed
  show l: "i < length xss" using i clusterD(4,5) [OF c] by (simp add: in_range_def)
  show "xss = take i xss @ xss ! i # drop (Suc i) xss" by (rule id_take_nth_drop [OF l])
qed

lemma map_of_sides:
  fixes k :: "'k :: linorder"
  assumes "\<forall>a \<in> set A. fst a < k" "\<forall>b \<in> set B. k < fst b"
  shows "map_of (A @ M @ B) k = map_of M k"
proof -
  have "k \<notin> fst ` set A" "k \<notin> fst ` set B" using assms by auto
  then have "map_of A k = None" "map_of B k = None" by (simp_all add: map_of_eq_None_iff)
  then show ?thesis by (simp add: map_add_def split: option.split)
qed

lemma entries_sides:
  assumes "\<forall>a \<in> set A. fst a < k" "\<forall>b \<in> set B. k < fst b"
  shows "upd_entries k v (A @ M @ B) = A @ upd_entries k v M @ B" "del_entries k (A @ M @ B) = A @ del_entries k M @ B"
    "k \<in> fst ` set (A @ M @ B) \<longleftrightarrow> k \<in> fst ` set M"
proof -
  have "filter (\<lambda>p. fst p < k) A = A" "filter (\<lambda>p. fst p < k) B = []" "filter (\<lambda>p. k < fst p) A = []"
      "filter (\<lambda>p. k < fst p) B = B" "filter (\<lambda>p. fst p \<noteq> k) A = A" "filter (\<lambda>p. fst p \<noteq> k) B = B"
    using assms by (auto simp: filter_empty_conv filter_id_conv dest: less_asym)
  then show "upd_entries k v (A @ M @ B) = A @ upd_entries k v M @ B" "del_entries k (A @ M @ B) = A @ del_entries k M @ B"
    by (simp_all add: upd_entries_def del_entries_def)
  show "k \<in> fst ` set (A @ M @ B) \<longleftrightarrow> k \<in> fst ` set M" using assms by auto
qed

text \<open>The cluster looks like one list.\<close>

lemma cluster_lookup_union:
  assumes c: "cluster mg w path ss xss"
  shows "cluster_lookup mg w path key = map_of (concat xss) (Some key)"
proof -
  let ?i = "count_below ss key"
  note sd = cluster_sides [OF c count_below_in_range]
  have ne: "mg_separators mg \<noteq> []" using clusterD(2) [OF c] by auto
  obtain s where s: "w_servers w (mg_servers mg ! ?i) = Some s" "srv_entries s path = Some (xss ! ?i)"
    using clusterD(6) [OF c sd(4)] by (auto simp: shard_is_def)
  have "cluster_lookup mg w path key = map_of (xss ! ?i) (Some key)"
    using ne clusterD(2,4,5) [OF c] s sd(4) by (simp add: cluster_lookup_def get_id_for_key_def vec_at_def)
  moreover have "concat xss = concat (take ?i xss) @ xss ! ?i @ concat (drop (Suc ?i) xss)"
    using arg_cong [OF sd(3), of concat] by simp
  ultimately show ?thesis using map_of_sides [OF sd(1,2)] by simp
qed

end
