(* ===== verification/Cluster_Moves.thy ===== *)
theory Cluster_Moves
  imports Cluster
begin

text \<open>
  The moves of one record between neighbouring servers. The move to the right keeps all records where
  they are looked up; the move to the left loses two of them.
\<close>

section \<open>Resources\<close>

text \<open>A server with memory for one more record, and one whose tree has room for the merges of a disposal.\<close>

definition takes :: "world \<Rightarrow> int \<Rightarrow> db_path \<Rightarrow> tkey \<times> tvalue \<Rightarrow> bool" where
  "takes w p path kv \<longleftrightarrow>
     (case (w_servers w p, path) of
        (Some s, pn, sn, cn) \<Rightarrow>
          (case db_lookup (srv_db s) pn sn cn of
             Some c \<Rightarrow> writable (ds_env (srv_db s)) (fst kv) (snd kv) \<and> bt_fits (c_data c)
           | None \<Rightarrow> True)
      | _ \<Rightarrow> True)"

definition gives :: "world \<Rightarrow> int \<Rightarrow> db_path \<Rightarrow> bool" where
  "gives w p path \<longleftrightarrow>
     (case (w_servers w p, path) of
        (Some s, pn, sn, cn) \<Rightarrow>
          (case db_lookup (srv_db s) pn sn cn of Some c \<Rightarrow> bt_has_room (c_data c) | None \<Rightarrow> True)
      | _ \<Rightarrow> True)"

lemma takes_able:
  "takes w p path kv \<Longrightarrow> w_servers w p = Some s \<Longrightarrow> cmd m = ADD \<Longrightarrow> msg_path m = path \<Longrightarrow>
    msg_key m = fst kv \<Longrightarrow> msg_value m = snd kv \<Longrightarrow> srv_able s m"
  by (auto simp: takes_def srv_able_def msg_path_def split: option.splits)

lemma gives_able:
  "gives w p path \<Longrightarrow> w_servers w p = Some s \<Longrightarrow> cmd m = DISPOSE \<Longrightarrow> msg_path m = path \<Longrightarrow> srv_able s m"
  by (auto simp: gives_def srv_able_def msg_path_def split: option.splits)

section \<open>One record moves\<close>

definition w_entries :: "world \<Rightarrow> int \<Rightarrow> db_path \<Rightarrow> (tkey \<times> tvalue) list option" where
  "w_entries w p path = Option.bind (w_servers w p) (\<lambda>s. srv_entries s path)"

text \<open>A world after questions and moves among the servers \<open>ps\<close>.\<close>

definition later :: "int list \<Rightarrow> nat \<Rightarrow> world \<Rightarrow> world \<Rightarrow> bool" where
  "later ps k w w' \<longleftrightarrow> quiet ps (w_queue w') \<and> prompt ps k w' \<and> w_self w' = w_self w \<and> w_junk w' = w_junk w"

lemma later_trans: "later ps k w w1 \<Longrightarrow> later ps j w1 w2 \<Longrightarrow> later ps j w w2"
  by (simp add: later_def)

lemma own_msg_simps [simp]:
  "msg_path (own_msg w path c) = path" "cmd (own_msg w path c) = c" "status (own_msg w path c) = OK"
  by (simp_all add: own_msg_def with_path_def msg_path_def split: prod.split)

lemma srv_run_ok: "srv_ok s \<Longrightarrow> srv_run s"
  by (simp add: srv_ok_def)

text \<open>A question to a server in the cluster.\<close>

lemma ask_world:
  assumes ps: "pids_ok ps" "p \<in> set ps" and l: "quiet ps (w_queue w)" "prompt ps (Suc k) w"
    and s: "w_servers w p = Some s" "srv_ok s" "srv_entries s (msg_path m) = Some xs" "all_fit xs" "question (cmd m)"
    and n: "0 < n"
  shows "\<exists>s' w'. ask n MANAGER_SERVER_STORAGE_ANSWER_PRIOR (m\<lparr>mtype := p\<rparr>) w = (True, fst (data_reply (m\<lparr>mtype := p\<rparr>) xs), w') \<and>
    later ps k w w' \<and> w_servers w' = (w_servers w)(p \<mapsto> s') \<and> srv_ok s' \<and> srv_entries s' = srv_entries s \<and>
    (\<forall>m'. msg_path m' = msg_path m \<longrightarrow> srv_able s' m' = srv_able s m')"
proof -
  have "srv_entries s (msg_path (m\<lparr>mtype := p\<rparr>)) = Some xs" "question (cmd (m\<lparr>mtype := p\<rparr>))" using s(3,5) by simp_all
  from srv_contract.ask_question [OF s(2) this(1) s(4) this(2)] obtain s' where
    s': "handle_msg s (m\<lparr>mtype := p\<rparr>) = (Inr [fst (data_reply (m\<lparr>mtype := p\<rparr>) xs)], s')" "srv_ok s'"
      "srv_entries s' = srv_entries s" "\<forall>m'. msg_path m' = msg_path m \<longrightarrow> srv_able s' m' = srv_able s m'" by auto
  have "mtype (fst (data_reply (m\<lparr>mtype := p\<rparr>) xs)) = MANAGER_SERVER_STORAGE_ANSWER_PRIOR"
    "MANAGER_SERVER_STORAGE_ANSWER_PRIOR \<in> answer_types" by (simp_all add: data_reply_msg answer_types_def)
  from ask_answered [OF ps l s(1) s'(1) srv_run_ok [OF s'(2)] this n] obtain w' where
    "ask n MANAGER_SERVER_STORAGE_ANSWER_PRIOR (m\<lparr>mtype := p\<rparr>) w = (True, fst (data_reply (m\<lparr>mtype := p\<rparr>) xs), w')"
    "w_servers w' = (w_servers w)(p := Some s')" "later ps k w w'"
    using l(1) by (auto simp: later_def)
  then show ?thesis using s'(2-4) by blast
qed

text \<open>The record in \<open>a\<close> is entered into the server \<open>p'\<close> and disposed of on the server \<open>p\<close>.\<close>

lemma move_world:
  assumes ps: "pids_ok ps" "p \<in> set ps" "p' \<in> set ps" "p \<noteq> p'" and l: "quiet ps (w_queue w)" "prompt ps (Suc (Suc k)) w"
    and s: "w_servers w p = Some s" "srv_ok s" "srv_entries s path = Some (us @ kv # vs)" "all_fit (us @ kv # vs)"
    and d: "w_servers w p' = Some d" "srv_ok d" "srv_entries d path = Some ys" "all_fit ys" "fst kv \<notin> fst ` set ys"
    and a: "msg_key a = fst kv" "msg_value a = snd kv" "msg_path a = path"
    and able: "\<forall>m. cmd m = ADD \<and> msg_path m = path \<and> msg_key m = fst kv \<and> msg_value m = snd kv \<longrightarrow> srv_able d m"
      "\<forall>m. cmd m = DISPOSE \<and> msg_path m = path \<longrightarrow> srv_able s m"
    and n: "0 < n" "0 < n'"
  shows "\<exists>d' s' w1 w2 a'. ask n MANAGER_SERVER_STORAGE_ANSWER_PRIOR (a\<lparr>cmd := ADD, mtype := p'\<rparr>) w =
      (True, taken (a\<lparr>cmd := ADD, mtype := p'\<rparr>), w1) \<and>
    ask n' MANAGER_SERVER_STORAGE_ANSWER_PRIOR ((taken (a\<lparr>cmd := ADD, mtype := p'\<rparr>))\<lparr>cmd := DISPOSE, mtype := p\<rparr>) w1 = (True, a', w2) \<and>
    later ps k w w2 \<and> w_servers w2 = (w_servers w)(p' \<mapsto> d', p \<mapsto> s') \<and> srv_ok d' \<and> srv_ok s' \<and>
    srv_entries s' = (srv_entries s)(path \<mapsto> us @ vs) \<and>
    srv_entries d' = (srv_entries d)(path \<mapsto> upd_entries (fst kv) (snd kv) ys)"
proof -
  let ?m2 = "a\<lparr>cmd := ADD, mtype := p'\<rparr>"
  let ?m3 = "(taken ?m2)\<lparr>cmd := DISPOSE, mtype := p\<rparr>"
  have A: "srv_able d ?m2" using a able(1) by (simp add: msg_key_def msg_value_def)
  have B: "srv_able s ?m3" using a able(2) by simp
  obtain d' s' where h: "handle_msg d ?m2 = (Inr [taken ?m2], d')" "srv_ok d'"
      "srv_entries d' = (srv_entries d)(path \<mapsto> upd_entries (fst kv) (snd kv) ys)"
      "handle_msg s ?m3 = (Inr [with_value (taken ?m3) (snd kv)], s')" "srv_ok s'"
      "srv_entries s' = (srv_entries s)(path \<mapsto> us @ vs)"
    using srv_contract.hand_over [OF s(2-4) d(2-5) a refl refl A B] by blast
  have t: "MANAGER_SERVER_STORAGE_ANSWER_PRIOR \<in> answer_types" "mtype (taken ?m2) = MANAGER_SERVER_STORAGE_ANSWER_PRIOR"
    "mtype (with_value (taken ?m3) (snd kv)) = MANAGER_SERVER_STORAGE_ANSWER_PRIOR"
    by (simp_all add: answer_types_def taken_def)
  obtain w1 where w1: "ask n MANAGER_SERVER_STORAGE_ANSWER_PRIOR ?m2 w = (True, taken ?m2, w1)"
      "w_servers w1 = (w_servers w)(p' \<mapsto> d')" "w_queue w1 = w_queue w" "prompt ps (Suc k) w1" "w_self w1 = w_self w"
      "w_junk w1 = w_junk w"
    using ask_answered [OF ps(1,3) l d(1) h(1) srv_run_ok [OF h(2)] t(2,1) n(1)] by blast
  have "quiet ps (w_queue w1)" "w_servers w1 p = Some s" using l(1) w1(2,3) s(1) ps(4) by simp_all
  from ask_answered [OF ps(1,2) this(1) w1(4) this(2) h(4) srv_run_ok [OF h(5)] t(3,1) n(2)] obtain w2 where
    w2: "ask n' MANAGER_SERVER_STORAGE_ANSWER_PRIOR ?m3 w1 = (True, with_value (taken ?m3) (snd kv), w2)"
      "w_servers w2 = (w_servers w1)(p \<mapsto> s')" "w_queue w2 = w_queue w1" "prompt ps k w2" "w_self w2 = w_self w1"
      "w_junk w2 = w_junk w1" by blast
  have "later ps k w w2" using w1 w2 l(1) by (simp add: later_def)
  then show ?thesis using w1(1,2) w2(1,2) h(2,3,5,6) by (metis (no_types, lifting))
qed

section \<open>The separator follows the record\<close>

lemma sorted_update:
  fixes ss :: "string list"
  assumes "sorted ss" "in_range ss i k" "i < length ss"
  shows "sorted (ss[i := k])"
  unfolding sorted_iff_nth_mono_less
proof (intro allI impI)
  fix a b assume ab: "a < b" "b < length (ss[i := k])"
  have m: "ss ! c \<le> ss ! d" if "c \<le> d" "d < length ss" for c d using assms(1) that by (rule sorted_nth_mono)
  have "ss ! a \<le> k" if "b = i"
  proof -
    have "ss ! a \<le> ss ! (i - 1)" using ab that assms(3) by (intro m) auto
    also have "\<dots> \<le> k" using ab that assms(2) by (auto simp: in_range_def)
    finally show ?thesis .
  qed
  moreover have "k \<le> ss ! b" if "a = i" using m [of i b] ab that assms(2,3) by (auto simp: in_range_def)
  ultimately show "ss[i := k] ! a \<le> ss[i := k] ! b" using m [of a b] ab by (cases "b = i"; cases "a = i") auto
qed

lemma in_range_update:
  assumes "sorted ss" "in_range ss i k" "i < length ss"
  shows "in_range ss i key \<Longrightarrow> key < k \<Longrightarrow> in_range (ss[i := k]) i key"
    "in_range ss (Suc i) key \<Longrightarrow> in_range (ss[i := k]) (Suc i) key"
    "in_range (ss[i := k]) (Suc i) k"
    "j \<noteq> i \<Longrightarrow> j \<noteq> Suc i \<Longrightarrow> in_range ss j key \<Longrightarrow> in_range (ss[i := k]) j key"
proof -
  have ki: "k < ss ! i" using assms(2,3) by (simp add: in_range_def)
  have m: "ss ! i \<le> ss ! Suc i" if "Suc i < length ss" using assms(1) that by (intro sorted_nth_mono) auto
  show "in_range ss i key \<Longrightarrow> key < k \<Longrightarrow> in_range (ss[i := k]) i key"
    using assms(3) by (auto simp: in_range_def nth_list_update)
  show "in_range ss (Suc i) key \<Longrightarrow> in_range (ss[i := k]) (Suc i) key"
    using assms(3) ki by (auto simp: in_range_def nth_list_update)
  show "in_range (ss[i := k]) (Suc i) k" using assms(3) ki m by (auto simp: in_range_def)
  show "j \<noteq> i \<Longrightarrow> j \<noteq> Suc i \<Longrightarrow> in_range ss j key \<Longrightarrow> in_range (ss[i := k]) j key"
    using assms(3) by (auto simp: in_range_def nth_list_update)
qed

section \<open>The move to the right\<close>

lemma ask_server_at:
  "i < length (mg_servers mg) \<Longrightarrow> ask n MANAGER_SERVER_STORAGE_ANSWER_PRIOR (m\<lparr>mtype := mg_servers mg ! i\<rparr>) w = (True, m1, w1) \<Longrightarrow>
    ask_server n mg i m w f = f (status m1 = OK) m1 w1"
  by (simp add: ask_server_def vec_at_def)

lemma set_separator_at:
  "map_of (mg_separators mg) path = Some ss \<Longrightarrow> i < length ss \<Longrightarrow>
    set_separator path i v mg w = (Inr True, mg\<lparr>mg_separators := map_assign path (ss[i := v]) (mg_separators mg)\<rparr>, w)"
  by (simp add: set_separator_def)

lemma transfer_right_run:
  assumes c: "cluster mg w path ss xss" and l: "quiet (mg_servers mg) (w_queue w)" "prompt (mg_servers mg) (Suc (Suc (Suc k))) w"
    and i: "Suc i < length xss" "xss ! i = xs @ [kv]"
    and r: "takes w (mg_servers mg ! Suc i) path kv" "gives w (mg_servers mg ! i) path"
  shows "\<exists>s d s' d' w'. transfer_right mg path i w =
      (Inr True, mg\<lparr>mg_separators := map_assign path (ss[i := the (fst kv)]) (mg_separators mg)\<rparr>, w') \<and>
    later (mg_servers mg) k w w' \<and> w_servers w (mg_servers mg ! i) = Some s \<and> w_servers w (mg_servers mg ! Suc i) = Some d \<and>
    w_servers w' = (w_servers w)(mg_servers mg ! Suc i \<mapsto> d', mg_servers mg ! i \<mapsto> s') \<and> srv_ok s' \<and> srv_ok d' \<and>
    srv_entries s' = (srv_entries s)(path \<mapsto> xs) \<and> srv_entries d' = (srv_entries d)(path \<mapsto> kv # xss ! Suc i)"
proof -
  let ?ps = "mg_servers mg" and ?i = "mg_servers mg ! i" and ?j = "mg_servers mg ! Suc i" and ?ys = "xss ! Suc i"
  note D = clusterD [OF c]
  have il: "i < length xss" "i < length ss" "i < length ?ps" "Suc i < length ?ps" using i(1) D(4,5) by auto
  have pp: "?i \<in> set ?ps" "?j \<in> set ?ps" "?i \<noteq> ?j" using il D(1) by (auto simp: pids_ok_def nth_eq_iff_index_eq)
  obtain s where s: "w_servers w ?i = Some s" "srv_ok s" "srv_entries s path = Some (xs @ [kv])" "all_fit (xs @ [kv])"
    using D(6) [OF il(1)] i(2) by (auto simp: shard_is_def)
  obtain d where d: "w_servers w ?j = Some d" "srv_ok d" "srv_entries d path = Some ?ys" "all_fit ?ys"
    using D(6) [OF i(1)] by (auto simp: shard_is_def)
  have fit: "record_fits kv" using s(4) by (simp add: all_fit_def)
  have lt: "fst kv < fst y" if "y \<in> set ?ys" for y
  proof -
    have "in_range ss i (the (fst kv))" "in_range ss (Suc i) (the (fst y))" using D(7) il(1) i that by auto
    then have "the (fst kv) < the (fst y)" using in_range_mono [OF D(3)] by blast
    then show ?thesis using all_fit_Some [OF s(4), of kv] all_fit_Some [OF d(4) that] by (metis in_set_conv_decomp less_option_Some)
  qed
  let ?m = "own_msg w path OBTAIN_MAX"
  let ?a = "with_record (taken (?m\<lparr>mtype := ?i\<rparr>)) kv"
  have s3: "srv_entries s (msg_path ?m) = Some (xs @ [kv])" "question (cmd ?m)" using s(3) by (simp_all add: question_def)
  have reply: "fst (data_reply (?m\<lparr>mtype := ?i\<rparr>) (xs @ [kv])) = ?a" by (simp add: data_reply_taken)
  obtain s1 w1 where w1: "ask 10 MANAGER_SERVER_STORAGE_ANSWER_PRIOR (?m\<lparr>mtype := ?i\<rparr>) w = (True, ?a, w1)"
      "later ?ps (Suc (Suc k)) w w1" "w_servers w1 = (w_servers w)(?i \<mapsto> s1)" "srv_ok s1" "srv_entries s1 = srv_entries s"
      "\<forall>m'. msg_path m' = path \<longrightarrow> srv_able s1 m' = srv_able s m'"
    using ask_world [OF D(1) pp(1) l s(1,2) s3(1) s(4) s3(2), of 10] unfolding reply own_msg_simps by auto
  have q1: "quiet ?ps (w_queue w1)" "prompt ?ps (Suc (Suc k)) w1" using w1(2) by (simp_all add: later_def)
  have e1: "w_servers w1 ?i = Some s1" "srv_entries s1 path = Some (xs @ kv # [])" "all_fit (xs @ kv # [])"
    using w1(3,5) s by simp_all
  have d1: "w_servers w1 ?j = Some d" using w1(3) d(1) pp(3) by simp
  have a: "msg_key ?a = fst kv" "msg_value ?a = snd kv" "msg_path ?a = path" by (simp_all add: with_record_back fit)
  have n: "fst kv \<notin> fst ` set ?ys" by (metis imageE less_irrefl lt)
  have able: "\<forall>m. cmd m = ADD \<and> msg_path m = path \<and> msg_key m = fst kv \<and> msg_value m = snd kv \<longrightarrow> srv_able d m"
    using takes_able [OF r(1) d(1)] by blast
  have able': "\<forall>m. cmd m = DISPOSE \<and> msg_path m = path \<longrightarrow> srv_able s1 m"
    using gives_able [OF r(2) s(1)] w1(6) by blast
  obtain d' s' w2 w3 a' where w3: "ask 10 MANAGER_SERVER_STORAGE_ANSWER_PRIOR (?a\<lparr>cmd := ADD, mtype := ?j\<rparr>) w1 =
      (True, taken (?a\<lparr>cmd := ADD, mtype := ?j\<rparr>), w2)"
      "ask 10 MANAGER_SERVER_STORAGE_ANSWER_PRIOR ((taken (?a\<lparr>cmd := ADD, mtype := ?j\<rparr>))\<lparr>cmd := DISPOSE, mtype := ?i\<rparr>) w2 = (True, a', w3)"
      "later ?ps k w1 w3" "w_servers w3 = (w_servers w1)(?j \<mapsto> d', ?i \<mapsto> s')" "srv_ok d'" "srv_ok s'"
      "srv_entries s' = (srv_entries s1)(path \<mapsto> xs @ [])"
      "srv_entries d' = (srv_entries d)(path \<mapsto> upd_entries (fst kv) (snd kv) ?ys)"
    using move_world [OF D(1) pp q1 e1(1) w1(4) e1(2,3) d1 d(2-4) n a able able' zero_less_numeral zero_less_numeral] by blast
  have st: "status ?a = OK" "status (taken (?a\<lparr>cmd := ADD, mtype := ?j\<rparr>)) = OK" "login ?a = the (fst kv)"
    by (simp_all add: taken_def)
  have "transfer_right mg path i w =
      (Inr True, mg\<lparr>mg_separators := map_assign path (ss[i := the (fst kv)]) (mg_separators mg)\<rparr>, w3)"
    unfolding transfer_right_def
    by (simp add: ask_server_at [OF il(3) w1(1)] ask_server_at [OF _ w3(1)] ask_server_at [OF il(3) w3(2)] il(4) st
        set_separator_at [OF D(2) il(2)])
  moreover have "later ?ps k w w3" using w1(2) w3(3) by (rule later_trans)
  moreover have "w_servers w3 = (w_servers w)(?j \<mapsto> d', ?i \<mapsto> s')" using w3(4) w1(3) pp(3) by (auto simp: fun_eq_iff)
  moreover have "upd_entries (fst kv) (snd kv) ?ys = kv # ?ys" using lt by (subst upd_entries_front) auto
  ultimately show ?thesis using s(1) d(1) w3(5-8) w1(5) by (intro exI conjI) auto
qed

lemma nth_other:
  "pids_ok ps \<Longrightarrow> a < length ps \<Longrightarrow> b < length ps \<Longrightarrow> ps ! a = ps ! b \<longleftrightarrow> a = b"
  by (simp add: pids_ok_def nth_eq_iff_index_eq)

lemma concat_two:
  assumes "Suc i < length xss"
  shows "concat (xss[i := xs, Suc i := ys]) = concat (take i xss) @ xs @ ys @ concat (drop (Suc (Suc i)) xss)"
    "concat xss = concat (take i xss) @ xss ! i @ xss ! Suc i @ concat (drop (Suc (Suc i)) xss)"
proof -
  have d: "xss = take i xss @ xss ! i # xss ! Suc i # drop (Suc (Suc i)) xss"
    using assms by (simp add: Cons_nth_drop_Suc)
  show "concat xss = concat (take i xss) @ xss ! i @ xss ! Suc i @ concat (drop (Suc (Suc i)) xss)"
    by (subst d) simp
  have "xss[i := xs, Suc i := ys] = take i xss @ xs # ys # drop (Suc (Suc i)) xss"
    using assms by (subst d) (simp add: list_update_append)
  then show "concat (xss[i := xs, Suc i := ys]) = concat (take i xss) @ xs @ ys @ concat (drop (Suc (Suc i)) xss)" by simp
qed

text \<open>The cluster after the move holds the same records in the same order.\<close>

lemma transfer_right_moves:
  assumes c: "cluster mg w path ss xss" and l: "quiet (mg_servers mg) (w_queue w)" "prompt (mg_servers mg) (Suc (Suc (Suc k))) w"
    and i: "Suc i < length xss" "xss ! i = xs @ [kv]"
    and r: "takes w (mg_servers mg ! Suc i) path kv" "gives w (mg_servers mg ! i) path"
  shows "\<exists>mg' w'. transfer_right mg path i w = (Inr True, mg', w') \<and> mg_servers mg' = mg_servers mg \<and>
    later (mg_servers mg) k w w' \<and>
    cluster mg' w' path (ss[i := the (fst kv)]) (xss[i := xs, Suc i := kv # xss ! Suc i]) \<and>
    concat (xss[i := xs, Suc i := kv # xss ! Suc i]) = concat xss \<and>
    (\<forall>p q. q \<noteq> path \<longrightarrow> w_entries w' p q = w_entries w p q)"
proof -
  let ?ps = "mg_servers mg" and ?k = "the (fst kv)" and ?xss = "xss[i := xs, Suc i := kv # xss ! Suc i]"
  let ?mg = "mg\<lparr>mg_separators := map_assign path (ss[i := ?k]) (mg_separators mg)\<rparr>"
  note D = clusterD [OF c]
  have il: "i < length xss" "i < length ss" using i(1) D(4,5) by auto
  obtain s d s' d' w' where t: "transfer_right mg path i w = (Inr True, ?mg, w')" "later ?ps k w w'"
      "w_servers w (?ps ! i) = Some s" "w_servers w (?ps ! Suc i) = Some d"
      "w_servers w' = (w_servers w)(?ps ! Suc i \<mapsto> d', ?ps ! i \<mapsto> s')" "srv_ok s'" "srv_ok d'"
      "srv_entries s' = (srv_entries s)(path \<mapsto> xs)" "srv_entries d' = (srv_entries d)(path \<mapsto> kv # xss ! Suc i)"
    using transfer_right_run [OF c l i r] by blast
  have kv: "kv \<in> set (xss ! i)" using i(2) by simp
  have rk: "in_range ss i ?k" using D(7) [OF il(1) kv] .
  have shard: "shard_is w (?ps ! j) path (xss ! j)" "all_fit (xss ! j)" if "j < length xss" for j
    using D(6) [OF that] by (auto simp: shard_is_def)
  have fits: "all_fit xs" "all_fit (kv # xss ! Suc i)" using shard(2) [OF il(1)] shard(2) [OF i(1)] i(2) by (auto simp: all_fit_def)
  have so: "sorted_keys (xs @ [kv])"
    using shard(1) [OF il(1)] srv_entries_sorted unfolding shard_is_def i(2) by blast
  have lt: "the (fst x) < ?k" if "x \<in> set xs" for x
  proof -
    have "fst x < fst kv" using so that by (auto simp: sorted_wrt_append)
    then show ?thesis using all_fit_Some [OF fits(1) that] all_fit_Some [OF fits(2), of kv] by (metis list.set_intros(1) less_option_Some)
  qed
  have sh: "shard_is w' (?ps ! j) path (?xss ! j)" if j: "j < length xss" for j
  proof -
    consider "j = i" | "j = Suc i" | "j \<noteq> i" "j \<noteq> Suc i" by blast
    then show ?thesis
    proof cases
      case 1
      then show ?thesis using t(5,6,8) il(1) fits(1) by (auto simp: shard_is_def)
    next
      case 2
      then have "?ps ! j \<noteq> ?ps ! i" using nth_other [OF D(1)] i(1) D(5) by simp
      then show ?thesis using 2 t(5,7,9) i(1) fits(2) by (auto simp: shard_is_def)
    next
      case 3
      then have "?ps ! j \<noteq> ?ps ! i" "?ps ! j \<noteq> ?ps ! Suc i" using nth_other [OF D(1)] i(1) D(5) j by simp_all
      then show ?thesis using 3 t(5) shard(1) [OF j] by (auto simp: shard_is_def)
    qed
  qed
  note up = in_range_update [OF D(3) rk il(2)]
  have pl: "in_range (ss[i := ?k]) j (the (fst x))" if j: "j < length xss" "x \<in> set (?xss ! j)" for j x
  proof -
    consider "j = i" | "j = Suc i" | "j \<noteq> i" "j \<noteq> Suc i" by blast
    then show ?thesis
    proof cases
      case 1
      then have x: "x \<in> set xs" using j(2) il(1) by simp
      have "in_range ss i (the (fst x))" using D(7) [OF il(1)] x i(2) by simp
      then show ?thesis using 1 up(1) lt [OF x] by simp
    next
      case 2
      then consider "x = kv" | "x \<in> set (xss ! Suc i)" using j(2) i(1) by auto
      then show ?thesis using 2 up(2,3) D(7) [OF i(1)] by cases auto
    next
      case 3
      then show ?thesis using j D(7) [OF j(1)] up(4) by simp
    qed
  qed
  have "cluster ?mg w' path (ss[i := ?k]) ?xss"
    using D(1,4,5) sh pl sorted_update [OF D(3) rk il(2)] by (simp add: cluster_def map_of_map_assign)
  moreover have "concat ?xss = concat xss" using concat_two [OF i(1)] i(2) by simp
  moreover have "w_entries w' p q = w_entries w p q" if "q \<noteq> path" for p q
    using t(3-5,8,9) that by (auto simp: w_entries_def)
  ultimately show ?thesis using t(1,2) by (intro exI [of _ ?mg] exI [of _ w']) simp
qed

section \<open>The move to the left\<close>

text \<open>
  The record that moves is the one that \<open>OBTAIN_NEXT\<close> finds after the least: the second one, or the only
  one.
\<close>

lemma next_of_least: "next_entry (fst x) (x # zs) = Some (case zs of [] \<Rightarrow> x | y # _ \<Rightarrow> y)"
  by (simp add: next_entry_def split: list.split)

lemma transfer_left_run:
  assumes c: "cluster mg w path ss xss"
    and l: "quiet (mg_servers mg) (w_queue w)" "prompt (mg_servers mg) (Suc (Suc (Suc (Suc k)))) w"
    and i: "Suc i < length xss" "xss ! Suc i = us @ kv # vs"
      "next_entry (fst (hd (xss ! Suc i))) (xss ! Suc i) = Some kv"
    and r: "takes w (mg_servers mg ! i) path kv" "gives w (mg_servers mg ! Suc i) path"
  shows "\<exists>s d s' d' w'. transfer_left mg path (Suc i) w =
      (Inr True, mg\<lparr>mg_separators := map_assign path (ss[i := the (fst kv)]) (mg_separators mg)\<rparr>, w') \<and>
    later (mg_servers mg) k w w' \<and> w_servers w (mg_servers mg ! Suc i) = Some s \<and> w_servers w (mg_servers mg ! i) = Some d \<and>
    w_servers w' = (w_servers w)(mg_servers mg ! i \<mapsto> d', mg_servers mg ! Suc i \<mapsto> s') \<and> srv_ok s' \<and> srv_ok d' \<and>
    srv_entries s' = (srv_entries s)(path \<mapsto> us @ vs) \<and>
    srv_entries d' = (srv_entries d)(path \<mapsto> xss ! i @ [kv])"
proof -
  let ?ps = "mg_servers mg" and ?i = "mg_servers mg ! Suc i" and ?j = "mg_servers mg ! i" and ?ys = "xss ! i"
  let ?xs = "us @ kv # vs"
  note D = clusterD [OF c]
  have il: "i < length xss" "i < length ss" "i < length ?ps" "Suc i < length ?ps" using i(1) D(4,5) by auto
  have pp: "?i \<in> set ?ps" "?j \<in> set ?ps" "?i \<noteq> ?j" using il D(1) by (auto simp: pids_ok_def nth_eq_iff_index_eq)
  obtain s where s: "w_servers w ?i = Some s" "srv_ok s" "srv_entries s path = Some ?xs" "all_fit ?xs"
    using D(6) [OF i(1)] i(2) by (auto simp: shard_is_def)
  obtain d where d: "w_servers w ?j = Some d" "srv_ok d" "srv_entries d path = Some ?ys" "all_fit ?ys"
    using D(6) [OF il(1)] by (auto simp: shard_is_def)
  have fit: "record_fits kv" "record_fits (hd ?xs)" using s(4) by (cases us; simp add: all_fit_def)+
  have lt: "fst y < fst kv" if "y \<in> set ?ys" for y
  proof -
    have "in_range ss i (the (fst y))" "in_range ss (Suc i) (the (fst kv))" using D(7) [OF il(1) that] D(7) [OF i(1)] i(2) by auto
    then have "the (fst y) < the (fst kv)" using in_range_mono [OF D(3)] by blast
    then show ?thesis using all_fit_Some [OF s(4), of kv] all_fit_Some [OF d(4) that] by (metis in_set_conv_decomp less_option_Some)
  qed
  let ?m = "own_msg w path OBTAIN_MIN"
  let ?b = "with_record (taken (?m\<lparr>mtype := ?i\<rparr>)) (hd ?xs)"
  have s3: "srv_entries s (msg_path ?m) = Some ?xs" "question (cmd ?m)" using s(3) by (simp_all add: question_def)
  have reply: "fst (data_reply (?m\<lparr>mtype := ?i\<rparr>) ?xs) = ?b" by (simp add: data_reply_taken)
  obtain s1 w1 where w1: "ask 10 MANAGER_SERVER_STORAGE_ANSWER_PRIOR (?m\<lparr>mtype := ?i\<rparr>) w = (True, ?b, w1)"
      "later ?ps (Suc (Suc (Suc k))) w w1" "w_servers w1 = (w_servers w)(?i \<mapsto> s1)" "srv_ok s1" "srv_entries s1 = srv_entries s"
      "\<forall>m'. msg_path m' = path \<longrightarrow> srv_able s1 m' = srv_able s m'"
    using ask_world [OF D(1) pp(1) l s(1,2) s3(1) s(4) s3(2), of 10] unfolding reply own_msg_simps by auto
  have q1: "quiet ?ps (w_queue w1)" "prompt ?ps (Suc (Suc (Suc k))) w1" using w1(2) by (simp_all add: later_def)
  let ?n = "?b\<lparr>status := OK, cmd := OBTAIN_NEXT\<rparr>"
  let ?a = "with_record (taken (?n\<lparr>mtype := ?i\<rparr>)) kv"
  have n3: "w_servers w1 ?i = Some s1" "srv_entries s1 (msg_path ?n) = Some ?xs" "question (cmd ?n)" "msg_path ?n = path"
    using s(3) w1(3,5) by (simp_all add: question_def)
  have "msg_key (?n\<lparr>mtype := ?i\<rparr>) = fst (hd ?xs)" using with_record_back(1) [OF fit(2)] by (simp add: msg_key_def)
  then have reply2: "fst (data_reply (?n\<lparr>mtype := ?i\<rparr>) ?xs) = ?a" using i(2,3) by (simp add: data_reply_taken)
  obtain s2 w2 where w2: "ask 10 MANAGER_SERVER_STORAGE_ANSWER_PRIOR (?n\<lparr>mtype := ?i\<rparr>) w1 = (True, ?a, w2)"
      "later ?ps (Suc (Suc k)) w1 w2" "w_servers w2 = (w_servers w1)(?i \<mapsto> s2)" "srv_ok s2" "srv_entries s2 = srv_entries s1"
      "\<forall>m'. msg_path m' = path \<longrightarrow> srv_able s2 m' = srv_able s1 m'"
    using ask_world [OF D(1) pp(1) q1 n3(1) w1(4) n3(2) s(4) n3(3), of 10] unfolding reply2 n3(4) by auto
  have q2: "quiet ?ps (w_queue w2)" "prompt ?ps (Suc (Suc k)) w2" using w2(2) by (simp_all add: later_def)
  have e2: "w_servers w2 ?i = Some s2" "srv_entries s2 path = Some ?xs" using w1(5) w2(3,5) s by simp_all
  have d2: "w_servers w2 ?j = Some d" using w1(3) w2(3) d(1) pp(3) by simp
  have a: "msg_key ?a = fst kv" "msg_value ?a = snd kv" "msg_path ?a = path" using n3(4) by (simp_all add: with_record_back fit)
  have n: "fst kv \<notin> fst ` set ?ys" by (metis imageE less_irrefl lt)
  have able: "\<forall>m. cmd m = ADD \<and> msg_path m = path \<and> msg_key m = fst kv \<and> msg_value m = snd kv \<longrightarrow> srv_able d m"
    using takes_able [OF r(1) d(1)] by blast
  have able': "\<forall>m. cmd m = DISPOSE \<and> msg_path m = path \<longrightarrow> srv_able s2 m"
    using gives_able [OF r(2) s(1)] w1(6) w2(6) by blast
  obtain d' s' w3 w4 a' where w4: "ask 10 MANAGER_SERVER_STORAGE_ANSWER_PRIOR (?a\<lparr>cmd := ADD, mtype := ?j\<rparr>) w2 =
      (True, taken (?a\<lparr>cmd := ADD, mtype := ?j\<rparr>), w3)"
      "ask 25 MANAGER_SERVER_STORAGE_ANSWER_PRIOR ((taken (?a\<lparr>cmd := ADD, mtype := ?j\<rparr>))\<lparr>cmd := DISPOSE, mtype := ?i\<rparr>) w3 = (True, a', w4)"
      "later ?ps k w2 w4" "w_servers w4 = (w_servers w2)(?j \<mapsto> d', ?i \<mapsto> s')" "srv_ok d'" "srv_ok s'"
      "srv_entries s' = (srv_entries s2)(path \<mapsto> us @ vs)"
      "srv_entries d' = (srv_entries d)(path \<mapsto> upd_entries (fst kv) (snd kv) ?ys)"
    using move_world [OF D(1) pp q2 e2(1) w2(4) e2(2) s(4) d2 d(2-4) n a able able' zero_less_numeral zero_less_numeral] by blast
  have st: "status ?b = OK" "status ?a = OK" "status (taken (?a\<lparr>cmd := ADD, mtype := ?j\<rparr>)) = OK" "login ?a = the (fst kv)"
    by simp_all
  have "transfer_left mg path (Suc i) w =
      (Inr True, mg\<lparr>mg_separators := map_assign path (ss[i := the (fst kv)]) (mg_separators mg)\<rparr>, w4)"
    unfolding transfer_left_def
    by (simp add: ask_server_at [OF il(4) w1(1)] ask_server_at [OF il(4) w2(1)] ask_server_at [OF _ w4(1)]
        ask_server_at [OF il(4) w4(2)] il(3) st set_separator_at [OF D(2) il(2)])
  moreover have "later ?ps k w w4" using later_trans [OF w1(2) later_trans [OF w2(2) w4(3)]] .
  moreover have "w_servers w4 = (w_servers w)(?j \<mapsto> d', ?i \<mapsto> s')" using w4(4) w2(3) w1(3) pp(3) by (auto simp: fun_eq_iff)
  moreover have "upd_entries (fst kv) (snd kv) ?ys = ?ys @ [kv]" using lt by (subst upd_entries_back) auto
  ultimately show ?thesis using s(1) d(1) w4(5-8) w1(5) w2(5) by (intro exI conjI) auto
qed

lemma cluster_lookup_at:
  assumes "map_of (mg_separators mg) path = Some ss" "sorted ss" "in_range ss i key" "Suc (length ss) = length (mg_servers mg)"
    and "w_entries w (mg_servers mg ! i) path = Some xs"
  shows "cluster_lookup mg w path key = map_of xs (Some key)"
proof -
  have "count_below ss key = i" using assms(2,3) by (simp add: count_below_iff)
  moreover have "mg_separators mg \<noteq> []" using assms(1) by auto
  moreover have "i < length (mg_servers mg)" using assms(3,4) by (simp add: in_range_def)
  ultimately show ?thesis
    using assms(1,5) by (auto simp: cluster_lookup_def get_id_for_key_def vec_at_def w_entries_def split: bind_splits)
qed

text \<open>A separator that goes up to a key of the server behind it.\<close>

lemma separator_up:
  assumes "sorted ss" "in_range ss (Suc i) k" "i < length ss"
  shows "sorted (ss[i := k])" "in_range (ss[i := k]) (Suc i) k"
    "in_range ss (Suc i) key \<Longrightarrow> key < k \<Longrightarrow> in_range (ss[i := k]) i key"
proof -
  have m: "ss ! a \<le> ss ! b" if "a \<le> b" "b < length ss" for a b using assms(1) that by (rule sorted_nth_mono)
  have ik: "ss ! i \<le> k" using assms(2) by (simp add: in_range_def)
  have kn: "k < ss ! b" if "i < b" "b < length ss" for b using assms(2) m [of "Suc i" b] that by (auto simp: in_range_def)
  show "sorted (ss[i := k])"
    unfolding sorted_iff_nth_mono_less
  proof (intro allI impI)
    fix a b assume ab: "a < b" "b < length (ss[i := k])"
    show "ss[i := k] ! a \<le> ss[i := k] ! b"
      using ab assms(3) m [of a b] m [of a i] ik kn [of b] by (cases "b = i"; cases "a = i") auto
  qed
  show "in_range (ss[i := k]) (Suc i) k" using assms(2,3) by (auto simp: in_range_def)
  show "in_range (ss[i := k]) i key" if "in_range ss (Suc i) key" "key < k"
    using assms(3) that m [of "i - 1" i] by (auto simp: in_range_def)
qed

lemma map_of_front: "map_of (x # xs) (fst x) = Some (snd x)"
  by (cases x) simp

lemma transfer_left_loses_records:
  assumes c: "cluster mg w path ss xss" and l: "quiet (mg_servers mg) (w_queue w)" "prompt (mg_servers mg) 4 w"
    and i: "Suc i < length xss" "xss ! Suc i = x # zs" "kv = (case zs of [] \<Rightarrow> x | y # _ \<Rightarrow> y)"
    and r: "takes w (mg_servers mg ! i) path kv" "gives w (mg_servers mg ! Suc i) path"
  shows "\<exists>mg' w'. transfer_left mg path (Suc i) w = (Inr True, mg', w') \<and>
    cluster_lookup mg' w' path (the (fst x)) = None \<and> cluster_lookup mg' w' path (the (fst kv)) = None"
proof -
  let ?ps = "mg_servers mg" and ?k = "the (fst kv)"
  let ?mg = "mg\<lparr>mg_separators := map_assign path (ss[i := ?k]) (mg_separators mg)\<rparr>"
  note D = clusterD [OF c]
  have il: "i < length xss" "i < length ss" using i(1) D(4,5) by auto
  define us where "us = (if zs = [] then [] else [x])"
  have uv: "xss ! Suc i = us @ kv # tl zs" using i(2,3) by (simp add: us_def split: list.split)
  have l4: "prompt ?ps (Suc (Suc (Suc (Suc 0)))) w" using l(2) by (simp add: numeral_eq_Suc)
  have nx: "next_entry (fst (hd (xss ! Suc i))) (xss ! Suc i) = Some kv" using next_of_least [of x zs] i(2,3) by simp
  obtain s d s' d' w' where t: "transfer_left mg path (Suc i) w = (Inr True, ?mg, w')"
      "w_servers w (?ps ! Suc i) = Some s" "w_servers w (?ps ! i) = Some d"
      "w_servers w' = (w_servers w)(?ps ! i \<mapsto> d', ?ps ! Suc i \<mapsto> s')"
      "srv_entries s' = (srv_entries s)(path \<mapsto> us @ tl zs)" "srv_entries d' = (srv_entries d)(path \<mapsto> xss ! i @ [kv])"
    using transfer_left_run [OF c l(1) l4 i(1) uv nx r] by blast
  have ne: "?ps ! i \<noteq> ?ps ! Suc i" using nth_other [OF D(1)] i(1) D(5) by simp
  have e: "w_entries w' (?ps ! Suc i) path = Some (us @ tl zs)" "w_entries w' (?ps ! i) path = Some (xss ! i @ [kv])"
    using t(4-6) ne by (simp_all add: w_entries_def)
  have sh: "\<exists>s. srv_ok s \<and> srv_entries s path = Some (xss ! Suc i)" "all_fit (xss ! i)" "all_fit (us @ kv # tl zs)"
    using D(6) [OF i(1)] D(6) [OF il(1)] uv by (auto simp: shard_is_def)
  then have so: "sorted_keys (us @ kv # tl zs)" using srv_entries_sorted uv by metis
  have fx: "fst kv = Some ?k" "fst x = Some (the (fst x))" using all_fit_Some [OF sh(3)] uv i(2) by (metis in_set_conv_decomp, metis list.set_intros(1))
  have xk: "x \<in> set (xss ! Suc i)" by (simp add: i(2))
  have kk: "kv \<in> set (xss ! Suc i)" unfolding uv by simp
  have rk: "in_range ss (Suc i) ?k" "in_range ss (Suc i) (the (fst x))" using D(7) [OF i(1)] xk kk by blast+
  note up = separator_up [OF D(3) rk(1) il(2)]
  have L: "map_of (mg_separators ?mg) path = Some (ss[i := ?k])" "Suc (length (ss[i := ?k])) = length (mg_servers ?mg)"
    using D(4) by (simp_all add: map_of_map_assign)
  have "fst kv \<notin> fst ` set (us @ tl zs)" using so by (auto simp: sorted_wrt_append)
  then have n1: "map_of (us @ tl zs) (Some ?k) = None" using fx(1) by (metis map_of_eq_None_iff)
  have "w_entries w' (mg_servers ?mg ! Suc i) path = Some (us @ tl zs)" using e(1) by simp
  from cluster_lookup_at [OF L(1) up(1,2) L(2) this] n1 have a: "cluster_lookup ?mg w' path ?k = None" by simp
  have "cluster_lookup ?mg w' path (the (fst x)) = None"
  proof (cases "zs = []")
    case True
    then show ?thesis using a i(3) by simp
  next
    case False
    then have us: "us = [x]" by (simp add: us_def)
    then have "fst x < fst kv" using so by simp
    then have xl: "the (fst x) < ?k" using fx by (metis less_option_Some)
    have "in_range (ss[i := ?k]) i (the (fst x))" by (rule up(3) [OF rk(2) xl])
    moreover have "w_entries w' (mg_servers ?mg ! i) path = Some (xss ! i @ [kv])" using e(2) by simp
    ultimately have "cluster_lookup ?mg w' path (the (fst x)) = map_of (xss ! i @ [kv]) (Some (the (fst x)))"
      by (rule cluster_lookup_at [OF L(1) up(1) _ L(2)])
    moreover have "Some (the (fst x)) \<notin> fst ` set (xss ! i @ [kv])"
    proof
      assume "Some (the (fst x)) \<in> fst ` set (xss ! i @ [kv])"
      then consider y where "y \<in> set (xss ! i)" "the (fst y) = the (fst x)" | "fst kv = Some (the (fst x))" by auto
      then show False
      proof cases
        case 1
        then show ?thesis using in_range_mono [OF D(3) D(7) [OF il(1) 1(1)] rk(2)] by simp
      next
        case 2
        then show ?thesis using xl by simp
      qed
    qed
    ultimately show ?thesis by (simp add: map_of_eq_None_iff)
  qed
  then show ?thesis using t(1) a by blast
qed

end
