(* ===== verification/Cluster_Requests.thy ===== *)
theory Cluster_Requests
  imports Cluster_Moves
begin

text \<open>
  The way of a command on records: the client's message reaches the manager, the server that the
  separators name, again the manager, and the client. All servers together answer as one server with
  all the records would.
\<close>

section \<open>The answer of one server and of all\<close>

lemma data_reply_mtype [simp]: "data_reply (m\<lparr>mtype := t\<rparr>) xs = data_reply m xs"
  by (simp add: data_reply_def)

definition keyed_command :: "command \<Rightarrow> bool" where
  "keyed_command c \<longleftrightarrow> c \<in> {ADD, UPDATE, DISPOSE, OBTAIN}"

lemma data_reply_sides:
  assumes "\<forall>a \<in> set A. fst a < msg_key m" "\<forall>b \<in> set B. msg_key m < fst b" "keyed_command (cmd m)"
  shows "data_reply m (A @ M @ B) = (fst (data_reply m M), A @ snd (data_reply m M) @ B)"
proof -
  note sides = map_of_sides [OF assms(1,2)] entries_sides [OF assms(1,2)]
  consider "cmd m = ADD" | "cmd m = UPDATE" | "cmd m = DISPOSE" | "cmd m = OBTAIN"
    using assms(3) unfolding keyed_command_def by blast
  then show ?thesis
    by cases (simp_all add: data_reply_taken sides del: set_append map_of_append split: option.split)
qed

lemma data_reply_set:
  assumes "keyed_command (cmd m)" "kv \<in> set (snd (data_reply m xs))"
  shows "kv \<in> set xs \<or> kv = (msg_key m, msg_value m)"
  using assms
  by (auto simp: keyed_command_def data_reply_taken upd_entries_def del_entries_def split: if_splits option.splits)

lemma concat_update:
  assumes "i < length xss"
  shows "concat (xss[i := ys]) = concat (take i xss) @ ys @ concat (drop (Suc i) xss)"
    "concat xss = concat (take i xss) @ xss ! i @ concat (drop (Suc i) xss)"
proof -
  show "concat (xss[i := ys]) = concat (take i xss) @ ys @ concat (drop (Suc i) xss)"
    by (simp add: upd_conv_take_nth_drop [OF assms])
  show "concat xss = concat (take i xss) @ xss ! i @ concat (drop (Suc i) xss)"
    by (subst id_take_nth_drop [OF assms]) simp
qed

lemma data_reply_cluster:
  assumes c: "cluster mg w path ss xss" and m: "keyed_command (cmd m)" and i: "i = count_below ss (login m)"
  shows "data_reply m (concat xss) = (fst (data_reply m (xss ! i)), concat (xss[i := snd (data_reply m (xss ! i))]))"
proof -
  note sd = cluster_sides [OF c count_below_in_range, of "login m", folded i]
  have k: "msg_key m = Some (login m)" by (simp add: msg_key_def)
  show ?thesis
    unfolding concat_update [OF sd(4)]
    by (rule data_reply_sides [OF _ _ m]) (use sd(1,2) in \<open>simp_all add: k\<close>)
qed

text \<open>A message leaves every record where the separators want it.\<close>

lemma cluster_message:
  assumes c: "cluster mg w path ss xss" and m: "keyed_command (cmd m)" "msg_fits m" and i: "i = count_below ss (login m)"
    and w': "w_servers w' = (w_servers w)(mg_servers mg ! i \<mapsto> s')" "srv_ok s'"
      "srv_entries s' path = Some (snd (data_reply m (xss ! i)))"
    and mg': "mg_servers mg' = mg_servers mg" "mg_separators mg' = mg_separators mg"
  shows "cluster mg' w' path ss (xss[i := snd (data_reply m (xss ! i))])"
proof -
  let ?ys = "snd (data_reply m (xss ! i))" and ?ps = "mg_servers mg"
  note D = clusterD [OF c] and sd = cluster_sides(4) [OF c count_below_in_range, of "login m", folded i]
  have fits: "all_fit (xss ! i)" using D(6) [OF sd] by (auto simp: shard_is_def)
  have new: "kv \<in> set (xss ! i) \<or> kv = (Some (login m), msg_value m)" if "kv \<in> set ?ys" for kv
    using data_reply_set [OF m(1) that] by (simp add: msg_key_def)
  have "all_fit ?ys"
    unfolding all_fit_def
  proof
    fix kv assume "kv \<in> set ?ys"
    then show "record_fits kv" using new [of kv] fits record_of_msg_fits [OF m(2)] by (auto simp: all_fit_def msg_key_def)
  qed
  moreover have "shard_is w' (?ps ! j) path (xss ! j)" if "j < length xss" "j \<noteq> i" for j
    using D(6) [OF that(1)] w'(1) nth_other [OF D(1), of j i] D(5) that sd by (simp add: shard_is_def)
  ultimately have "shard_is w' (?ps ! j) path (xss[i := ?ys] ! j)" if "j < length xss" for j
    using w' that by (cases "j = i") (auto simp: shard_is_def)
  moreover have "in_range ss j (the (fst kv))" if "j < length xss" "kv \<in> set (xss[i := ?ys] ! j)" for j kv
  proof (cases "j = i")
    case True
    then have "kv \<in> set (xss ! i) \<or> kv = (Some (login m), msg_value m)" using that sd new by simp
    then show ?thesis using True D(7) [OF sd, of kv] count_below_in_range [of ss "login m", folded i] by (elim disjE) simp_all
  next
    case False
    then show ?thesis using D(7) that by simp
  qed
  ultimately show ?thesis using D(1-5) mg' by (simp add: cluster_def)
qed

section \<open>One request\<close>

text \<open>
  The manager takes a message, every server gets its turn, and the manager takes the next message.
\<close>

definition request :: "bool \<Rightarrow> manager \<Rightarrow> world \<Rightarrow> round_result" where
  "request is_filesystem mg w =
     (case manager_receive w of
        None \<Rightarrow> Some (Inr (mg, w))
      | Some (m, w1) \<Rightarrow>
          (case manager_round is_filesystem mg m w1 of
             Some (Inr (mg1, w2)) \<Rightarrow>
               (case manager_receive (fold happen (map Serve (mg_servers mg1)) w2) of
                  None \<Rightarrow> Some (Inr (mg1, fold happen (map Serve (mg_servers mg1)) w2))
                | Some (m', w3) \<Rightarrow> manager_round is_filesystem mg1 m' w3)
           | r \<Rightarrow> r))"

definition changes :: "command \<Rightarrow> nat" where
  "changes c = (if c \<in> {ADD, UPDATE, DISPOSE} then 1 else 0)"

lemma manager_receive_one:
  "w_queue w = [m] \<Longrightarrow> mtype m \<le> 30 \<Longrightarrow> manager_receive w = Some (m, w\<lparr>w_queue := []\<rparr>)"
  by (simp add: manager_receive_def msgrcv_def priors)

text \<open>A round with a command on records, while the changes are too few for a redistribution.\<close>

lemma manager_round_data:
  assumes "keyed_command (cmd m)" "mg_changes mg + changes (cmd m) < 30 * (1 + length (mg_servers mg))"
    and "handle_data_command mg (m\<lparr>mtype := pid m\<rparr>) w = (Inr (), w')"
  shows "manager_round fs mg m w = Some (Inr (mg\<lparr>mg_changes := mg_changes mg + changes (cmd m)\<rparr>, w'))"
proof -
  have h: "handle_data_command (mg\<lparr>mg_changes := n\<rparr>) msg w = handle_data_command mg msg w" for n msg
    by (simp add: handle_data_command_def)
  show ?thesis
    using assms h by (cases "cmd m") (auto simp: keyed_command_def changes_def manager_round_def manager_switch_def plain_def)
qed

lemma request_answered:
  assumes c: "cluster mg w path ss xss" and q: "w_queue w = [m]"
    and m: "mtype m = MANAGER_SERVER_CLIENT_PRIOR" "status m = CLIENT" "msg_path m = path" "keyed_command (cmd m)" "msg_fits m"
    and few: "mg_changes mg + 2 < 30 * (1 + length (mg_servers mg))"
    and able: "\<And>s. w_servers w (mg_servers mg ! count_below ss (login m)) = Some s \<Longrightarrow>
      srv_able s (m\<lparr>mtype := mg_servers mg ! count_below ss (login m)\<rparr>)"
  shows "\<exists>mg' w' xss'. request fs mg w = Some (Inr (mg', w')) \<and>
    w_queue w' = [(fst (data_reply m (concat xss)))\<lparr>mtype := pid m\<rparr>] \<and>
    cluster mg' w' path ss xss' \<and> concat xss' = snd (data_reply m (concat xss)) \<and>
    (\<forall>p q. q \<noteq> path \<longrightarrow> w_entries w' p q = w_entries w p q)"
proof -
  let ?i = "count_below ss (login m)" and ?ps = "mg_servers mg"
  let ?p = "?ps ! ?i" and ?n = "changes (cmd m)"
  note D = clusterD [OF c]
  have il: "?i < length xss" "?i < length ?ps" using count_below_le [of ss "login m"] D(4,5) by simp_all
  have pp: "?p \<in> set ?ps" using il by simp
  obtain s where s: "w_servers w ?p = Some s" "srv_ok s" "srv_entries s path = Some (xss ! ?i)" "all_fit (xss ! ?i)"
    using D(6) [OF il(1)] by (auto simp: shard_is_def)
  let ?a = "fst (data_reply m (xss ! ?i))"
  obtain s' where s': "handle_msg s (m\<lparr>mtype := ?p\<rparr>) = (Inr [?a], s')" "srv_ok s'"
      "srv_entries s' = (srv_entries s)(path \<mapsto> snd (data_reply m (xss ! ?i)))"
    using srv_contract.reply [OF s(2), of "m\<lparr>mtype := ?p\<rparr>" "xss ! ?i"] s(3,4) m(3,4) able [OF s(1)]
    by (auto simp: data_command_def keyed_command_def)
  have ne: "?ps \<noteq> []" "mg_separators mg \<noteq> []" using il D(2) by auto
  have "handle_data_command mg (m\<lparr>mtype := pid m\<rparr>) (w\<lparr>w_queue := []\<rparr>) = (Inr (), w\<lparr>w_queue := [m\<lparr>mtype := ?p\<rparr>]\<rparr>)"
    using ne D(2) il(2) m(2,3) by (simp add: handle_data_command_def get_id_for_key_def vec_at_def send_def msgsnd_def)
  moreover have "mg_changes mg + ?n < 30 * (1 + length ?ps)" using few by (simp add: changes_def)
  ultimately have r1: "manager_round fs mg m (w\<lparr>w_queue := []\<rparr>) =
      Some (Inr (mg\<lparr>mg_changes := mg_changes mg + ?n\<rparr>, w\<lparr>w_queue := [m\<lparr>mtype := ?p\<rparr>]\<rparr>))"
    using manager_round_data [OF m(4)] by blast
  let ?mg1 = "mg\<lparr>mg_changes := mg_changes mg + ?n\<rparr>"
  let ?w3 = "w\<lparr>w_queue := [?a], w_servers := (w_servers w)(?p \<mapsto> s')\<rparr>"
  have "fold happen (map Serve ?ps) (w\<lparr>w_queue := []\<rparr>\<lparr>w_queue := w_queue (w\<lparr>w_queue := []\<rparr>) @ [m\<lparr>mtype := ?p\<rparr>]\<rparr>) =
      w\<lparr>w_queue := []\<rparr>\<lparr>w_queue := w_queue (w\<lparr>w_queue := []\<rparr>) @ [?a],
        w_servers := (w_servers (w\<lparr>w_queue := []\<rparr>))(?p := Some s')\<rparr>"
    by (rule one_serves [OF D(1) pp]) (use s(1) s'(1) srv_run_ok [OF s'(2)] in \<open>simp_all add: quiet_def data_reply_msg answer_types_def\<close>)
  then have run: "fold happen (map Serve (mg_servers ?mg1)) (w\<lparr>w_queue := [m\<lparr>mtype := ?p\<rparr>]\<rparr>) = ?w3" by simp
  have rc: "manager_receive ?w3 = Some (?a, ?w3\<lparr>w_queue := []\<rparr>)"
    by (rule manager_receive_one) (simp_all add: data_reply_msg priors)
  let ?w' = "?w3\<lparr>w_queue := [?a\<lparr>mtype := pid m\<rparr>]\<rparr>"
  have "handle_data_command ?mg1 (?a\<lparr>mtype := pid ?a\<rparr>) (?w3\<lparr>w_queue := []\<rparr>) = (Inr (), ?w')"
    by (simp add: handle_data_command_def data_reply_msg send_def msgsnd_def)
  moreover have "mg_changes ?mg1 + changes (cmd ?a) < 30 * (1 + length (mg_servers ?mg1))"
    using few by (simp add: changes_def)
  ultimately have r2: "manager_round fs ?mg1 ?a (?w3\<lparr>w_queue := []\<rparr>) =
      Some (Inr (?mg1\<lparr>mg_changes := mg_changes ?mg1 + changes (cmd ?a)\<rparr>, ?w'))"
    using manager_round_data [of ?a ?mg1] m(4) by (simp add: data_reply_msg)
  have "manager_receive w = Some (m, w\<lparr>w_queue := []\<rparr>)" using q m(1) by (simp add: manager_receive_one priors)
  then have req: "request fs mg w = Some (Inr (?mg1\<lparr>mg_changes := mg_changes ?mg1 + changes (cmd ?a)\<rparr>, ?w'))"
    using r1 run rc r2 by (simp add: request_def)
  have "cluster (?mg1\<lparr>mg_changes := mg_changes ?mg1 + changes (cmd ?a)\<rparr>) ?w' path ss (xss[?i := snd (data_reply m (xss ! ?i))])"
    by (rule cluster_message [OF c m(4,5) refl _ s'(2)]) (simp_all add: s'(3))
  moreover have "w_entries ?w' p q = w_entries w p q" if "q \<noteq> path" for p q
    using s(1) s'(3) that by (simp add: w_entries_def)
  ultimately show ?thesis
    using req data_reply_cluster [OF c m(4) refl] by (intro exI conjI) auto
qed

end
