(* ===== verification/Storage_Properties.thy ===== *)
theory Storage_Properties
  imports Storage_Records Collection_Properties
begin

text \<open>
  The properties of the storage. The witnesses set up a storage in memory and add a pool, a schema and
  a collection to it.
\<close>

section \<open>Examples\<close>

definition ex_new :: db_storage where
  "ex_new = db_storage_new \<lparr>fs_entries = [], fs_full = False\<rparr> 9 (Some ''/'') (0, 0)"

definition ex_db0 :: db_storage where "ex_db0 = snd (setup_db ex_new 1 In_memory_cache)"
definition ex_db1 :: db_storage where "ex_db1 = snd (add_pool ex_db0 ''p'' St_b 2)"
definition ex_db2 :: db_storage where "ex_db2 = snd (add_schema ex_db1 ''p'' ''s'' St_b 2)"
definition ex_db3 :: db_storage where
  "ex_db3 = snd (add_collection ex_db2 ''p'' ''s'' ''c'' St_b Av_global_heap First_fit 2)"

lemma ex_db0_fits: "bt_fits (ds_pools ex_db0)"
  unfolding bt_fits_def by code_simp

lemma ex_db1_done: "fst (add_pool ex_db0 ''p'' St_b 2) = Inr ()"
  by code_simp

lemma ex_db1_fits: "map_option (\<lambda>p. bt_fits (p_schemas p)) (bt_view (ds_pools ex_db1) ''p'') = Some True"
  unfolding bt_fits_def by code_simp

lemma ex_db2_done: "fst (add_schema ex_db1 ''p'' ''s'' St_b 2) = Inr ()"
  by code_simp

lemma ex_db2_fits: "map_option (\<lambda>s. bt_fits (s_collections s)) (db_schema ex_db2 ''p'' ''s'') = Some True"
  unfolding bt_fits_def by code_simp

lemma ex_db3_done: "fst (add_collection ex_db2 ''p'' ''s'' ''c'' St_b Av_global_heap First_fit 2) = Inr ()"
  by code_simp

lemma ex_db3_fits: "map_option (\<lambda>c. bt_fits (c_data c)) (db_lookup ex_db3 ''p'' ''s'' ''c'') = Some True"
  unfolding bt_fits_def by code_simp

lemma ex_db3_room: "bt_has_room (ds_pools ex_db3)"
  by code_simp

lemma ex_db3_env: "0 < env_memory (ds_env ex_db3)" "env_mode (ds_env ex_db2) = In_memory_cache"
    "env_mode (ds_env ex_db3) = In_memory_cache"
  by code_simp+

text \<open>The collection is there, empty, and the storage is reachable.\<close>

lemma ex_db3_ok: "db_reachable ex_db3" "db_entries ex_db3 ''p'' ''s'' ''c'' = Some []"
proof -
  have d: "r = (Inr (), snd r)" if "fst r = Inr ()" for r :: "unit db_result"
    using that by (cases r) simp
  have "fst (setup_db ex_new 1 In_memory_cache) = Inr ()" by code_simp
  then have r0: "db_reachable ex_db0"
    using reachable_setup [of _ _ _ _ 1 In_memory_cache ex_db0] d by (metis ex_db0_def ex_new_def)
  have "db_step ex_db0 ex_db1" unfolding ex_db1_def by (intro step_add_pool ex_db0_fits)
  then have r1: "db_reachable ex_db1" using r0 by (rule reachable_step [rotated])
  have "db_step ex_db1 ex_db2" unfolding ex_db2_def by (rule step_add_schema) (use ex_db1_fits in auto)
  then have r2: "db_reachable ex_db2" using r1 by (rule reachable_step [rotated])
  have f: "add_collection ex_db2 ''p'' ''s'' ''c'' St_b Av_global_heap First_fit 2 = (Inr (), ex_db3)"
    unfolding ex_db3_def by (rule d [OF ex_db3_done])
  have fits: "bt_fits (s_collections s)" if "db_schema ex_db2 ''p'' ''s'' = Some s" for s
    using ex_db2_fits that by simp
  have "db_step ex_db2 ex_db3" by (rule step_add_collection [OF f]) (use fits ex_db3_env(2) in auto)
  then show "db_reachable ex_db3" using r2 by (rule reachable_step [rotated])
  from add_collection_kept [OF reachable_ok [OF r2] fits _ f]
  show "db_entries ex_db3 ''p'' ''s'' ''c'' = Some []" using ex_db3_env(2) by auto
qed

lemma ex_db3_coll: "db_lookup ex_db3 ''p'' ''s'' ''c'' = Some c \<Longrightarrow> bt_fits (c_data c)"
  using ex_db3_fits by simp

section \<open>Setting up\<close>




section \<open>Names\<close>


definition ex_files :: db_storage where
  "ex_files = snd (setup_db ex_new 1 File_system)"


section \<open>Records in a reachable storage\<close>



text \<open>
  C6. In a reachable storage a lookup answers from the entries of the collection with these names, with
  \<open>Invalid_path\<close> when there is no such collection, and leaves all entries of all collections alone.
\<close>

theorem db_obtain_refines:
  assumes "db_reachable db"
  shows "\<exists>db'. db_obtain db pn sn cn k =
      (case db_entries db pn sn cn of
         None \<Rightarrow> Inl Invalid_path
       | Some xs \<Rightarrow> (case map_of xs k of None \<Rightarrow> Inl Db_obtaining_of_nonexistent_key | Some v \<Rightarrow> Inr v), db') \<and>
    db_ok db' \<and> db_entries db' = db_entries db"
proof (cases "db_entries db pn sn cn")
  case None
  then show ?thesis using db_obtain_missing [OF reachable_ok [OF assms]] by simp
next
  case (Some xs)
  then show ?thesis using db_obtain_exact [OF reachable_ok [OF assms] Some, of k] by (auto elim: answersE)
qed

theorem db_obtain_refines_witness:
  "fst (db_obtain ex_db3 ''p'' ''s'' ''c'' (Some ''ann'')) = Inl Db_obtaining_of_nonexistent_key"
  using db_obtain_refines [OF ex_db3_ok(1), of "''p''" "''s''" "''c''" "Some ''ann''"] ex_db3_ok(2) by auto

text \<open>
  C5. In a reachable storage an insertion acts on the entries of the named collection alone: a new key is
  entered, a present key is refused, and no other collection, in memory or on disk, changes.
\<close>

theorem db_add_refines:
  assumes "db_reachable db" "db_lookup db pn sn cn = Some c" "db_entries db pn sn cn = Some xs"
    and "writable (ds_env db) k v" "bt_fits (c_data c)"
  shows "\<exists>r db'. db_add db pn sn cn k v = (r, db') \<and> db_ok db' \<and>
    r = (if k \<in> fst ` set xs then Inl Db_insertion_of_existent_key else Inr ()) \<and>
    (\<forall>p q n. db_entries db' p q n =
       (if (p, q, n) = (pn, sn, cn) \<and> k \<notin> fst ` set xs then Some (upd_entries k v xs) else db_entries db p q n))"
proof -
  have fits: "bt_fits (c_data c')" if "db_lookup db pn sn cn = Some c'" for c' using that assms(2,5) by simp
  obtain db' where "db_add db pn sn cn k v =
        (if k \<in> fst ` set xs then Inl Db_insertion_of_existent_key else Inr (), db')" "db_ok db'"
      "db_entries db' = (\<lambda>p q n. if (p, q, n) = (pn, sn, cn)
        then Some (if k \<in> fst ` set xs then xs else upd_entries k v xs) else db_entries db p q n)"
    using db_add_exact [OF reachable_ok [OF assms(1)] assms(3,4) fits] by blast
  then show ?thesis using assms(3) by (intro exI [of _ "fst (db_add db pn sn cn k v)"] exI [of _ db']) auto
qed

theorem db_add_refines_witness:
  "\<exists>db'. db_add ex_db3 ''p'' ''s'' ''c'' (Some ''ann'') ex_value = (Inr (), db') \<and>
    db_entries db' ''p'' ''s'' ''c'' = Some [(Some ''ann'', ex_value)]"
proof -
  obtain c where c: "db_lookup ex_db3 ''p'' ''s'' ''c'' = Some c"
    using ex_db3_ok(2) by (auto simp: db_entries_def)
  have w: "writable (ds_env ex_db3) (Some ''ann'') ex_value" using ex_db3_env(1,3) by (simp add: writable_def)
  show ?thesis
    using db_add_refines [OF ex_db3_ok(1) c ex_db3_ok(2) w ex_db3_coll [OF c]] by (auto simp: upd_entries_def)
qed

section \<open>Structures\<close>



text \<open>Two pools, of which the smaller one cannot be disposed of.\<close>

lemma dispose_pool_undefined:
  "fst (dispose_pool (snd (add_pool ex_db3 ''q'' St_b 2)) ''p'') = Inl Db_undefined_behaviour"
  by code_simp

text \<open>
  On a full disk \<open>add_pool\<close> cannot write the configuration. Its handler looks for a pool with the name
  of the whole path, so the caller gets an exception about the disposal of a structure that does
  not exist, and the pool stays.
\<close>

theorem add_pool_full_disk:
  assumes "db_reachable db" "env_mode (ds_env db) = File_system" "fs_full (env_fs (ds_env db))"
    and "\<not> fs_exists (env_fs (ds_env db)) (make_path_strings [''pools'', pn, ''cfg''])"
    and "throw_if_invalid_file_name db pn = Inr ()" "throw_if_path_is_too_long db (make_path_strings [''pools'', pn]) = Inr ()"
    and "bt_view (ds_pools db) pn = None" "bt_fits (ds_pools db)" "0 < env_memory (ds_env db)" "2 \<le> t"
  shows "fst (add_pool db pn tv t) = Inl Disposal_of_nonexistent_struct \<and>
    bt_view (ds_pools (snd (add_pool db pn tv t))) pn \<noteq> None"
proof -
  have ok: "db_ok db" by (rule reachable_ok [OF assms(1)])
  have n: "named_ok (ds_pools db)" using ok by (simp add: db_ok_def db_trees_def)
  let ?path = "make_path_strings [''pools'', pn]" and ?fs = "env_fs (ds_env db)"
  obtain p where p: "pool_new (ds_env db) tv t = Inr p"
    using assms(9,10) by (auto simp: pool_new_def named_tree_def b_tree_new_def)
  obtain tr where tr: "add_named (ds_pools db) pn (pool_move p) = (Inr (), tr)" "named_ok tr"
      "bt_view tr = (bt_view (ds_pools db))(pn \<mapsto> pool_move p)"
    using add_named_new [OF n assms(7,8)] by blast
  let ?db = "db\<lparr>ds_pools := tr\<rparr>"
  have "slashless pn" by (rule valid_name_slashless [OF assms(5,2)])
  then have "?path \<noteq> pn" by (auto simp: make_path_pools pools_path_def slashless_def)
  then have miss: "bt_view tr ?path = None" using path_no_pool [OF ok assms(2), of pn "[]"] tr(3) by (simp add: make_path_pools)
  have cfg: "make_path_strings [?path, ''cfg''] = make_path_strings [''pools'', pn, ''cfg'']"
    by (simp add: make_path_pools make_path_below)
  have "fs_mkdir ?fs ?path = ?fs" using assms(3) by (simp add: fs_mkdir_def)
  then have w: "write_cfg (fs_mkdir ?fs ?path) (make_path_strings [?path, ''cfg'']) is =
      (False, ?fs)" for "is"
    using assms(3,4) unfolding cfg by (simp add: write_cfg_def fs_open_trunc_def fs_open_append_def fs_exists_def)
  have d: "db_dispose_named (with_fs ?db g) ?path = (Inl Disposal_of_nonexistent_struct, with_fs ?db g)" for g
    using dispose_named_new [OF tr(2) miss] by (simp add: db_dispose_named_def with_fs_def)
  have "create_cfg ?db ?path is = (Inl Disposal_of_nonexistent_struct,
      with_fs ?db (fs_rmdir (fs_remove ?fs (make_path_strings [?path, ''cfg''])) ?path))" for "is"
    using assms(2,4) w d by (simp add: create_cfg_def Let_def cfg)
  then have "add_pool db pn tv t = (Inl Disposal_of_nonexistent_struct,
      with_fs ?db (fs_rmdir (fs_remove ?fs (make_path_strings [?path, ''cfg''])) ?path))"
    using assms(2,5,6) p tr(1)
    by (simp add: add_pool_def Let_def guarded_def throw_if_uninutialized_at_perform_def db_add_pool_named_def)
  then show ?thesis using tr(3) by (simp add: with_fs_def)
qed

definition ex_full :: db_storage where
  "ex_full = snd (setup_db (db_storage_new \<lparr>fs_entries = [], fs_full = True\<rparr> 9 (Some ''/'') (0, 0)) 1 File_system)"

theorem add_pool_full_disk_witness:
  "fst (add_pool ex_full ''p'' St_b 2) = Inl Disposal_of_nonexistent_struct"
proof -
  have "fst (setup_db (db_storage_new \<lparr>fs_entries = [], fs_full = True\<rparr> 9 (Some ''/'') (0, 0)) 1 File_system) = Inr ()"
    by code_simp
  then have "db_reachable ex_full" using reachable_setup by (metis ex_full_def prod.collapse)
  moreover have "env_mode (ds_env ex_full) = File_system" "fs_full (env_fs (ds_env ex_full))"
      "\<not> fs_exists (env_fs (ds_env ex_full)) (make_path_strings [''pools'', ''p'', ''cfg''])"
      "throw_if_invalid_file_name ex_full ''p'' = Inr ()"
      "throw_if_path_is_too_long ex_full (make_path_strings [''pools'', ''p'']) = Inr ()"
      "0 < env_memory (ds_env ex_full)"
    by code_simp+
  moreover have "bt_view (ds_pools ex_full) ''p'' = None" "bt_fits (ds_pools ex_full)"
    by (simp_all add: ex_full_def setup_db_def guarded_def throw_if_initialized_at_setup_def throw_if_invalid_setup_def
        db_storage_new_def Let_def bt_view_def bt_entries_def bt_fits_def bt_levels_def)
  ultimately show ?thesis using add_pool_full_disk [of ex_full "''p''" 2] by blast
qed

section \<open>Configurations and loading\<close>

lemma read_ints_cfg_text:
  assumes "\<forall>i \<in> set is. 0 \<le> i \<and> i < 2 ^ 31"
  shows "read_ints (length is) (cfg_text is) = Some is \<and> read_ints (length is) (CHR 0x0A # cfg_text is) = Some is"
  using assms
proof (induction "is")
  case (Cons i "is")
  have "\<not> is_digit (CHR 0x0A)" by (simp add: is_digit_def less_eq_char_def)
  moreover have "nat i < 2 ^ 31" using Cons.prems by auto
  ultimately have r: "read_int (show_nat (nat i) @ CHR 0x0A # cfg_text is) = Some (i, CHR 0x0A # cfg_text is)"
    using read_show_nat [of "nat i" "CHR 0x0A # cfg_text is"] Cons.prems by simp
  have t: "cfg_text (i # is) = show_nat (nat i) @ CHR 0x0A # cfg_text is"
    using Cons.prems by (simp add: cfg_text_def show_int_def)
  have b: "is_blank (CHR 0x0A)" by (simp add: is_blank_def)
  show ?case using Cons r by (simp add: t read_int_blank [OF b])
qed (simp add: cfg_text_def)

lemma variant_codes:
  "tv \<in> {St_b, St_b_plus, St_b_star, St_b_star_plus} \<Longrightarrow>
    int_of_tree_variant tv \<in> {0..<2 ^ 31} \<and> tree_variant_of_int (int_of_tree_variant tv) = tv"
  "av \<in> {Av_global_heap, Av_sorted_list, Av_buddy_system, Av_boundary_tags, Av_red_black_tree} \<Longrightarrow>
    int_of_allocator_variant av \<in> {0..<2 ^ 31} \<and> allocator_variant_of_int (int_of_allocator_variant av) = av"
  "fm \<in> {First_fit, The_best_fit, The_worst_fit} \<Longrightarrow>
    int_of_fit_mode fm \<in> {0..<2 ^ 31} \<and> fit_mode_of_int (int_of_fit_mode fm) = fm"
  by (auto simp: int_of_tree_variant_def int_of_allocator_variant_def int_of_fit_mode_def tree_variant_of_int_def
      allocator_variant_of_int_def fit_mode_of_int_def)

text \<open>
  The configuration of a collection that was written is read back: \<open>load_db\<close> calls \<open>add_collection\<close> with
  the variants and the degree that the first \<open>add_collection\<close> had.
\<close>

theorem collection_cfg_roundtrip:
  assumes "write_cfg fs path [int_of_tree_variant tv, int_of_allocator_variant av, int_of_fit_mode fm, int t] = (True, fs')"
    and "tv \<in> {St_b, St_b_plus, St_b_star, St_b_star_plus}" "fm \<in> {First_fit, The_best_fit, The_worst_fit}"
    and "av \<in> {Av_global_heap, Av_sorted_list, Av_buddy_system, Av_boundary_tags, Av_red_black_tree}" "t < 2 ^ 31"
  shows "\<exists>i j k l. read_cfg fs' path 4 = Some [i, j, k, l] \<and> tree_variant_of_int i = tv \<and>
    allocator_variant_of_int j = av \<and> fit_mode_of_int k = fm \<and> size_of_int l = t"
proof -
  let ?is = "[int_of_tree_variant tv, int_of_allocator_variant av, int_of_fit_mode fm, int t]"
  obtain fs1 where "fs_open_trunc fs path = Some fs1" "fs_append fs1 path (cfg_text ?is) = Some fs'"
    using assms(1) by (auto simp: write_cfg_def split: option.splits)
  then have "fs_open_read fs' path = Some (cfg_text ?is)"
    by (auto simp: fs_open_trunc_def fs_append_def split: option.splits if_splits)
  moreover note v = variant_codes(1) [OF assms(2)] variant_codes(2) [OF assms(4)] variant_codes(3) [OF assms(3)]
  have b: "\<forall>i \<in> set ?is. 0 \<le> i \<and> i < 2 ^ 31" using v assms(5) by (simp del: insert_iff)
  moreover have "length ?is = 4" by simp
  ultimately have "read_cfg fs' path 4 = Some ?is"
    using read_ints_cfg_text [OF b] by (simp only: read_cfg_def bind.bind_lunit)
  moreover have "size_of_int (int t) = t" using assms(5) by (simp add: size_of_int_def nat_mod_as_int)
  ultimately show ?thesis using v by blast
qed

theorem collection_cfg_roundtrip_witness:
  "\<exists>i j k l. read_cfg (snd (write_cfg ex_fs ''c/cfg'' [2, 3, 1, 16])) ''c/cfg'' 4 = Some [i, j, k, l] \<and> size_of_int l = 16"
proof -
  have "fst (write_cfg ex_fs ''c/cfg'' [2, 3, 1, 16]) = True" by code_simp
  then have "write_cfg ex_fs ''c/cfg'' [2, 3, 1, 16] = (True, snd (write_cfg ex_fs ''c/cfg'' [2, 3, 1, 16]))"
    by (metis prod.collapse)
  moreover have "[int_of_tree_variant St_b_star, int_of_allocator_variant Av_boundary_tags, int_of_fit_mode The_best_fit,
      int 16] = [2, 3, 1, 16]"
    by (simp add: int_of_tree_variant_def int_of_allocator_variant_def int_of_fit_mode_def)
  ultimately have "write_cfg ex_fs ''c/cfg'' [int_of_tree_variant St_b_star, int_of_allocator_variant Av_boundary_tags,
      int_of_fit_mode The_best_fit, int 16] = (True, snd (write_cfg ex_fs ''c/cfg'' [2, 3, 1, 16]))"
    by (simp only:)
  from collection_cfg_roundtrip [OF this] obtain i j k l where
      "read_cfg (snd (write_cfg ex_fs ''c/cfg'' [2, 3, 1, 16])) ''c/cfg'' 4 = Some [i, j, k, l]" "size_of_int l = 16"
    by auto
  then show ?thesis by blast
qed

text \<open>
  A storage cannot be loaded again: \<open>load_collection\<close> of a data file that starts with the record of a
  key that is not empty writes through a null pointer, whatever follows.
\<close>

theorem load_collection_overrun:
  assumes "fs_open_read (env_fs (ds_env db))
      (make_path_strings [prefix, pn, sn, cn, show_nat (unat (get_id db))]) = Some (record_bytes k pid n @ rest)"
    and "k \<noteq> []" "length k < 2 ^ 64"
  shows "load_collection db prefix pn sn cn = (Inl Db_undefined_behaviour, db)"
proof -
  let ?b = "record_bytes k pid n @ rest"
  have l: "24 < length ?b" using assms(2) by (simp add: length_record)
  have r1: "read_at ?b 0 8 = Some (bytes_of_word (word_of_nat (length k)))"
    using read_at_append [of 0 "[]" "bytes_of_word (word_of_nat (length k))" 8] by (simp add: record_bytes_def)
  have "\<exists>x y. read_at ?b 8 8 = Some x \<and> read_at ?b 16 8 = Some y" using l by (simp add: read_at_def)
  then obtain x y where r2: "read_at ?b (0 + 8) 8 = Some x" "read_at ?b (0 + 16) 8 = Some y" by auto
  have "word_of_nat (length k) \<noteq> (0 :: 64 word)"
    using unat_length [OF assms(3)] assms(2) by (metis length_0_conv unat_0)
  then have "load_records (Suc (length ?b)) ?b 0 f s = (Inl Db_undefined_behaviour, s)" for f and s :: 's
    using l by (simp only: load_records.simps r1 r2) simp
  then show ?thesis by (simp only: load_collection_def Let_def assms(1) option.case)
qed

theorem load_collection_overrun_witness:
  "load_collection (with_fs ex_files (fs_put (env_fs (ds_env ex_files)) ''d/p/s/c/1''
      (File (record_bytes ''ann'' 7 ''Ann'')))) ''d'' ''p'' ''s'' ''c'' =
    (Inl Db_undefined_behaviour, with_fs ex_files (fs_put (env_fs (ds_env ex_files)) ''d/p/s/c/1''
      (File (record_bytes ''ann'' 7 ''Ann''))))"
proof (rule load_collection_overrun [where k = "''ann''" and pid = 7 and n = "''Ann''" and rest = "[]"])
  have "make_path_strings [''d'', ''p'', ''s'', ''c'', show_nat (unat (get_id ex_files))] = ''d/p/s/c/1''" by code_simp
  moreover have "get_id (with_fs ex_files fs) = get_id ex_files" for fs by (simp add: get_id_def with_fs_def)
  ultimately show "fs_open_read (env_fs (ds_env (with_fs ex_files (fs_put (env_fs (ds_env ex_files)) ''d/p/s/c/1''
      (File (record_bytes ''ann'' 7 ''Ann''))))))
    (make_path_strings [''d'', ''p'', ''s'', ''c'', show_nat (unat (get_id (with_fs ex_files
      (fs_put (env_fs (ds_env ex_files)) ''d/p/s/c/1'' (File (record_bytes ''ann'' 7 ''Ann''))))))]) =
    Some (record_bytes ''ann'' 7 ''Ann'' @ [])"
    by (simp only: append_Nil2) (simp add: with_fs_def)
qed simp_all

end
