(* ===== verification/Cluster_Properties.thy ===== *)
theory Cluster_Properties
  imports Cluster_Requests Storage_Properties
begin

text \<open>
  The properties of the manager and the storage servers. The witnesses run two servers in memory: the first has the
  record of one key, the second those of two keys.
\<close>

section \<open>Examples\<close>

definition ex_path :: db_path where "ex_path = (''p'', ''s'', ''c'')"

definition ex_add :: "db_storage \<Rightarrow> string \<Rightarrow> db_storage" where
  "ex_add db k = snd (db_add db ''p'' ''s'' ''c'' (Some k) \<lparr>personal_id = 7, tname = Some ''name''\<rparr>)"

definition ex_rec :: "string \<Rightarrow> tkey \<times> tvalue" where
  "ex_rec k = (Some k, \<lparr>personal_id = 7, tname = Some ''name''\<rparr>)"

definition ex_a :: db_storage where "ex_a = ex_add ex_db3 ''a''"
definition ex_x :: db_storage where "ex_x = ex_add ex_db3 ''x''"
definition ex_xy :: db_storage where "ex_xy = ex_add ex_x ''y''"

definition ex_srv :: "db_storage \<Rightarrow> storage_server" where
  "ex_srv db = \<lparr>srv_db = db, srv_is_setup = False, srv_run = True\<rparr>"

definition ex_mg :: manager where
  "ex_mg = \<lparr>mg_servers = [100, 200], mg_separators = [(ex_path, [''m''])], mg_changes = 0, mg_run = True\<rparr>"

definition ex_msg :: "command \<Rightarrow> string \<Rightarrow> strg_msg" where
  "ex_msg c k = \<lparr>mtype = 10, pid = 300, req_id = 1, cmd = c, status = CLIENT, extra_value = 0, pool_name = ''p'',
     schema_name = ''s'', collection_name = ''c'', tree_variant = St_b, alloc_variant = Av_global_heap,
     alloc_fit_mode = First_fit, t_for_b_trees = 2, login = k, right_boundary_login = [], hashed_password = 7,
     value_name = ''name''\<rparr>"

definition ex_world :: "msg_queue \<Rightarrow> world" where
  "ex_world q = \<lparr>w_queue = q, w_servers = [100 \<mapsto> ex_srv ex_a, 200 \<mapsto> ex_srv ex_xy],
     w_schedule = replicate 4 [Serve 100, Serve 200], w_spawned = [], w_fresh = ex_srv ex_new,
     w_files = \<lparr>fs_entries = [], fs_full = False\<rparr>, w_self = 60, w_junk = ex_msg PING []\<rparr>"

lemma ex_add_ok:
  assumes "db_ok db" "db_entries db ''p'' ''s'' ''c'' = Some xs" "env_mode (ds_env db) = In_memory_cache"
    and "0 < env_memory (ds_env db)" "map_option (\<lambda>c. bt_fits (c_data c)) (db_lookup db ''p'' ''s'' ''c'') = Some True"
    and "Some k \<notin> fst ` set xs"
  shows "db_ok (ex_add db k)" "db_entries (ex_add db k) ''p'' ''s'' ''c'' = Some (upd_entries (Some k) (snd (ex_rec k)) xs)"
proof -
  have w: "writable (ds_env db) (Some k) (snd (ex_rec k))" using assms(3,4) by (simp add: writable_def)
  have f: "bt_fits (c_data c)" if "db_lookup db ''p'' ''s'' ''c'' = Some c" for c using assms(5) that by simp
  show "db_ok (ex_add db k)" "db_entries (ex_add db k) ''p'' ''s'' ''c'' = Some (upd_entries (Some k) (snd (ex_rec k)) xs)"
    using db_add_exact [OF assms(1,2) w f] assms(6) by (auto simp: ex_add_def ex_rec_def)
qed

lemma ex_db3_start: "db_ok ex_db3" "db_entries ex_db3 ''p'' ''s'' ''c'' = Some []"
  using reachable_ok [OF ex_db3_ok(1)] ex_db3_ok(2) by simp_all

lemma ex_x_env: "env_mode (ds_env ex_x) = In_memory_cache" "0 < env_memory (ds_env ex_x)"
    "map_option (\<lambda>c. bt_fits (c_data c)) (db_lookup ex_x ''p'' ''s'' ''c'') = Some True"
  unfolding bt_fits_def by code_simp+

lemma ex_a_ok: "db_ok ex_a" "db_entries ex_a ''p'' ''s'' ''c'' = Some [ex_rec ''a'']"
  and ex_x_ok: "db_ok ex_x" "db_entries ex_x ''p'' ''s'' ''c'' = Some [ex_rec ''x'']"
  using ex_add_ok [OF ex_db3_start ex_db3_env(3,1) ex_db3_fits]
  by (simp_all add: ex_a_def ex_x_def upd_entries_def ex_rec_def)

lemma ex_xy_ok: "db_ok ex_xy" "db_entries ex_xy ''p'' ''s'' ''c'' = Some [ex_rec ''x'', ex_rec ''y'']"
proof -
  have n: "Some ''y'' \<notin> fst ` set [ex_rec ''x'']" "''x'' < ''y''" by (simp add: ex_rec_def) code_simp
  have "upd_entries (Some ''y'') (snd (ex_rec ''y'')) [ex_rec ''x''] = [ex_rec ''x'', ex_rec ''y'']"
    using n(2) by (subst upd_entries_back) (simp_all add: ex_rec_def)
  then show "db_ok ex_xy" "db_entries ex_xy ''p'' ''s'' ''c'' = Some [ex_rec ''x'', ex_rec ''y'']"
    using ex_add_ok [OF ex_x_ok ex_x_env n(1)] by (simp_all add: ex_xy_def)
qed

lemma ex_fits: "all_fit [ex_rec ''a'']" "all_fit [ex_rec ''x'', ex_rec ''y'']"
  by (simp_all add: all_fit_def record_fits_def ex_rec_def text_fits_def MSG_KEY_SIZE_def MSG_NAME_SIZE_def)

lemma ex_cluster: "cluster ex_mg (ex_world q) ex_path [''m''] [[ex_rec ''a''], [ex_rec ''x'', ex_rec ''y'']]"
proof -
  have "''a'' < ''m''" "''m'' \<le> ''x''" "''m'' \<le> ''y''" by code_simp+
  moreover have "shard_is (ex_world q) 100 ex_path [ex_rec ''a'']" "shard_is (ex_world q) 200 ex_path [ex_rec ''x'', ex_rec ''y'']"
    using ex_a_ok ex_xy_ok ex_fits by (simp_all add: shard_is_def ex_world_def ex_srv_def srv_ok_def srv_entries_def ex_path_def)
  ultimately show ?thesis
    by (auto simp: cluster_def ex_mg_def pids_ok_def priors less_Suc_eq in_range_def ex_rec_def)
qed

lemma ex_world_simps [simp]:
  "w_queue (ex_world q) = q" "mg_servers ex_mg = [100, 200]" "mg_changes ex_mg = 0"
  "w_servers (ex_world q) 100 = Some (ex_srv ex_a)" "w_servers (ex_world q) 200 = Some (ex_srv ex_xy)"
  by (simp_all add: ex_world_def ex_mg_def)

lemma ex_prompt: "n \<le> 4 \<Longrightarrow> prompt [100, 200] n (ex_world q)"
  unfolding prompt_def ex_world_def by (intro exI [of _ "replicate (4 - n) [Serve 100, Serve 200]"]) (simp flip: replicate_add)

lemma ex_resources: "takes (ex_world q) 200 ex_path (ex_rec k)" "takes (ex_world q) 100 ex_path (ex_rec k)"
    "gives (ex_world q) 100 ex_path" "gives (ex_world q) 200 ex_path"
proof -
  have e: "env_mode (ds_env ex_a) = In_memory_cache" "0 < env_memory (ds_env ex_a)"
    "env_mode (ds_env ex_xy) = In_memory_cache" "0 < env_memory (ds_env ex_xy)"
    "map_option (\<lambda>c. bt_fits (c_data c) \<and> bt_has_room (c_data c)) (db_lookup ex_a ''p'' ''s'' ''c'') = Some True"
    "map_option (\<lambda>c. bt_fits (c_data c) \<and> bt_has_room (c_data c)) (db_lookup ex_xy ''p'' ''s'' ''c'') = Some True"
    unfolding bt_fits_def by code_simp+
  then show "takes (ex_world q) 200 ex_path (ex_rec k)" "takes (ex_world q) 100 ex_path (ex_rec k)"
    "gives (ex_world q) 100 ex_path" "gives (ex_world q) 200 ex_path"
    by (auto simp: takes_def gives_def ex_path_def ex_srv_def writable_def)
qed

section \<open>Storage servers\<close>

text \<open>
  C9. A storage server refines \<open>data_reply\<close>: a message \<open>ADD\<close>, \<open>UPDATE\<close>, \<open>DISPOSE\<close>, \<open>OBTAIN\<close>, \<open>OBTAIN_MIN\<close>, \<open>OBTAIN_MAX\<close> or
  \<open>OBTAIN_NEXT\<close> for a collection that exists is answered with exactly one message, which has the status and the
  record that the sorted list of entries gives, and the list of this collection alone becomes the new one. The
  records must fit into a message, and the server must be able to carry out a change (\<open>srv_able\<close>): for \<open>ADD\<close> and \<open>UPDATE\<close>
  memory and disk suffice, for \<open>DISPOSE\<close> no inner node of the collection's tree is full (below a full one the
  behaviour is undefined). \<open>OBTAIN_BETWEEN\<close>, with its many answers, is not among the commands.
\<close>

theorem server_refines_reply:
  assumes "srv_ok s" "srv_entries s (msg_path m) = Some xs" "data_command (cmd m)" "all_fit xs" "srv_able s m"
  shows "\<exists>s'. handle_msg s m = (Inr [fst (data_reply m xs)], s') \<and> srv_ok s' \<and>
    srv_entries s' = (srv_entries s)(msg_path m \<mapsto> snd (data_reply m xs))"
  using assms by (rule srv_contract.reply)

theorem server_refines_reply_witness:
  "fst (handle_msg (ex_srv ex_xy) (ex_msg OBTAIN_NEXT ''x'')) =
    Inr [(ex_msg OBTAIN_NEXT ''y'')\<lparr>mtype := 8, status := OK\<rparr>]"
proof -
  have "srv_entries (ex_srv ex_xy) (msg_path (ex_msg OBTAIN_NEXT ''x'')) = Some [ex_rec ''x'', ex_rec ''y'']" "srv_ok (ex_srv ex_xy)"
    using ex_xy_ok by (simp_all add: ex_srv_def srv_ok_def srv_entries_def ex_msg_def msg_path_def)
  moreover have "data_command (cmd (ex_msg OBTAIN_NEXT ''x''))" "srv_able (ex_srv ex_xy) (ex_msg OBTAIN_NEXT ''x'')"
    by (simp_all add: data_command_def ex_msg_def srv_able_def split: option.split)
  moreover have "fst (data_reply (ex_msg OBTAIN_NEXT ''x'') [ex_rec ''x'', ex_rec ''y'']) =
      (ex_msg OBTAIN_NEXT ''y'')\<lparr>mtype := 8, status := OK\<rparr>"
    by (simp add: data_reply_def ex_msg_def ex_rec_def msg_key_def next_entry_def with_record_def with_value_def priors)
  ultimately show ?thesis using server_refines_reply [of "ex_srv ex_xy" "ex_msg OBTAIN_NEXT ''x''"] ex_fits(2) by auto
qed

section \<open>Routing\<close>

text \<open>
  C29. With sorted separators a key goes to the server with the number \<open>i\<close> exactly when it is not below the
  separator in front of \<open>i\<close> and below the one behind it; so every key has one server.
\<close>

theorem routing_intervals:
  assumes "map_of separators path = Some ss" "sorted ss"
  shows "get_id_for_key separators path key = Some i \<longleftrightarrow>
    i \<le> length ss \<and> (0 < i \<longrightarrow> ss ! (i - 1) \<le> key) \<and> (i < length ss \<longrightarrow> key < ss ! i)"
proof -
  have "separators \<noteq> []" using assms(1) by auto
  then show ?thesis
    using assms count_below_iff [OF assms(2), of key i] by (simp add: get_id_for_key_def in_range_def)
qed

theorem routing_intervals_witness: "get_id_for_key (mg_separators ex_mg) ex_path ''x'' = Some 1"
proof -
  have "''m'' \<le> ''x''" by code_simp
  then show ?thesis
    using routing_intervals [of "mg_separators ex_mg" ex_path "[''m'']" "''x''" 1] by (simp add: ex_mg_def)
qed

section \<open>Requests\<close>

text \<open>
  C7. Between two redistributions the manager and its servers refine one server that holds all records: a client's
  \<open>ADD\<close>, \<open>UPDATE\<close>, \<open>DISPOSE\<close> or \<open>OBTAIN\<close>, the only message in the queue, leads to one message for this client, the
  answer that \<open>data_reply\<close> gives for the records of all servers together; these records become the new ones, every
  record stays on the server that the separators assign to its key, and no other collection changes. Conditions:
  the counter of changes, which a change raises twice, stays below 30 for each server and 30 more, where the
  manager would move records between the servers, and may lose some; the texts of the message fit
  into it; and the server of the key is able to carry out the change (\<open>srv_able\<close>: memory and disk for \<open>ADD\<close> and
  \<open>UPDATE\<close>, no full inner node for \<open>DISPOSE\<close>).
\<close>

theorem request_refines:
  assumes "cluster mg w path ss xss" "w_queue w = [m]" "mtype m = MANAGER_SERVER_CLIENT_PRIOR" "status m = CLIENT"
    and "msg_path m = path" "keyed_command (cmd m)" "msg_fits m" "mg_changes mg + 2 < 30 * (1 + length (mg_servers mg))"
    and "\<And>s. w_servers w (mg_servers mg ! count_below ss (login m)) = Some s \<Longrightarrow>
      srv_able s (m\<lparr>mtype := mg_servers mg ! count_below ss (login m)\<rparr>)"
  shows "\<exists>mg' w' xss'. request fs mg w = Some (Inr (mg', w')) \<and>
    w_queue w' = [(fst (data_reply m (concat xss)))\<lparr>mtype := pid m\<rparr>] \<and>
    cluster mg' w' path ss xss' \<and> concat xss' = snd (data_reply m (concat xss)) \<and>
    (\<forall>p q. q \<noteq> path \<longrightarrow> w_entries w' p q = w_entries w p q)"
  using assms by (rule request_answered)

theorem request_refines_witness:
  "\<exists>mg' w'. request False ex_mg (ex_world [ex_msg OBTAIN ''y'']) = Some (Inr (mg', w')) \<and>
    w_queue w' = [(ex_msg OBTAIN ''y'')\<lparr>mtype := 300, status := OK\<rparr>]"
proof -
  let ?m = "ex_msg OBTAIN ''y''"
  have m: "mtype ?m = MANAGER_SERVER_CLIENT_PRIOR" "status ?m = CLIENT" "msg_path ?m = ex_path" "keyed_command (cmd ?m)" "msg_fits ?m"
    by (simp_all add: ex_msg_def priors msg_path_def ex_path_def keyed_command_def msg_fits_def text_fits_def MSG_KEY_SIZE_def MSG_NAME_SIZE_def)
  have few: "mg_changes ex_mg + 2 < 30 * (1 + length (mg_servers ex_mg))" by simp
  have able: "srv_able s (?m\<lparr>mtype := t\<rparr>)" for s t by (simp add: srv_able_def ex_msg_def split: option.split)
  have "fst (data_reply ?m (concat [[ex_rec ''a''], [ex_rec ''x'', ex_rec ''y'']])) = ?m\<lparr>mtype := 8, status := OK\<rparr>"
    by (simp add: data_reply_def ex_msg_def ex_rec_def msg_key_def with_value_def priors)
  then show ?thesis
    using request_refines [OF ex_cluster _ m few able, of "[?m]" False] by (fastforce simp: ex_msg_def)
qed

section \<open>Moving records\<close>

text \<open>
  C24. \<open>transfer_right\<close> moves the greatest record of a server to its right neighbour and makes its key the
  separator between them: the servers together hold the same records in the same order as before, and
  each record is still on the server that the separators assign to its key.
\<close>

theorem transfer_right_keeps_records:
  assumes "cluster mg w path ss xss" "quiet (mg_servers mg) (w_queue w)" "prompt (mg_servers mg) 3 w"
    and "Suc i < length xss" "xss ! i = xs @ [kv]"
    and "takes w (mg_servers mg ! Suc i) path kv" "gives w (mg_servers mg ! i) path"
  shows "\<exists>mg' w' xss'. transfer_right mg path i w = (Inr True, mg', w') \<and>
    cluster mg' w' path (ss[i := the (fst kv)]) xss' \<and> concat xss' = concat xss \<and>
    xss' ! i = xs \<and> xss' ! Suc i = kv # xss ! Suc i \<and> (\<forall>p q. q \<noteq> path \<longrightarrow> w_entries w' p q = w_entries w p q)"
proof -
  have "prompt (mg_servers mg) (Suc (Suc (Suc 0))) w" using assms(3) by (simp add: numeral_eq_Suc)
  from transfer_right_moves [OF assms(1,2) this assms(4-7)] obtain mg' w' where
    "transfer_right mg path i w = (Inr True, mg', w')"
    "cluster mg' w' path (ss[i := the (fst kv)]) (xss[i := xs, Suc i := kv # xss ! Suc i])"
    "concat (xss[i := xs, Suc i := kv # xss ! Suc i]) = concat xss"
    "\<forall>p q. q \<noteq> path \<longrightarrow> w_entries w' p q = w_entries w p q" by blast
  then show ?thesis using assms(4)
    by (intro exI [of _ mg'] exI [of _ w'] exI [of _ "xss[i := xs, Suc i := kv # xss ! Suc i]"]) simp
qed

theorem transfer_right_keeps_records_witness:
  "\<exists>mg' w'. transfer_right ex_mg ex_path 0 (ex_world []) = (Inr True, mg', w') \<and>
    cluster_lookup mg' w' ex_path ''a'' = Some (snd (ex_rec ''a''))"
proof -
  let ?xss = "[[ex_rec ''a''], [ex_rec ''x'', ex_rec ''y'']]"
  have q: "quiet (mg_servers ex_mg) (w_queue (ex_world []))" by (simp add: quiet_def)
  have p: "prompt (mg_servers ex_mg) 3 (ex_world [])" using ex_prompt [of 3] by simp
  have x: "?xss ! 0 = [] @ [ex_rec ''a'']" "Suc 0 < length ?xss" by simp_all
  have r: "takes (ex_world []) (mg_servers ex_mg ! Suc 0) ex_path (ex_rec ''a'')" "gives (ex_world []) (mg_servers ex_mg ! 0) ex_path"
    using ex_resources by simp_all
  obtain mg' w' xss' where t: "transfer_right ex_mg ex_path 0 (ex_world []) = (Inr True, mg', w')"
      "cluster mg' w' ex_path ([''m''][0 := the (fst (ex_rec ''a''))]) xss'" "concat xss' = concat ?xss"
    using transfer_right_keeps_records [OF ex_cluster q p x(2,1) r] by blast
  have "cluster_lookup mg' w' ex_path ''a'' = Some (snd (ex_rec ''a''))"
    unfolding cluster_lookup_union [OF t(2)] t(3) by (simp add: ex_rec_def)
  then show ?thesis using t(1) by blast
qed

text \<open>
  C34. \<open>transfer_left\<close> should move the least record of a server to its left neighbour. It moves the record
  that \<open>OBTAIN_NEXT\<close> finds, the second one or the only one, and makes the key of this record the separator.
  Afterwards neither the least nor the moved record is found by its key, although both were before.
\<close>

theorem transfer_left_loses:
  assumes "cluster mg w path ss xss" "quiet (mg_servers mg) (w_queue w)" "prompt (mg_servers mg) 4 w"
    and "Suc i < length xss" "xss ! Suc i = x # zs" "kv = (case zs of [] \<Rightarrow> x | y # _ \<Rightarrow> y)"
    and "takes w (mg_servers mg ! i) path kv" "gives w (mg_servers mg ! Suc i) path"
  shows "cluster_lookup mg w path (the (fst x)) = Some (snd x) \<and> cluster_lookup mg w path (the (fst kv)) = Some (snd kv) \<and>
    (\<exists>mg' w'. transfer_left mg path (Suc i) w = (Inr True, mg', w') \<and>
      cluster_lookup mg' w' path (the (fst x)) = None \<and> cluster_lookup mg' w' path (the (fst kv)) = None)"
proof -
  note D = clusterD [OF assms(1)]
  have sh: "\<exists>s. srv_ok s \<and> srv_entries s path = Some (xss ! Suc i)" "all_fit (xss ! Suc i)"
    using D(6) [OF assms(4)] by (auto simp: shard_is_def)
  then have so: "sorted_keys (xss ! Suc i)" using srv_entries_sorted by metis
  have before: "cluster_lookup mg w path (the (fst y)) = Some (snd y)" if y: "y \<in> set (xss ! Suc i)" for y
  proof -
    obtain us vs where uv: "xss ! Suc i = us @ y # vs" using y by (auto simp: in_set_conv_decomp)
    obtain s where "w_servers w (mg_servers mg ! Suc i) = Some s" "srv_entries s path = Some (xss ! Suc i)"
      using D(6) [OF assms(4)] by (auto simp: shard_is_def)
    then have "w_entries w (mg_servers mg ! Suc i) path = Some (xss ! Suc i)" by (simp add: w_entries_def)
    from cluster_lookup_at [OF D(2,3) D(7) [OF assms(4) y] D(4) this]
    show ?thesis using sorted_entry(1) [of us y vs] so all_fit_Some [OF sh(2) y] unfolding uv by metis
  qed
  have "x \<in> set (xss ! Suc i)" "kv \<in> set (xss ! Suc i)" using assms(5,6) by (auto split: list.split)
  then show ?thesis using before transfer_left_loses_records [OF assms] by blast
qed

theorem transfer_left_loses_witness:
  "cluster_lookup ex_mg (ex_world []) ex_path ''x'' = Some (snd (ex_rec ''x'')) \<and>
    (\<exists>mg' w'. transfer_left ex_mg ex_path 1 (ex_world []) = (Inr True, mg', w') \<and>
      cluster_lookup mg' w' ex_path ''x'' = None \<and> cluster_lookup mg' w' ex_path ''y'' = None)"
proof -
  let ?xss = "[[ex_rec ''a''], [ex_rec ''x'', ex_rec ''y'']]"
  have q: "quiet (mg_servers ex_mg) (w_queue (ex_world []))" by (simp add: quiet_def)
  have p: "prompt (mg_servers ex_mg) 4 (ex_world [])" using ex_prompt [of 4] by simp
  have x: "?xss ! Suc 0 = ex_rec ''x'' # [ex_rec ''y'']" "Suc 0 < length ?xss"
      "ex_rec ''y'' = (case [ex_rec ''y''] of [] \<Rightarrow> ex_rec ''x'' | y # _ \<Rightarrow> y)" by simp_all
  have r: "takes (ex_world []) (mg_servers ex_mg ! 0) ex_path (ex_rec ''y'')" "gives (ex_world []) (mg_servers ex_mg ! Suc 0) ex_path"
    using ex_resources by simp_all
  show ?thesis using transfer_left_loses [OF ex_cluster q p x(2,1,3) r] by (simp add: ex_rec_def)
qed

section \<open>Adding structures\<close>

lemma undo_loop_some: "undo_loop servers j msg w = Some r \<Longrightarrow> j = 0"
proof (rule undo_loop.raw_induct [of "\<lambda>servers j msg w r. j = 0"])
  fix undo servers j msg w r
  assume ih: "\<And>servers j msg w r. undo servers j msg w = Some r \<Longrightarrow> j = 0"
    and u: "(if 0 < j then (case ask 20 MANAGER_SERVER_STRUCT_DISPOSAL_PRIOR (msg\<lparr>status := OK, mtype := servers ! (j - 1)\<rparr>) w of
       (rcv, m, w1) \<Rightarrow> undo servers j m w1) else Some (msg, w)) = Some r"
  show "j = 0"
  proof (rule ccontr)
    assume "j \<noteq> 0"
    then obtain m w1 where "undo servers j m w1 = Some r" using u by (auto split: prod.splits)
    then show False using ih \<open>j \<noteq> 0\<close> by blast
  qed
qed

lemma undo_loop_never: "0 < j \<Longrightarrow> undo_loop servers j msg w = None"
  using undo_loop_some [of servers j msg w] by (cases "undo_loop servers j msg w") auto

text \<open>
  The manager adds a structure on one server after the other. When the first one fails, the client gets
  its status; when a later one fails, the loop that should take the structure away from the earlier ones
  never ends, because it counts the wrong variable; when all succeed, a collection gets the separators
  \<open>last_separator\<close>.
\<close>

theorem add_struct_outcomes:
  "handle_add_struct_command mg msg w =
     (if mg_servers mg = [] then Some (mg, send w (msg\<lparr>mtype := pid msg, status := FAILED_TO_ADD_STRUCT\<rparr>))
      else case ask_each (mg_servers mg) 0 msg w of
        (Inl (0, m), w1) \<Rightarrow>
          Some (mg, send w1 (m\<lparr>mtype := pid m, status := (if status m \<noteq> OK then status m else FAILED_TO_ADD_STRUCT)\<rparr>))
      | (Inl (Suc i, m), w1) \<Rightarrow> None
      | (Inr m, w1) \<Rightarrow>
          Some (if cmd m = ADD_COLLECTION
                then mg\<lparr>mg_separators := map_assign (msg_path m)
                       (replicate (length (mg_servers mg) - 1) last_separator) (mg_separators mg)\<rparr>
                else mg, send w1 (m\<lparr>mtype := pid m, status := OK\<rparr>)))"
proof -
  have zero: "undo_loop servers 0 m w' = Some (m, w')" for servers m w' by (simp add: undo_loop.simps)
  show ?thesis
    by (simp add: handle_add_struct_command_def Let_def undo_loop_never zero split: prod.split sum.split nat.split)
qed

section \<open>Ranges\<close>

lemma range_msgs_exact:
  "all_fit ys \<Longrightarrow> status msg = OK \<Longrightarrow> \<exists>ms. range_msgs msg ys = Some ms \<and>
    map (\<lambda>a. (msg_key a, msg_value a)) ms = ys \<and>
    (ys \<noteq> [] \<longrightarrow> map status ms = replicate (length ys - 1) OK @ [OBTAIN_BETWEEN_END])"
proof (induction ys arbitrary: msg)
  case (Cons kv ys)
  have fit: "record_fits kv" "all_fit ys" using Cons.prems(1) by (simp_all add: all_fit_def)
  let ?m = "with_record (if ys = [] then msg\<lparr>status := OBTAIN_BETWEEN_END\<rparr> else msg) kv"
  have r: "(msg_key ?m, msg_value ?m) = kv" by (simp only: with_record_back [OF fit(1)] prod.collapse)
  show ?case
  proof (cases "ys = []")
    case True
    then show ?thesis using r by (simp add: put_record_fits [OF fit(1)])
  next
    case False
    then have "status ?m = OK" using Cons.prems(2) by simp
    from Cons.IH [OF fit(2) this] obtain ms where ms: "range_msgs ?m ys = Some ms"
      "map (\<lambda>a. (msg_key a, msg_value a)) ms = ys" "map status ms = replicate (length ys - 1) OK @ [OBTAIN_BETWEEN_END]"
      using False by blast
    have "range_msgs msg (kv # ys) = Some (?m # ms)" using False ms(1) by (simp add: put_record_fits [OF fit(1)])
    moreover have "map status (?m # ms) = replicate (length (kv # ys) - 1) OK @ [OBTAIN_BETWEEN_END]"
      using False ms(3) Cons.prems(2) by (cases ys) simp_all
    ultimately show ?thesis using r ms(2) by (intro exI [of _ "?m # ms"]) simp
  qed
qed simp

lemma obtain_range_answers:
  assumes "srv_ok s" "srv_entries s (msg_path m) = Some xs" "all_fit xs"
  shows "\<exists>db'. (case map_of xs (msg_key m) of
      None \<Rightarrow> obtain_range (srv_db s) m = (Inl Db_obtaining_of_nonexistent_key, m, db')
    | Some v \<Rightarrow> obtain_range (srv_db s) m =
        (Inr (filter (\<lambda>p. msg_key m \<le> fst p \<and> fst p \<le> Some (right_boundary_login m)) xs), with_value m v, db')) \<and>
    db_ok db' \<and> db_entries db' = db_entries (srv_db s)"
proof -
  have db: "db_ok (srv_db s)" using assms(1) by (simp add: srv_ok_def)
  have e: "db_entries (srv_db s) (pool_name m) (schema_name m) (collection_name m) = Some xs"
    using assms(2) by (simp add: srv_entries_def msg_path_def)
  obtain db1 where db1: "db_obtain (srv_db s) (pool_name m) (schema_name m) (collection_name m) (msg_key m) =
      (case map_of xs (msg_key m) of None \<Rightarrow> Inl Db_obtaining_of_nonexistent_key | Some v \<Rightarrow> Inr v, db1)" "db_ok db1"
      "db_entries db1 = db_entries (srv_db s)"
    using db_obtain_exact [OF db e, of "msg_key m"] by (auto elim: answersE)
  show ?thesis
  proof (cases "map_of xs (msg_key m)")
    case None
    then show ?thesis using db1 by (auto simp: obtain_range_def fill_def)
  next
    case (Some v)
    then have xs: "xs \<noteq> []" "(msg_key m, v) \<in> set xs" by (auto dest: map_of_SomeD)
    then have p: "put_value m v = Some (with_value m v)" using assms(3) put_value_fits by (auto simp: all_fit_def)
    have e1: "db_entries db1 (pool_name m) (schema_name m) (collection_name m) = Some xs" using e db1(3) by simp
    obtain db2 where "db_obtain_between db1 (pool_name m) (schema_name m) (collection_name m) (msg_key m)
        (Some (right_boundary_login m)) True True =
        (Inr (filter (\<lambda>p. msg_key m \<le> fst p \<and> fst p \<le> Some (right_boundary_login m)) xs), db2)" "db_ok db2"
        "db_entries db2 = db_entries db1"
      using db_obtain_between_exact [OF db1(2) e1 xs(1), of "msg_key m" "Some (right_boundary_login m)" True True]
      by (auto elim: answersE)
    then show ?thesis using Some db1 p by (auto simp: obtain_range_def fill_def)
  qed
qed

text \<open>
  C36. A range is looked up from its left bound, which has to be a key: when it is none, the exception is
  not caught and ends the storage server. Otherwise there is one message for each record between the
  bounds, in order, and only the last one has the status that marks the end; an empty range is one
  message with an error.
\<close>

theorem obtain_between_outcomes:
  assumes "srv_ok s" "srv_entries s (msg_path m) = Some xs" "all_fit xs" "cmd m = OBTAIN_BETWEEN"
    and "ys = filter (\<lambda>p. msg_key m \<le> fst p \<and> fst p \<le> Some (right_boundary_login m)) xs"
  shows "if map_of xs (msg_key m) = None then fst (handle_msg s m) = Inl Db_obtaining_of_nonexistent_key
    else \<exists>ms s'. handle_msg s m = (Inr ms, s') \<and> srv_ok s' \<and> srv_entries s' = srv_entries s \<and>
      (if ys = [] then map status ms = [ATTTEMT_TO_OBTAIN_NONEXISTENT_KEY]
       else map (\<lambda>a. (msg_key a, msg_value a)) ms = ys \<and>
         map status ms = replicate (length ys - 1) OK @ [OBTAIN_BETWEEN_END])"
proof -
  have h: "handle_msg s m = handle_obtain_between s (taken m)" using assms(4) by (simp add: handle_msg_def taken_def)
  have t: "srv_entries s (msg_path (taken m)) = Some xs" "right_boundary_login (taken m) = right_boundary_login m"
    using assms(2) by (simp_all add: taken_def)
  obtain db' where o: "case map_of xs (msg_key m) of
      None \<Rightarrow> obtain_range (srv_db s) (taken m) = (Inl Db_obtaining_of_nonexistent_key, taken m, db')
    | Some v \<Rightarrow> obtain_range (srv_db s) (taken m) = (Inr ys, with_value (taken m) v, db')"
    and db': "db_ok db'" "db_entries db' = db_entries (srv_db s)"
    using obtain_range_answers [OF assms(1) t(1) assms(3)] unfolding taken_simps t(2) assms(5) [symmetric] by blast
  show ?thesis
  proof (cases "map_of xs (msg_key m)")
    case None
    then show ?thesis using o by (simp add: h handle_obtain_between_def obtain_between_caught_def)
  next
    case (Some v)
    have fit: "all_fit ys" "status (with_value (taken m) v) = OK" using assms(3,5) by (simp_all add: all_fit_def)
    obtain ms where ms: "range_msgs (with_value (taken m) v) ys = Some ms" "map (\<lambda>a. (msg_key a, msg_value a)) ms = ys"
      "ys \<noteq> [] \<longrightarrow> map status ms = replicate (length ys - 1) OK @ [OBTAIN_BETWEEN_END]"
      using range_msgs_exact [OF fit] by blast
    have ok: "srv_ok (with_db s db')" "srv_entries (with_db s db') = srv_entries s"
      using db' assms(1) by (simp_all add: srv_ok_def with_db_def srv_entries_def fun_eq_iff)
    show ?thesis
      using o Some ms ok by (cases "ys = []") (simp_all add: h handle_obtain_between_def)
  qed
qed

theorem obtain_between_outcomes_witness:
  "fst (handle_msg (ex_srv ex_xy) ((ex_msg OBTAIN_BETWEEN ''b'')\<lparr>right_boundary_login := ''z''\<rparr>)) =
    Inl Db_obtaining_of_nonexistent_key"
proof -
  let ?m = "(ex_msg OBTAIN_BETWEEN ''b'')\<lparr>right_boundary_login := ''z''\<rparr>"
  have "srv_ok (ex_srv ex_xy)" "srv_entries (ex_srv ex_xy) (msg_path ?m) = Some [ex_rec ''x'', ex_rec ''y'']" "cmd ?m = OBTAIN_BETWEEN"
    using ex_xy_ok by (simp_all add: ex_srv_def srv_ok_def srv_entries_def ex_msg_def msg_path_def)
  moreover have "map_of [ex_rec ''x'', ex_rec ''y''] (msg_key ?m) = None" by (simp add: ex_rec_def ex_msg_def msg_key_def)
  ultimately show ?thesis using obtain_between_outcomes [OF _ _ ex_fits(2), of "ex_srv ex_xy" ?m] by simp
qed

section \<open>Sharing the records out\<close>

lemma sum_targets_nat:
  "(\<Sum>i\<leftarrow>[0..<n]. q + (if i < r then 1 else 0)) = n * q + (min n r :: nat)"
  by (induction n) auto

lemma unat_sum_list:
  "(\<Sum>c\<leftarrow>cs. unat c) < 2 ^ 64 \<Longrightarrow> unat (sum_list (cs :: 64 word list)) = (\<Sum>c\<leftarrow>cs. unat c)"
proof (induction cs)
  case (Cons c cs)
  then have "unat (sum_list cs) = (\<Sum>c\<leftarrow>cs. unat c)" by simp
  then show ?case using Cons.prems by (simp add: unat_word_ariths)
qed simp

lemma unat_plus_one: "unat (x :: 64 word) + 1 < 2 ^ 64 \<Longrightarrow> unat (x + 1) = unat x + 1"
  by (simp add: unat_word_ariths)

lemma targets_nat:
  assumes "cnts \<noteq> []" "(\<Sum>c\<leftarrow>cnts. unat c) < 2 ^ 64" "length cnts < 2 ^ 64"
  shows "map unat (targets cnts) =
    map (\<lambda>i. (\<Sum>c\<leftarrow>cnts. unat c) div length cnts + (if i < (\<Sum>c\<leftarrow>cnts. unat c) mod length cnts then 1 else 0)) [0..<length cnts]"
proof -
  let ?S = "\<Sum>c\<leftarrow>cnts. unat c" and ?n = "length cnts"
  let ?s = "sum_list cnts" and ?z = "of_nat (length cnts) :: 64 word"
  have z: "unat ?z = ?n" using assms(3) by (simp add: unat_of_nat take_bit_nat_eq_self)
  have d: "unat (?s div ?z) = ?S div ?n" "unat (?s mod ?z) = ?S mod ?n"
    by (simp_all add: unat_div unat_mod unat_sum_list [OF assms(2)] z)
  have "unat (?s div ?z + (if of_nat i < ?s mod ?z then 1 else 0)) = ?S div ?n + (if i < ?S mod ?n then 1 else 0)"
    if i: "i < ?n" for i
  proof -
    have ii: "unat (of_nat i :: 64 word) = i" using i assms(3) by (simp add: unat_of_nat take_bit_nat_eq_self)
    have "?S div ?n + 1 < 2 ^ 64" if "i < ?S mod ?n"
    proof -
      have "?S div ?n + 1 \<le> ?n * (?S div ?n) + ?S mod ?n" using that i by (cases ?n) auto
      also have "\<dots> = ?S" by simp
      finally show ?thesis using assms(2) by simp
    qed
    then show ?thesis using unat_plus_one [of "?s div ?z"] by (simp add: word_less_nat_alt d ii)
  qed
  then show ?thesis by (simp add: targets_def Let_def)
qed

text \<open>
  The targets of a redistribution share the records out: they add up to the records that there are, and
  no two of them differ by more than one. The counts must not wrap around together.
\<close>

theorem targets_fair:
  assumes "cnts \<noteq> []" "(\<Sum>c\<leftarrow>cnts. unat c) < 2 ^ 64" "length cnts < 2 ^ 64"
  shows "(\<Sum>t\<leftarrow>targets cnts. unat t) = (\<Sum>c\<leftarrow>cnts. unat c) \<and> length (targets cnts) = length cnts \<and>
    (\<forall>t \<in> set (targets cnts). \<forall>u \<in> set (targets cnts). unat t \<le> unat u + 1)"
proof -
  let ?S = "\<Sum>c\<leftarrow>cnts. unat c" and ?n = "length cnts"
  note tn = targets_nat [OF assms]
  have "(\<Sum>t\<leftarrow>targets cnts. unat t) = ?n * (?S div ?n) + min ?n (?S mod ?n)"
    unfolding tn by (rule sum_targets_nat)
  also have "min ?n (?S mod ?n) = ?S mod ?n" using assms(1) by (simp add: less_imp_le)
  also have "?n * (?S div ?n) + ?S mod ?n = ?S" by simp
  finally have a: "(\<Sum>t\<leftarrow>targets cnts. unat t) = ?S" .
  have "unat t \<in> {?S div ?n, ?S div ?n + 1}" if "t \<in> set (targets cnts)" for t
  proof -
    have "unat t \<in> set (map unat (targets cnts))" using that by simp
    then show ?thesis unfolding tn by auto
  qed
  then have "unat t \<le> unat u + 1" if "t \<in> set (targets cnts)" "u \<in> set (targets cnts)" for t u
  proof -
    have "unat t \<le> ?S div ?n + 1" "?S div ?n \<le> unat u"
      using that \<open>\<And>t. t \<in> set (targets cnts) \<Longrightarrow> unat t \<in> {?S div ?n, ?S div ?n + 1}\<close> by fastforce+
    then show ?thesis by simp
  qed
  then show ?thesis using a by (auto simp: targets_def Let_def)
qed

theorem targets_fair_witness: "(\<Sum>t\<leftarrow>targets [9, 0, 1]. unat t) = 10"
  using targets_fair [of "[9, 0, 1]"] by simp

end
