(* ===== verification/Client_Properties.thy ===== *)
theory Client_Properties
  imports Client_Correct Cluster_Properties
begin

text \<open>The properties of the client, alone and with the manager and the storage servers behind it.\<close>

section \<open>Command lines\<close>

definition read_line :: "int \<Rightarrow> strg_msg \<Rightarrow> string \<Rightarrow> client_exn + strg_msg" where
  "read_line pd m line = (case line_word [] line of (word, args) \<Rightarrow> command_of pd word args m)"

lemma read_line_spaced:
  assumes "word \<noteq> []" "\<forall>c \<in> set word. \<not> is_blank c"
  shows "read_line pd m (word @ spaced ws) = command_of pd word (spaced ws, ws = []) m"
proof -
  have d: "dropWhile is_blank (word @ spaced ws) = word @ spaced ws" using assms by (cases word) simp_all
  have "\<forall>c \<in> set word. \<not> is_blank c" "spaced ws = [] \<or> \<not> \<not> is_blank (hd (spaced ws))" using assms(2) spaced_end(1) by auto
  note s = span_word [OF this]
  show ?thesis using assms(1) spaced_end(2) [of ws] by (simp add: read_line_def line_word_def read_word_def d s Let_def)
qed

lemma read_line_word:
  "\<forall>c \<in> set word. CHR ''a'' \<le> c \<or> CHR ''A'' \<le> c \<and> c \<le> CHR ''Z'' \<Longrightarrow> word \<noteq> [] \<Longrightarrow>
    read_line pd m (word @ spaced (x # ws)) = command_of pd word (spaced (x # ws), False) m"
  by (subst read_line_spaced) (auto simp: is_blank_def less_eq_char_def)

lemma read_lines:
  "read_line pd m (''add'' @ spaced (x # ws)) = handle_add_command pd (spaced (x # ws), False) m"
  "read_line pd m (''update'' @ spaced (x # ws)) = handle_update_command pd (spaced (x # ws), False) m"
  "read_line pd m (''dispose'' @ spaced (x # ws)) = handle_dispose_command pd (spaced (x # ws), False) m"
  "read_line pd m (''obtain'' @ spaced (x # ws)) = handle_obtain_command pd (spaced (x # ws), False) m"
  "read_line pd m (''addPool'' @ spaced (x # ws)) = handle_add_pool_command pd (spaced (x # ws), False) m"
  "read_line pd m (''addSchema'' @ spaced (x # ws)) = handle_add_schema_command pd (spaced (x # ws), False) m"
  "read_line pd m (''addCollection'' @ spaced (x # ws)) = handle_add_collection_command pd (spaced (x # ws), False) m"
  "read_line pd m (''disposePool'' @ spaced (x # ws)) = handle_dispose_pool_command pd (spaced (x # ws), False) m"
  "read_line pd m (''disposeSchema'' @ spaced (x # ws)) = handle_dispose_schema_command pd (spaced (x # ws), False) m"
  "read_line pd m (''disposeCollection'' @ spaced (x # ws)) = handle_dispose_collection_command pd (spaced (x # ws), False) m"
  by (subst read_line_word; simp add: command_of_def less_eq_char_def)+

text \<open>
  C25. Every command line that is written from names without blanks, short enough for the arrays of the message,
  and from numbers in their range, is read back as the message with exactly these fields.
\<close>

theorem command_line_roundtrip:
  assumes "structs_ok [p, s, c]" "word_ok MSG_KEY_SIZE k" "word_ok MSG_KEY_SIZE r" "word_ok MSG_NAME_SIZE n"
    and "2 \<le> t" "t < 2 ^ 64" "has_word av fm"
  shows "read_line pd m (''add'' @ spaced [p, s, c, k, show_int64 v, n]) =
      Inr ((client_msg pd ADD m)\<lparr>pool_name := p, schema_name := s, collection_name := c, login := k,
        hashed_password := v, value_name := n\<rparr>) \<and>
    read_line pd m (''update'' @ spaced [p, s, c, k, show_int64 v, n]) =
      Inr ((client_msg pd UPDATE m)\<lparr>pool_name := p, schema_name := s, collection_name := c, login := k,
        hashed_password := v, value_name := n\<rparr>) \<and>
    read_line pd m (''dispose'' @ spaced [p, s, c, k]) =
      Inr ((client_msg pd DISPOSE m)\<lparr>pool_name := p, schema_name := s, collection_name := c, login := k\<rparr>) \<and>
    read_line pd m (''obtain'' @ spaced [p, s, c, k]) =
      Inr ((client_msg pd OBTAIN m)\<lparr>pool_name := p, schema_name := s, collection_name := c, login := k,
        right_boundary_login := []\<rparr>) \<and>
    read_line pd m (''obtain'' @ spaced [p, s, c, k, r]) =
      Inr ((client_msg pd OBTAIN_BETWEEN m)\<lparr>pool_name := p, schema_name := s, collection_name := c, login := k,
        right_boundary_login := r\<rparr>) \<and>
    read_line pd m (''addPool'' @ spaced [p, show_nat t]) =
      Inr ((client_msg pd ADD_POOL m)\<lparr>pool_name := p, tree_variant := St_b, t_for_b_trees := t\<rparr>) \<and>
    read_line pd m (''addSchema'' @ spaced [p, s, show_nat t]) =
      Inr ((client_msg pd ADD_SCHEMA m)\<lparr>pool_name := p, schema_name := s, tree_variant := St_b, t_for_b_trees := t\<rparr>) \<and>
    read_line pd m (''addCollection'' @ spaced [p, s, c, show_nat t, allocator_word av, fit_mode_word fm]) =
      Inr ((client_msg pd ADD_COLLECTION m)\<lparr>pool_name := p, schema_name := s, collection_name := c, tree_variant := St_b,
        t_for_b_trees := t, alloc_variant := av, alloc_fit_mode := fm\<rparr>) \<and>
    read_line pd m (''disposePool'' @ spaced [p]) = Inr ((client_msg pd DISPOSE_POOL m)\<lparr>pool_name := p\<rparr>) \<and>
    read_line pd m (''disposeSchema'' @ spaced [p, s]) =
      Inr ((client_msg pd DISPOSE_SCHEMA m)\<lparr>pool_name := p, schema_name := s\<rparr>) \<and>
    read_line pd m (''disposeCollection'' @ spaced [p, s, c]) =
      Inr ((client_msg pd DISPOSE_COLLECTION m)\<lparr>pool_name := p, schema_name := s, collection_name := c\<rparr>)"
  unfolding read_lines handle_add_command_def handle_update_command_def
  using put_command_line [OF assms(1,2,4)] handle_dispose_line [OF assms(1,2)] handle_obtain_line [OF assms(1,2)]
    handle_obtain_range_line [OF assms(1-3)] handle_add_struct_lines [OF assms(1,5-7)] handle_dispose_struct_lines [OF assms(1)]
  by (intro conjI)

theorem command_line_roundtrip_witness:
  "read_line 300 (ex_msg PING []) ''obtain p s c x'' =
    Inr ((client_msg 300 OBTAIN (ex_msg PING []))\<lparr>pool_name := ''p'', schema_name := ''s'', collection_name := ''c'',
      login := ''x'', right_boundary_login := []\<rparr>)"
proof -
  have w: "word_ok n [c]" if "c \<in> {CHR ''p'', CHR ''s'', CHR ''c'', CHR ''x''}" "1 < n" for c n
    using that by (auto simp: word_ok_def is_blank_def)
  have "structs_ok [''p'', ''s'', ''c'']" "word_ok MSG_KEY_SIZE ''x''" "word_ok MSG_NAME_SIZE ''x''"
    using w by (simp_all add: structs_ok_def MSG_STRUCTS_NAME_SIZE_def MSG_KEY_SIZE_def MSG_NAME_SIZE_def)
  moreover have "(2 :: nat) \<le> 2" "(2 :: nat) < 2 ^ 64" "has_word Av_sorted_list First_fit" by (simp_all add: has_word_def)
  ultimately have "read_line 300 (ex_msg PING []) (''obtain'' @ spaced [''p'', ''s'', ''c'', ''x'']) =
      Inr ((client_msg 300 OBTAIN (ex_msg PING []))\<lparr>pool_name := ''p'', schema_name := ''s'', collection_name := ''c'',
        login := ''x'', right_boundary_login := []\<rparr>)"
    using command_line_roundtrip [of "''p''" "''s''" "''c''" "''x''" "''x''" "''x''" 2 Av_sorted_list First_fit 300 "ex_msg PING []" 0]
    by blast
  then show ?thesis by (simp add: spaced_def)
qed

section \<open>The session\<close>

definition s_world :: "session \<Rightarrow> client_world" where "s_world s = snd (snd (snd s))"

lemma s_world_simps [simp]: "s_world (c, word, m, w) = w" "snd (snd (snd s)) = s_world s"
  by (simp_all add: s_world_def)

lemma session_ok_out [simp]: "session_ok pd (out_line x w) = session_ok pd w" "session_ok pd (w\<lparr>cw_gets := gs\<rparr>) = session_ok pd w"
  by (simp_all add: session_ok_def out_line_def out_def)

lemma caught_ok: "session_ok pd (s_world (snd r)) \<Longrightarrow> session_ok pd (s_world (snd (caught t r)))"
  by (auto simp: caught_def split: prod.split sum.split client_exn.split)

lemma plain_line_ok:
  assumes "session_ok pd w" "req_id m = cw_counter w"
  shows "session_ok pd (s_world (snd (plain_line pd word args (c, x, m, w))))"
proof (cases "word = ''reconnect''")
  case True
  then show ?thesis
    using assms(1) by (auto simp: plain_line_def handle_reconnect_command_def split: prod.split sum.split list.split bool.split)
next
  case False
  obtain r m' w' where "run_command pd c word args m w = (r, m', w')" by (metis prod_cases3)
  then show ?thesis using run_command_ok [OF assms] False by (simp add: plain_line_def)
qed

text \<open>One line, when the session goes on: what it leads to.\<close>

lemma run_session_kept:
  assumes "run_session pd t lines s = Some y"
  shows "session_ok pd (s_world s) \<longrightarrow> session_ok pd (snd y)"
proof (rule run_session.raw_induct [of "\<lambda>pd t lines s y. session_ok pd (s_world s) \<longrightarrow> session_ok pd (snd y)", OF _ assms])
  fix run pd t lines s y
  assume ih: "\<And>pd t lines s y. run pd t lines s = Some y \<Longrightarrow> session_ok pd (s_world s) \<longrightarrow> session_ok pd (snd y)"
    and body: "(case lines of
        [] \<Rightarrow> Some (Inr (), snd (snd (snd s)))
      | buf # rest \<Rightarrow>
          if c_str buf = [] then run pd t rest s
          else
            (case s of (connected, cmd0, msg0, w) \<Rightarrow>
            (case line_word cmd0 buf of (word, args) \<Rightarrow>
            if word = ''stop'' \<and> snd args then Some (Inr (), w)
            else
              Option.bind
                (if word = ''stop'' then
                   Some (caught t
                     (Inl (Cl_runtime_error ''Excess arguments''), connected, word, msg0\<lparr>req_id := cw_counter w\<rparr>, w))
                 else if word = ''executeFile'' then
                   (case open_command_file args w of
                      Inl e \<Rightarrow> Some (caught t (Inl e, connected, word, msg0\<lparr>req_id := cw_counter w\<rparr>, w))
                    | Inr ls \<Rightarrow>
                        Option.bind (run pd False ls (connected, [], cw_junk w, w))
                          (\<lambda>(r, w1). Some (case r of
                             Inl e \<Rightarrow> caught t (Inl e, connected, word, msg0\<lparr>req_id := cw_counter w\<rparr>, w1)
                           | Inr _ \<Rightarrow> (Inr (), connected, word, msg0\<lparr>req_id := cw_counter w\<rparr>, count_request w1))))
                 else Some (caught t
                   (plain_line pd word args (connected, word, msg0\<lparr>req_id := cw_counter w\<rparr>, w))))
                (\<lambda>r. case r of
                   (Inl e, s1) \<Rightarrow> Some (Inl e, snd (snd (snd s1)))
                 | (Inr _, s1) \<Rightarrow> run pd t rest s1)))) = Some y"
  show "session_ok pd (s_world s) \<longrightarrow> session_ok pd (snd y)"
  proof
    assume ok: "session_ok pd (s_world s)"
    show "session_ok pd (snd y)"
    proof (cases lines)
      case Nil
      then show ?thesis using body ok by auto
    next
      case (Cons buf rest)
      obtain c cmd0 m w where s: "s = (c, cmd0, m, w)" by (metis prod_cases4)
      obtain word args where lw: "line_word cmd0 buf = (word, args)" by (cases "line_word cmd0 buf")
      have w: "session_ok pd w" using ok s by simp
      have k: "session_ok pd (s_world (snd (caught t (Inl e, c', x, m', w'))))" if "session_ok pd w'" for e c' x m' w'
        using that by (intro caught_ok) simp
      have next_ok: "session_ok pd (snd y)"
        if "(case r of (Inl e, s1) \<Rightarrow> Some (Inl e, snd (snd (snd s1))) | (Inr _, s1) \<Rightarrow> run pd t rest s1) = Some y"
          "session_ok pd (s_world (snd r))" for r
        using that ih [of pd t rest "snd r" y] by (cases r; cases "fst r") auto
      consider "c_str buf = []" | "c_str buf \<noteq> []" "word = ''stop'' \<and> snd args" | "c_str buf \<noteq> []" "word = ''stop''" "\<not> snd args"
        | "c_str buf \<noteq> []" "word = ''executeFile''" | "c_str buf \<noteq> []" "word \<noteq> ''stop''" "word \<noteq> ''executeFile''" by blast
      then show ?thesis
      proof cases
        case 1
        then show ?thesis using body ok ih Cons by simp
      next
        case 2
        then show ?thesis using body w by (auto simp: Cons s lw)
      next
        case 3
        show ?thesis
          by (rule next_ok [of "caught t (Inl (Cl_runtime_error ''Excess arguments''), c, word, m\<lparr>req_id := cw_counter w\<rparr>, w)"])
            (use 3 body k [OF w] in \<open>simp_all add: Cons s lw\<close>)
      next
        case 4
        show ?thesis
        proof (cases "open_command_file args w")
          case (Inl e)
          show ?thesis
            by (rule next_ok [of "caught t (Inl e, c, word, m\<lparr>req_id := cw_counter w\<rparr>, w)"]) (use 4 Inl body k [OF w] in \<open>simp_all add: Cons s lw\<close>)
        next
          case (Inr ls)
          then obtain r w1 where r: "run pd False ls (c, [], cw_junk w, w) = Some (r, w1)"
            using 4 body by (auto simp: Cons s lw bind_eq_Some_conv)
          have w1: "session_ok pd w1" using ih [OF r] w by simp
          show ?thesis
          proof (cases r)
            case (Inl e)
            show ?thesis
              by (rule next_ok [of "caught t (Inl e, c, word, m\<lparr>req_id := cw_counter w\<rparr>, w1)"])
                (use 4 Inl Inr r body k [OF w1] in \<open>simp_all add: Cons s lw\<close>)
          next
            case (Inr u)
            show ?thesis
              by (rule next_ok [of "(Inr (), c, word, m\<lparr>req_id := cw_counter w\<rparr>, count_request w1)"])
                (use 4 Inr \<open>open_command_file args w = Inr ls\<close> r body count_request_ok [OF w1] in \<open>simp_all add: Cons s lw\<close>)
          qed
        qed
      next
        case 5
        have "session_ok pd (s_world (snd (plain_line pd word args (c, word, m\<lparr>req_id := cw_counter w\<rparr>, w))))"
          by (rule plain_line_ok [OF w]) simp
        from caught_ok [OF this, of t] show ?thesis
          by (intro next_ok [of "caught t (plain_line pd word args (c, word, m\<lparr>req_id := cw_counter w\<rparr>, w))"])
            (use 5 body in \<open>simp_all add: Cons s lw\<close>)
      qed
    qed
  qed
qed

text \<open>
  C30. A session keeps its request counter between 1 and 1000000000, and every message that it sends, through any
  command files, has the type and the status of a client's message, the number of this client and such a
  request number.
\<close>

theorem session_requests:
  assumes "run_session pd is_terminal lines (connected, word, m, w) = Some (r, w')"
    and "1 \<le> cw_counter w" "cw_counter w \<le> 1000000000" "cw_sent w = []"
  shows "1 \<le> cw_counter w' \<and> cw_counter w' \<le> 1000000000 \<and>
    (\<forall>a \<in> set (cw_sent w'). mtype a = MANAGER_SERVER_CLIENT_PRIOR \<and> status a = CLIENT \<and> pid a = pd \<and>
      1 \<le> req_id a \<and> req_id a \<le> 1000000000)"
proof -
  have "session_ok pd w" using assms(2-4) by (simp add: session_ok_def count_ok_def)
  then have "session_ok pd w'" using run_session_kept [OF assms(1)] by simp
  then show ?thesis by (auto simp: session_ok_def count_ok_def from_client_def)
qed

declare run_session.simps [code]

definition ex_client :: "strg_msg option list \<Rightarrow> client_world" where
  "ex_client inbox = \<lparr>cw_sends = [True, True], cw_gets = [], cw_inbox = inbox, cw_sent = [], cw_out = [], cw_counter = 1,
     cw_files = (\<lambda>_. None), cw_junk = ex_msg PING []\<rparr>"

definition ex_lines :: "string list" where
  "ex_lines = [''obtain p s c a'', ''obtain p s c b'']"

text \<open>
  The counter goes on only after an answer. When the first of two commands times out, the second one is
  sent under the same number, and the late answer to the first is printed as that to the second.
\<close>

theorem late_answer_taken:
  "map_option (\<lambda>(r, w). (r, cw_out w, map req_id (cw_sent w)))
     (run_session 300 True ex_lines
       (True, [], ex_msg PING [], ex_client [None, Some ((ex_msg OBTAIN ''a'')\<lparr>status := OK\<rparr>)])) =
   Some (Inr (), ''Cannot receive server answer'' @ [CHR 0x0A, CHR 0x0A] @
     ''Obtained record { a : 7, name }.'' @ [CHR 0x0A, CHR 0x0A], [1, 1])"
  by code_simp

theorem session_requests_witness:
  "\<exists>r w'. run_session 300 True ex_lines (True, [], ex_msg PING [], ex_client [None, None]) = Some (r, w') \<and>
    (\<forall>a \<in> set (cw_sent w'). 1 \<le> req_id a)"
proof -
  let ?run = "run_session 300 True ex_lines (True, [], ex_msg PING [], ex_client [None, None])"
  have "map_option fst ?run = Some (Inr ())" by code_simp
  then obtain r w' where r: "?run = Some (r, w')" by auto
  from session_requests [OF r] show ?thesis using r by (auto simp: ex_client_def)
qed

section \<open>Answers\<close>

text \<open>
  After the first message of a range the client prints records until as many servers have sent their
  last one as the manager has asked: whatever the order in which their messages come, it prints each
  of them once, in this order, and leaves the messages behind them in the queue.
\<close>

theorem range_printed:
  assumes "length (filter (\<lambda>a. status a = OBTAIN_BETWEEN_END) ms) = n" "n < 2 ^ 64"
    and "ms = [] \<or> status (last ms) = OBTAIN_BETWEEN_END"
  shows "print_range connected (map Some ms @ rs) counter (counter + of_nat n) m w =
    (Inr (), last (m # ms), set_inbox connected rs (fold (\<lambda>a. out_line (''Obtained'' @ record_text a)) ms w))"
proof -
  have e: "ends ms = n" using assms(1) by (simp add: ends_def)
  have "ms \<noteq> [] \<longrightarrow> status (last ms) = OBTAIN_BETWEEN_END" using assms(3) by blast
  from print_range_all [OF _ _ this, of counter "counter + of_nat n" connected rs m w] show ?thesis
    using assms(2) unfolding e out_records_def by simp
qed

theorem range_printed_witness:
  "print_range True [Some ((ex_msg OBTAIN_BETWEEN ''y'')\<lparr>status := OBTAIN_BETWEEN_END\<rparr>)] 0 1 (ex_msg OBTAIN_BETWEEN ''x'') (ex_client []) =
    (Inr (), (ex_msg OBTAIN_BETWEEN ''y'')\<lparr>status := OBTAIN_BETWEEN_END\<rparr>,
      out_line (''Obtained'' @ record_text ((ex_msg OBTAIN_BETWEEN ''y'')\<lparr>status := OBTAIN_BETWEEN_END\<rparr>)) (ex_client []))"
  using range_printed [of "[(ex_msg OBTAIN_BETWEEN ''y'')\<lparr>status := OBTAIN_BETWEEN_END\<rparr>]" 1 True "[]" 0 "ex_msg OBTAIN_BETWEEN ''x''" "ex_client []"]
  by (simp add: set_inbox_def ex_client_def out_line_def out_def)

section \<open>From the command line to the answer\<close>

definition obtained_text :: "string \<Rightarrow> tvalue \<Rightarrow> string" where
  "obtained_text k v = ''Obtained record { '' @ k @ '' : '' @ show_int64 (personal_id v) @ '', '' @ the (tname v) @ '' }.''"

lemma handle_answer_obtain:
  assumes a: "cmd a = OBTAIN" "req_id a = cw_counter w" "cw_counter w \<noteq> 0" and m: "strcpy MSG_KEY_SIZE (login m) = Some k"
    and i: "cw_inbox w = [Some a]"
  shows "status a = OK \<Longrightarrow> handle_server_answer True m w =
      (Inr (), a, out_line [] (out_line (''Obtained'' @ record_text a) (w\<lparr>cw_inbox := []\<rparr>)))"
    "status a = ATTTEMT_TO_OBTAIN_NONEXISTENT_KEY \<Longrightarrow> handle_server_answer True m w =
      (Inl (Cl_runtime_error ''Entered key does not exist''), a, w\<lparr>cw_inbox := []\<rparr>)"
proof -
  have w: "await_answer (cw_counter w) (inbox_of True w) (m\<lparr>req_id := 0\<rparr>) = (Inr (), a, [])"
    using await_answer_found [of "[]" "cw_counter w" a "m\<lparr>req_id := 0\<rparr>" "[]"] a by (simp add: inbox_of_def i)
  show "status a = OK \<Longrightarrow> handle_server_answer True m w =
      (Inr (), a, out_line [] (out_line (''Obtained'' @ record_text a) (w\<lparr>cw_inbox := []\<rparr>)))"
    "status a = ATTTEMT_TO_OBTAIN_NONEXISTENT_KEY \<Longrightarrow> handle_server_answer True m w =
      (Inl (Cl_runtime_error ''Entered key does not exist''), a, w\<lparr>cw_inbox := []\<rparr>)"
    using a(1) by (simp_all add: handle_server_answer_def m w status_error_def print_answer_def finish_answer_def set_inbox_def)
qed

text \<open>
  C8. From the command line to the answer: the client turns \<open>obtain\<close> and four names into a message, the manager
  sends it to the server that the separators name and the answer back, and the client prints the record
  that any of the servers holds for the key, or that the key does not exist.
\<close>

theorem obtain_end_to_end:
  assumes line: "structs_ok [p, s, c]" "word_ok MSG_KEY_SIZE k" "text_fits MSG_NAME_SIZE (value_name m0)"
    and m: "read_line pd m0 (''obtain'' @ spaced [p, s, c, k]) = Inr m"
    and cl: "cluster mg w (p, s, c) ss xss" "w_queue w = [m]" "mg_changes mg + 2 < 30 * (1 + length (mg_servers mg))"
    and client: "cw_counter cw = req_id m0" "req_id m0 \<noteq> 0"
  shows "\<exists>mg' w'. request fs mg w = Some (Inr (mg', w')) \<and>
    (case map_of (concat xss) (Some k) of
       Some v \<Rightarrow> \<exists>a. handle_server_answer True m (cw\<lparr>cw_inbox := map Some (w_queue w')\<rparr>) =
         (Inr (), a, out_line [] (out_line (obtained_text k v) (cw\<lparr>cw_inbox := []\<rparr>)))
     | None \<Rightarrow> \<exists>a. handle_server_answer True m (cw\<lparr>cw_inbox := map Some (w_queue w')\<rparr>) =
         (Inl (Cl_runtime_error ''Entered key does not exist''), a, cw\<lparr>cw_inbox := []\<rparr>))"
proof -
  have me: "m = (client_msg pd OBTAIN m0)\<lparr>pool_name := p, schema_name := s, collection_name := c, login := k, right_boundary_login := []\<rparr>"
    using m unfolding read_lines by (simp only: handle_obtain_line [OF line(1,2)] sum.inject)
  have kf: "text_fits MSG_KEY_SIZE k" using line(2) by (auto simp: text_fits_def word_ok_def)
  have mm: "mtype m = MANAGER_SERVER_CLIENT_PRIOR" "status m = CLIENT" "msg_path m = (p, s, c)" "cmd m = OBTAIN" "login m = k"
      "req_id m = req_id m0" "keyed_command (cmd m)" "msg_fits m" "msg_key m = Some k"
    using line(3) kf by (simp_all add: me client_msg_def msg_path_def keyed_command_def msg_fits_def msg_key_def)
  have able: "srv_able sv (m\<lparr>mtype := t\<rparr>)" for sv t by (simp add: srv_able_def mm(4) split: option.split)
  let ?a = "(fst (data_reply m (concat xss)))\<lparr>mtype := pid m\<rparr>"
  obtain mg' w' where r: "request fs mg w = Some (Inr (mg', w'))" "w_queue w' = [?a]"
    using request_answered [OF cl(1,2) mm(1-3,7,8) cl(3) able] by blast
  let ?cw = "cw\<lparr>cw_inbox := map Some (w_queue w')\<rparr>"
  have i: "cw_inbox ?cw = [Some ?a]" "cw_counter ?cw \<noteq> 0" using r(2) client by simp_all
  have st: "strcpy MSG_KEY_SIZE (login m) = Some k" using kf mm(5) by (simp add: strcpy_fits)
  show ?thesis
  proof (cases "map_of (concat xss) (Some k)")
    case None
    then have a: "?a = (taken m)\<lparr>status := ATTTEMT_TO_OBTAIN_NONEXISTENT_KEY, mtype := pid m\<rparr>"
      by (simp add: data_reply_taken mm(4,9))
    have "cmd ?a = OBTAIN" "req_id ?a = cw_counter ?cw" "status ?a = ATTTEMT_TO_OBTAIN_NONEXISTENT_KEY"
      unfolding a using mm(4,6) client by (simp_all add: taken_def)
    from handle_answer_obtain(2) [OF this(1,2) i(2) st i(1) this(3)] show ?thesis using r(1) None by auto
  next
    case (Some v)
    then have a: "?a = (with_value (taken m) v)\<lparr>mtype := pid m\<rparr>" by (simp add: data_reply_taken mm(4,9))
    have "cmd ?a = OBTAIN" "req_id ?a = cw_counter ?cw" "status ?a = OK"
      unfolding a using mm(4,6) client by (simp_all add: taken_def with_value_def)
    note h = handle_answer_obtain(1) [OF this(1,2) i(2) st i(1) this(3)]
    have "''Obtained'' @ record_text ?a = obtained_text k v"
      unfolding a using mm(5) by (simp add: record_text_def obtained_text_def with_value_def taken_def)
    then show ?thesis using r(1) Some h by auto
  qed
qed

theorem obtain_end_to_end_witness:
  "\<exists>m mg' w' a cw. read_line 300 (ex_msg PING []) ''obtain p s c y'' = Inr m \<and>
    request False ex_mg (ex_world [m]) = Some (Inr (mg', w')) \<and>
    handle_server_answer True m ((ex_client [])\<lparr>cw_inbox := map Some (w_queue w')\<rparr>) = (Inr (), a, cw) \<and>
    cw_out cw = obtained_text ''y'' \<lparr>personal_id = 7, tname = Some ''name''\<rparr> @ [CHR 0x0A, CHR 0x0A]"
proof -
  have w: "word_ok n [c]" if "c \<in> {CHR ''p'', CHR ''s'', CHR ''c'', CHR ''y''}" "1 < n" for c n
    using that by (auto simp: word_ok_def is_blank_def)
  have l: "structs_ok [''p'', ''s'', ''c'']" "word_ok MSG_KEY_SIZE ''y''" "text_fits MSG_NAME_SIZE (value_name (ex_msg PING []))"
    using w by (simp_all add: structs_ok_def MSG_STRUCTS_NAME_SIZE_def MSG_KEY_SIZE_def MSG_NAME_SIZE_def text_fits_def ex_msg_def)
  let ?m = "(client_msg 300 OBTAIN (ex_msg PING []))\<lparr>pool_name := ''p'', schema_name := ''s'', collection_name := ''c'',
    login := ''y'', right_boundary_login := []\<rparr>"
  have m: "read_line 300 (ex_msg PING []) (''obtain'' @ spaced [''p'', ''s'', ''c'', ''y'']) = Inr ?m"
    unfolding read_lines by (rule handle_obtain_line [OF l(1,2)])
  have c: "cluster ex_mg (ex_world [?m]) (''p'', ''s'', ''c'') [''m''] [[ex_rec ''a''], [ex_rec ''x'', ex_rec ''y'']]"
    using ex_cluster [of "[?m]"] by (simp add: ex_path_def)
  have x: "w_queue (ex_world [?m]) = [?m]" "mg_changes ex_mg + 2 < 30 * (1 + length (mg_servers ex_mg))"
      "cw_counter (ex_client []) = req_id (ex_msg PING [])" "req_id (ex_msg PING []) \<noteq> 0"
    by (simp_all add: ex_client_def ex_msg_def)
  have v: "map_of (concat [[ex_rec ''a''], [ex_rec ''x'', ex_rec ''y'']]) (Some ''y'') = Some \<lparr>personal_id = 7, tname = Some ''name''\<rparr>"
    by (simp add: ex_rec_def)
  obtain mg' w' a where r: "request False ex_mg (ex_world [?m]) = Some (Inr (mg', w'))"
      "handle_server_answer True ?m ((ex_client [])\<lparr>cw_inbox := map Some (w_queue w')\<rparr>) =
       (Inr (), a, out_line [] (out_line (obtained_text ''y'' \<lparr>personal_id = 7, tname = Some ''name''\<rparr>) ((ex_client [])\<lparr>cw_inbox := []\<rparr>)))"
    using obtain_end_to_end [OF l m c x, of False] unfolding v option.case by blast
  have "read_line 300 (ex_msg PING []) ''obtain p s c y'' = Inr ?m" using m by (simp add: spaced_def)
  then show ?thesis using r by (intro exI conjI) (assumption | simp add: out_line_def out_def ex_client_def)+
qed

end
