(* ===== verification/Loggers.thy ===== *)
theory Loggers
  imports File_System "HOL-Library.Word" "HOL-Library.Monad_Syntax"
begin

text \<open>
  \<open>logger.cpp\<close>, \<open>logger_builder.cpp\<close>, \<open>logger_guardant.cpp\<close> and the client logger with its builder. All client
  loggers share the files they write to: a static map counts the loggers that use a file. The
  clock, \<open>std::filesystem::weakly_canonical\<close> and the parser of JSON are parameters. Memory is taken as sufficient.
\<close>

section \<open>Severities\<close>

datatype severity = Sev_trace | Sev_debug | Sev_information | Sev_warning | Sev_error | Sev_critical

fun severity_to_string :: "severity \<Rightarrow> string" where
  "severity_to_string Sev_trace = ''TRACE''"
| "severity_to_string Sev_debug = ''DEBUG''"
| "severity_to_string Sev_information = ''INFORMATION''"
| "severity_to_string Sev_warning = ''WARNING''"
| "severity_to_string Sev_error = ''ERROR''"
| "severity_to_string Sev_critical = ''CRITICAL''"

text \<open>\<open>toupper\<close> of the C locale.\<close>

definition toupper :: "char \<Rightarrow> char" where
  "toupper c = (if CHR ''a'' \<le> c \<and> c \<le> CHR ''z'' then char_of (of_char c - 32 :: nat) else c)"

text \<open>\<open>None\<close> is \<open>std::out_of_range\<close>.\<close>

definition string_to_severity :: "string \<Rightarrow> severity option" where
  "string_to_severity s =
     (let str = map toupper s in
      if str = ''TRACE'' then Some Sev_trace
      else if str = ''DEBUG'' then Some Sev_debug
      else if str = ''INFORMATION'' then Some Sev_information
      else if str = ''WARNING'' then Some Sev_warning
      else if str = ''ERROR'' then Some Sev_error
      else if str = ''CRITICAL'' then Some Sev_critical
      else None)"

definition builder_string_to_severity :: "string \<Rightarrow> severity option" where
  "builder_string_to_severity str =
     (if str = ''trace'' then Some Sev_trace
      else if str = ''debug'' then Some Sev_debug
      else if str = ''information'' then Some Sev_information
      else if str = ''warning'' then Some Sev_warning
      else if str = ''error'' then Some Sev_error
      else if str = ''critical'' then Some Sev_critical
      else None)"

text \<open>A \<open>std::map\<close> over strings, as the list of its entries by key.\<close>

fun map_put :: "string \<Rightarrow> 'a \<Rightarrow> (string \<times> 'a) list \<Rightarrow> (string \<times> 'a) list" where
  "map_put k v [] = [(k, v)]"
| "map_put k v ((k', v') # m) =
     (if k = k' then (k, v) # m else if k < k' then (k, v) # (k', v') # m else (k', v') # map_put k v m)"

type_synonym log_config = "(string \<times> severity set) list"

text \<open>\<open>configuration[path].insert(severity)\<close>.\<close>

definition config_insert :: "string \<Rightarrow> severity \<Rightarrow> log_config \<Rightarrow> log_config" where
  "config_insert path sev conf =
     map_put path (insert sev (case map_of conf path of None \<Rightarrow> {} | Some sevs \<Rightarrow> sevs)) conf"

section \<open>Streams\<close>

text \<open>A pointer to an output stream: the null pointer, the console, or an \<open>ofstream\<close> on the heap.\<close>

datatype stream_ptr = No_stream | Console | File_stream nat

record out_stream =
  os_path :: string
  os_good :: bool

text \<open>\<open>lw_all\<close> is \<open>_all_streams\<close>, the pointers with their use counts.\<close>

record log_world =
  lw_fs :: file_system
  lw_console :: string
  lw_heap :: "nat \<Rightarrow> out_stream option"
  lw_next :: nat
  lw_all :: "string \<Rightarrow> (stream_ptr \<times> 64 word) option"

record client_logger =
  cl_format :: string
  cl_streams :: "(string \<times> stream_ptr \<times> severity set) list"

datatype log_exn = File_cannot_be_opened string | Invalid_json_path | Json_parse_error | Json_type_error | Invalid_severity

text \<open>\<open>operator[]\<close> of \<open>_all_streams\<close>, which enters a null pointer with the count 0.\<close>

definition all_streams_at :: "log_world \<Rightarrow> string \<Rightarrow> stream_ptr \<times> 64 word" where
  "all_streams_at w p = (case lw_all w p of None \<Rightarrow> (No_stream, 0) | Some e \<Rightarrow> e)"

definition count_user :: "string \<Rightarrow> log_world \<Rightarrow> log_world" where
  "count_user p w = (let (st, n) = all_streams_at w p in w\<lparr>lw_all := (lw_all w)(p \<mapsto> (st, n + 1))\<rparr>)"

text \<open>\<open>None\<close> is the end iterator dereferenced, or a stream that is not there.\<close>

definition decrement_stream_users :: "string \<Rightarrow> log_world \<Rightarrow> log_world option" where
  "decrement_stream_users p w =
     (if p = [] then Some w
      else
        (case lw_all w p of
           None \<Rightarrow> None
         | Some (st, n) \<Rightarrow>
             if n - 1 = 0 then
               (case st of
                  File_stream i \<Rightarrow>
                    (if lw_heap w i = None then None
                     else Some (w\<lparr>lw_heap := (lw_heap w)(i := None), lw_all := (lw_all w)(p := None)\<rparr>))
                | _ \<Rightarrow> None)
             else Some (w\<lparr>lw_all := (lw_all w)(p \<mapsto> (st, n - 1))\<rparr>)))"

fun decrement_all :: "string list \<Rightarrow> log_world \<Rightarrow> log_world option" where
  "decrement_all [] w = Some w"
| "decrement_all (p # ps) w = Option.bind (decrement_stream_users p w) (decrement_all ps)"

section \<open>The client logger\<close>

text \<open>
  The loop of the constructor; \<open>before\<close> are the paths of the configuration in front. The outer \<open>None\<close> is undefined.
\<close>

fun open_streams ::
  "string list \<Rightarrow> log_config \<Rightarrow> client_logger \<Rightarrow> log_world \<Rightarrow> ((log_exn + client_logger) \<times> log_world) option" where
  "open_streams before [] lg w = Some (Inr lg, w)"
| "open_streams before ((file_path, severities) # conf) lg w =
     (if file_path = [] then
        open_streams (before @ [file_path]) conf (lg\<lparr>cl_streams := map_put [] (Console, severities) (cl_streams lg)\<rparr>) w
      else
        case (if lw_all w file_path = None then
                (case fs_open_trunc (lw_fs w) file_path of
                   None \<Rightarrow> Inl ()
                 | Some fs \<Rightarrow>
                     Inr (w\<lparr>lw_fs := fs, lw_heap := (lw_heap w)(lw_next w \<mapsto> \<lparr>os_path = file_path, os_good = True\<rparr>),
                            lw_next := Suc (lw_next w), lw_all := (lw_all w)(file_path \<mapsto> (File_stream (lw_next w), 0))\<rparr>))
              else Inr w) of
          Inl _ \<Rightarrow> map_option (\<lambda>w'. (Inl (File_cannot_be_opened file_path), w')) (decrement_all before w)
        | Inr w1 \<Rightarrow>
            open_streams (before @ [file_path]) conf
              (lg\<lparr>cl_streams := map_put file_path (fst (all_streams_at w1 file_path), severities) (cl_streams lg)\<rparr>)
              (count_user file_path w1))"

definition client_logger_new :: "string \<Rightarrow> log_config \<Rightarrow> log_world \<Rightarrow> ((log_exn + client_logger) \<times> log_world) option" where
  "client_logger_new format configuration w = open_streams [] configuration \<lparr>cl_format = format, cl_streams = []\<rparr> w"

definition client_logger_copy :: "client_logger \<Rightarrow> log_world \<Rightarrow> client_logger \<times> log_world" where
  "client_logger_copy other w = (other, fold (\<lambda>r. count_user (fst r)) (cl_streams other) w)"

text \<open>Assignment to another object than itself; the assignment to itself changes nothing.\<close>

definition client_logger_assign :: "client_logger \<Rightarrow> client_logger \<Rightarrow> log_world \<Rightarrow> (client_logger \<times> log_world) option" where
  "client_logger_assign this other w =
     map_option (client_logger_copy other) (decrement_all (map fst (cl_streams this)) w)"

text \<open>The object moved from is left empty.\<close>

definition moved_logger :: client_logger where
  "moved_logger = \<lparr>cl_format = [], cl_streams = []\<rparr>"

definition client_logger_move :: "client_logger \<Rightarrow> client_logger \<times> client_logger" where
  "client_logger_move other = (other, moved_logger)"

definition client_logger_move_assign ::
  "client_logger \<Rightarrow> client_logger \<Rightarrow> log_world \<Rightarrow> ((client_logger \<times> client_logger) \<times> log_world) option" where
  "client_logger_move_assign this other w =
     map_option (\<lambda>w'. ((other, moved_logger), w')) (decrement_all (map fst (cl_streams this)) w)"

definition client_logger_destroy :: "client_logger \<Rightarrow> log_world \<Rightarrow> log_world option" where
  "client_logger_destroy this w = decrement_all (map fst (cl_streams this)) w"

text \<open>\<open>std::string::substr\<close>; \<open>None\<close> is \<open>std::out_of_range\<close>, which ends the program here.\<close>

definition substr :: "string \<Rightarrow> nat \<Rightarrow> nat \<Rightarrow> string option" where
  "substr s pos n = (if length s < pos then None else Some (take n (drop pos s)))"

text \<open>The loop over the format; behind its last character stands the null character.\<close>

fun format_line :: "string \<Rightarrow> severity \<Rightarrow> string \<Rightarrow> string \<Rightarrow> string option" where
  "format_line datetime sev message [] = Some []"
| "format_line datetime sev message [c] = Some (if c = CHR ''%'' then [c, CHR 0x00] else [c])"
| "format_line datetime sev message (c # d # fmt) =
     (if c = CHR ''%'' then do {
        piece \<leftarrow> (if d = CHR ''d'' then substr datetime 0 10
                 else if d = CHR ''t'' then substr datetime 11 8
                 else if d = CHR ''s'' then Some (severity_to_string sev)
                 else if d = CHR ''m'' then Some message
                 else Some [c, d]);
        rest \<leftarrow> format_line datetime sev message fmt;
        Some (piece @ rest)
      }
      else map_option ((#) c) (format_line datetime sev message (d # fmt)))"

text \<open>A line to a stream, with \<open>std::endl\<close>; a stream that has failed takes nothing. \<open>None\<close> is a stream that is not there.\<close>

definition put_line :: "stream_ptr \<Rightarrow> string \<Rightarrow> log_world \<Rightarrow> log_world option" where
  "put_line st line w =
     (case st of
        No_stream \<Rightarrow> None
      | Console \<Rightarrow> Some (w\<lparr>lw_console := lw_console w @ line @ [CHR 0x0A]\<rparr>)
      | File_stream i \<Rightarrow>
          (case lw_heap w i of
             None \<Rightarrow> None
           | Some os \<Rightarrow>
               if \<not> os_good os then Some w
               else
                 (case fs_append (lw_fs w) (os_path os) (line @ [CHR 0x0A]) of
                    None \<Rightarrow> Some (w\<lparr>lw_heap := (lw_heap w)(i \<mapsto> os\<lparr>os_good := False\<rparr>)\<rparr>)
                  | Some fs \<Rightarrow> Some (w\<lparr>lw_fs := fs\<rparr>))))"

fun log_streams ::
  "string \<Rightarrow> string \<Rightarrow> severity \<Rightarrow> string \<Rightarrow> (string \<times> stream_ptr \<times> severity set) list \<Rightarrow> log_world \<Rightarrow> log_world option" where
  "log_streams datetime message sev fmt [] w = Some w"
| "log_streams datetime message sev fmt ((p, st, sevs) # rs) w =
     (if sev \<in> sevs then do {
        line \<leftarrow> format_line datetime sev message fmt;
        w' \<leftarrow> put_line st line w;
        log_streams datetime message sev fmt rs w'
      }
      else log_streams datetime message sev fmt rs w)"

definition client_log :: "string \<Rightarrow> client_logger \<Rightarrow> string \<Rightarrow> severity \<Rightarrow> log_world \<Rightarrow> log_world option" where
  "client_log datetime lg message sev w = log_streams datetime message sev (cl_format lg) (cl_streams lg) w"

text \<open>\<open>logger_guardant::log_with_guard\<close>, which the six methods by severity call: without a logger nothing happens.\<close>

definition log_with_guard :: "('l \<Rightarrow> string \<Rightarrow> severity \<Rightarrow> 'w \<Rightarrow> 'w option) \<Rightarrow> 'l option \<Rightarrow> string \<Rightarrow> severity \<Rightarrow> 'w \<Rightarrow> 'w option" where
  "log_with_guard log_it lg message sev w = (case lg of None \<Rightarrow> Some w | Some l \<Rightarrow> log_it l message sev w)"

section \<open>The builder\<close>

record logger_builder =
  lb_format :: string
  lb_config :: log_config

definition builder_default :: string where
  "builder_default = ''[%s]: %m''"

definition client_builder_new :: logger_builder where
  "client_builder_new = \<lparr>lb_format = builder_default, lb_config = []\<rparr>"

definition set_format_string :: "string \<Rightarrow> logger_builder \<Rightarrow> logger_builder" where
  "set_format_string format b = b\<lparr>lb_format := format\<rparr>"

definition add_file_stream :: "(string \<Rightarrow> string) \<Rightarrow> string \<Rightarrow> severity \<Rightarrow> logger_builder \<Rightarrow> logger_builder" where
  "add_file_stream canonical path sev b = b\<lparr>lb_config := config_insert (canonical path) sev (lb_config b)\<rparr>"

definition add_console_stream :: "severity \<Rightarrow> logger_builder \<Rightarrow> logger_builder" where
  "add_console_stream sev b = b\<lparr>lb_config := config_insert [] sev (lb_config b)\<rparr>"

definition client_builder_clear :: "logger_builder \<Rightarrow> logger_builder" where
  "client_builder_clear b = \<lparr>lb_format = builder_default, lb_config = []\<rparr>"

definition client_builder_build :: "logger_builder \<Rightarrow> log_world \<Rightarrow> ((log_exn + client_logger) \<times> log_world) option" where
  "client_builder_build b = client_logger_new (lb_format b) (lb_config b)"

text \<open>The components of a path into the JSON value; \<open>None\<close> is an empty one, which throws.\<close>

fun path_components :: "string \<Rightarrow> string list option" where
  "path_components s =
     (if s = [] then Some []
      else
        let component = takeWhile (\<lambda>c. c \<noteq> CHR '':'') s in
        if component = [] then None
        else map_option ((#) component) (path_components (drop (Suc (length component)) s)))"

declare path_components.simps [simp del]

text \<open>The values of the JSON library, as far as the builders look at them.\<close>

datatype json = J_null | J_string string | J_array "json list" | J_object "(string \<times> json) list" | J_other

definition json_at :: "string \<Rightarrow> json \<Rightarrow> json option" where
  "json_at k j =
     (case j of
        J_null \<Rightarrow> Some J_null
      | J_object es \<Rightarrow> Some (case map_of es k of None \<Rightarrow> J_null | Some v \<Rightarrow> v)
      | _ \<Rightarrow> None)"

definition json_values :: "json \<Rightarrow> json list" where
  "json_values j = (case j of J_null \<Rightarrow> [] | J_array vs \<Rightarrow> vs | J_object es \<Rightarrow> map snd es | _ \<Rightarrow> [j])"

definition json_items :: "json \<Rightarrow> (string \<times> json) list" where
  "json_items j =
     (case j of
        J_null \<Rightarrow> []
      | J_array vs \<Rightarrow> zip (map show_nat [0..<length vs]) vs
      | J_object es \<Rightarrow> es
      | _ \<Rightarrow> [([], j)])"

definition json_string :: "json \<Rightarrow> string option" where
  "json_string j = (case j of J_string s \<Rightarrow> Some s | _ \<Rightarrow> None)"

fun json_path :: "string list \<Rightarrow> json \<Rightarrow> json option" where
  "json_path [] j = Some j"
| "json_path (k # ks) j = Option.bind (json_at k j) (json_path ks)"

fun add_severities :: "(string \<Rightarrow> string) \<Rightarrow> string \<Rightarrow> json list \<Rightarrow> logger_builder \<Rightarrow> (log_exn + unit) \<times> logger_builder" where
  "add_severities canonical file_path [] b = (Inr (), b)"
| "add_severities canonical file_path (j # js) b =
     (case json_string j of
        None \<Rightarrow> (Inl Json_type_error, b)
      | Some severity_str \<Rightarrow>
          (case string_to_severity severity_str of
             None \<Rightarrow> (Inl Invalid_severity, b)
           | Some sev \<Rightarrow>
               add_severities canonical file_path js
                 (if file_path = ''console'' then add_console_stream sev b else add_file_stream canonical file_path sev b)))"

fun add_files :: "(string \<Rightarrow> string) \<Rightarrow> (string \<times> json) list \<Rightarrow> logger_builder \<Rightarrow> (log_exn + unit) \<times> logger_builder" where
  "add_files canonical [] b = (Inr (), b)"
| "add_files canonical ((file_path, severities) # es) b =
     (case add_severities canonical file_path (json_values severities) b of
        (Inl e, b') \<Rightarrow> (Inl e, b')
      | (Inr _, b') \<Rightarrow> add_files canonical es b')"

text \<open>\<open>formatted\<close> tells the client's builder from the server's, which has no format.\<close>

definition transform_with_configuration ::
  "bool \<Rightarrow> (string \<Rightarrow> string) \<Rightarrow> (string \<Rightarrow> json option) \<Rightarrow> file_system \<Rightarrow> string \<Rightarrow> string \<Rightarrow> logger_builder
    \<Rightarrow> (log_exn + unit) \<times> logger_builder" where
  "transform_with_configuration formatted canonical parse fs configuration_file_path configuration_path b =
     (case fs_open_read fs configuration_file_path of
        None \<Rightarrow> (Inl (File_cannot_be_opened configuration_file_path), b)
      | Some bytes \<Rightarrow>
          (case path_components configuration_path of
             None \<Rightarrow> (Inl Invalid_json_path, b)
           | Some components \<Rightarrow>
               (case parse bytes of
                  None \<Rightarrow> (Inl Json_parse_error, b)
                | Some json_obj \<Rightarrow>
                    (case json_path components json_obj of
                       None \<Rightarrow> (Inl Json_type_error, b)
                     | Some j \<Rightarrow>
                         let b1 = client_builder_clear b in
                         (case (if formatted then map_option (\<lambda>f. b1\<lparr>lb_format := f\<rparr>) (Option.bind (json_at ''format_string'' j) json_string)
                                else Some b1) of
                            None \<Rightarrow> (Inl Json_type_error, b1)
                          | Some b2 \<Rightarrow>
                              (case json_at ''logger_files'' j of
                                 None \<Rightarrow> (Inl Json_type_error, b2)
                               | Some files \<Rightarrow> add_files canonical (json_items files) b2))))))"

end
