(* ===== verification/Loggers_Correct.thy ===== *)
theory Loggers_Correct
  imports Loggers Arena
begin

text \<open>
  Every use of a file by a client logger is counted, and a file is open exactly as long as it is used.
\<close>

section \<open>Severities, paths and formats\<close>

lemma map_toupper_names: "map toupper (severity_to_string sev) = severity_to_string sev"
  by (cases sev; hypsubst; code_simp)

lemma severity_roundtrip: "map toupper s = severity_to_string sev \<Longrightarrow> string_to_severity s = Some sev"
  by (cases sev) (simp_all add: string_to_severity_def)

lemma string_to_severity_Some: "string_to_severity s = Some sev \<longleftrightarrow> map toupper s = severity_to_string sev"
  by (cases sev) (auto simp: string_to_severity_def Let_def split: if_splits)

lemma takeWhile_drop: "CHR '':'' \<notin> set k \<Longrightarrow> takeWhile (\<lambda>c. c \<noteq> CHR '':'') (k @ CHR '':'' # s) = k"
  by (induction k) auto

lemma path_components_last:
  assumes "k \<noteq> []" "CHR '':'' \<notin> set k"
  shows "path_components k = Some [k]"
proof -
  have t: "takeWhile (\<lambda>c. c \<noteq> CHR '':'') k = k" using assms(2) by (auto simp: takeWhile_eq_all_conv)
  show ?thesis using assms(1) by (subst path_components.simps) (simp add: t Let_def path_components.simps [of "[]"])
qed

lemma path_components_Cons:
  "k \<noteq> [] \<Longrightarrow> CHR '':'' \<notin> set k \<Longrightarrow> path_components (k @ CHR '':'' # s) = map_option ((#) k) (path_components s)"
  by (subst path_components.simps) (simp add: Let_def takeWhile_drop)

lemma format_line_defined: "11 \<le> length datetime \<Longrightarrow> format_line datetime sev message fmt \<noteq> None"
  by (induction datetime sev message fmt rule: format_line.induct) (auto simp: substr_def)

section \<open>Uses\<close>

definition uses :: "client_logger \<Rightarrow> string \<Rightarrow> nat" where
  "uses lg p = count_list (map fst (cl_streams lg)) p"

definition all_uses :: "client_logger list \<Rightarrow> string \<Rightarrow> nat" where
  "all_uses ls p = sum_list (map (\<lambda>lg. uses lg p) ls)"

text \<open>The map counts the uses \<open>u\<close>, and the streams on the heap are those of the map.\<close>

definition counted :: "log_world \<Rightarrow> (string \<Rightarrow> nat) \<Rightarrow> bool" where
  "counted w u \<longleftrightarrow>
     (\<forall>p. p \<noteq> [] \<longrightarrow> u p < 2 ^ 64 \<and>
        (if u p = 0 then lw_all w p = None
         else \<exists>i os. lw_all w p = Some (File_stream i, of_nat (u p)) \<and> lw_heap w i = Some os \<and> os_path os = p)) \<and>
     (\<forall>i os. lw_heap w i = Some os \<longrightarrow>
        i < lw_next w \<and> os_path os \<noteq> [] \<and> (\<exists>n. lw_all w (os_path os) = Some (File_stream i, n)))"

text \<open>The pointers of a logger are those of the map.\<close>

definition points :: "log_world \<Rightarrow> client_logger \<Rightarrow> bool" where
  "points w lg \<longleftrightarrow>
     (\<forall>(p, st, sevs) \<in> set (cl_streams lg). if p = [] then st = Console else \<exists>n. lw_all w p = Some (st, n))"

text \<open>From \<open>w\<close> to \<open>w'\<close> no stream of the map is closed or exchanged that is still used.\<close>

definition same_streams :: "(string \<Rightarrow> nat) \<Rightarrow> log_world \<Rightarrow> log_world \<Rightarrow> bool" where
  "same_streams u w w' \<longleftrightarrow>
     (\<forall>p st n. p \<noteq> [] \<longrightarrow> 0 < u p \<longrightarrow> lw_all w p = Some (st, n) \<longrightarrow> (\<exists>n'. lw_all w' p = Some (st, n')))"

lemma same_streams_refl [simp]: "same_streams u w w"
  by (simp add: same_streams_def)

lemma same_streams_trans:
  "same_streams u w w' \<Longrightarrow> same_streams u w' w'' \<Longrightarrow> same_streams u w w''"
  unfolding same_streams_def by metis

lemma points_kept:
  assumes "points w lg" "same_streams u w w'" "\<And>p. p \<in> fst ` set (cl_streams lg) \<Longrightarrow> 0 < u p"
  shows "points w' lg"
  using assms unfolding points_def same_streams_def by (fastforce split: if_splits)

lemma of_nat_minus_1: "0 < n \<Longrightarrow> (of_nat n :: 64 word) - 1 = of_nat (n - 1)"
  by (simp add: of_nat_diff)

lemma of_nat_eq_0: "n < 2 ^ 64 \<Longrightarrow> (of_nat n :: 64 word) = 0 \<longleftrightarrow> n = 0"
  using unat_of_nat_small [of n] by (cases "n = 0") auto

lemma countedD:
  assumes "counted w u" "p \<noteq> []" "0 < u p"
  obtains i os where "lw_all w p = Some (File_stream i, of_nat (u p))" "lw_heap w i = Some os" "os_path os = p" "u p < 2 ^ 64"
  using assms unfolding counted_def by (metis less_not_refl)

lemma counted_other: "counted w u \<Longrightarrow> p \<noteq> [] \<Longrightarrow> u p = 0 \<Longrightarrow> lw_all w p = None"
  unfolding counted_def by metis

lemma countedI:
  assumes "\<And>p. p \<noteq> [] \<Longrightarrow> u p = 0 \<Longrightarrow> lw_all w p = None"
    and "\<And>p. p \<noteq> [] \<Longrightarrow> 0 < u p \<Longrightarrow> u p < 2 ^ 64 \<and>
      (\<exists>i os. lw_all w p = Some (File_stream i, of_nat (u p)) \<and> lw_heap w i = Some os \<and> os_path os = p)"
    and "\<And>i os. lw_heap w i = Some os \<Longrightarrow>
      i < lw_next w \<and> os_path os \<noteq> [] \<and> (\<exists>n. lw_all w (os_path os) = Some (File_stream i, n))"
  shows "counted w u"
  unfolding counted_def
proof (intro conjI allI impI)
  fix p :: string
  assume p: "p \<noteq> []"
  show "u p < 2 ^ 64" using assms(2) [OF p] by (cases "u p = 0") auto
  show "if u p = 0 then lw_all w p = None
      else \<exists>i os. lw_all w p = Some (File_stream i, of_nat (u p)) \<and> lw_heap w i = Some os \<and> os_path os = p"
    using assms(1,2) [OF p] by simp
qed (use assms(3) in blast)+

lemma heap_counted:
  "counted w u \<Longrightarrow> lw_heap w i = Some os \<Longrightarrow>
   i < lw_next w \<and> os_path os \<noteq> [] \<and> (\<exists>n. lw_all w (os_path os) = Some (File_stream i, n))"
  unfolding counted_def by blast

lemma counted_cong:
  assumes c: "counted w u" and e: "\<And>p. p \<noteq> [] \<Longrightarrow> u' p = u p"
  shows "counted w u'"
proof (rule countedI)
  fix p assume p: "p \<noteq> []" "0 < u' p"
  then obtain i os where "lw_all w p = Some (File_stream i, of_nat (u p))" "lw_heap w i = Some os" "os_path os = p" "u p < 2 ^ 64"
    using countedD [OF c, of p] e [of p] by auto
  then show "u' p < 2 ^ 64 \<and> (\<exists>i os. lw_all w p = Some (File_stream i, of_nat (u' p)) \<and> lw_heap w i = Some os \<and> os_path os = p)"
    using e [OF p(1)] by auto
qed (use counted_other [OF c] heap_counted [OF c] e in auto)

lemma decrement_ok:
  assumes c: "counted w u" and u: "p \<noteq> [] \<Longrightarrow> 0 < u p"
  shows "\<exists>w'. decrement_stream_users p w = Some w' \<and> counted w' (u(p := u p - 1)) \<and> same_streams (u(p := u p - 1)) w w'"
proof (cases "p = []")
  case True
  have "counted w (u([] := u [] - 1))" by (rule counted_cong [OF c]) simp
  then show ?thesis using True by (simp add: decrement_stream_users_def)
next
  case False
  obtain i os where e: "lw_all w p = Some (File_stream i, of_nat (u p))" "lw_heap w i = Some os" "os_path os = p" "u p < 2 ^ 64"
    using countedD [OF c False u [OF False]] by blast
  have n: "(of_nat (u p) :: 64 word) - 1 = of_nat (u p - 1)" using u [OF False] by (rule of_nat_minus_1)
  have z: "(of_nat (u p - 1) :: 64 word) = 0 \<longleftrightarrow> u p = 1" using e(4) u [OF False] of_nat_eq_0 [of "u p - 1"] by auto
  let ?u = "u(p := u p - 1)"
  show ?thesis
  proof (cases "u p = 1")
    case True
    let ?w = "w\<lparr>lw_heap := (lw_heap w)(i := None), lw_all := (lw_all w)(p := None)\<rparr>"
    have "counted ?w ?u"
    proof (rule countedI)
      fix q assume q: "q \<noteq> []" "0 < ?u q"
      then have qp: "q \<noteq> p" using True by auto
      then obtain j os' where j: "lw_all w q = Some (File_stream j, of_nat (u q))" "lw_heap w j = Some os'" "os_path os' = q" "u q < 2 ^ 64"
        using countedD [OF c q(1)] q(2) by auto
      then have "j \<noteq> i" using e qp by auto
      then show "?u q < 2 ^ 64 \<and> (\<exists>i os. lw_all ?w q = Some (File_stream i, of_nat (?u q)) \<and> lw_heap ?w i = Some os \<and> os_path os = q)"
        using j qp by auto
    next
      fix j os' assume j: "lw_heap ?w j = Some os'"
      then have ji: "j \<noteq> i" "lw_heap w j = Some os'" by (auto split: if_splits)
      from heap_counted [OF c ji(2)] have h: "j < lw_next w" "os_path os' \<noteq> []" "\<exists>n. lw_all w (os_path os') = Some (File_stream j, n)"
        by auto
      then have "os_path os' \<noteq> p" using e(1) ji(1) by auto
      then show "j < lw_next ?w \<and> os_path os' \<noteq> [] \<and> (\<exists>n. lw_all ?w (os_path os') = Some (File_stream j, n))"
        using h by auto
    qed (use counted_other [OF c] in \<open>auto split: if_splits\<close>)
    moreover have "same_streams ?u w ?w" using True by (simp add: same_streams_def)
    moreover have "decrement_stream_users p w = Some ?w"
      using False e n z True by (simp add: decrement_stream_users_def)
    ultimately show ?thesis by blast
  next
    case more: False
    let ?w = "w\<lparr>lw_all := (lw_all w)(p \<mapsto> (File_stream i, of_nat (u p - 1)))\<rparr>"
    have up: "0 < u p - 1" using more u [OF False] by simp
    have "counted ?w ?u"
    proof (rule countedI)
      fix q assume q: "q \<noteq> []" "0 < ?u q"
      show "?u q < 2 ^ 64 \<and> (\<exists>i os. lw_all ?w q = Some (File_stream i, of_nat (?u q)) \<and> lw_heap ?w i = Some os \<and> os_path os = q)"
      proof (cases "q = p")
        case True
        then show ?thesis using e by simp
      next
        case qp: False
        then obtain j os' where "lw_all w q = Some (File_stream j, of_nat (u q))" "lw_heap w j = Some os'" "os_path os' = q" "u q < 2 ^ 64"
          using countedD [OF c q(1)] q(2) by auto
        then show ?thesis using qp by simp
      qed
    next
      fix j os' assume j: "lw_heap ?w j = Some os'"
      then show "j < lw_next ?w \<and> os_path os' \<noteq> [] \<and> (\<exists>n. lw_all ?w (os_path os') = Some (File_stream j, n))"
        using heap_counted [OF c, of j os'] e(1) by (cases "os_path os' = p") auto
    qed (use counted_other [OF c] up in \<open>auto split: if_splits\<close>)
    moreover have "same_streams ?u w ?w" using e(1) by (simp add: same_streams_def)
    moreover have "decrement_stream_users p w = Some ?w"
      using False more by (simp only: decrement_stream_users_def e(1) option.case prod.case n z if_False)
    ultimately show ?thesis by blast
  qed
qed

lemma count_user_ok:
  assumes c: "counted w u" and u: "p \<noteq> [] \<Longrightarrow> 0 < u p \<and> u p + 1 < 2 ^ 64"
  shows "counted (count_user p w) (u(p := u p + 1)) \<and> same_streams u w (count_user p w)"
proof -
  obtain st n where e: "all_streams_at w p = (st, n)" by fastforce
  let ?w = "w\<lparr>lw_all := (lw_all w)(p \<mapsto> (st, n + 1))\<rparr>"
  let ?u = "u(p := u p + 1)"
  have w: "count_user p w = ?w" by (simp add: count_user_def e Let_def)
  have at: "\<exists>i os. st = File_stream i \<and> n = of_nat (u p) \<and> lw_all w p = Some (st, n) \<and> lw_heap w i = Some os \<and> os_path os = p"
    if "p \<noteq> []"
    using countedD [OF c that] u [OF that] e by (metis all_streams_at_def option.case(2) prod.inject)
  have "counted ?w ?u"
  proof (rule countedI)
    fix q assume q: "q \<noteq> []" "0 < ?u q"
    show "?u q < 2 ^ 64 \<and> (\<exists>i os. lw_all ?w q = Some (File_stream i, of_nat (?u q)) \<and> lw_heap ?w i = Some os \<and> os_path os = q)"
    proof (cases "q = p")
      case True
      then show ?thesis using at u q(1) by auto
    next
      case qp: False
      then obtain j os' where "lw_all w q = Some (File_stream j, of_nat (u q))" "lw_heap w j = Some os'" "os_path os' = q" "u q < 2 ^ 64"
        using countedD [OF c q(1)] q(2) by auto
      then show ?thesis using qp by simp
    qed
  next
    fix j os' assume j: "lw_heap ?w j = Some os'"
    then show "j < lw_next ?w \<and> os_path os' \<noteq> [] \<and> (\<exists>n. lw_all ?w (os_path os') = Some (File_stream j, n))"
      using heap_counted [OF c, of j os'] at by (cases "os_path os' = p") auto
  qed (use counted_other [OF c] in \<open>auto split: if_splits\<close>)
  moreover have "same_streams u w ?w" using at by (auto simp: same_streams_def)
  ultimately show ?thesis by (simp add: w)
qed

text \<open>Runs of both.\<close>

lemma decrement_all_ok:
  assumes "counted w u" "\<And>p. p \<noteq> [] \<Longrightarrow> count_list ps p \<le> u p"
  shows "\<exists>w'. decrement_all ps w = Some w' \<and> counted w' (\<lambda>p. u p - count_list ps p) \<and>
    same_streams (\<lambda>p. u p - count_list ps p) w w'"
  using assms
proof (induction ps arbitrary: w u)
  case (Cons p ps)
  have "p \<noteq> [] \<Longrightarrow> 0 < u p" using Cons.prems(2) [of p] by simp
  then obtain w1 where w1: "decrement_stream_users p w = Some w1" "counted w1 (u(p := u p - 1))" "same_streams (u(p := u p - 1)) w w1"
    using decrement_ok [OF Cons.prems(1)] by blast
  have "count_list ps q \<le> (u(p := u p - 1)) q" if "q \<noteq> []" for q
    using Cons.prems(2) [OF that] by (auto split: if_splits)
  from Cons.IH [OF w1(2) this] obtain w2 where w2: "decrement_all ps w1 = Some w2"
      "counted w2 (\<lambda>q. (u(p := u p - 1)) q - count_list ps q)" "same_streams (\<lambda>q. (u(p := u p - 1)) q - count_list ps q) w1 w2"
    by blast
  have e: "(\<lambda>q. (u(p := u p - 1)) q - count_list ps q) = (\<lambda>q. u q - count_list (p # ps) q)" by auto
  have "same_streams (\<lambda>q. u q - count_list (p # ps) q) w w1"
    using w1(3) unfolding same_streams_def by (auto split: if_splits)
  from same_streams_trans [OF this] have "same_streams (\<lambda>q. u q - count_list (p # ps) q) w w2"
    using w2(3) unfolding e by blast
  then show ?case using w1(1) w2(1,2) unfolding e by simp
qed simp

lemma count_users_ok:
  assumes "counted w u" "\<And>p. p \<noteq> [] \<Longrightarrow> p \<in> fst ` set rs \<Longrightarrow> 0 < u p"
    "\<And>p. p \<noteq> [] \<Longrightarrow> u p + count_list (map fst rs) p < 2 ^ 64"
  shows "counted (fold (\<lambda>r. count_user (fst r)) rs w) (\<lambda>p. u p + count_list (map fst rs) p) \<and>
    same_streams u w (fold (\<lambda>r. count_user (fst r)) rs w)"
  using assms
proof (induction rs arbitrary: w u)
  case (Cons r rs)
  let ?u = "u(fst r := u (fst r) + 1)"
  have "fst r \<noteq> [] \<Longrightarrow> 0 < u (fst r) \<and> u (fst r) + 1 < 2 ^ 64" using Cons.prems(2,3) [of "fst r"] by simp
  from count_user_ok [OF Cons.prems(1) this] have w1: "counted (count_user (fst r) w) ?u" "same_streams u w (count_user (fst r) w)"
    by blast+
  have "counted (fold (\<lambda>r. count_user (fst r)) rs (count_user (fst r) w)) (\<lambda>p. ?u p + count_list (map fst rs) p) \<and>
      same_streams ?u (count_user (fst r) w) (fold (\<lambda>r. count_user (fst r)) rs (count_user (fst r) w))"
  proof (rule Cons.IH [OF w1(1)])
    show "?u p + count_list (map fst rs) p < 2 ^ 64" if "p \<noteq> []" for p
      using Cons.prems(3) [OF that] by (auto split: if_splits)
  qed (use Cons.prems(2) in auto)
  moreover have "(\<lambda>p. ?u p + count_list (map fst rs) p) = (\<lambda>p. u p + count_list (map fst (r # rs)) p)" by auto
  moreover have "same_streams u w1 w2" if "same_streams ?u w1 w2" for w1 w2
    using that unfolding same_streams_def by auto
  ultimately show ?case using w1(2) same_streams_trans [of u w "count_user (fst r) w"] by simp
qed simp

section \<open>The constructor\<close>

lemma map_put_new:
  assumes "k \<notin> fst ` set m"
  shows "set (map_put k v m) = insert (k, v) (set m)"
    "count_list (map fst (map_put k v m)) q = count_list (map fst m) q + (if q = k then 1 else 0)"
proof -
  from assms have "set (map_put k v m) = insert (k, v) (set m) \<and>
      count_list (map fst (map_put k v m)) q = count_list (map fst m) q + (if q = k then 1 else 0)"
  proof (induction m)
    case (Cons r m)
    then show ?case by (cases r) auto
  qed simp
  then show "set (map_put k v m) = insert (k, v) (set m)"
    "count_list (map fst (map_put k v m)) q = count_list (map fst m) q + (if q = k then 1 else 0)" by simp_all
qed

lemma count_distinct: "distinct xs \<Longrightarrow> count_list xs x = (if x \<in> set xs then 1 else 0)"
  by (induction xs) auto

text \<open>A stream that is opened is counted for its first user.\<close>

lemma open_counted:
  assumes c: "counted w u" and p: "p \<noteq> []" "lw_all w p = None"
  shows "counted (w\<lparr>lw_fs := fs, lw_heap := (lw_heap w)(lw_next w \<mapsto> \<lparr>os_path = p, os_good = True\<rparr>),
      lw_next := Suc (lw_next w), lw_all := (lw_all w)(p \<mapsto> (File_stream (lw_next w), 1))\<rparr>) (u(p := 1)) \<and> u p = 0"
    (is "counted ?w ?u \<and> _")
proof
  show "u p = 0"
  proof (rule ccontr)
    assume "u p \<noteq> 0"
    then obtain e where "lw_all w p = Some e" using countedD [OF c p(1)] by blast
    then show False using p(2) by simp
  qed
  show "counted ?w ?u"
  proof (rule countedI)
    fix q assume q: "q \<noteq> []" "0 < ?u q"
    show "?u q < 2 ^ 64 \<and> (\<exists>i os. lw_all ?w q = Some (File_stream i, of_nat (?u q)) \<and> lw_heap ?w i = Some os \<and> os_path os = q)"
    proof (cases "q = p")
      case qp: False
      then obtain j os' where j: "lw_all w q = Some (File_stream j, of_nat (u q))" "lw_heap w j = Some os'" "os_path os' = q" "u q < 2 ^ 64"
        using countedD [OF c q(1)] q(2) by auto
      have "j \<noteq> lw_next w" using heap_counted [OF c j(2)] by auto
      then show ?thesis using j qp by simp
    qed simp
  next
    fix j os' assume j: "lw_heap ?w j = Some os'"
    show "j < lw_next ?w \<and> os_path os' \<noteq> [] \<and> (\<exists>n. lw_all ?w (os_path os') = Some (File_stream j, n))"
    proof (cases "j = lw_next w")
      case False
      then have h: "j < lw_next w" "os_path os' \<noteq> []" "\<exists>n. lw_all w (os_path os') = Some (File_stream j, n)"
        using heap_counted [OF c, of j os'] j by auto
      then have "os_path os' \<noteq> p" using p(2) by auto
      then show ?thesis using h by simp
    qed (use j p(1) in auto)
  qed (use counted_other [OF c] in \<open>auto split: if_splits\<close>)
qed

lemma open_streams_ok:
  assumes "counted w (\<lambda>p. u p + uses lg p)" "points w lg" "\<And>p. uses lg p = count_list before p"
    "distinct (before @ map fst conf)" "\<And>p. u p + 1 < 2 ^ 64"
  shows "\<exists>r w'. open_streams before conf lg w = Some (r, w') \<and> same_streams u w w' \<and>
    (case r of Inl e \<Rightarrow> counted w' u
     | Inr lg' \<Rightarrow> counted w' (\<lambda>p. u p + uses lg' p) \<and> points w' lg' \<and> (\<forall>p. uses lg' p \<le> 1))"
  using assms
proof (induction before conf lg w rule: open_streams.induct)
  case (1 before lg w)
  have "uses lg p \<le> 1" for p
    using 1(3,4) count_distinct [of before p] by simp
  then show ?case using 1 by simp
next
  case (2 before file_path severities conf lg w)
  note c = 2(3) and pt = 2(4) and before = 2(5) and dist = 2(6) and room = 2(7)
  have new: "file_path \<notin> set before" using dist by simp
  then have key: "file_path \<notin> fst ` set (cl_streams lg)"
    using before [of file_path] by (simp add: uses_def count_list_0_iff)
  define lg' where "lg' = (\<lambda>st. lg\<lparr>cl_streams := map_put file_path (st, severities) (cl_streams lg)\<rparr>)"
  have lg': "uses (lg' st) p = uses lg p + (if p = file_path then 1 else 0)"
      "set (cl_streams (lg' st)) = insert (file_path, st, severities) (set (cl_streams lg))" for st p
    using map_put_new [OF key] by (simp_all add: lg'_def uses_def)
  have nxt: "uses (lg' st) p = count_list (before @ [file_path]) p" for st p
    using lg'(1) [of st p] before [of p] by simp
  have dist': "distinct ((before @ [file_path]) @ map fst conf)" using dist by simp
  show ?case
  proof (cases "file_path = []")
    case True
    have run: "open_streams before ((file_path, severities) # conf) lg w = open_streams (before @ [file_path]) conf (lg' Console) w"
      using True by (simp add: lg'_def)
    have "counted w (\<lambda>p. u p + uses (lg' Console) p)" by (rule counted_cong [OF c]) (simp add: lg'(1) True)
    moreover have "points w (lg' Console)" using pt True unfolding points_def lg'(2) by simp
    ultimately show ?thesis
      using 2(1) [OF True] nxt dist' room unfolding run by (simp add: lg'_def True)
  next
    case False
    let ?open = "if lw_all w file_path = None then
        (case fs_open_trunc (lw_fs w) file_path of
           None \<Rightarrow> Inl ()
         | Some fs \<Rightarrow>
             Inr (w\<lparr>lw_fs := fs, lw_heap := (lw_heap w)(lw_next w \<mapsto> \<lparr>os_path = file_path, os_good = True\<rparr>),
                    lw_next := Suc (lw_next w), lw_all := (lw_all w)(file_path \<mapsto> (File_stream (lw_next w), 0))\<rparr>))
      else Inr w"
    show ?thesis
    proof (cases ?open)
      case (Inl x)
      have run: "open_streams before ((file_path, severities) # conf) lg w =
          map_option (\<lambda>w'. (Inl (File_cannot_be_opened file_path), w')) (decrement_all before w)"
        using False Inl by simp
      obtain w' where w': "decrement_all before w = Some w'" "counted w' (\<lambda>p. u p + uses lg p - count_list before p)"
          "same_streams (\<lambda>p. u p + uses lg p - count_list before p) w w'"
        using decrement_all_ok [OF c, of before] before by auto
      have "(\<lambda>p. u p + uses lg p - count_list before p) = u" using before by auto
      then show ?thesis using w' unfolding run by auto
    next
      case (Inr w1)
      have run: "open_streams before ((file_path, severities) # conf) lg w =
          open_streams (before @ [file_path]) conf (lg' (fst (all_streams_at w1 file_path))) (count_user file_path w1)"
        using False Inr by (simp add: lg'_def)
      let ?w = "count_user file_path w1" and ?st = "fst (all_streams_at w1 file_path)"
      have step: "counted ?w (\<lambda>p. u p + uses (lg' ?st) p) \<and> same_streams (\<lambda>p. u p + uses lg p) w ?w \<and>
          (\<exists>n. lw_all ?w file_path = Some (?st, n))"
      proof (cases "lw_all w file_path")
        case None
        then obtain fs where w1: "w1 = w\<lparr>lw_fs := fs, lw_heap := (lw_heap w)(lw_next w \<mapsto> \<lparr>os_path = file_path, os_good = True\<rparr>),
            lw_next := Suc (lw_next w), lw_all := (lw_all w)(file_path \<mapsto> (File_stream (lw_next w), 0))\<rparr>"
          using Inr by (auto split: option.splits)
        have at: "all_streams_at w1 file_path = (File_stream (lw_next w), 0)" by (simp add: w1 all_streams_at_def)
        have w2: "?w = w\<lparr>lw_fs := fs, lw_heap := (lw_heap w)(lw_next w \<mapsto> \<lparr>os_path = file_path, os_good = True\<rparr>),
            lw_next := Suc (lw_next w), lw_all := (lw_all w)(file_path \<mapsto> (File_stream (lw_next w), 1))\<rparr>"
          by (simp add: count_user_def at) (simp add: w1)
        note o = open_counted [OF c False None, of fs, folded w2]
        have "counted ?w (\<lambda>p. u p + uses (lg' ?st) p)"
          by (rule counted_cong [OF conjunct1 [OF o]]) (use conjunct2 [OF o] in \<open>simp add: lg'(1)\<close>)
        moreover have "same_streams (\<lambda>p. u p + uses lg p) w ?w" using None unfolding w2 same_streams_def by simp
        moreover have "lw_all ?w file_path = Some (?st, 1)" unfolding at w2 by simp
        ultimately show ?thesis by blast
      next
        case (Some e)
        then have w1: "w1 = w" using Inr by simp
        have "0 < u file_path + uses lg file_path"
          using counted_other [OF c False] Some by (cases "u file_path + uses lg file_path = 0") auto
        moreover have "u file_path + uses lg file_path + 1 < 2 ^ 64"
          using room [of file_path] before [of file_path] new count_list_0_iff [of before file_path] by simp
        ultimately have k: "counted ?w ((\<lambda>p. u p + uses lg p)(file_path := u file_path + uses lg file_path + 1))"
            "same_streams (\<lambda>p. u p + uses lg p) w ?w"
          using count_user_ok [OF c, of file_path] unfolding w1 by blast+
        have "counted ?w (\<lambda>p. u p + uses (lg' ?st) p)"
          by (rule counted_cong [OF k(1)]) (simp add: lg'(1))
        moreover have "\<exists>n. lw_all ?w file_path = Some (?st, n)"
          using Some unfolding w1 by (cases e) (simp add: count_user_def all_streams_at_def)
        ultimately show ?thesis using k(2) by blast
      qed
      have "points ?w lg"
      proof (rule points_kept [OF pt])
        show "same_streams (\<lambda>p. u p + uses lg p) w ?w" using step by blast
        show "0 < u p + uses lg p" if "p \<in> fst ` set (cl_streams lg)" for p
          using that count_list_0_iff [of "map fst (cl_streams lg)" p] by (simp add: uses_def)
      qed
      then have "points ?w (lg' ?st)" using step False unfolding points_def lg'(2) by simp
      moreover have "same_streams u w ?w" using step unfolding same_streams_def by auto
      moreover have "counted ?w (\<lambda>p. u p + uses (lg' ?st) p)" using step by blast
      ultimately obtain r w' where r: "open_streams (before @ [file_path]) conf (lg' ?st) ?w = Some (r, w')" "same_streams u ?w w'"
          "case r of Inl e \<Rightarrow> counted w' u
           | Inr lg'' \<Rightarrow> counted w' (\<lambda>p. u p + uses lg'' p) \<and> points w' lg'' \<and> (\<forall>p. uses lg'' p \<le> 1)"
        using 2(2) [OF False Inr, folded lg'_def [THEN fun_cong]] nxt dist' room by blast
      from same_streams_trans [OF _ this(2)] have "same_streams u w w'"
        using \<open>same_streams u w ?w\<close> by blast
      then show ?thesis using r unfolding run by blast
    qed
  qed
qed

section \<open>Writing\<close>

lemma counted_same:
  assumes c: "counted w u" and e: "lw_all w' = lw_all w" "lw_next w' = lw_next w"
    "\<And>i. map_option os_path (lw_heap w' i) = map_option os_path (lw_heap w i)"
  shows "counted w' u"
proof (rule countedI)
  fix p assume p: "p \<noteq> []" "0 < u p"
  obtain i os where i: "lw_all w p = Some (File_stream i, of_nat (u p))" "lw_heap w i = Some os" "os_path os = p" "u p < 2 ^ 64"
    using countedD [OF c p] by blast
  then obtain os' where "lw_heap w' i = Some os'" "os_path os' = p" using e(3) [of i] by auto
  then show "u p < 2 ^ 64 \<and> (\<exists>i os. lw_all w' p = Some (File_stream i, of_nat (u p)) \<and> lw_heap w' i = Some os \<and> os_path os = p)"
    using i e(1) by auto
next
  fix i os assume "lw_heap w' i = Some os"
  then obtain os' where "lw_heap w i = Some os'" "os_path os' = os_path os" using e(3) [of i] by (cases "lw_heap w i") auto
  then show "i < lw_next w' \<and> os_path os \<noteq> [] \<and> (\<exists>n. lw_all w' (os_path os) = Some (File_stream i, n))"
    using heap_counted [OF c] e(1,2) by metis
qed (use counted_other [OF c] e(1) in auto)

lemma points_same: "points w lg \<Longrightarrow> lw_all w' = lw_all w \<Longrightarrow> points w' lg"
  by (simp only: points_def)

lemma put_line_ok:
  assumes "st = Console \<or> (\<exists>i os. st = File_stream i \<and> lw_heap w i = Some os)"
  shows "\<exists>w'. put_line st line w = Some w' \<and> lw_all w' = lw_all w \<and> lw_next w' = lw_next w \<and>
    (\<forall>i. map_option os_path (lw_heap w' i) = map_option os_path (lw_heap w i))"
  using assms by (auto simp: put_line_def split: option.split)

lemma log_streams_ok:
  assumes "counted w u" "11 \<le> length datetime"
    "\<And>p st sevs. (p, st, sevs) \<in> set rs \<Longrightarrow> if p = [] then st = Console else 0 < u p \<and> (\<exists>n. lw_all w p = Some (st, n))"
  shows "\<exists>w'. log_streams datetime message sev fmt rs w = Some w' \<and> counted w' u \<and> lw_all w' = lw_all w"
  using assms
proof (induction rs arbitrary: w)
  case (Cons r rs)
  obtain p st sevs where r: "r = (p, st, sevs)" by (cases r) auto
  show ?case
  proof (cases "sev \<in> sevs")
    case True
    obtain line where line: "format_line datetime sev message fmt = Some line"
      using format_line_defined [OF Cons.prems(2)] by blast
    have "st = Console \<or> (\<exists>i os. st = File_stream i \<and> lw_heap w i = Some os)"
    proof (cases "p = []")
      case False
      then have p: "0 < u p" "\<exists>n. lw_all w p = Some (st, n)" using Cons.prems(3) [of p st sevs] by (auto simp: r)
      then show ?thesis using countedD [OF Cons.prems(1) False p(1)] by (metis option.inject prod.inject)
    qed (use Cons.prems(3) [of p st sevs] in \<open>auto simp: r\<close>)
    from put_line_ok [OF this, of line] obtain w1 where w1: "put_line st line w = Some w1" "lw_all w1 = lw_all w"
        "lw_next w1 = lw_next w" "\<And>i. map_option os_path (lw_heap w1 i) = map_option os_path (lw_heap w i)"
      by blast
    have "counted w1 u" by (rule counted_same [OF Cons.prems(1) w1(2-4)])
    moreover have "if q = [] then st' = Console else 0 < u q \<and> (\<exists>n. lw_all w1 q = Some (st', n))"
      if "(q, st', sevs') \<in> set rs" for q st' sevs'
      using Cons.prems(3) [of q st' sevs'] that w1(2) by simp
    ultimately obtain w2 where "log_streams datetime message sev fmt rs w1 = Some w2" "counted w2 u" "lw_all w2 = lw_all w1"
      using Cons.IH [of w1] Cons.prems(2) by blast
    then show ?thesis using w1(1,2) line True by (simp add: r)
  next
    case False
    have "if q = [] then st' = Console else 0 < u q \<and> (\<exists>n. lw_all w q = Some (st', n))"
      if "(q, st', sevs') \<in> set rs" for q st' sevs'
      using Cons.prems(3) [of q st' sevs'] that by simp
    then show ?thesis using Cons.IH [OF Cons.prems(1,2)] False by (simp add: r)
  qed
qed simp

section \<open>Runs\<close>

text \<open>The loggers that live at one time, in any order of their operations.\<close>

definition log_world_new :: "file_system \<Rightarrow> log_world" where
  "log_world_new fs = \<lparr>lw_fs = fs, lw_console = [], lw_heap = Map.empty, lw_next = 0, lw_all = Map.empty\<rparr>"

inductive loggers_run :: "log_world \<Rightarrow> client_logger list \<Rightarrow> bool" where
  run_start: "loggers_run (log_world_new fs) []"
| run_new: "loggers_run w' (lg # ls)"
  if "loggers_run w ls" "distinct (map fst conf)" "length ls < 2 ^ 63" "client_logger_new fmt conf w = Some (Inr lg, w')"
| run_refused: "loggers_run w' ls"
  if "loggers_run w ls" "distinct (map fst conf)" "client_logger_new fmt conf w = Some (Inl e, w')"
| run_copy: "loggers_run w' (lg' # ls)"
  if "loggers_run w ls" "lg \<in> set ls" "length ls < 2 ^ 63" "client_logger_copy lg w = (lg', w')"
| run_assign: "loggers_run w' (ls[i := lg'])"
  if "loggers_run w ls" "i < length ls" "j < length ls" "i \<noteq> j" "client_logger_assign (ls ! i) (ls ! j) w = Some (lg', w')"
| run_move: "loggers_run w (lg # ls[i := rest])"
  if "loggers_run w ls" "i < length ls" "length ls < 2 ^ 63" "client_logger_move (ls ! i) = (lg, rest)"
| run_move_assign: "loggers_run w' (ls[i := lg, j := rest])"
  if "loggers_run w ls" "i < length ls" "j < length ls" "i \<noteq> j"
    "client_logger_move_assign (ls ! i) (ls ! j) w = Some ((lg, rest), w')"
| run_destroy: "loggers_run w' (xs @ ys)" if "loggers_run w (xs @ lg # ys)" "client_logger_destroy lg w = Some w'"
| run_log: "loggers_run w' ls"
  if "loggers_run w ls" "lg \<in> set ls" "11 \<le> length datetime" "client_log datetime lg message sev w = Some w'"

definition loggers_ok :: "log_world \<Rightarrow> client_logger list \<Rightarrow> bool" where
  "loggers_ok w ls \<longleftrightarrow> counted w (all_uses ls) \<and> (\<forall>lg \<in> set ls. points w lg \<and> (\<forall>p. uses lg p \<le> 1)) \<and> length ls \<le> 2 ^ 63"

lemma uses_pos: "0 < uses lg p \<longleftrightarrow> p \<in> fst ` set (cl_streams lg)"
  using count_list_0_iff [of "map fst (cl_streams lg)" p] by (auto simp: uses_def)

lemma all_uses_simps [simp]: "all_uses [] p = 0" "all_uses (lg # ls) p = uses lg p + all_uses ls p"
  "all_uses (xs @ ys) p = all_uses xs p + all_uses ys p"
  by (simp_all add: all_uses_def)

lemma all_uses_ge: "lg \<in> set ls \<Longrightarrow> uses lg p \<le> all_uses ls p"
  by (auto simp: all_uses_def intro: member_le_sum_list)

lemma all_uses_le: "(\<And>lg. lg \<in> set ls \<Longrightarrow> uses lg p \<le> 1) \<Longrightarrow> all_uses ls p \<le> length ls"
  by (induction ls) (auto intro: add_le_mono [of _ 1, simplified])

lemma all_uses_update: "i < length ls \<Longrightarrow> all_uses (ls[i := lg]) p + uses (ls ! i) p = all_uses ls p + uses lg p"
proof (induction ls arbitrary: i)
  case (Cons a ls)
  then show ?case by (cases i) auto
qed simp

lemma uses_moved [simp]: "uses moved_logger p = 0"
  by (simp add: uses_def moved_logger_def)

lemma decrement_logger_ok:
  assumes "loggers_ok w ls" "lg \<in> set ls"
  shows "\<exists>w'. client_logger_destroy lg w = Some w' \<and> counted w' (\<lambda>p. all_uses ls p - uses lg p) \<and>
    same_streams (\<lambda>p. all_uses ls p - uses lg p) w w'"
  using decrement_all_ok [of w "all_uses ls" "map fst (cl_streams lg)"] assms all_uses_ge [OF assms(2)]
  by (simp add: loggers_ok_def client_logger_destroy_def uses_def)

lemma points_all_kept:
  assumes "loggers_ok w ls" "same_streams u w w'" "\<And>p. uses lg p \<le> u p" "lg \<in> set ls"
  shows "points w' lg"
proof (rule points_kept [OF _ assms(2)])
  show "points w lg" using assms(1,4) by (simp add: loggers_ok_def)
  show "0 < u p" if "p \<in> fst ` set (cl_streams lg)" for p
    using that uses_pos [of lg p] assms(3) [of p] by simp
qed

lemma destroy_kept:
  assumes ok: "loggers_ok w (xs @ lg # ys)" and d: "client_logger_destroy lg w = Some w'"
  shows "loggers_ok w' (xs @ ys)"
proof -
  have e: "(\<lambda>p. all_uses (xs @ lg # ys) p - uses lg p) = all_uses (xs @ ys)" by auto
  have k: "counted w' (all_uses (xs @ ys))" "same_streams (all_uses (xs @ ys)) w w'"
    using decrement_logger_ok [OF ok, of lg] d unfolding e by auto
  have "points w' l" if "l \<in> set (xs @ ys)" for l
    by (rule points_all_kept [OF ok k(2) all_uses_ge [OF that]]) (use that in auto)
  then show ?thesis using k(1) ok by (auto simp: loggers_ok_def)
qed

lemma copy_ok:
  assumes c: "counted w u" and pt: "points w lg" and one: "\<And>p. uses lg p \<le> 1"
    and room: "\<And>p. u p + 1 < 2 ^ 64" and used: "\<And>p. uses lg p \<le> u p"
  shows "counted (snd (client_logger_copy lg w)) (\<lambda>p. u p + uses lg p) \<and> same_streams u w (snd (client_logger_copy lg w)) \<and>
    points (snd (client_logger_copy lg w)) lg"
proof -
  let ?w = "fold (\<lambda>r. count_user (fst r)) (cl_streams lg) w"
  have pos: "0 < u p" if "p \<in> fst ` set (cl_streams lg)" for p
    using that used [of p] uses_pos [of lg p] by simp
  have "counted ?w (\<lambda>p. u p + uses lg p) \<and> same_streams u w ?w" unfolding uses_def
  proof (rule count_users_ok [OF c])
    show "u p + count_list (map fst (cl_streams lg)) p < 2 ^ 64" for p
      using room [of p] one [of p] by (simp add: uses_def)
  qed (use pos in blast)
  moreover from this have "points ?w lg" using points_kept [OF pt] pos by blast
  ultimately show ?thesis by (simp add: client_logger_copy_def)
qed

lemma assign_kept:
  assumes ok: "loggers_ok w ls" and ij: "i < length ls" "j < length ls" "i \<noteq> j"
  shows "\<exists>w'. client_logger_assign (ls ! i) (ls ! j) w = Some (ls ! j, w') \<and> loggers_ok w' (ls[i := ls ! j])"
proof -
  have mem: "ls ! i \<in> set ls" "ls ! j \<in> set ls" using ij by simp_all
  let ?u = "\<lambda>p. all_uses ls p - uses (ls ! i) p"
  obtain w1 where w1: "client_logger_destroy (ls ! i) w = Some w1" "counted w1 ?u" "same_streams ?u w w1"
    using decrement_logger_ok [OF ok mem(1)] by blast
  have other: "uses l p \<le> ?u p" if "l \<in> set (ls[i := ls ! j])" for l p
  proof -
    have "all_uses (ls[i := moved_logger]) p = ?u p"
      using all_uses_update [OF ij(1), of moved_logger p] by simp
    moreover have "l \<in> set (ls[i := moved_logger])"
    proof -
      obtain k where k: "k < length ls" "l = (ls[i := ls ! j]) ! k" using \<open>l \<in> _\<close> by (metis in_set_conv_nth length_list_update)
      show ?thesis
      proof (cases "k = i")
        case True
        then show ?thesis using k ij by (metis length_list_update nth_list_update_eq nth_list_update_neq nth_mem)
      next
        case False
        then show ?thesis using k by (metis length_list_update nth_list_update_neq nth_mem)
      qed
    qed
    ultimately show ?thesis using all_uses_ge [of l "ls[i := moved_logger]" p] by simp
  qed
  have old: "l \<in> set ls" if "l \<in> set (ls[i := ls ! j])" for l
    using that mem set_update_subset_insert [of ls i "ls ! j"] by auto
  have pt1: "points w1 l" if "l \<in> set (ls[i := ls ! j])" for l
    by (rule points_all_kept [OF ok w1(3) other [OF that] old [OF that]])
  have jm: "ls ! j \<in> set (ls[i := ls ! j])" using ij by (metis length_list_update nth_list_update_eq nth_mem)
  have one: "uses l p \<le> 1" if "l \<in> set ls" for l p using ok that by (simp add: loggers_ok_def)
  have room: "?u p + 1 < 2 ^ 64" for p
  proof -
    have "?u p \<le> length ls" using all_uses_le [of ls p] one by (meson diff_le_self le_trans)
    also have "\<dots> \<le> 2 ^ 63" using ok by (simp add: loggers_ok_def)
    finally show ?thesis by simp
  qed
  let ?w = "snd (client_logger_copy (ls ! j) w1)"
  from copy_ok [OF w1(2) pt1 [OF jm] one [OF mem(2)] room other [OF jm]]
  have c: "counted ?w (\<lambda>p. ?u p + uses (ls ! j) p)" "same_streams ?u w1 ?w" "points ?w (ls ! j)" by blast+
  have "(\<lambda>p. ?u p + uses (ls ! j) p) = all_uses (ls[i := ls ! j])"
  proof
    fix p
    show "?u p + uses (ls ! j) p = all_uses (ls[i := ls ! j]) p"
      using all_uses_update [OF ij(1), of "ls ! j" p] all_uses_ge [OF mem(1), of p] by simp
  qed
  then have "counted ?w (all_uses (ls[i := ls ! j]))" using c(1) by simp
  moreover have "points ?w l" if "l \<in> set (ls[i := ls ! j])" for l
    by (rule points_kept [OF pt1 [OF that] c(2)]) (metis less_le_trans other that uses_pos)
  ultimately have "loggers_ok ?w (ls[i := ls ! j])" using ok one old by (auto simp: loggers_ok_def)
  moreover have "client_logger_assign (ls ! i) (ls ! j) w = Some (ls ! j, ?w)"
    using w1(1) by (simp add: client_logger_assign_def client_logger_destroy_def client_logger_copy_def)
  ultimately show ?thesis by blast
qed

lemma set_update: "l \<in> set (ls[i := x]) \<Longrightarrow> l = x \<or> l \<in> set ls"
  using set_update_subset_insert [of ls i x] by blast

lemma points_moved [simp]: "points w moved_logger"
  by (simp add: points_def moved_logger_def)

lemma log_kept:
  assumes ok: "loggers_ok w ls" and lg: "lg \<in> set ls" and dt: "11 \<le> length datetime"
  shows "\<exists>w'. client_log datetime lg message sev w = Some w' \<and> loggers_ok w' ls"
proof -
  have c: "counted w (all_uses ls)" "points w lg" using ok lg by (auto simp: loggers_ok_def)
  have pt: "if p = [] then st = Console else 0 < all_uses ls p \<and> (\<exists>n. lw_all w p = Some (st, n))"
    if r: "(p, st, sevs) \<in> set (cl_streams lg)" for p st sevs
  proof -
    have "0 < uses lg p" using r uses_pos [of lg p] by force
    then show ?thesis using c(2) r all_uses_ge [OF lg, of p] by (fastforce simp: points_def)
  qed
  obtain w' where "client_log datetime lg message sev w = Some w'" "counted w' (all_uses ls)" "lw_all w' = lw_all w"
    using log_streams_ok [OF c(1) dt, of "cl_streams lg" message sev "cl_format lg"] pt by (auto simp: client_log_def)
  then show ?thesis using ok points_same [of w _ w'] by (auto simp: loggers_ok_def)
qed

lemma loggers_run_ok: "loggers_run w ls \<Longrightarrow> loggers_ok w ls"
proof (induction rule: loggers_run.induct)
  case (run_start fs)
  then show ?case by (simp add: loggers_ok_def counted_def log_world_new_def)
next
  case (run_new w ls conf fmt lg w')
  let ?e = "\<lparr>cl_format = fmt, cl_streams = []\<rparr>"
  have ok: "loggers_ok w ls" by (rule run_new.IH)
  have room: "all_uses ls p + 1 < 2 ^ 64" for p
    using all_uses_le [of ls p] ok by (auto simp: loggers_ok_def)
  have "counted w (\<lambda>p. all_uses ls p + uses ?e p)" using ok by (simp add: loggers_ok_def uses_def)
  moreover have "points w ?e" by (simp add: points_def)
  ultimately have k: "same_streams (all_uses ls) w w'" "counted w' (\<lambda>p. all_uses ls p + uses lg p)" "points w' lg" "\<forall>p. uses lg p \<le> 1"
    using open_streams_ok [of w "all_uses ls" ?e "[]" conf] run_new(2,4) room by (auto simp: client_logger_new_def uses_def)
  have "all_uses (lg # ls) = (\<lambda>p. all_uses ls p + uses lg p)" by auto
  moreover have "points w' l" if "l \<in> set ls" for l
    by (rule points_all_kept [OF ok k(1) all_uses_ge [OF that] that])
  ultimately show ?case using ok k run_new(3) by (auto simp: loggers_ok_def)
next
  case (run_refused w ls conf fmt e w')
  let ?e = "\<lparr>cl_format = fmt, cl_streams = []\<rparr>"
  have ok: "loggers_ok w ls" by (rule run_refused.IH)
  have room: "all_uses ls p + 1 < 2 ^ 64" for p
    using all_uses_le [of ls p] ok by (auto simp: loggers_ok_def)
  have "counted w (\<lambda>p. all_uses ls p + uses ?e p)" using ok by (simp add: loggers_ok_def uses_def)
  moreover have "points w ?e" by (simp add: points_def)
  ultimately have k: "same_streams (all_uses ls) w w'" "counted w' (all_uses ls)"
    using open_streams_ok [of w "all_uses ls" ?e "[]" conf] run_refused(2,3) room by (auto simp: client_logger_new_def uses_def)
  have "points w' l" if "l \<in> set ls" for l
    by (rule points_all_kept [OF ok k(1) all_uses_ge [OF that] that])
  then show ?case using ok k by (auto simp: loggers_ok_def)
next
  case (run_copy w ls lg lg' w')
  have ok: "loggers_ok w ls" by (rule run_copy.IH)
  have room: "all_uses ls p + 1 < 2 ^ 64" for p
    using all_uses_le [of ls p] ok by (auto simp: loggers_ok_def)
  have l: "counted w (all_uses ls)" "points w lg" "\<And>p. uses lg p \<le> 1" using ok run_copy(2) by (auto simp: loggers_ok_def)
  have e: "lg' = lg" "snd (client_logger_copy lg w) = w'" using run_copy(4) by (auto simp: client_logger_copy_def)
  from copy_ok [OF l room all_uses_ge [OF run_copy(2)]] have k: "counted w' (\<lambda>p. all_uses ls p + uses lg p)"
      "same_streams (all_uses ls) w w'" "points w' lg" unfolding e by blast+
  have "all_uses (lg # ls) = (\<lambda>p. all_uses ls p + uses lg p)" by auto
  moreover have "points w' l" if "l \<in> set ls" for l
    by (rule points_all_kept [OF ok k(2) all_uses_ge [OF that] that])
  ultimately show ?case using ok k l(3) run_copy(3) by (auto simp: loggers_ok_def e)
next
  case (run_assign w ls i j lg' w')
  then show ?case using assign_kept [OF run_assign.IH run_assign(2-4)] by auto
next
  case (run_move w ls i lg rest)
  have e: "lg = ls ! i" "rest = moved_logger" using run_move(4) by (auto simp: client_logger_move_def)
  have ok: "loggers_ok w ls" by (rule run_move.IH)
  have "all_uses (lg # ls[i := rest]) = all_uses ls"
    using all_uses_update [OF run_move(2), of moved_logger] by (auto simp: e add.commute)
  then show ?case using ok run_move(2,3) by (auto simp: loggers_ok_def e dest!: set_update)
next
  case (run_move_assign w ls i j lg rest w')
  have ok: "loggers_ok w ls" by (rule run_move_assign.IH)
  have e: "lg = ls ! j" "rest = moved_logger" "client_logger_destroy (ls ! i) w = Some w'"
    using run_move_assign(5) by (auto simp: client_logger_move_assign_def client_logger_destroy_def)
  let ?ls = "ls[i := lg, j := rest]"
  have mem: "ls ! i \<in> set ls" using run_move_assign(2) by simp
  have "all_uses ?ls p = all_uses ls p - uses (ls ! i) p" for p
    using all_uses_update [of j "ls[i := lg]" moved_logger p] all_uses_update [of i ls lg p] run_move_assign(2-4)
    by (simp add: e)
  then have u: "(\<lambda>p. all_uses ls p - uses (ls ! i) p) = all_uses ?ls" by auto
  have k: "counted w' (all_uses ?ls)" "same_streams (all_uses ?ls) w w'"
    using decrement_logger_ok [OF ok mem] e(3) unfolding u by auto
  have "points w' l \<and> (\<forall>p. uses l p \<le> 1)" if l: "l \<in> set ?ls" for l
  proof (cases "l = moved_logger")
    case False
    then have o: "l \<in> set ls" using l e(1,2) run_move_assign(3) by (auto dest!: set_update)
    then show ?thesis using points_all_kept [OF ok k(2) all_uses_ge [OF l]] ok by (auto simp: loggers_ok_def)
  qed simp
  then show ?case using k(1) ok by (simp add: loggers_ok_def)
next
  case (run_destroy w xs lg ys w')
  then show ?case using destroy_kept by blast
next
  case (run_log w ls lg datetime message sev w')
  from log_kept [OF run_log.IH run_log(2,3), of message sev] run_log(4) show ?case by auto
qed

lemma map_iff_used:
  assumes "loggers_ok w ls" "p \<noteq> []"
  shows "lw_all w p \<noteq> None \<longleftrightarrow> (\<exists>lg \<in> set ls. p \<in> fst ` set (cl_streams lg))"
proof -
  have c: "counted w (all_uses ls)" using assms(1) by (simp add: loggers_ok_def)
  have "all_uses ls p = 0 \<longleftrightarrow> (\<forall>lg \<in> set ls. uses lg p = 0)" by (auto simp: all_uses_def)
  then have "0 < all_uses ls p \<longleftrightarrow> (\<exists>lg \<in> set ls. p \<in> fst ` set (cl_streams lg))"
    using uses_pos [of _ p] by (metis gr0I less_not_refl)
  moreover have "lw_all w p \<noteq> None \<longleftrightarrow> 0 < all_uses ls p"
    using counted_other [OF c assms(2)] countedD [OF c assms(2)] by (metis gr0I option.distinct(1))
  ultimately show ?thesis by (simp only:)
qed

lemma heap_iff_map:
  assumes "loggers_ok w ls"
  shows "lw_heap w i \<noteq> None \<longleftrightarrow> (\<exists>p n. p \<noteq> [] \<and> lw_all w p = Some (File_stream i, n))"
proof
  have c: "counted w (all_uses ls)" using assms by (simp add: loggers_ok_def)
  show "lw_heap w i \<noteq> None \<Longrightarrow> \<exists>p n. p \<noteq> [] \<and> lw_all w p = Some (File_stream i, n)"
    using heap_counted [OF c] by blast
  assume "\<exists>p n. p \<noteq> [] \<and> lw_all w p = Some (File_stream i, n)"
  then obtain p n where p: "p \<noteq> []" "lw_all w p = Some (File_stream i, n)" by blast
  then have "0 < all_uses ls p" using counted_other [OF c p(1)] by (cases "all_uses ls p") auto
  from countedD [OF c p(1) this] show "lw_heap w i \<noteq> None" using p(2) by auto
qed

end
