(* ===== verification/Logging_Server.thy ===== *)
theory Logging_Server
  imports Loggers Ipc_Data
begin

text \<open>
  The server logger and its builder, and the logging server that \<open>linux_logging_server.cpp\<close> runs. The server
  logger cuts a text into packets of at most 1024 characters, which the server puts together again in a file of
  the sending process. The numbers of processes are positive. The lock of the loggers of one process
  is left out, and so is a queue that takes no more messages.
\<close>

section \<open>Packets\<close>

record log_msg =
  lm_type :: int
  lm_pid :: nat
  lm_packet_id :: "64 word"
  lm_packet_cnt :: "64 word"
  lm_path :: string
  lm_severity :: int
  lm_text :: string

definition MAX_MSG_TEXT_SIZE :: nat where "MAX_MSG_TEXT_SIZE = 1024"
definition SHUTDOWN_PRIOR :: int where "SHUTDOWN_PRIOR = 1"
definition LOG_PRIOR :: int where "LOG_PRIOR = 2"

fun severity_code :: "severity \<Rightarrow> int" where
  "severity_code Sev_trace = 0"
| "severity_code Sev_debug = 1"
| "severity_code Sev_information = 2"
| "severity_code Sev_warning = 3"
| "severity_code Sev_error = 4"
| "severity_code Sev_critical = 5"

text \<open>
  The packets of one text. A packet of 1024 characters is copied with its end into an array of 1024; the end lies
  in the padding of the structure behind the array, where the receiver finds it.
\<close>

definition log_packets :: "nat \<Rightarrow> string \<Rightarrow> string \<Rightarrow> severity \<Rightarrow> log_msg list" where
  "log_packets proc path message sev =
     (let packet_cnt = (length message + (MAX_MSG_TEXT_SIZE - 1)) div MAX_MSG_TEXT_SIZE in
      map (\<lambda>i. \<lparr>lm_type = LOG_PRIOR, lm_pid = proc, lm_packet_id = of_nat (i + 1), lm_packet_cnt = of_nat packet_cnt,
                lm_path = path, lm_severity = severity_code sev,
                lm_text = c_str (take MAX_MSG_TEXT_SIZE (drop (i * MAX_MSG_TEXT_SIZE) message))\<rparr>)
        [0..<packet_cnt])"

text \<open>\<open>server_logger::log\<close>: the messages it sends. \<open>None\<close> is a path that does not fit into its array.\<close>

fun server_log :: "nat \<Rightarrow> log_config \<Rightarrow> string \<Rightarrow> severity \<Rightarrow> log_msg list option" where
  "server_log proc [] message sev = Some []"
| "server_log proc ((file_path, severities) # conf) message sev =
     (if sev \<in> severities then do {
        path \<leftarrow> strcpy 256 file_path;
        rest \<leftarrow> server_log proc conf message sev;
        Some (log_packets proc path message sev @ rest)
      }
      else server_log proc conf message sev)"

definition server_builder_build :: "logger_builder \<Rightarrow> log_config" where
  "server_builder_build b = lb_config b"

section \<open>The server\<close>

text \<open>The streams by their paths; a stream that is not open or has failed takes nothing.\<close>

record log_server =
  ls_fs :: file_system
  ls_streams :: "string \<Rightarrow> bool option"
  ls_out :: string
  ls_err :: string

definition decode_severity :: "int \<Rightarrow> string" where
  "decode_severity code =
     (if code = 0 then ''TRACE'' else if code = 1 then ''DEBUG'' else if code = 2 then ''INFORMATION''
      else if code = 3 then ''WARNING'' else if code = 4 then ''ERROR'' else if code = 5 then ''CRITICAL''
      else ''UNKNOWN'')"

text \<open>\<open>streams[path] << bytes\<close>, where the path may be new.\<close>

definition stream_write :: "string \<Rightarrow> string \<Rightarrow> log_server \<Rightarrow> log_server" where
  "stream_write path bytes s =
     (if ls_streams s path = Some True then
        (case fs_append (ls_fs s) path bytes of
           None \<Rightarrow> s\<lparr>ls_streams := (ls_streams s)(path \<mapsto> False)\<rparr>
         | Some fs \<Rightarrow> s\<lparr>ls_fs := fs\<rparr>)
      else s\<lparr>ls_streams := (ls_streams s)(path \<mapsto> False)\<rparr>)"

definition log_stream_write :: "string \<Rightarrow> string \<Rightarrow> log_server \<Rightarrow> log_server" where
  "log_stream_write path bytes s =
     (if path = [] then s\<lparr>ls_out := ls_out s @ bytes\<rparr> else stream_write path bytes s)"

definition open_log_stream :: "string \<Rightarrow> log_server \<Rightarrow> log_server" where
  "open_log_stream path s =
     (if path \<noteq> [] \<and> ls_streams s path = None then
        (case fs_open_append (ls_fs s) path of
           None \<Rightarrow> s\<lparr>ls_streams := (ls_streams s)(path \<mapsto> False),
                     ls_err := ls_err s @ ''File `'' @ path @ ''` cannot be opened'' @ [CHR 0x0A]\<rparr>
         | Some fs \<Rightarrow> s\<lparr>ls_fs := fs, ls_streams := (ls_streams s)(path \<mapsto> True)\<rparr>)
      else s)"

definition tmp_file :: "nat \<Rightarrow> string" where
  "tmp_file proc = ''tmp_file_'' @ show_nat proc"

definition restart_tmp :: "string \<Rightarrow> log_server \<Rightarrow> log_server" where
  "restart_tmp tmp s =
     (case fs_open_trunc (ls_fs s) tmp of
        None \<Rightarrow> s\<lparr>ls_streams := (ls_streams s)(tmp \<mapsto> False)\<rparr>
      | Some fs \<Rightarrow> s\<lparr>ls_fs := fs, ls_streams := (ls_streams s)(tmp \<mapsto> True)\<rparr>)"

definition log_line :: "int \<Rightarrow> string \<Rightarrow> string" where
  "log_line code message = ''['' @ decode_severity code @ ''] '' @ message @ [CHR 0x0A]"

text \<open>One round of the loop of \<open>main\<close>, for a message that does not shut the server down.\<close>

definition log_round :: "log_msg \<Rightarrow> log_server \<Rightarrow> log_server" where
  "log_round msg s =
     (let s1 = open_log_stream (lm_path msg) s in
      if lm_packet_cnt msg = 1 then log_stream_write (lm_path msg) (log_line (lm_severity msg) (lm_text msg)) s1
      else
        let tmp = tmp_file (lm_pid msg);
            s2 = (if lm_packet_id msg = 1 then restart_tmp tmp s1 else s1);
            s3 = stream_write tmp (lm_text msg) s2 in
        if lm_packet_id msg = lm_packet_cnt msg then
          (case fs_open_read (ls_fs s3) tmp of
             None \<Rightarrow> s3
           | Some bytes \<Rightarrow> log_stream_write (lm_path msg) (log_line (lm_severity msg) bytes) s3)
        else s3)"

text \<open>The loop; the flag tells whether the server has shut down.\<close>

fun log_serve :: "log_msg list \<Rightarrow> log_server \<Rightarrow> log_server \<times> bool" where
  "log_serve [] s = (s, False)"
| "log_serve (msg # ms) s =
     (if lm_type msg = SHUTDOWN_PRIOR then (s, True) else log_serve ms (log_round msg s))"

text \<open>The thread that reads the terminal: whether it sends the message that shuts the server down.\<close>

definition terminal_reader :: "string list \<Rightarrow> bool" where
  "terminal_reader cmds = (''shutdown'' \<in> set cmds)"

end
