(* ===== verification/Logging_Correct.thy ===== *)
theory Logging_Correct
  imports Logging_Server Arena
begin

text \<open>
  Whatever way the packets of several processes mix in the queue, the logging server writes every text whole.
\<close>

section \<open>Pieces\<close>

definition packet_count :: "string \<Rightarrow> nat" where
  "packet_count message = (length message + (MAX_MSG_TEXT_SIZE - 1)) div MAX_MSG_TEXT_SIZE"

definition piece :: "string \<Rightarrow> nat \<Rightarrow> string" where
  "piece message i = take MAX_MSG_TEXT_SIZE (drop (i * MAX_MSG_TEXT_SIZE) message)"

lemma concat_pieces: "concat (map (piece message) [0..<i]) = take (i * MAX_MSG_TEXT_SIZE) message"
proof (induction i)
  case (Suc i)
  have "take (Suc i * MAX_MSG_TEXT_SIZE) message = take (i * MAX_MSG_TEXT_SIZE) message @ piece message i"
    using take_add [of "i * MAX_MSG_TEXT_SIZE" MAX_MSG_TEXT_SIZE message] by (simp add: piece_def add.commute)
  then show ?case using Suc by simp
qed simp

lemma packet_count_bound: "length message \<le> packet_count message * MAX_MSG_TEXT_SIZE"
  by (simp add: packet_count_def MAX_MSG_TEXT_SIZE_def)

lemma all_pieces: "concat (map (piece message) [0..<packet_count message]) = message"
  using packet_count_bound by (simp add: concat_pieces)

lemma packet_count_0: "packet_count message = 0 \<longleftrightarrow> message = []"
  by (auto simp: packet_count_def MAX_MSG_TEXT_SIZE_def div_eq_0_iff)

lemma packet_count_le: "packet_count message \<le> length message"
  by (cases "length message") (auto simp: packet_count_def MAX_MSG_TEXT_SIZE_def)

lemma piece_plain: "CHR 0x00 \<notin> set message \<Longrightarrow> c_str (piece message i) = piece message i"
  by (rule c_str_plain) (auto simp: piece_def dest: in_set_takeD in_set_dropD)

definition packet :: "nat \<Rightarrow> string \<Rightarrow> string \<Rightarrow> severity \<Rightarrow> nat \<Rightarrow> log_msg" where
  "packet proc path message sev i =
     \<lparr>lm_type = LOG_PRIOR, lm_pid = proc, lm_packet_id = of_nat (i + 1), lm_packet_cnt = of_nat (packet_count message),
      lm_path = path, lm_severity = severity_code sev, lm_text = piece message i\<rparr>"

lemma packet_sel:
  "lm_type (packet proc path message sev i) = LOG_PRIOR" "lm_pid (packet proc path message sev i) = proc"
  "lm_packet_id (packet proc path message sev i) = of_nat (i + 1)"
  "lm_packet_cnt (packet proc path message sev i) = of_nat (packet_count message)"
  "lm_path (packet proc path message sev i) = path" "lm_severity (packet proc path message sev i) = severity_code sev"
  "lm_text (packet proc path message sev i) = piece message i"
  by (simp_all add: packet_def)

lemma log_packets_eq:
  "CHR 0x00 \<notin> set message \<Longrightarrow> log_packets proc path message sev = map (packet proc path message sev) [0..<packet_count message]"
  unfolding log_packets_def Let_def packet_count_def [symmetric]
  by (simp add: packet_def piece_plain [unfolded piece_def] piece_def)

section \<open>Files\<close>

definition log_content :: "log_server \<Rightarrow> string \<Rightarrow> string" where
  "log_content s p = (if p = [] then ls_out s else case fs_open_read (ls_fs s) p of None \<Rightarrow> [] | Some b \<Rightarrow> b)"

definition openable :: "file_system \<Rightarrow> string \<Rightarrow> bool" where
  "openable fs p =
     (case fs_lookup fs p of Some Dir \<Rightarrow> False | Some (File b) \<Rightarrow> True | None \<Rightarrow> parent_ok fs p)"

definition takes_lines :: "log_server \<Rightarrow> string \<Rightarrow> bool" where
  "takes_lines s p \<longleftrightarrow> p = [] \<or> openable (ls_fs s) p \<and>
     (ls_streams s p = None \<or> ls_streams s p = Some True \<and> fs_open_read (ls_fs s) p \<noteq> None)"

definition log_ready :: "string set \<Rightarrow> log_server \<Rightarrow> bool" where
  "log_ready P s \<longleftrightarrow> \<not> fs_full (ls_fs s) \<and> (\<forall>p \<in> P. takes_lines s p) \<and>
     (\<forall>proc. tmp_file proc \<notin> P \<and> openable (ls_fs s) (tmp_file proc))"

lemma openable_not_dir: "openable fs p \<Longrightarrow> fs_lookup fs p \<noteq> Some Dir"
  by (auto simp: openable_def)

lemma openable_put:
  assumes "openable fs p" "fs_lookup fs q \<noteq> Some Dir"
  shows "openable (fs_put fs q (File b)) p"
proof -
  have "parent_ok fs p \<Longrightarrow> parent_ok (fs_put fs q (File b)) p"
    using assms(2) by (auto simp: parent_ok_def split: option.splits)
  then show ?thesis using assms(1) by (auto simp: openable_def split: option.splits fs_entry.splits)
qed

lemma open_append_openable:
  assumes "openable fs p" "\<not> fs_full fs"
  shows "\<exists>fs'. fs_open_append fs p = Some fs' \<and> fs_open_read fs' p \<noteq> None \<and>
    (case fs_open_read fs' p of None \<Rightarrow> [] | Some b \<Rightarrow> b) = (case fs_open_read fs p of None \<Rightarrow> [] | Some b \<Rightarrow> b) \<and>
    (\<exists>b. fs' = fs \<or> fs' = fs_put fs p (File b))"
  using assms by (auto simp: openable_def fs_open_append_def fs_open_read_def split: option.splits fs_entry.splits)

lemma tmp_file_inj: "tmp_file i = tmp_file j \<longleftrightarrow> i = j"
  using nat_of_show_nat by (metis append_same_eq same_append_eq tmp_file_def)

lemma tmp_file_not_Nil [simp]: "tmp_file proc \<noteq> []"
  by (simp add: tmp_file_def)

text \<open>From \<open>s\<close> to \<open>s'\<close> only the files and streams of \<open>X\<close> change; the empty path is the console.\<close>

definition only_at :: "string set \<Rightarrow> log_server \<Rightarrow> log_server \<Rightarrow> bool" where
  "only_at X s s' \<longleftrightarrow> (\<forall>q. q \<notin> X \<longrightarrow> fs_lookup (ls_fs s') q = fs_lookup (ls_fs s) q \<and> ls_streams s' q = ls_streams s q) \<and>
     ([] \<notin> X \<longrightarrow> ls_out s' = ls_out s)"

lemma only_at_refl [simp]: "only_at X s s"
  by (simp add: only_at_def)

lemma only_at_trans: "only_at X s s' \<Longrightarrow> only_at Y s' s'' \<Longrightarrow> X \<subseteq> Z \<Longrightarrow> Y \<subseteq> Z \<Longrightarrow> only_at Z s s''"
  unfolding only_at_def by (metis subset_iff)

lemma only_at_read: "only_at X s s' \<Longrightarrow> q \<notin> X \<Longrightarrow> fs_open_read (ls_fs s') q = fs_open_read (ls_fs s) q"
  by (simp add: only_at_def fs_open_read_def)

lemma only_at_content: "only_at X s s' \<Longrightarrow> q \<notin> X \<Longrightarrow> log_content s' q = log_content s q"
  using only_at_read [of X s s' q] by (auto simp: only_at_def log_content_def)

text \<open>A file that may be opened is put.\<close>

lemma log_ready_put:
  assumes r: "log_ready P s" and q: "openable (ls_fs s) q" and s': "ls_fs s' = fs_put (ls_fs s) q (File b)"
    "\<And>p. p \<in> P \<Longrightarrow> p \<noteq> [] \<Longrightarrow> ls_streams s' p = ls_streams s p \<or> p = q \<and> ls_streams s' p = Some True"
  shows "log_ready P s'"
proof -
  have d: "fs_lookup (ls_fs s) q \<noteq> Some Dir" using q by (rule openable_not_dir)
  have "takes_lines s' p" if p: "p \<in> P" for p
  proof (cases "p = []")
    case False
    then have t: "openable (ls_fs s) p" "ls_streams s p = None \<or> ls_streams s p = Some True \<and> fs_open_read (ls_fs s) p \<noteq> None"
      using r p by (auto simp: log_ready_def takes_lines_def)
    then show ?thesis using openable_put [OF t(1) d] s'(2) [OF p False] False
      by (auto simp: takes_lines_def s'(1))
  qed (simp add: takes_lines_def)
  then show ?thesis using r openable_put [OF _ d] by (simp add: log_ready_def s'(1))
qed

lemma open_log_stream_ok:
  assumes r: "log_ready P s" and p: "p \<in> P"
  shows "log_ready P (open_log_stream p s) \<and> only_at {p} s (open_log_stream p s) \<and>
    log_content (open_log_stream p s) p = log_content s p \<and>
    (p \<noteq> [] \<longrightarrow> ls_streams (open_log_stream p s) p = Some True \<and> fs_open_read (ls_fs (open_log_stream p s)) p \<noteq> None)"
proof (cases "p \<noteq> [] \<and> ls_streams s p = None")
  case True
  then have o: "openable (ls_fs s) p" "\<not> fs_full (ls_fs s)" using r p by (auto simp: log_ready_def takes_lines_def)
  obtain fs b where fs: "fs_open_append (ls_fs s) p = Some fs" "fs_open_read fs p \<noteq> None"
      "(case fs_open_read fs p of None \<Rightarrow> [] | Some b \<Rightarrow> b) = (case fs_open_read (ls_fs s) p of None \<Rightarrow> [] | Some b \<Rightarrow> b)"
      "fs = ls_fs s \<or> fs = fs_put (ls_fs s) p (File b)"
    using open_append_openable [OF o] by blast
  let ?s = "s\<lparr>ls_fs := fs, ls_streams := (ls_streams s)(p \<mapsto> True)\<rparr>"
  have run: "open_log_stream p s = ?s" using True fs(1) by (simp add: open_log_stream_def)
  have "log_ready P ?s"
  proof (cases "fs = ls_fs s")
    case same: True
    have "takes_lines ?s q" if "q \<in> P" for q
      using r that fs(2) o(1) by (auto simp: log_ready_def takes_lines_def same)
    then show ?thesis using r by (simp add: log_ready_def same)
  next
    case False
    then show ?thesis using fs(4) by (intro log_ready_put [OF r o(1)]) auto
  qed
  moreover have "only_at {p} s ?s" using fs(4) by (auto simp: only_at_def)
  moreover have "log_content ?s p = log_content s p" using fs(3) True by (simp add: log_content_def)
  ultimately show ?thesis using fs(2) unfolding run by simp
next
  case False
  then show ?thesis using r p by (auto simp: open_log_stream_def log_ready_def takes_lines_def)
qed

text \<open>A write to an open file.\<close>

lemma stream_write_ok:
  assumes r: "log_ready P s" and q: "q \<noteq> []" "ls_streams s q = Some True" "fs_open_read (ls_fs s) q = Some b"
  shows "log_ready P (stream_write q bytes s) \<and> only_at {q} s (stream_write q bytes s) \<and>
    ls_streams (stream_write q bytes s) q = Some True \<and> fs_open_read (ls_fs (stream_write q bytes s)) q = Some (b @ bytes)"
proof -
  have "fs_append (ls_fs s) q bytes = Some (fs_put (ls_fs s) q (File (b @ bytes)))"
    using r q(3) by (simp add: log_ready_def fs_append_def)
  then have run: "stream_write q bytes s = s\<lparr>ls_fs := fs_put (ls_fs s) q (File (b @ bytes))\<rparr>"
    using q(2) by (simp add: stream_write_def)
  have "openable (ls_fs s) q" using q(3) by (auto simp: fs_open_read_def openable_def split: option.splits fs_entry.splits)
  then have "log_ready P (stream_write q bytes s)" unfolding run by (intro log_ready_put [OF r]) auto
  then show ?thesis using q(2) unfolding run by (simp add: only_at_def)
qed

lemma log_stream_write_ok:
  assumes r: "log_ready P s" and p: "p \<noteq> [] \<longrightarrow> ls_streams s p = Some True \<and> fs_open_read (ls_fs s) p \<noteq> None"
  shows "log_ready P (log_stream_write p bytes s) \<and> only_at {p} s (log_stream_write p bytes s) \<and>
    log_content (log_stream_write p bytes s) p = log_content s p @ bytes"
proof (cases "p = []")
  case True
  then show ?thesis using r by (simp add: log_stream_write_def log_ready_def takes_lines_def only_at_def log_content_def)
next
  case False
  then obtain b where "fs_open_read (ls_fs s) p = Some b" "ls_streams s p = Some True" using p by auto
  then show ?thesis using stream_write_ok [OF r False] False by (simp add: log_stream_write_def log_content_def)
qed

lemma restart_tmp_ok:
  assumes r: "log_ready P s"
  shows "log_ready P (restart_tmp (tmp_file proc) s) \<and> only_at {tmp_file proc} s (restart_tmp (tmp_file proc) s) \<and>
    ls_streams (restart_tmp (tmp_file proc) s) (tmp_file proc) = Some True \<and>
    fs_open_read (ls_fs (restart_tmp (tmp_file proc) s)) (tmp_file proc) = Some []"
proof -
  let ?t = "tmp_file proc"
  have o: "openable (ls_fs s) ?t" "\<not> fs_full (ls_fs s)" "?t \<notin> P" using r by (auto simp: log_ready_def)
  obtain fs b where fs: "fs_open_append (ls_fs s) ?t = Some fs" "fs = ls_fs s \<or> fs = fs_put (ls_fs s) ?t (File b)"
    using open_append_openable [OF o(1,2)] by blast
  have lk: "q \<noteq> ?t \<Longrightarrow> fs_lookup fs q = fs_lookup (ls_fs s) q" for q
    using fs(2) by auto
  let ?s = "s\<lparr>ls_fs := fs_put fs ?t (File []), ls_streams := (ls_streams s)(?t \<mapsto> True)\<rparr>"
  have run: "restart_tmp ?t s = ?s" using fs(1) by (simp add: restart_tmp_def fs_open_trunc_def)
  have r1: "log_ready P (s\<lparr>ls_fs := fs\<rparr>)"
  proof (cases "fs = ls_fs s")
    case True
    then show ?thesis using r by (simp add: log_ready_def takes_lines_def)
  next
    case False
    then show ?thesis using fs(2) by (intro log_ready_put [OF r o(1)]) auto
  qed
  have "log_ready P ?s"
    by (rule log_ready_put [OF r1, of ?t _ "[]"]) (use r1 o(3) in \<open>auto simp: log_ready_def\<close>)
  moreover have "only_at {?t} s ?s" using lk by (simp add: only_at_def)
  ultimately show ?thesis unfolding run by simp
qed

section \<open>Rounds\<close>

text \<open>The first \<open>i\<close> packets of a text of the process are in its file.\<close>

definition received :: "log_server \<Rightarrow> nat \<Rightarrow> string \<Rightarrow> nat \<Rightarrow> bool" where
  "received s proc message i \<longleftrightarrow> ls_streams s (tmp_file proc) = Some True \<and>
     fs_open_read (ls_fs s) (tmp_file proc) = Some (concat (map (piece message) [0..<i]))"

lemma received_kept: "received s proc message i \<Longrightarrow> only_at X s s' \<Longrightarrow> tmp_file proc \<notin> X \<Longrightarrow> received s' proc message i"
  using only_at_read [of X s s'] by (simp add: received_def only_at_def)

lemma decode_severity_code: "decode_severity (severity_code sev) = severity_to_string sev"
  by (cases sev) (simp_all add: decode_severity_def)

definition log_text_line :: "severity \<Rightarrow> string \<Rightarrow> string" where
  "log_text_line sev message = ''['' @ severity_to_string sev @ ''] '' @ message @ [CHR 0x0A]"

lemma word_eq_small: "m < 2 ^ 64 \<Longrightarrow> n < 2 ^ 64 \<Longrightarrow> (of_nat m :: 64 word) = of_nat n \<longleftrightarrow> m = n"
  by (metis unat_of_nat_small)

lemma log_round_ok:
  fixes sev :: severity
  assumes r: "log_ready P s" and p: "path \<in> P" and i: "i < packet_count message" "packet_count message < 2 ^ 64"
    and got: "0 < i \<Longrightarrow> received s proc message i"
  defines "s' \<equiv> log_round (packet proc path message sev i) s"
  shows "log_ready P s' \<and> only_at {path, tmp_file proc} s s' \<and>
    (if i + 1 = packet_count message then log_content s' path = log_content s path @ log_text_line sev message
     else log_content s' path = log_content s path \<and> received s' proc message (i + 1))"
proof -
  let ?n = "packet_count message" and ?t = "tmp_file proc"
  define s1 where "s1 = open_log_stream path s"
  have t: "?t \<notin> P" "path \<noteq> ?t" using r p by (auto simp: log_ready_def)
  have s1: "log_ready P s1" "only_at {path} s s1" "log_content s1 path = log_content s path"
      "path \<noteq> [] \<longrightarrow> ls_streams s1 path = Some True \<and> fs_open_read (ls_fs s1) path \<noteq> None"
    using open_log_stream_ok [OF r p] unfolding s1_def by blast+
  have w: "(of_nat (i + 1) :: 64 word) = 1 \<longleftrightarrow> i = 0" "(of_nat ?n :: 64 word) = 1 \<longleftrightarrow> ?n = 1"
      "(of_nat (i + 1) :: 64 word) = of_nat ?n \<longleftrightarrow> i + 1 = ?n"
    using word_eq_small [of "i + 1" 1] word_eq_small [of ?n 1] word_eq_small [of "i + 1" ?n] i by simp_all
  show ?thesis
  proof (cases "?n = 1")
    case True
    then have "concat (map (piece message) [0..<1]) = message" using all_pieces [of message] by simp
    then have "piece message i = message" using True i(1) by simp
    then have run: "s' = log_stream_write path (log_text_line sev message) s1"
      using True i(1) by (simp add: s'_def log_round_def packet_def s1_def log_line_def log_text_line_def decode_severity_code)
    from log_stream_write_ok [OF s1(1,4), of "log_text_line sev message"]
    have k: "log_ready P s'" "only_at {path} s1 s'" "log_content s' path = log_content s1 path @ log_text_line sev message"
      unfolding run by blast+
    from only_at_trans [OF s1(2) k(2)] have "only_at {path, ?t} s s'" by simp
    then show ?thesis using k(1,3) s1(3) True i(1) by simp
  next
    case False
    define s2 where "s2 = (if i = 0 then restart_tmp ?t s1 else s1)"
    have s2: "log_ready P s2 \<and> only_at {?t} s1 s2 \<and> received s2 proc message i"
    proof (cases "i = 0")
      case True
      then show ?thesis using restart_tmp_ok [OF s1(1), of proc] by (simp add: s2_def received_def)
    next
      case False
      then show ?thesis using s1(1) received_kept [OF got s1(2)] t(2) by (simp add: s2_def)
    qed
    define s3 where "s3 = stream_write ?t (piece message i) s2"
    have s3: "log_ready P s3" "only_at {?t} s2 s3" "received s3 proc message (i + 1)"
      using stream_write_ok [of P s2 ?t "concat (map (piece message) [0..<i])" "piece message i"] s2
      by (simp_all add: s3_def received_def)
    have o3: "only_at {?t} s1 s3" using only_at_trans [of "{?t}" s1 s2 "{?t}" s3 "{?t}"] s2 s3(2) by simp
    then have o: "only_at {path, ?t} s s3" using only_at_trans [OF s1(2) o3] by simp
    have c: "log_content s3 path = log_content s path" using only_at_content [OF o3, of path] t(2) s1(3) by simp
    show ?thesis
    proof (cases "i + 1 = ?n")
      case True
      have "concat (map (piece message) [0..<i + 1]) = message" unfolding True by (rule all_pieces)
      then have read: "fs_open_read (ls_fs s3) ?t = Some message" using s3(3) by (simp only: received_def)
      have full: "(i + 1 = ?n) = True" using True by simp
      have line: "log_line (severity_code sev) message = log_text_line sev message"
        by (simp add: log_line_def log_text_line_def decode_severity_code)
      have run: "s' = log_stream_write path (log_text_line sev message) s3"
        by (simp only: s'_def log_round_def Let_def packet_sel s1_def [symmetric] w False if_False s2_def [symmetric]
            s3_def [symmetric] full if_True read option.case line)
      have "path \<noteq> [] \<longrightarrow> ls_streams s3 path = Some True \<and> fs_open_read (ls_fs s3) path \<noteq> None"
        using s1(4) only_at_read [OF o3, of path] o3 t(2) by (auto simp: only_at_def)
      from log_stream_write_ok [OF s3(1) this, of "log_text_line sev message"]
      have k: "log_ready P s'" "only_at {path} s3 s'" "log_content s' path = log_content s3 path @ log_text_line sev message"
        unfolding run by blast+
      from only_at_trans [OF o k(2)] have "only_at {path, ?t} s s'" by simp
      then show ?thesis using k(1,3) c True by simp
    next
      case not: False
      have "s' = s3"
        by (simp only: s'_def log_round_def Let_def packet_sel s1_def [symmetric] w False if_False s2_def [symmetric]
            s3_def [symmetric] not)
      then show ?thesis using s3 o c not by simp
    qed
  qed
qed

section \<open>Runs\<close>

text \<open>A text as the path it is written to, the characters, and the severity.\<close>

type_synonym log_call = "string \<times> string \<times> severity"

definition call_packets :: "nat \<Rightarrow> log_call \<Rightarrow> log_msg list" where
  "call_packets proc = (\<lambda>(path, message, sev). log_packets proc path message sev)"

definition call_line :: "log_call \<Rightarrow> string" where
  "call_line = (\<lambda>(path, message, sev). log_text_line sev message)"

definition call_ok :: "string set \<Rightarrow> log_call \<Rightarrow> bool" where
  "call_ok P = (\<lambda>(path, message, sev). path \<in> P \<and> message \<noteq> [] \<and> CHR 0x00 \<notin> set message \<and> length message < 2 ^ 64)"

text \<open>
  What is still to come: the texts of each process, of whose first \<open>got\<close> packets have come already.
\<close>

definition to_come :: "(nat \<Rightarrow> log_call list) \<Rightarrow> (nat \<Rightarrow> nat) \<Rightarrow> log_msg list \<Rightarrow> log_server \<Rightarrow> bool" where
  "to_come todo got ms s \<longleftrightarrow> (\<forall>proc.
     filter (\<lambda>m. lm_pid m = proc) ms = drop (got proc) (concat (map (call_packets proc) (todo proc))) \<and>
     (0 < got proc \<longrightarrow> (\<exists>path message sev cs. todo proc = (path, message, sev) # cs \<and>
        got proc < packet_count message \<and> received s proc message (got proc))))"

lemma to_comeD:
  assumes t: "to_come todo got ms s" and c: "todo proc = (path, message, sev) # cs" "call_ok P (path, message, sev)"
  shows "filter (\<lambda>m. lm_pid m = proc) ms =
      map (packet proc path message sev) [got proc..<packet_count message] @ concat (map (call_packets proc) cs)"
    "got proc < packet_count message" "0 < got proc \<Longrightarrow> received s proc message (got proc)"
proof -
  have g: "got proc < packet_count message \<and> (0 < got proc \<longrightarrow> received s proc message (got proc))"
  proof (cases "0 < got proc")
    case True
    then obtain p' m' s' cs' where "todo proc = (p', m', s') # cs'" "got proc < packet_count m'" "received s proc m' (got proc)"
      using t unfolding to_come_def by blast
    then show ?thesis using c(1) by simp
  next
    case False
    then show ?thesis using c(2) packet_count_0 [of message] by (simp add: call_ok_def)
  qed
  then show "got proc < packet_count message" "0 < got proc \<Longrightarrow> received s proc message (got proc)" by blast+
  have "call_packets proc (path, message, sev) = map (packet proc path message sev) [0..<packet_count message]"
    using c(2) by (simp add: call_packets_def call_ok_def log_packets_eq)
  moreover have "filter (\<lambda>m. lm_pid m = proc) ms = drop (got proc) (concat (map (call_packets proc) (todo proc)))"
    using t by (simp add: to_come_def)
  ultimately show "filter (\<lambda>m. lm_pid m = proc) ms =
      map (packet proc path message sev) [got proc..<packet_count message] @ concat (map (call_packets proc) cs)"
    using g by (simp add: c(1) drop_map)
qed

lemma log_serve_ok:
  assumes "log_ready P s" "\<And>proc c. c \<in> set (todo proc) \<Longrightarrow> call_ok P c" "to_come todo got ms s"
    "\<And>m. m \<in> set ms \<Longrightarrow> lm_type m = LOG_PRIOR"
  shows "\<exists>s' lines. log_serve ms s = (s', False) \<and> log_ready P s' \<and>
    (\<forall>p \<in> P. log_content s' p = log_content s p @ concat (map (call_line \<circ> snd) (filter (\<lambda>l. fst (snd l) = p) lines))) \<and>
    (\<forall>proc. map snd (filter (\<lambda>l. fst l = proc) lines) = todo proc)"
  using assms
proof (induction ms arbitrary: s todo got)
  case Nil
  have "todo proc = []" for proc
  proof (cases "todo proc")
    case (Cons c cs)
    obtain path message sev where c: "c = (path, message, sev)" by (cases c) auto
    have "call_ok P (path, message, sev)" using Nil.prems(2) [of c proc] Cons c by simp
    from to_comeD(1,2) [OF Nil.prems(3) Cons [unfolded c] this] show ?thesis by simp
  qed simp
  then show ?case using Nil.prems(1) by (intro exI [of _ s] exI [of _ "[]"]) simp
next
  case (Cons m ms)
  define proc where "proc = lm_pid m"
  have "todo proc \<noteq> []"
  proof
    assume "todo proc = []"
    then have "filter (\<lambda>m. lm_pid m = proc) (m # ms) = []" using Cons.prems(3) by (simp add: to_come_def)
    then show False by (simp add: proc_def)
  qed
  then obtain path message sev cs where c: "todo proc = (path, message, sev) # cs" by (cases "todo proc") auto
  have ok: "call_ok P (path, message, sev)" using Cons.prems(2) [of _ proc] c by simp
  let ?i = "got proc" and ?n = "packet_count message"
  note d = to_comeD [OF Cons.prems(3) c ok]
  have m: "m = packet proc path message sev ?i"
      "filter (\<lambda>m. lm_pid m = proc) ms = map (packet proc path message sev) [Suc ?i..<?n] @ concat (map (call_packets proc) cs)"
    using d(1,2) by (simp_all add: proc_def upt_conv_Cons)
  have n64: "?n < 2 ^ 64" using ok packet_count_le [of message] by (simp add: call_ok_def)
  have path: "path \<in> P" using ok by (simp add: call_ok_def)
  define s1 where "s1 = log_round m s"
  note rd = log_round_ok [OF Cons.prems(1) path d(2) n64 d(3), of sev, folded m(1) s1_def]
  have s1: "log_ready P s1" "only_at {path, tmp_file proc} s s1"
    and last: "?i + 1 = ?n \<Longrightarrow> log_content s1 path = log_content s path @ log_text_line sev message"
    and more: "?i + 1 \<noteq> ?n \<Longrightarrow> log_content s1 path = log_content s path \<and> received s1 proc message (?i + 1)"
    using rd by (auto split: if_splits)
  have types: "lm_type x = LOG_PRIOR" if "x \<in> set ms" for x using Cons.prems(4) that by simp
  have run: "log_serve (m # ms) s = log_serve ms s1"
    using m(1) by (simp add: s1_def packet_sel LOG_PRIOR_def SHUTDOWN_PRIOR_def)
  have tmp: "tmp_file q \<notin> P" for q using Cons.prems(1) by (simp add: log_ready_def)
  have other: "log_content s1 p = log_content s p" if "p \<in> P" "p \<noteq> path" for p
    using only_at_content [OF s1(2)] that tmp by fastforce
  have rest: "filter (\<lambda>m. lm_pid m = q) ms = drop (got q) (concat (map (call_packets q) (todo q)))"
      "0 < got q \<Longrightarrow> \<exists>path message sev cs. todo q = (path, message, sev) # cs \<and>
        got q < packet_count message \<and> received s1 q message (got q)" if "q \<noteq> proc" for q
  proof -
    have "filter (\<lambda>m. lm_pid m = q) (m # ms) = drop (got q) (concat (map (call_packets q) (todo q)))"
      using Cons.prems(3) unfolding to_come_def by blast
    then show "filter (\<lambda>m. lm_pid m = q) ms = drop (got q) (concat (map (call_packets q) (todo q)))"
      using that by (simp add: proc_def)
    have t: "tmp_file q \<notin> {path, tmp_file proc}" using path tmp that tmp_file_inj by auto
    assume "0 < got q"
    then obtain path' message' sev' cs' where q: "todo q = (path', message', sev') # cs'" "got q < packet_count message'"
        "received s q message' (got q)"
      using Cons.prems(3) unfolding to_come_def by blast
    from received_kept [OF q(3) s1(2) t] q(1,2) show "\<exists>path message sev cs. todo q = (path, message, sev) # cs \<and>
        got q < packet_count message \<and> received s1 q message (got q)" by simp
  qed
  show ?case
  proof (cases "?i + 1 = ?n")
    case True
    have tc: "to_come (todo(proc := cs)) (got(proc := 0)) ms s1"
      unfolding to_come_def using rest m(2) True by auto
    have ok': "call_ok P call" if "call \<in> set ((todo(proc := cs)) q)" for q call
      using that Cons.prems(2) [of call proc] Cons.prems(2) [of call q] c by (cases "q = proc") auto
    obtain s' lines where l: "log_serve ms s1 = (s', False)" "log_ready P s'"
        "\<forall>p \<in> P. log_content s' p = log_content s1 p @ concat (map (call_line \<circ> snd) (filter (\<lambda>l. fst (snd l) = p) lines))"
        "\<forall>q. map snd (filter (\<lambda>l. fst l = q) lines) = (todo(proc := cs)) q"
      using Cons.IH [OF s1(1) _ tc] ok' types by blast
    let ?l = "(proc, path, message, sev) # lines"
    have "log_content s' p = log_content s p @ concat (map (call_line \<circ> snd) (filter (\<lambda>l. fst (snd l) = p) ?l))" if "p \<in> P" for p
      using l(3) that last [OF True] other [OF that] by (auto simp: call_line_def)
    moreover have "map snd (filter (\<lambda>l. fst l = q) ?l) = todo q" for q using l(4) c by auto
    ultimately show ?thesis using l(1,2) unfolding run by blast
  next
    case False
    have tc: "to_come todo (got(proc := ?i + 1)) ms s1"
      unfolding to_come_def
    proof
      fix q
      show "filter (\<lambda>m. lm_pid m = q) ms = drop ((got(proc := ?i + 1)) q) (concat (map (call_packets q) (todo q))) \<and>
        (0 < (got(proc := ?i + 1)) q \<longrightarrow> (\<exists>path message sev cs. todo q = (path, message, sev) # cs \<and>
          (got(proc := ?i + 1)) q < packet_count message \<and> received s1 q message ((got(proc := ?i + 1)) q)))"
      proof (cases "q = proc")
        case True
        have "call_packets proc (path, message, sev) = map (packet proc path message sev) [0..<?n]"
          using ok by (simp add: call_packets_def call_ok_def log_packets_eq)
        then have "filter (\<lambda>m. lm_pid m = proc) ms = drop (?i + 1) (concat (map (call_packets proc) (todo proc)))"
          using m(2) d(2) by (simp add: c drop_map)
        then show ?thesis using True more [OF False] d(2) False c by auto
      qed (use rest in auto)
    qed
    obtain s' lines where l: "log_serve ms s1 = (s', False)" "log_ready P s'"
        "\<forall>p \<in> P. log_content s' p = log_content s1 p @ concat (map (call_line \<circ> snd) (filter (\<lambda>l. fst (snd l) = p) lines))"
        "\<forall>q. map snd (filter (\<lambda>l. fst l = q) lines) = todo q"
      using Cons.IH [OF s1(1) _ tc] Cons.prems(2) types by blast
    have "log_content s1 p = log_content s p" if "p \<in> P" for p
      using other [OF that] more [OF False] by (cases "p = path") auto
    then show ?thesis using l unfolding run by (intro exI [of _ s'] exI [of _ lines]) (simp add: comp_def)
  qed
qed

section \<open>The server loggers\<close>

text \<open>The texts that a call of \<open>log\<close> sends; an empty text sends none.\<close>

definition log_calls :: "log_config \<times> string \<times> severity \<Rightarrow> log_call list" where
  "log_calls = (\<lambda>(conf, message, sev). if message = [] then []
     else map (\<lambda>(p, _). (p, message, sev)) (filter (\<lambda>(_, sevs). sev \<in> sevs) conf))"

definition sends :: "nat \<Rightarrow> (log_config \<times> string \<times> severity) list \<Rightarrow> log_msg list option" where
  "sends proc logs = map_option concat (those (map (\<lambda>(conf, message, sev). server_log proc conf message sev) logs))"

lemma server_log_calls:
  assumes "server_log proc conf message sev = Some ms" "\<forall>p \<in> fst ` set conf. CHR 0x00 \<notin> set p"
  shows "ms = concat (map (call_packets proc) (log_calls (conf, message, sev)))"
  using assms
proof (induction conf arbitrary: ms)
  case (Cons r conf)
  obtain p sevs where r: "r = (p, sevs)" by (cases r) auto
  have e: "log_packets proc p [] sev = []" for p by (simp add: log_packets_def MAX_MSG_TEXT_SIZE_def)
  show ?case
  proof (cases "sev \<in> sevs")
    case True
    then obtain path rest where s: "strcpy 256 p = Some path" "server_log proc conf message sev = Some rest"
        "ms = log_packets proc path message sev @ rest"
      using Cons.prems(1) by (auto simp: r split: bind_splits)
    moreover have "path = p" using s(1) Cons.prems(2) by (auto simp: r strcpy_def c_str_plain split: if_splits)
    ultimately show ?thesis using Cons.IH [of rest] Cons.prems(2) True e
      by (auto simp: r log_calls_def call_packets_def)
  next
    case False
    then show ?thesis using Cons.IH [of ms] Cons.prems by (simp add: r log_calls_def)
  qed
qed (simp add: log_calls_def)

lemma sends_calls:
  assumes "sends proc logs = Some ms" "\<forall>(conf, message, sev) \<in> set logs. \<forall>p \<in> fst ` set conf. CHR 0x00 \<notin> set p"
  shows "ms = concat (map (call_packets proc) (concat (map log_calls logs)))"
  using assms
proof (induction logs arbitrary: ms)
  case (Cons l logs)
  obtain conf message sev where l: "l = (conf, message, sev)" by (cases l) auto
  obtain ms1 ms2 where m: "server_log proc conf message sev = Some ms1" "sends proc logs = Some ms2" "ms = ms1 @ ms2"
    using Cons.prems(1) by (auto simp: l sends_def split: option.splits)
  have "ms1 = concat (map (call_packets proc) (log_calls l))"
    using server_log_calls [OF m(1)] Cons.prems(2) by (simp add: l)
  then show ?case using Cons.IH [OF m(2)] Cons.prems(2) m(3) by simp
qed (simp add: sends_def)

lemma call_packets_type: "call_ok P c \<Longrightarrow> m \<in> set (call_packets proc c) \<Longrightarrow> lm_type m = LOG_PRIOR"
  by (cases c) (auto simp: call_packets_def call_ok_def log_packets_eq packet_sel)

text \<open>What the texts and the paths of the loggers must be like.\<close>

definition loggable :: "string set \<Rightarrow> (log_config \<times> string \<times> severity) list \<Rightarrow> bool" where
  "loggable P logs \<longleftrightarrow> (\<forall>(conf, message, sev) \<in> set logs.
     CHR 0x00 \<notin> set message \<and> length message < 2 ^ 64 \<and> (\<forall>p \<in> fst ` set conf. p \<in> P \<and> CHR 0x00 \<notin> set p))"

lemma logs_whole:
  assumes r: "log_ready P s" and logs: "\<And>proc. loggable P (logs proc)"
    and sent: "\<And>proc. sends proc (logs proc) = Some (filter (\<lambda>m. lm_pid m = proc) ms)"
  shows "\<exists>s' lines. log_serve ms s = (s', False) \<and> log_ready P s' \<and>
    (\<forall>p \<in> P. log_content s' p = log_content s p @ concat (map (call_line \<circ> snd) (filter (\<lambda>l. fst (snd l) = p) lines))) \<and>
    (\<forall>proc. map snd (filter (\<lambda>l. fst l = proc) lines) = concat (map log_calls (logs proc)))"
proof -
  let ?todo = "\<lambda>proc. concat (map log_calls (logs proc))"
  have ok: "call_ok P c" if "c \<in> set (?todo proc)" for proc c
    using that logs [of proc] by (fastforce simp: loggable_def log_calls_def call_ok_def split: if_splits)
  have eq: "filter (\<lambda>m. lm_pid m = proc) ms = concat (map (call_packets proc) (?todo proc))" for proc
    by (rule sends_calls [OF sent]) (use logs [of proc] in \<open>fastforce simp: loggable_def\<close>)
  have "to_come ?todo (\<lambda>_. 0) ms s" by (simp add: to_come_def eq)
  moreover have "lm_type m = LOG_PRIOR" if "m \<in> set ms" for m
  proof -
    have "m \<in> set (filter (\<lambda>x. lm_pid x = lm_pid m) ms)" using that by simp
    then obtain c where "c \<in> set (?todo (lm_pid m))" "m \<in> set (call_packets (lm_pid m) c)" unfolding eq by auto
    then show ?thesis using call_packets_type ok by blast
  qed
  ultimately show ?thesis using log_serve_ok [OF r, of ?todo "\<lambda>_. 0" ms] ok by blast
qed

end
