(* ===== verification/Logger_Properties.thy ===== *)
theory Logger_Properties
  imports Loggers_Correct Logging_Correct
begin

text \<open>
  The properties of the loggers. The witnesses run them on an empty file system.
\<close>

section \<open>The client loggers\<close>

definition no_files :: file_system where
  "no_files = \<lparr>fs_entries = [], fs_full = False\<rparr>"

text \<open>
  C23. Client loggers may be built, copied, assigned, moved, destroyed and used in any order: the static map holds
  exactly the files that some logger writes to, a stream is on the heap exactly as long as it is in the
  map, and no logger ever writes to a stream that was closed or counts a file that is not there. That holds as
  long as fewer than 2^63 loggers live at one time.
\<close>

theorem loggers_share_files:
  assumes "loggers_run w ls"
  shows "(\<forall>p. p \<noteq> [] \<longrightarrow> (lw_all w p \<noteq> None \<longleftrightarrow> (\<exists>lg \<in> set ls. p \<in> fst ` set (cl_streams lg)))) \<and>
    (\<forall>i. lw_heap w i \<noteq> None \<longleftrightarrow> (\<exists>p n. p \<noteq> [] \<and> lw_all w p = Some (File_stream i, n))) \<and>
    (\<forall>lg \<in> set ls. client_logger_destroy lg w \<noteq> None \<and>
      (\<forall>datetime message sev. 11 \<le> length datetime \<longrightarrow> client_log datetime lg message sev w \<noteq> None))"
proof (intro conjI)
  have ok: "loggers_ok w ls" by (rule loggers_run_ok [OF assms])
  show "\<forall>p. p \<noteq> [] \<longrightarrow> (lw_all w p \<noteq> None \<longleftrightarrow> (\<exists>lg \<in> set ls. p \<in> fst ` set (cl_streams lg)))"
    by (intro allI impI map_iff_used [OF ok])
  show "\<forall>i. lw_heap w i \<noteq> None \<longleftrightarrow> (\<exists>p n. p \<noteq> [] \<and> lw_all w p = Some (File_stream i, n))"
    by (intro allI heap_iff_map [OF ok])
  show "\<forall>lg \<in> set ls. client_logger_destroy lg w \<noteq> None \<and>
      (\<forall>datetime message sev. 11 \<le> length datetime \<longrightarrow> client_log datetime lg message sev w \<noteq> None)"
    using decrement_logger_ok [OF ok] log_kept [OF ok] by blast
qed

definition ex_log :: "((log_exn + client_logger) \<times> log_world) option" where
  "ex_log = client_logger_new ''[%s]: %m'' [([], {Sev_debug}), (''log'', {Sev_error})] (log_world_new no_files)"

lemma ex_log_new: "\<exists>lg w. ex_log = Some (Inr lg, w)"
  by (simp add: ex_log_def client_logger_new_def fs_open_trunc_def fs_open_append_def fs_lookup_def no_files_def
      parent_ok_def parent_of_def log_world_new_def)

theorem loggers_share_files_witness:
  "\<exists>lg w w'. ex_log = Some (Inr lg, w) \<and> loggers_run w' [lg] \<and> client_log ''01.02.2024 10:20:30'' lg ''x'' Sev_error w' \<noteq> None"
proof -
  obtain lg w where l: "ex_log = Some (Inr lg, w)" using ex_log_new by blast
  have "loggers_run w [lg]"
    by (rule run_new [OF run_start [of no_files]]) (use l in \<open>auto simp: ex_log_def\<close>)
  then have c: "loggers_run (snd (client_logger_copy lg w)) [lg, lg]"
    by (rule run_copy [where lg = lg]) (simp_all add: client_logger_copy_def)
  obtain w' where "client_logger_destroy lg (snd (client_logger_copy lg w)) = Some w'"
    using loggers_share_files [OF c] by auto
  then have r: "loggers_run w' [lg]" using run_destroy [of _ "[]" lg "[lg]"] c by simp
  have "client_log ''01.02.2024 10:20:30'' lg ''x'' Sev_error w' \<noteq> None"
    using loggers_share_files [OF r] by (simp del: not_None_eq)
  then show ?thesis using l r by blast
qed

section \<open>The logging server\<close>

text \<open>
  C22. However the packets of several processes mix in the queue, the logging server writes every text whole, on a
  line of its own with its severity, into every file whose configuration asks for it, and the texts of one process
  in their order; only an empty text is lost. That holds as long as the files can be opened, the device is
  not full, and no file for the log has the name of the file in which the packets of a process are collected.
\<close>

theorem logs_arrive_whole:
  assumes "log_ready P s" "\<And>proc. loggable P (logs proc)"
    and "\<And>proc. sends proc (logs proc) = Some (filter (\<lambda>m. lm_pid m = proc) ms)"
  shows "\<exists>s' lines. log_serve ms s = (s', False) \<and>
    (\<forall>p \<in> P. log_content s' p = log_content s p @ concat (map (call_line \<circ> snd) (filter (\<lambda>l. fst (snd l) = p) lines))) \<and>
    (\<forall>proc. map snd (filter (\<lambda>l. fst l = proc) lines) = concat (map log_calls (logs proc)))"
  using logs_whole [OF assms] by blast

definition ex_text :: string where
  "ex_text = replicate 1025 CHR ''a''"

definition ex_logs :: "nat \<Rightarrow> (log_config \<times> string \<times> severity) list" where
  "ex_logs proc =
     (if proc = 1 then [([(''log'', {Sev_error})], ex_text, Sev_error)]
      else if proc = 2 then [([(''log'', {Sev_debug})], ''b'', Sev_debug), ([(''log'', {Sev_debug})], [], Sev_debug)]
      else [])"

definition ex_packets :: "log_msg list" where
  "ex_packets = [packet 1 ''log'' ex_text Sev_error 0, packet 2 ''log'' ''b'' Sev_debug 0, packet 1 ''log'' ex_text Sev_error 1]"

definition ex_log_server :: log_server where
  "ex_log_server = \<lparr>ls_fs = no_files, ls_streams = Map.empty, ls_out = [], ls_err = []\<rparr>"

theorem logs_arrive_whole_witness:
  "\<exists>s' lines. log_serve ex_packets ex_log_server = (s', False) \<and>
    log_content s' ''log'' = concat (map (call_line \<circ> snd) (filter (\<lambda>l. fst (snd l) = ''log'') lines)) \<and>
    map snd (filter (\<lambda>l. fst l = (1 :: nat)) lines) = [(''log'', ex_text, Sev_error)] \<and>
    map snd (filter (\<lambda>l. fst l = 2) lines) = [(''log'', ''b'', Sev_debug)]"
proof -
  have len: "packet_count ex_text = 2" "packet_count ''b'' = 1" "length ex_text < 2 ^ 64" "CHR 0x00 \<notin> set ex_text"
    by (simp_all add: packet_count_def ex_text_def MAX_MSG_TEXT_SIZE_def)
  have tmp: "tmp_file proc \<noteq> ''log''" "parent_of (tmp_file proc) = None" for proc
    using show_nat_digits [of proc] by (auto simp: tmp_file_def parent_of_def is_digit_def)
  have r: "log_ready {''log''} ex_log_server"
    using tmp by (auto simp: log_ready_def ex_log_server_def no_files_def takes_lines_def openable_def fs_lookup_def
        parent_ok_def parent_of_def)
  have l: "loggable {''log''} (ex_logs proc)" for proc
    using len by (auto simp: loggable_def ex_logs_def)
  have s: "sends proc (ex_logs proc) = Some (filter (\<lambda>m. lm_pid m = proc) ex_packets)" for proc
    using len by (simp add: sends_def ex_logs_def ex_packets_def strcpy_def c_str_def log_packets_eq packet_sel upt_rec packet_count_0 [of "[]", simplified])
  obtain s' lines where "log_serve ex_packets ex_log_server = (s', False)"
      "\<forall>p \<in> {''log''}. log_content s' p = log_content ex_log_server p @ concat (map (call_line \<circ> snd) (filter (\<lambda>l. fst (snd l) = p) lines))"
      "\<forall>proc. map snd (filter (\<lambda>l. fst l = proc) lines) = concat (map log_calls (ex_logs proc))"
    using logs_arrive_whole [OF r l s] by blast
  moreover have "log_content ex_log_server ''log'' = []" by (simp add: log_content_def ex_log_server_def no_files_def fs_open_read_def fs_lookup_def)
  moreover have "ex_text \<noteq> []" by (simp add: ex_text_def)
  ultimately show ?thesis
    by (intro exI [of _ s'] exI [of _ lines]) (simp add: ex_logs_def log_calls_def)
qed

end
