(* ===== verification/Spec2Isabelle.thy ===== *)
theory Spec2Isabelle
  imports Tree_Properties Collection_Properties Allocator_Properties Client_Properties
    Logger_Properties
begin

text \<open>
  A verification library for the B-tree data manager: a database of named pools, schemas and collections of
  records, whose collections are B-trees, kept in memory or in files, and served to clients by
  a manager and several storage processes.

  \<^bold>\<open>The program and the theories\<close>

  The parts build on each other. \<open>search_tree.h\<close> and \<open>b_tree.h\<close> are a B-tree over raw arrays with an
  allocator. \<open>db_storage.cpp\<close> puts such trees into each other: the storage is a tree from names to pools, a
  pool one from names to schemas, a schema one from names to collections, a collection one from keys to
  pointers to \<open>tdata\<close> objects (\<open>tdata.cpp\<close>), which hold the value or its position in a file. A storage
  server (\<open>db_storage_server.cpp\<close>) is a loop around one storage, the manager (\<open>manager_server.cpp\<close>) routes
  messages among these servers, the client (\<open>client.cpp\<close>) turns lines into messages.

  \<^item> The tree. \<open>Prelude\<close> (checked arrays, the rotations made of swaps), \<open>Search_Tree\<close> (nodes, search, insertion,
    split and merge of \<open>search_tree.h\<close>), \<open>B_Tree\<close> (the class of \<open>b_tree.h\<close>: construction, insertion, update,
    lookup, disposal, copies, moves, clearing), \<open>Iterators\<close> (the four iterator classes and \<open>obtain_between\<close>),
    \<open>Comparers\<close> (the comparers of \<open>associative_container.h\<close> and \<open>tdata.cpp\<close>). A node is a datatype with both
    arrays in full length; an array access outside and a read of a dead slot is \<open>Undefined_behaviour\<close>. Each
    operation takes the tree and gives the outcome, an exception or a value, and the new tree. Facts:
    \<open>Node_Lemmas\<close>, \<open>Tree_Paths\<close>, \<open>Tree_Insertion\<close>, \<open>Tree_Disposal\<close>, \<open>Dispose_Correct\<close>, \<open>Iteration\<close>, \<open>Tree_Copy\<close>,
    \<open>Container\<close>, and the properties in \<open>Tree_Properties\<close>.
  \<^item> The storage. \<open>File_System\<close> (paths, directories, files and text input as the code uses them), \<open>Records\<close>
    (\<open>tdata.cpp\<close>, \<open>flyweight.h\<close>), \<open>Collection\<close> (the collections of \<open>db_storage.cpp\<close>), \<open>Structures\<close> (schemas and pools),
    \<open>Storage\<close> (setup, the validators, the operations on structures and on records), \<open>Loading\<close> (\<open>load_db\<close>,
    \<open>load_collection\<close>, \<open>clear\<close>). The singleton is a record that each call takes and returns, also when it
    throws; the exceptions of \<open>db_storage.h\<close> are the constructors of \<open>db_exn\<close>. Facts: \<open>Collection_Correct\<close>,
    \<open>Collection_Queries\<close>, \<open>Consolidation\<close>, \<open>Collection_Invariant\<close>, \<open>Named_Trees\<close>, \<open>Storage_Correct\<close>,
    \<open>Storage_Invariant\<close>, \<open>Storage_Steps\<close>, \<open>Storage_Reachable\<close> (the calls as a step relation, \<open>db_step\<close>),
    \<open>Storage_Records\<close>, and the properties in \<open>Collection_Properties\<close> and \<open>Storage_Properties\<close>.
  \<^item> The allocators. \<open>Arena\<close> (a memory of eight-byte cells), \<open>Blocks\<close> (what an allocator promises, on lists of
    blocks), \<open>Allocator_Client\<close> (what a client may do), \<open>Sorted_List_Allocator\<close>, \<open>Boundary_Tags_Allocator\<close>,
    \<open>Buddies_System_Allocator\<close>, \<open>Red_Black_Allocator\<close> and \<open>Global_Heap\<close> (the classes, the last one with the
    guardant), \<open>Sorted_List_Correct\<close>, \<open>Boundary_Tags_Correct\<close>, \<open>Buddies_System_Correct\<close>,
    \<open>Red_Black_Correct\<close>, \<open>Allocator_Properties\<close>. The buddies system has a map of tag bytes beside the cells, the
    red-black tree one of the characters in the headers.
  \<^item> The loggers. \<open>Loggers\<close> (severities, the client logger with the static map of the streams that all of
    them share, the builder), \<open>Logging_Server\<close> (the server logger, which cuts texts into packets, and the
    server that puts them together). Facts: \<open>Loggers_Correct\<close>, \<open>Logging_Correct\<close>, \<open>Logger_Properties\<close>.
  \<^item> The processes. \<open>Ipc_Data\<close> (\<open>ipc_data.h\<close> and the message queue), \<open>Storage_Server\<close> (one function for each
    case of the server's switch), \<open>Manager_Server\<close> (the handlers of the manager), \<open>Client\<close> (reading command
    lines) and \<open>Client_Session\<close> (answers, command files, the session). Facts: \<open>Server_Correct\<close>, \<open>Cluster\<close>,
    \<open>Cluster_Moves\<close>, \<open>Cluster_Requests\<close>, \<open>Client_Correct\<close>, and the properties in \<open>Cluster_Properties\<close> and
    \<open>Client_Properties\<close>.

  \<^bold>\<open>What is shown\<close>

  The tree refines a sorted list of entries: under the invariant (order, fill, equal height, live slots) insertion,
  update, lookup, range query and disposal do what they should on the list, on every branch, with
  their exceptions; the invariant is kept; a copy has the entries of its source. Where the code fails the
  theorems say when: the merge of two children of a full parent writes behind its arrays, an
  insertion without memory after a split loses entries, the reverse iterators do not move.

  A collection refines such a list as well, in memory and in a file, where the record of each entry
  stands at the position that its object holds; consolidation leaves exactly the records of the list. A storage stays
  well-formed under the calls of \<open>db_step\<close>, as long as memory suffices and no disposal meets a full inner node
  (\<open>db_reachable\<close>), and a call on records changes the list of its own collection only. Disposing of a pool, schema or
  collection that is not the last of its leaf swaps a null pointer, which is undefined (\<open>disposal_swaps_null\<close>).

  The allocators refine a list of blocks: first, best and worst fit carve the block they should, deallocation
  joins free neighbours, and what a client gets is inside the memory and apart from what it has, as long as its
  requests do not wrap around with the header. The buddies system halves blocks as it should, but its deallocation gives nothing back and its last free block
  cannot be taken whole. The tree of free blocks of the red-black tree allocator is read by \<open>rb_search\<close>: insertions keep
  its order and the three fits find a block if there is one (\<open>Red_Black_Correct\<close>), but its colours are not those of
  a red-black tree, and for removals there are no theorems, since they leave wrong pointers. The loggers keep exactly
  the files open that they write to, and the logging server writes every text whole, however the packets of several
  processes mix.

  A storage server refines \<open>data_reply\<close>, a function of the message and the sorted list. The manager with
  all its servers refines one such server with all records between two redistributions (\<open>request\<close>), moving the greatest record
  to the right neighbour keeps what is found, moving one to the left does not; and from the command line
  to the printed answer \<open>obtain\<close> shows the record that some server holds.

  \<^bold>\<open>Interfaces\<close>

  \<open>key_order\<close> is what a comparer promises (\<open>Search_Tree\<close>, interpreted on the four comparers in \<open>Comparers\<close>);
  \<open>assoc_container\<close> and \<open>disposing_container\<close> are the contract of \<open>associative_container.h\<close> (\<open>Container\<close>, with
  the B-tree as a sublocale of \<open>key_order\<close>); \<open>table\<close> is the contract of a collection (\<open>Collection_Queries\<close>),
  \<open>block_allocator\<close> that of an allocator (\<open>Allocator_Client\<close>, interpreted on both allocators), \<open>record_server\<close> that
  of a storage server (\<open>Server_Correct\<close>, interpreted on \<open>handle_msg\<close>).

  \<^bold>\<open>Bounds and fuel\<close>

  The descents end by the size of the node. The loop of \<open>obtain_between\<close> has as fuel the number of nodes
  and entries it can meet, the loops of the allocators the size of the memory, since each step goes to a greater address;
  \<open>None\<close>, the end of the fuel, is excluded by the theorems. The exponents of
  the buddies system are those for which \<open>1 << k\<close> is an \<open>int\<close>, and \<open>ceil(log2(n))\<close> is exact, which it is in
  floating point up to 2^47. The manager waits as often as \<open>msgrcvt\<close> looks. Two loops
  of the code may not end and are partial functions with the value \<open>None\<close>: \<open>undo_loop\<close> and a command file
  that executes itself in \<open>run_session\<close>. Sizes, counters and the words of the allocators are \<open>64 word\<close>; \<open>bt_fits\<close>
  keeps \<open>2 * t - 1\<close> an exact number, \<open>int\<close> parameters of the manager wrap at 32 bits.

  \<^bold>\<open>What is left out, and how the model differs\<close>

  \<^item> Not modelled: \<open>dbms/database\<close> (a template that nothing includes), the vendored and generated build trees. Mutexes
    and log messages are left out everywhere, but not the memory that a message reads.
  \<^item> The clock, \<open>weakly_canonical\<close> and the parser of JSON are parameters of the loggers; a write to a stream
    reaches its file at the end of the line.
  \<^item> The trees and the storage see memory as a number of objects that are left, not as one of the
    allocators, and every tree counts its own nodes. Destroying or swapping a raw slot is not
    treated as undefined; accesses outside the arrays and reads of dead slots are. Each
    collection keeps its own store of \<open>tdata\<close> objects, since no pointer to one leaves it.
  \<^item> \<open>obtain_next\<close> and the counters of a collection start with what the memory holds (\<open>env_junk\<close>) because the moves
    of a collection do not copy them; the counters then go along with the collection, where the code leaves them in
    the slot when a tree of collections shifts its pairs. The quotient with 0.35 in \<open>collect_garbage\<close> is exact. \<open>std::isalnum\<close> is
    that of the C locale, false above 127.
  \<^item> \<open>db_step\<close> has no consolidation, no loading, no \<open>clear\<close> and no \<open>add_collection\<close> that throws in the middle: for
    these the invariant is not claimed. Calls with undefined behaviour are no steps.
  \<^item> A swap of a slot from which a pool, schema or collection was moved away is undefined in the disposal of
    structures; in the trees of records, whose values are pointers, it has no effect. The end of a full
    packet, one byte behind its array, and the eight bytes too many that are sent are taken as harmless.
  \<^item> The queue is never full, each storage server has a file system of its own, and the pool of shared
    strings is left out of the servers. What the other processes do while the manager waits is a
    schedule, an argument of the theorems; \<open>prompt\<close> says that the servers answer within the looks that
    \<open>msgrcvt\<close> takes. A message that the code does not initialise holds \<open>w_junk\<close>.
  \<^item> \<open>load_config\<close> and \<open>load_separators\<close> stand under a constant that is false; the threads that read the
    terminal and the emptying of the queue at the start are left out.
\<close>

end
